(* ===== verification/Prelude.thy ===== *)
theory Prelude
  imports Main "HOL-Library.Word"
begin

text \<open>
  Shared vocabulary of the development: the machine types of the C code, the error numbers
  its functions return, the allocator as a tape of outcomes, byte strings, and the generic
  facts on lists that the component theories use.

  Conventions.  A \<^verbatim>\<open>char\<close> or \<^verbatim>\<open>unsigned char\<close> is a \<open>byte\<close> (8 bit word), an
  \<^verbatim>\<open>uint64_t\<close> a \<open>u64\<close>, an \<^verbatim>\<open>uint32_t\<close> a \<open>u32\<close>.  A \<^verbatim>\<open>size_t\<close> that counts bytes of an object in
  memory is a \<open>nat\<close>, since such a count cannot wrap; where the code itself guards against
  wrap-around the guard is written out against \<open>SIZE_MAX\<close>, or the value is a \<open>u64\<close>.
  The target is the 64-bit Linux the program is built for.
\<close>

section \<open>Machine types\<close>

type_synonym byte = "8 word"
type_synonym u32 = "32 word"
type_synonym u64 = "64 word"
type_synonym bytes = "byte list"

definition SIZE_MAX :: nat where
  "SIZE_MAX = 18446744073709551615"

abbreviation ch :: "char \<Rightarrow> byte" where
  "ch c \<equiv> of_char c"

text \<open>A C string literal, without its final NUL.\<close>

definition ascii :: "string \<Rightarrow> bytes" where
  "ascii s = map of_char s"

lemma length_ascii [simp]: "length (ascii s) = length s"
  by (simp add: ascii_def)

text \<open>Widening keeps the value.\<close>

lemma unat_ucast_32: "unat (ucast (y :: u32) :: u64) = unat y"
  by (simp add: unsigned_ucast_eq unsigned_take_bit_eq [symmetric]) (simp add: take_bit_word_eq_self)

section \<open>Error numbers\<close>

text \<open>
  The \<^verbatim>\<open>errno\<close> values that the modelled functions return.  A function that returns
  0 or an error number gives an \<open>errno option\<close> (\<open>None\<close> is 0); one that returns a value or an
  error gives an \<open>errno + 'a\<close>.
\<close>

datatype errno =
    EINVAL | ENOMEM | ENOBUFS | EOVERFLOW | EEXIST | EBUSY | ENOSPC | ENOENT
  | EALREADY | EPIPE | EFAULT | EILSEQ | EAGAIN | EACCES | EIO | ECANCELED | EINTR

section \<open>The allocator\<close>

text \<open>
  \<^verbatim>\<open>malloc()\<close>, \<^verbatim>\<open>calloc()\<close> and \<^verbatim>\<open>realloc()\<close> succeed or fail as the environment decides.  The outcomes
  of the allocations to come are a tape of booleans that each allocation consumes from; an
  exhausted tape grants the rest.  A statement for all tapes is a statement for every
  behaviour of the allocator.
\<close>

type_synonym allocs = "bool list"

fun alloc :: "allocs \<Rightarrow> bool \<times> allocs" where
  "alloc [] = (True, [])"
| "alloc (b # bs) = (b, bs)"

lemma alloc_Nil [simp]: "fst (alloc []) = True" "snd (alloc []) = []"
  by simp_all

section \<open>Memory\<close>

text \<open>
  \<^verbatim>\<open>memcpy(buf + off, src, n)\<close> and \<^verbatim>\<open>memset()\<close> on a block of storage.  A write past the end of the
  block would make the block longer, so an invariant that fixes the length of the block is
  a proof that the writes stay inside it.
\<close>

definition overwrite :: "'a list \<Rightarrow> nat \<Rightarrow> 'a list \<Rightarrow> 'a list" where
  "overwrite buf off src = take off buf @ src @ drop (off + length src) buf"

lemma length_overwrite [simp]:
  "off + length src \<le> length buf \<Longrightarrow> length (overwrite buf off src) = length buf"
  by (simp add: overwrite_def)

lemma overwrite_Nil [simp]: "overwrite buf off [] = buf"
  by (simp add: overwrite_def)

lemma take_overwrite [simp]:
  "off \<le> length buf \<Longrightarrow> take (off + length src) (overwrite buf off src) = take off buf @ src"
  by (simp add: overwrite_def)

lemma take_overwrite_before [simp]:
  "n \<le> off \<Longrightarrow> off \<le> length buf \<Longrightarrow> take n (overwrite buf off src) = take n buf"
  by (simp add: overwrite_def min_def)

lemma drop_overwrite [simp]:
  "off \<le> length buf \<Longrightarrow> off + length src \<le> n \<Longrightarrow> drop n (overwrite buf off src) = drop n buf"
  by (auto simp: overwrite_def min_def)

lemma nth_overwrite_outside:
  "off \<le> length buf \<Longrightarrow> i < off \<or> off + length src \<le> i \<Longrightarrow> i < length buf \<Longrightarrow>
     overwrite buf off src ! i = buf ! i"
  by (auto simp: overwrite_def nth_append min_def)

definition zeros :: "nat \<Rightarrow> bytes" where
  "zeros n = replicate n 0"

lemma length_zeros [simp]: "length (zeros n) = n"
  by (simp add: zeros_def)

lemma zeros_append: "zeros m @ zeros n = zeros (m + n)"
  by (simp add: zeros_def replicate_add)

lemma take_zeros [simp]: "take m (zeros n) = zeros (min m n)"
  by (simp add: zeros_def min.commute)

lemma drop_zeros [simp]: "drop m (zeros n) = zeros (n - m)"
  by (simp add: zeros_def)

lemma zeros_0 [simp]: "zeros 0 = []"
  by (simp add: zeros_def)

lemma zeros_Suc: "zeros (Suc n) = 0 # zeros n"
  by (simp add: zeros_def)

section \<open>Standard library functions on bytes\<close>

text \<open>\<^verbatim>\<open>memchr()\<close>: the index of the first byte that equals \<open>c\<close>.\<close>

fun memchr :: "byte \<Rightarrow> bytes \<Rightarrow> nat option" where
  "memchr c [] = None"
| "memchr c (x # xs) = (if x = c then Some 0 else map_option Suc (memchr c xs))"

lemma memchr_None_iff: "memchr c xs = None \<longleftrightarrow> c \<notin> set xs"
  by (induction xs) auto

lemma memchr_SomeD:
  "memchr c xs = Some n \<Longrightarrow> n < length xs \<and> xs ! n = c \<and> c \<notin> set (take n xs)"
  by (induction xs arbitrary: n) (auto split: if_splits)

lemma memchr_split:
  assumes "memchr c xs = Some n"
  shows "xs = take n xs @ c # drop (Suc n) xs"
  using memchr_SomeD [OF assms] by (metis id_take_nth_drop)

lemma memchr_append [simp]:
  "c \<notin> set xs \<Longrightarrow> memchr c (xs @ c # ys) = Some (length xs)"
  by (induction xs) auto

text \<open>\<^verbatim>\<open>memcmp()\<close> on two runs of one length: the order of the first bytes that differ.\<close>

fun memcmp :: "bytes \<Rightarrow> bytes \<Rightarrow> int" where
  "memcmp (x # xs) (y # ys) = (if x = y then memcmp xs ys else if x < y then -1 else 1)"
| "memcmp _ _ = 0"

lemma memcmp_self [simp]: "memcmp xs xs = 0"
  by (induction xs) auto

lemma memcmp_eq_0: "length xs = length ys \<Longrightarrow> memcmp xs ys = 0 \<longleftrightarrow> xs = ys"
  by (induction xs ys rule: list_induct2) auto

lemma memcmp_anti: "memcmp xs ys = - memcmp ys xs"
  by (induction xs ys rule: memcmp.induct) auto

lemma memcmp_range: "memcmp xs ys \<in> {-1, 0, 1}"
  by (induction xs ys rule: memcmp.induct) auto

section \<open>Lists\<close>

text \<open>The pieces of a list between the separators \<open>c\<close>: always at least one.\<close>

fun split_on :: "'a \<Rightarrow> 'a list \<Rightarrow> 'a list list" where
  "split_on c [] = [[]]"
| "split_on c (x # xs) =
     (if x = c then [] # split_on c xs
      else (case split_on c xs of [] \<Rightarrow> [[x]] | p # ps \<Rightarrow> (x # p) # ps))"

lemma split_on_not_Nil [simp]: "split_on c xs \<noteq> []"
  by (induction xs) (auto split: list.splits)

lemma split_on_notin [simp]: "c \<notin> set xs \<Longrightarrow> split_on c xs = [xs]"
  by (induction xs) auto

lemma split_on_append [simp]:
  "c \<notin> set xs \<Longrightarrow> split_on c (xs @ c # ys) = xs # split_on c ys"
  by (induction xs) auto

lemma takeWhile_neq_append [simp]:
  "c \<notin> set xs \<Longrightarrow> takeWhile (\<lambda>x. x \<noteq> c) (xs @ c # ys) = xs"
  by (induction xs) auto

lemma dropWhile_neq_append [simp]:
  "c \<notin> set xs \<Longrightarrow> dropWhile (\<lambda>x. x \<noteq> c) (xs @ c # ys) = c # ys"
  by (induction xs) auto

lemma take_drop_middle: "a \<le> b \<Longrightarrow> take a xs @ take (b - a) (drop a xs) = take b xs"
  by (metis le_add_diff_inverse take_add)

section \<open>Linked records\<close>

text \<open>
  A record in memory is named by a number.  \<open>linked nxt p xs\<close> says that the pointer \<open>p\<close> leads
  through the records \<open>xs\<close> along the member that \<open>nxt\<close> reads, and ends there.
\<close>

type_synonym ref = nat

fun linked :: "('r \<Rightarrow> 'r option) \<Rightarrow> 'r option \<Rightarrow> 'r list \<Rightarrow> bool" where
  "linked nxt p [] \<longleftrightarrow> p = None"
| "linked nxt p (x # xs) \<longleftrightarrow> p = Some x \<and> linked nxt (nxt x) xs"

lemma linked_None [simp]: "linked nxt None xs \<longleftrightarrow> xs = []"
  by (cases xs) auto

lemma linked_unique: "linked nxt p xs \<Longrightarrow> linked nxt p ys \<Longrightarrow> xs = ys"
proof (induction xs arbitrary: p ys)
  case Nil
  then show ?case by (cases ys) auto
next
  case (Cons x xs)
  then show ?case by (cases ys) auto
qed

lemma linked_cong: "(\<And>x. x \<in> set xs \<Longrightarrow> nxt' x = nxt x) \<Longrightarrow> linked nxt' p xs = linked nxt p xs"
  by (induction xs arbitrary: p) auto

lemma linked_snoc_append:
  "linked nxt p (xs @ [x]) \<Longrightarrow> distinct (xs @ [x]) \<Longrightarrow> nxt' x = q \<Longrightarrow>
     (\<And>y. y \<in> set xs \<Longrightarrow> nxt' y = nxt y) \<Longrightarrow> linked nxt' q ys \<Longrightarrow> linked nxt' p ((xs @ [x]) @ ys)"
  by (induction xs arbitrary: p) auto

section \<open>Words\<close>

lemma unat_drop_bit_div: "unat (drop_bit k (w :: 'a::len word)) = unat w div 2 ^ k"
  by (metis drop_bit_eq_div unat_drop_bit_eq)

lemma diff_mult_div:
  assumes "0 < (b::nat)" "m * b \<le> a"
  shows "(a - m * b) div b = a div b - m"
proof -
  obtain c where "a = c + m * b" using assms(2) by (metis le_add_diff_inverse2)
  then show ?thesis using assms(1) by simp
qed

lemma unat_less_64: "unat (w :: u64) < 2 ^ 64"
  using unsigned_less [of w, where ?'a = nat] by simp

lemma unat_of_nat_64 [simp]: "n < 2 ^ 64 \<Longrightarrow> unat (of_nat n :: u64) = n"
  by (simp add: unsigned_of_nat take_bit_nat_eq_self)

section \<open>All bytes\<close>

text \<open>A fact about every byte is checked by evaluating it on the 256 of them.\<close>

definition all_bytes :: "bytes" where
  "all_bytes = map word_of_nat [0..<256]"

lemma all_bytes_num:
  "all_bytes =
    [0, 1, 2, 3, 4, 5, 6, 7, 8, 9, 10, 11, 12, 13, 14, 15,
     16, 17, 18, 19, 20, 21, 22, 23, 24, 25, 26, 27, 28, 29, 30, 31,
     32, 33, 34, 35, 36, 37, 38, 39, 40, 41, 42, 43, 44, 45, 46, 47,
     48, 49, 50, 51, 52, 53, 54, 55, 56, 57, 58, 59, 60, 61, 62, 63,
     64, 65, 66, 67, 68, 69, 70, 71, 72, 73, 74, 75, 76, 77, 78, 79,
     80, 81, 82, 83, 84, 85, 86, 87, 88, 89, 90, 91, 92, 93, 94, 95,
     96, 97, 98, 99, 100, 101, 102, 103, 104, 105, 106, 107, 108, 109, 110, 111,
     112, 113, 114, 115, 116, 117, 118, 119, 120, 121, 122, 123, 124, 125, 126, 127,
     128, 129, 130, 131, 132, 133, 134, 135, 136, 137, 138, 139, 140, 141, 142, 143,
     144, 145, 146, 147, 148, 149, 150, 151, 152, 153, 154, 155, 156, 157, 158, 159,
     160, 161, 162, 163, 164, 165, 166, 167, 168, 169, 170, 171, 172, 173, 174, 175,
     176, 177, 178, 179, 180, 181, 182, 183, 184, 185, 186, 187, 188, 189, 190, 191,
     192, 193, 194, 195, 196, 197, 198, 199, 200, 201, 202, 203, 204, 205, 206, 207,
     208, 209, 210, 211, 212, 213, 214, 215, 216, 217, 218, 219, 220, 221, 222, 223,
     224, 225, 226, 227, 228, 229, 230, 231, 232, 233, 234, 235, 236, 237, 238, 239,
     240, 241, 242, 243, 244, 245, 246, 247, 248, 249, 250, 251, 252, 253, 254, 255]"
  unfolding all_bytes_def by code_simp

lemma all_bytes_complete: "c \<in> set all_bytes"
proof -
  have "unat c < 256" using unsigned_less [of c, where ?'a = nat] by simp
  then show ?thesis
    by (auto simp: all_bytes_def image_iff intro!: bexI [of _ "unat c"])
qed

lemma byte_cases:
  assumes "list_all P all_bytes"
  shows "P (c::byte)"
  using assms all_bytes_complete by (auto simp: list_all_iff)

text \<open>Evaluates a closed fact of bytes: comparisons go to \<open>nat\<close>.\<close>

lemmas byte_eval = all_bytes_num word_le_nat_alt word_less_nat_alt

end
