(* ===== verification/Cstr_View.thy ===== *)
theory Cstr_View
  imports Prelude
begin

text \<open>
  Read-only views of byte strings (\<^verbatim>\<open>src/cstr_view.h\<close>).  A \<^verbatim>\<open>struct cstr_view\<close>, a pointer and a
  length, is the list of the bytes it covers; a pointer is null only with length 0, and no
  operation reads it then.  The two operations that return a null pointer as a signal
  (\<^verbatim>\<open>cstr_view_sse_data\<close>, and \<^verbatim>\<open>cstr_view_cut\<close> by its \<^verbatim>\<open>false\<close>) return an \<open>option\<close>.

  The lemmas show that comparison is the lexicographic total order, that the operations
  blind to case compare the folded bytes, that slicing clamps, and that the loops
  (trimming, searching a list field) compute the reference functions on lists.
\<close>

type_synonym cstr_view = bytes

section \<open>Comparison\<close>

definition cstr_view_equal :: "cstr_view \<Rightarrow> cstr_view \<Rightarrow> bool" where
  "cstr_view_equal left right \<longleftrightarrow>
     length left = length right \<and> (length left = 0 \<or> memcmp left right = 0)"

definition cstr_view_compare :: "cstr_view \<Rightarrow> cstr_view \<Rightarrow> int" where
  "cstr_view_compare left right =
     (let common = (if length left < length right then length left else length right);
          difference = (if common \<noteq> 0 then memcmp (take common left) (take common right) else 0)
      in if difference \<noteq> 0 then difference
         else of_bool (length left > length right) - of_bool (length left < length right))"

definition cstr_view_starts :: "cstr_view \<Rightarrow> cstr_view \<Rightarrow> bool" where
  "cstr_view_starts text prefix \<longleftrightarrow>
     length text \<ge> length prefix \<and>
     (length prefix = 0 \<or> memcmp (take (length prefix) text) prefix = 0)"

definition cstr_view_ends :: "cstr_view \<Rightarrow> cstr_view \<Rightarrow> bool" where
  "cstr_view_ends text suffix \<longleftrightarrow>
     length text \<ge> length suffix \<and>
     (length suffix = 0 \<or> memcmp (drop (length text - length suffix) text) suffix = 0)"

text \<open>The loop of \<^verbatim>\<open>cstr_view_equal_case()\<close> over the index, on the bytes from it on.\<close>

unbundle bit_operations_syntax

fun equal_case_loop :: "bytes \<Rightarrow> bytes \<Rightarrow> bool" where
  "equal_case_loop (l # ls) (r # rs) =
     (let a = l OR 0x20; b = r OR 0x20
      in if a \<noteq> b \<or> (l \<noteq> r \<and> (a < ch CHR ''a'' \<or> a > ch CHR ''z'')) then False
         else equal_case_loop ls rs)"
| "equal_case_loop _ _ = True"

definition cstr_view_equal_case :: "cstr_view \<Rightarrow> cstr_view \<Rightarrow> bool" where
  "cstr_view_equal_case left right =
     (if length left \<noteq> length right then False else equal_case_loop left right)"

definition cstr_view_starts_case :: "cstr_view \<Rightarrow> cstr_view \<Rightarrow> bool" where
  "cstr_view_starts_case text prefix \<longleftrightarrow>
     length text \<ge> length prefix \<and> cstr_view_equal_case (take (length prefix) text) prefix"

section \<open>Slicing and splitting\<close>

definition cstr_view_slice :: "cstr_view \<Rightarrow> nat \<Rightarrow> nat \<Rightarrow> cstr_view" where
  "cstr_view_slice text offset len =
     (let offset = (if offset > length text then length text else offset);
          rest = drop offset text
      in if length rest > len then take len rest else rest)"

text \<open>\<^verbatim>\<open>cstr_view_cut()\<close>: the head and the rest, or \<open>None\<close> with neither changed.\<close>

definition cstr_view_cut :: "cstr_view \<Rightarrow> byte \<Rightarrow> (cstr_view \<times> cstr_view) option" where
  "cstr_view_cut rest c =
     (case memchr c rest of
        None \<Rightarrow> None
      | Some n \<Rightarrow> Some (take n rest, drop (n + 1) rest))"

text \<open>\<^verbatim>\<open>cstr_view_cut(&item, c, &item)\<close>: the same view receives the head.\<close>

definition cstr_view_cut_head :: "cstr_view \<Rightarrow> byte \<Rightarrow> cstr_view" where
  "cstr_view_cut_head item c =
     (case cstr_view_cut item c of None \<Rightarrow> item | Some (hd', _) \<Rightarrow> hd')"

text \<open>\<^verbatim>\<open>cstr_view_sse_data()\<close>: the line without its carriage return, and its data if it is a
  data line (\<open>None\<close> is the null view).\<close>

definition cstr_view_sse_data :: "cstr_view \<Rightarrow> cstr_view \<times> cstr_view option" where
  "cstr_view_sse_data line =
     (let line = take (length line -
                   of_bool (length line \<noteq> 0 \<and> line ! (length line - 1) = ch CHR 0x0D)) line
      in if \<not> cstr_view_starts line (ascii ''data:'') then (line, None)
         else let data = cstr_view_slice line 5 SIZE_MAX
              in (line, Some (cstr_view_slice data
                         (of_bool (length data \<noteq> 0 \<and> data ! 0 = ch CHR '' '')) SIZE_MAX)))"

fun cstr_view_index :: "cstr_view list \<Rightarrow> cstr_view \<Rightarrow> nat" where
  "cstr_view_index [] key = 0"
| "cstr_view_index (name # names) key =
     (if cstr_view_equal name key then 0 else Suc (cstr_view_index names key))"

definition cstr_view_space :: "byte \<Rightarrow> bool" where
  "cstr_view_space c \<longleftrightarrow>
     c = ch CHR '' '' \<or> c = ch CHR 0x09 \<or> c = ch CHR 0x0D \<or> c = ch CHR 0x0A"

function cstr_view_trim_end :: "cstr_view \<Rightarrow> cstr_view" where
  "cstr_view_trim_end text =
     (if length text \<noteq> 0 \<and> cstr_view_space (text ! (length text - 1))
      then cstr_view_trim_end (take (length text - 1) text) else text)"
  by pat_completeness auto
termination by (relation "measure length") auto

declare cstr_view_trim_end.simps [simp del]

fun trim_start_loop :: "bytes \<Rightarrow> bytes" where
  "trim_start_loop [] = []"
| "trim_start_loop (c # cs) =
     (if c = ch CHR '' '' \<or> c = ch CHR 0x09 then trim_start_loop cs else c # cs)"

definition cstr_view_trim :: "cstr_view \<Rightarrow> cstr_view" where
  "cstr_view_trim text = trim_start_loop (cstr_view_trim_end text)"

lemma cut_length: "cstr_view_cut rest c = Some (h, r) \<Longrightarrow> length r < length rest"
  by (auto simp: cstr_view_cut_def split: option.splits dest: memchr_SomeD)

function cstr_view_list_has :: "cstr_view \<Rightarrow> cstr_view \<Rightarrow> bool" where
  "cstr_view_list_has list' token =
     (case cstr_view_cut list' (ch CHR '','') of
        None \<Rightarrow>
          cstr_view_equal_case (cstr_view_trim (cstr_view_cut_head list' (ch CHR '';''))) token
      | Some (item, rest) \<Rightarrow>
          if cstr_view_equal_case (cstr_view_trim (cstr_view_cut_head item (ch CHR '';''))) token
          then True
          else cstr_view_list_has rest token)"
  by pat_completeness auto
termination by (relation "measure (\<lambda>(l, t). length l)") (auto dest: cut_length)

declare cstr_view_list_has.simps [simp del]

section \<open>Equality and order\<close>

lemma cstr_view_equal_iff [simp]: "cstr_view_equal l r \<longleftrightarrow> l = r"
  by (auto simp: cstr_view_equal_def memcmp_eq_0)

lemma cstr_view_starts_iff: "cstr_view_starts text prefix \<longleftrightarrow> (\<exists>rest. text = prefix @ rest)"
proof -
  have "take (length prefix) text = prefix \<Longrightarrow> \<exists>rest. text = prefix @ rest"
    by (metis append_take_drop_id)
  then show ?thesis by (auto simp: cstr_view_starts_def memcmp_eq_0)
qed

lemma cstr_view_ends_iff: "cstr_view_ends text suffix \<longleftrightarrow> (\<exists>rest. text = rest @ suffix)"
proof -
  have "drop (length text - length suffix) text = suffix \<Longrightarrow> \<exists>rest. text = rest @ suffix"
    by (metis append_take_drop_id)
  then show ?thesis by (auto simp: cstr_view_ends_def memcmp_eq_0)
qed

text \<open>Comparison as a recursion on both views, which the order facts are proved from.\<close>

lemma compare_simps:
  "cstr_view_compare [] [] = 0"
  "cstr_view_compare (x # xs) [] = 1"
  "cstr_view_compare [] (y # ys) = -1"
  "cstr_view_compare (x # xs) (y # ys) =
     (if x = y then cstr_view_compare xs ys else if x < y then -1 else 1)"
  by (auto simp: cstr_view_compare_def Let_def)


lemmas lex_simps = ord_class.lexordp_simps ord_class.lexordp_eq_simps

lemma compare_less: "cstr_view_compare l r < 0 \<longleftrightarrow> ord_class.lexordp l r"
proof (induction l arbitrary: r)
  case Nil
  show ?case by (cases r) (simp_all add: compare_simps)
next
  case (Cons x xs)
  then show ?case by (cases r) (auto simp: compare_simps)
qed

lemma compare_le: "cstr_view_compare l r \<le> 0 \<longleftrightarrow> ord_class.lexordp_eq l r"
proof (induction l arbitrary: r)
  case Nil
  show ?case by (cases r) (simp_all add: compare_simps)
next
  case (Cons x xs)
  then show ?case by (cases r) (auto simp: compare_simps)
qed

lemma compare_eq_0: "cstr_view_compare l r = 0 \<longleftrightarrow> l = r"
proof (induction l arbitrary: r)
  case Nil
  show ?case by (cases r) (simp_all add: compare_simps)
next
  case (Cons x xs)
  then show ?case by (cases r) (auto simp: compare_simps)
qed

lemma compare_anti: "cstr_view_compare l r = - cstr_view_compare r l"
proof (induction l arbitrary: r)
  case Nil
  show ?case by (cases r) (simp_all add: compare_simps)
next
  case (Cons x xs)
  then show ?case by (cases r) (auto simp: compare_simps)
qed

text \<open>\<^verbatim>\<open>cstr_view_compare()\<close> orders the views: the facts of \<open>order\<close> hold of it, and it is
  total.\<close>

interpretation view_order: order
  "\<lambda>l r. cstr_view_compare l r \<le> 0" "\<lambda>l r. cstr_view_compare l r < 0"
  by unfold_locales
     (auto simp: compare_less compare_le lexordp_eq_refl lexordp_conv_lexordp_eq
           intro: lexordp_eq_trans lexordp_eq_antisym)

lemma compare_linear: "cstr_view_compare l r \<le> 0 \<or> cstr_view_compare r l \<le> 0"
  unfolding compare_le by (rule lexordp_eq_linear)

section \<open>Letter case\<close>

text \<open>The byte with an ASCII capital folded to its small letter.\<close>

definition fold_case :: "byte \<Rightarrow> byte" where
  "fold_case c = (if ch CHR ''A'' \<le> c \<and> c \<le> ch CHR ''Z'' then c + 32 else c)"

definition small_letter :: "byte \<Rightarrow> bool" where
  "small_letter c \<longleftrightarrow> ch CHR ''a'' \<le> c \<and> c \<le> ch CHR ''z''"

text \<open>\<open>OR 0x20\<close> folds a letter, and no other byte becomes a letter by it unchanged.\<close>

lemma or_fold:
  "if small_letter (c OR 0x20) then fold_case c = c OR 0x20
   else fold_case c = c \<and> \<not> small_letter c"
  by (rule byte_cases [where c = c])
     (simp add: byte_eval fold_case_def small_letter_def)

lemma small_letter_fold: "small_letter (fold_case c) \<longleftrightarrow> small_letter (c OR 0x20)"
  using or_fold [of c] by (auto split: if_splits)

lemma fold_case_eq_iff:
  "fold_case l = fold_case r \<longleftrightarrow>
     l OR 0x20 = r OR 0x20 \<and> (l = r \<or> small_letter (l OR 0x20))"
  using or_fold [of l] or_fold [of r] small_letter_fold [of l] small_letter_fold [of r]
  by (auto split: if_splits)

lemma equal_case_loop_iff:
  "length ls = length rs \<Longrightarrow> equal_case_loop ls rs \<longleftrightarrow> map fold_case ls = map fold_case rs"
proof (induction ls rs rule: list_induct2)
  case Nil
  show ?case by simp
next
  case (Cons l ls r rs)
  have "(l OR 0x20 \<noteq> r OR 0x20 \<or>
           (l \<noteq> r \<and> (l OR 0x20 < ch CHR ''a'' \<or> l OR 0x20 > ch CHR ''z''))) \<longleftrightarrow>
        fold_case l \<noteq> fold_case r"
    unfolding fold_case_eq_iff small_letter_def by (auto simp: not_less)
  with Cons.IH show ?case by (simp only: equal_case_loop.simps Let_def) auto
qed

lemma equal_case_iff:
  "cstr_view_equal_case l r \<longleftrightarrow> map fold_case l = map fold_case r"
proof (cases "length l = length r")
  case True
  then show ?thesis by (simp add: cstr_view_equal_case_def equal_case_loop_iff)
next
  case False
  then show ?thesis by (auto simp: cstr_view_equal_case_def dest: map_eq_imp_length_eq)
qed

lemma starts_case_iff:
  "cstr_view_starts_case text prefix \<longleftrightarrow>
     (\<exists>h rest. text = h @ rest \<and> map fold_case h = map fold_case prefix)"
proof
  assume "cstr_view_starts_case text prefix"
  then have "map fold_case (take (length prefix) text) = map fold_case prefix"
    by (simp add: cstr_view_starts_case_def equal_case_iff)
  then show "\<exists>h rest. text = h @ rest \<and> map fold_case h = map fold_case prefix"
    by (intro exI [of _ "take (length prefix) text"] exI [of _ "drop (length prefix) text"]) simp
next
  assume "\<exists>h rest. text = h @ rest \<and> map fold_case h = map fold_case prefix"
  then obtain h rest where t: "text = h @ rest" and eq: "map fold_case h = map fold_case prefix"
    by blast
  from eq have "length h = length prefix" by (rule map_eq_imp_length_eq)
  with t eq show "cstr_view_starts_case text prefix"
    by (simp add: cstr_view_starts_case_def equal_case_iff)
qed

section \<open>Slices and cuts\<close>

lemma cstr_view_slice_eq: "cstr_view_slice text offset len = take len (drop offset text)"
  by (auto simp: cstr_view_slice_def Let_def)

lemma slice_rest: "length text \<le> SIZE_MAX \<Longrightarrow> cstr_view_slice text offset SIZE_MAX = drop offset text"
  by (simp add: cstr_view_slice_eq)

lemma cut_Some_iff:
  "cstr_view_cut rest c = Some (h, r) \<longleftrightarrow> rest = h @ c # r \<and> c \<notin> set h"
proof
  assume "cstr_view_cut rest c = Some (h, r)"
  then obtain n where n: "memchr c rest = Some n" and h: "h = take n rest"
      and r: "r = drop (Suc n) rest"
    by (auto simp: cstr_view_cut_def split: option.splits)
  show "rest = h @ c # r \<and> c \<notin> set h"
    using memchr_split [OF n] memchr_SomeD [OF n] by (simp add: h r)
qed (auto simp: cstr_view_cut_def)

lemma cut_None_iff: "cstr_view_cut rest c = None \<longleftrightarrow> c \<notin> set rest"
  by (simp add: cstr_view_cut_def split: option.splits flip: memchr_None_iff)

lemma cut_append [simp]:
  "c \<notin> set h \<Longrightarrow> cstr_view_cut (h @ c # r) c = Some (h, r)"
  by (simp add: cut_Some_iff)

lemma cut_notin [simp]: "c \<notin> set xs \<Longrightarrow> cstr_view_cut xs c = None"
  by (simp add: cut_None_iff)

lemma cut_head_eq: "cstr_view_cut_head item c = takeWhile (\<lambda>x. x \<noteq> c) item"
proof (cases "cstr_view_cut item c")
  case None
  then have "c \<notin> set item" by (simp add: cut_None_iff)
  with None show ?thesis by (auto simp: cstr_view_cut_head_def intro!: takeWhile_eq_all_conv [THEN iffD2, symmetric])
next
  case (Some p)
  obtain h r where p: "p = (h, r)" by (cases p)
  with Some have "item = h @ c # r" "c \<notin> set h" by (simp_all add: cut_Some_iff)
  with Some p show ?thesis by (simp add: cstr_view_cut_head_def)
qed

lemma index_spec:
  "cstr_view_index names key \<le> length names"
  "cstr_view_index names key < length names \<Longrightarrow> names ! cstr_view_index names key = key"
  "i < cstr_view_index names key \<Longrightarrow> names ! i \<noteq> key"
proof -
  show "cstr_view_index names key \<le> length names"
    by (induction names) auto
  show "cstr_view_index names key < length names \<Longrightarrow> names ! cstr_view_index names key = key"
    by (induction names) auto
  show "i < cstr_view_index names key \<Longrightarrow> names ! i \<noteq> key"
    by (induction names arbitrary: i) (auto simp: nth_Cons split: nat.splits if_splits)
qed

lemma index_less_iff: "cstr_view_index names key < length names \<longleftrightarrow> key \<in> set names"
  by (induction names) auto

section \<open>Trimming and list fields\<close>

lemma trim_end_snoc:
  "cstr_view_trim_end (xs @ [x]) = (if cstr_view_space x then cstr_view_trim_end xs else xs @ [x])"
  by (subst cstr_view_trim_end.simps) simp

lemma trim_end_Nil [simp]: "cstr_view_trim_end [] = []"
  by (subst cstr_view_trim_end.simps) simp

lemma trim_end_eq: "cstr_view_trim_end t = rev (dropWhile cstr_view_space (rev t))"
  by (induction t rule: rev_induct) (auto simp: trim_end_snoc)

lemma trim_start_eq:
  "trim_start_loop t = dropWhile (\<lambda>c. c = ch CHR '' '' \<or> c = ch CHR 0x09) t"
  by (induction t) auto

text \<open>Trimming takes a run of bytes off each end, and stops at bytes it does not drop.\<close>

lemma trim_spec:
  "\<exists>a b. text = a @ cstr_view_trim text @ b \<and>
     set a \<subseteq> {ch CHR '' '', ch CHR 0x09} \<and> (\<forall>c \<in> set b. cstr_view_space c)"
proof -
  let ?e = "cstr_view_trim_end text"
  let ?p = "\<lambda>c. c = ch CHR '' '' \<or> c = ch CHR 0x09"
  have "rev text = takeWhile cstr_view_space (rev text) @ dropWhile cstr_view_space (rev text)"
    by simp
  then have "text = ?e @ rev (takeWhile cstr_view_space (rev text))"
    unfolding trim_end_eq by (metis rev_append rev_rev_ident)
  moreover have "?e = takeWhile ?p ?e @ cstr_view_trim text"
    by (simp add: cstr_view_trim_def trim_start_eq)
  ultimately have "text = takeWhile ?p ?e @ cstr_view_trim text @
      rev (takeWhile cstr_view_space (rev text))"
    by (metis (no_types) append_assoc)
  moreover have "set (takeWhile ?p ?e) \<subseteq> {ch CHR '' '', ch CHR 0x09}"
    by (auto dest: set_takeWhileD)
  moreover have "\<forall>c \<in> set (rev (takeWhile cstr_view_space (rev text))). cstr_view_space c"
    by (auto dest: set_takeWhileD)
  ultimately show ?thesis by blast
qed

text \<open>The elements of a list field as RFC 9110 describes them: the pieces between commas,
  without parameters and white space.\<close>

definition list_elements :: "cstr_view \<Rightarrow> cstr_view list" where
  "list_elements field =
     map (\<lambda>item. cstr_view_trim (takeWhile (\<lambda>c. c \<noteq> ch CHR '';'') item))
       (split_on (ch CHR '','') field)"

lemma list_has_iff:
  "cstr_view_list_has field token \<longleftrightarrow>
     (\<exists>e \<in> set (list_elements field). cstr_view_equal_case e token)"
proof (induction field token rule: cstr_view_list_has.induct)
  case (1 field token)
  show ?case
  proof (cases "cstr_view_cut field (ch CHR '','')")
    case None
    then show ?thesis
      by (subst cstr_view_list_has.simps)
         (simp add: list_elements_def cut_head_eq cut_None_iff)
  next
    case (Some p)
    obtain item rest where p: "p = (item, rest)" by (cases p)
    with Some have "field = item @ ch CHR '','' # rest \<and> ch CHR '','' \<notin> set item"
      by (simp add: cut_Some_iff)
    then show ?thesis
      using Some p "1.IH" [OF Some [unfolded p] refl]
      by (subst cstr_view_list_has.simps) (auto simp: list_elements_def cut_head_eq)
  qed
qed

section \<open>Properties\<close>

text \<open>
  Comparing views is the lexicographic order of their bytes: its sign flips with
  the operands, it is 0 exactly for equal views, and it is negative exactly when the left
  view comes first.
\<close>

theorem compare_is_lexicographic:
  "cstr_view_compare l r = - cstr_view_compare r l \<and>
   (cstr_view_compare l r = 0 \<longleftrightarrow> l = r) \<and>
   (cstr_view_compare l r < 0 \<longleftrightarrow> ord_class.lexordp l r)"
proof (intro conjI)
  show "cstr_view_compare l r = - cstr_view_compare r l" by (rule compare_anti)
qed (rule compare_eq_0 compare_less)+

text \<open>
  A comma-separated header field has a token exactly when the token equals, with
  capital letters folded, one of the elements of the field: the parts between the commas,
  each cut at its first semicolon and trimmed.
\<close>

theorem list_field_has_token:
  "cstr_view_list_has field token \<longleftrightarrow>
     map fold_case token \<in> map fold_case ` set (list_elements field)"
  by (auto simp: list_has_iff equal_case_iff image_iff eq_commute [of "map fold_case token"])

end
