(* ===== verification/Util.thy ===== *)
theory Util
  imports Cstr_View
begin

text \<open>
  Number helpers of \<^verbatim>\<open>src/util.h\<close>: hexadecimal, decimal and big-endian numbers and random
  digits.  The functions that format or scan write their loops as recursions on the bytes
  still ahead; numbers keep their width (\<open>u64\<close>), so that the guard against wrap-around in
  \<^verbatim>\<open>util_digits()\<close> is the code's own.  The calls of \<^verbatim>\<open>getrandom()\<close> are a tape of outcomes.

  The lemmas give the exact value of the parsers and the round trips of the three formats.
\<close>

section \<open>Hexadecimal\<close>

unbundle bit_operations_syntax

definition hex_digits :: bytes where
  "hex_digits = ascii ''0123456789abcdef''"

text \<open>\<^verbatim>\<open>util_hex()\<close>: the digits written to \<^verbatim>\<open>dst\<close>, two for each byte of \<^verbatim>\<open>src\<close>.\<close>

fun util_hex :: "bytes \<Rightarrow> bytes" where
  "util_hex [] = []"
| "util_hex (p # ps) =
     hex_digits ! unat (drop_bit 4 p) # hex_digits ! unat (p AND 15) # util_hex ps"

fun util_is_hex :: "bytes \<Rightarrow> bool" where
  "util_is_hex [] = True"
| "util_is_hex (c # cs) =
     (if (c < ch CHR ''0'' \<or> c > ch CHR ''9'') \<and> (c < ch CHR ''a'' \<or> c > ch CHR ''f'') then False
      else util_is_hex cs)"

definition util_hex_digit :: "byte \<Rightarrow> u32" where
  "util_hex_digit c =
     (let lower = (ucast c :: u32) OR 0x20
      in if c \<ge> ch CHR ''0'' \<and> c \<le> ch CHR ''9'' then ucast c - 48
         else if lower \<ge> 97 \<and> lower \<le> 102 then lower - 97 + 10 else 16)"

text \<open>What one call of \<^verbatim>\<open>getrandom()\<close> does: gives bytes, or fails.\<close>

datatype got = Got bytes | Failed errno

definition UTIL_RANDOM_MAX :: nat where
  "UTIL_RANDOM_MAX = 256"

text \<open>\<^verbatim>\<open>util_random()\<close> on the outcomes of its calls; \<open>None\<close> while no call has returned.\<close>

fun random_loop :: "got list \<Rightarrow> nat \<Rightarrow> (errno + bytes) option" where
  "random_loop [] n = None"
| "random_loop (Failed e # gs) n = (if e \<noteq> EINTR then Some (Inl e) else random_loop gs n)"
| "random_loop (Got bs # gs) n = Some (if length bs = n then Inr bs else Inl EIO)"

definition util_random :: "got list \<Rightarrow> nat \<Rightarrow> (errno + bytes) option" where
  "util_random gs n = (if n > UTIL_RANDOM_MAX then Some (Inl EINVAL) else random_loop gs n)"

definition util_random_hex :: "got list \<Rightarrow> nat \<Rightarrow> (errno + bytes) option" where
  "util_random_hex gs n =
     (case util_random gs n of
        None \<Rightarrow> None
      | Some (Inl e) \<Rightarrow> Some (Inl e)
      | Some (Inr bits) \<Rightarrow> Some (Inr (util_hex bits)))"

section \<open>Numbers\<close>

definition UTIL_DECIMAL :: nat where
  "UTIL_DECIMAL = 20"

lemma unat_div10: "unat ((n::u64) div 10) = unat n div 10"
  by (simp add: unat_div_distrib)

lemma unat_mod10: "unat ((n::u64) mod 10) = unat n mod 10"
  by (simp add: unat_mod_distrib)

text \<open>\<^verbatim>\<open>util_decimal()\<close>: the digits from the returned pointer to \<^verbatim>\<open>end\<close>.\<close>

function decimal_loop :: "u64 \<Rightarrow> bytes \<Rightarrow> bytes" where
  "decimal_loop n out =
     (let out = (ch CHR ''0'' + ucast (n mod 10)) # out; n = n div 10
      in if n \<noteq> 0 then decimal_loop n out else out)"
  by pat_completeness auto
termination
proof (relation "measure (\<lambda>(n, out). unat n)")
  fix n :: u64 and out x xa
  assume "xa = n div 10" "xa \<noteq> 0"
  from \<open>xa \<noteq> 0\<close> have "unat xa \<noteq> 0" by (simp add: unat_eq_0)
  moreover have "unat xa = unat n div 10" by (simp add: \<open>xa = n div 10\<close> unat_div10)
  ultimately show "((xa, x), n, out) \<in> measure (\<lambda>(n, out). unat n)"
    by auto
qed simp

declare decimal_loop.simps [simp del]

definition util_decimal :: "u64 \<Rightarrow> bytes" where
  "util_decimal n = decimal_loop n []"

definition util_s :: "u64 \<Rightarrow> bytes" where
  "util_s n = (if n = 1 then [] else ascii ''s'')"

text \<open>\<^verbatim>\<open>util_be_put()\<close>: the \<open>n\<close> bytes that \<^verbatim>\<open>to\<close> holds afterwards, the last filled first.\<close>

fun be_put_loop :: "u64 \<Rightarrow> nat \<Rightarrow> bytes \<Rightarrow> bytes" where
  "be_put_loop v 0 out = out"
| "be_put_loop v (Suc n) out = be_put_loop (drop_bit 8 v) n (ucast v # out)"

definition util_be_put :: "u64 \<Rightarrow> nat \<Rightarrow> bytes" where
  "util_be_put v n = be_put_loop v n []"

definition util_be_get :: "bytes \<Rightarrow> u64" where
  "util_be_get from' = foldl (\<lambda>v b. push_bit 8 v OR ucast b) 0 from'"

text \<open>\<^verbatim>\<open>util_digits()\<close>: the number of digits and the value.\<close>

fun digits_loop :: "bytes \<Rightarrow> u64 \<Rightarrow> nat \<Rightarrow> u64 \<Rightarrow> nat \<times> u64" where
  "digits_loop [] max' i value = (i, value)"
| "digits_loop (c # cs) max' i value =
     (if c \<ge> ch CHR ''0'' \<and> c \<le> ch CHR ''9'' then
        let digit = ucast (c - ch CHR ''0'')
        in if digit > max' \<or> value > (max' - digit) div 10 then (0, 0)
           else digits_loop cs max' (i + 1) (value * 10 + digit)
      else (i, value))"

definition util_digits :: "bytes \<Rightarrow> u64 \<Rightarrow> nat \<times> u64" where
  "util_digits s max' = digits_loop s max' 0 0"

definition util_number :: "bytes \<Rightarrow> u64 \<Rightarrow> errno + u64" where
  "util_number s max' =
     (case util_digits s max' of
        (n, value) \<Rightarrow> if length s \<noteq> 0 \<and> n = length s then Inr value else Inl EINVAL)"


section \<open>Facts: hexadecimal and big-endian numbers\<close>

lemma hex_digits_nth:
  assumes "k < 16"
  shows "util_is_hex [hex_digits ! k]" "util_hex_digit (hex_digits ! k) = of_nat k"
proof -
  have "list_all (\<lambda>k. util_is_hex [hex_digits ! k] \<and> util_hex_digit (hex_digits ! k) = of_nat k)
          [0..<16]"
    by code_simp
  with assms show "util_is_hex [hex_digits ! k]" "util_hex_digit (hex_digits ! k) = of_nat k"
    unfolding list_all_iff by (metis atLeastLessThan_iff le0 set_upt)+
qed

lemma nibbles:
  fixes p :: byte
  shows "unat (drop_bit 4 p) < 16" "unat (p AND 15) < 16"
    "push_bit 4 (drop_bit 4 p) OR (p AND 15) = p"
proof -
  have m: "(15 :: byte) = mask 4" by (simp add: mask_eq_exp_minus_1)
  have "unat p < 256" using unsigned_less [of p, where ?'a = nat] by simp
  then show "unat (drop_bit 4 p) < 16" unfolding unat_drop_bit_eq by (simp add: drop_bit_eq_div)
  have "unat (take_bit 4 p) < 16" unfolding unsigned_take_bit_eq by (simp add: take_bit_eq_mod)
  then show "unat (p AND 15) < 16" by (simp add: m take_bit_eq_mask)
  show "push_bit 4 (drop_bit 4 p) OR (p AND 15) = p"
    by (rule bit_word_eqI)
       (auto simp: m bit_or_iff bit_and_iff bit_mask_iff bit_push_bit_iff bit_drop_bit_eq not_le)
qed

lemma hex_digit_facts:
  fixes p :: byte
  shows "util_is_hex [hex_digits ! unat (drop_bit 4 p)]" "util_is_hex [hex_digits ! unat (p AND 15)]"
    "util_hex_digit (hex_digits ! unat (drop_bit 4 p)) = ucast (drop_bit 4 p)"
    "util_hex_digit (hex_digits ! unat (p AND 15)) = ucast (p AND 15)"
  using hex_digits_nth [OF nibbles(1) [of p]] hex_digits_nth [OF nibbles(2) [of p]] by simp_all

lemma util_is_hex_Cons: "util_is_hex (c # cs) \<longleftrightarrow> util_is_hex [c] \<and> util_is_hex cs"
  by simp

lemma util_is_hex_append [simp]: "util_is_hex (xs @ ys) \<longleftrightarrow> util_is_hex xs \<and> util_is_hex ys"
  by (induction xs) auto

lemma util_is_hex_all: "util_is_hex cs \<longleftrightarrow> list_all (\<lambda>c. util_is_hex [c]) cs"
  by (induction cs) auto

lemma length_util_hex [simp]: "length (util_hex bs) = 2 * length bs"
  by (induction bs) auto

lemma util_is_hex_util_hex [simp]: "util_is_hex (util_hex bs)"
proof (induction bs)
  case (Cons b bs)
  then show ?case
    using hex_digit_facts(1,2) [of b]
    by (metis util_hex.simps(2) util_is_hex_Cons)
qed simp

text \<open>The bytes that pairs of digits stand for, by \<^verbatim>\<open>util_hex_digit()\<close>.\<close>

fun unhex :: "bytes \<Rightarrow> bytes" where
  "unhex (h # l # cs) = (push_bit 4 (ucast (util_hex_digit h)) OR ucast (util_hex_digit l)) # unhex cs"
| "unhex _ = []"

lemma unhex_util_hex [simp]: "unhex (util_hex bs) = bs"
proof (induction bs)
  case (Cons b bs)
  have "ucast (ucast (drop_bit 4 b) :: u32) = drop_bit 4 b" "ucast (ucast (b AND 15) :: u32) = b AND 15"
    by (rule bit_word_eqI; auto simp: bit_ucast_iff bit_drop_bit_eq bit_and_iff dest: bit_imp_le_length)+
  with Cons hex_digit_facts [of b] nibbles(3) [of b] show ?case by simp
qed simp

lemma be_put_loop_append: "be_put_loop v n out = be_put_loop v n [] @ out"
proof (induction n arbitrary: v out)
  case (Suc n)
  show ?case using Suc [of "drop_bit 8 v" "ucast v # out"] Suc [of "drop_bit 8 v" "[ucast v]"] by simp
qed simp

lemma util_be_put_Suc: "util_be_put v (Suc n) = util_be_put (drop_bit 8 v) n @ [ucast v]"
  unfolding util_be_put_def by (simp add: be_put_loop_append [of _ _ "[ucast v]"])

lemma util_be_put_0 [simp]: "util_be_put v 0 = []"
  by (simp add: util_be_put_def)

lemma length_util_be_put [simp]: "length (util_be_put v n) = n"
  by (induction n arbitrary: v) (simp_all add: util_be_put_Suc)

lemma util_be_get_snoc: "util_be_get (bs @ [b]) = push_bit 8 (util_be_get bs) OR ucast b"
  by (simp add: util_be_get_def)

lemma be_get_put: "util_be_get (util_be_put v n) = take_bit (8 * n) v"
proof (induction n arbitrary: v)
  case 0
  show ?case by (simp add: util_be_get_def)
next
  case (Suc n)
  have "push_bit 8 (take_bit (8 * n) (drop_bit 8 v)) OR ucast (ucast v :: byte) = take_bit (8 * Suc n) v"
    by (rule bit_word_eqI)
       (auto simp: bit_or_iff bit_push_bit_iff bit_take_bit_iff bit_drop_bit_eq bit_ucast_iff
             not_le less_diff_conv2)
  with Suc show ?case by (simp add: util_be_put_Suc util_be_get_snoc)
qed

lemma be_put_get:
  "length bs \<le> 8 \<Longrightarrow> util_be_put (util_be_get bs) (length bs) = bs"
proof (induction bs rule: rev_induct)
  case (snoc b bs)
  have bound: "take_bit (8 * length bs) (util_be_get bs) = util_be_get bs"
    using snoc be_get_put [of "util_be_get bs" "length bs"] by simp
  have "drop_bit 8 (push_bit 8 (util_be_get bs) OR ucast b) = util_be_get bs"
  proof (rule bit_word_eqI)
    fix i assume "i < LENGTH(64)"
    have "bit (util_be_get bs) i \<Longrightarrow> i < 8 * length bs"
      using bound by (metis bit_take_bit_iff)
    then show "bit (drop_bit 8 (push_bit 8 (util_be_get bs) OR ucast b)) i = bit (util_be_get bs) i"
      using snoc.prems by (auto simp: bit_or_iff bit_push_bit_iff bit_drop_bit_eq bit_ucast_iff dest: bit_imp_le_length)
  qed
  moreover have "ucast (push_bit 8 (util_be_get bs) OR ucast b :: u64) = b"
    by (rule bit_word_eqI) (auto simp: bit_or_iff bit_push_bit_iff bit_ucast_iff)
  ultimately show ?case using snoc by (simp add: util_be_get_snoc util_be_put_Suc)
qed simp

section \<open>Facts: decimal numbers\<close>

definition is_digit :: "byte \<Rightarrow> bool" where
  "is_digit c \<longleftrightarrow> c \<ge> ch CHR ''0'' \<and> c \<le> ch CHR ''9''"

text \<open>The number that a run of digits stands for, without a bound.\<close>

definition dec_step :: "nat \<Rightarrow> byte \<Rightarrow> nat" where
  "dec_step v c = v * 10 + unat (c - ch CHR ''0'')"

definition dec_val :: "bytes \<Rightarrow> nat" where
  "dec_val ds = foldl dec_step 0 ds"

lemma digit_value: "is_digit c \<Longrightarrow> unat (c - ch CHR ''0'') \<le> 9"
  by (auto simp: is_digit_def unat_sub word_le_nat_alt)

lemma digit_of_nat: "k < 10 \<Longrightarrow> is_digit (ch CHR ''0'' + of_nat k) \<and>
    unat ((ch CHR ''0'' + of_nat k) - ch CHR ''0'') = k"
proof -
  assume k: "k < 10"
  have "list_all (\<lambda>k. is_digit (ch CHR ''0'' + of_nat k) \<and>
    unat ((ch CHR ''0'' + of_nat k) - ch CHR ''0'') = k) [0..<10]" by code_simp
  with k show ?thesis unfolding list_all_iff by (metis atLeastLessThan_iff le0 set_upt)
qed

lemma foldl_dec_ge: "v \<le> foldl dec_step v ds"
proof (induction ds arbitrary: v)
  case (Cons d ds)
  have "v \<le> dec_step v d" by (simp add: dec_step_def)
  also have "\<dots> \<le> foldl dec_step (dec_step v d) ds" by (rule Cons)
  finally show ?case by simp
qed simp

lemma unat_digit_word: "unat (ucast (c :: byte) :: u64) = unat c"
proof -
  have "unat c < 256" using unsigned_less [of c, where ?'a = nat] by simp
  then show ?thesis by (simp add: unsigned_ucast_eq take_bit_nat_eq_self)
qed

lemma digits_loop_Cons:
  "digits_loop (c # cs) m i v =
     (if is_digit c then
        (if ucast (c - ch CHR ''0'') > m \<or> v > (m - ucast (c - ch CHR ''0'')) div 10 then (0, 0)
         else digits_loop cs m (i + 1) (v * 10 + ucast (c - ch CHR ''0'')))
      else (i, v))"
  by (simp add: is_digit_def Let_def)

text \<open>The guard of \<^verbatim>\<open>util_digits()\<close> holds exactly when the next value is past \<^verbatim>\<open>max\<close>, and without it
  the arithmetic does not wrap.\<close>

lemma digits_guard:
  fixes m v d :: u64
  assumes d: "unat d \<le> 9" and v: "unat v \<le> unat m"
  shows "(d > m \<or> v > (m - d) div 10) \<longleftrightarrow> unat v * 10 + unat d > unat m"
    and "\<not> (d > m \<or> v > (m - d) div 10) \<Longrightarrow> unat (v * 10 + d) = unat v * 10 + unat d"
proof -
  show guard: "(d > m \<or> v > (m - d) div 10) \<longleftrightarrow> unat v * 10 + unat d > unat m"
  proof (cases "d > m")
    case True
    then show ?thesis by (simp add: word_less_nat_alt)
  next
    case False
    then have "unat (m - d) = unat m - unat d"
      by (simp add: unat_sub not_less)
    with False show ?thesis
      by (auto simp: word_less_nat_alt unat_div_distrib not_less)
  qed
  assume "\<not> (d > m \<or> v > (m - d) div 10)"
  then have "unat v * 10 + unat d \<le> unat m" using guard by simp
  moreover have "unat m < 2 ^ 64" using unsigned_less [of m, where ?'a = nat] by simp
  ultimately show "unat (v * 10 + d) = unat v * 10 + unat d"
    by (simp add: unat_word_ariths)
qed

lemma digits_loop_eq:
  assumes "unat v \<le> unat m"
  shows "digits_loop cs m i v =
     (let ds = takeWhile is_digit cs; n = foldl dec_step (unat v) ds
      in if n \<le> unat m then (i + length ds, of_nat n) else (0, 0))"
  using assms
proof (induction cs arbitrary: i v)
  case Nil
  then show ?case by simp
next
  case (Cons c cs)
  note digits_loop.simps [simp del]
  show ?case
  proof (cases "is_digit c")
    case False
    then show ?thesis using Cons.prems by (simp add: digits_loop_Cons)
  next
    case True
    let ?d = "ucast (c - ch CHR ''0'') :: u64"
    have d: "unat ?d \<le> 9" "unat ?d = unat (c - ch CHR ''0'')"
      using digit_value [OF True] by (simp_all only: unat_digit_word)
    have step: "dec_step (unat v) c = unat v * 10 + unat ?d"
      by (simp only: dec_step_def d(2))
    show ?thesis
    proof (cases "?d > m \<or> v > (m - ?d) div 10")
      case guard: True
      then have "unat m < dec_step (unat v) c"
        using digits_guard(1) [OF d(1) Cons.prems] step by simp
      moreover have "dec_step (unat v) c \<le> foldl dec_step (dec_step (unat v) c) (takeWhile is_digit cs)"
        by (rule foldl_dec_ge)
      ultimately have "\<not> foldl dec_step (dec_step (unat v) c) (takeWhile is_digit cs) \<le> unat m"
        by linarith
      with True guard show ?thesis by (simp add: digits_loop_Cons Let_def)
    next
      case guard: False
      have "unat (v * 10 + ?d) = dec_step (unat v) c"
        using digits_guard(2) [OF d(1) Cons.prems guard] step by simp
      moreover have "dec_step (unat v) c \<le> unat m"
        using guard digits_guard(1) [OF d(1) Cons.prems] step by simp
      ultimately show ?thesis
        using True guard Cons.IH [of "v * 10 + ?d" "i + 1"] by (simp add: digits_loop_Cons Let_def)
    qed
  qed
qed

lemma util_digits_eq:
  "util_digits s m =
     (let ds = takeWhile is_digit s
      in if dec_val ds \<le> unat m then (length ds, of_nat (dec_val ds)) else (0, 0))"
  unfolding util_digits_def dec_val_def by (subst digits_loop_eq) (simp_all add: Let_def)

text \<open>The digits that \<^verbatim>\<open>util_decimal()\<close> writes: those of the number, without a leading zero.\<close>

lemma decimal_loop_spec:
  "\<exists>ds. decimal_loop n out = ds @ out \<and> list_all is_digit ds \<and> ds \<noteq> [] \<and>
     dec_val ds = unat n \<and> 10 ^ (length ds - 1) \<le> max 1 (unat n)"
proof (induction n out rule: decimal_loop.induct)
  case (1 n out)
  let ?c = "ch CHR ''0'' + ucast (n mod 10) :: byte"
  have "(ucast (n mod 10) :: byte) = of_nat (unat n mod 10)"
    by (metis of_nat_unat unat_mod10)
  then have c: "is_digit ?c" "unat (?c - ch CHR ''0'') = unat n mod 10"
    using digit_of_nat [of "unat n mod 10"] by (simp_all only:)
  show ?case
  proof (cases "n div 10 = 0")
    case True
    then have "unat n div 10 = 0" by (metis unat_0 unat_div10)
    then have "unat n mod 10 = unat n" by simp
    with True c show ?thesis
      by (subst decimal_loop.simps)
         (auto simp: Let_def dec_val_def dec_step_def intro!: exI [of _ "[?c]"])
  next
    case False
    from "1.IH" [OF refl refl False] obtain ds where
      ds: "decimal_loop (n div 10) (?c # out) = ds @ ?c # out" "list_all is_digit ds" "ds \<noteq> []"
        "dec_val ds = unat (n div 10)" "10 ^ (length ds - 1) \<le> max 1 (unat (n div 10))"
      by blast
    have pos: "unat (n div 10) \<noteq> 0" using False by (simp add: unat_eq_0)
    have len: "length (ds @ [?c]) - 1 = Suc (length ds - 1)" using ds(3) by (cases ds) auto
    have "10 * 10 ^ (length ds - 1) \<le> 10 * (unat n div 10)"
      using ds(5) pos by (simp add: unat_div10 max_def split: if_splits)
    then have "10 ^ (length (ds @ [?c]) - 1) \<le> max 1 (unat n)"
      unfolding len by simp
    moreover have "dec_val (ds @ [?c]) = unat n"
      using ds(4) c(2) by (simp add: dec_val_def dec_step_def unat_div10)
    moreover have "decimal_loop n out = (ds @ [?c]) @ out"
      using False ds(1) by (subst decimal_loop.simps) (simp add: Let_def)
    ultimately show ?thesis using ds(2,3) c(1)
      by (intro exI [of _ "ds @ [?c]"]) simp
  qed
qed

lemma util_decimal_facts:
  "list_all is_digit (util_decimal n)" "util_decimal n \<noteq> []" "dec_val (util_decimal n) = unat n"
  "length (util_decimal n) \<le> UTIL_DECIMAL"
proof -
  from decimal_loop_spec [of n "[]"] obtain ds where
    ds: "util_decimal n = ds" "list_all is_digit ds" "ds \<noteq> []" "dec_val ds = unat n"
      "10 ^ (length ds - 1) \<le> max 1 (unat n)"
    by (auto simp: util_decimal_def)
  have "unat n < 2 ^ 64" using unsigned_less [of n, where ?'a = nat] by simp
  with ds(5) have "10 ^ (length ds - 1) < (10::nat) ^ 20"
    by (simp add: max_def split: if_splits)
  then have "length ds - 1 < 20" by (rule power_less_imp_less_exp [rotated]) simp
  then show "list_all is_digit (util_decimal n)" "util_decimal n \<noteq> []"
    "dec_val (util_decimal n) = unat n" "length (util_decimal n) \<le> UTIL_DECIMAL"
    using ds by (simp_all add: UTIL_DECIMAL_def)
qed

lemma takeWhile_all: "list_all P xs \<Longrightarrow> takeWhile P xs = xs"
  by (simp add: takeWhile_eq_all_conv list_all_iff)

lemma util_number_Inr_iff:
  "util_number s m = Inr v \<longleftrightarrow>
     s \<noteq> [] \<and> list_all is_digit s \<and> dec_val s \<le> unat m \<and> v = of_nat (dec_val s)"
proof -
  have "length (takeWhile is_digit s) = length s \<longleftrightarrow> list_all is_digit s"
    by (metis list_all_iff takeWhile_all takeWhile_eq_all_conv takeWhile_eq_take take_all_iff order_refl length_take min.absorb_iff2)
  then show ?thesis
    by (auto simp: util_number_def util_digits_eq Let_def takeWhile_all split: if_splits)
qed

lemma number_of_decimal: "n \<le> m \<Longrightarrow> util_number (util_decimal n) m = Inr n"
  using util_decimal_facts [of n] by (simp add: util_number_Inr_iff word_le_nat_alt)

section \<open>Properties\<close>

text \<open>
  The parser of a bounded decimal number reads back each number that the printer
  writes, exactly when the number is within the bound; the printer's text fits the buffer
  its callers declare.
\<close>

theorem decimal_round_trip:
  "util_number (util_decimal n) limit = (if n \<le> limit then Inr n else Inl EINVAL) \<and>
   length (util_decimal n) \<le> UTIL_DECIMAL"
proof (cases "n \<le> limit")
  case True
  then show ?thesis by (simp add: number_of_decimal util_decimal_facts)
next
  case False
  then have "util_number (util_decimal n) limit \<noteq> Inr v" for v
    by (auto simp: util_number_Inr_iff util_decimal_facts word_le_nat_alt)
  moreover have "util_number (util_decimal n) limit = Inl EINVAL \<or>
      (\<exists>v. util_number (util_decimal n) limit = Inr v)"
    by (auto simp: util_number_def split: prod.splits if_splits)
  ultimately have "util_number (util_decimal n) limit = Inl EINVAL" by blast
  with False show ?thesis by (simp add: util_decimal_facts)
qed

text \<open>
  The parser accepts a text exactly when it is a nonempty run of decimal digits whose
  value, computed without a bound, is within the limit: no wrap-around lets a greater
  number through.
\<close>

theorem number_accepts:
  "util_number s limit = Inr v \<longleftrightarrow>
     s \<noteq> [] \<and> list_all is_digit s \<and> dec_val s \<le> unat limit \<and> v = of_nat (dec_val s)"
  by (rule util_number_Inr_iff)

text \<open>
  Big-endian numbers and hexadecimal text are read back as written: a number put into
  \<open>n\<close> bytes gives its lowest \<open>8 n\<close> bits, and the digits of a byte string are valid
  lower-case digits that decode to it.
\<close>

theorem binary_round_trips:
  "util_be_get (util_be_put v n) = take_bit (8 * n) v \<and> length (util_be_put v n) = n \<and>
   util_is_hex (util_hex bs) \<and> length (util_hex bs) = 2 * length bs \<and> unhex (util_hex bs) = bs"
  by (simp add: be_get_put)

end
