(* ===== verification/Util_Io.thy ===== *)
theory Util_Io
  imports Util
begin

text \<open>
  Hashing, storage and file helpers of \<^verbatim>\<open>src/util.h\<close>: the seeded hash, growing and splicing
  arrays, the test for private files, and reads and writes that go on after a signal or a
  partial transfer.

  The lemmas show that growth is geometric and never overflows \<^verbatim>\<open>size_t\<close>, that a splice keeps
  the items around the gap, and that a whole read or write transfers all or reports an error.
\<close>

unbundle bit_operations_syntax

section \<open>Hashing\<close>

definition util_hash :: "u64 \<Rightarrow> bytes \<Rightarrow> u64" where
  "util_hash seed data =
     (let h = foldl (\<lambda>h p. (h XOR ucast p) * 0x100000001b3)
                (seed XOR of_nat (length data)) data;
          h = (h XOR drop_bit 33 h) * 0xff51afd7ed558ccd
      in h XOR drop_bit 33 h)"

section \<open>Growing arrays\<close>

text \<open>
  \<^verbatim>\<open>util_room()\<close> on the capacity: the new capacity, whether the array was reallocated, and the
  allocations left.  The arithmetic is that of \<^verbatim>\<open>size_t\<close>.
\<close>

definition util_room :: "allocs \<Rightarrow> u64 \<Rightarrow> u64 \<Rightarrow> u64 \<Rightarrow> u64 \<times> bool \<times> allocs" where
  "util_room as cap n sz =
     (if n \<le> cap then (cap, False, as)
      else
        let more = (if cap \<noteq> 0 then 2 * cap else 4);
            more = (if more < n \<or> more > (- 1) div sz then n else more)
        in if n \<le> (- 1) div sz
           then (case alloc as of (True, as) \<Rightarrow> (more, True, as) | (False, as) \<Rightarrow> (cap, False, as))
           else (cap, False, as))"

text \<open>\<^verbatim>\<open>util_grow()\<close>: the error and the capacity.\<close>

definition util_grow :: "allocs \<Rightarrow> u64 \<Rightarrow> u64 \<Rightarrow> u64 \<Rightarrow> errno option \<times> u64 \<times> allocs" where
  "util_grow as cap n sz =
     (case util_room as cap n sz of
        (cap', moved, as) \<Rightarrow> (if cap' < n then Some ENOMEM else None, cap', as))"

text \<open>
  \<^verbatim>\<open>util_splice()\<close> on the items of the array and its capacity: the error, the storage (whose
  first \<open>n - drop + add\<close> places are the new items, with the bytes that were there before
  in the gap) and the capacity.  \<open>store\<close> is the whole storage, \<open>cap\<close> items long, and
  \<open>fresh\<close> the items that \<^verbatim>\<open>realloc()\<close> appends to it.
\<close>

definition util_splice ::
    "allocs \<Rightarrow> 'a list \<Rightarrow> 'a list \<Rightarrow> nat \<Rightarrow> nat \<Rightarrow> nat \<Rightarrow> nat \<Rightarrow> u64 \<Rightarrow>
       errno option \<times> 'a list \<times> nat \<times> allocs" where
  "util_splice as store fresh n at' drop' add sz =
     (let count = n - drop' + add;
          (cap, moved, as) = util_room as (of_nat (length store)) (of_nat count) sz;
          store = (if moved then store @ take (unat cap - length store) fresh else store)
      in if unat cap < count then (Some ENOMEM, store, n, as)
         else ((None),
               (if at' + drop' < n
                then overwrite store (at' + add) (take (n - at' - drop') (drop (at' + drop') store))
                else store),
               count, as))"

section \<open>Private files\<close>

datatype file_type = S_IFREG | S_IFDIR | S_IFOTHER

record stat =
  st_type :: file_type
  st_perm :: "9 word"
  st_uid :: u32
  st_nlink :: u64

text \<open>\<^verbatim>\<open>util_private()\<close>: the reason why not, or \<open>None\<close>.\<close>

definition util_private :: "u32 \<Rightarrow> stat \<Rightarrow> file_type \<Rightarrow> string option" where
  "util_private euid st type =
     (if st_type st \<noteq> type then
        Some (if type = S_IFDIR then ''the file is not a directory''
              else ''the file is not a regular file'')
      else if st_uid st \<noteq> euid then Some ''askai's user does not own the file''
      else if st_perm st AND 0x3f \<noteq> 0 then
        Some ''the mode of the file lets other users access it''
      else if type = S_IFREG \<and> st_nlink st \<noteq> 1 then
        Some ''the file has more than one hard link''
      else None)"

definition util_private_fd :: "u32 \<Rightarrow> errno + stat \<Rightarrow> file_type \<Rightarrow> errno option" where
  "util_private_fd euid fstat type =
     (case fstat of Inl e \<Rightarrow> Some e
      | Inr st \<Rightarrow> if util_private euid st type \<noteq> None then Some EACCES else None)"

section \<open>Whole reads and writes\<close>

text \<open>The outcome of one \<^verbatim>\<open>write()\<close> or \<^verbatim>\<open>read()\<close>: a count, or an error number.\<close>

datatype io = Count nat | IoErr errno

text \<open>\<^verbatim>\<open>util_write_all()\<close>: the error, and the bytes that reached the descriptor; \<open>None\<close> while the
  calls on the tape have not ended it.\<close>

fun util_write_all :: "io list \<Rightarrow> bytes \<Rightarrow> (errno option \<times> bytes) option" where
  "util_write_all ios [] = Some (None, [])"
| "util_write_all [] p = None"
| "util_write_all (IoErr e # ios) p =
     (if e = EINTR then util_write_all ios p else Some (Some e, []))"
| "util_write_all (Count n # ios) p =
     (if n = 0 then Some (Some EIO, [])
      else map_option (\<lambda>(e, w). (e, take n p @ w)) (util_write_all ios (drop n p)))"

text \<open>The outcome of one \<^verbatim>\<open>read()\<close>: the bytes read (none at the end of the file), or an error.\<close>

text \<open>\<^verbatim>\<open>util_read_all()\<close>: the error and the bytes read, for a buffer of \<open>len\<close> bytes.\<close>

fun read_all_loop :: "got list \<Rightarrow> nat \<Rightarrow> bytes \<Rightarrow> (errno option \<times> bytes) option" where
  "read_all_loop rs len got =
     (if length got < len then
        (case rs of
           [] \<Rightarrow> None
         | Failed e # rs \<Rightarrow> if e = EINTR then read_all_loop rs len got else Some (Some e, got)
         | Got bs # rs \<Rightarrow> if bs = [] then Some (None, got) else read_all_loop rs len (got @ bs))
      else Some (None, got))"

declare read_all_loop.simps [simp del]

definition util_read_all :: "got list \<Rightarrow> nat \<Rightarrow> (errno option \<times> bytes) option" where
  "util_read_all rs len = read_all_loop rs len []"

section \<open>Facts: growing arrays\<close>

lemma max_div: "n \<le> (- 1) div sz \<longleftrightarrow> unat n * unat sz < 2 ^ 64" if "sz \<noteq> 0" for n sz :: u64
proof -
  have "0 < unat sz" using that by (simp add: unat_gt_0)
  moreover have "unat (- 1 :: u64) = 2 ^ 64 - 1" by (simp add: unsigned_minus_1_eq_mask mask_eq_exp_minus_1)
  ultimately have "unat n \<le> unat ((- 1) div sz) \<longleftrightarrow> unat n * unat sz \<le> 2 ^ 64 - 1"
    by (simp only: unat_div_distrib less_eq_div_iff_mult_less_eq)
  moreover have "x \<le> 2 ^ 64 - 1 \<longleftrightarrow> x < 2 ^ 64" for x :: nat by auto
  ultimately show ?thesis by (simp only: word_le_nat_alt)
qed

text \<open>Where \<^verbatim>\<open>util_room()\<close> succeeds there is room, the size of the storage does not overflow, and an
  array that grows at least doubles unless the doubled size would overflow.\<close>

lemma util_room_spec:
  assumes "util_room as cap n sz = (cap', moved, as')" and sz: "sz \<noteq> 0"
    and cap: "unat cap * unat sz < 2 ^ 64"
  shows "unat cap' * unat sz < 2 ^ 64"
    and "cap \<le> cap'"
    and "cap' \<noteq> cap \<Longrightarrow> n \<le> cap'"
    and "moved \<Longrightarrow> unat (2 * cap) * unat sz < 2 ^ 64 \<Longrightarrow> 2 * cap \<le> cap'"
    and "cap' < n \<Longrightarrow> 2 ^ 64 \<le> unat n * unat sz \<or> \<not> fst (alloc as)"
proof -
  let ?m = "if cap \<noteq> 0 then 2 * cap else 4"
  let ?more = "if ?m < n \<or> ?m > (- 1) div sz then n else ?m"
  consider (room) "n \<le> cap" "cap' = cap" "\<not> moved"
    | (grown) "\<not> n \<le> cap" "n \<le> (- 1) div sz" "cap' = ?more" "moved"
    | (refused) "\<not> n \<le> cap" "cap' = cap" "\<not> moved" "\<not> n \<le> (- 1) div sz \<or> \<not> fst (alloc as)"
    using assms(1) by (auto simp: util_room_def Let_def split: if_splits prod.splits bool.splits)
  then have "unat cap' * unat sz < 2 ^ 64 \<and> cap \<le> cap' \<and> (cap' \<noteq> cap \<longrightarrow> n \<le> cap') \<and>
     (moved \<longrightarrow> unat (2 * cap) * unat sz < 2 ^ 64 \<longrightarrow> 2 * cap \<le> cap') \<and>
     (cap' < n \<longrightarrow> 2 ^ 64 \<le> unat n * unat sz \<or> \<not> fst (alloc as))"
  proof cases
    case room
    then show ?thesis using cap by (simp add: not_less [THEN iffD2])
  next
    case grown
    have "cap' \<le> (- 1) div sz" "n \<le> cap'" using grown(2,3) by (auto simp: not_less)
    moreover have "cap < n" using grown(1) by simp
    moreover have "2 * cap \<le> cap'" if "unat (2 * cap) * unat sz < 2 ^ 64"
      using that max_div [OF sz, of "2 * cap"] grown(3) by (auto simp: not_less)
    ultimately show ?thesis using max_div [OF sz, of cap']
      by (auto simp: not_less [THEN iffD2])
  next
    case refused
    then show ?thesis using cap max_div [OF sz, of n] by auto
  qed
  then show "unat cap' * unat sz < 2 ^ 64" "cap \<le> cap'" "cap' \<noteq> cap \<Longrightarrow> n \<le> cap'"
    "moved \<Longrightarrow> unat (2 * cap) * unat sz < 2 ^ 64 \<Longrightarrow> 2 * cap \<le> cap'"
    "cap' < n \<Longrightarrow> 2 ^ 64 \<le> unat n * unat sz \<or> \<not> fst (alloc as)"
    by blast+
qed

section \<open>Facts: whole reads and writes\<close>

text \<open>The writes that a tape may hold: no \<^verbatim>\<open>write()\<close> transfers more than it was given.\<close>

fun writes_ok :: "io list \<Rightarrow> bytes \<Rightarrow> bool" where
  "writes_ok (Count n # ios) p = (n \<le> length p \<and> writes_ok ios (drop n p))"
| "writes_ok (IoErr e # ios) p = writes_ok ios p"
| "writes_ok [] p = True"

lemma util_write_all_spec:
  "util_write_all ios p = Some (e, w) \<Longrightarrow> writes_ok ios p \<Longrightarrow>
     (\<exists>rest. p = w @ rest) \<and> (e = None \<longrightarrow> w = p) \<and> e \<noteq> Some EINTR"
proof (induction ios p arbitrary: e w rule: util_write_all.induct)
  case (4 n ios v va)
  show ?case
  proof (cases "n = 0")
    case True
    with "4.prems" show ?thesis by auto
  next
    case False
    with "4.prems"(1) obtain w' where w': "util_write_all ios (drop n (v # va)) = Some (e, w')"
        "w = take n (v # va) @ w'"
      by auto
    have "writes_ok ios (drop n (v # va))" using "4.prems"(2) by simp
    with "4.IH" [OF False w'(1)] obtain rest where
      "drop n (v # va) = w' @ rest" "e = None \<longrightarrow> w' = drop n (v # va)" "e \<noteq> Some EINTR"
      by blast
    then show ?thesis unfolding w'(2) by (metis append_assoc append_take_drop_id)
  qed
qed (auto split: if_splits)

text \<open>The calls end it: each that transfers a byte brings the end nearer, and any tape with as many
  such calls as bytes is enough.\<close>

lemma util_write_all_returns:
  "length p \<le> length (filter (\<lambda>io. \<exists>n. io = Count n \<or> (\<exists>e. io = IoErr e \<and> e \<noteq> EINTR)) ios) \<Longrightarrow>
     util_write_all ios p \<noteq> None"
proof (induction ios p rule: util_write_all.induct)
  case (4 n ios v va)
  show ?case
  proof (cases "n = 0")
    case False
    have "length (drop n (v # va)) \<le> length va" using False by (cases n) auto
    with "4.prems" have "length (drop n (v # va)) \<le>
        length (filter (\<lambda>io. \<exists>n. io = Count n \<or> (\<exists>e. io = IoErr e \<and> e \<noteq> EINTR)) ios)"
      by simp
    with "4.IH" [OF False] False show ?thesis by simp
  qed simp
qed (auto split: if_splits)

lemma read_all_loop_spec:
  "read_all_loop rs len got = Some (e, out) \<Longrightarrow>
     (\<exists>more. out = got @ more) \<and> e \<noteq> Some EINTR \<and>
     (e = None \<longrightarrow> length out < len \<longrightarrow> Got [] \<in> set rs)"
proof (induction rs len got arbitrary: e out rule: read_all_loop.induct)
  case (1 rs len got)
  show ?case
  proof (cases "length got < len")
    case False
    then show ?thesis using "1.prems" read_all_loop.simps [of rs len got] by simp
  next
    case True
    show ?thesis
    proof (cases rs)
      case Nil
      then show ?thesis using "1.prems" True read_all_loop.simps [of rs len got] by simp
    next
      case (Cons r rs')
      show ?thesis
      proof (cases r)
        case (Failed x)
        show ?thesis
        proof (cases "x = EINTR")
          case x: True
          have "read_all_loop rs' len got = Some (e, out)"
            using "1.prems" True Cons Failed x read_all_loop.simps [of rs len got] by simp
          from "1.IH"(2) [OF True Cons Failed x this] show ?thesis using Cons by auto
        next
          case False
          then show ?thesis
            using "1.prems" True Cons Failed read_all_loop.simps [of rs len got] by simp
        qed
      next
        case (Got bs)
        show ?thesis
        proof (cases "bs = []")
          case bs: True
          then show ?thesis
            using "1.prems" True Cons Got read_all_loop.simps [of rs len got] by simp
        next
          case False
          have "read_all_loop rs' len (got @ bs) = Some (e, out)"
            using "1.prems" True Cons Got False read_all_loop.simps [of rs len got] by simp
          from "1.IH"(1) [OF True Cons Got False this] show ?thesis using Cons by auto
        qed
      qed
    qed
  qed
qed

lemma util_read_all_spec:
  "util_read_all rs len = Some (e, out) \<Longrightarrow>
     e \<noteq> Some EINTR \<and> (e = None \<longrightarrow> length out < len \<longrightarrow> Got [] \<in> set rs)"
  unfolding util_read_all_def by (drule read_all_loop_spec) simp

section \<open>Facts: splicing an array\<close>

lemma overwrite_inside:
  "off + length src \<le> length buf \<Longrightarrow> take (length src) (drop off (overwrite buf off src)) = src"
  by (simp add: overwrite_def min_def)

lemma util_splice_spec:
  assumes run: "util_splice as store fresh n at' drop' add sz = (None, store', count', as')"
    and at: "at' + drop' \<le> n" "n \<le> length store"
    and room: "util_room as (of_nat (length store)) (of_nat (n - drop' + add)) sz = (cap, moved, as')"
    and fresh: "moved \<Longrightarrow> unat cap - length store \<le> length fresh" "length store \<le> unat cap"
      "\<not> moved \<Longrightarrow> unat cap = length store"
  shows "count' = n - drop' + add" "count' \<le> length store'" "length store' = unat cap"
    "take at' store' = take at' store"
    "take (n - at' - drop') (drop (at' + add) store') = take (n - at' - drop') (drop (at' + drop') store)"
proof -
  define S where "S = (if moved then store @ take (unat cap - length store) fresh else store)"
  define T where "T = take (n - at' - drop') (drop (at' + drop') S)"
  have len: "length S = unat cap" using fresh by (auto simp: S_def)
  have same: "take k S = take k store" if "k \<le> n" for k using that at by (auto simp: S_def)
  have cnt: "count' = n - drop' + add" "\<not> unat cap < count'"
    and s': "store' = (if at' + drop' < n then overwrite S (at' + add) T else S)"
    using run room by (auto simp: util_splice_def Let_def S_def T_def split: if_splits)
  have tail: "length T = n - at' - drop'" using len at fresh(2) by (simp add: T_def)
  have fit: "at' + add + length T \<le> length S"
    unfolding tail len using cnt at by simp
  show "count' = n - drop' + add" by (rule cnt)
  show l: "length store' = unat cap" unfolding s' using length_overwrite [OF fit] len by simp
  show "count' \<le> length store'" using l cnt by simp
  have "at' \<le> length S" "at' \<le> at' + add" "at' + add \<le> length S" using fit by auto
  then have "take at' (overwrite S (at' + add) T) = take at' S"
    by (intro take_overwrite_before)
  then have "take at' store' = take at' S" unfolding s' by simp
  then show "take at' store' = take at' store" using at same by simp
  have "T = drop (at' + drop') (take n S)"
    using at(1) by (simp add: T_def drop_take)
  then have T: "T = take (n - at' - drop') (drop (at' + drop') store)"
    using same [of n] by (simp add: drop_take)
  have "take (n - at' - drop') (drop (at' + add) store') = T"
  proof (cases "at' + drop' < n")
    case True
    then show ?thesis using overwrite_inside [OF fit] tail s' by simp
  next
    case False
    then show ?thesis using tail by simp
  qed
  with T show "take (n - at' - drop') (drop (at' + add) store')
      = take (n - at' - drop') (drop (at' + drop') store)"
    by simp
qed

section \<open>Properties\<close>

text \<open>
  The capacity that an array is grown to never makes its size in bytes wrap around, is
  never less than before, holds the items asked for whenever it changes, and falls short only
  when that many items have no size in 64 bits or the allocator refuses.
\<close>

theorem array_room:
  assumes "util_room as cap n sz = (cap', moved, as')" "sz \<noteq> 0" "unat cap * unat sz < 2 ^ 64"
  shows "unat cap' * unat sz < 2 ^ 64 \<and> cap \<le> cap' \<and> (cap' = cap \<or> n \<le> cap') \<and>
    (n \<le> cap' \<or> 2 ^ 64 \<le> unat n * unat sz \<or> \<not> fst (alloc as))"
proof -
  have "cap' < n \<or> n \<le> cap'" by auto
  then show ?thesis using util_room_spec [OF assms] by blast
qed

theorem array_room_witness:
  "util_room [] 4 5 8 = (8, True, []) \<and> unat (8::u64) * unat (8::u64) < 2 ^ 64"
proof -
  have r: "util_room [] 4 5 8 = (8, True, [])" by code_simp
  then show ?thesis using array_room [OF r] by simp
qed

text \<open>
  Writing a buffer out writes a beginning of it, the whole of it when no error is
  returned, and never returns EINTR, however the calls of \<open>write\<close> split the bytes.
\<close>

theorem write_all_writes:
  assumes "util_write_all ios p = Some (e, w)" "writes_ok ios p"
  shows "(\<exists>rest. p = w @ rest) \<and> (e \<noteq> None \<or> w = p) \<and> e \<noteq> Some EINTR"
  using util_write_all_spec [OF assms] by blast

theorem write_all_writes_witness:
  "util_write_all [Count 1, IoErr EINTR, Count 2] [7, 8, 9] = Some (None, [7, 8, 9]) \<and>
   (\<exists>rest. [7, 8, 9 :: byte] = [7, 8, 9] @ rest)"
proof -
  have r: "util_write_all [Count 1, IoErr EINTR, Count 2] [7, 8, 9] = Some (None, [7, 8, 9])"
    by simp
  then show ?thesis using write_all_writes [OF r] by simp
qed

text \<open>
  Splicing an array keeps the items before the place, moves the items after the dropped
  ones behind the room for the added ones, and writes only inside the storage.
\<close>

theorem splice_moves_items:
  assumes "util_splice as store fresh n at' drop' add sz = (None, store', count', as')"
    "at' + drop' \<le> n" "n \<le> length store"
    "util_room as (of_nat (length store)) (of_nat (n - drop' + add)) sz = (cap, moved, as')"
    "unat cap = length store + (if moved then length fresh else 0)"
  shows "count' = n - drop' + add \<and> count' \<le> length store' \<and> length store' = unat cap \<and>
    take at' store' = take at' store \<and>
    take (n - at' - drop') (drop (at' + add) store') = take (n - at' - drop') (drop (at' + drop') store)"
  using util_splice_spec [OF assms(1-4)] assms(5) by (auto split: if_splits)

theorem splice_moves_items_witness:
  "\<exists>store' as'. util_splice [] [1, 2, 3, 4 :: nat] [0, 0, 0, 0] 4 1 1 3 8 = (None, store', 6, as') \<and>
     take 1 store' = [1] \<and> take 2 (drop 4 store') = [3, 4]"
proof -
  have r: "util_room [] (of_nat (length [1, 2, 3, 4 :: nat])) (of_nat (4 - 1 + 3)) 8 = (8, True, [])"
    by code_simp
  have s: "util_splice [] [1, 2, 3, 4 :: nat] [0, 0, 0, 0] 4 1 1 3 8 =
      (None, [1, 2, 3, 4, 3, 4, 0, 0], 6, [])"
    using r by (simp add: util_splice_def overwrite_def)
  show ?thesis using splice_moves_items [OF s _ _ r] s by simp
qed

end
