(* ===== verification/Buf.thy ===== *)
theory Buf
  imports Util_Io "HOL-Library.Multiset"
begin

text \<open>
  Byte buffers and the stash of their storage (\<^verbatim>\<open>src/buf.c\<close>, \<^verbatim>\<open>src/buf.h\<close>).

  A buffer has an address and the bytes of its storage, whose readable part lies between \<open>bf_head\<close> and \<open>bf_tail\<close>.  A stash
  keeps blocks that no buffer uses, one list for each class of sizes, linked through the first bytes of the blocks.  Sizes are
  numbers, as no storage has 2^64 bytes.  The lemmas show that the operations are those of a queue of bytes, which errors leave
  alone; that storage is always large enough and reads stay inside it; and that the stashes of the threads hand out each block to
  one holder at a time and keep their counts, and that one stays within twice its peak as long as its thread gives up no block
  that another took.
\<close>

section \<open>Classes of sizes\<close>

definition BUF_CLASS_MIN :: nat where "BUF_CLASS_MIN = 12"
definition BUF_CLASSES :: nat where "BUF_CLASSES = 14"
definition BUF_UNIT :: nat where "BUF_UNIT = 17"

definition BUF_EASY :: nat where "BUF_EASY = 0"
definition BUF_HIGH :: nat where "BUF_HIGH = 1"
definition BUF_CRITICAL :: nat where "BUF_CRITICAL = 2"

text \<open>\<^verbatim>\<open>stdc_bit_width()\<close>.\<close>

fun bit_width :: "nat \<Rightarrow> nat" where
  "bit_width n = (if n = 0 then 0 else Suc (bit_width (n div 2)))"

declare bit_width.simps [simp del]

definition buf_class :: "nat \<Rightarrow> nat" where
  "buf_class sz =
     (let bits = (if sz > 1 then bit_width (sz - 1) else 0)
      in if bits > BUF_CLASS_MIN then bits - BUF_CLASS_MIN else 0)"

definition class_size :: "nat \<Rightarrow> nat" where
  "class_size c = 2 ^ (BUF_CLASS_MIN + c)"

definition buf_block :: "nat \<Rightarrow> nat" where
  "buf_block sz = (let c = buf_class sz in if c < BUF_CLASSES then class_size c else sz)"

definition buf_units :: "nat \<Rightarrow> nat" where
  "buf_units n = (if n div 2 ^ BUF_UNIT \<noteq> 0 then n div 2 ^ BUF_UNIT else 1)"

section \<open>The stash\<close>

record kept =
  kp_n :: nat
  kp_low :: nat
  kp_idle :: nat

definition buf_kept_take :: "kept \<Rightarrow> kept" where
  "buf_kept_take k =
     (let k = k\<lparr>kp_n := kp_n k - 1\<rparr> in if kp_n k < kp_low k then k\<lparr>kp_low := kp_n k\<rparr> else k)"

definition buf_kept_drop :: "kept \<Rightarrow> kept" where
  "buf_kept_drop k =
     (let k = k\<lparr>kp_n := kp_n k - 1\<rparr>;
          k = k\<lparr>kp_low := kp_low k - (if kp_low k > 0 then 1 else 0)\<rparr>
      in k\<lparr>kp_idle := kp_idle k - (if kp_idle k > 0 then 1 else 0)\<rparr>)"

definition buf_kept_unused :: "kept \<Rightarrow> nat \<Rightarrow> nat" where
  "buf_kept_unused k level =
     (if level \<ge> BUF_CRITICAL then kp_n k else if kp_low k < kp_idle k then kp_low k else kp_idle k)"

definition buf_kept_age :: "kept \<Rightarrow> kept" where
  "buf_kept_age k = k\<lparr>kp_idle := kp_low k, kp_low := kp_n k\<rparr>"

text \<open>Of the metrics, those the stash itself counts.\<close>

record stash =
  st_retained :: nat
  st_hits :: nat
  st_misses :: nat
  st_released :: nat
  st_top :: "ref option list"
  st_kept :: "kept list"
  st_held :: nat
  st_peak :: nat

text \<open>
  The memory: the addresses that kept blocks hold, the next address of \<^verbatim>\<open>malloc()\<close>, the blocks freed, what the
  allocations to come do, and the memory pressure.  \<^verbatim>\<open>malloc()\<close> gives an address that is in no use; here, one that never was.
\<close>

record heap =
  hp_next :: "ref \<Rightarrow> ref option"
  hp_fresh :: ref
  hp_freed :: "ref list"
  hp_allocs :: allocs
  hp_pressure :: nat

definition heap_malloc :: "heap \<Rightarrow> ref option \<times> heap" where
  "heap_malloc h =
     (let (ok, as) = alloc (hp_allocs h); h = h\<lparr>hp_allocs := as\<rparr>
      in if ok then (Some (hp_fresh h), h\<lparr>hp_fresh := hp_fresh h + 1\<rparr>) else (None, h))"

definition heap_free :: "ref option \<Rightarrow> heap \<Rightarrow> heap" where
  "heap_free p h = (case p of None \<Rightarrow> h | Some r \<Rightarrow> h\<lparr>hp_freed := r # hp_freed h\<rparr>)"

text \<open>Functions of the stash thread it and the memory.\<close>

definition buf_stash_drop :: "nat \<Rightarrow> stash \<times> heap \<Rightarrow> stash \<times> heap" where
  "buf_stash_drop c sh =
     (case sh of (s, h) \<Rightarrow>
      let sz = class_size c;
          data = st_top s ! c;
          s = s\<lparr>st_top := (st_top s)[c := hp_next h (the data)]\<rparr>;
          h = heap_free data h;
          s = s\<lparr>st_kept := (st_kept s)[c := buf_kept_drop (st_kept s ! c)]\<rparr>
      in (s\<lparr>st_retained := st_retained s - sz, st_released := st_released s + sz\<rparr>, h))"

text \<open>The loop over the blocks of a class, which goes at most as often as blocks are kept, and that over the classes below \<open>d\<close>.\<close>

fun shrink_class :: "nat \<Rightarrow> nat \<Rightarrow> nat \<Rightarrow> stash \<times> heap \<Rightarrow> stash \<times> heap" where
  "shrink_class d room 0 sh = sh"
| "shrink_class d room (Suc n) sh =
     (if st_retained (fst sh) > room then shrink_class d room n (buf_stash_drop d sh) else sh)"

fun shrink_classes :: "nat \<Rightarrow> nat \<Rightarrow> stash \<times> heap \<Rightarrow> stash \<times> heap" where
  "shrink_classes 0 room sh = sh"
| "shrink_classes (Suc d) room sh = shrink_classes d room (shrink_class d room (kp_n (st_kept (fst sh) ! d)) sh)"

text \<open>\<^verbatim>\<open>buf_stash_take()\<close>: the storage, its size, the stash and the memory.\<close>

definition buf_stash_take :: "stash option \<Rightarrow> heap \<Rightarrow> nat \<Rightarrow> ref option \<times> nat \<times> stash option \<times> heap" where
  "buf_stash_take mine h sz =
     (let c = buf_class sz; cap = buf_block sz
      in case mine of
           None \<Rightarrow> (case heap_malloc h of (data, h) \<Rightarrow> (data, cap, mine, h))
         | Some s \<Rightarrow>
             if c \<ge> BUF_CLASSES then (case heap_malloc h of (data, h) \<Rightarrow> (data, cap, mine, h))
             else if kp_n (st_kept s ! c) \<noteq> 0 then
               let data = st_top s ! c;
                   s = s\<lparr>st_top := (st_top s)[c := hp_next h (the data)],
                         st_kept := (st_kept s)[c := buf_kept_take (st_kept s ! c)],
                         st_hits := st_hits s + 1, st_retained := st_retained s - cap\<rparr>;
                   s = s\<lparr>st_held := st_held s + cap\<rparr>;
                   s = (if st_held s > st_peak s then s\<lparr>st_peak := st_held s\<rparr> else s)
               in (data, cap, Some s, h)
             else
               let s = s\<lparr>st_misses := st_misses s + 1\<rparr>;
                   held = st_held s + cap;
                   room = 2 * (if held > st_peak s then held else st_peak s) - held;
                   (s, h) = shrink_classes BUF_CLASSES room (s, h);
                   (data, h) = heap_malloc h
               in if data = None then (None, cap, Some s, h)
                  else
                    let s = s\<lparr>st_held := st_held s + cap\<rparr>;
                        s = (if st_held s > st_peak s then s\<lparr>st_peak := st_held s\<rparr> else s)
                    in (data, cap, Some s, h))"

definition buf_stash_give :: "stash option \<Rightarrow> heap \<Rightarrow> ref option \<Rightarrow> nat \<Rightarrow> stash option \<times> heap" where
  "buf_stash_give mine h data cap =
     (let c = buf_class cap
      in case mine of
           None \<Rightarrow> (None, heap_free data h)
         | Some s \<Rightarrow>
             if c \<ge> BUF_CLASSES then (Some s, heap_free data h)
             else
               case data of
                 None \<Rightarrow> (Some s, h)
               | Some r \<Rightarrow>
                   let s = s\<lparr>st_held := st_held s - (if st_held s < cap then st_held s else cap)\<rparr>
                   in if hp_pressure h \<ge> BUF_CRITICAL then (Some (s\<lparr>st_released := st_released s + cap\<rparr>), heap_free data h)
                      else
                        let h = h\<lparr>hp_next := (hp_next h)(r := st_top s ! c)\<rparr>;
                            k = st_kept s ! c
                        in (Some (s\<lparr>st_top := (st_top s)[c := Some r], st_kept := (st_kept s)[c := k\<lparr>kp_n := kp_n k + 1\<rparr>],
                                    st_retained := st_retained s + cap\<rparr>), h))"

definition buf_stash_age :: "stash \<Rightarrow> stash" where
  "buf_stash_age s = s\<lparr>st_kept := map buf_kept_age (st_kept s)\<rparr>"

text \<open>The loop of \<^verbatim>\<open>buf_stash_release()\<close> over the blocks of a class: how many are left to give back, and the units.\<close>

fun release_class :: "nat \<Rightarrow> nat \<Rightarrow> nat \<Rightarrow> nat \<Rightarrow> nat \<Rightarrow> stash \<times> heap \<Rightarrow> nat \<times> nat \<times> stash \<times> heap" where
  "release_class c units mx 0 given sh = (0, given, sh)"
| "release_class c units mx (Suc n) given sh =
     (if given = 0 \<or> given + units \<le> mx then release_class c units mx n (given + units) (buf_stash_drop c sh)
      else (Suc n, given, sh))"

text \<open>The loop over the classes below \<open>c\<close>; whether it went to its end.\<close>

fun release_classes :: "nat \<Rightarrow> nat \<Rightarrow> nat \<Rightarrow> nat \<Rightarrow> stash \<times> heap \<Rightarrow> bool \<times> nat \<times> stash \<times> heap" where
  "release_classes 0 level mx given sh = (True, given, sh)"
| "release_classes (Suc c) level mx given sh =
     (case release_class c (buf_units (class_size c)) mx (buf_kept_unused (st_kept (fst sh) ! c) level) given sh of
        (n, given, sh) \<Rightarrow> if n \<noteq> 0 then (False, given, sh) else release_classes c level mx given sh)"

definition buf_stash_release :: "stash \<Rightarrow> heap \<Rightarrow> nat \<Rightarrow> nat \<Rightarrow> nat \<times> stash \<times> heap" where
  "buf_stash_release s h level mx =
     (case release_classes BUF_CLASSES level mx 0 (s, h) of
        (whole, given, s, h) \<Rightarrow> (given, if whole \<and> level \<ge> BUF_CRITICAL then s\<lparr>st_peak := st_held s\<rparr> else s, h))"

section \<open>Buffers\<close>

record buf =
  bf_data :: "ref option"
  bf_bytes :: bytes      \<comment> \<open>what the storage at \<open>bf_data\<close> holds\<close>
  bf_head :: nat
  bf_tail :: nat
  bf_cap :: nat

definition buf_zero :: buf where
  "buf_zero = \<lparr>bf_data = None, bf_bytes = [], bf_head = 0, bf_tail = 0, bf_cap = 0\<rparr>"

text \<open>
  The thread: its stash, if it has one, and the memory.  \<open>junk n\<close> is what \<open>n\<close> bytes of storage hold before anything is
  written to them.
\<close>

type_synonym thread = "stash option \<times> heap"

definition buf_move :: "(nat \<Rightarrow> bytes) \<Rightarrow> thread \<Rightarrow> buf \<Rightarrow> nat \<Rightarrow> errno option \<times> thread \<times> buf" where
  "buf_move junk th b sz =
     (case buf_stash_take (fst th) (snd th) sz of
        (None, cap, mine, h) \<Rightarrow> (Some ENOMEM, (mine, h), b)
      | (Some data, cap, mine, h) \<Rightarrow>
          let len = bf_tail b - bf_head b;
              new = (if len \<noteq> 0 then overwrite (junk cap) 0 (take len (drop (bf_head b) (bf_bytes b))) else junk cap)
          in (None, buf_stash_give mine h (bf_data b) (bf_cap b),
              \<lparr>bf_data = Some data, bf_bytes = new, bf_head = 0, bf_tail = len, bf_cap = cap\<rparr>))"

text \<open>The room is an offset in the storage and a length, \<open>None\<close> if it is empty.\<close>

definition buf_reserve ::
    "(nat \<Rightarrow> bytes) \<Rightarrow> thread \<Rightarrow> buf \<Rightarrow> nat \<Rightarrow> nat \<Rightarrow> errno option \<times> (nat \<times> nat) option \<times> thread \<times> buf"
where
  "buf_reserve junk th b least mx =
     (let len = bf_tail b - bf_head b
      in if len > mx \<or> least > mx - len then (Some ENOBUFS, None, th, b)
         else
           let (e, th, b) =
             (if bf_cap b - bf_tail b < least then
                let need = len + least; cap = bf_cap b
                in if cap < need \<or> (bf_head b < cap div 2 \<and> cap < mx) then
                     let sz = (if cap > mx div 2 then mx else 2 * cap)
                     in buf_move junk th b (if sz > need then sz else need)
                   else if bf_head b \<noteq> 0 then
                     (None, th, b\<lparr>bf_bytes := overwrite (bf_bytes b) 0 (take len (drop (bf_head b) (bf_bytes b))),
                                  bf_head := 0, bf_tail := len\<rparr>)
                   else (None, th, b)
              else (None, th, b))
           in if e \<noteq> None then (e, None, th, b)
              else
                let n = bf_cap b - bf_tail b;
                    n = (if n > mx - len then mx - len else n)
                in (None, if n \<noteq> 0 then Some (bf_tail b, n) else None, th, b))"

definition buf_commit :: "buf \<Rightarrow> nat \<Rightarrow> buf" where
  "buf_commit b len = b\<lparr>bf_tail := bf_tail b + len\<rparr>"

definition buf_put :: "(nat \<Rightarrow> bytes) \<Rightarrow> thread \<Rightarrow> buf \<Rightarrow> bytes \<Rightarrow> nat \<Rightarrow> errno option \<times> thread \<times> buf" where
  "buf_put junk th b data mx =
     (if data = [] then (None, th, b)
      else
        case buf_reserve junk th b (length data) mx of
          (Some e, room, th, b) \<Rightarrow> (Some e, th, b)
        | (None, room, th, b) \<Rightarrow>
            (None, th, buf_commit (b\<lparr>bf_bytes := overwrite (bf_bytes b) (fst (the room)) data\<rparr>) (length data)))"

definition buf_peek :: "buf \<Rightarrow> bytes" where
  "buf_peek b = (if bf_head b < bf_tail b then take (bf_tail b - bf_head b) (drop (bf_head b) (bf_bytes b)) else [])"

definition buf_clear :: "buf \<Rightarrow> buf" where
  "buf_clear b = b\<lparr>bf_head := 0, bf_tail := 0\<rparr>"

definition buf_consume :: "buf \<Rightarrow> nat \<Rightarrow> buf" where
  "buf_consume b len =
     (let b = b\<lparr>bf_head := bf_head b + len\<rparr>
      in if bf_head b = bf_tail b then b\<lparr>bf_head := 0, bf_tail := 0\<rparr> else b)"

definition buf_cut :: "buf \<Rightarrow> nat \<Rightarrow> nat \<Rightarrow> buf" where
  "buf_cut b off len =
     (if off = 0 then buf_consume b len
      else
        let at = bf_head b + off;
            n = bf_tail b - bf_head b - off - len
        in b\<lparr>bf_bytes := overwrite (bf_bytes b) at (take n (drop (at + len) (bf_bytes b))), bf_tail := bf_tail b - len\<rparr>)"

definition buf_fini :: "thread \<Rightarrow> buf \<Rightarrow> thread \<times> buf" where
  "buf_fini th b = (buf_stash_give (fst th) (snd th) (bf_data b) (bf_cap b), buf_zero)"

definition buf_trim :: "(nat \<Rightarrow> bytes) \<Rightarrow> thread \<Rightarrow> buf \<Rightarrow> nat \<times> thread \<times> buf" where
  "buf_trim junk th b =
     (let len = bf_tail b - bf_head b
      in if len = 0 then (case buf_fini th b of (th, b) \<Rightarrow> (0, th, b))
         else if buf_block len < bf_cap b then
           (case buf_move junk th b len of (e, th, b) \<Rightarrow> (if e = None then len else 0, th, b))
         else (0, th, b))"

definition buf_wipe :: "buf \<Rightarrow> buf" where
  "buf_wipe b =
     (let b = (if bf_data b \<noteq> None then b\<lparr>bf_bytes := overwrite (bf_bytes b) 0 (zeros (bf_cap b))\<rparr> else b)
      in b\<lparr>bf_head := 0, bf_tail := 0\<rparr>)"

text \<open>
  \<^verbatim>\<open>buf_vprintf()\<close>, where \<open>fmt\<close> is what \<^verbatim>\<open>vsnprintf()\<close> makes of the format and its arguments: the text, shorter than 2^31
  bytes, or \<open>None\<close> when it fails.
\<close>

partial_function (option) vprintf_loop ::
    "(nat \<Rightarrow> bytes) \<Rightarrow> bytes option \<Rightarrow> nat \<Rightarrow> thread \<Rightarrow> buf \<Rightarrow> (errno option \<times> thread \<times> buf) option"
where
  "vprintf_loop junk fmt room th b =
     (case buf_reserve junk th b room SIZE_MAX of
        (Some e, s, th, b) \<Rightarrow> Some (Some e, th, b)
      | (None, s, th, b) \<Rightarrow>
          (case fmt of
             None \<Rightarrow> Some (Some EOVERFLOW, th, b)
           | Some t \<Rightarrow>
               let len = snd (the s);
                   b = b\<lparr>bf_bytes := overwrite (bf_bytes b) (fst (the s)) (take (len - 1) t @ [0])\<rparr>
               in if length t < len then Some (None, th, buf_commit b (length t)) else vprintf_loop junk fmt (length t + 1) th b))"

definition buf_vprintf :: "(nat \<Rightarrow> bytes) \<Rightarrow> bytes option \<Rightarrow> thread \<Rightarrow> buf \<Rightarrow> (errno option \<times> thread \<times> buf) option" where
  "buf_vprintf junk fmt th b = vprintf_loop junk fmt 128 th b"

text \<open>\<^verbatim>\<open>buf_read()\<close>; each entry of \<open>calls\<close> is what the reads of one call of \<^verbatim>\<open>util_read_all()\<close> do.\<close>

fun read_loop :: "(nat \<Rightarrow> bytes) \<Rightarrow> got list list \<Rightarrow> nat \<Rightarrow> nat \<Rightarrow> thread \<Rightarrow> buf \<Rightarrow> (errno option \<times> thread \<times> buf) option" where
  "read_loop junk [] least mx th b = None"
| "read_loop junk (reads # calls) least mx th b =
     (case buf_reserve junk th b least mx of
        (Some e, s, th, b) \<Rightarrow> Some (Some e, th, b)
      | (None, s, th, b) \<Rightarrow>
          (case (case s of None \<Rightarrow> (0, 0) | Some room \<Rightarrow> room) of
             (off, len) \<Rightarrow>
               case util_read_all reads len of
                 None \<Rightarrow> None
               | Some (e, got) \<Rightarrow>
                   let b = buf_commit (b\<lparr>bf_bytes := overwrite (bf_bytes b) off got\<rparr>) (length got)
                   in if e \<noteq> None \<or> length got < len then Some (e, th, b) else read_loop junk calls 1 mx th b))"

definition buf_read :: "(nat \<Rightarrow> bytes) \<Rightarrow> got list list \<Rightarrow> nat \<Rightarrow> nat \<Rightarrow> thread \<Rightarrow> buf \<Rightarrow> (errno option \<times> thread \<times> buf) option" where
  "buf_read junk calls sz mx th b = read_loop junk calls ((sz + 1) mod 2 ^ 64) (mx + (if mx < SIZE_MAX then 1 else 0)) th b"

section \<open>Facts: classes\<close>

lemma bit_width_bounds: "n < 2 ^ bit_width n \<and> (n \<noteq> 0 \<longrightarrow> 2 ^ bit_width n \<le> 2 * n)"
proof (induction n rule: bit_width.induct)
  case (1 n)
  show ?case
  proof (cases "n = 0")
    case True
    then show ?thesis by (simp add: bit_width.simps [of n])
  next
    case False
    have w: "bit_width n = Suc (bit_width (n div 2))" using False by (subst bit_width.simps) simp
    have i: "n div 2 < 2 ^ bit_width (n div 2)" "n div 2 \<noteq> 0 \<longrightarrow> 2 ^ bit_width (n div 2) \<le> 2 * (n div 2)" using 1 [OF False] by simp_all
    show ?thesis
    proof (cases "n div 2 = 0")
      case True
      then have "n = 1" using False by simp
      then show ?thesis unfolding w using True by (simp add: bit_width.simps [of 0])
    next
      case ne: False
      have "2 ^ bit_width (n div 2) \<le> n" using i(2) ne by linarith
      then show ?thesis unfolding w using i(1) by simp
    qed
  qed
qed

lemma class_holds: "sz \<le> class_size (buf_class sz)"
proof (cases "sz > 1")
  case True
  have "sz - 1 < 2 ^ bit_width (sz - 1)" using bit_width_bounds by blast
  also have "\<dots> \<le> class_size (buf_class sz)"
    unfolding class_size_def buf_class_def Let_def using True by (intro power_increasing) simp_all
  finally show ?thesis using True by simp
next
  case False
  have "sz \<le> 1" using False by simp
  also have "1 \<le> class_size (buf_class sz)" by (simp add: class_size_def)
  finally show ?thesis .
qed

lemma class_least: "c < buf_class sz \<Longrightarrow> class_size c < sz"
proof -
  assume c: "c < buf_class sz"
  then have s: "sz > 1" and w: "BUF_CLASS_MIN + c < bit_width (sz - 1)" by (auto simp: buf_class_def Let_def split: if_splits)
  have "(2::nat) * 2 ^ (BUF_CLASS_MIN + c) \<le> 2 ^ bit_width (sz - 1)" using power_increasing [of "Suc (BUF_CLASS_MIN + c)" "bit_width (sz - 1)" "2::nat"] w by simp
  also have "\<dots> \<le> 2 * (sz - 1)" using bit_width_bounds [of "sz - 1"] s by simp
  finally show ?thesis using s by (simp add: class_size_def)
qed

lemma block_holds: "sz \<le> buf_block sz"
  using class_holds by (simp add: buf_block_def Let_def)

lemma class_of_size: "buf_class (class_size c) = c"
proof (rule antisym)
  show "buf_class (class_size c) \<le> c"
  proof (rule ccontr)
    assume "\<not> buf_class (class_size c) \<le> c"
    then have "class_size c < class_size c" by (intro class_least) simp
    then show False by simp
  qed
  show "c \<le> buf_class (class_size c)"
  proof (rule ccontr)
    assume "\<not> c \<le> buf_class (class_size c)"
    then have "class_size (buf_class (class_size c)) < class_size c" by (simp add: class_size_def)
    then show False using class_holds [of "class_size c"] by simp
  qed
qed

lemma class_of_block: "buf_class sz < BUF_CLASSES \<Longrightarrow> buf_class (buf_block sz) = buf_class sz"
  by (simp add: buf_block_def Let_def class_of_size)

section \<open>Facts: the stash\<close>

definition own :: "heap \<Rightarrow> ref list list \<Rightarrow> ref list \<Rightarrow> bool" where
  "own h bl hs \<longleftrightarrow> distinct (concat bl @ hs @ hp_freed h) \<and> (\<forall>r \<in> set (concat bl @ hs @ hp_freed h). r < hp_fresh h)"

text \<open>The stash keeps the blocks \<open>bl\<close>, by class, and \<open>hs\<close> are the blocks that buffers hold; no block is in two places.\<close>

definition stash_inv :: "stash \<Rightarrow> heap \<Rightarrow> ref list list \<Rightarrow> ref list \<Rightarrow> bool" where
  "stash_inv s h bl hs \<longleftrightarrow>
     length (st_top s) = BUF_CLASSES \<and> length (st_kept s) = BUF_CLASSES \<and> length bl = BUF_CLASSES \<and>
     (\<forall>c < BUF_CLASSES. linked (hp_next h) (st_top s ! c) (bl ! c) \<and> kp_n (st_kept s ! c) = length (bl ! c) \<and>
        kp_low (st_kept s ! c) \<le> length (bl ! c)) \<and>
     st_retained s = (\<Sum>c < BUF_CLASSES. length (bl ! c) * class_size c) \<and> st_held s \<le> st_peak s \<and> own h bl hs"

lemma mset_classes: "c < length bl \<Longrightarrow> mset (concat (bl[c := xs])) + mset (bl ! c) = mset (concat bl) + mset xs"
proof (induction bl arbitrary: c)
  case (Cons ys bl)
  then show ?case by (cases c) (simp_all add: ac_simps)
qed simp

lemma own_move:
  assumes "mset (concat bl' @ hs' @ hp_freed h') = mset (concat bl @ hs @ hp_freed h)" "hp_fresh h' = hp_fresh h"
  shows "own h' bl' hs' \<longleftrightarrow> own h bl hs"
  unfolding own_def mset_eq_imp_distinct_iff [OF assms(1)] mset_eq_setD [OF assms(1)] assms(2) ..

lemma sum_classes:
  fixes bl :: "ref list list"
  assumes "c < length bl"
  shows "(\<Sum>i < length bl. length (bl[c := xs] ! i) * class_size i) + length (bl ! c) * class_size c =
    (\<Sum>i < length bl. length (bl ! i) * class_size i) + length xs * class_size c"
proof -
  have split: "(\<Sum>i < length bl. length (zs ! i) * class_size i) =
      length (zs ! c) * class_size c + (\<Sum>i \<in> {..<length bl} - {c}. length (zs ! i) * class_size i)" for zs :: "ref list list"
    using assms by (intro sum.remove) simp_all
  have "(\<Sum>i \<in> {..<length bl} - {c}. length (bl[c := xs] ! i) * class_size i) = (\<Sum>i \<in> {..<length bl} - {c}. length (bl ! i) * class_size i)"
    by (rule sum.cong) simp_all
  then show ?thesis unfolding split [of bl] split [of "bl[c := xs]"] using assms by simp
qed

lemma kept_member: "length bl = BUF_CLASSES \<Longrightarrow> c < BUF_CLASSES \<Longrightarrow> set (bl ! c) \<subseteq> set (concat bl)"
  by (metis UN_upper nth_mem set_concat)

text \<open>Taking the first block of a class away.\<close>

lemma pop_class:
  assumes inv: "stash_inv s h bl hs" and c: "c < BUF_CLASSES" and r: "bl ! c = r # rs"
  shows "st_top s ! c = Some r" "linked (hp_next h) (hp_next h r) rs" "class_size c \<le> st_retained s"
    "st_retained s - class_size c = (\<Sum>i < BUF_CLASSES. length (bl[c := rs] ! i) * class_size i)"
    "mset (concat (bl[c := rs])) + {#r#} = mset (concat bl)"
proof -
  have l: "length bl = BUF_CLASSES" using inv by (simp add: stash_inv_def)
  have "linked (hp_next h) (st_top s ! c) (r # rs)" using inv c r by (auto simp: stash_inv_def)
  then show "st_top s ! c = Some r" "linked (hp_next h) (hp_next h r) rs" by simp_all
  have s: "(\<Sum>i < BUF_CLASSES. length (bl[c := rs] ! i) * class_size i) + class_size c = st_retained s"
    using sum_classes [of c bl rs] inv c r l by (simp add: stash_inv_def)
  then show "class_size c \<le> st_retained s"
    "st_retained s - class_size c = (\<Sum>i < BUF_CLASSES. length (bl[c := rs] ! i) * class_size i)" by simp_all
  show "mset (concat (bl[c := rs])) + {#r#} = mset (concat bl)"
    using mset_classes [of c bl rs] c l r by simp
qed

text \<open>What giving blocks of the stash back leaves alone; and it keeps no more.\<close>

definition undisturbed :: "stash \<times> heap \<Rightarrow> stash \<times> heap \<Rightarrow> bool" where
  "undisturbed a b \<longleftrightarrow> (case a of (s, h) \<Rightarrow> case b of (s', h') \<Rightarrow>
     st_retained s' \<le> st_retained s \<and> st_held s' = st_held s \<and> st_peak s' = st_peak s \<and> st_hits s' = st_hits s \<and> st_misses s' = st_misses s \<and>
     hp_next h' = hp_next h \<and> hp_fresh h' = hp_fresh h \<and> hp_allocs h' = hp_allocs h \<and> hp_pressure h' = hp_pressure h)"

lemma undisturbed_refl [simp]: "undisturbed a a"
  by (simp add: undisturbed_def split: prod.split)

lemma undisturbed_trans: "undisturbed a b \<Longrightarrow> undisturbed b c \<Longrightarrow> undisturbed a c"
  by (auto simp: undisturbed_def split: prod.splits)

lemma drop_block:
  assumes inv: "stash_inv s h bl hs" and c: "c < BUF_CLASSES" and r: "bl ! c = r # rs"
    and d: "buf_stash_drop c (s, h) = (s', h')"
  shows "stash_inv s' h' (bl[c := rs]) hs \<and> undisturbed (s, h) (s', h') \<and> st_retained s' + class_size c = st_retained s \<and>
    hp_freed h' = r # hp_freed h \<and> st_released s' = st_released s + class_size c"
proof -
  note p = pop_class [OF inv c r]
  have s': "s' = s\<lparr>st_top := (st_top s)[c := hp_next h r], st_kept := (st_kept s)[c := buf_kept_drop (st_kept s ! c)],
      st_retained := st_retained s - class_size c, st_released := st_released s + class_size c\<rparr>"
    and h': "h' = h\<lparr>hp_freed := r # hp_freed h\<rparr>"
    using d p(1) by (simp_all add: buf_stash_drop_def heap_free_def Let_def)
  have o: "own h' (bl[c := rs]) hs"
  proof -
    have m: "mset (concat (bl[c := rs]) @ hs @ hp_freed h') = mset (concat bl @ hs @ hp_freed h)"
      using p(5) [symmetric] by (simp add: h')
    show ?thesis unfolding own_move [OF m] using own_move [OF m] inv by (simp add: h' stash_inv_def)
  qed
  have k: "kp_n (buf_kept_drop (st_kept s ! c)) = length rs" "kp_low (buf_kept_drop (st_kept s ! c)) \<le> length rs"
    using inv c r by (auto simp: stash_inv_def buf_kept_drop_def Let_def)
  have "stash_inv s' h' (bl[c := rs]) hs"
    using inv c o p(2,4) k by (auto simp: stash_inv_def s' h' nth_list_update)
  then show ?thesis using p(3) by (simp add: undisturbed_def s' h')
qed

lemma shrink_class_spec:
  "stash_inv s h bl hs \<Longrightarrow> d < BUF_CLASSES \<Longrightarrow> n \<le> length (bl ! d) \<Longrightarrow> shrink_class d room n (s, h) = (s', h') \<Longrightarrow>
     \<exists>k \<le> n. stash_inv s' h' (bl[d := drop k (bl ! d)]) hs \<and> undisturbed (s, h) (s', h') \<and> (st_retained s' \<le> room \<or> k = n)"
proof (induction n arbitrary: s h bl)
  case 0
  then show ?case by (intro exI [of _ 0]) simp
next
  case (Suc n)
  show ?case
  proof (cases "st_retained s > room")
    case False
    then show ?thesis using Suc.prems by (intro exI [of _ 0]) auto
  next
    case True
    obtain r rs where r: "bl ! d = r # rs" using Suc.prems(3) by (cases "bl ! d") auto
    obtain s1 h1 where d1: "buf_stash_drop d (s, h) = (s1, h1)" by (metis surj_pair)
    note one = drop_block [OF Suc.prems(1,2) r d1]
    have l: "d < length bl" using Suc.prems(1,2) by (simp add: stash_inv_def)
    have "\<exists>k \<le> n. stash_inv s' h' ((bl[d := rs])[d := drop k (bl[d := rs] ! d)]) hs \<and> undisturbed (s1, h1) (s', h') \<and> (st_retained s' \<le> room \<or> k = n)"
      by (rule Suc.IH) (use one Suc.prems r l d1 True in simp_all)
    then obtain k where k: "k \<le> n" "stash_inv s' h' (bl[d := drop k rs]) hs" "undisturbed (s1, h1) (s', h')" "st_retained s' \<le> room \<or> k = n"
      using l by auto
    have "undisturbed (s, h) (s', h')" using one k(3) undisturbed_trans by blast
    then show ?thesis using k r by (intro exI [of _ "Suc k"]) simp
  qed
qed

lemma shrink_classes_spec:
  "stash_inv s h bl hs \<Longrightarrow> d \<le> BUF_CLASSES \<Longrightarrow> shrink_classes d room (s, h) = (s', h') \<Longrightarrow>
     \<exists>bl'. stash_inv s' h' bl' hs \<and> undisturbed (s, h) (s', h') \<and> (\<forall>i < BUF_CLASSES. d \<le> i \<longrightarrow> bl' ! i = bl ! i) \<and>
       (\<forall>i < BUF_CLASSES. \<exists>k. bl' ! i = drop k (bl ! i)) \<and> (st_retained s' \<le> room \<or> (\<forall>i < d. bl' ! i = []))"
proof (induction d arbitrary: s h bl)
  case 0
  then show ?case by (intro exI [of _ bl]) (auto intro: exI [of _ 0])
next
  case (Suc d)
  have dl: "d < BUF_CLASSES" "d < length bl" using Suc.prems(1,2) by (simp_all add: stash_inv_def)
  have n: "kp_n (st_kept s ! d) = length (bl ! d)" using Suc.prems(1) dl by (simp add: stash_inv_def)
  obtain s1 h1 where one: "shrink_class d room (length (bl ! d)) (s, h) = (s1, h1)" by (metis surj_pair)
  obtain k where k: "k \<le> length (bl ! d)" "stash_inv s1 h1 (bl[d := drop k (bl ! d)]) hs" "undisturbed (s, h) (s1, h1)"
      "st_retained s1 \<le> room \<or> k = length (bl ! d)"
    using shrink_class_spec [OF Suc.prems(1) dl(1) order_refl one] by (elim exE conjE)
  have rest: "shrink_classes d room (s1, h1) = (s', h')" using Suc.prems(3) one n by simp
  obtain bl' where b: "stash_inv s' h' bl' hs" "undisturbed (s1, h1) (s', h')"
      "\<forall>i < BUF_CLASSES. d \<le> i \<longrightarrow> bl' ! i = bl[d := drop k (bl ! d)] ! i" "\<forall>i < BUF_CLASSES. \<exists>k'. bl' ! i = drop k' (bl[d := drop k (bl ! d)] ! i)"
      "st_retained s' \<le> room \<or> (\<forall>i < d. bl' ! i = [])"
    using Suc.IH [OF k(2) _ rest] dl(1) by auto
  have all: "\<exists>k'. bl' ! i = drop k' (bl ! i)" if i: "i < BUF_CLASSES" for i
  proof -
    obtain k' where "bl' ! i = drop k' (bl[d := drop k (bl ! d)] ! i)" using b(4) i by blast
    then show ?thesis using dl(2) by (cases "i = d") auto
  qed
  have le: "st_retained s' \<le> st_retained s1"
  proof -
    have i1: "length bl' = BUF_CLASSES" "length bl = BUF_CLASSES" using b(1) Suc.prems(1) by (simp_all add: stash_inv_def)
    have "length (bl' ! i) \<le> length (bl[d := drop k (bl ! d)] ! i)" if "i < BUF_CLASSES" for i
      using b(4) that by (metis diff_le_self length_drop)
    then have "(\<Sum>i < BUF_CLASSES. length (bl' ! i) * class_size i) \<le> (\<Sum>i < BUF_CLASSES. length (bl[d := drop k (bl ! d)] ! i) * class_size i)"
      by (intro sum_mono mult_right_mono) simp_all
    then show ?thesis using b(1) k(2) by (simp add: stash_inv_def)
  qed
  have "st_retained s' \<le> room \<or> (\<forall>i < Suc d. bl' ! i = [])"
  proof (cases "st_retained s1 \<le> room")
    case True
    then show ?thesis using le by simp
  next
    case False
    then have "bl' ! d = []" using k(4) b(3) dl by simp
    then show ?thesis using b(5) by (auto simp: less_Suc_eq)
  qed
  moreover have "\<forall>i < BUF_CLASSES. Suc d \<le> i \<longrightarrow> bl' ! i = bl ! i" using b(3) by simp
  ultimately show ?case using b(1) undisturbed_trans [OF k(3) b(2)] all by (intro exI [of _ bl']) blast
qed

lemma stash_inv_heap:
  "stash_inv s h bl hs \<Longrightarrow> hp_next h' = hp_next h \<Longrightarrow> own h' bl hs' \<Longrightarrow> stash_inv s h' bl hs'"
  by (simp add: stash_inv_def)

lemma own_perm: "mset hs = mset hs' \<Longrightarrow> own h bl hs \<longleftrightarrow> own h bl hs'"
  by (rule own_move) simp_all

lemma own_Cons: "own h bl (r # hs) \<longleftrightarrow> r \<notin> set (concat bl @ hs @ hp_freed h) \<and> r < hp_fresh h \<and> own h bl hs"
proof -
  have m: "mset (concat bl @ (r # hs) @ hp_freed h) = mset (r # concat bl @ hs @ hp_freed h)" by simp
  show ?thesis unfolding own_def mset_eq_imp_distinct_iff [OF m] mset_eq_setD [OF m] by (auto simp del: set_concat)
qed

lemma own_grows:
  assumes "own h bl hs" "hp_freed h' = hp_freed h" "hp_fresh h \<le> hp_fresh h'"
  shows "own h' bl hs"
  unfolding own_def assms(2)
proof
  show "distinct (concat bl @ hs @ hp_freed h)" using assms(1) by (simp only: own_def)
  show "\<forall>r \<in> set (concat bl @ hs @ hp_freed h). r < hp_fresh h'"
    using assms(1,3) unfolding own_def by (meson less_le_trans)
qed

lemma malloc_spec:
  assumes "heap_malloc h = (p, h')" "own h bl hs"
  shows "hp_next h' = hp_next h \<and> hp_freed h' = hp_freed h \<and> hp_pressure h' = hp_pressure h \<and>
    own h' bl (case p of None \<Rightarrow> hs | Some r \<Rightarrow> r # hs) \<and> (p = None \<longrightarrow> fst (alloc (hp_allocs h)) = False)"
proof (cases "fst (alloc (hp_allocs h))")
  case True
  then have p: "p = Some (hp_fresh h)" and h': "h' = h\<lparr>hp_allocs := snd (alloc (hp_allocs h)), hp_fresh := hp_fresh h + 1\<rparr>"
    using assms(1) by (auto simp: heap_malloc_def Let_def split: prod.splits if_splits)
  have "own h' bl hs" by (rule own_grows [OF assms(2)]) (simp_all add: h')
  moreover have "hp_fresh h \<notin> set (concat bl @ hs @ hp_freed h)" using assms(2) unfolding own_def by (meson less_irrefl)
  ultimately show ?thesis using p by (simp add: own_Cons h' del: set_append set_concat)
next
  case False
  then have p: "p = None" and h': "h' = h\<lparr>hp_allocs := snd (alloc (hp_allocs h))\<rparr>"
    using assms(1) by (auto simp: heap_malloc_def Let_def split: prod.splits if_splits)
  have "own h' bl hs" by (rule own_grows [OF assms(2)]) (simp_all add: h')
  then show ?thesis using p False by (simp add: h')
qed

lemma free_own: "own h bl (r # hs) \<Longrightarrow> own (heap_free (Some r) h) bl hs"
proof -
  assume o: "own h bl (r # hs)"
  have m: "mset (concat bl @ hs @ hp_freed (heap_free (Some r) h)) = mset (concat bl @ (r # hs) @ hp_freed h)" by (simp add: heap_free_def)
  show ?thesis using own_move [OF m] o by (simp add: heap_free_def)
qed

lemma take_spec:
  assumes inv: "stash_inv s h bl hs" and t: "buf_stash_take (Some s) h sz = (data, cap, mine', h')"
  shows "\<exists>s' bl'. mine' = Some s' \<and> cap = buf_block sz \<and> hp_pressure h' = hp_pressure h \<and>
    stash_inv s' h' bl' (case data of None \<Rightarrow> hs | Some r \<Rightarrow> r # hs) \<and>
    (if buf_class sz < BUF_CLASSES then st_held s' = st_held s + (if data = None then 0 else cap) else st_held s' = st_held s) \<and>
    st_peak s' = max (st_peak s) (st_held s') \<and>
    st_retained s' + (if buf_class sz < BUF_CLASSES \<and> bl ! buf_class sz \<noteq> [] then cap else 0) \<le> st_retained s \<and>
    (buf_class sz < BUF_CLASSES \<and> bl ! buf_class sz = [] \<longrightarrow>
       st_retained s' + (st_held s + cap) \<le> 2 * max (st_held s + cap) (st_peak s)) \<and>
    (buf_class sz < BUF_CLASSES \<and> bl ! buf_class sz \<noteq> [] \<longrightarrow> data = Some (hd (bl ! buf_class sz)) \<and> hp_freed h' = hp_freed h)"
proof -
  let ?c = "buf_class sz"
  consider (big) "?c \<ge> BUF_CLASSES" | (hit) "?c < BUF_CLASSES" "bl ! ?c \<noteq> []" | (miss) "?c < BUF_CLASSES" "bl ! ?c = []" by linarith
  then show ?thesis
  proof cases
    case big
    obtain p h1 where m: "heap_malloc h = (p, h1)" by (metis surj_pair)
    have "data = p" "cap = buf_block sz" "mine' = Some s" "h' = h1" using t big m by (simp_all add: buf_stash_take_def Let_def)
    moreover have "st_peak s = max (st_peak s) (st_held s)" using inv by (simp add: stash_inv_def)
    ultimately show ?thesis using malloc_spec [OF m] inv stash_inv_heap [OF inv] big by (auto simp: stash_inv_def)
  next
    case hit
    obtain r rs where r: "bl ! ?c = r # rs" using hit(2) by (cases "bl ! ?c") auto
    note p = pop_class [OF inv hit(1) r]
    have cap: "buf_block sz = class_size ?c" using hit(1) by (simp add: buf_block_def)
    have n: "kp_n (st_kept s ! ?c) \<noteq> 0" using inv hit(1) r by (simp add: stash_inv_def)
    define s1 where "s1 = s\<lparr>st_top := (st_top s)[?c := hp_next h r], st_kept := (st_kept s)[?c := buf_kept_take (st_kept s ! ?c)],
        st_hits := st_hits s + 1, st_retained := st_retained s - buf_block sz, st_held := st_held s + buf_block sz\<rparr>"
    have "buf_stash_take (Some s) h sz =
        (Some r, buf_block sz, Some (if st_held s1 > st_peak s1 then s1\<lparr>st_peak := st_held s1\<rparr> else s1), h)"
      using hit(1) n p(1) by (simp add: buf_stash_take_def Let_def s1_def)
    then have res: "data = Some r" "cap = buf_block sz" "h' = h"
        "mine' = Some (if st_held s1 > st_peak s1 then s1\<lparr>st_peak := st_held s1\<rparr> else s1)"
      using t by simp_all
    have k: "kp_n (buf_kept_take (st_kept s ! ?c)) = length rs" "kp_low (buf_kept_take (st_kept s ! ?c)) \<le> length rs"
      using inv hit(1) r by (auto simp: stash_inv_def buf_kept_take_def Let_def)
    have m: "mset (concat (bl[?c := rs]) @ (r # hs) @ hp_freed h) = mset (concat bl @ hs @ hp_freed h)" using p(5) [symmetric] by simp
    have o: "own h (bl[?c := rs]) (r # hs)" using own_move [OF m] inv by (simp add: stash_inv_def)
    let ?s = "if st_held s1 > st_peak s1 then s1\<lparr>st_peak := st_held s1\<rparr> else s1"
    have "stash_inv ?s h (bl[?c := rs]) (r # hs)"
      using inv hit(1) o p(2,4) k cap by (auto simp: stash_inv_def s1_def nth_list_update)
    moreover have "st_held ?s = st_held s + buf_block sz" "st_retained ?s + buf_block sz = st_retained s"
      "st_peak ?s = max (st_peak s) (st_held ?s)"
      using p(3) cap by (simp_all add: s1_def)
    ultimately show ?thesis using res hit r by (intro exI [of _ ?s] exI [of _ "bl[?c := rs]"]) simp
  next
    case miss
    have n: "kp_n (st_kept s ! ?c) = 0" using inv miss by (simp add: stash_inv_def)
    define s1 where "s1 = s\<lparr>st_misses := st_misses s + 1\<rparr>"
    define held where "held = st_held s1 + buf_block sz"
    define room where "room = 2 * (if held > st_peak s1 then held else st_peak s1) - held"
    have s1: "st_held s1 = st_held s" "st_peak s1 = st_peak s" by (simp_all add: s1_def)
    obtain s2 h2 where shr: "shrink_classes BUF_CLASSES room (s1, h) = (s2, h2)" by (metis surj_pair)
    have "stash_inv s1 h bl hs" using inv by (simp add: stash_inv_def s1_def)
    from shrink_classes_spec [OF this order_refl shr] obtain bl' where b: "stash_inv s2 h2 bl' hs" "undisturbed (s1, h) (s2, h2)"
        "st_retained s2 \<le> room \<or> (\<forall>i < BUF_CLASSES. bl' ! i = [])" by (elim exE conjE)
    have u: "st_held s2 = st_held s" "st_peak s2 = st_peak s" "hp_pressure h2 = hp_pressure h" "st_retained s2 \<le> st_retained s" using b(2) by (simp_all add: undisturbed_def s1_def)
    have ret: "st_retained s2 \<le> room" using b(1,3) by (auto simp: stash_inv_def)
    obtain p h3 where m: "heap_malloc h2 = (p, h3)" by (metis surj_pair)
    have own2: "own h2 bl' hs" using b(1) by (simp add: stash_inv_def)
    note ms = malloc_spec [OF m own2]
    have inv3: "stash_inv s2 h3 bl' (case p of None \<Rightarrow> hs | Some r \<Rightarrow> r # hs)" using stash_inv_heap [OF b(1)] ms by blast
    let ?s = "if p = None then s2 else let s = s2\<lparr>st_held := st_held s2 + buf_block sz\<rparr> in if st_held s > st_peak s then s\<lparr>st_peak := st_held s\<rparr> else s"
    have "buf_stash_take (Some s) h sz = (p, buf_block sz, Some ?s, h3)"
    proof -
      have c1: "\<not> BUF_CLASSES \<le> ?c" "\<not> kp_n (st_kept s ! ?c) \<noteq> 0" using miss(1) n by simp_all
      show ?thesis
        unfolding buf_stash_take_def Let_def option.case if_not_P [OF c1(1)] if_not_P [OF c1(2)]
          shr [unfolded room_def held_def s1_def] prod.case m
        by (cases p) simp_all
    qed
    then have res: "data = p" "cap = buf_block sz" "h' = h3" "mine' = Some ?s" using t by simp_all
    have inv4: "stash_inv ?s h3 bl' (case p of None \<Rightarrow> hs | Some r \<Rightarrow> r # hs)"
      using inv3 by (auto simp: stash_inv_def Let_def)
    have "st_held ?s = st_held s + (if p = None then 0 else buf_block sz)" "st_retained ?s = st_retained s2" "st_peak ?s = max (st_peak s) (st_held ?s)"
      using u inv by (simp_all add: Let_def stash_inv_def)
    moreover have "st_retained s2 + held \<le> 2 * max held (st_peak s)" using ret by (auto simp: room_def s1 split: if_splits)
    ultimately show ?thesis using res inv4 ms u miss by (intro exI [of _ ?s] exI [of _ bl']) (simp add: held_def s1)
  qed
qed

lemma give_spec:
  assumes inv: "stash_inv s h bl (r # hs)" and cap: "buf_block cap = cap" and g: "buf_stash_give (Some s) h (Some r) cap = (mine', h')"
  shows "\<exists>s' bl'. mine' = Some s' \<and> stash_inv s' h' bl' hs \<and> hp_pressure h' = hp_pressure h \<and>
    st_held s' = (if buf_class cap < BUF_CLASSES then st_held s - cap else st_held s) \<and> st_peak s' = st_peak s \<and>
    st_retained s' \<le> st_retained s + (if buf_class cap < BUF_CLASSES then cap else 0) \<and>
    (if buf_class cap < BUF_CLASSES \<and> hp_pressure h < BUF_CRITICAL
     then bl' = bl[buf_class cap := r # bl ! buf_class cap] \<and> hp_freed h' = hp_freed h else bl' = bl \<and> hp_freed h' = r # hp_freed h)"
proof -
  let ?c = "buf_class cap"
  have own: "own h bl (r # hs)" using inv by (simp add: stash_inv_def)
  have freed: "stash_inv s' (heap_free (Some r) h) bl hs" if "stash_inv s' h bl (r # hs)" for s'
    by (rule stash_inv_heap [OF that _ free_own [OF own]]) (simp add: heap_free_def)
  show ?thesis
  proof (cases "?c < BUF_CLASSES \<and> hp_pressure h < BUF_CRITICAL")
    case False
    then consider "?c \<ge> BUF_CLASSES" | "?c < BUF_CLASSES" "hp_pressure h \<ge> BUF_CRITICAL" by linarith
    then show ?thesis
    proof cases
      case 1
      then show ?thesis using g freed [OF inv] by (auto simp: buf_stash_give_def heap_free_def)
    next
      case 2
      have "stash_inv (s\<lparr>st_held := st_held s - (if st_held s < cap then st_held s else cap), st_released := st_released s + cap\<rparr>) h bl (r # hs)"
        using inv by (auto simp: stash_inv_def)
      from freed [OF this] show ?thesis using g 2 by (auto simp: buf_stash_give_def Let_def heap_free_def)
    qed
  next
    case True
    have size: "cap = class_size ?c" using cap True by (simp add: buf_block_def)
    have l: "length bl = BUF_CLASSES" using inv by (simp add: stash_inv_def)
    have new: "r \<notin> set (concat bl)" using own by (auto simp: own_def)
    define h1 where "h1 = h\<lparr>hp_next := (hp_next h)(r := st_top s ! ?c)\<rparr>"
    define s1 where "s1 = s\<lparr>st_held := st_held s - (if st_held s < cap then st_held s else cap), st_top := (st_top s)[?c := Some r],
        st_kept := (st_kept s)[?c := (st_kept s ! ?c)\<lparr>kp_n := kp_n (st_kept s ! ?c) + 1\<rparr>], st_retained := st_retained s + cap\<rparr>"
    have res: "mine' = Some s1" "h' = h1" using g True by (auto simp: buf_stash_give_def Let_def s1_def h1_def)
    have lk: "linked (hp_next h1) p (bl ! i) = linked (hp_next h) p (bl ! i)" if "i < BUF_CLASSES" for i p
      using new kept_member [OF l that] by (intro linked_cong) (auto simp: h1_def)
    have o: "own h1 (bl[?c := r # bl ! ?c]) hs"
    proof -
      have m: "mset (concat (bl[?c := r # bl ! ?c]) @ hs @ hp_freed h1) = mset (concat bl @ (r # hs) @ hp_freed h)"
        using mset_classes [of ?c bl "r # bl ! ?c"] True l by (simp add: h1_def)
      show ?thesis using own_move [OF m] own by (simp add: h1_def)
    qed
    have ret: "st_retained s + cap = (\<Sum>i < BUF_CLASSES. length (bl[?c := r # bl ! ?c] ! i) * class_size i)"
      using sum_classes [of ?c bl "r # bl ! ?c"] inv True l size by (simp add: stash_inv_def)
    have "stash_inv s1 h1 (bl[?c := r # bl ! ?c]) hs"
      using inv True o ret lk by (auto simp: stash_inv_def s1_def nth_list_update) (auto simp: h1_def)
    then show ?thesis using res True by (auto simp: h1_def s1_def)
  qed
qed

lemma give_nothing: "buf_stash_give mine h None cap = (mine, h)"
  by (simp add: buf_stash_give_def heap_free_def Let_def split: option.split)

section \<open>Facts: giving blocks back\<close>

lemma units_pos: "0 < buf_units n"
  by (simp add: buf_units_def)

lemma unused_le: "stash_inv s h bl hs \<Longrightarrow> c < BUF_CLASSES \<Longrightarrow> buf_kept_unused (st_kept s ! c) level \<le> length (bl ! c)"
  by (auto simp: stash_inv_def buf_kept_unused_def)

text \<open>The units given back are within the limit, or those of one block of class \<open>c\<close>.\<close>

lemma release_class_spec:
  "stash_inv s h bl hs \<Longrightarrow> c < BUF_CLASSES \<Longrightarrow> n \<le> length (bl ! c) \<Longrightarrow> 0 < units \<Longrightarrow>
     release_class c units mx n given (s, h) = (left, given', s', h') \<Longrightarrow>
     \<exists>k \<le> n. left = n - k \<and> stash_inv s' h' (bl[c := drop k (bl ! c)]) hs \<and> undisturbed (s, h) (s', h') \<and>
       (given' \<le> mx \<or> given' = given \<or> given = 0 \<and> given' = units) \<and> (given' = 0 \<longrightarrow> k = 0 \<and> left = 0 \<and> given = 0 \<and> (s', h') = (s, h))"
proof (induction n arbitrary: s h bl given)
  case 0
  then show ?case by (intro exI [of _ 0]) simp
next
  case (Suc n)
  show ?case
  proof (cases "given = 0 \<or> given + units \<le> mx")
    case False
    then show ?thesis using Suc.prems by (intro exI [of _ 0]) auto
  next
    case True
    obtain r rs where r: "bl ! c = r # rs" using Suc.prems(3) by (cases "bl ! c") auto
    obtain s1 h1 where d1: "buf_stash_drop c (s, h) = (s1, h1)" by (metis surj_pair)
    note one = drop_block [OF Suc.prems(1,2) r d1]
    have l: "c < length bl" using Suc.prems(1,2) by (simp add: stash_inv_def)
    have run: "release_class c units mx n (given + units) (s1, h1) = (left, given', s', h')" using Suc.prems(5) True d1 by simp
    have "\<exists>k \<le> n. left = n - k \<and> stash_inv s' h' ((bl[c := rs])[c := drop k ((bl[c := rs]) ! c)]) hs \<and> undisturbed (s1, h1) (s', h') \<and>
       (given' \<le> mx \<or> given' = given + units \<or> given + units = 0 \<and> given' = units) \<and>
       (given' = 0 \<longrightarrow> k = 0 \<and> left = 0 \<and> given + units = 0 \<and> (s', h') = (s1, h1))"
      by (rule Suc.IH) (use one Suc.prems r l run in simp_all)
    then obtain k where k: "k \<le> n" "left = n - k" "stash_inv s' h' (bl[c := drop k rs]) hs" "undisturbed (s1, h1) (s', h')"
        "given' \<le> mx \<or> given' = given + units" "given' \<noteq> 0" using l Suc.prems(4) by auto
    have u: "undisturbed (s, h) (s', h')" using one k(4) undisturbed_trans by blast
    have "given' \<le> mx \<or> given' = given \<or> given = 0 \<and> given' = units" using k(5) True by auto
    then show ?thesis using k r u by (intro exI [of _ "Suc k"]) simp
  qed
qed

lemma release_classes_spec:
  "stash_inv s h bl hs \<Longrightarrow> c \<le> BUF_CLASSES \<Longrightarrow> release_classes c level mx given (s, h) = (whole, given', s', h') \<Longrightarrow>
     (given \<le> mx \<or> (\<exists>i < BUF_CLASSES. given = buf_units (class_size i))) \<Longrightarrow>
     \<exists>bl'. stash_inv s' h' bl' hs \<and> undisturbed (s, h) (s', h') \<and>
       (given' \<le> mx \<or> (\<exists>i < BUF_CLASSES. given' = buf_units (class_size i))) \<and>
       (\<forall>i < BUF_CLASSES. c \<le> i \<longrightarrow> bl' ! i = bl ! i) \<and> (whole \<longrightarrow> level \<ge> BUF_CRITICAL \<longrightarrow> (\<forall>i < c. bl' ! i = [])) \<and>
       (given' = 0 \<longrightarrow> whole \<and> given = 0 \<and> (s', h') = (s, h) \<and> bl' = bl \<and> (\<forall>i < c. buf_kept_unused (st_kept s ! i) level = 0))"
proof (induction c arbitrary: s h bl given)
  case 0
  then show ?case by (intro exI [of _ bl]) auto
next
  case (Suc c)
  let ?units = "buf_units (class_size c)"
  have c: "c < BUF_CLASSES" using Suc.prems(2) by simp
  obtain left g1 s1 h1 where one: "release_class c ?units mx (buf_kept_unused (st_kept s ! c) level) given (s, h) = (left, g1, s1, h1)"
    by (metis surj_pair)
  obtain k where k: "k \<le> buf_kept_unused (st_kept s ! c) level" "left = buf_kept_unused (st_kept s ! c) level - k"
      "stash_inv s1 h1 (bl[c := drop k (bl ! c)]) hs" "undisturbed (s, h) (s1, h1)"
      "g1 \<le> mx \<or> g1 = given \<or> given = 0 \<and> g1 = ?units" "g1 = 0 \<longrightarrow> k = 0 \<and> left = 0 \<and> given = 0 \<and> (s1, h1) = (s, h)"
    using release_class_spec [OF Suc.prems(1) c unused_le [OF Suc.prems(1) c] units_pos one] by (elim exE conjE)
  have g1: "g1 \<le> mx \<or> (\<exists>i < BUF_CLASSES. g1 = buf_units (class_size i))" using k(5) Suc.prems(4) c by auto
  show ?case
  proof (cases "left = 0")
    case False
    then have "given' = g1" "s' = s1" "h' = h1" "\<not> whole" using Suc.prems(3) one by simp_all
    then show ?thesis using k g1 False by (intro exI [of _ "bl[c := drop k (bl ! c)]"]) auto
  next
    case True
    then have rest: "release_classes c level mx g1 (s1, h1) = (whole, given', s', h')" using Suc.prems(3) one by simp
    obtain bl' where b: "stash_inv s' h' bl' hs" "undisturbed (s1, h1) (s', h')"
        "given' \<le> mx \<or> (\<exists>i < BUF_CLASSES. given' = buf_units (class_size i))"
        "\<forall>i < BUF_CLASSES. c \<le> i \<longrightarrow> bl' ! i = bl[c := drop k (bl ! c)] ! i" "whole \<longrightarrow> level \<ge> BUF_CRITICAL \<longrightarrow> (\<forall>i < c. bl' ! i = [])"
        "given' = 0 \<longrightarrow> whole \<and> g1 = 0 \<and> (s', h') = (s1, h1) \<and> bl' = bl[c := drop k (bl ! c)] \<and>
           (\<forall>i < c. buf_kept_unused (st_kept s1 ! i) level = 0)"
      using Suc.IH [OF k(3) less_imp_le [OF c] rest g1] by (elim exE conjE)
    have "given' = 0 \<longrightarrow> whole \<and> given = 0 \<and> (s', h') = (s, h) \<and> bl' = bl \<and> (\<forall>i < Suc c. buf_kept_unused (st_kept s ! i) level = 0)"
    proof
      assume "given' = 0"
      then have a: "whole" "g1 = 0" "(s', h') = (s1, h1)" "bl' = bl[c := drop k (bl ! c)]" "\<forall>i < c. buf_kept_unused (st_kept s1 ! i) level = 0"
        using b(6) by simp_all
      then have "k = 0" "given = 0" "s1 = s" "h1 = h" "buf_kept_unused (st_kept s ! c) level = 0" using k(2,6) True by simp_all
      then show "whole \<and> given = 0 \<and> (s', h') = (s, h) \<and> bl' = bl \<and> (\<forall>i < Suc c. buf_kept_unused (st_kept s ! i) level = 0)"
        using a by (auto simp: less_Suc_eq)
    qed
    moreover have "whole \<longrightarrow> level \<ge> BUF_CRITICAL \<longrightarrow> (\<forall>i < Suc c. bl' ! i = [])"
    proof (intro impI)
      assume a: "whole" "level \<ge> BUF_CRITICAL"
      have "buf_kept_unused (st_kept s ! c) level = length (bl ! c)" using Suc.prems(1) c a(2) by (simp add: stash_inv_def buf_kept_unused_def)
      then have "drop k (bl ! c) = []" using k(2) True by simp
      moreover have "c < length bl" using Suc.prems(1) c by (simp add: stash_inv_def)
      ultimately have "bl' ! c = []" using b(4) c by simp
      then show "\<forall>i < Suc c. bl' ! i = []" using b(5) a by (auto simp: less_Suc_eq)
    qed
    moreover have "\<forall>i < BUF_CLASSES. Suc c \<le> i \<longrightarrow> bl' ! i = bl ! i" using b(4) by simp
    ultimately show ?thesis using b(1,3) undisturbed_trans [OF k(4) b(2)] by (intro exI [of _ bl'] conjI) assumption+
  qed
qed

section \<open>Facts: buffers\<close>

definition buf_ok :: "buf \<Rightarrow> bool" where
  "buf_ok b \<longleftrightarrow>
     length (bf_bytes b) = bf_cap b \<and> bf_head b \<le> bf_tail b \<and> bf_tail b \<le> bf_cap b \<and>
     (case bf_data b of None \<Rightarrow> bf_cap b = 0 | Some r \<Rightarrow> buf_block (bf_cap b) = bf_cap b)"

definition refs :: "buf \<Rightarrow> ref list" where
  "refs b = (case bf_data b of None \<Rightarrow> [] | Some r \<Rightarrow> [r])"

text \<open>The blocks \<open>hs\<close> are held by buffers, each by one, and by no stash.\<close>

definition thread_ok :: "thread \<Rightarrow> ref list \<Rightarrow> bool" where
  "thread_ok th hs \<longleftrightarrow> (case fst th of None \<Rightarrow> own (snd th) [] hs | Some s \<Rightarrow> \<exists>bl. stash_inv s (snd th) bl hs)"

lemma thread_ok_perm: "mset hs = mset hs' \<Longrightarrow> thread_ok th hs \<Longrightarrow> thread_ok th hs'"
  unfolding thread_ok_def stash_inv_def by (simp add: own_perm [of hs hs'] split: option.splits)

lemma thread_take:
  assumes "thread_ok th hs" "buf_stash_take (fst th) (snd th) sz = (data, cap, mine, h)"
  shows "cap = buf_block sz \<and> thread_ok (mine, h) (case data of None \<Rightarrow> hs | Some r \<Rightarrow> r # hs)"
proof (cases "fst th")
  case None
  obtain p h1 where m: "heap_malloc (snd th) = (p, h1)" by (metis surj_pair)
  have "data = p" "cap = buf_block sz" "mine = None" "h = h1" using assms(2) None m by (simp_all add: buf_stash_take_def Let_def)
  moreover have "own (snd th) [] hs" using assms(1) None by (simp add: thread_ok_def)
  ultimately show ?thesis using malloc_spec [OF m] by (simp add: thread_ok_def)
next
  case (Some s)
  then obtain bl where "stash_inv s (snd th) bl hs" using assms(1) by (auto simp: thread_ok_def)
  from take_spec [OF this assms(2) [unfolded Some]] show ?thesis by (auto simp: thread_ok_def)
qed

lemma thread_give:
  assumes "thread_ok th (r # hs)" "buf_block cap = cap"
  shows "thread_ok (buf_stash_give (fst th) (snd th) (Some r) cap) hs"
proof (cases "fst th")
  case None
  then have "own (snd th) [] (r # hs)" using assms(1) by (simp add: thread_ok_def)
  from free_own [OF this] show ?thesis using None by (simp add: thread_ok_def buf_stash_give_def)
next
  case (Some s)
  then obtain bl where i: "stash_inv s (snd th) bl (r # hs)" using assms(1) by (auto simp: thread_ok_def)
  obtain mine h where g: "buf_stash_give (Some s) (snd th) (Some r) cap = (mine, h)" by (metis surj_pair)
  obtain s' bl' where "mine = Some s'" "stash_inv s' h bl' hs" using give_spec [OF i assms(2) g] by (elim exE conjE)
  then show ?thesis using Some g by (auto simp: thread_ok_def)
qed

lemma thread_give_buf:
  assumes "thread_ok th (refs b @ hs)" "buf_ok b"
  shows "thread_ok (buf_stash_give (fst th) (snd th) (bf_data b) (bf_cap b)) hs"
  using assms thread_give [of th _ hs "bf_cap b"] by (cases "bf_data b") (simp_all add: refs_def buf_ok_def give_nothing)

lemma block_of_block: "buf_block (buf_block sz) = buf_block sz"
  by (cases "buf_class sz < BUF_CLASSES") (simp_all add: buf_block_def Let_def class_of_size)

lemma peek_eq: "buf_peek b = take (bf_tail b - bf_head b) (drop (bf_head b) (bf_bytes b))"
  by (simp add: buf_peek_def)

lemma length_peek: "buf_ok b \<Longrightarrow> length (buf_peek b) = bf_tail b - bf_head b"
proof -
  assume "buf_ok b"
  then have "length (bf_bytes b) = bf_cap b" "bf_tail b \<le> bf_cap b" by (simp_all add: buf_ok_def)
  then show ?thesis by (simp add: peek_eq)
qed

definition junk_ok :: "(nat \<Rightarrow> bytes) \<Rightarrow> bool" where
  "junk_ok junk \<longleftrightarrow> (\<forall>n. length (junk n) = n)"

lemma move_spec:
  assumes th: "thread_ok th (refs b @ hs)" and b: "buf_ok b" and junk: "junk_ok junk" and sz: "bf_tail b - bf_head b \<le> sz"
    and m: "buf_move junk th b sz = (e, th', b')"
  shows "thread_ok th' (refs b' @ hs) \<and> buf_ok b' \<and> buf_peek b' = buf_peek b \<and>
    (case e of None \<Rightarrow> bf_cap b' = buf_block sz \<and> bf_head b' = 0 \<and> bf_tail b' = bf_tail b - bf_head b | Some x \<Rightarrow> x = ENOMEM \<and> b' = b)"
proof -
  obtain data cap mine h where t: "buf_stash_take (fst th) (snd th) sz = (data, cap, mine, h)" by (metis surj_pair)
  note tk = thread_take [OF th t]
  show ?thesis
  proof (cases data)
    case None
    then have "e = Some ENOMEM" "th' = (mine, h)" "b' = b" using m t by (simp_all add: buf_move_def)
    then show ?thesis using tk None b by simp
  next
    case (Some r)
    let ?len = "bf_tail b - bf_head b"
    define new where "new = (if ?len \<noteq> 0 then overwrite (junk cap) 0 (take ?len (drop (bf_head b) (bf_bytes b))) else junk cap)"
    have res: "e = None" "th' = buf_stash_give mine h (bf_data b) (bf_cap b)"
        "b' = \<lparr>bf_data = Some r, bf_bytes = new, bf_head = 0, bf_tail = ?len, bf_cap = cap\<rparr>"
    proof -
      have "buf_move junk th b sz = (None, buf_stash_give mine h (bf_data b) (bf_cap b),
          \<lparr>bf_data = Some r, bf_bytes = new, bf_head = 0, bf_tail = ?len, bf_cap = cap\<rparr>)"
        unfolding buf_move_def t Some prod.case option.case Let_def new_def ..
      then show "e = None" "th' = buf_stash_give mine h (bf_data b) (bf_cap b)"
        "b' = \<lparr>bf_data = Some r, bf_bytes = new, bf_head = 0, bf_tail = ?len, bf_cap = cap\<rparr>" using m by simp_all
    qed
    have cap: "?len \<le> cap" "buf_block cap = cap" using sz tk block_holds [of sz] block_of_block by (simp_all add: order_trans)
    have s: "length (take ?len (drop (bf_head b) (bf_bytes b))) = ?len" using length_peek [OF b] unfolding peek_eq .
    have len: "length new = cap" using junk cap(1) s by (simp add: new_def junk_ok_def)
    have "take ?len new = buf_peek b" using cap(1) s by (simp add: new_def overwrite_def peek_eq)
    moreover have "thread_ok (mine, h) (refs b @ r # hs)"
      by (rule thread_ok_perm [of "r # refs b @ hs"]) (use tk Some in simp_all)
    then have "thread_ok th' (r # hs)" using thread_give_buf [of "(mine, h)" b "r # hs"] b res(2) by simp
    ultimately show ?thesis using res cap len tk by (simp add: refs_def buf_ok_def peek_eq)
  qed
qed

lemma reserve_spec:
  assumes th: "thread_ok th (refs b @ hs)" and b: "buf_ok b" and junk: "junk_ok junk"
    and r: "buf_reserve junk th b least mx = (e, room, th', b')"
  shows "thread_ok th' (refs b' @ hs) \<and> buf_ok b' \<and> buf_peek b' = buf_peek b \<and>
    (case e of
       None \<Rightarrow> length (buf_peek b) + least \<le> mx \<and>
         (case room of None \<Rightarrow> least = 0 \<and> (bf_cap b' = bf_tail b' \<or> length (buf_peek b) = mx)
          | Some (off, n) \<Rightarrow> off = bf_tail b' \<and> 0 < n \<and> least \<le> n \<and> off + n \<le> bf_cap b' \<and> length (buf_peek b) + n \<le> mx)
     | Some x \<Rightarrow> b' = b \<and> room = None \<and> (x = ENOBUFS \<and> length (buf_peek b) + least > mx \<and> th' = th \<or> x = ENOMEM \<and> length (buf_peek b) + least \<le> mx))"
proof -
  let ?len = "bf_tail b - bf_head b"
  have pl: "length (buf_peek b) = ?len" by (rule length_peek [OF b])
  show ?thesis
  proof (cases "?len > mx \<or> least > mx - ?len")
    case True
    then show ?thesis using r th b pl by (auto simp: buf_reserve_def Let_def)
  next
    case False
    define grown where "grown =
      (if bf_cap b - bf_tail b < least then
         if bf_cap b < ?len + least \<or> (bf_head b < bf_cap b div 2 \<and> bf_cap b < mx) then
           buf_move junk th b (let sz = (if bf_cap b > mx div 2 then mx else 2 * bf_cap b) in if sz > ?len + least then sz else ?len + least)
         else if bf_head b \<noteq> 0 then
           (None, th, b\<lparr>bf_bytes := overwrite (bf_bytes b) 0 (take ?len (drop (bf_head b) (bf_bytes b))), bf_head := 0, bf_tail := ?len\<rparr>)
         else (None, th, b)
       else (None, th, b))"
    obtain e1 th1 b1 where g: "grown = (e1, th1, b1)" by (metis surj_pair)
    have run: "buf_reserve junk th b least mx =
        (if e1 \<noteq> None then (e1, None, th1, b1)
         else let n = bf_cap b1 - bf_tail b1; n = (if n > mx - ?len then mx - ?len else n)
              in (None, if n \<noteq> 0 then Some (bf_tail b1, n) else None, th1, b1))"
      using False g by (simp add: buf_reserve_def Let_def grown_def cong: if_cong)
    have main: "thread_ok th1 (refs b1 @ hs) \<and> buf_ok b1 \<and> buf_peek b1 = buf_peek b \<and>
        (case e1 of None \<Rightarrow> least \<le> bf_cap b1 - bf_tail b1 | Some x \<Rightarrow> x = ENOMEM \<and> b1 = b)"
    proof (cases "bf_cap b - bf_tail b < least")
      case stay: False
      then show ?thesis using g th b by (auto simp: grown_def)
    next
      case short: True
      show ?thesis
      proof (cases "bf_cap b < ?len + least \<or> (bf_head b < bf_cap b div 2 \<and> bf_cap b < mx)")
        case True
        define sz where "sz = (let sz = (if bf_cap b > mx div 2 then mx else 2 * bf_cap b) in if sz > ?len + least then sz else ?len + least)"
        have m: "buf_move junk th b sz = (e1, th1, b1)" using g short True by (simp add: grown_def sz_def)
        have need: "?len + least \<le> sz" by (simp add: sz_def Let_def)
        then have "?len \<le> sz" by simp
        from move_spec [OF th b junk this m] show ?thesis using need block_holds [of sz] by (cases e1) auto
      next
        case keep: False
        have ne: "bf_head b \<noteq> 0" using keep short b by (auto simp: buf_ok_def)
        then have b1: "e1 = None" "th1 = th"
            "b1 = b\<lparr>bf_bytes := overwrite (bf_bytes b) 0 (take ?len (drop (bf_head b) (bf_bytes b))), bf_head := 0, bf_tail := ?len\<rparr>"
          using g short keep by (simp_all add: grown_def)
        have s: "length (take ?len (drop (bf_head b) (bf_bytes b))) = ?len" "?len \<le> bf_cap b"
          using length_peek [OF b] b unfolding peek_eq by (simp_all only: buf_ok_def) auto
        show ?thesis using b1 th b keep s by (auto simp: buf_ok_def refs_def peek_eq overwrite_def split: option.splits)
      qed
    qed
    have fits: "?len \<le> mx" "least \<le> mx - ?len" using False by simp_all
    show ?thesis
    proof (cases e1)
      case (Some x)
      have "buf_reserve junk th b least mx = (Some x, None, th1, b1)" unfolding run Some by simp
      then have "e = Some x" "room = None" "th' = th1" "b' = b1" using r by simp_all
      moreover have "x = ENOMEM" "b1 = b" using main Some by simp_all
      ultimately show ?thesis using main fits pl by simp
    next
      case None
      define n where "n = (let n = bf_cap b1 - bf_tail b1 in if n > mx - ?len then mx - ?len else n)"
      have res: "e = None" "room = (if n \<noteq> 0 then Some (bf_tail b1, n) else None)" "th' = th1" "b' = b1"
      proof -
        have "buf_reserve junk th b least mx = (None, if n \<noteq> 0 then Some (bf_tail b1, n) else None, th1, b1)"
          unfolding run None n_def Let_def by simp
        then show "e = None" "room = (if n \<noteq> 0 then Some (bf_tail b1, n) else None)" "th' = th1" "b' = b1" using r by simp_all
      qed
      have n: "least \<le> n" "n \<le> bf_cap b1 - bf_tail b1" "n \<le> mx - ?len" "n = bf_cap b1 - bf_tail b1 \<or> n = mx - ?len"
        using main None fits by (auto simp: n_def Let_def)
      have t: "bf_tail b1 \<le> bf_cap b1" using main by (simp add: buf_ok_def)
      have f: "length (buf_peek b) + least \<le> mx" "bf_tail b1 + n \<le> bf_cap b1" "length (buf_peek b) + n \<le> mx"
          "n = 0 \<Longrightarrow> bf_cap b1 = bf_tail b1 \<or> length (buf_peek b) = mx"
        unfolding pl using n fits t by linarith+
      show ?thesis using main f n(1) unfolding res by (cases "n = 0") simp_all
    qed
  qed
qed

lemma take_after_commit:
  assumes "length bytes = cap" "h \<le> t" "t + length data \<le> cap"
  shows "take (t + length data - h) (drop h (overwrite bytes t (data @ xs))) = take (t - h) (drop h bytes) @ data"
proof -
  have "take (t + length data - h) (drop h (overwrite bytes t (data @ xs))) = drop h (take (t + length data) (overwrite bytes t (data @ xs)))"
    by (rule drop_take [symmetric])
  also have "\<dots> = drop h (take t bytes @ data)" using assms by (simp add: overwrite_def)
  also have "\<dots> = drop h (take t bytes) @ data" using assms by simp
  also have "\<dots> = take (t - h) (drop h bytes) @ data" by (simp only: drop_take)
  finally show ?thesis .
qed

text \<open>Writing into the room at the tail and committing appends what is committed.\<close>

lemma commit_some:
  assumes "buf_ok b" "bf_tail b + length (data @ xs) \<le> bf_cap b"
  defines "b' \<equiv> buf_commit (b\<lparr>bf_bytes := overwrite (bf_bytes b) (bf_tail b) (data @ xs)\<rparr>) (length data)"
  shows "buf_ok b'" "buf_peek b' = buf_peek b @ data" "refs b' = refs b"
proof -
  have l: "length (overwrite (bf_bytes b) (bf_tail b) (data @ xs)) = bf_cap b"
    using assms(1,2) length_overwrite [of "bf_tail b" "data @ xs" "bf_bytes b"] by (simp add: buf_ok_def)
  show "buf_ok b'" using assms(1,2) l by (auto simp: b'_def buf_commit_def buf_ok_def split: option.splits)
  show "buf_peek b' = buf_peek b @ data"
    using assms(1,2) take_after_commit [of "bf_bytes b" "bf_cap b" "bf_head b" "bf_tail b" data xs]
    by (simp add: b'_def buf_commit_def peek_eq buf_ok_def)
  show "refs b' = refs b" by (simp add: b'_def buf_commit_def refs_def)
qed

lemmas commit_spec = commit_some [where xs = "[]", unfolded append_Nil2]
lemmas scratch_spec = commit_some [where data = "[]", unfolded append_Nil list.size buf_commit_def add_0_right]

lemma put_spec:
  assumes th: "thread_ok th (refs b @ hs)" and b: "buf_ok b" and junk: "junk_ok junk"
    and p: "buf_put junk th b data mx = (e, th', b')"
  shows "thread_ok th' (refs b' @ hs) \<and> buf_ok b' \<and>
    (case e of None \<Rightarrow> buf_peek b' = buf_peek b @ data
     | Some x \<Rightarrow> b' = b \<and> data \<noteq> [] \<and> (x = ENOBUFS \<and> length (buf_peek b) + length data > mx \<or> x = ENOMEM))"
proof (cases "data = []")
  case True
  then show ?thesis using p th b by (simp add: buf_put_def)
next
  case ne: False
  obtain e1 room th1 b1 where r: "buf_reserve junk th b (length data) mx = (e1, room, th1, b1)" by (metis surj_pair)
  note rs = reserve_spec [OF th b junk r]
  show ?thesis
  proof (cases e1)
    case (Some x)
    then have "e = Some x" "th' = th1" "b' = b1" using p r ne by (simp_all add: buf_put_def)
    then show ?thesis using rs Some ne by auto
  next
    case None
    obtain off n where room: "room = Some (off, n)" using rs None ne by (cases room) auto
    have res: "e = None" "th' = th1" "b' = buf_commit (b1\<lparr>bf_bytes := overwrite (bf_bytes b1) (bf_tail b1) data\<rparr>) (length data)"
      using p r ne None rs room by (simp_all add: buf_put_def)
    have "bf_tail b1 + length data \<le> bf_cap b1" "buf_ok b1" using rs None room by auto
    from commit_spec [OF this(2,1)] show ?thesis using res rs by simp
  qed
qed

lemma consume_spec:
  assumes "buf_ok b" "len \<le> length (buf_peek b)"
  shows "buf_ok (buf_consume b len)" "buf_peek (buf_consume b len) = drop len (buf_peek b)" "refs (buf_consume b len) = refs b"
proof -
  have "bf_head b \<le> bf_tail b" using assms(1) by (simp add: buf_ok_def)
  then have l: "bf_head b + len \<le> bf_tail b" using assms(2) unfolding length_peek [OF assms(1)] by linarith
  show "buf_ok (buf_consume b len)" "refs (buf_consume b len) = refs b"
    using assms(1) l by (auto simp: buf_consume_def buf_ok_def refs_def Let_def split: option.splits)
  show "buf_peek (buf_consume b len) = drop len (buf_peek b)"
    using l by (auto simp: buf_consume_def Let_def peek_eq drop_take add.commute)
qed

lemma cut_spec:
  assumes b: "buf_ok b" and l: "off + len \<le> length (buf_peek b)"
  shows "buf_ok (buf_cut b off len)" "buf_peek (buf_cut b off len) = take off (buf_peek b) @ drop (off + len) (buf_peek b)"
    "refs (buf_cut b off len) = refs b"
proof -
  have t: "bf_head b + off + len \<le> bf_tail b" "bf_tail b \<le> bf_cap b" "length (bf_bytes b) = bf_cap b"
  proof -
    have "bf_head b \<le> bf_tail b" using b by (simp add: buf_ok_def)
    then show "bf_head b + off + len \<le> bf_tail b" using l unfolding length_peek [OF b] by linarith
  qed (use b in \<open>simp_all add: buf_ok_def\<close>)
  consider "off = 0" | "off \<noteq> 0" by blast
  then have "buf_ok (buf_cut b off len) \<and> buf_peek (buf_cut b off len) = take off (buf_peek b) @ drop (off + len) (buf_peek b) \<and>
      refs (buf_cut b off len) = refs b"
  proof cases
    case 1
    then show ?thesis using consume_spec [OF b, of len] l by (simp add: buf_cut_def)
  next
    case 2
    define at where "at = bf_head b + off"
    define n where "n = bf_tail b - bf_head b - off - len"
    define mv where "mv = take n (drop (at + len) (bf_bytes b))"
    have mv: "length mv = n" "at + n + len = bf_tail b" using t by (simp_all add: mv_def at_def n_def)
    have cut: "buf_cut b off len = b\<lparr>bf_bytes := overwrite (bf_bytes b) at mv, bf_tail := bf_tail b - len\<rparr>"
      using 2 by (simp add: buf_cut_def Let_def at_def n_def mv_def)
    have bytes: "length (overwrite (bf_bytes b) at mv) = bf_cap b" using mv t by simp
    have "take (at + n) (overwrite (bf_bytes b) at mv) = take at (bf_bytes b) @ mv"
      using take_overwrite [of at "bf_bytes b" mv] mv t by simp
    moreover have "bf_tail b - len = at + n" using mv(2) by simp
    ultimately have "take (bf_tail b - len) (overwrite (bf_bytes b) at mv) = take at (bf_bytes b) @ mv" by simp
    then have "drop (bf_head b) (take (bf_tail b - len) (overwrite (bf_bytes b) at mv)) = drop (bf_head b) (take at (bf_bytes b)) @ mv"
      using t by (simp add: at_def)
    moreover have "drop (bf_head b) (take at (bf_bytes b)) = take off (buf_peek b)"
      using t by (simp add: at_def peek_eq drop_take)
    moreover have "mv = drop (off + len) (buf_peek b)"
      by (simp add: mv_def n_def at_def peek_eq drop_take add.commute add.left_commute)
    ultimately have "buf_peek (buf_cut b off len) = take off (buf_peek b) @ drop (off + len) (buf_peek b)"
      unfolding cut peek_eq by (simp add: drop_take)
    then show ?thesis using b t bytes mv by (auto simp: cut buf_ok_def refs_def split: option.splits)
  qed
  then show "buf_ok (buf_cut b off len)" "buf_peek (buf_cut b off len) = take off (buf_peek b) @ drop (off + len) (buf_peek b)"
    "refs (buf_cut b off len) = refs b" by simp_all
qed

lemma zero_ok [simp]: "buf_ok buf_zero" "refs buf_zero = []" "buf_peek buf_zero = []" "bf_cap buf_zero = 0"
  by (simp_all add: buf_ok_def refs_def buf_peek_def buf_zero_def)

lemma fini_spec:
  assumes "thread_ok th (refs b @ hs)" "buf_ok b" "buf_fini th b = (th', b')"
  shows "thread_ok th' hs \<and> b' = buf_zero"
  using thread_give_buf [OF assms(1,2)] assms(3) by (auto simp: buf_fini_def)

lemma buf_trim_spec:
  assumes th: "thread_ok th (refs b @ hs)" and b: "buf_ok b" and junk: "junk_ok junk" and t: "buf_trim junk th b = (n, th', b')"
  shows "thread_ok th' (refs b' @ hs) \<and> buf_ok b' \<and> buf_peek b' = buf_peek b \<and> bf_cap b' \<le> bf_cap b \<and>
    (n = 0 \<or> n = length (buf_peek b)) \<and> (buf_peek b = [] \<longrightarrow> b' = buf_zero)"
proof -
  let ?len = "bf_tail b - bf_head b"
  have pl: "length (buf_peek b) = ?len" by (rule length_peek [OF b])
  consider (empty) "?len = 0" | (move) "?len \<noteq> 0" "buf_block ?len < bf_cap b" | (stay) "?len \<noteq> 0" "\<not> buf_block ?len < bf_cap b" by blast
  then show ?thesis
  proof cases
    case empty
    obtain th1 b1 where f: "buf_fini th b = (th1, b1)" by (metis surj_pair)
    have "n = 0" "th' = th1" "b' = b1" using t empty f by (simp_all add: buf_trim_def)
    then show ?thesis using fini_spec [OF th b f] pl empty by simp
  next
    case move
    obtain e th1 b1 where m: "buf_move junk th b ?len = (e, th1, b1)" by (metis surj_pair)
    have res: "n = (if e = None then ?len else 0)" "th' = th1" "b' = b1" using t move m by (simp_all add: buf_trim_def Let_def)
    have "buf_peek b \<noteq> []" using pl move(1) by auto
    then show ?thesis using move_spec [OF th b junk order_refl m] move res pl by (cases e) auto
  next
    case stay
    then have "n = 0" "th' = th" "b' = b" using t by (simp_all add: buf_trim_def Let_def)
    moreover have "buf_peek b \<noteq> []" using pl stay(1) by auto
    ultimately show ?thesis using th b by simp
  qed
qed

section \<open>A queue of bytes\<close>

datatype 'b queue_op = Put "'b list" | Take nat

text \<open>What a queue takes in and gives out over a series of operations; \<open>put\<close> tells whether it took the bytes.\<close>

fun queue_run ::
    "('s \<Rightarrow> 'b list) \<Rightarrow> ('s \<Rightarrow> 'b list \<Rightarrow> bool \<times> 's) \<Rightarrow> ('s \<Rightarrow> nat \<Rightarrow> 's) \<Rightarrow> 's \<Rightarrow> 'b queue_op list \<Rightarrow> 'b list \<times> 'b list \<times> 's"
where
  "queue_run contents put consume s [] = ([], [], s)"
| "queue_run contents put consume s (Put d # ops) =
     (case put s d of (ok, s') \<Rightarrow>
      case queue_run contents put consume s' ops of (taken, given, s'') \<Rightarrow> ((if ok then d else []) @ taken, given, s''))"
| "queue_run contents put consume s (Take n # ops) =
     (let n = min n (length (contents s)) in
      case queue_run contents put consume (consume s n) ops of (taken, given, s'') \<Rightarrow> (taken, take n (contents s) @ given, s''))"

locale byte_queue =
  fixes valid :: "'s \<Rightarrow> bool"
    and contents :: "'s \<Rightarrow> 'b list"
    and put :: "'s \<Rightarrow> 'b list \<Rightarrow> bool \<times> 's"
    and consume :: "'s \<Rightarrow> nat \<Rightarrow> 's"
  assumes put_law: "valid s \<Longrightarrow> put s d = (ok, s') \<Longrightarrow> valid s' \<and> contents s' = contents s @ (if ok then d else [])"
    and consume_law: "valid s \<Longrightarrow> n \<le> length (contents s) \<Longrightarrow> valid (consume s n) \<and> contents (consume s n) = drop n (contents s)"
begin

lemma first_in_first_out:
  "valid s \<Longrightarrow> queue_run contents put consume s ops = (taken, given, s') \<Longrightarrow> valid s' \<and> contents s @ taken = given @ contents s'"
proof (induction ops arbitrary: s taken given s')
  case Nil
  then show ?case by simp
next
  case (Cons x ops)
  show ?case
  proof (cases x)
    case (Put d)
    obtain ok s1 where p: "put s d = (ok, s1)" by (metis surj_pair)
    obtain t g s2 where q: "queue_run contents put consume s1 ops = (t, g, s2)" by (metis surj_pair)
    have "taken = (if ok then d else []) @ t" "given = g" "s' = s2" using Cons.prems(2) p q Put by simp_all
    then show ?thesis using Cons.IH [OF _ q] put_law [OF Cons.prems(1) p] by (metis append.assoc)
  next
    case (Take n)
    define m where "m = min n (length (contents s))"
    obtain t g s2 where q: "queue_run contents put consume (consume s m) ops = (t, g, s2)" by (metis surj_pair)
    have c: "valid (consume s m)" "contents (consume s m) = drop m (contents s)" using consume_law [OF Cons.prems(1), of m] by (simp_all add: m_def)
    have r: "taken = t" "given = take m (contents s) @ g" "s' = s2" using Cons.prems(2) q Take by (simp_all add: m_def Let_def)
    have "valid s2 \<and> drop m (contents s) @ t = g @ contents s2" using Cons.IH [OF c(1) q] c(2) by simp
    then show ?thesis unfolding r by (metis append.assoc append_take_drop_id)
  qed
qed

end

definition queue_put :: "(nat \<Rightarrow> bytes) \<Rightarrow> nat \<Rightarrow> thread \<times> buf \<Rightarrow> bytes \<Rightarrow> bool \<times> thread \<times> buf" where
  "queue_put junk mx s d = (case buf_put junk (fst s) (snd s) d mx of (e, th, b) \<Rightarrow> (e = None, th, b))"

definition queue_consume :: "thread \<times> buf \<Rightarrow> nat \<Rightarrow> thread \<times> buf" where
  "queue_consume s n = (fst s, buf_consume (snd s) n)"

interpretation buffer: byte_queue
  "\<lambda>s. junk_ok junk \<and> thread_ok (fst s) (refs (snd s) @ hs) \<and> buf_ok (snd s)" "\<lambda>s. buf_peek (snd s)" "queue_put junk mx" queue_consume
  for junk hs mx
proof
  fix s d ok s'
  assume v: "junk_ok junk \<and> thread_ok (fst s) (refs (snd s) @ hs) \<and> buf_ok (snd s)" and q: "queue_put junk mx s d = (ok, s')"
  obtain e th b where p: "buf_put junk (fst s) (snd s) d mx = (e, th, b)" by (metis surj_pair)
  have "ok = (e = None)" "s' = (th, b)" using q p by (simp_all add: queue_put_def)
  then show "(junk_ok junk \<and> thread_ok (fst s') (refs (snd s') @ hs) \<and> buf_ok (snd s')) \<and>
      buf_peek (snd s') = buf_peek (snd s) @ (if ok then d else [])"
    using put_spec [OF _ _ _ p] v by (cases e) auto
next
  fix s :: "thread \<times> buf" and n
  assume "junk_ok junk \<and> thread_ok (fst s) (refs (snd s) @ hs) \<and> buf_ok (snd s)" "n \<le> length (buf_peek (snd s))"
  then show "(junk_ok junk \<and> thread_ok (fst (queue_consume s n)) (refs (snd (queue_consume s n)) @ hs) \<and> buf_ok (snd (queue_consume s n))) \<and>
      buf_peek (snd (queue_consume s n)) = drop n (buf_peek (snd s))"
    using consume_spec [of "snd s" n] by (simp add: queue_consume_def)
qed

section \<open>Facts: formatted text\<close>

text \<open>What a call of \<^verbatim>\<open>buf_vprintf()\<close> may make of the buffer \<open>b\<close>.\<close>

definition printed :: "bytes option \<Rightarrow> ref list \<Rightarrow> buf \<Rightarrow> errno option \<times> thread \<times> buf \<Rightarrow> bool" where
  "printed fmt hs b r \<longleftrightarrow>
     (case r of (e, th', b') \<Rightarrow> thread_ok th' (refs b' @ hs) \<and> buf_ok b' \<and>
       (case e of None \<Rightarrow> fmt \<noteq> None \<and> buf_peek b' = buf_peek b @ the fmt
        | Some x \<Rightarrow> buf_peek b' = buf_peek b \<and> (x = ENOBUFS \<or> x = ENOMEM \<or> x = EOVERFLOW \<and> fmt = None)))"

lemma vprintf_round:
  assumes th: "thread_ok th (refs b @ hs)" and b: "buf_ok b" and junk: "junk_ok junk" and room: "0 < room"
  shows "(\<exists>r. vprintf_loop junk fmt room th b = Some r \<and> printed fmt hs b r) \<or>
    (\<exists>t th' b'. fmt = Some t \<and> room \<le> length t \<and> thread_ok th' (refs b' @ hs) \<and> buf_ok b' \<and> buf_peek b' = buf_peek b \<and>
       vprintf_loop junk fmt room th b = vprintf_loop junk fmt (length t + 1) th' b')"
proof -
  obtain e s th1 b1 where r: "buf_reserve junk th b room SIZE_MAX = (e, s, th1, b1)" by (metis surj_pair)
  note rs = reserve_spec [OF th b junk r]
  show ?thesis
  proof (cases e)
    case (Some x)
    then have "vprintf_loop junk fmt room th b = Some (Some x, th1, b1)" using r by (subst vprintf_loop.simps) simp
    then show ?thesis using rs Some by (auto simp: printed_def)
  next
    case e: None
    obtain off n where s: "s = Some (off, n)" using rs e room by (cases s) auto
    have n: "off = bf_tail b1" "0 < n" "room \<le> n" "bf_tail b1 + n \<le> bf_cap b1" "buf_ok b1" "thread_ok th1 (refs b1 @ hs)" "buf_peek b1 = buf_peek b"
      using rs e s by simp_all
    show ?thesis
    proof (cases fmt)
      case None
      then have "vprintf_loop junk fmt room th b = Some (Some EOVERFLOW, th1, b1)" using r e by (subst vprintf_loop.simps) simp
      then show ?thesis using n None by (auto simp: printed_def)
    next
      case (Some t)
      define b2 where "b2 = b1\<lparr>bf_bytes := overwrite (bf_bytes b1) (bf_tail b1) (take (n - 1) t @ [0])\<rparr>"
      have run: "vprintf_loop junk fmt room th b =
          (if length t < n then Some (None, th1, buf_commit b2 (length t)) else vprintf_loop junk fmt (length t + 1) th1 b2)"
        using r e s Some n(1) by (subst vprintf_loop.simps) (simp add: b2_def Let_def)
      show ?thesis
      proof (cases "length t < n")
        case True
        then have w: "b2 = b1\<lparr>bf_bytes := overwrite (bf_bytes b1) (bf_tail b1) (t @ [0])\<rparr>" by (simp add: b2_def)
        have f: "bf_tail b1 + length (t @ [0]) \<le> bf_cap b1" using n(4) True by simp
        show ?thesis using run True Some n commit_some [OF n(5) f] unfolding w by (simp add: printed_def)
      next
        case False
        have f: "bf_tail b1 + length (take (n - 1) t @ [0]) \<le> bf_cap b1" using n(2,4) by (auto simp: min_def)
        have "buf_ok b2" "buf_peek b2 = buf_peek b1" "refs b2 = refs b1"
          using scratch_spec [OF n(5) f] by (simp_all add: b2_def)
        then show ?thesis using run False Some n by (intro disjI2 exI [of _ t] exI [of _ th1] exI [of _ b2]) simp
      qed
    qed
  qed
qed

lemma vprintf_returns:
  assumes th: "thread_ok th (refs b @ hs)" and b: "buf_ok b" and junk: "junk_ok junk" and room: "0 < room"
  shows "\<exists>r. vprintf_loop junk fmt room th b = Some r \<and> printed fmt hs b r"
  using vprintf_round [OF assms, of fmt]
proof (elim disjE exE conjE)
  fix t th' b'
  assume f: "fmt = Some t" and th': "thread_ok th' (refs b' @ hs)" and b': "buf_ok b'" and p: "buf_peek b' = buf_peek b"
    and l: "vprintf_loop junk fmt room th b = vprintf_loop junk fmt (length t + 1) th' b'"
  have "\<exists>r. vprintf_loop junk fmt (length t + 1) th' b' = Some r \<and> printed fmt hs b' r"
    using vprintf_round [OF th' b' junk, of "length t + 1" fmt] f by simp
  moreover have "printed fmt hs b' r = printed fmt hs b r" for r by (simp only: printed_def p)
  ultimately show ?thesis unfolding l by simp
qed blast

section \<open>Facts: stashes in use\<close>

text \<open>
  The states of threads, each with its stash if it has one, and the blocks that buffers hold: which thread took each, its address
  and its size.  A thread may give up a block that another took, which the last list records: the thread that gave it, and the
  one that took it.  Whoever holds a block may write to it, first bytes included; the memory pressure is set from elsewhere.

  A step is one operation of one thread.  Only its thread changes a stash and only its holder a block, and \<^verbatim>\<open>malloc()\<close> and
  \<^verbatim>\<open>free()\<close> are atomic, so operations of threads that overlap do as they would one after the other.
\<close>

definition fresh_stash :: "stash \<Rightarrow> bool" where
  "fresh_stash s \<longleftrightarrow>
     st_top s = replicate BUF_CLASSES None \<and> st_kept s = replicate BUF_CLASSES \<lparr>kp_n = 0, kp_low = 0, kp_idle = 0\<rparr> \<and>
     st_retained s = 0 \<and> st_held s = 0 \<and> st_peak s = 0"

type_synonym holding = "nat \<times> ref \<times> nat"

inductive stash_run :: "stash option list \<Rightarrow> heap \<Rightarrow> holding list \<Rightarrow> (nat \<times> nat) list \<Rightarrow> bool" where
  start: "list_all (pred_option fresh_stash) ms \<Longrightarrow> hp_freed h = [] \<Longrightarrow> stash_run ms h [] []"
| take: "stash_run ms h hs ps \<Longrightarrow> i < length ms \<Longrightarrow> buf_stash_take (ms ! i) h sz = (data, cap, m', h') \<Longrightarrow>
    stash_run (ms[i := m']) h' (case data of None \<Rightarrow> hs | Some r \<Rightarrow> (i, r, cap) # hs) ps"
| give: "stash_run ms h hs ps \<Longrightarrow> i < length ms \<Longrightarrow> (j, r, cap) \<in> set hs \<Longrightarrow> buf_stash_give (ms ! i) h (Some r) cap = (m', h') \<Longrightarrow>
    stash_run (ms[i := m']) h' (remove1 (j, r, cap) hs) (if i = j then ps else (i, j) # ps)"
| scribble: "stash_run ms h hs ps \<Longrightarrow> (j, r, cap) \<in> set hs \<Longrightarrow> stash_run ms (h\<lparr>hp_next := (hp_next h)(r := p)\<rparr>) hs ps"
| age: "stash_run ms h hs ps \<Longrightarrow> i < length ms \<Longrightarrow> ms ! i = Some s \<Longrightarrow> stash_run (ms[i := Some (buf_stash_age s)]) h hs ps"
| release: "stash_run ms h hs ps \<Longrightarrow> i < length ms \<Longrightarrow> ms ! i = Some s \<Longrightarrow> buf_stash_release s h level mx = (n, s', h') \<Longrightarrow>
    stash_run (ms[i := Some s']) h' hs ps"
| pressure: "stash_run ms h hs ps \<Longrightarrow> stash_run ms (h\<lparr>hp_pressure := level\<rparr>) hs ps"

lemma release_spec:
  assumes inv: "stash_inv s h bl hs" and r: "buf_stash_release s h level mx = (n, s', h')"
  shows "\<exists>bl'. stash_inv s' h' bl' hs \<and> st_held s' = st_held s \<and> (n \<le> mx \<or> (\<exists>i < BUF_CLASSES. n = buf_units (class_size i))) \<and>
    st_retained s' \<le> st_retained s \<and> (st_peak s' = st_peak s \<or> st_retained s' = 0) \<and> hp_next h' = hp_next h \<and>
    (n = 0 \<longrightarrow> h' = h \<and> (\<forall>c < BUF_CLASSES. buf_kept_unused (st_kept s ! c) level = 0))"
proof -
  obtain whole g s1 h1 where c: "release_classes BUF_CLASSES level mx 0 (s, h) = (whole, g, s1, h1)" by (metis surj_pair)
  obtain bl' where b: "stash_inv s1 h1 bl' hs" "undisturbed (s, h) (s1, h1)" "g \<le> mx \<or> (\<exists>i < BUF_CLASSES. g = buf_units (class_size i))"
      "whole \<longrightarrow> level \<ge> BUF_CRITICAL \<longrightarrow> (\<forall>i < BUF_CLASSES. bl' ! i = [])"
      "g = 0 \<longrightarrow> whole \<and> 0 = (0::nat) \<and> (s1, h1) = (s, h) \<and> bl' = bl \<and> (\<forall>i < BUF_CLASSES. buf_kept_unused (st_kept s ! i) level = 0)"
    using release_classes_spec [OF inv order_refl c disjI1 [OF zero_le]] by (elim exE conjE)
  have res: "n = g" "s' = (if whole \<and> level \<ge> BUF_CRITICAL then s1\<lparr>st_peak := st_held s1\<rparr> else s1)" "h' = h1"
    using r c by (simp_all add: buf_stash_release_def)
  have "stash_inv s' h' bl' hs" using b(1) by (simp add: res stash_inv_def)
  moreover have "st_held s' = st_held s" "st_retained s' \<le> st_retained s" "hp_next h' = hp_next h"
    using b(2) by (simp_all add: res undisturbed_def)
  moreover have "st_peak s' = st_peak s \<or> st_retained s' = 0"
    using b(1,2,4) by (auto simp: res undisturbed_def stash_inv_def)
  ultimately show ?thesis using b(3,5) unfolding res(1,3) by (intro exI [of _ bl']) auto
qed

lemma start_inv: "fresh_stash s \<Longrightarrow> hp_freed h = [] \<Longrightarrow> stash_inv s h (replicate BUF_CLASSES []) []"
  by (simp add: fresh_stash_def stash_inv_def own_def)

lemma age_inv: "stash_inv s h bl hs \<Longrightarrow> stash_inv (buf_stash_age s) h bl hs"
  by (auto simp: stash_inv_def buf_stash_age_def buf_kept_age_def)

lemma write_inv:
  assumes inv: "stash_inv s h bl hs" and r: "r \<in> set hs"
  shows "stash_inv s (h\<lparr>hp_next := (hp_next h)(r := p)\<rparr>) bl hs"
proof -
  let ?h = "h\<lparr>hp_next := (hp_next h)(r := p)\<rparr>"
  have l: "length bl = BUF_CLASSES" using inv by (simp add: stash_inv_def)
  have "r \<notin> set (concat bl)" using inv r by (auto simp: stash_inv_def own_def)
  then have ne: "r \<notin> set (bl ! i)" if "i < BUF_CLASSES" for i using kept_member [OF l that] by blast
  have "linked (hp_next ?h) q (bl ! i) = linked (hp_next h) q (bl ! i)" if "i < BUF_CLASSES" for i q
    using ne [OF that] by (intro linked_cong) auto
  then show ?thesis using inv by (auto simp: stash_inv_def own_def)
qed

text \<open>The bytes of the blocks held that have a class.\<close>

definition out_size :: "(ref \<times> nat) list \<Rightarrow> nat" where
  "out_size hs = sum_list (map snd (filter (\<lambda>(r, cap). buf_class cap < BUF_CLASSES) hs))"

lemma out_size_simps [simp]:
  "out_size [] = 0"
  "out_size ((r, cap) # hs) = (if buf_class cap < BUF_CLASSES then cap else 0) + out_size hs"
  by (simp_all add: out_size_def)

lemma out_size_remove1: "(r, cap) \<in> set hs \<Longrightarrow> (if buf_class cap < BUF_CLASSES then cap else 0) + out_size (remove1 (r, cap) hs) = out_size hs"
  by (induction hs) (auto simp: out_size_def)

lemma class_block_iff: "buf_class (buf_block sz) < BUF_CLASSES \<longleftrightarrow> buf_class sz < BUF_CLASSES"
  by (cases "buf_class sz < BUF_CLASSES") (simp_all add: class_of_block, simp add: buf_block_def)

text \<open>The bytes of those that the thread \<open>i\<close> took.\<close>

definition taken_by :: "nat \<Rightarrow> holding list \<Rightarrow> nat" where
  "taken_by i hs = out_size (map snd (filter (\<lambda>b. fst b = i) hs))"

lemma taken_by_simps [simp]:
  "taken_by i [] = 0"
  "taken_by i ((j, r, cap) # hs) = (if j = i \<and> buf_class cap < BUF_CLASSES then cap else 0) + taken_by i hs"
  by (simp_all add: taken_by_def)

lemma taken_by_remove1:
  "(j, r, cap) \<in> set hs \<Longrightarrow> (if j = i \<and> buf_class cap < BUF_CLASSES then cap else 0) + taken_by i (remove1 (j, r, cap) hs) = taken_by i hs"
  by (induction hs) (auto simp: taken_by_def)

abbreviation addresses :: "holding list \<Rightarrow> ref list" where
  "addresses hs \<equiv> map (\<lambda>(j, r, cap). r) hs"

text \<open>One thread: its stash keeps the blocks \<open>bl\<close>; \<open>hs\<close> are in use elsewhere.\<close>

definition thread_inv :: "stash option \<Rightarrow> heap \<Rightarrow> ref list list \<Rightarrow> ref list \<Rightarrow> bool" where
  "thread_inv m h bl hs \<longleftrightarrow> (case m of None \<Rightarrow> bl = [] \<and> own h [] hs | Some s \<Rightarrow> stash_inv s h bl hs)"

lemma thread_ok_inv: "thread_ok (m, h) hs \<longleftrightarrow> (\<exists>bl. thread_inv m h bl hs)"
  by (simp add: thread_ok_def thread_inv_def split: option.split)

lemma thread_inv_own: "thread_inv m h bl hs \<Longrightarrow> own h bl hs"
  by (auto simp: thread_inv_def stash_inv_def split: option.splits)

lemma thread_inv_cong:
  assumes "thread_inv m h bl hs" "own h' bl hs'" "\<forall>q \<in> set (concat bl). hp_next h' q = hp_next h q"
  shows "thread_inv m h' bl hs'"
proof (cases m)
  case (Some s)
  have "linked (hp_next h') p (bl ! c) = linked (hp_next h) p (bl ! c)" if "length bl = BUF_CLASSES" "c < BUF_CLASSES" for c p
    using assms(3) kept_member [OF that] by (intro linked_cong) blast
  then show ?thesis using assms(1,2) Some by (auto simp: thread_inv_def stash_inv_def)
qed (use assms in \<open>auto simp: thread_inv_def\<close>)

text \<open>
  All threads: to each, what the stashes of the others keep is in use elsewhere, as what buffers hold.
\<close>

definition elsewhere :: "nat \<Rightarrow> ref list list list \<Rightarrow> ref list" where
  "elsewhere i bls = concat (concat (bls[i := []]))"

lemma mset_elsewhere: "i < length bls \<Longrightarrow> mset (concat (concat (bls[i := bl]))) = mset (concat bl) + mset (elsewhere i bls)"
  unfolding elsewhere_def
proof (induction bls arbitrary: i)
  case (Cons x bls)
  then show ?case by (cases i) (simp_all add: ac_simps)
qed simp

lemma elsewhere_update [simp]: "elsewhere i (bls[i := bl]) = elsewhere i bls"
  by (simp add: elsewhere_def)

lemma own_elsewhere: "i < length bls \<Longrightarrow> own h (bls ! i) (hs @ elsewhere i bls) \<longleftrightarrow> own h (concat bls) hs"
  using mset_elsewhere [of i bls "bls ! i"] by (intro own_move) simp_all

lemma in_elsewhere: "i < length bls \<Longrightarrow> j < length bls \<Longrightarrow> i \<noteq> j \<Longrightarrow> set (concat (bls ! j)) \<subseteq> set (elsewhere i bls)"
proof -
  assume a: "i < length bls" "j < length bls" "i \<noteq> j"
  have "bls ! j = bls[i := []] ! j" "j < length (bls[i := []])" using a by simp_all
  then have "bls ! j \<in> set (bls[i := []])" by (simp only: nth_mem)
  then show ?thesis unfolding elsewhere_def by (auto simp: Bex_def)
qed

definition threads_inv :: "stash option list \<Rightarrow> heap \<Rightarrow> ref list list list \<Rightarrow> ref list \<Rightarrow> bool" where
  "threads_inv ms h bls hs \<longleftrightarrow> length bls = length ms \<and> own h (concat bls) hs \<and>
     (\<forall>i < length ms. thread_inv (ms ! i) h (bls ! i) (hs @ elsewhere i bls))"

text \<open>A step of the thread \<open>i\<close> that leaves alone what the others keep.\<close>

lemma threads_step:
  assumes inv: "threads_inv ms h bls hs" and i: "i < length ms" and new: "thread_inv m' h' bl' (hs' @ elsewhere i bls)"
    and nxt: "\<forall>q \<in> set (elsewhere i bls). hp_next h' q = hp_next h q"
  shows "threads_inv (ms[i := m']) h' (bls[i := bl']) hs'"
proof -
  have l: "length bls = length ms" using inv by (simp add: threads_inv_def)
  have o: "own h' (concat (bls[i := bl'])) hs'"
    using own_elsewhere [of i "bls[i := bl']" h' hs'] thread_inv_own [OF new] i l by simp
  have "thread_inv (ms[i := m'] ! j) h' (bls[i := bl'] ! j) (hs' @ elsewhere j (bls[i := bl']))" if j: "j < length ms" for j
  proof (cases "j = i")
    case False
    have "thread_inv (ms ! j) h (bls ! j) (hs @ elsewhere j bls)" using inv j by (simp add: threads_inv_def)
    moreover have "own h' (bls ! j) (hs' @ elsewhere j (bls[i := bl']))"
      using own_elsewhere [of j "bls[i := bl']" h' hs'] o False j l by simp
    moreover have "\<forall>q \<in> set (concat (bls ! j)). hp_next h' q = hp_next h q"
      using nxt in_elsewhere [of i bls j] i j l False by auto
    ultimately have "thread_inv (ms ! j) h' (bls ! j) (hs' @ elsewhere j (bls[i := bl']))" by (rule thread_inv_cong)
    then show ?thesis using False by simp
  qed (use i l new in simp)
  then show ?thesis using o l by (simp add: threads_inv_def)
qed

text \<open>What only changes the memory.\<close>

lemma own_cong: "hp_freed h' = hp_freed h \<Longrightarrow> hp_fresh h' = hp_fresh h \<Longrightarrow> own h' bl hs \<longleftrightarrow> own h bl hs"
  by (simp only: own_def)

lemma threads_cong:
  assumes inv: "threads_inv ms h bls hs" and h: "hp_freed h' = hp_freed h" "hp_fresh h' = hp_fresh h"
    and nxt: "\<forall>q \<in> set (concat (concat bls)). hp_next h' q = hp_next h q"
  shows "threads_inv ms h' bls hs"
proof -
  have "thread_inv (ms ! i) h' (bls ! i) (hs @ elsewhere i bls)" if i: "i < length ms" for i
  proof (rule thread_inv_cong)
    show inv': "thread_inv (ms ! i) h (bls ! i) (hs @ elsewhere i bls)" using inv i by (simp add: threads_inv_def)
    show "own h' (bls ! i) (hs @ elsewhere i bls)" using thread_inv_own [OF inv'] own_cong [OF h] by blast
    have "bls ! i \<in> set bls" using inv i by (simp add: threads_inv_def)
    then show "\<forall>q \<in> set (concat (bls ! i)). hp_next h' q = hp_next h q" using nxt by (auto simp: Bex_def)
  qed
  then show ?thesis using inv own_cong [OF h] by (simp add: threads_inv_def)
qed

lemma threads_write:
  "threads_inv ms h bls hs \<Longrightarrow> r \<notin> set (concat (concat bls)) \<Longrightarrow> threads_inv ms (h\<lparr>hp_next := (hp_next h)(r := p)\<rparr>) bls hs"
  by (erule threads_cong) (auto simp del: set_concat)

lemma take_next: "buf_stash_take m h sz = (data, cap, m', h') \<Longrightarrow> hp_next h' = hp_next h"
proof -
  have drop: "hp_next (snd (buf_stash_drop d sh)) = hp_next (snd sh)" for d sh
    by (simp add: buf_stash_drop_def heap_free_def Let_def split: prod.split option.split)
  have "hp_next (snd (shrink_class d room n sh)) = hp_next (snd sh)" for d room n sh
    by (induction n arbitrary: sh) (simp_all add: drop)
  then have "hp_next (snd (shrink_classes d room sh)) = hp_next (snd sh)" for d room sh
    by (induction d arbitrary: sh) simp_all
  then have shr: "shrink_classes d room sh = (s', h') \<Longrightarrow> hp_next h' = hp_next (snd sh)" for d room sh s' h'
    by (metis snd_conv)
  have new: "heap_malloc h = (p, h') \<Longrightarrow> hp_next h' = hp_next h" for h p h'
    by (auto simp: heap_malloc_def Let_def split: prod.splits if_splits)
  assume "buf_stash_take m h sz = (data, cap, m', h')"
  then show "hp_next h' = hp_next h"
    by (auto simp: buf_stash_take_def Let_def split: option.splits prod.splits if_splits dest!: new shr)
qed

lemma give_next: "buf_stash_give m h (Some r) cap = (m', h') \<Longrightarrow> q \<noteq> r \<Longrightarrow> hp_next h' q = hp_next h q"
  by (auto simp: buf_stash_give_def heap_free_def Let_def split: option.splits if_splits)

text \<open>What the counts of a thread's stash say: all, as long as no block passes between it and another thread.\<close>

definition counts :: "nat \<Rightarrow> stash \<Rightarrow> holding list \<Rightarrow> (nat \<times> nat) list \<Rightarrow> bool" where
  "counts i s hs ps \<longleftrightarrow>
     (i \<notin> fst ` set ps \<longrightarrow> taken_by i hs \<le> st_held s \<and> st_retained s + st_held s \<le> 2 * st_peak s \<and>
        (i \<notin> snd ` set ps \<longrightarrow> st_held s = taken_by i hs))"

lemma take_counts:
  assumes "stash_inv s h bl H" "buf_stash_take (Some s) h sz = (data, cap, Some s', h')" "counts i s hs ps"
  shows "counts i s' (case data of None \<Rightarrow> hs | Some r \<Rightarrow> (i, r, cap) # hs) ps"
proof -
  from take_spec [OF assms(1,2)] obtain bl' where t: "cap = buf_block sz"
    "if buf_class sz < BUF_CLASSES then st_held s' = st_held s + (if data = None then 0 else cap) else st_held s' = st_held s"
    and q: "st_peak s' = max (st_peak s) (st_held s')"
      "st_retained s' + (if buf_class sz < BUF_CLASSES \<and> bl ! buf_class sz \<noteq> [] then cap else 0) \<le> st_retained s"
      "buf_class sz < BUF_CLASSES \<and> bl ! buf_class sz = [] \<longrightarrow> st_retained s' + (st_held s + cap) \<le> 2 * max (st_held s + cap) (st_peak s)"
    by (elim exE conjE) (rule that, simp_all)
  have "st_retained s' + st_held s' \<le> 2 * st_peak s'" if "st_retained s + st_held s \<le> 2 * st_peak s"
    using that q t(2) by (cases "buf_class sz < BUF_CLASSES"; cases "bl ! buf_class sz = []"; cases data) (auto simp: max_def split: if_splits)
  then show ?thesis using assms(3) t class_block_iff [of sz] by (cases data) (auto simp: counts_def)
qed

lemma give_counts:
  assumes "stash_inv s h bl (r # H)" "buf_block cap = cap" "buf_stash_give (Some s) h (Some r) cap = (Some s', h')" "counts i s hs ps"
    "(j, r, cap) \<in> set hs"
  shows "counts i s' (remove1 (j, r, cap) hs) (if i = j then ps else (i, j) # ps)"
proof -
  from give_spec [OF assms(1-3)] obtain bl' where
      "st_held s' = (if buf_class cap < BUF_CLASSES then st_held s - cap else st_held s)" "st_peak s' = st_peak s"
      "st_retained s' \<le> st_retained s + (if buf_class cap < BUF_CLASSES then cap else 0)" by (elim exE conjE) (rule that, simp_all)
  then show ?thesis using assms(4) taken_by_remove1 [OF assms(5), of i] by (auto simp: counts_def split: if_splits)
qed

lemma counts_other:
  assumes "counts k s hs ps" "k \<noteq> i" "(j, r, cap) \<in> set hs"
  shows "counts k s (remove1 (j, r, cap) hs) (if i = j then ps else (i, j) # ps)"
  using assms taken_by_remove1 [OF assms(3), of k] by (auto simp: counts_def split: if_splits)

definition run_ok :: "stash option list \<Rightarrow> heap \<Rightarrow> holding list \<Rightarrow> (nat \<times> nat) list \<Rightarrow> bool" where
  "run_ok ms h hs ps \<longleftrightarrow> (\<exists>bls. threads_inv ms h bls (addresses hs)) \<and> (\<forall>(j, r, cap) \<in> set hs. buf_block cap = cap) \<and>
     (\<forall>i s. i < length ms \<and> ms ! i = Some s \<longrightarrow> counts i s hs ps)"

lemma run_ok_step:
  assumes "run_ok ms h hs ps" "i < length ms" "threads_inv (ms[i := m']) h' bls' (addresses hs')"
    "\<And>j r cap. (j, r, cap) \<in> set hs' \<Longrightarrow> buf_block cap = cap"
    "\<And>s'. m' = Some s' \<Longrightarrow> counts i s' hs' ps'"
    "\<And>k s. k \<noteq> i \<Longrightarrow> counts k s hs ps \<Longrightarrow> counts k s hs' ps'"
  shows "run_ok (ms[i := m']) h' hs' ps'"
  using assms unfolding run_ok_def by (auto simp: nth_list_update)

lemma run_inv: "stash_run ms h hs ps \<Longrightarrow> run_ok ms h hs ps"
proof (induction rule: stash_run.induct)
  case (start ms h)
  define bls where "bls = map (\<lambda>m. case m of None \<Rightarrow> [] | Some (s :: stash) \<Rightarrow> replicate BUF_CLASSES ([] :: ref list)) ms"
  have none: "concat (concat bls) = []" by (auto simp: bls_def split: option.splits)
  then have e: "elsewhere i bls = []" if "i < length ms" for i
  proof -
    have l: "i < length bls" using that by (simp add: bls_def)
    from mset_elsewhere [OF l, of "bls ! i"] none show ?thesis by (simp only: list_update_id) simp
  qed
  have f: "pred_option fresh_stash (ms ! i)" if "i < length ms" for i using start.hyps(1) that by (simp add: list_all_length)
  have "thread_inv (ms ! i) h (bls ! i) []" if "i < length ms" for i
    using f [OF that] start_inv [OF _ start.hyps(2)] that start.hyps(2) by (cases "ms ! i") (auto simp: thread_inv_def bls_def own_def)
  moreover have "own h (concat bls) []" unfolding own_def none using start.hyps(2) by simp
  moreover have "length bls = length ms" by (simp add: bls_def)
  ultimately have "threads_inv ms h bls []" using e by (simp add: threads_inv_def)
  moreover have "counts i s [] []" if "i < length ms" "ms ! i = Some s" for i s
    using f [OF that(1)] that(2) by (simp add: counts_def fresh_stash_def)
  ultimately show ?case by (auto simp: run_ok_def)
next
  case (take ms h hs ps i sz data cap m' h')
  then obtain bls where b: "threads_inv ms h bls (addresses hs)" by (auto simp: run_ok_def)
  then have ti: "thread_inv (ms ! i) h (bls ! i) (addresses hs @ elsewhere i bls)" using take.hyps(2) by (simp add: threads_inv_def)
  then have "thread_ok (ms ! i, h) (addresses hs @ elsewhere i bls)" unfolding thread_ok_inv by blast
  from thread_take [OF this] take.hyps(3) have cap: "cap = buf_block sz"
      "thread_ok (m', h') (case data of None \<Rightarrow> addresses hs @ elsewhere i bls | Some r \<Rightarrow> r # addresses hs @ elsewhere i bls)" by simp_all
  let ?hs = "case data of None \<Rightarrow> hs | Some r \<Rightarrow> (i, r, cap) # hs"
  obtain bl' where "thread_inv m' h' bl' (addresses ?hs @ elsewhere i bls)"
    using cap(2) unfolding thread_ok_inv by (cases data) auto
  from threads_step [OF b take.hyps(2) this] take_next [OF take.hyps(3)]
  have t: "threads_inv (ms[i := m']) h' (bls[i := bl']) (addresses ?hs)" by simp
  have c: "counts i s' ?hs ps" if m: "m' = Some s'" for s'
  proof -
    obtain s where s: "ms ! i = Some s"
      using take.hyps(3) m by (cases "ms ! i") (auto simp: buf_stash_take_def Let_def split: prod.splits)
    have "counts i s hs ps" using take.IH take.hyps(2) s by (auto simp: run_ok_def)
    then show ?thesis using take_counts ti take.hyps(3) s m by (simp add: thread_inv_def)
  qed
  show ?case
    by (rule run_ok_step [OF take.IH take.hyps(2) t])
      (use take.IH cap(1) block_of_block c in \<open>auto simp: run_ok_def counts_def split: option.splits\<close>)
next
  case (give ms h hs ps i j r cap m' h')
  then obtain bls where b: "threads_inv ms h bls (addresses hs)" by (auto simp: run_ok_def)
  then have ti: "thread_inv (ms ! i) h (bls ! i) (addresses hs @ elsewhere i bls)" using give.hyps(2) by (simp add: threads_inv_def)
  let ?hs = "remove1 (j, r, cap) hs"
  have "mset hs = mset ((j, r, cap) # ?hs)" using give.hyps(3) by simp
  then have "mset (addresses hs) = mset (addresses ((j, r, cap) # ?hs))" by (simp only: mset_map)
  then have m: "mset (addresses hs @ elsewhere i bls) = mset (r # addresses ?hs @ elsewhere i bls)" by simp
  have tj: "thread_inv (ms ! i) h (bls ! i) (r # addresses ?hs @ elsewhere i bls)"
    using ti own_perm [OF m] by (auto simp: thread_inv_def stash_inv_def split: option.splits)
  then have "thread_ok (ms ! i, h) (r # addresses ?hs @ elsewhere i bls)" unfolding thread_ok_inv by blast
  moreover have cap: "buf_block cap = cap" using give.IH give.hyps(3) by (auto simp: run_ok_def)
  ultimately have "thread_ok (m', h') (addresses ?hs @ elsewhere i bls)" using thread_give give.hyps(4) by fastforce
  then obtain bl' where new: "thread_inv m' h' bl' (addresses ?hs @ elsewhere i bls)" unfolding thread_ok_inv by blast
  have "r \<notin> set (elsewhere i bls)" using thread_inv_own [OF tj] by (simp add: own_Cons)
  then have "\<forall>q \<in> set (elsewhere i bls). hp_next h' q = hp_next h q" using give_next [OF give.hyps(4)] by metis
  from threads_step [OF b give.hyps(2) new this]
  have t: "threads_inv (ms[i := m']) h' (bls[i := bl']) (addresses ?hs)" .
  have c: "counts i s' ?hs (if i = j then ps else (i, j) # ps)" if m: "m' = Some s'" for s'
  proof -
    obtain s where s: "ms ! i = Some s" using give.hyps(4) m by (cases "ms ! i") (auto simp: buf_stash_give_def Let_def)
    have "counts i s hs ps" using give.IH give.hyps(2) s by (auto simp: run_ok_def)
    then show ?thesis using give_counts [OF _ cap _ _ give.hyps(3)] tj give.hyps(4) s m by (simp add: thread_inv_def)
  qed
  have "set ?hs \<subseteq> set hs" by (rule set_remove1_subset)
  then have blocks: "buf_block c = c" if "(k, q, c) \<in> set ?hs" for k q c using give.IH that unfolding run_ok_def by blast
  show ?case by (rule run_ok_step [OF give.IH give.hyps(2) t blocks c counts_other [OF _ _ give.hyps(3)]])
next
  case (scribble ms h hs ps j r cap p)
  then obtain bls where b: "threads_inv ms h bls (addresses hs)" by (auto simp: run_ok_def)
  let ?h = "h\<lparr>hp_next := (hp_next h)(r := p)\<rparr>"
  have "r \<in> set (addresses hs)" using scribble.hyps(2) by force
  moreover have "distinct (concat (concat bls) @ addresses hs @ hp_freed h)" using b by (simp only: threads_inv_def own_def)
  ultimately have "r \<notin> set (concat (concat bls))" by (auto simp only: distinct_append set_append)
  then have "threads_inv ms ?h bls (addresses hs)" by (rule threads_write [OF b])
  then show ?case using scribble.IH by (auto simp: run_ok_def)
next
  case (age ms h hs ps i s)
  then obtain bls where b: "threads_inv ms h bls (addresses hs)" by (auto simp: run_ok_def)
  then have "thread_inv (ms ! i) h (bls ! i) (addresses hs @ elsewhere i bls)" using age.hyps(2) by (simp add: threads_inv_def)
  then have new: "thread_inv (Some (buf_stash_age s)) h (bls ! i) (addresses hs @ elsewhere i bls)"
    using age_inv age.hyps(3) by (simp add: thread_inv_def)
  have c: "counts i (buf_stash_age s) hs ps"
    using age.IH age.hyps(2,3) by (auto simp: run_ok_def counts_def buf_stash_age_def)
  show ?case
    by (rule run_ok_step [OF age.IH age.hyps(2) threads_step [OF b age.hyps(2) new]]) (use age.IH c in \<open>auto simp: run_ok_def\<close>)
next
  case (release ms h hs ps i s level mx n s' h')
  then obtain bls where b: "threads_inv ms h bls (addresses hs)" by (auto simp: run_ok_def)
  then have i: "stash_inv s h (bls ! i) (addresses hs @ elsewhere i bls)"
    using release.hyps(2,3) by (auto simp: threads_inv_def thread_inv_def)
  from release_spec [OF i release.hyps(4)] obtain bl' where r: "stash_inv s' h' bl' (addresses hs @ elsewhere i bls)"
      "st_held s' = st_held s" "st_retained s' \<le> st_retained s" "st_peak s' = st_peak s \<or> st_retained s' = 0" "hp_next h' = hp_next h"
    by (elim exE conjE)
  have "st_held s' \<le> st_peak s'" using r(1) by (simp add: stash_inv_def)
  moreover have "counts i s hs ps" using release.IH release.hyps(2,3) by (auto simp: run_ok_def)
  ultimately have c: "counts i s' hs ps" using r(2-4) by (auto simp: counts_def)
  have new: "thread_inv (Some s') h' bl' (addresses hs @ elsewhere i bls)" using r(1) by (simp add: thread_inv_def)
  show ?case
    by (rule run_ok_step [OF release.IH release.hyps(2) threads_step [OF b release.hyps(2) new]])
      (use release.IH c r(5) in \<open>auto simp: run_ok_def\<close>)
next
  case (pressure ms h hs ps level)
  then obtain bls where b: "threads_inv ms h bls (addresses hs)" by (auto simp: run_ok_def)
  have "threads_inv ms (h\<lparr>hp_pressure := level\<rparr>) bls (addresses hs)" by (rule threads_cong [OF b]) simp_all
  then show ?case using pressure.IH by (auto simp: run_ok_def)
qed

text \<open>The stash of one of the threads.\<close>

lemma run_stash:
  assumes "stash_run ms h hs ps" "i < length ms" "ms ! i = Some s"
  obtains bl H where "stash_inv s h bl H"
  using run_inv [OF assms(1)] assms(2,3) by (auto simp: run_ok_def threads_inv_def thread_inv_def)

section \<open>Properties\<close>

text \<open>Where the examples start.\<close>

definition heap_new :: "allocs \<Rightarrow> heap" where
  "heap_new as = \<lparr>hp_next = \<lambda>_. None, hp_fresh = 8, hp_freed = [], hp_allocs = as, hp_pressure = 0\<rparr>"

definition stash_new :: stash where
  "stash_new = \<lparr>st_retained = 0, st_hits = 0, st_misses = 0, st_released = 0, st_top = replicate BUF_CLASSES None,
     st_kept = replicate BUF_CLASSES \<lparr>kp_n = 0, kp_low = 0, kp_idle = 0\<rparr>, st_held = 0, st_peak = 0\<rparr>"

lemma new_fresh: "fresh_stash stash_new"
  by (simp add: fresh_stash_def stash_new_def)

lemma new_run: "stash_run [None, Some stash_new] (heap_new as) [] []"
  by (rule stash_run.start) (simp_all add: new_fresh heap_new_def)

lemma new_thread: "thread_ok (Some stash_new, heap_new as) (refs buf_zero @ [])"
  using start_inv [OF new_fresh, of "heap_new as"] by (auto simp: thread_ok_def heap_new_def refs_def buf_zero_def)

lemma class_9000: "buf_class 9000 = 2"
  by (simp add: buf_class_def bit_width.simps BUF_CLASS_MIN_def)

lemma block_4096: "buf_class 4096 = 0" "buf_block 4096 = 4096"
proof -
  show "buf_class 4096 = 0" by (simp add: buf_class_def bit_width.simps BUF_CLASS_MIN_def)
  then show "buf_block 4096 = 4096" by (simp add: buf_block_def class_size_def BUF_CLASS_MIN_def BUF_CLASSES_def)
qed

lemma shrink_none: "(\<And>c. c < d \<Longrightarrow> kp_n (st_kept (fst sh) ! c) = 0) \<Longrightarrow> shrink_classes d room sh = sh"
  by (induction d) simp_all

lemma poison_ok: "junk_ok (\<lambda>n. replicate n 255)"
  by (simp add: junk_ok_def)

text \<open>
  C20.  A buffer is a queue: over any series of puts and takes, what it held and took in is what it gave out and still holds, in
  order, whatever of the puts fail for want of memory or at the limit; and its storage stays its own.
\<close>

theorem buffer_is_fifo:
  assumes "junk_ok junk" "thread_ok th (refs b @ hs)" "buf_ok b"
  shows "case queue_run (\<lambda>s. buf_peek (snd s)) (queue_put junk mx) queue_consume (th, b) ops of
    (taken, given, th', b') \<Rightarrow> buf_peek b @ taken = given @ buf_peek b' \<and> thread_ok th' (refs b' @ hs) \<and> buf_ok b'"
  using buffer.first_in_first_out [of junk "(th, b)" hs mx ops] assms by (auto split: prod.splits)

theorem buffer_is_fifo_witness:
  "case queue_run (\<lambda>s. buf_peek (snd s)) (queue_put (\<lambda>n. replicate n 255) 9) queue_consume
      ((Some stash_new, heap_new [False, True]), buf_zero)
      [Put [1], Put [2, 3], Take 1, Put [4, 5, 6, 7, 8, 9, 10, 11], Take 7] of
    (taken, given, th', b') \<Rightarrow> buf_peek buf_zero @ taken = given @ buf_peek b' \<and> thread_ok th' (refs b' @ []) \<and> buf_ok b'"
  by (rule buffer_is_fifo [OF poison_ok new_thread zero_ok(1)])

text \<open>
  C21.  \<^verbatim>\<open>buf_reserve()\<close> keeps the bytes of the buffer.  It gives room for the least asked for, at the end of the
  bytes and inside the storage, and never for more than the limit leaves; else it changes nothing and says \<^verbatim>\<open>ENOBUFS\<close>
  exactly if the limit forbids it, and \<^verbatim>\<open>ENOMEM\<close> otherwise.
\<close>

theorem reserve_gives_room:
  assumes "thread_ok th (refs b @ hs)" "buf_ok b" "junk_ok junk"
  shows "case buf_reserve junk th b least mx of (e, room, th', b') \<Rightarrow>
    thread_ok th' (refs b' @ hs) \<and> buf_ok b' \<and> buf_peek b' = buf_peek b \<and>
    (case e of
       None \<Rightarrow> length (buf_peek b) + least \<le> mx \<and>
         (case room of None \<Rightarrow> least = 0 \<and> (bf_cap b' = bf_tail b' \<or> length (buf_peek b) = mx)
          | Some (off, n) \<Rightarrow> off = bf_tail b' \<and> 0 < n \<and> least \<le> n \<and> off + n \<le> bf_cap b' \<and> length (buf_peek b) + n \<le> mx)
     | Some x \<Rightarrow> b' = b \<and> room = None \<and> (x = ENOBUFS \<and> length (buf_peek b) + least > mx \<and> th' = th \<or> x = ENOMEM \<and> length (buf_peek b) + least \<le> mx))"
proof -
  obtain e room th' b' where r: "buf_reserve junk th b least mx = (e, room, th', b')" by (metis surj_pair)
  show ?thesis unfolding r prod.case by (rule reserve_spec [OF assms r])
qed

theorem reserve_gives_room_witness:
  "case buf_reserve (\<lambda>n. replicate n 255) (Some stash_new, heap_new []) buf_zero 5 9 of
     (e, room, th', b') \<Rightarrow> buf_peek b' = [] \<and> (e = None \<longrightarrow> (\<exists>n. room = Some (bf_tail b', n) \<and> n \<in> {5..9}))"
proof -
  obtain e room th' b' where r: "buf_reserve (\<lambda>n. replicate n 255) (Some stash_new, heap_new []) buf_zero 5 9 = (e, room, th', b')"
    by (metis surj_pair)
  show ?thesis using reserve_gives_room [OF new_thread [of "[]"] zero_ok(1) poison_ok, of 5 9] unfolding r prod.case
    by (cases e; cases room) auto
qed

text \<open>
  C19.  However the threads use their stashes and their blocks, passed from thread to thread or not, a block is in one place: held
  by one holder, on one list of one stash, or freed, each once.  The lists of each stash are linked through the blocks though
  holders write to theirs, and its counts of the blocks and bytes kept are those of its lists.  For a thread that gives up no
  block that another took, what it keeps and counts as held stays within twice the most that it held at once, and it counts no
  less than what is held of the blocks it took; just that, if no other thread gives up one of them.
\<close>

theorem stash_one_holder:
  assumes "stash_run ms h hs ps"
  shows "\<exists>bls. length bls = length ms \<and> distinct (concat (concat bls) @ addresses hs @ hp_freed h) \<and>
    (\<forall>i < length ms. case ms ! i of None \<Rightarrow> bls ! i = []
     | Some s \<Rightarrow> length (bls ! i) = BUF_CLASSES \<and>
        (\<forall>c < BUF_CLASSES. linked (hp_next h) (st_top s ! c) (bls ! i ! c) \<and> kp_n (st_kept s ! c) = length (bls ! i ! c)) \<and>
        st_retained s = (\<Sum>c < BUF_CLASSES. length (bls ! i ! c) * class_size c) \<and> st_held s \<le> st_peak s \<and>
        (i \<notin> fst ` set ps \<longrightarrow> st_retained s + st_held s \<le> 2 * st_peak s \<and> taken_by i hs \<le> st_held s \<and>
           (i \<notin> snd ` set ps \<longrightarrow> st_held s = taken_by i hs)))"
proof -
  note ok = run_inv [OF assms, unfolded run_ok_def]
  then obtain bls where b: "threads_inv ms h bls (addresses hs)" by blast
  show ?thesis
  proof (intro exI [of _ bls] conjI allI impI)
    show "length bls = length ms" "distinct (concat (concat bls) @ addresses hs @ hp_freed h)"
      using b by (simp_all only: threads_inv_def own_def)
    fix i
    assume i: "i < length ms"
    have inv: "thread_inv (ms ! i) h (bls ! i) (addresses hs @ elsewhere i bls)" using b i by (simp add: threads_inv_def)
    have count: "counts i s hs ps" if "ms ! i = Some s" for s using ok i that by blast
    show "case ms ! i of None \<Rightarrow> bls ! i = []
     | Some s \<Rightarrow> length (bls ! i) = BUF_CLASSES \<and>
        (\<forall>c < BUF_CLASSES. linked (hp_next h) (st_top s ! c) (bls ! i ! c) \<and> kp_n (st_kept s ! c) = length (bls ! i ! c)) \<and>
        st_retained s = (\<Sum>c < BUF_CLASSES. length (bls ! i ! c) * class_size c) \<and> st_held s \<le> st_peak s \<and>
        (i \<notin> fst ` set ps \<longrightarrow> st_retained s + st_held s \<le> 2 * st_peak s \<and> taken_by i hs \<le> st_held s \<and>
           (i \<notin> snd ` set ps \<longrightarrow> st_held s = taken_by i hs))"
      using inv count unfolding counts_def by (cases "ms ! i") (simp_all add: thread_inv_def stash_inv_def)
  qed
qed

text \<open>A thread with a stash takes a block, which a thread without one frees.\<close>

theorem stash_one_holder_witness:
  "case buf_stash_take (Some stash_new) (heap_new []) 9000 of (data, cap, mine, h) \<Rightarrow>
     data = Some 8 \<and> cap = 16384 \<and> st_held (the mine) = taken_by 1 [(1, 8, 16384)] \<and>
     (case buf_stash_give None h (Some 8) 16384 of (m', h') \<Rightarrow> hp_freed h' = [8] \<and> m' = None \<and>
       st_held (the mine) \<le> st_peak (the mine) \<and> st_retained (the mine) + st_held (the mine) \<le> 2 * st_peak (the mine))"
proof -
  have none: "shrink_classes BUF_CLASSES 16384 (stash_new\<lparr>st_misses := Suc 0\<rparr>, heap_new []) = (stash_new\<lparr>st_misses := Suc 0\<rparr>, heap_new [])"
    by (rule shrink_none) (simp add: stash_new_def)
  obtain s h where r: "buf_stash_take (Some stash_new) (heap_new []) 9000 = (Some 8, 16384, Some s, h)" and freed: "hp_freed h = []"
    using none by (simp add: buf_stash_take_def class_9000 buf_block_def class_size_def BUF_CLASS_MIN_def BUF_CLASSES_def Let_def)
      (simp add: stash_new_def heap_new_def heap_malloc_def BUF_CLASSES_def)
  from stash_run.take [OF new_run, of 1 "[]" 9000 "Some 8" 16384 "Some s" h] r
  have run: "stash_run [None, Some s] h [(1, 8, 16384)] []" by simp
  have g: "buf_stash_give None h (Some 8) 16384 = (None, h\<lparr>hp_freed := [8]\<rparr>)"
    by (simp add: buf_stash_give_def heap_free_def freed)
  from stash_run.give [OF run, of 0 1 8 16384] g have run': "stash_run [None, Some s] (h\<lparr>hp_freed := [8]\<rparr>) [] [(0, 1)]" by simp
  have "st_held s = taken_by 1 [(1, 8, 16384)]" using stash_one_holder [OF run] by (auto simp: less_Suc_eq)
  moreover have "st_held s \<le> st_peak s \<and> st_retained s + st_held s \<le> 2 * st_peak s"
    using stash_one_holder [OF run'] by (auto simp: less_Suc_eq)
  ultimately show ?thesis unfolding r prod.case option.sel g by simp
qed

text \<open>
  Blocks that other threads took are outside that bound: a thread that gives up one after the other keeps any number of them,
  although no more than one was held at once, until it next lacks a block.
\<close>

theorem passed_blocks_pile_up:
  "\<exists>h s ps. stash_run [None, Some s] h [] ps \<and> st_retained s = n * 4096 \<and> st_held s = 0 \<and> st_peak s = 0 \<and>
     hp_pressure h = 0 \<and> hp_allocs h = []"
proof (induction n)
  case 0
  show ?case using new_run [of "[]"]
    by (intro exI [of _ "heap_new []"] exI [of _ stash_new] exI [of _ "[]"]) (simp add: stash_new_def heap_new_def)
next
  case (Suc n)
  then obtain h s ps where h: "stash_run [None, Some s] h [] ps" "st_retained s = n * 4096" "st_held s = 0" "st_peak s = 0"
      "hp_pressure h = 0" "hp_allocs h = []" by (elim exE conjE)
  let ?r = "hp_fresh h"
  let ?h = "h\<lparr>hp_fresh := ?r + 1\<rparr>"
  have "buf_stash_take None h 4096 = (Some ?r, 4096, None, ?h)"
    using h(6) by (simp add: buf_stash_take_def heap_malloc_def block_4096 Let_def)
  from stash_run.take [OF h(1), of 0 4096 "Some ?r" 4096 None ?h] this
  have run: "stash_run [None, Some s] ?h [(0, ?r, 4096)] ps" by simp
  obtain s' h' where g: "buf_stash_give (Some s) ?h (Some ?r) 4096 = (Some s', h')" "st_retained s' = Suc n * 4096" "st_held s' = 0"
      "st_peak s' = 0" "hp_pressure h' = 0" "hp_allocs h' = []"
    using h by (simp add: buf_stash_give_def block_4096 BUF_CLASSES_def BUF_CRITICAL_def Let_def)
  from stash_run.give [OF run, of 1 0 ?r 4096 "Some s'" h'] g(1) have "stash_run [None, Some s'] h' [] ((1, 0) # ps)" by simp
  then show ?case using g(2-6) by blast
qed

text \<open>
  A block kept in the class is handed out as it is, with no other freed.  A miss first gives back so much of what is kept
  that it stays, with what is held, within twice the peak; it fails only when the system gives no memory.
\<close>

theorem stash_take_outcomes:
  assumes "stash_run ms h hs ps" "i < length ms" "ms ! i = Some s" "buf_class sz < BUF_CLASSES"
  shows "case buf_stash_take (Some s) h sz of (data, cap, mine, h') \<Rightarrow>
    cap = buf_block sz \<and> sz \<le> cap \<and>
    (\<exists>s'. mine = Some s' \<and> st_held s' = st_held s + (if data = None then 0 else cap) \<and>
      (if kp_n (st_kept s ! buf_class sz) \<noteq> 0 then data = st_top s ! buf_class sz \<and> data \<noteq> None \<and> hp_freed h' = hp_freed h
       else st_retained s' + (st_held s + cap) \<le> 2 * max (st_held s + cap) (st_peak s)))"
proof -
  obtain data cap mine h' where t: "buf_stash_take (Some s) h sz = (data, cap, mine, h')" by (metis surj_pair)
  obtain bl H where i: "stash_inv s h bl H" using run_stash [OF assms(1-3)] .
  have n: "kp_n (st_kept s ! buf_class sz) = length (bl ! buf_class sz)" "linked (hp_next h) (st_top s ! buf_class sz) (bl ! buf_class sz)"
    using i assms(4) by (auto simp: stash_inv_def)
  show ?thesis using take_spec [OF i t] n assms(4) block_holds [of sz] unfolding t prod.case
    by (cases "bl ! buf_class sz") auto
qed

theorem stash_take_outcomes_witness:
  "case buf_stash_take (Some stash_new) (heap_new []) 9000 of (data, cap, mine, h) \<Rightarrow> 9000 \<le> cap \<and> (\<exists>s. mine = Some s)"
proof -
  have c: "buf_class 9000 < BUF_CLASSES" by (simp add: class_9000 BUF_CLASSES_def)
  show ?thesis using stash_take_outcomes [OF new_run [of "[]"], of 1 stash_new 9000] c by (auto split: prod.splits)
qed

text \<open>
  A step of giving memory back keeps to its limit, or gives back a single block.  It gives nothing back only when no class has a
  block that it may give back at that level.
\<close>

theorem release_within_limit:
  assumes "stash_run ms h hs ps" "i < length ms" "ms ! i = Some s"
  shows "case buf_stash_release s h level mx of (n, s', h') \<Rightarrow>
    (n \<le> mx \<or> (\<exists>c < BUF_CLASSES. n = buf_units (class_size c))) \<and> st_held s' = st_held s \<and>
    (n = 0 \<longrightarrow> h' = h \<and> (\<forall>c < BUF_CLASSES. buf_kept_unused (st_kept s ! c) level = 0))"
proof -
  obtain n s' h' where r: "buf_stash_release s h level mx = (n, s', h')" by (metis surj_pair)
  obtain bl H where i: "stash_inv s h bl H" using run_stash [OF assms] .
  show ?thesis unfolding r prod.case using release_spec [OF i r] by blast
qed

theorem release_within_limit_witness:
  "case buf_stash_release stash_new (heap_new []) 2 4 of (n, s', h') \<Rightarrow> st_held s' = st_held stash_new"
  using release_within_limit [OF new_run [of "[]"], of 1 stash_new 4 2] by (auto split: prod.splits)

text \<open>
  C22.  \<^verbatim>\<open>buf_vprintf()\<close> ends whatever the text: it appends it, or keeps the bytes and says why.
\<close>

theorem vprintf_appends:
  assumes "thread_ok th (refs b @ hs)" "buf_ok b" "junk_ok junk"
  shows "\<exists>e th' b'. buf_vprintf junk fmt th b = Some (e, th', b') \<and> thread_ok th' (refs b' @ hs) \<and> buf_ok b' \<and>
    (case e of None \<Rightarrow> fmt \<noteq> None \<and> buf_peek b' = buf_peek b @ the fmt
     | Some x \<Rightarrow> buf_peek b' = buf_peek b \<and> (x = ENOBUFS \<or> x = ENOMEM \<or> x = EOVERFLOW \<and> fmt = None))"
  using vprintf_returns [OF assms, of 128 fmt] by (auto simp: buf_vprintf_def printed_def)

theorem vprintf_appends_witness:
  "\<exists>e th' b'. buf_vprintf (\<lambda>n. replicate n 255) (Some [104, 105]) (Some stash_new, heap_new []) buf_zero = Some (e, th', b') \<and>
    thread_ok th' (refs b' @ []) \<and> buf_ok b' \<and>
    (case e of None \<Rightarrow> Some [104, 105 :: 8 word] \<noteq> None \<and> buf_peek b' = buf_peek buf_zero @ the (Some [104, 105])
     | Some x \<Rightarrow> buf_peek b' = buf_peek buf_zero \<and> (x = ENOBUFS \<or> x = ENOMEM \<or> x = EOVERFLOW \<and> Some [104, 105 :: 8 word] = None))"
  by (rule vprintf_appends [OF new_thread zero_ok(1) poison_ok])

text \<open>
  Cutting bytes out of a buffer leaves those before and after them; wiping leaves no byte of it in the storage.
\<close>

theorem buffer_edits:
  assumes "buf_ok b" "off + len \<le> length (buf_peek b)"
  shows "buf_ok (buf_cut b off len) \<and> buf_peek (buf_cut b off len) = take off (buf_peek b) @ drop (off + len) (buf_peek b) \<and>
    bf_data (buf_cut b off len) = bf_data b \<and>
    buf_ok (buf_wipe b) \<and> buf_peek (buf_wipe b) = [] \<and> bf_bytes (buf_wipe b) = zeros (bf_cap b)"
proof -
  have "bf_bytes (buf_wipe b) = zeros (bf_cap b)"
    using assms(1) by (auto simp: buf_wipe_def buf_ok_def overwrite_def split: option.splits)
  moreover have "buf_ok (buf_wipe b)" "buf_peek (buf_wipe b) = []"
    using assms(1) by (auto simp: buf_wipe_def buf_ok_def buf_peek_def overwrite_def zeros_def split: option.splits)
  moreover have "bf_data (buf_cut b off len) = bf_data b" by (simp add: buf_cut_def buf_consume_def Let_def)
  ultimately show ?thesis using cut_spec [OF assms] by simp
qed

theorem buffer_edits_witness:
  "let b = \<lparr>bf_data = Some 5, bf_bytes = [0, 1, 2, 3, 4, 5] @ replicate 4090 9, bf_head = 1, bf_tail = 6, bf_cap = 4096\<rparr>
   in buf_peek (buf_cut b 1 2) = [1] @ [4, 5] \<and> buf_peek (buf_wipe b) = []"
proof -
  let ?b = "\<lparr>bf_data = Some 5, bf_bytes = [0, 1, 2, 3, 4, 5] @ replicate 4090 9, bf_head = 1, bf_tail = 6, bf_cap = 4096\<rparr>"
  have ok: "buf_ok ?b" by (simp add: buf_ok_def block_4096)
  have p: "buf_peek ?b = [1, 2, 3, 4, 5]" by (simp add: buf_peek_def)
  show ?thesis using buffer_edits [OF ok, of 1 2] unfolding Let_def p by simp
qed

end
