(* ===== verification/Json.thy ===== *)
theory Json
  imports Cstr_View
begin

text \<open>
  JSON values as the program sees them (\<^verbatim>\<open>src/jb.h\<close>, on json-c).

  A \<^verbatim>\<open>struct json_object *\<close> is a \<open>json\<close>; json-c has no object for null, which is a null pointer, as is a
  member that is absent.  The members of an object are in the order in which json-c goes through them, under different keys,
  which are C strings; numbers do not matter to what is modelled on them.
\<close>

datatype json =
    JNull
  | JBool bool
  | JNumber
  | JString bytes
  | JArray "json list"
  | JObject "(bytes \<times> json) list"

text \<open>What json-c gives of a value: the members of an object, the member of a key and whether it is there, the elements of an array.\<close>

fun json_members :: "json \<Rightarrow> (bytes \<times> json) list" where
  "json_members (JObject ms) = ms"
| "json_members _ = []"

definition json_is_object :: "json \<Rightarrow> bool" where
  "json_is_object v \<longleftrightarrow> (case v of JObject _ \<Rightarrow> True | _ \<Rightarrow> False)"

definition json_is_array :: "json \<Rightarrow> bool" where
  "json_is_array v \<longleftrightarrow> (case v of JArray _ \<Rightarrow> True | _ \<Rightarrow> False)"

fun json_elements :: "json \<Rightarrow> json list" where
  "json_elements (JArray vs) = vs"
| "json_elements _ = []"

text \<open>\<^verbatim>\<open>json_object_object_get_ex()\<close>: whether the member is there, and its value.\<close>

definition json_get_ex :: "json \<Rightarrow> bytes \<Rightarrow> bool \<times> json" where
  "json_get_ex v key = (case map_of (json_members v) key of None \<Rightarrow> (False, JNull) | Some val \<Rightarrow> (True, val))"

definition jb_get :: "json \<Rightarrow> bytes \<Rightarrow> json" where
  "jb_get obj key = (case json_get_ex obj key of (has, val) \<Rightarrow> if has then val else JNull)"

definition jb_len :: "json \<Rightarrow> nat" where
  "jb_len val = (if json_is_array val then length (json_elements val) else 0)"

definition jb_at :: "json \<Rightarrow> nat \<Rightarrow> json" where
  "jb_at arr idx = (if idx < jb_len arr then json_elements arr ! idx else JNull)"

text \<open>A view with a null pointer is \<open>None\<close>.\<close>

definition jb_view :: "json \<Rightarrow> cstr_view option" where
  "jb_view val = (case val of JString s \<Rightarrow> Some s | _ \<Rightarrow> None)"

definition jb_is :: "json \<Rightarrow> bytes \<Rightarrow> bool" where
  "jb_is val str = cstr_view_equal (case jb_view val of None \<Rightarrow> [] | Some s \<Rightarrow> s) str"

text \<open>The C string at the start of some bytes.\<close>

definition cstring :: "bytes \<Rightarrow> bytes" where
  "cstring s = takeWhile (\<lambda>c. c \<noteq> 0) s"

end
