(* ===== verification/Util_Text.thy ===== *)
theory Util_Text
  imports Util
begin

text \<open>
  Text helpers of \<^verbatim>\<open>src/util.h\<close>: cutting at character boundaries, words, paths, URLs and bounded
  formatted text.

  The lemmas show where a cut ends, that a path is taken apart into its components, what the
  origin and the shown part of a URL are, and that formatted text stays in its storage.
\<close>

unbundle bit_operations_syntax

section \<open>Text\<close>

text \<open>A byte of a UTF-8 character after its first.\<close>

definition utf8_cont :: "byte \<Rightarrow> bool" where
  "utf8_cont c \<longleftrightarrow> c AND 0xc0 = 0x80"

fun clip_loop :: "bytes \<Rightarrow> nat \<Rightarrow> nat" where
  "clip_loop s 0 = 0"
| "clip_loop s (Suc m) = (if utf8_cont (s ! Suc m) then clip_loop s m else Suc m)"

definition util_clip :: "bytes \<Rightarrow> nat \<Rightarrow> nat" where
  "util_clip s max' = (if length s \<le> max' then length s else clip_loop s max')"

function util_char_start :: "bytes \<Rightarrow> nat \<Rightarrow> nat" where
  "util_char_start s off =
     (if off < length s \<and> utf8_cont (s ! off) then util_char_start s (off + 1) else off)"
  by pat_completeness auto
termination by (relation "measure (\<lambda>(s, off). length s - off)") auto

declare util_char_start.simps [simp del]

definition UTIL_WORD_MAX :: nat where
  "UTIL_WORD_MAX = 64"

fun word_loop :: "bytes \<Rightarrow> bool" where
  "word_loop [] = True"
| "word_loop (c # cs) =
     (if \<not> (c \<ge> ch CHR ''a'' \<and> c \<le> ch CHR ''z'') \<and> \<not> (c \<ge> ch CHR ''A'' \<and> c \<le> ch CHR ''Z'') \<and>
         \<not> (c \<ge> ch CHR ''0'' \<and> c \<le> ch CHR ''9'') \<and> c \<noteq> ch CHR ''_'' \<and> c \<noteq> ch CHR ''-''
      then False else word_loop cs)"

text \<open>A null pointer is \<open>None\<close>.\<close>

definition util_word :: "bytes option \<Rightarrow> nat \<Rightarrow> bool" where
  "util_word s max' =
     (case s of None \<Rightarrow> False
      | Some s \<Rightarrow> if length s = 0 \<or> length s > max' then False else word_loop s)"

text \<open>\<^verbatim>\<open>util_word_len()\<close> of a C string, given by its bytes before the NUL; \<^verbatim>\<open>strnlen()\<close> looks at
  \<open>max + 1\<close> of them at most.\<close>

definition util_word_len :: "bytes option \<Rightarrow> nat \<Rightarrow> nat" where
  "util_word_len s max' =
     (let n = (case s of None \<Rightarrow> 0 | Some t \<Rightarrow> min (length t) (max' + 1))
      in if util_word (map_option (take n) s) max' then n else 0)"

text \<open>\<^verbatim>\<open>util_path_next()\<close>: the error, the rest and the part.\<close>

definition path_step :: "cstr_view \<Rightarrow> cstr_view \<times> cstr_view" where
  "path_step rest =
     (case cstr_view_cut rest (ch CHR ''/'') of None \<Rightarrow> (rest, []) | Some (h, r) \<Rightarrow> (h, r))"

lemma path_step_shrinks:
  "path_step rest = (part, rest') \<Longrightarrow> part \<noteq> [] \<or> rest' \<noteq> [] \<Longrightarrow> length rest' < length rest"
  by (auto simp: path_step_def split: option.splits dest: cut_length)

function path_next_loop :: "cstr_view \<Rightarrow> cstr_view \<times> cstr_view" where
  "path_next_loop rest =
     (case path_step rest of
        (part, rest') \<Rightarrow>
          if (if length part \<noteq> 0 then cstr_view_equal part (ascii ''.'') else length rest' \<noteq> 0)
          then path_next_loop rest' else (rest', part))"
  by pat_completeness auto
termination
  by (relation "measure length") (auto split: if_splits dest: path_step_shrinks [OF sym])

declare path_next_loop.simps [simp del]

definition util_path_next :: "cstr_view \<Rightarrow> errno option \<times> cstr_view \<times> cstr_view" where
  "util_path_next rest =
     (let (rest, part) = path_next_loop rest
      in (if cstr_view_equal part (ascii ''..'') then Some EINVAL else None, rest, part))"

section \<open>URLs\<close>

definition util_url_scheme :: "cstr_view \<Rightarrow> nat" where
  "util_url_scheme url =
     (let scheme = (if cstr_view_starts url (ascii ''http://'') then 7
                    else if cstr_view_starts url (ascii ''https://'') then 8 else 0)
      in if scheme = 0 \<or> scheme = length url then 0
         else if list_ex (\<lambda>c. c \<le> ch CHR '' '' \<or> c > ch CHR ''~'') url then 0
         else scheme)"

definition url_stops :: bytes where
  "url_stops = ascii ''/?#@''"

function origin_loop :: "cstr_view \<Rightarrow> nat \<Rightarrow> nat" where
  "origin_loop url end' =
     (if end' < length url \<and> memchr (url ! end') url_stops = None
      then origin_loop url (end' + 1) else end')"
  by pat_completeness auto
termination by (relation "measure (\<lambda>(url, e). length url - e)") auto

declare origin_loop.simps [simp del]

definition util_url_origin :: "cstr_view \<Rightarrow> nat" where
  "util_url_origin url =
     (let scheme = util_url_scheme url
      in if scheme = 0 then 0
         else let end' = origin_loop url scheme
              in if end' > scheme \<and> (end' = length url \<or> url ! end' \<noteq> ch CHR ''@'')
                 then end' else 0)"

text \<open>
  \<^verbatim>\<open>util_url_shown()\<close> of a C string: the part it points at, and the length of the scheme.  The
  first loop finds what follows \<^verbatim>\<open>://\<close>, the second stops at the first of the end, \<^verbatim>\<open>#\<close>, \<^verbatim>\<open>?\<close>, \<^verbatim>\<open>/\<close> and
  \<^verbatim>\<open>@\<close>.
\<close>

fun shown_host :: "bytes \<Rightarrow> bytes option" where
  "shown_host [] = None"
| "shown_host (c # cs) =
     (if c = ch CHR '':'' \<and> cs \<noteq> [] \<and> hd cs = ch CHR ''/'' then
        (if tl cs \<noteq> [] \<and> hd (tl cs) = ch CHR ''/'' then Some (tl (tl cs)) else shown_host (tl cs))
      else shown_host cs)"

fun shown_loop :: "bytes \<Rightarrow> bytes \<Rightarrow> bytes" where
  "shown_loop host [] = host"
| "shown_loop host (c # cs) =
     (if c = ch CHR ''#'' \<or> c = ch CHR ''?'' \<or> c = ch CHR ''/'' then host
      else if c = ch CHR ''@'' then cs
      else shown_loop host cs)"

definition util_url_shown :: "bytes \<Rightarrow> bytes \<times> nat" where
  "util_url_shown url =
     (let host = (case shown_host url of None \<Rightarrow> url | Some h \<Rightarrow> h)
      in (shown_loop host host, length url - length host))"

section \<open>Bounded text\<close>

text \<open>
  \<^verbatim>\<open>util_vformat()\<close>.  \<open>buf\<close> is the buffer (\<open>None\<close> for a null pointer), \<open>size\<close> bytes of which may
  be written, and \<open>fmt\<close> what \<^verbatim>\<open>vsnprintf()\<close> makes of the format and its arguments: the whole
  text, shorter than 2^31 bytes, or \<open>None\<close> when it fails.  \<^verbatim>\<open>vsnprintf()\<close> writes the first
  \<open>size - 1\<close> bytes of the text and a NUL, and returns the length of the whole text.
  The result is the length returned and the buffer.
\<close>

definition vsnprintf_int :: "bytes option \<Rightarrow> u32" where
  "vsnprintf_int fmt = (case fmt of None \<Rightarrow> - 1 | Some t \<Rightarrow> of_nat (length t))"

definition vsnprintf_buf :: "bytes \<Rightarrow> nat \<Rightarrow> bytes option \<Rightarrow> bytes" where
  "vsnprintf_buf buf sz fmt =
     (case fmt of None \<Rightarrow> buf | Some t \<Rightarrow> overwrite buf 0 (take (sz - 1) t @ [0]))"

definition util_vformat :: "bytes option \<Rightarrow> nat \<Rightarrow> bytes option \<Rightarrow> u64 \<times> bytes option" where
  "util_vformat buf sz fmt =
     (let len = of_bool (buf = None) OR of_bool (sz = 0); len = len - 1
      in case buf of
           None \<Rightarrow> (len, buf)
         | Some b \<Rightarrow>
             if len = 0 then (len, buf)
             else
               let x = vsnprintf_int fmt;
                   b = vsnprintf_buf b sz fmt;
                   err = x AND NOT (drop_bit 1 (NOT 0)) \<noteq> 0;
                   len = len + of_bool err;
                   len = len AND ucast x;
                   b = (if err then b[0 := 0] else b)
               in if unat len \<ge> sz then
                    let len = sz - 1;
                        b = (if len > 2 then overwrite b (len - 3) (ascii ''...'') else b)
                    in (of_nat len, Some b)
                  else (len, Some b))"

text \<open>\<^verbatim>\<open>util_text_store_()\<close> on the storage \<open>data\<close>: the error, the length and the storage.\<close>

definition util_text_store :: "bytes \<Rightarrow> cstr_view \<Rightarrow> errno option \<times> nat \<times> bytes" where
  "util_text_store data view =
     (let n = util_clip view (length data - 1);
          data = (if n \<noteq> 0 then overwrite data 0 (take n view) else data);
          data = data[n := 0]
      in (if n < length view then Some EINVAL else None, n, data))"

text \<open>\<^verbatim>\<open>util_text_printf_()\<close> on the text of \<open>len\<close> bytes in \<open>data\<close>: the error, the length and the
  storage.\<close>

definition util_text_printf ::
    "nat \<Rightarrow> bytes \<Rightarrow> bytes option \<Rightarrow> errno option \<times> nat \<times> bytes" where
  "util_text_printf len data fmt =
     (let room = length data - len
      in if room < 2 then (Some EINVAL, len, data)
         else case util_vformat (Some (drop len data)) room fmt of
                (added, tail') \<Rightarrow>
                  let len' = len + unat added;
                      data = take len data @ the tail'
                  in (if len' < length data - 1 then None else Some EINVAL, len', data))"

section \<open>Facts: cutting text\<close>

lemma clip_loop_spec:
  "clip_loop s m \<le> m" "clip_loop s m < j \<Longrightarrow> j \<le> m \<Longrightarrow> utf8_cont (s ! j)"
  "clip_loop s m \<noteq> 0 \<Longrightarrow> \<not> utf8_cont (s ! clip_loop s m)"
proof -
  show "clip_loop s m \<le> m" by (induction m) auto
  show "clip_loop s m < j \<Longrightarrow> j \<le> m \<Longrightarrow> utf8_cont (s ! j)"
    by (induction m) (auto simp: le_Suc_eq split: if_splits)
  show "clip_loop s m \<noteq> 0 \<Longrightarrow> \<not> utf8_cont (s ! clip_loop s m)"
    by (induction m) auto
qed

lemma util_clip_le: "util_clip s m \<le> m" "util_clip s m \<le> length s"
  using clip_loop_spec(1) [of s m] by (auto simp: util_clip_def)

text \<open>A cut inside the text is before a byte that begins a character, and every byte between the
  cut and the bound continues one: the cut is the last boundary not past the bound.\<close>

lemma util_clip_boundary:
  assumes "util_clip s m < length s"
  shows "util_clip s m \<noteq> 0 \<Longrightarrow> \<not> utf8_cont (s ! util_clip s m)"
    and "util_clip s m < j \<Longrightarrow> j \<le> m \<Longrightarrow> utf8_cont (s ! j)"
  using assms clip_loop_spec [of s m] by (auto simp: util_clip_def split: if_splits)

lemma util_clip_whole: "length s \<le> m \<Longrightarrow> util_clip s m = length s"
  by (simp add: util_clip_def)

lemma util_char_start_spec:
  assumes "off \<le> length s"
  shows "off \<le> util_char_start s off \<and> util_char_start s off \<le> length s \<and>
    (\<forall>j. off \<le> j \<and> j < util_char_start s off \<longrightarrow> utf8_cont (s ! j)) \<and>
    (util_char_start s off < length s \<longrightarrow> \<not> utf8_cont (s ! util_char_start s off))"
  using assms
proof (induction s off rule: util_char_start.induct)
  case (1 s off)
  show ?case
  proof (cases "off < length s \<and> utf8_cont (s ! off)")
    case True
    with "1.IH" have "off + 1 \<le> util_char_start s (off + 1) \<and> util_char_start s (off + 1) \<le> length s \<and>
      (\<forall>j. off + 1 \<le> j \<and> j < util_char_start s (off + 1) \<longrightarrow> utf8_cont (s ! j)) \<and>
      (util_char_start s (off + 1) < length s \<longrightarrow> \<not> utf8_cont (s ! util_char_start s (off + 1)))"
      by simp
    moreover have eq: "util_char_start s off = util_char_start s (off + 1)"
      using True util_char_start.simps [of s off] by simp
    moreover have "off \<le> j \<Longrightarrow> utf8_cont (s ! j)" if "\<not> off + 1 \<le> j" for j
      using that True by (metis Suc_eq_plus1 le_antisym not_less_eq_eq)
    ultimately show ?thesis unfolding eq by (metis add_leD1)
  next
    case False
    then have "util_char_start s off = off" using util_char_start.simps [of s off] by (simp only: if_False)
    with False "1.prems" show ?thesis by auto
  qed
qed

section \<open>Facts: words and paths\<close>

definition word_char :: "byte \<Rightarrow> bool" where
  "word_char c \<longleftrightarrow>
     (ch CHR ''a'' \<le> c \<and> c \<le> ch CHR ''z'') \<or> (ch CHR ''A'' \<le> c \<and> c \<le> ch CHR ''Z'') \<or>
     (ch CHR ''0'' \<le> c \<and> c \<le> ch CHR ''9'') \<or> c = ch CHR ''_'' \<or> c = ch CHR ''-''"

lemma word_loop_iff: "word_loop s \<longleftrightarrow> list_all word_char s"
  by (induction s) (auto simp: word_char_def)

lemma util_word_iff:
  "util_word s m \<longleftrightarrow> (\<exists>t. s = Some t \<and> t \<noteq> [] \<and> length t \<le> m \<and> list_all word_char t)"
  by (auto simp: util_word_def word_loop_iff split: option.splits)

lemma util_word_len_eq:
  "util_word_len (Some t) m = (if util_word (Some t) m then length t else 0)"
  by (auto simp: util_word_len_def util_word_iff Let_def min_def)

text \<open>The components of a path that count: not empty and not \<^verbatim>\<open>.\<close>.\<close>

definition path_parts :: "cstr_view \<Rightarrow> cstr_view list" where
  "path_parts path = filter (\<lambda>p. p \<noteq> [] \<and> p \<noteq> ascii ''.'') (split_on (ch CHR ''/'') path)"

lemma path_parts_Nil [simp]: "path_parts [] = []"
  by (simp add: path_parts_def)

lemma path_parts_step:
  assumes "path_step rest = (part, rest')"
  shows "path_parts rest =
     (if part \<noteq> [] \<and> part \<noteq> ascii ''.'' then part # path_parts rest' else path_parts rest')"
proof (cases "cstr_view_cut rest (ch CHR ''/'')")
  case None
  with assms have "part = rest" "rest' = []" "ch CHR ''/'' \<notin> set rest"
    by (simp_all add: path_step_def cut_None_iff)
  then show ?thesis by (simp add: path_parts_def)
next
  case (Some p)
  obtain h r where "p = (h, r)" by (cases p)
  with Some assms have "part = h" "rest' = r" "rest = h @ ch CHR ''/'' # r" "ch CHR ''/'' \<notin> set h"
    by (simp_all add: path_step_def cut_Some_iff)
  then show ?thesis by (simp add: path_parts_def)
qed

lemma path_next_loop_eq:
  "path_next_loop rest = (rest', part) \<Longrightarrow>
     path_parts rest = (if part = [] then [] else part # path_parts rest') \<and>
     (part = [] \<longrightarrow> rest' = []) \<and> part \<noteq> ascii ''.''"
proof (induction rest arbitrary: rest' part rule: path_next_loop.induct)
  case (1 rest)
  obtain p r where step: "path_step rest = (p, r)" by (cases "path_step rest")
  show ?case
  proof (cases "if p \<noteq> [] then p = ascii ''.'' else r \<noteq> []")
    case True
    then have "path_next_loop rest = path_next_loop r"
      using path_next_loop.simps [of rest] step by simp
    with "1.prems" have "path_next_loop r = (rest', part)" by simp
    moreover have "if length p \<noteq> 0 then cstr_view_equal p (ascii ''.'') else length r \<noteq> 0"
      using True by simp
    ultimately have "path_parts r = (if part = [] then [] else part # path_parts rest') \<and>
       (part = [] \<longrightarrow> rest' = []) \<and> part \<noteq> ascii ''.''"
      by (rule "1.IH" [OF step [symmetric], rotated])
    moreover have "path_parts rest = path_parts r"
      unfolding path_parts_step [OF step] using True by (simp split: if_splits)
    ultimately show ?thesis by simp
  next
    case False
    then have "path_next_loop rest = (r, p)"
      using path_next_loop.simps [of rest] step by (auto split: if_splits)
    with "1.prems" have "rest' = r" "part = p" by simp_all
    with False show ?thesis
      unfolding path_parts_step [OF step] by (cases "p = []") (simp_all add: ascii_def)
  qed
qed

section \<open>Facts: URLs\<close>

lemma url_scheme_cases:
  "util_url_scheme url = 0 \<or>
   (util_url_scheme url = 7 \<and> take 7 url = ascii ''http://'' \<and> 7 < length url) \<or>
   (util_url_scheme url = 8 \<and> take 8 url = ascii ''https://'' \<and> 8 < length url)"
proof -
  have "cstr_view_starts url (ascii ''http://'') \<Longrightarrow> take 7 url = ascii ''http://'' \<and> 7 \<le> length url"
    "cstr_view_starts url (ascii ''https://'') \<Longrightarrow> take 8 url = ascii ''https://'' \<and> 8 \<le> length url"
    by (auto simp: cstr_view_starts_iff)
  then show ?thesis by (auto simp: util_url_scheme_def Let_def)
qed

lemma url_scheme_printable:
  assumes "util_url_scheme url \<noteq> 0" "c \<in> set url"
  shows "ch CHR '' '' < c" "c \<le> ch CHR ''~''"
proof -
  have "\<not> list_ex (\<lambda>c. c \<le> ch CHR '' '' \<or> c > ch CHR ''~'') url"
    using assms(1) by (auto simp: util_url_scheme_def Let_def split: if_splits)
  then show "ch CHR '' '' < c" "c \<le> ch CHR ''~''"
    using assms(2) by (auto simp: list_ex_iff not_le not_less)
qed

lemma origin_loop_spec:
  assumes "e \<le> length url"
  shows "e \<le> origin_loop url e \<and> origin_loop url e \<le> length url \<and>
    (\<forall>j. e \<le> j \<and> j < origin_loop url e \<longrightarrow> url ! j \<notin> set url_stops) \<and>
    (origin_loop url e < length url \<longrightarrow> url ! origin_loop url e \<in> set url_stops)"
  using assms
proof (induction url e rule: origin_loop.induct)
  case (1 url e)
  show ?case
  proof (cases "e < length url \<and> memchr (url ! e) url_stops = None")
    case True
    with "1.IH" have IH: "e + 1 \<le> origin_loop url (e + 1) \<and> origin_loop url (e + 1) \<le> length url \<and>
      (\<forall>j. e + 1 \<le> j \<and> j < origin_loop url (e + 1) \<longrightarrow> url ! j \<notin> set url_stops) \<and>
      (origin_loop url (e + 1) < length url \<longrightarrow> url ! origin_loop url (e + 1) \<in> set url_stops)"
      by simp
    have eq: "origin_loop url e = origin_loop url (e + 1)"
      using True origin_loop.simps [of url e] by simp
    have "url ! j \<notin> set url_stops" if "e \<le> j" "\<not> e + 1 \<le> j" for j
      using that True by (metis memchr_None_iff Suc_eq_plus1 le_antisym not_less_eq_eq)
    with IH show ?thesis unfolding eq by (metis add_leD1)
  next
    case False
    then have "origin_loop url e = e" using origin_loop.simps [of url e] by (simp only: if_False)
    with False "1.prems" show ?thesis by (auto simp: memchr_None_iff)
  qed
qed

text \<open>The origin of a URL: the scheme and an authority, not empty, up to the first byte that ends
  it, and never one with a user name or a password.\<close>

lemma url_origin_spec:
  assumes "util_url_origin url = n" "n \<noteq> 0"
  shows "\<exists>scheme auth. take n url = scheme @ auth \<and> auth \<noteq> [] \<and>
      (scheme = ascii ''http://'' \<or> scheme = ascii ''https://'') \<and>
      set auth \<inter> set (ascii ''/?#@'') = {} \<and> n \<le> length url \<and>
      (n < length url \<longrightarrow> url ! n \<in> set (ascii ''/?#''))"
proof -
  let ?s = "util_url_scheme url"
  let ?e = "origin_loop url ?s"
  from assms have s0: "?s \<noteq> 0" and n: "n = ?e" and e: "?e > ?s"
      and last: "?e = length url \<or> url ! ?e \<noteq> ch CHR ''@''"
    by (auto simp: util_url_origin_def Let_def split: if_splits)
  have s: "take ?s url = ascii ''http://'' \<or> take ?s url = ascii ''https://''" "?s < length url"
    using url_scheme_cases [of url] s0 by auto
  note sp = origin_loop_spec [OF less_imp_le [OF s(2)]]
  let ?auth = "take (?e - ?s) (drop ?s url)"
  have "take n url = take ?s url @ ?auth"
    using e by (simp add: n take_drop_middle)
  moreover have "?auth \<noteq> []" using e s(2) by simp
  moreover have "set ?auth \<inter> set (ascii ''/?#@'') = {}"
  proof -
    have "c \<notin> set url_stops" if "c \<in> set ?auth" for c
    proof -
      from that obtain k where "k < ?e - ?s" "c = url ! (?s + k)"
        by (auto simp: in_set_conv_nth)
      with sp show ?thesis by (metis le_add1 less_diff_conv add.commute)
    qed
    then show ?thesis by (auto simp: url_stops_def)
  qed
  moreover have "n < length url \<longrightarrow> url ! n \<in> set (ascii ''/?#'')"
    using sp last by (auto simp: n url_stops_def ascii_def)
  ultimately show ?thesis using s(1) sp n by blast
qed

lemma shown_host_append:
  "ch CHR '':'' \<notin> set scheme \<Longrightarrow> shown_host (scheme @ ascii ''://'' @ url) = Some url"
  by (induction scheme) (simp_all add: ascii_def)

lemma shown_loop_at:
  "set user \<inter> set (ascii ''/?#@'') = {} \<Longrightarrow> shown_loop host (user @ ch CHR ''@'' # rest) = rest"
  by (induction user) (auto simp: ascii_def)

lemma shown_loop_plain:
  "set auth \<inter> set (ascii ''/?#@'') = {} \<Longrightarrow>
     rest = [] \<or> hd rest \<in> set (ascii ''/?#'') \<Longrightarrow> shown_loop host (auth @ rest) = host"
  by (induction auth; cases rest) (auto simp: ascii_def)

section \<open>Facts: bounded text\<close>

text \<open>What \<^verbatim>\<open>util_vformat()\<close> leaves in the buffer: the text if it fits, else its start with three
  dots at the end, if there is room for them.\<close>

definition clipped_text :: "nat \<Rightarrow> bytes \<Rightarrow> bytes" where
  "clipped_text sz t =
     (if length t < sz then t
      else if sz > 3 then take (sz - 4) t @ ascii ''...'' else take (sz - 1) t)"

lemma length_clipped_text: "0 < sz \<Longrightarrow> length (clipped_text sz t) < sz"
  by (auto simp: clipped_text_def)

lemma top_bit: "NOT (drop_bit 1 (NOT 0)) = (push_bit 31 1 :: u32)"
  by code_simp

lemma vsnprintf_int_ok:
  assumes "length t < 2 ^ 31"
  shows "vsnprintf_int (Some t) AND NOT (drop_bit 1 (NOT 0)) = 0"
    "unat (ucast (vsnprintf_int (Some t)) :: u64) = length t"
proof -
  have "\<not> bit (of_nat (length t) :: u32) 31"
  proof -
    have "\<not> bit (length t) 31" using assms by (simp add: bit_iff_odd)
    moreover have "unat (of_nat (length t) :: u32) = length t"
      using assms by (simp add: unsigned_of_nat take_bit_nat_eq_self)
    ultimately show ?thesis
      using bit_unsigned_iff [where ?'a = nat and w = "of_nat (length t) :: u32" and n = 31] by simp
  qed
  moreover have "n = 31" if "31 \<le> n" "n < LENGTH(32)" for n
    using that by simp
  ultimately show "vsnprintf_int (Some t) AND NOT (drop_bit 1 (NOT 0)) = 0"
    unfolding top_bit vsnprintf_int_def option.case
    by (intro bit_word_eqI) (metis bit_0_eq bit_and_iff bit_push_bit_iff bot_apply bot_bool_def)
  show "unat (ucast (vsnprintf_int (Some t)) :: u64) = length t"
    using assms by (simp add: vsnprintf_int_def unsigned_ucast_eq unsigned_of_nat take_bit_nat_eq_self)
qed

lemma vsnprintf_buf_facts:
  assumes "0 < sz" "sz \<le> length b"
  shows "length (vsnprintf_buf b sz (Some t)) = length b"
    "take (min (sz - 1) (length t)) (vsnprintf_buf b sz (Some t)) = take (sz - 1) t"
    "vsnprintf_buf b sz (Some t) ! min (sz - 1) (length t) = 0"
    "drop sz (vsnprintf_buf b sz (Some t)) = drop sz b"
proof -
  let ?w = "take (sz - 1) t @ [0]"
  have fits: "0 + length ?w \<le> sz" using assms by simp
  show "length (vsnprintf_buf b sz (Some t)) = length b"
    unfolding vsnprintf_buf_def option.case by (rule length_overwrite) (use fits assms in linarith)
  show "take (min (sz - 1) (length t)) (vsnprintf_buf b sz (Some t)) = take (sz - 1) t"
    "vsnprintf_buf b sz (Some t) ! min (sz - 1) (length t) = 0"
    using assms by (auto simp: vsnprintf_buf_def overwrite_def nth_append min_def)
  show "drop sz (vsnprintf_buf b sz (Some t)) = drop sz b"
    unfolding vsnprintf_buf_def option.case by (rule drop_overwrite [OF _ fits]) simp
qed

lemma util_vformat_ok:
  assumes sz: "0 < sz" "sz \<le> length b" "sz < 2 ^ 64" and t: "length t < 2 ^ 31"
  shows "\<exists>b'. util_vformat (Some b) sz (Some t) = (of_nat (length (clipped_text sz t)), Some b') \<and>
      length b' = length b \<and> drop sz b' = drop sz b \<and>
      take (length (clipped_text sz t)) b' = clipped_text sz t \<and>
      b' ! length (clipped_text sz t) = 0"
proof -
  let ?v = "vsnprintf_buf b sz (Some t)"
  let ?x = "ucast (vsnprintf_int (Some t)) :: u64"
  note v = vsnprintf_buf_facts [OF sz(1,2), of t] and x = vsnprintf_int_ok [OF t]
  have xt: "?x = of_nat (length t)" by (metis x(2) of_nat_unat ucast_id)
  have run: "util_vformat (Some b) sz (Some t) =
      (if length t \<ge> sz
       then (of_nat (sz - 1), Some (if sz - 1 > 2 then overwrite ?v (sz - 1 - 3) (ascii ''...'') else ?v))
       else (?x, Some ?v))"
    using sz(1) x by (simp add: util_vformat_def Let_def)
  show ?thesis
  proof (cases "length t < sz")
    case True
    then have "min (sz - 1) (length t) = length t" "take (sz - 1) t = t" by simp_all
    with True show ?thesis using v run xt by (simp add: clipped_text_def)
  next
    case fits: False
    then have m: "min (sz - 1) (length t) = sz - 1" by simp
    show ?thesis
    proof (cases "sz > 3")
      case True
      let ?o = "overwrite ?v (sz - 4) (ascii ''...'')"
      have o: "length ?o = length b" using True sz(2) v(1) by simp
      have "take (sz - 1) ?o = take (sz - 4) ?v @ ascii ''...''"
        using True sz(2) v(1) by (simp add: overwrite_def)
      moreover have "take (sz - 4) ?v = take (sz - 4) t"
      proof -
        have "take (sz - 4) ?v = take (sz - 4) (take (sz - 1) ?v)" by (simp add: min_def)
        also have "\<dots> = take (sz - 4) (take (sz - 1) t)" using v(2) m by simp
        finally show ?thesis by (simp add: min_def)
      qed
      moreover have "?o ! (sz - 1) = 0"
      proof -
        have "?o ! (sz - 1) = ?v ! (sz - 1)"
          using True sz(2) v(1) by (intro nth_overwrite_outside) auto
        then show ?thesis using v(3) m by simp
      qed
      moreover have "drop sz ?o = drop sz b" using v(1,4) sz(2) True by simp
      moreover have "sz - 1 - 3 = sz - 4" "sz - 1 > 2" "length (clipped_text sz t) = sz - 1"
          "clipped_text sz t = take (sz - 4) t @ ascii ''...''"
        using True fits by (auto simp: clipped_text_def)
      ultimately show ?thesis using fits run o by simp
    next
      case False
      then have "\<not> sz - 1 > 2" by simp
      with False show ?thesis using v run fits m by (simp add: clipped_text_def)
    qed
  qed
qed

lemma util_vformat_fails:
  "0 < sz \<Longrightarrow> sz \<le> length b \<Longrightarrow> util_vformat (Some b) sz None = (0, Some (b[0 := 0]))"
  unfolding util_vformat_def vsnprintf_int_def vsnprintf_buf_def Let_def top_bit by simp

lemma util_vformat_no_room:
  "util_vformat None sz t = (0, None) \<or> util_vformat None sz t = (- 1, None)"
  by (simp add: util_vformat_def Let_def)

lemma util_text_store_spec:
  assumes "data \<noteq> []" "util_text_store data view = (e, n, data')"
  shows "length data' = length data" "n < length data" "take n data' = take n view"
    "data' ! n = 0" "e = None \<longleftrightarrow> n = length view" "n = util_clip view (length data - 1)"
proof -
  let ?n = "util_clip view (length data - 1)"
  let ?d = "if ?n \<noteq> 0 then overwrite data 0 (take ?n view) else data"
  have n: "n = ?n" and d: "data' = ?d[n := 0]" and e: "e = (if n < length view then Some EINVAL else None)"
    using assms(2) by (auto simp: util_text_store_def Let_def)
  have le: "?n \<le> length data - 1" "?n \<le> length view" by (rule util_clip_le)+
  have lt: "?n < length data" using le(1) assms(1) by (cases data) auto
  have len: "length ?d = length data" using le lt by (simp add: min_def)
  show "n = ?n" by (rule n)
  show "length data' = length data" using d len by simp
  show "n < length data" using lt n by simp
  show "data' ! n = 0" unfolding d n using len lt by simp
  show "e = None \<longleftrightarrow> n = length view" using e le(2) n by auto
  have "take ?n ?d = take ?n view"
    using le by (auto simp: overwrite_def min_def)
  then show "take n data' = take n view" unfolding d n by simp
qed

lemma util_text_printf_full:
  "length data - len < 2 \<Longrightarrow> util_text_printf len data fmt = (Some EINVAL, len, data)"
  by (simp add: util_text_printf_def)

lemma util_text_printf_ok:
  assumes "len + 2 \<le> length data" "length data < 2 ^ 32" "length t < 2 ^ 31"
  shows "\<exists>e data'. util_text_printf len data (Some t) =
      (e, len + length (clipped_text (length data - len) t), data') \<and>
      length data' = length data \<and>
      take (len + length (clipped_text (length data - len) t)) data' =
        take len data @ clipped_text (length data - len) t \<and>
      data' ! (len + length (clipped_text (length data - len) t)) = 0 \<and>
      (e = None \<longleftrightarrow> len + length (clipped_text (length data - len) t) < length data - 1)"
proof -
  let ?r = "length data - len" let ?c = "clipped_text ?r t"
  have r: "0 < ?r" "?r \<le> length (drop len data)" "?r < 2 ^ 64" using assms by auto
  from util_vformat_ok [OF r assms(3)] obtain b' where
    v: "util_vformat (Some (drop len data)) ?r (Some t) = (of_nat (length ?c), Some b')"
    and b': "length b' = length (drop len data)" "take (length ?c) b' = ?c" "b' ! length ?c = 0"
    by blast
  have c: "length ?c < ?r" using r(1) by (rule length_clipped_text)
  then have "unat (of_nat (length ?c) :: u64) = length ?c"
    using r(3) by (simp add: unsigned_of_nat take_bit_nat_eq_self)
  then have run: "util_text_printf len data (Some t) =
      (if len + length ?c < length data - 1 then None else Some EINVAL, len + length ?c,
       take len data @ b')"
  proof -
    have "\<not> ?r < 2" "length (take len data @ b') = length data" using assms(1) b'(1) by auto
    then show ?thesis
      unfolding util_text_printf_def Let_def v using \<open>unat (of_nat (length ?c) :: u64) = length ?c\<close>
      by simp
  qed
  show ?thesis unfolding run using assms(1) b' by (auto simp: nth_append)
qed

section \<open>Properties\<close>

text \<open>
  Walking a path gives its parts in order, with the empty ones and the dots skipped:
  a step that yields a part yields the first of them, with EINVAL exactly for a pair of
  dots, and a step that yields none has seen the whole path.
\<close>

theorem path_walk:
  assumes "util_path_next rest = (e, rest', part)"
  shows "path_parts rest = (if part = [] then [] else part # path_parts rest') \<and>
    (e = Some EINVAL \<longleftrightarrow> part = ascii ''..'') \<and> (e = None \<longleftrightarrow> part \<noteq> ascii ''..'')"
  using assms path_next_loop_eq [of rest rest' part]
  by (auto simp: util_path_next_def split: prod.splits if_splits)

theorem path_walk_witness:
  "util_path_next (ascii ''a/.//b'') = (None, ascii ''.//b'', ascii ''a'') \<and>
   path_parts (ascii ''a/.//b'') = ascii ''a'' # path_parts (ascii ''.//b'')"
proof -
  have e: "util_path_next (ascii ''a/.//b'') = (None, ascii ''.//b'', ascii ''a'')" by code_simp
  have "ascii ''a'' \<noteq> []" by (simp add: ascii_def)
  with e path_walk [OF e] show ?thesis by simp
qed

text \<open>
  An origin that is accepted as a prefix of a URL is a scheme \<open>http\<close> or \<open>https\<close> and a
  nonempty authority without user information: no at sign, and nothing of the path, the
  query or the fragment.
\<close>

theorem url_origin_is_scheme_and_host:
  assumes "util_url_origin url \<noteq> 0"
  shows "\<exists>scheme auth. take (util_url_origin url) url = scheme @ auth \<and> auth \<noteq> [] \<and>
      (scheme = ascii ''http://'' \<or> scheme = ascii ''https://'') \<and>
      set auth \<inter> set (ascii ''/?#@'') = {} \<and>
      (util_url_origin url = length url \<or> url ! util_url_origin url \<in> set (ascii ''/?#''))"
  using url_origin_spec [OF refl assms] by (auto simp: le_less)

theorem url_origin_is_scheme_and_host_witness:
  "take (util_url_origin (ascii ''http://a/b'')) (ascii ''http://a/b'') = ascii ''http://a''"
proof -
  have n: "util_url_origin (ascii ''http://a/b'') = 8" by code_simp
  obtain scheme auth where "take 8 (ascii ''http://a/b'') = scheme @ auth"
    using url_origin_is_scheme_and_host [of "ascii ''http://a/b''"] unfolding n by auto
  then show ?thesis unfolding n by (simp add: ascii_def)
qed

text \<open>
  Appending formatted text to a bounded text keeps the storage's size and the text before, adds
  the formatted text or, when it does not fit, the longest beginning of it that does with an
  ellipsis, ends it with a NUL inside the storage, and reports EINVAL exactly when the text
  is full.
\<close>

theorem text_printf_appends:
  assumes "len + 2 \<le> length data" "length data < 2 ^ 32" "length t < 2 ^ 31"
  shows "\<exists>e data' added. added = clipped_text (length data - len) t \<and>
      util_text_printf len data (Some t) = (e, len + length added, data') \<and>
      length data' = length data \<and>
      take (len + length added) data' = take len data @ added \<and>
      len + length added < length data \<and> data' ! (len + length added) = 0 \<and>
      (e = None \<longleftrightarrow> len + length added < length data - 1)"
  using util_text_printf_ok [OF assms] length_clipped_text [of "length data - len" t] assms(1)
  by auto

theorem text_printf_appends_witness:
  "\<exists>e data'. util_text_printf 1 (ascii ''ab______'') (Some (ascii ''0123456789'')) = (e, 7, data') \<and>
     take 7 data' = ascii ''a012...''"
proof -
  have c: "clipped_text (length (ascii ''ab______'') - 1) (ascii ''0123456789'') = ascii ''012...''"
    by (simp add: clipped_text_def ascii_def)
  have n: "1 + length (ascii ''012...'') = 7" by simp
  have t: "take 1 (ascii ''ab______'') @ ascii ''012...'' = ascii ''a012...''" by (simp add: ascii_def)
  have pre: "1 + 2 \<le> length (ascii ''ab______'')" "length (ascii ''ab______'') < 2 ^ 32"
    "length (ascii ''0123456789'') < 2 ^ 31"
    by (simp_all add: ascii_def)
  show ?thesis using text_printf_appends [OF pre] unfolding c by (metis n t)
qed

end
