(* ===== verification/Registry.thy ===== *)
theory Registry
  imports Util_Text "HOL-Library.Multiset"
begin

text \<open>
  The tools and the plugins that provide them (\<^verbatim>\<open>src/registry.c\<close>, \<^verbatim>\<open>src/registry.h\<close>).

  The array \<^verbatim>\<open>tools\<close> and its count \<^verbatim>\<open>n_tools\<close> are a list, as are \<^verbatim>\<open>plugins\<close> and
  \<^verbatim>\<open>n_plugins\<close>; that neither list is ever longer than its array is part of the invariant.  Loading a shared
  object (\<^verbatim>\<open>plugin_loaded_create()\<close>) is an argument: its outcome.  The lemmas show that names stay unique,
  that the tools roles can grant stay first with the ids they have, and that the arrays never overflow.
\<close>

definition TOOL_MAX :: nat where "TOOL_MAX = 128"

definition REGISTRY_GRANTED :: u32 where "REGISTRY_GRANTED = 1"

record tool =
  tl_name :: cstr_view
  tl_kind :: ref
  tl_data :: "ref option"
  tl_part :: nat

record registry_plugin =
  pl_plugin :: ref
  pl_loaded :: "ref option"

record registry =
  rg_tools :: "tool list"
  rg_plugins :: "registry_plugin list"
  rg_granted :: nat

definition registry_zero :: registry where
  "registry_zero = \<lparr>rg_tools = [], rg_plugins = [], rg_granted = 0\<rparr>"

text \<open>\<^verbatim>\<open>registry_fini()\<close>: the records of loaded plugins that it frees, and the registry.\<close>

definition registry_fini :: "registry \<Rightarrow> ref list \<times> registry" where
  "registry_fini reg = (concat (map (\<lambda>p. case pl_loaded p of None \<Rightarrow> [] | Some l \<Rightarrow> [l]) (rg_plugins reg)), registry_zero)"

fun find_loop :: "tool list \<Rightarrow> cstr_view \<Rightarrow> nat" where
  "find_loop [] name = 0"
| "find_loop (t # ts) name = (if cstr_view_equal (tl_name t) name then 0 else Suc (find_loop ts name))"

definition registry_find :: "registry \<Rightarrow> cstr_view \<Rightarrow> nat \<Rightarrow> nat" where
  "registry_find reg name n =
     (let fin = (if n < length (rg_tools reg) then n else length (rg_tools reg));
          k = find_loop (take fin (rg_tools reg)) name
      in if k < fin then k else n)"

text \<open>\<^verbatim>\<open>registry_names()\<close>, from the tool \<open>k\<close> on: the text is \<open>len\<close> bytes of \<open>data\<close>, 1024 bytes at first zero.\<close>

fun names_loop :: "nat \<Rightarrow> tool list \<Rightarrow> 128 word \<Rightarrow> nat \<times> bytes \<Rightarrow> nat \<times> bytes" where
  "names_loop k [] msk out = out"
| "names_loop k (t # ts) msk (len, data) =
     names_loop (Suc k) ts msk
       (if bit msk k then snd (util_text_printf len data (Some ((if len \<noteq> 0 then ascii '', '' else []) @ tl_name t)))
        else (len, data))"

definition registry_names :: "registry \<Rightarrow> 128 word \<Rightarrow> nat \<times> bytes" where
  "registry_names reg msk =
     (case names_loop 0 (rg_tools reg) msk (0, zeros 1024) of
        (len, data) \<Rightarrow> if len = 0 then snd (util_text_printf len data (Some (ascii ''none''))) else (len, data))"

fun part_loop :: "registry_plugin list \<Rightarrow> ref \<Rightarrow> nat" where
  "part_loop [] plugin = 0"
| "part_loop (p # ps) plugin = (if pl_plugin p = plugin then 0 else Suc (part_loop ps plugin))"

definition registry_part :: "registry \<Rightarrow> ref \<Rightarrow> nat \<times> registry" where
  "registry_part reg plugin =
     (let i = part_loop (rg_plugins reg) plugin
      in (i, if i = length (rg_plugins reg)
             then reg\<lparr>rg_plugins := rg_plugins reg @ [\<lparr>pl_plugin = plugin, pl_loaded = None\<rparr>]\<rparr> else reg))"

definition registry_add :: "registry \<Rightarrow> ref \<Rightarrow> tool \<Rightarrow> u32 \<Rightarrow> errno option \<times> registry" where
  "registry_add reg plugin t flags =
     (if length (rg_tools reg) = TOOL_MAX then (Some ENOSPC, reg)
      else if registry_find reg (tl_name t) (length (rg_tools reg)) < length (rg_tools reg) then (Some EEXIST, reg)
      else
        let k = length (rg_tools reg);
            (k, reg) = (if flags AND REGISTRY_GRANTED \<noteq> 0 then (rg_granted reg, reg\<lparr>rg_granted := rg_granted reg + 1\<rparr>) else (k, reg));
            (part, reg) = registry_part reg plugin
        in (None, reg\<lparr>rg_tools := take k (rg_tools reg) @ [t\<lparr>tl_part := part\<rparr>] @ drop k (rg_tools reg)\<rparr>))"

text \<open>The loop of \<^verbatim>\<open>registry_load()\<close> over the plugin's tools, each with its name in the manifest and its kind.\<close>

fun load_loop :: "registry \<Rightarrow> ref \<Rightarrow> (cstr_view \<times> ref) list \<Rightarrow> errno option \<times> registry" where
  "load_loop reg plugin [] = (None, reg)"
| "load_loop reg plugin ((name, kind) # ts) =
     (case registry_add reg plugin \<lparr>tl_name = name, tl_kind = kind, tl_data = None, tl_part = 0\<rparr> REGISTRY_GRANTED of
        (None, reg) \<Rightarrow> load_loop reg plugin ts
      | (Some e, reg) \<Rightarrow> (Some EINVAL, reg))"

text \<open>\<open>loaded\<close> is what \<^verbatim>\<open>plugin_loaded_create()\<close> gives: an error, or its record, the plugin and the plugin's tools.\<close>

definition registry_load :: "registry \<Rightarrow> errno + ref \<times> ref \<times> (cstr_view \<times> ref) list \<Rightarrow> errno option \<times> registry" where
  "registry_load reg loaded =
     (if length (rg_plugins reg) = TOOL_MAX then (Some EINVAL, reg)
      else
        case loaded of
          Inl e \<Rightarrow> (Some e, reg)
        | Inr (l, plugin, tools) \<Rightarrow>
            load_loop (reg\<lparr>rg_plugins := rg_plugins reg @ [\<lparr>pl_plugin = plugin, pl_loaded = Some l\<rparr>]\<rparr>) plugin tools)"

section \<open>Facts\<close>

definition tool_names :: "registry \<Rightarrow> cstr_view list" where
  "tool_names reg = map tl_name (rg_tools reg)"

text \<open>\<open>spare\<close> plugins have no tool yet: one while it is being loaded.\<close>

definition reg_ok :: "nat \<Rightarrow> registry \<Rightarrow> bool" where
  "reg_ok spare reg \<longleftrightarrow>
     distinct (tool_names reg) \<and> length (rg_tools reg) \<le> TOOL_MAX \<and> rg_granted reg \<le> length (rg_tools reg) \<and>
     length (rg_plugins reg) \<le> length (rg_tools reg) + spare \<and> length (rg_plugins reg) \<le> TOOL_MAX \<and>
     (\<forall>t \<in> set (rg_tools reg). tl_part t < length (rg_plugins reg))"

lemma find_loop_le: "find_loop ts name \<le> length ts"
  by (induction ts) simp_all

lemma find_loop_found: "find_loop ts name < length ts \<longleftrightarrow> name \<in> set (map tl_name ts)"
  by (induction ts) (auto simp: cstr_view_equal_iff)

lemma find_loop_at: "find_loop ts name < length ts \<Longrightarrow> tl_name (ts ! find_loop ts name) = name"
  by (induction ts) (auto simp: cstr_view_equal_iff split: if_splits)

lemma find_loop_first: "i < find_loop ts name \<Longrightarrow> tl_name (ts ! i) \<noteq> name"
proof (induction ts arbitrary: i)
  case (Cons t ts)
  then show ?case by (cases i) (auto simp: cstr_view_equal_iff split: if_splits)
qed simp

lemma part_loop_le: "part_loop ps plugin \<le> length ps"
  by (induction ps) simp_all

lemma part_loop_at: "part_loop ps plugin < length ps \<Longrightarrow> pl_plugin (ps ! part_loop ps plugin) = plugin"
  by (induction ps) (auto split: if_splits)

lemma part_loop_found: "part_loop ps plugin < length ps \<longleftrightarrow> plugin \<in> pl_plugin ` set ps"
  by (induction ps) auto

text \<open>Adding to a registry in which the plugin is known if a spare one is being loaded.\<close>

lemma registry_add_spec:
  assumes ok: "reg_ok spare reg" and known: "spare > 0 \<longrightarrow> plugin \<in> pl_plugin ` set (rg_plugins reg)"
    and a: "registry_add reg plugin t flags = (e, reg')"
  shows "case e of
      Some x \<Rightarrow> reg' = reg \<and> (x = ENOSPC \<and> length (rg_tools reg) = TOOL_MAX \<or> x = EEXIST \<and> tl_name t \<in> set (tool_names reg))
    | None \<Rightarrow> reg_ok (spare - 1) reg' \<and>
        (let k = (if flags AND REGISTRY_GRANTED \<noteq> 0 then rg_granted reg else length (rg_tools reg));
             part = tl_part (rg_tools reg' ! k)
         in rg_tools reg' = take k (rg_tools reg) @ [t\<lparr>tl_part := part\<rparr>] @ drop k (rg_tools reg) \<and>
            part < length (rg_plugins reg') \<and> pl_plugin (rg_plugins reg' ! part) = plugin \<and>
            rg_granted reg' = rg_granted reg + (if flags AND REGISTRY_GRANTED \<noteq> 0 then 1 else 0) \<and>
            (\<exists>new. rg_plugins reg' = rg_plugins reg @ new) \<and> tl_name t \<notin> set (tool_names reg))"
proof -
  let ?n = "length (rg_tools reg)"
  consider (full) "?n = TOOL_MAX" | (taken) "?n \<noteq> TOOL_MAX" "find_loop (rg_tools reg) (tl_name t) < ?n"
    | (fresh) "?n \<noteq> TOOL_MAX" "\<not> find_loop (rg_tools reg) (tl_name t) < ?n" by blast
  then show ?thesis
  proof cases
    case full
    then show ?thesis using a by (auto simp: registry_add_def)
  next
    case taken
    then have "e = Some EEXIST" "reg' = reg" using a by (auto simp: registry_add_def registry_find_def Let_def)
    moreover have "tl_name t \<in> set (tool_names reg)" using taken(2) find_loop_found [of "rg_tools reg" "tl_name t"] by (simp add: tool_names_def)
    ultimately show ?thesis by simp
  next
    case fresh
    have new: "tl_name t \<notin> set (tool_names reg)" using fresh(2) find_loop_found [of "rg_tools reg" "tl_name t"] by (simp add: tool_names_def)
    have nf: "\<not> registry_find reg (tl_name t) ?n < ?n" using fresh(2) by (simp add: registry_find_def Let_def)
    define k where "k = (if flags AND REGISTRY_GRANTED \<noteq> 0 then rg_granted reg else ?n)"
    define part where "part = part_loop (rg_plugins reg) plugin"
    define ps where "ps = (if part = length (rg_plugins reg) then rg_plugins reg @ [\<lparr>pl_plugin = plugin, pl_loaded = None\<rparr>] else rg_plugins reg)"
    define g where "g = rg_granted reg + (if flags AND REGISTRY_GRANTED \<noteq> 0 then 1 else 0)"
    define ts where "ts = take k (rg_tools reg) @ [t\<lparr>tl_part := part\<rparr>] @ drop k (rg_tools reg)"
    have res: "e = None" "rg_tools reg' = ts" "rg_plugins reg' = ps" "rg_granted reg' = g"
      using a unfolding registry_add_def if_not_P [OF fresh(1)] if_not_P [OF nf]
      by (auto simp: registry_part_def Let_def k_def part_def ps_def g_def ts_def split: if_splits)
    have k: "k \<le> ?n" using ok by (simp add: k_def reg_ok_def)
    have at: "ts ! k = t\<lparr>tl_part := part\<rparr>" using k by (simp add: ts_def nth_append)
    have lts: "length ts = Suc ?n" using k by (simp add: ts_def)
    have part: "part < length ps" "pl_plugin (ps ! part) = plugin"
      using part_loop_le [of "rg_plugins reg" plugin] part_loop_at [of "rg_plugins reg" plugin] by (auto simp: ps_def part_def)
    have n: "?n < TOOL_MAX" using fresh(1) ok by (simp add: reg_ok_def)
    have lps: "length ps \<le> Suc ?n + (spare - 1)" "length ps \<le> TOOL_MAX"
      using known part_loop_found [of "rg_plugins reg" plugin] ok n by (auto simp: ps_def part_def reg_ok_def)
    have "map tl_name ts = take k (tool_names reg) @ tl_name t # drop k (tool_names reg)"
      by (simp add: ts_def tool_names_def take_map drop_map)
    then have m: "mset (map tl_name ts) = mset (tl_name t # tool_names reg)"
      by (metis append_take_drop_id mset.simps(2) mset_append union_mset_add_mset_right)
    have "distinct (map tl_name ts)" using mset_eq_imp_distinct_iff [OF m] new ok by (simp add: reg_ok_def)
    moreover have "tl_part u < length ps" if "u \<in> set ts" for u
    proof -
      have "u = t\<lparr>tl_part := part\<rparr> \<or> u \<in> set (rg_tools reg)" using that by (auto simp: ts_def dest: in_set_takeD in_set_dropD)
      moreover have "length (rg_plugins reg) \<le> length ps" by (simp add: ps_def)
      ultimately show ?thesis using part(1) ok by (auto simp: reg_ok_def dest: less_le_trans)
    qed
    ultimately have "reg_ok (spare - 1) reg'"
      using ok lts lps n by (auto simp: reg_ok_def tool_names_def res g_def)
    moreover have "\<exists>new. ps = rg_plugins reg @ new" by (simp add: ps_def)
    ultimately show ?thesis unfolding res option.case Let_def k_def [symmetric]
      using at part new by (simp add: ts_def g_def)
  qed
qed

text \<open>The tools that stand at the place \<open>k\<close> in the registry and not in the one before, each with its name, kind and plugin.\<close>

definition tools_put :: "registry \<Rightarrow> registry \<Rightarrow> nat \<Rightarrow> ref \<Rightarrow> (cstr_view \<times> ref) list \<Rightarrow> bool" where
  "tools_put reg reg' k plugin ts \<longleftrightarrow>
     (\<exists>us. rg_tools reg' = take k (rg_tools reg) @ us @ drop k (rg_tools reg) \<and> map (\<lambda>u. (tl_name u, tl_kind u)) us = ts \<and>
        (\<forall>u \<in> set us. tl_data u = None \<and> tl_part u < length (rg_plugins reg') \<and> pl_plugin (rg_plugins reg' ! tl_part u) = plugin))"

lemma tools_put_Cons:
  assumes "rg_tools reg1 = take k (rg_tools reg) @ [u] @ drop k (rg_tools reg)" "k \<le> length (rg_tools reg)"
    "tl_data u = None" "tl_part u < length (rg_plugins reg1)" "pl_plugin (rg_plugins reg1 ! tl_part u) = plugin"
    "tools_put reg1 reg' (Suc k) plugin ts" "rg_plugins reg' = rg_plugins reg1 @ new"
  shows "tools_put reg reg' k plugin ((tl_name u, tl_kind u) # ts)"
proof -
  have k: "take (Suc k) (rg_tools reg1) = take k (rg_tools reg) @ [u]" "drop (Suc k) (rg_tools reg1) = drop k (rg_tools reg)"
    using assms(2) by (simp_all add: assms(1))
  obtain us where us: "rg_tools reg' = take (Suc k) (rg_tools reg1) @ us @ drop (Suc k) (rg_tools reg1)"
      "map (\<lambda>u. (tl_name u, tl_kind u)) us = ts"
      "\<forall>u \<in> set us. tl_data u = None \<and> tl_part u < length (rg_plugins reg') \<and> pl_plugin (rg_plugins reg' ! tl_part u) = plugin"
    using assms(6) by (auto simp: tools_put_def)
  then show ?thesis
    unfolding tools_put_def using assms(3-5,7) k by (intro exI [of _ "u # us"]) (simp add: nth_append)
qed

lemma load_loop_spec:
  "reg_ok spare reg \<Longrightarrow> spare \<le> 1 \<Longrightarrow> plugin \<in> pl_plugin ` set (rg_plugins reg) \<Longrightarrow> load_loop reg plugin ts = (e, reg') \<Longrightarrow>
     reg_ok spare reg' \<and> (\<exists>new. rg_plugins reg' = rg_plugins reg @ new) \<and> (e = None \<or> e = Some EINVAL) \<and>
     (e = None \<longrightarrow> (ts \<noteq> [] \<longrightarrow> reg_ok 0 reg') \<and> rg_granted reg' = rg_granted reg + length ts \<and>
        tools_put reg reg' (rg_granted reg) plugin ts \<and>
        tool_names reg' = take (rg_granted reg) (tool_names reg) @ map fst ts @ drop (rg_granted reg) (tool_names reg))"
proof (induction ts arbitrary: reg spare)
  case Nil
  then show ?case by (simp add: tools_put_def)
next
  case (Cons nk ts)
  obtain name kind where nk: "nk = (name, kind)" by (metis surj_pair)
  let ?t = "\<lparr>tl_name = name, tl_kind = kind, tl_data = None, tl_part = 0\<rparr>"
  obtain e1 reg1 where a: "registry_add reg plugin ?t REGISTRY_GRANTED = (e1, reg1)" by (metis surj_pair)
  note as = registry_add_spec [OF Cons.prems(1) impI [OF Cons.prems(3)] a]
  show ?case
  proof (cases e1)
    case (Some x)
    then have "e = Some EINVAL" "reg' = reg" using Cons.prems(4) nk a as by simp_all
    then show ?thesis using Cons.prems(1) by simp
  next
    case None
    have run: "load_loop reg1 plugin ts = (e, reg')" using Cons.prems(4) nk a None by simp
    have ok1: "reg_ok 0 reg1" using as None Cons.prems(2) by (simp add: Let_def)
    have gr: "REGISTRY_GRANTED AND REGISTRY_GRANTED \<noteq> 0" by (simp add: REGISTRY_GRANTED_def)
    have g: "rg_granted reg1 = Suc (rg_granted reg)" "\<exists>new. rg_plugins reg1 = rg_plugins reg @ new"
        "\<exists>part. rg_tools reg1 = take (rg_granted reg) (rg_tools reg) @ [?t\<lparr>tl_part := part\<rparr>] @ drop (rg_granted reg) (rg_tools reg) \<and>
          part < length (rg_plugins reg1) \<and> pl_plugin (rg_plugins reg1 ! part) = plugin"
      using as None unfolding option.case Let_def if_P [OF gr] by auto
    have le: "rg_granted reg \<le> length (tool_names reg)" using Cons.prems(1) by (simp add: reg_ok_def tool_names_def)
    have names: "tool_names reg1 = take (rg_granted reg) (tool_names reg) @ [name] @ drop (rg_granted reg) (tool_names reg)"
      using g(3) by (auto simp: tool_names_def take_map drop_map)
    have known: "plugin \<in> pl_plugin ` set (rg_plugins reg1)" using g(2) Cons.prems(3) by auto
    have ih: "reg_ok 0 reg' \<and> (\<exists>new. rg_plugins reg' = rg_plugins reg1 @ new) \<and> (e = None \<or> e = Some EINVAL) \<and>
        (e = None \<longrightarrow> (ts \<noteq> [] \<longrightarrow> reg_ok 0 reg') \<and> rg_granted reg' = rg_granted reg1 + length ts \<and>
          tools_put reg1 reg' (rg_granted reg1) plugin ts \<and>
          tool_names reg' = take (rg_granted reg1) (tool_names reg1) @ map fst ts @ drop (rg_granted reg1) (tool_names reg1))"
      by (rule Cons.IH [OF ok1 _ known run]) simp
    have "take (rg_granted reg1) (tool_names reg1) = take (rg_granted reg) (tool_names reg) @ [name]"
      "drop (rg_granted reg1) (tool_names reg1) = drop (rg_granted reg) (tool_names reg)"
      using le by (simp_all add: g(1) names)
    moreover have "reg_ok spare reg'" using ih by (auto simp: reg_ok_def)
    moreover have "tools_put reg reg' (rg_granted reg) plugin (nk # ts)" if "e = None"
    proof -
      obtain part new where p: "rg_tools reg1 = take (rg_granted reg) (rg_tools reg) @ [?t\<lparr>tl_part := part\<rparr>] @ drop (rg_granted reg) (rg_tools reg)"
          "part < length (rg_plugins reg1)" "pl_plugin (rg_plugins reg1 ! part) = plugin" "rg_plugins reg' = rg_plugins reg1 @ new"
        using g(3) ih by blast
      have "tools_put reg1 reg' (Suc (rg_granted reg)) plugin ts" using ih that g(1) by simp
      from tools_put_Cons [OF p(1) _ _ _ _ this p(4)] show ?thesis using le p(2,3) by (simp add: nk tool_names_def)
    qed
    ultimately show ?thesis using ih g(1,2) nk by auto
  qed
qed

lemma nth_names: "i < length (rg_tools reg) \<Longrightarrow> tool_names reg ! i = tl_name (rg_tools reg ! i)"
  by (simp add: tool_names_def)

lemma find_spec:
  assumes ok: "reg_ok spare reg" and n: "n \<le> length (rg_tools reg)"
  shows "registry_find reg name n \<le> n \<and>
    (registry_find reg name n < n \<longleftrightarrow> name \<in> set (take n (tool_names reg))) \<and>
    (\<forall>i < n. registry_find reg name n = i \<longleftrightarrow> tool_names reg ! i = name)"
proof -
  let ?k = "find_loop (take n (rg_tools reg)) name"
  have lt: "length (take n (rg_tools reg)) = n" using n by simp
  have r: "registry_find reg name n = ?k"
    using n find_loop_le [of "take n (rg_tools reg)" name] by (auto simp: registry_find_def Let_def)
  have in_iff: "?k < n \<longleftrightarrow> name \<in> set (take n (tool_names reg))"
    using find_loop_found [of "take n (rg_tools reg)" name] unfolding lt by (simp add: tool_names_def take_map)
  have at: "tool_names reg ! ?k = name" if "?k < n"
    using find_loop_at [of "take n (rg_tools reg)" name] that n by (simp add: nth_names)
  have "?k = i \<longleftrightarrow> tool_names reg ! i = name" if i: "i < n" for i
  proof
    assume "?k = i"
    then show "tool_names reg ! i = name" using at i by simp
  next
    assume e: "tool_names reg ! i = name"
    have "tool_names reg ! i \<in> set (take n (tool_names reg))" using i n by (auto simp: in_set_conv_nth tool_names_def)
    then have k: "?k < n" using in_iff e by simp
    have "i < length (tool_names reg)" "?k < length (tool_names reg)" using i k n by (simp_all add: tool_names_def)
    then show "?k = i" using at [OF k] e ok by (auto simp: reg_ok_def nth_eq_iff_index_eq)
  qed
  then show ?thesis unfolding r using in_iff find_loop_le [of "take n (rg_tools reg)" name] lt by simp
qed

section \<open>Properties\<close>

text \<open>
  \<^verbatim>\<open>registry_add()\<close> refuses a name that a tool has with \<^verbatim>\<open>EEXIST\<close> and the tool after the last with
  \<^verbatim>\<open>ENOSPC\<close>, and changes nothing then.  Otherwise the tool stands after those that roles can grant, or last; the tools
  that roles can grant keep their ids, no other tool changes, names stay unique, and the tool's plugin is the one given.  Both
  arrays stay within their size.
\<close>

theorem registry_add_outcomes:
  assumes "reg_ok 0 reg"
  shows "case registry_add reg plugin t flags of
      (Some x, reg') \<Rightarrow> reg' = reg \<and> (x = ENOSPC \<and> length (rg_tools reg) = TOOL_MAX \<or> x = EEXIST \<and> tl_name t \<in> set (tool_names reg))
    | (None, reg') \<Rightarrow> reg_ok 0 reg' \<and> (\<forall>i < rg_granted reg. rg_tools reg' ! i = rg_tools reg ! i) \<and>
        (\<exists>k part. rg_tools reg' = take k (rg_tools reg) @ [t\<lparr>tl_part := part\<rparr>] @ drop k (rg_tools reg) \<and>
          k = (if flags AND REGISTRY_GRANTED \<noteq> 0 then rg_granted reg else length (rg_tools reg)) \<and>
          rg_granted reg' = rg_granted reg + (if flags AND REGISTRY_GRANTED \<noteq> 0 then 1 else 0) \<and>
          part < length (rg_plugins reg') \<and> pl_plugin (rg_plugins reg' ! part) = plugin)"
proof -
  obtain e reg' where a: "registry_add reg plugin t flags = (e, reg')" by (metis surj_pair)
  have "\<not> 0 < (0 :: nat)" by simp
  then have none: "0 < (0 :: nat) \<longrightarrow> plugin \<in> pl_plugin ` set (rg_plugins reg)" by blast
  note s = registry_add_spec [OF assms none a]
  have g: "rg_granted reg \<le> length (rg_tools reg)" using assms by (simp add: reg_ok_def)
  show ?thesis
  proof (cases e)
    case (Some x)
    then show ?thesis using s by (simp add: a)
  next
    case None
    define k where "k = (if flags AND REGISTRY_GRANTED \<noteq> 0 then rg_granted reg else length (rg_tools reg))"
    obtain part where p: "rg_tools reg' = take k (rg_tools reg) @ [t\<lparr>tl_part := part\<rparr>] @ drop k (rg_tools reg)"
        "part < length (rg_plugins reg')" "pl_plugin (rg_plugins reg' ! part) = plugin" "reg_ok 0 reg'"
        "rg_granted reg' = rg_granted reg + (if flags AND REGISTRY_GRANTED \<noteq> 0 then 1 else 0)"
      using s None by (auto simp: Let_def k_def)
    have "k \<ge> rg_granted reg" "k \<le> length (rg_tools reg)" using g by (simp_all add: k_def)
    then have "\<forall>i < rg_granted reg. rg_tools reg' ! i = rg_tools reg ! i" by (auto simp: p(1) nth_append)
    then show ?thesis unfolding a prod.case None option.case using p k_def by blast
  qed
qed

theorem registry_add_outcomes_witness:
  "fst (registry_add registry_zero 7 \<lparr>tl_name = [97], tl_kind = 1, tl_data = None, tl_part = 0\<rparr> 1) = None \<and>
   reg_ok 0 (snd (registry_add registry_zero 7 \<lparr>tl_name = [97], tl_kind = 1, tl_data = None, tl_part = 0\<rparr> 1))"
proof -
  have ok: "reg_ok 0 registry_zero" by (simp add: reg_ok_def registry_zero_def tool_names_def)
  have e: "fst (registry_add registry_zero 7 \<lparr>tl_name = [97], tl_kind = 1, tl_data = None, tl_part = 0\<rparr> 1) = None"
    by code_simp
  then show ?thesis
    using registry_add_outcomes [OF ok, where plugin = 7 and t = "\<lparr>tl_name = [97], tl_kind = 1, tl_data = None, tl_part = 0\<rparr>" and flags = 1] by (auto split: prod.splits)
qed

text \<open>
  \<^verbatim>\<open>registry_find()\<close> gives the one id below its limit that has the name, and the limit if none has.
\<close>

theorem registry_finds_ids:
  assumes "reg_ok spare reg" "n \<le> length (rg_tools reg)"
  shows "registry_find reg name n \<le> n \<and> (registry_find reg name n < n \<longleftrightarrow> name \<in> set (take n (tool_names reg))) \<and>
    (\<forall>i < n. registry_find reg name n = i \<longleftrightarrow> tool_names reg ! i = name)"
  by (rule find_spec [OF assms])

theorem registry_finds_ids_witness:
  "registry_find \<lparr>rg_tools = [\<lparr>tl_name = [97], tl_kind = 1, tl_data = None, tl_part = 0\<rparr>, \<lparr>tl_name = [98], tl_kind = 1, tl_data = None, tl_part = 0\<rparr>],
     rg_plugins = [\<lparr>pl_plugin = 7, pl_loaded = None\<rparr>], rg_granted = 1\<rparr> [98] 2 = 1"
proof -
  let ?reg = "\<lparr>rg_tools = [\<lparr>tl_name = [97], tl_kind = 1, tl_data = None, tl_part = 0\<rparr>, \<lparr>tl_name = [98], tl_kind = 1, tl_data = None, tl_part = 0\<rparr>],
     rg_plugins = [\<lparr>pl_plugin = 7, pl_loaded = None\<rparr>], rg_granted = 1\<rparr>"
  have "reg_ok 0 ?reg" by (simp add: reg_ok_def tool_names_def TOOL_MAX_def)
  from registry_finds_ids [OF this, of 2 "[98]"] show ?thesis by (simp add: tool_names_def numeral_2_eq_2)
qed

text \<open>
  C40.  Loading a plugin adds its tools after those that roles can grant, in the order of its manifest, or fails; each has its name
  and kind, no data yet, and the plugin as its part, whose record the registry keeps after the plugins there.  The tools there do
  not change and keep their order, and those that roles can grant their ids.  However it ends, names are unique and the arrays stay within their
  size, with at most one plugin that has no tool.
\<close>

theorem registry_load_adds:
  assumes "reg_ok 0 reg" "\<And>l plugin ts. loaded = Inr (l, plugin, ts) \<Longrightarrow> ts \<noteq> []"
  shows "case registry_load reg loaded of (e, reg') \<Rightarrow>
    reg_ok 1 reg' \<and>
    (e = None \<longrightarrow> reg_ok 0 reg' \<and> (\<exists>l plugin ts. loaded = Inr (l, plugin, ts) \<and> rg_granted reg' = rg_granted reg + length ts \<and>
       tools_put reg reg' (rg_granted reg) plugin ts \<and>
       (\<exists>new. rg_plugins reg' = rg_plugins reg @ \<lparr>pl_plugin = plugin, pl_loaded = Some l\<rparr> # new) \<and>
       tool_names reg' = take (rg_granted reg) (tool_names reg) @ map fst ts @ drop (rg_granted reg) (tool_names reg)))"
proof (cases loaded)
  case (Inl x)
  moreover have "reg_ok 1 reg" using assms(1) by (simp add: reg_ok_def)
  ultimately show ?thesis by (simp add: registry_load_def)
next
  case (Inr r)
  obtain l plugin ts where r: "r = (l, plugin, ts)" by (metis surj_pair)
  have one: "reg_ok 1 reg" using assms(1) by (simp add: reg_ok_def)
  show ?thesis
  proof (cases "length (rg_plugins reg) = TOOL_MAX")
    case True
    then show ?thesis using one by (simp add: registry_load_def)
  next
    case False
    let ?reg = "reg\<lparr>rg_plugins := rg_plugins reg @ [\<lparr>pl_plugin = plugin, pl_loaded = Some l\<rparr>]\<rparr>"
    obtain e reg' where run: "load_loop ?reg plugin ts = (e, reg')" by (metis surj_pair)
    have ok: "reg_ok 1 ?reg" using assms(1) False by (auto simp: reg_ok_def tool_names_def less_Suc_eq)
    have "plugin \<in> pl_plugin ` set (rg_plugins ?reg)" by simp
    note s = load_loop_spec [OF ok order_refl this run]
    have "registry_load reg loaded = (e, reg')" using False Inr r run by (simp add: registry_load_def)
    moreover have "tool_names ?reg = tool_names reg" "tools_put ?reg reg' = tools_put reg reg'"
      by (simp_all add: tool_names_def tools_put_def fun_eq_iff)
    ultimately show ?thesis using s assms(2) Inr r by auto
  qed
qed

theorem registry_load_adds_witness:
  "case registry_load registry_zero (Inr (4, 9, [([97], 1), ([98], 2)])) of (e, reg') \<Rightarrow> e = None \<and> tool_names reg' = [[97], [98]]"
proof -
  have ok: "reg_ok 0 registry_zero" by (simp add: reg_ok_def registry_zero_def tool_names_def)
  have e: "fst (registry_load registry_zero (Inr (4, 9, [([97], 1), ([98], 2)]))) = None" by code_simp
  show ?thesis using registry_load_adds [OF ok, of "Inr (4, 9, [([97], 1), ([98], 2)])"] e
    by (auto simp: registry_zero_def tool_names_def split: prod.splits)
qed

end
