(* ===== verification/Subids.thy ===== *)
theory Subids
  imports Util_Io Json
begin

text \<open>
  Subordinate ids, whose users the policy does not let in (\<^verbatim>\<open>src/policy.c\<close>): reading the ranges of
  \<^verbatim>\<open>/etc/subuid\<close> and \<^verbatim>\<open>/etc/subgid\<close>, sorting and merging them, and searching them by bisection.

  A file is an argument: its lines and how reading it ends.  \<^verbatim>\<open>qsort()\<close> is a sort of the library.  The lemmas show that the merged
  ranges are apart and hold the ids of the lines and no others, that the search finds exactly those, and that lines that a
  system writes are read as they mean.
\<close>

record policy_range =
  rn_first :: u32
  rn_last :: u32

section \<open>Ranges of subordinate ids\<close>

text \<open>\<^verbatim>\<open>strtoull()\<close> of base 0, as C23 has it: the value, the number of bytes read, 0 if there is no number.\<close>

definition c_space :: "byte \<Rightarrow> bool" where
  "c_space c \<longleftrightarrow> c = 32 \<or> (c \<ge> 9 \<and> c \<le> 13)"

definition digit_of :: "byte \<Rightarrow> nat" where
  "digit_of c =
     (if c \<ge> 48 \<and> c \<le> 57 then unat c - 48 else if c \<ge> 97 \<and> c \<le> 122 then unat c - 87
      else if c \<ge> 65 \<and> c \<le> 90 then unat c - 55 else 36)"

definition number_prefix :: "bytes \<Rightarrow> nat \<times> nat" where
  "number_prefix u =
     (if length u > 2 \<and> u ! 0 = 48 \<and> (u ! 1 = 120 \<or> u ! 1 = 88) \<and> digit_of (u ! 2) < 16 then (16, 2)
      else if length u > 2 \<and> u ! 0 = 48 \<and> (u ! 1 = 98 \<or> u ! 1 = 66) \<and> digit_of (u ! 2) < 2 then (2, 2)
      else if u \<noteq> [] \<and> u ! 0 = 48 then (8, 0) else (10, 0))"

definition strtoull0 :: "bytes \<Rightarrow> nat \<times> nat" where
  "strtoull0 s =
     (let spaces = length (takeWhile c_space s);
          sign = (if length s > spaces \<and> s ! spaces \<in> {43, 45} then 1 else 0);
          u = drop (spaces + sign) s;
          (base, pre) = number_prefix u;
          ds = takeWhile (\<lambda>c. digit_of c < base) (drop pre u)
      in if ds = [] then (0, 0)
         else (foldl (\<lambda>v c. base * v + digit_of c) 0 ds, spaces + sign + pre + length ds))"

definition policy_range_number :: "bytes \<Rightarrow> (u64 \<times> bytes) option" where
  "policy_range_number s =
     (case strtoull0 s of
        (v, n) \<Rightarrow> if n = 0 \<or> v \<ge> 2 ^ 64 \<or> 45 \<in> set (take n s) then None else Some (of_nat v, drop n s))"

text \<open>\<open>line\<close> is a C string.\<close>

definition policy_range_parse :: "bytes \<Rightarrow> policy_range option" where
  "policy_range_parse line =
     (case dropWhile (\<lambda>c. c \<noteq> ch CHR '':'') line of
        [] \<Rightarrow> None
      | _ # s \<Rightarrow>
          case policy_range_number s of
            None \<Rightarrow> None
          | Some (start, s) \<Rightarrow>
              case s of
                [] \<Rightarrow> None
              | c # s \<Rightarrow>
                  if c \<noteq> ch CHR '':'' then None
                  else
                    case policy_range_number s of
                      None \<Rightarrow> None
                    | Some (cnt, s) \<Rightarrow>
                        if cnt = 0 \<or> start > 0xFFFFFFFF then None
                        else
                          let room = 0xFFFFFFFF - start
                          in Some \<lparr>rn_first = ucast start, rn_last = ucast (start + (if cnt - 1 < room then cnt - 1 else room))\<rparr>)"

text \<open>A file: it cannot be opened, or it has lines and reading ends with or without an error.\<close>

datatype subid_file = Not_opened errno | Lines "bytes list" "errno option"

text \<open>The loop that reads the lines, with the storage of the ranges for \<open>cap\<close> of them.\<close>

fun ranges_loop :: "allocs \<Rightarrow> u64 \<Rightarrow> policy_range list \<Rightarrow> bytes list \<Rightarrow> errno option \<times> policy_range list \<times> allocs" where
  "ranges_loop as cap rs [] = (None, rs, as)"
| "ranges_loop as cap rs (line # lines) =
     (case policy_range_parse (cstring line) of
        None \<Rightarrow> ranges_loop as cap rs lines
      | Some r \<Rightarrow>
          (case util_grow as cap (of_nat (length rs + 1)) 8 of
             (Some e, cap, as) \<Rightarrow> (Some e, rs, as)
           | (None, cap, as) \<Rightarrow> ranges_loop as cap (rs @ [r]) lines))"

text \<open>The loop that merges, in place: \<open>k\<close> is the last range kept and \<open>i\<close> the next to look at.\<close>

function merge_loop :: "policy_range list \<Rightarrow> nat \<Rightarrow> nat \<Rightarrow> policy_range list \<times> nat" where
  "merge_loop rs k i =
     (if i < length rs then
        if (ucast (rn_first (rs ! i)) :: u64) > ucast (rn_last (rs ! k)) + 1 then merge_loop (rs[k + 1 := rs ! i]) (k + 1) (i + 1)
        else if rn_last (rs ! i) > rn_last (rs ! k) then merge_loop (rs[k := (rs ! k)\<lparr>rn_last := rn_last (rs ! i)\<rparr>]) k (i + 1)
        else merge_loop rs k (i + 1)
      else (rs, k))"
  by pat_completeness auto
termination by (relation "measure (\<lambda>(rs, k, i). length rs - i)") auto

declare merge_loop.simps [simp del]

definition policy_build_ranges :: "allocs \<Rightarrow> subid_file \<Rightarrow> (errno + policy_range list) \<times> allocs" where
  "policy_build_ranges as f =
     (case f of
        Not_opened e \<Rightarrow> (if e = ENOENT then Inr [] else Inl e, as)
      | Lines lines err \<Rightarrow>
          (case ranges_loop as 0 [] lines of
             (e, rs, as) \<Rightarrow>
               let e = (if e = None then err else e)
               in if e \<noteq> None then (Inl (the e), as)
                  else
                    let rs = sort_key rn_first rs; n = length rs;
                        (rs, k) = merge_loop rs 0 1
                    in (Inr (take (if n \<noteq> 0 then k + 1 else 0) rs), as)))"

function have_loop :: "policy_range list \<Rightarrow> u32 \<Rightarrow> nat \<Rightarrow> nat \<Rightarrow> nat" where
  "have_loop rs k lo hi =
     (if lo < hi then
        let mid = lo + (hi - lo) div 2
        in if rn_last (rs ! mid) < k then have_loop rs k (mid + 1) hi else have_loop rs k lo mid
      else lo)"
  by pat_completeness auto
termination by (relation "measure (\<lambda>(rs, k, lo, hi). hi - lo)") auto

declare have_loop.simps [simp del]

definition policy_ranges_have :: "policy_range list \<Rightarrow> u32 \<Rightarrow> bool" where
  "policy_ranges_have rs k = (let lo = have_loop rs k 0 (length rs) in lo < length rs \<and> rn_first (rs ! lo) \<le> k)"

definition policy_number :: "cstr_view \<Rightarrow> u32 option" where
  "policy_number txt = (case util_number txt 0xFFFFFFFE of Inl e \<Rightarrow> None | Inr n \<Rightarrow> Some (ucast n))"

text \<open>\<open>file\<close> is what \<^verbatim>\<open>util_read_text()\<close> gives of the file: an error or its text.\<close>

definition policy_read_overflow :: "errno + bytes \<Rightarrow> errno option \<times> u32" where
  "policy_read_overflow file =
     (case file of
        Inl e \<Rightarrow> (Some e, 65534)
      | Inr txt \<Rightarrow>
          (case policy_number (takeWhile (\<lambda>c. c \<noteq> 10) (cstring txt)) of Some n \<Rightarrow> (None, n) | None \<Rightarrow> (Some EILSEQ, 65534)))"

section \<open>Facts: ranges\<close>

definition in_range :: "policy_range \<Rightarrow> u32 \<Rightarrow> bool" where
  "in_range r k \<longleftrightarrow> rn_first r \<le> k \<and> k \<le> rn_last r"

definition proper :: "policy_range list \<Rightarrow> bool" where
  "proper rs \<longleftrightarrow> (\<forall>r \<in> set rs. rn_first r \<le> rn_last r)"

text \<open>In order, with at least one id between a range and the next.\<close>

definition apart :: "policy_range list \<Rightarrow> bool" where
  "apart rs \<longleftrightarrow> proper rs \<and> sorted_wrt (\<lambda>a b. unat (rn_last a) + 1 < unat (rn_first b)) rs"

fun merged :: "policy_range \<Rightarrow> policy_range list \<Rightarrow> policy_range list" where
  "merged r [] = [r]"
| "merged r (x # xs) =
     (if unat (rn_first x) > unat (rn_last r) + 1 then r # merged x xs
      else if rn_last x > rn_last r then merged (r\<lparr>rn_last := rn_last x\<rparr>) xs
      else merged r xs)"

lemma gap_iff: "(ucast (a :: u32) :: u64) > ucast (b :: u32) + 1 \<longleftrightarrow> unat a > unat b + 1"
proof -
  have "unat b < 2 ^ 32" using unsigned_less [of b] by simp
  then have "unat (ucast b + 1 :: u64) = unat b + 1" by (simp add: unat_word_ariths unat_ucast_32)
  then show ?thesis by (simp add: word_less_nat_alt unat_ucast_32)
qed

lemma merge_loop_merged:
  "k < i \<Longrightarrow> i \<le> length rs \<Longrightarrow> merge_loop rs k i = (rs', k') \<Longrightarrow>
     k' < length rs' \<and> take (k' + 1) rs' = take k rs @ merged (rs ! k) (drop i rs)"
proof (induction rs k i rule: merge_loop.induct)
  case (1 rs k i)
  show ?case
  proof (cases "i < length rs")
    case False
    then have "rs' = rs" "k' = k" "drop i rs = []" using "1.prems" merge_loop.simps [of rs k i] by simp_all
    then show ?thesis using "1.prems" by (simp add: take_Suc_conv_app_nth)
  next
    case True
    have d: "drop i rs = rs ! i # drop (Suc i) rs" using True by (simp add: Cons_nth_drop_Suc)
    let ?gap = "(ucast (rn_first (rs ! i)) :: u64) > ucast (rn_last (rs ! k)) + 1"
    consider (gap) "?gap" | (grow) "\<not> ?gap" "rn_last (rs ! i) > rn_last (rs ! k)" | (stay) "\<not> ?gap" "\<not> rn_last (rs ! i) > rn_last (rs ! k)" by blast
    then show ?thesis
    proof cases
      case gap
      have run: "merge_loop (rs[k + 1 := rs ! i]) (k + 1) (i + 1) = (rs', k')"
        using "1.prems"(3) True gap by (subst (asm) merge_loop.simps) simp
      have "k' < length rs' \<and> take (k' + 1) rs' = take (k + 1) (rs[k + 1 := rs ! i]) @ merged (rs[k + 1 := rs ! i] ! (k + 1)) (drop (i + 1) (rs[k + 1 := rs ! i]))"
        by (rule "1.IH"(1) [OF True gap _ _ run]) (use "1.prems" True in simp_all)
      moreover have "take (k + 1) (rs[k + 1 := rs ! i]) = take k rs @ [rs ! k]" using "1.prems" True by (simp add: take_Suc_conv_app_nth)
      moreover have "rs[k + 1 := rs ! i] ! (k + 1) = rs ! i" "drop (i + 1) (rs[k + 1 := rs ! i]) = drop (Suc i) rs"
        using "1.prems" True by simp_all
      ultimately show ?thesis using gap unfolding gap_iff d by simp
    next
      case grow
      have run: "merge_loop (rs[k := (rs ! k)\<lparr>rn_last := rn_last (rs ! i)\<rparr>]) k (i + 1) = (rs', k')"
        using "1.prems"(3) True grow by (subst (asm) merge_loop.simps) simp
      have "k' < length rs' \<and> take (k' + 1) rs' = take k (rs[k := (rs ! k)\<lparr>rn_last := rn_last (rs ! i)\<rparr>]) @
          merged (rs[k := (rs ! k)\<lparr>rn_last := rn_last (rs ! i)\<rparr>] ! k) (drop (i + 1) (rs[k := (rs ! k)\<lparr>rn_last := rn_last (rs ! i)\<rparr>]))"
        by (rule "1.IH"(2) [OF True grow _ _ run]) (use "1.prems" True in simp_all)
      then show ?thesis using grow "1.prems" True unfolding gap_iff d by simp
    next
      case stay
      have run: "merge_loop rs k (i + 1) = (rs', k')" using "1.prems"(3) True stay by (subst (asm) merge_loop.simps) simp
      have "k' < length rs' \<and> take (k' + 1) rs' = take k rs @ merged (rs ! k) (drop (i + 1) rs)"
        by (rule "1.IH"(3) [OF True stay _ _ run]) (use "1.prems" True in simp_all)
      then show ?thesis using stay unfolding gap_iff d by simp
    qed
  qed
qed

lemma merged_facts:
  "sorted (map rn_first (r # rs)) \<Longrightarrow> proper (r # rs) \<Longrightarrow>
     apart (merged r rs) \<and> (\<forall>m \<in> set (merged r rs). rn_first r \<le> rn_first m) \<and>
     (\<forall>k. (\<exists>m \<in> set (merged r rs). in_range m k) \<longleftrightarrow> (\<exists>m \<in> set (r # rs). in_range m k))"
proof (induction r rs rule: merged.induct)
  case (1 r)
  then show ?case by (simp add: apart_def)
next
  case (2 r x xs)
  have s: "rn_first r \<le> rn_first x" "sorted (map rn_first (x # xs))" "proper (x # xs)" "rn_first r \<le> rn_last r" "rn_first x \<le> rn_last x"
      "\<forall>y \<in> set xs. rn_first r \<le> rn_first y"
    using "2.prems" by (auto simp: proper_def)
  show ?case
  proof (cases "unat (rn_first x) > unat (rn_last r) + 1")
    case True
    have ih: "apart (merged x xs) \<and> (\<forall>m \<in> set (merged x xs). rn_first x \<le> rn_first m) \<and>
        (\<forall>k. (\<exists>m \<in> set (merged x xs). in_range m k) \<longleftrightarrow> (\<exists>m \<in> set (x # xs). in_range m k))"
      by (rule "2.IH"(1) [OF True s(2,3)])
    have "unat (rn_last r) + 1 < unat (rn_first m)" if "m \<in> set (merged x xs)" for m
    proof -
      have "unat (rn_first x) \<le> unat (rn_first m)" using ih that by (simp add: word_le_nat_alt)
      then show ?thesis using True by linarith
    qed
    then have "apart (r # merged x xs)" using ih s(4) by (simp add: apart_def proper_def)
    moreover have "\<forall>m \<in> set (r # merged x xs). rn_first r \<le> rn_first m" using ih s(1) by (auto intro: order_trans)
    ultimately show ?thesis using True ih by auto
  next
    case near: False
    show ?thesis
    proof (cases "rn_last x > rn_last r")
      case True
      let ?r = "r\<lparr>rn_last := rn_last x\<rparr>"
      have a: "sorted (map rn_first (?r # xs))" "proper (?r # xs)" using s by (auto simp: proper_def)
      have ih: "apart (merged ?r xs) \<and> (\<forall>m \<in> set (merged ?r xs). rn_first ?r \<le> rn_first m) \<and>
          (\<forall>k. (\<exists>m \<in> set (merged ?r xs). in_range m k) \<longleftrightarrow> (\<exists>m \<in> set (?r # xs). in_range m k))"
        by (rule "2.IH"(2) [OF near True a])
      have "in_range ?r k \<longleftrightarrow> in_range r k \<or> in_range x k" for k
        using near True s(1,4) unfolding in_range_def word_le_nat_alt word_less_nat_alt by (auto simp del: unsigned_less)
      then show ?thesis using ih near True by auto
    next
      case False
      have a: "sorted (map rn_first (r # xs))" "proper (r # xs)" using s "2.prems" by (auto simp: proper_def)
      have ih: "apart (merged r xs) \<and> (\<forall>m \<in> set (merged r xs). rn_first r \<le> rn_first m) \<and>
          (\<forall>k. (\<exists>m \<in> set (merged r xs). in_range m k) \<longleftrightarrow> (\<exists>m \<in> set (r # xs). in_range m k))"
        by (rule "2.IH"(3) [OF near False a])
      have "in_range x k \<Longrightarrow> in_range r k" for k
        using False s(1) unfolding in_range_def word_le_nat_alt word_less_nat_alt by linarith
      then show ?thesis using ih near False by auto
    qed
  qed
qed

lemma have_loop_spec:
  "apart rs \<Longrightarrow> lo \<le> hi \<Longrightarrow> hi \<le> length rs \<Longrightarrow> (\<forall>j < lo. rn_last (rs ! j) < k) \<Longrightarrow> (hi < length rs \<longrightarrow> k \<le> rn_last (rs ! hi)) \<Longrightarrow>
     (let m = have_loop rs k lo hi in m \<le> length rs \<and> (\<forall>j < m. rn_last (rs ! j) < k) \<and> (m < length rs \<longrightarrow> k \<le> rn_last (rs ! m)))"
proof (induction rs k lo hi rule: have_loop.induct)
  case (1 rs k lo hi)
  show ?case
  proof (cases "lo < hi")
    case False
    then show ?thesis using "1.prems" by (subst have_loop.simps) simp
  next
    case True
    define mid where "mid = lo + (hi - lo) div 2"
    have mid: "lo \<le> mid" "mid < hi" "mid < length rs" using True "1.prems"(3) by (simp_all add: mid_def)
    show ?thesis
    proof (cases "rn_last (rs ! mid) < k")
      case below: True
      have "rn_last (rs ! j) < k" if "j < mid + 1" for j
      proof (cases "j = mid")
        case False
        then have j: "j < mid" using that by simp
        have "unat (rn_last (rs ! j)) + 1 < unat (rn_first (rs ! mid))" "rn_first (rs ! mid) \<le> rn_last (rs ! mid)"
          using "1.prems"(1) j mid(3) by (simp_all add: apart_def proper_def sorted_wrt_iff_nth_less)
        then show ?thesis using below unfolding word_less_nat_alt word_le_nat_alt by linarith
      qed (use below in simp)
      then show ?thesis using "1.IH"(1) [OF True mid_def below "1.prems"(1)] mid "1.prems" True below
        by (subst have_loop.simps) (simp add: mid_def [symmetric])
    next
      case False
      then show ?thesis using "1.IH"(2) [OF True mid_def False "1.prems"(1)] mid "1.prems" True
        by (subst have_loop.simps) (simp add: mid_def [symmetric])
    qed
  qed
qed

lemma ranges_have_iff:
  assumes "apart rs"
  shows "policy_ranges_have rs k \<longleftrightarrow> (\<exists>r \<in> set rs. in_range r k)"
proof -
  define m where "m = have_loop rs k 0 (length rs)"
  have m: "m \<le> length rs" "\<forall>j < m. rn_last (rs ! j) < k" "m < length rs \<longrightarrow> k \<le> rn_last (rs ! m)"
    using have_loop_spec [OF assms le0 order_refl] by (simp_all add: Let_def m_def)
  have "(\<exists>r \<in> set rs. in_range r k) \<longleftrightarrow> m < length rs \<and> rn_first (rs ! m) \<le> k"
  proof
    assume "\<exists>r \<in> set rs. in_range r k"
    then obtain j where j: "j < length rs" "in_range (rs ! j) k" by (auto simp: in_set_conv_nth)
    then have ge: "m \<le> j" using m(2) unfolding in_range_def by (meson not_le_imp_less leD)
    have "rn_first (rs ! m) \<le> k"
    proof (cases "m = j")
      case False
      then have "unat (rn_last (rs ! m)) + 1 < unat (rn_first (rs ! j))" using assms ge j(1) by (simp add: apart_def sorted_wrt_iff_nth_less)
      moreover have "k \<le> rn_last (rs ! m)" using m(3) ge j(1) by simp
      ultimately show ?thesis using j(2) unfolding in_range_def word_le_nat_alt by linarith
    qed (use j(2) in \<open>simp add: in_range_def\<close>)
    then show "m < length rs \<and> rn_first (rs ! m) \<le> k" using ge j(1) by simp
  qed (use m(3) in \<open>auto simp: in_range_def intro: bexI [OF _ nth_mem]\<close>)
  then show ?thesis by (simp add: policy_ranges_have_def Let_def m_def)
qed

lemma range_bounds:
  fixes start cnt :: u64
  assumes "start \<le> 0xFFFFFFFF" "cnt \<noteq> 0"
  defines "l \<equiv> start + (if cnt - 1 < 0xFFFFFFFF - start then cnt - 1 else 0xFFFFFFFF - start)"
  shows "unat (ucast start :: u32) = unat start" "unat (ucast l :: u32) = min (unat start + (unat cnt - 1)) 0xFFFFFFFF"
proof -
  have s: "unat start \<le> 0xFFFFFFFF" using assms(1) by (simp add: word_le_nat_alt)
  have c: "unat (cnt - 1) = unat cnt - 1" "unat cnt \<ge> 1" using assms(2) unat_eq_0 [of cnt] by (simp_all add: unat_minus_one)
  have d: "unat (0xFFFFFFFF - start :: u64) = 0xFFFFFFFF - unat start" using assms(1) by (simp add: unat_sub)
  have m: "unat (if cnt - 1 < 0xFFFFFFFF - start then cnt - 1 else 0xFFFFFFFF - start :: u64) = min (unat cnt - 1) (0xFFFFFFFF - unat start)"
    using c d by (auto simp: word_less_nat_alt min_def)
  have "unat start + min (unat cnt - 1) (0xFFFFFFFF - unat start) \<le> 0xFFFFFFFF" using s by linarith
  then have l: "unat l = unat start + min (unat cnt - 1) (0xFFFFFFFF - unat start)"
    unfolding l_def unat_word_ariths(1) m by simp
  have down: "unat (ucast x :: u32) = unat x" if "unat x \<le> 0xFFFFFFFF" for x :: u64
    using that by (simp add: unsigned_ucast_eq unsigned_take_bit_eq take_bit_nat_eq_self)
  show "unat (ucast start :: u32) = unat start" using down s by blast
  have "unat l \<le> 0xFFFFFFFF" unfolding l using s by linarith
  then show "unat (ucast l :: u32) = min (unat start + (unat cnt - 1)) 0xFFFFFFFF" using down l s by (auto simp: min_def)
qed

lemma parse_proper:
  assumes "policy_range_parse line = Some r"
  shows "rn_first r \<le> rn_last r"
proof -
  obtain start cnt :: u64 where "\<not> (cnt = 0 \<or> start > 0xFFFFFFFF)"
      "r = \<lparr>rn_first = ucast start, rn_last = ucast (start + (if cnt - 1 < 0xFFFFFFFF - start then cnt - 1 else 0xFFFFFFFF - start))\<rparr>"
    using assms by (auto simp: policy_range_parse_def Let_def split: list.splits option.splits prod.splits if_splits)
  then show ?thesis using range_bounds [of start cnt] unsigned_less [of start] by (simp add: word_le_nat_alt not_less)
qed

lemma ranges_loop_parsed:
  "ranges_loop as cap rs lines = (None, rs', as') \<Longrightarrow> rs' = rs @ List.map_filter (\<lambda>line. policy_range_parse (cstring line)) lines"
proof (induction as cap rs lines rule: ranges_loop.induct)
  case (2 as cap rs line lines)
  then show ?case by (auto simp: map_filter_simps split: option.splits prod.splits)
qed (simp add: map_filter_simps)

fun subid_lines :: "subid_file \<Rightarrow> bytes list" where
  "subid_lines (Not_opened e) = []"
| "subid_lines (Lines lines err) = lines"

definition subordinate :: "subid_file \<Rightarrow> u32 \<Rightarrow> bool" where
  "subordinate f k \<longleftrightarrow> (\<exists>line \<in> set (subid_lines f). \<exists>r. policy_range_parse (cstring line) = Some r \<and> in_range r k)"

lemma build_ranges_spec:
  assumes b: "policy_build_ranges as f = (Inr rs, as')"
  shows "apart rs \<and> (\<forall>k. policy_ranges_have rs k \<longleftrightarrow> subordinate f k)"
proof (cases f)
  case (Not_opened e)
  then have "rs = []" using b by (auto simp: policy_build_ranges_def split: if_splits)
  moreover have "apart []" by (simp add: apart_def proper_def)
  ultimately show ?thesis using ranges_have_iff [of "[]"] Not_opened by (simp add: subordinate_def)
next
  case (Lines lines err)
  obtain e got as1 where l: "ranges_loop as 0 [] lines = (e, got, as1)" by (metis surj_pair)
  define sr where "sr = sort_key rn_first got"
  obtain ms k where m: "merge_loop sr 0 1 = (ms, k)" by (metis surj_pair)
  have ne: "got = [] \<longleftrightarrow> sr = []" unfolding sr_def by (metis length_0_conv length_sort)
  have e: "e = None" and rs: "rs = take (if got \<noteq> [] then k + 1 else 0) ms"
    using b Lines l m ne by (auto simp: policy_build_ranges_def Let_def sr_def split: if_splits option.splits)
  have got: "got = List.map_filter (\<lambda>line. policy_range_parse (cstring line)) lines" using ranges_loop_parsed [OF l [unfolded e]] by simp
  have all: "(\<exists>r \<in> set sr. in_range r k) \<longleftrightarrow> subordinate f k" for k
    by (simp add: sr_def got Lines subordinate_def map_filter_def) (auto, blast)
  have sorted: "sorted (map rn_first sr)" by (simp add: sr_def)
  have proper: "proper sr" using parse_proper by (auto simp: sr_def got proper_def map_filter_def)
  show ?thesis
  proof (cases sr)
    case Nil
    then have "rs = []" using rs ne by simp
    moreover have "apart []" by (simp add: apart_def proper_def)
    ultimately show ?thesis using ranges_have_iff [of "[]"] all Nil by simp
  next
    case (Cons r ss)
    have "k < length ms \<and> take (k + 1) ms = take 0 sr @ merged (sr ! 0) (drop 1 sr)"
      by (rule merge_loop_merged [OF _ _ m]) (simp_all add: Cons)
    then have "rs = merged r ss" using rs ne Cons by simp
    then show ?thesis using merged_facts [of r ss] sorted proper all ranges_have_iff [of rs] Cons by simp
  qed
qed

section \<open>Facts: reading a line of subordinate ids\<close>

lemma digit_of_digit: "is_digit c \<Longrightarrow> digit_of c = unat (c - ch CHR ''0'')"
  by (auto simp: is_digit_def digit_of_def unat_sub)

lemma digit_of_10: "digit_of c < 10 \<longleftrightarrow> is_digit c"
proof -
  have "unat c < 256" using unsigned_less [of c, where ?'a = nat] by simp
  then show ?thesis by (auto simp: is_digit_def digit_of_def word_le_nat_alt)
qed

lemma dec_fold: "list_all is_digit ds \<Longrightarrow> foldl (\<lambda>v c. 10 * v + digit_of c) n ds = foldl dec_step n ds"
  by (induction ds arbitrary: n) (simp_all add: digit_of_digit dec_step_def mult.commute)

lemma dec_fold_bound: "list_all is_digit ds \<Longrightarrow> foldl dec_step v ds < (v + 1) * 10 ^ length ds"
proof (induction ds arbitrary: v)
  case (Cons c ds)
  have "foldl dec_step (dec_step v c) ds < (dec_step v c + 1) * 10 ^ length ds" using Cons by simp
  also have "\<dots> \<le> ((v + 1) * 10) * 10 ^ length ds"
    using digit_value [of c] Cons.prems by (intro mult_right_mono) (simp_all add: dec_step_def)
  finally show ?case by (simp add: algebra_simps)
qed simp

text \<open>No decimal number but 0 starts with a zero.\<close>

lemma decimal_head:
  "util_decimal n \<noteq> [] \<and> (hd (util_decimal n) = 48 \<longrightarrow> util_decimal n = [48])"
proof -
  obtain ds where ds: "util_decimal n = ds" "list_all is_digit ds" "ds \<noteq> []" "dec_val ds = unat n" "10 ^ (length ds - 1) \<le> max 1 (unat n)"
    using decimal_loop_spec [of n "[]"] by (auto simp: util_decimal_def)
  have "tl ds = []" if z: "hd ds = 48"
  proof (rule ccontr)
    assume t: "tl ds \<noteq> []"
    have c: "ds = 48 # tl ds" using z ds(3) by (metis list.collapse)
    have "unat n = foldl dec_step 0 (tl ds)" using ds(4) by (subst (asm) c) (simp add: dec_val_def dec_step_def)
    also have "\<dots> < 10 ^ length (tl ds)"
    proof -
      have "list_all is_digit (tl ds)" using ds(2) by (subst (asm) c) simp
      then show ?thesis using dec_fold_bound [of "tl ds" 0] by simp
    qed
    finally have "unat n < 10 ^ (length ds - 1)" by simp
    moreover have "1 < (10::nat) ^ (length ds - 1)"
    proof (rule one_less_power)
      show "0 < length ds - 1" using t by (metis length_greater_0_conv length_tl)
    qed simp
    ultimately show False using ds(5) by simp
  qed
  then show ?thesis using ds(1,3) by (metis list.collapse)
qed

lemma digit_facts: "is_digit c \<Longrightarrow> \<not> c_space c \<and> c \<noteq> 43 \<and> c \<noteq> 45 \<and> c \<noteq> 58"
  by (auto simp: is_digit_def c_space_def word_le_nat_alt)

lemma strtoull_decimal:
  assumes rest: "rest = [] \<or> digit_of (hd rest) \<ge> 36"
  shows "strtoull0 (util_decimal n @ rest) = (unat n, length (util_decimal n))"
proof -
  let ?ds = "util_decimal n"
  have d: "list_all is_digit ?ds" "?ds \<noteq> []" "dec_val ?ds = unat n" using util_decimal_facts [of n] by simp_all
  obtain c cs where c: "?ds = c # cs" using d(2) by (cases ?ds) auto
  have fc: "is_digit c" using d(1) c by simp
  have tw: "takeWhile (\<lambda>c. digit_of c < base) (?ds @ rest) = ?ds" if "\<forall>x \<in> set ?ds. digit_of x < base" "base \<le> 36" for base
    using that rest by (cases rest) (simp_all add: takeWhile_append2)
  have pre: "number_prefix (?ds @ rest) = (if c = 48 then (8, 0) else (10, 0))"
  proof (cases "c = 48")
    case True
    then have one: "?ds = [48]" using decimal_head [of n] c by simp
    have "digit_of 120 = 33" "digit_of 88 = 33" "digit_of 98 = 11" "digit_of 66 = 11" by (simp_all add: digit_of_def)
    then have "rest = [] \<or> (hd rest \<noteq> 120 \<and> hd rest \<noteq> 88 \<and> hd rest \<noteq> 98 \<and> hd rest \<noteq> 66)" using rest by auto
    then show ?thesis using True by (cases rest) (auto simp: number_prefix_def one)
  next
    case False
    then show ?thesis by (simp add: number_prefix_def c)
  qed
  have base: "takeWhile (\<lambda>x. digit_of x < fst (number_prefix (?ds @ rest))) (?ds @ rest) = ?ds \<and>
      foldl (\<lambda>v x. fst (number_prefix (?ds @ rest)) * v + digit_of x) 0 ?ds = unat n"
  proof (cases "c = 48")
    case True
    then have one: "?ds = [48]" using decimal_head [of n] c by simp
    have z: "digit_of 48 = 0" by (simp add: digit_of_def)
    have "takeWhile (\<lambda>x. digit_of x < 8) (?ds @ rest) = ?ds" by (rule tw) (simp_all add: one z)
    moreover have "unat n = 0" using d(3) unfolding one by (simp add: dec_val_def dec_step_def)
    ultimately show ?thesis unfolding pre using True by (simp add: one z)
  next
    case False
    have "takeWhile (\<lambda>x. digit_of x < 10) (?ds @ rest) = ?ds" by (rule tw) (use d(1) in \<open>auto simp: digit_of_10 list_all_iff\<close>)
    then show ?thesis unfolding pre using False dec_fold [OF d(1), of 0] d(3) by (simp add: dec_val_def)
  qed
  have start: "takeWhile c_space (?ds @ rest) = []" "(?ds @ rest) ! 0 \<notin> {43, 45}" using digit_facts [OF fc] by (simp_all add: c)
  have len: "snd (number_prefix (?ds @ rest)) = 0" unfolding pre by simp
  show ?thesis
    unfolding strtoull0_def Let_def start(1) list.size add_0 drop_0
    using start(2) base len d(2) by (auto simp: split_beta)
qed

lemma range_number_decimal:
  assumes "rest = [] \<or> digit_of (hd rest) \<ge> 36"
  shows "policy_range_number (util_decimal n @ rest) = Some (n, rest)"
proof -
  have "unat n < 2 ^ 64" using unsigned_less [of n, where ?'a = nat] by simp
  moreover have "45 \<notin> set (util_decimal n)" using util_decimal_facts(1) [of n] digit_facts by (auto simp: list_all_iff)
  moreover have "util_decimal n \<noteq> []" using util_decimal_facts(2) .
  ultimately show ?thesis unfolding policy_range_number_def strtoull_decimal [OF assms] by simp
qed

lemma line_decimal:
  assumes "ch CHR '':'' \<notin> set owner" "start \<le> 0xFFFFFFFF" "cnt \<noteq> 0" "rest = [] \<or> digit_of (hd rest) \<ge> 36"
  shows "\<exists>r. policy_range_parse (owner @ ch CHR '':'' # util_decimal start @ ch CHR '':'' # util_decimal cnt @ rest) = Some r \<and>
    unat (rn_first r) = unat start \<and> unat (rn_last r) = min (unat start + (unat cnt - 1)) 0xFFFFFFFF"
proof -
  have d: "dropWhile (\<lambda>c. c \<noteq> ch CHR '':'') (owner @ ch CHR '':'' # s) = ch CHR '':'' # s" for s
    using assms(1) by (induction owner) auto
  have colon: "digit_of (hd (ch CHR '':'' # s)) \<ge> 36" for s by (simp add: digit_of_def)
  have n1: "policy_range_number (util_decimal start @ ch CHR '':'' # util_decimal cnt @ rest) = Some (start, ch CHR '':'' # util_decimal cnt @ rest)"
    by (rule range_number_decimal [OF disjI2 [OF colon]])
  note n2 = range_number_decimal [OF assms(4), of cnt]
  have c: "\<not> (cnt = 0 \<or> start > 0xFFFFFFFF)" using assms(2,3) by simp
  show ?thesis
    unfolding policy_range_parse_def d list.case n1 option.case prod.case n2 if_not_P [OF c] Let_def
    using range_bounds [OF assms(2,3)] by simp
qed

lemma util_grow_error: "util_grow as cap n sz = (Some e, cap', as') \<Longrightarrow> e = ENOMEM"
  by (auto simp: util_grow_def split: prod.splits if_splits)

lemma ranges_loop_error: "ranges_loop as cap rs lines = (Some e, rs', as') \<Longrightarrow> e = ENOMEM"
proof (induction as cap rs lines rule: ranges_loop.induct)
  case (2 as cap rs line lines)
  then show ?case by (auto dest: util_grow_error split: option.splits prod.splits)
qed simp

lemma build_ranges_error:
  assumes b: "policy_build_ranges as f = (Inl e, as')"
  shows "e = ENOMEM \<or> (f = Not_opened e \<and> e \<noteq> ENOENT) \<or> (\<exists>lines. f = Lines lines (Some e))"
proof (cases f)
  case (Not_opened x)
  then show ?thesis using b by (auto simp: policy_build_ranges_def split: if_splits)
next
  case (Lines lines err)
  obtain e1 got as1 where l: "ranges_loop as 0 [] lines = (e1, got, as1)" by (metis surj_pair)
  have "e1 = None \<or> e1 = Some ENOMEM" using ranges_loop_error [of as 0 "[]" lines] l by (cases e1) auto
  then show ?thesis using b l Lines by (auto simp: policy_build_ranges_def Let_def split: if_splits prod.splits option.splits)
qed

section \<open>Properties\<close>

text \<open>
  C38.  Whatever the lines of the file and their order, the ranges read from it are apart, and searching them finds exactly the ids
  of its lines; a file that is not there has none.  Otherwise the error is why it was not opened or not read, or
  \<^verbatim>\<open>ENOMEM\<close>.
\<close>

theorem ranges_are_those_of_lines:
  "case policy_build_ranges as f of
     (Inr rs, as') \<Rightarrow> apart rs \<and> (\<forall>k. policy_ranges_have rs k \<longleftrightarrow> subordinate f k)
   | (Inl e, as') \<Rightarrow> e = ENOMEM \<or> (f = Not_opened e \<and> e \<noteq> ENOENT) \<or> (\<exists>lines. f = Lines lines (Some e))"
proof -
  obtain r as' where b: "policy_build_ranges as f = (r, as')" by (metis surj_pair)
  show ?thesis
  proof (cases r)
    case (Inr rs)
    then show ?thesis using build_ranges_spec [of as f rs as'] b by simp
  next
    case (Inl e)
    have "e = ENOMEM \<or> (f = Not_opened e \<and> e \<noteq> ENOENT) \<or> (\<exists>lines. f = Lines lines (Some e))"
      using build_ranges_error [of as f e as'] b Inl by simp
    then show ?thesis unfolding b Inl by simp
  qed
qed

text \<open>
  C39.  A line that names an owner, a first id and a count in decimal, with anything after it that is no digit or letter, is read as
  the range of so many ids from the first, which ends at the last id at most.
\<close>

theorem subid_line_round_trip:
  assumes "ch CHR '':'' \<notin> set owner" "start \<le> 0xFFFFFFFF" "cnt \<noteq> 0" "rest = [] \<or> digit_of (hd rest) \<ge> 36"
  shows "\<exists>r. policy_range_parse (owner @ ch CHR '':'' # util_decimal start @ ch CHR '':'' # util_decimal cnt @ rest) = Some r \<and>
    unat (rn_first r) = unat start \<and> unat (rn_last r) = min (unat start + (unat cnt - 1)) 0xFFFFFFFF \<and>
    (\<forall>k. in_range r k \<longleftrightarrow> unat start \<le> unat k \<and> unat k < unat start + unat cnt)"
proof -
  obtain r where r: "policy_range_parse (owner @ ch CHR '':'' # util_decimal start @ ch CHR '':'' # util_decimal cnt @ rest) = Some r"
    "unat (rn_first r) = unat start" "unat (rn_last r) = min (unat start + (unat cnt - 1)) 0xFFFFFFFF"
    using line_decimal [OF assms] by blast
  have "unat cnt \<noteq> 0" using assms(3) by (simp add: unat_eq_0)
  then have "in_range r k \<longleftrightarrow> unat start \<le> unat k \<and> unat k < unat start + unat cnt" for k
  proof -
    have "unat k \<le> 0xFFFFFFFF" using unsigned_less [of k, where ?'a = nat] by simp
    then show ?thesis using \<open>unat cnt \<noteq> 0\<close> unfolding in_range_def word_le_nat_alt r(2,3) by (auto simp: min_def)
  qed
  then show ?thesis using r by blast
qed

theorem subid_line_round_trip_witness:
  "\<exists>r. policy_range_parse (ascii ''joe'' @ ch CHR '':'' # util_decimal 100000 @ ch CHR '':'' # util_decimal 65536 @ [10]) = Some r \<and>
    unat (rn_last r) = 165535"
  using subid_line_round_trip [of "ascii ''joe''" 100000 65536 "[10]"] by (auto simp: ascii_def digit_of_def)

text \<open>A number after \<open>0b\<close> is binary.\<close>

lemma subid_line_binary: "policy_range_parse (ascii ''joe:0b11:1'') = Some \<lparr>rn_first = 3, rn_last = 3\<rparr>"
  by (simp add: policy_range_parse_def policy_range_number_def strtoull0_def number_prefix_def digit_of_def c_space_def ascii_def Let_def)

end
