(* ===== verification/Policy.thy ===== *)
theory Policy
  imports Registry Subids Buf "HOL-Library.List_Lexorder"
begin

text \<open>
  Identities and roles: who a client is and what it may see and do (\<^verbatim>\<open>src/policy.c\<close>, \<^verbatim>\<open>src/policy.h\<close>).

  The policy, its roles, tokens, groups and ranges are records and lists; the arrays inside the policy's block of storage are
  lists of the entries that are filled.  What the functions ask of others is the record \<open>os\<close>: the environment, SHA-256,
  HMAC-SHA-256 and the groups of the system; the files are arguments.  The texts that say why a file is wrong are not modelled,
  nor is the log.  \<^verbatim>\<open>qsort()\<close> is a sort of the library and \<^verbatim>\<open>bsearch()\<close> finds an equal element of a
  sorted array, if there is one.
\<close>

section \<open>Types\<close>

definition DIGEST :: nat where "DIGEST = 32"
definition POLICY_NAME :: nat where "POLICY_NAME = 64"
definition POLICY_KEY :: nat where "POLICY_KEY = 32"
definition POLICY_WHO :: nat where "POLICY_WHO = 27 + POLICY_NAME"
definition POLICY_ENTRY_MAX :: nat where "POLICY_ENTRY_MAX = 67108864"
definition POLICY_IDENTITY :: u64 where "POLICY_IDENTITY = push_bit 62 1"

definition POLICY_LOOPBACK :: nat where "POLICY_LOOPBACK = 0"
definition POLICY_REMOTE :: nat where "POLICY_REMOTE = 1"
definition POLICY_UNIX :: nat where "POLICY_UNIX = 2"
definition POLICY_KINDS :: nat where "POLICY_KINDS = 3"

definition policy_parts :: "cstr_view list" where
  "policy_parts = [ascii ''roles'', ascii ''identities'', ascii ''unix-groups'', ascii ''anonymous'']"

definition policy_kinds :: "cstr_view list" where
  "policy_kinds = [ascii ''loopback'', ascii ''remote'', ascii ''unix'']"

type_synonym tool_mask = "128 word"

record policy_token =
  tk_digest :: bytes
  tk_who :: cstr_view
  tk_principal :: u64
  tk_role :: nat

record policy_gid =
  pg_gid :: u32
  pg_role :: u32

record policy_peer =
  pe_groups :: "u32 list"
  pe_principal :: u64

record policy_grant =
  gr_tools :: tool_mask
  gr_upstream :: tool_mask
  gr_who :: cstr_view
  gr_principal :: u64
  gr_metrics :: bool

text \<open>A role that is \<^verbatim>\<open>POLICY_NO_ROLE\<close> is \<open>None\<close>.\<close>

record policy =
  po_allowed :: tool_mask
  po_refs :: u64
  po_tokens :: "policy_token list"
  po_roles :: "policy_grant list"
  po_groups :: "policy_gid list"
  po_subuids :: "policy_range list"
  po_anonymous :: "nat option list"
  po_strangers :: "cstr_view list"
  po_key :: bytes
  po_overflow_uid :: u32
  po_overflow_gid :: u32
  po_overflow_errors :: "errno option \<times> errno option"
  po_unix_token :: bool

datatype policy_admit = POLICY_ADMIT | POLICY_UNMAPPED | POLICY_SUBORDINATE

datatype policy_verdict = POLICY_GRANTED policy_grant | POLICY_REFUSED | POLICY_UNIX_TOKEN

text \<open>What \<^verbatim>\<open>getgrnam_r()\<close> says for storage of some size.\<close>

datatype group_entry = Group_range | Group_error errno | Group_none | Group u32

record os =
  os_getenv :: "bytes \<Rightarrow> bytes option"
  os_sha256 :: "bytes \<Rightarrow> bytes"
  os_hmac :: "bytes \<Rightarrow> bytes \<Rightarrow> bytes option"
  os_getgrnam :: "bytes \<Rightarrow> nat \<Rightarrow> group_entry"
  os_junk :: "nat \<Rightarrow> bytes"

text \<open>\<open>pb_names\<close> counts the bytes of names written; \<open>pb_nss\<close> is on the thread \<open>pb_thread\<close>.\<close>

record policy_build =
  pb_upstream :: tool_mask
  pb_p :: policy
  pb_roles :: json
  pb_reg :: registry
  pb_names :: nat
  pb_subgids :: "policy_range list"
  pb_nss :: buf
  pb_thread :: thread

section \<open>Names and principals\<close>

definition name_byte :: "byte \<Rightarrow> bool" where
  "name_byte c \<longleftrightarrow> (c \<ge> 65 \<and> c \<le> 90) \<or> (c \<ge> 97 \<and> c \<le> 122) \<or> (c \<ge> 48 \<and> c \<le> 57) \<or> c \<in> set (ascii ''_.@-'')"

definition policy_name_len :: "bytes \<Rightarrow> nat" where
  "policy_name_len name =
     (let n = length (takeWhile name_byte name) in if n \<le> POLICY_NAME \<and> n = length name then n else 0)"

definition policy_principal_of :: "os \<Rightarrow> policy \<Rightarrow> u64 \<Rightarrow> bytes \<Rightarrow> errno + u64" where
  "policy_principal_of w p tag txt =
     (case os_hmac w (po_key p) txt of
        None \<Rightarrow> Inl EIO
      | Some md \<Rightarrow>
          if length md < 8 then Inl EIO
          else
            let h = util_be_get (take 8 md);
                h = (h AND (POLICY_IDENTITY - 1)) OR tag
            in Inr (h + of_bool (h = 0)))"

definition policy_principal_identity :: "os \<Rightarrow> policy \<Rightarrow> cstr_view \<Rightarrow> errno + u64" where
  "policy_principal_identity w p who =
     (let pre = ascii ''identity ''
      in if \<not> cstr_view_starts who pre \<or> length who > length pre + POLICY_NAME then Inl EINVAL
         else policy_principal_of w p POLICY_IDENTITY (who[length pre - 1 := ch CHR '':'']))"

text \<open>The loop of \<^verbatim>\<open>policy_principals()\<close>: the error and the tokens.\<close>

fun principals_loop :: "os \<Rightarrow> policy \<Rightarrow> policy_token list \<Rightarrow> errno option \<times> policy_token list" where
  "principals_loop w p [] = (None, [])"
| "principals_loop w p (t # ts) =
     (case policy_principal_identity w p (tk_who t) of
        Inl e \<Rightarrow> (Some e, t # ts)
      | Inr h \<Rightarrow> (case principals_loop w p ts of (e, ts) \<Rightarrow> (e, t\<lparr>tk_principal := h\<rparr> # ts)))"

definition policy_principals :: "os \<Rightarrow> policy \<Rightarrow> errno option \<times> policy" where
  "policy_principals w p = (case principals_loop w p (po_tokens p) of (e, ts) \<Rightarrow> (e, p\<lparr>po_tokens := ts\<rparr>))"

section \<open>Building a policy\<close>

text \<open>A loop that ends at the first error.\<close>

fun each :: "('a \<Rightarrow> 's \<Rightarrow> errno option \<times> 's) \<Rightarrow> 'a list \<Rightarrow> 's \<Rightarrow> errno option \<times> 's" where
  "each f [] s = (None, s)"
| "each f (x # xs) s = (case f x s of (None, s) \<Rightarrow> each f xs s | (Some e, s) \<Rightarrow> (Some e, s))"

definition policy_build_who :: "cstr_view list \<Rightarrow> policy_build \<Rightarrow> cstr_view \<times> policy_build" where
  "policy_build_who parts b = (concat parts, b\<lparr>pb_names := pb_names b + length (concat parts)\<rparr>)"

fun key_index :: "(bytes \<times> json) list \<Rightarrow> bytes \<Rightarrow> nat option" where
  "key_index [] s = None"
| "key_index (m # ms) s = (if fst m = s then Some 0 else map_option Suc (key_index ms s))"

definition policy_build_role :: "policy_build \<Rightarrow> json \<Rightarrow> nat option" where
  "policy_build_role b name =
     (case jb_view name of None \<Rightarrow> None | Some s \<Rightarrow> key_index (json_members (pb_roles b)) (cstring s))"

definition policy_token_add :: "policy \<Rightarrow> bytes \<Rightarrow> cstr_view \<Rightarrow> nat \<Rightarrow> policy" where
  "policy_token_add p digest who role =
     p\<lparr>po_tokens := po_tokens p @ [\<lparr>tk_digest = digest, tk_who = who, tk_principal = 0, tk_role = role\<rparr>]\<rparr>"

text \<open>The loop around \<^verbatim>\<open>getgrnam_r()\<close>: its result, or the error of the storage.\<close>

partial_function (option) nss_loop :: "os \<Rightarrow> bytes \<Rightarrow> nat \<Rightarrow> policy_build \<Rightarrow> ((errno + group_entry) \<times> policy_build) option" where
  "nss_loop w name least b =
     (case buf_reserve (os_junk w) (pb_thread b) (pb_nss b) least POLICY_ENTRY_MAX of
        (e, room, th, nss) \<Rightarrow>
          let b = b\<lparr>pb_thread := th, pb_nss := nss\<rparr>
          in case e of
               Some e \<Rightarrow> Some (Inl e, b)
             | None \<Rightarrow>
                 (case os_getgrnam w name (snd (the room)) of
                    Group_range \<Rightarrow> nss_loop w name (snd (the room) + 1) b
                  | g \<Rightarrow> Some (Inr g, b)))"

definition policy_build_gid :: "os \<Rightarrow> policy_build \<Rightarrow> bytes \<Rightarrow> ((errno + u32) \<times> policy_build) option" where
  "policy_build_gid w b name =
     (case policy_number name of
        Some gid \<Rightarrow> Some (Inr gid, b)
      | None \<Rightarrow>
          map_option (\<lambda>(r, b).
            (case r of
               Inl e \<Rightarrow> if e = ENOMEM then Inl ENOMEM else Inl EINVAL
             | Inr (Group_error e) \<Rightarrow> if e = ENOMEM then Inl ENOMEM else Inl EINVAL
             | Inr (Group gid) \<Rightarrow> Inr gid
             | Inr _ \<Rightarrow> Inl EINVAL, b)) (nss_loop w name 1 b))"

definition hex_byte :: "byte \<Rightarrow> byte \<Rightarrow> byte" where
  "hex_byte hi lo = ucast (push_bit 4 (util_hex_digit hi) OR util_hex_digit lo)"

fun hex_bytes :: "bytes \<Rightarrow> bytes" where
  "hex_bytes (hi # lo # cs) = hex_byte hi lo # hex_bytes cs"
| "hex_bytes _ = []"

definition policy_build_token :: "os \<Rightarrow> json \<Rightarrow> errno + bytes" where
  "policy_build_token w spec =
     (case map_option cstring (jb_view spec) of
        None \<Rightarrow> Inl EINVAL
      | Some s \<Rightarrow>
          if cstr_view_starts s (ascii ''sha256:'') then
            let hex = drop 7 s; n = length (takeWhile (\<lambda>c. digit_of c < 16) hex)
            in if n \<noteq> 2 * DIGEST \<or> n \<noteq> length hex then Inl EINVAL else Inr (hex_bytes hex)
          else if \<not> cstr_view_starts s (ascii ''env:'') then Inl EINVAL
          else
            let name = drop 4 s
            in if name = [] then Inl EINVAL
               else
                 case os_getenv w name of
                   None \<Rightarrow> Inl EINVAL
                 | Some token \<Rightarrow> if token = [] then Inl EINVAL else Inr (os_sha256 w token))"

definition policy_all :: "registry \<Rightarrow> tool_mask" where
  "policy_all reg = (if rg_granted reg < TOOL_MAX then push_bit (rg_granted reg) 1 - 1 else NOT 0)"

definition build_tool :: "policy_build \<Rightarrow> bool \<Rightarrow> json \<Rightarrow> policy_grant \<Rightarrow> errno option \<times> policy_grant" where
  "build_tool b up v r =
     (let offered = (if up then pb_upstream b else NOT 0);
          k = registry_find (pb_reg b) (case jb_view v of None \<Rightarrow> [] | Some s \<Rightarrow> s) (rg_granted (pb_reg b))
      in if k = rg_granted (pb_reg b) \<or> \<not> bit offered k then (Some EINVAL, r)
         else (None, if up then r\<lparr>gr_upstream := gr_upstream r OR push_bit k 1\<rparr> else r\<lparr>gr_tools := gr_tools r OR push_bit k 1\<rparr>))"

definition policy_build_tools :: "policy_build \<Rightarrow> json \<Rightarrow> bool \<Rightarrow> policy_grant \<Rightarrow> errno option \<times> policy_grant" where
  "policy_build_tools b lst up r = (if \<not> json_is_array lst then (Some EINVAL, r) else each (build_tool b up) (json_elements lst) r)"

definition policy_build_member :: "policy_build \<Rightarrow> bytes \<times> json \<Rightarrow> policy_grant \<Rightarrow> errno option \<times> policy_grant" where
  "policy_build_member b m r =
     (case m of (key, val) \<Rightarrow>
      let up = (key = ascii ''upstream'')
      in if up \<or> key = ascii ''tools'' then policy_build_tools b val up r
         else if key \<noteq> ascii ''metrics'' then (Some EINVAL, r)
         else (case val of JBool v \<Rightarrow> (None, r\<lparr>gr_metrics := v\<rparr>) | _ \<Rightarrow> (Some EINVAL, r)))"

definition grant_zero :: policy_grant where
  "grant_zero = \<lparr>gr_tools = 0, gr_upstream = 0, gr_who = [], gr_principal = 0, gr_metrics = False\<rparr>"

definition policy_build_role_one :: "bytes \<times> json \<Rightarrow> policy_build \<Rightarrow> errno option \<times> policy_build" where
  "policy_build_role_one m b =
     (case m of (name, members) \<Rightarrow>
      let len = policy_name_len name
      in if len = 0 then (Some EINVAL, b)
         else if \<not> json_is_object members then (Some EINVAL, b)
         else
           case policy_build_who [ascii ''role '', take len name] b of
             (who, b) \<Rightarrow>
               case each (policy_build_member b) (json_members members) (grant_zero\<lparr>gr_who := who\<rparr>) of
                 (e, r) \<Rightarrow>
                   if e \<noteq> None then (e, b)
                   else
                     let r = (if \<not> fst (json_get_ex members (ascii ''upstream'')) then r\<lparr>gr_upstream := gr_tools r\<rparr> else r)
                     in (None, b\<lparr>pb_p := (pb_p b)\<lparr>po_roles := po_roles (pb_p b) @ [r]\<rparr>\<rparr>))"

definition policy_build_roles :: "policy_build \<Rightarrow> errno option \<times> policy_build" where
  "policy_build_roles b =
     (if pb_roles b = JNull then (None, b)
      else if \<not> json_is_object (pb_roles b) then (Some EINVAL, b)
      else each policy_build_role_one (json_members (pb_roles b)) b)"

text \<open>The loop over an identity's members: whether all are known, the role and the tokens.\<close>

fun identity_loop :: "(bytes \<times> json) list \<Rightarrow> json \<times> json \<Rightarrow> bool \<times> json \<times> json" where
  "identity_loop [] (role, tokens) = (True, role, tokens)"
| "identity_loop ((key, val) # ms) (role, tokens) =
     (if key = ascii ''role'' then identity_loop ms (val, tokens)
      else if key = ascii ''tokens'' then identity_loop ms (role, val)
      else (False, role, tokens))"

definition build_token_add :: "os \<Rightarrow> cstr_view \<Rightarrow> nat \<Rightarrow> json \<Rightarrow> policy_build \<Rightarrow> errno option \<times> policy_build" where
  "build_token_add w name r spec b =
     (case policy_build_token w spec of
        Inl e \<Rightarrow> (Some e, b)
      | Inr digest \<Rightarrow> (None, b\<lparr>pb_p := policy_token_add (pb_p b) digest name r\<rparr>))"

definition policy_build_identity :: "os \<Rightarrow> bytes \<times> json \<Rightarrow> policy_build \<Rightarrow> errno option \<times> policy_build" where
  "policy_build_identity w m b =
     (case m of (who, idv) \<Rightarrow>
      let len = policy_name_len who
      in if len = 0 then (Some EINVAL, b)
         else if \<not> json_is_object idv then (Some EINVAL, b)
         else
           case identity_loop (json_members idv) (JNull, JNull) of
             (known, role, tokens) \<Rightarrow>
               if \<not> known then (Some EINVAL, b)
               else
                 case policy_build_role b role of
                   None \<Rightarrow> (Some EINVAL, b)
                 | Some r \<Rightarrow>
                     if tokens \<noteq> JNull \<and> \<not> json_is_array tokens then (Some EINVAL, b)
                     else if jb_len tokens = 0 then (Some EINVAL, b)
                     else
                       case policy_build_who [ascii ''identity '', take len who] b of
                         (name, b) \<Rightarrow> each (build_token_add w name r) (json_elements tokens) b)"

fun same_neighbours :: "policy_token list \<Rightarrow> bool" where
  "same_neighbours (s # t # ts) = (tk_digest s = tk_digest t \<or> same_neighbours (t # ts))"
| "same_neighbours _ = False"

definition policy_build_identities :: "os \<Rightarrow> json \<Rightarrow> policy_build \<Rightarrow> errno option \<times> policy_build" where
  "policy_build_identities w identities b =
     (if identities = JNull then (None, b)
      else if \<not> json_is_object identities then (Some EINVAL, b)
      else
        case each (policy_build_identity w) (json_members identities) b of
          (Some e, b) \<Rightarrow> (Some e, b)
        | (None, b) \<Rightarrow>
            let ts = sort_key tk_digest (po_tokens (pb_p b));
                b = b\<lparr>pb_p := (pb_p b)\<lparr>po_tokens := ts\<rparr>\<rparr>
            in (if same_neighbours ts then Some EINVAL else None, b))"

fun groups_loop :: "os \<Rightarrow> (bytes \<times> json) list \<Rightarrow> policy_build \<Rightarrow> (errno option \<times> policy_build) option" where
  "groups_loop w [] b = Some (None, b)"
| "groups_loop w ((key, val) # ms) b =
     (case policy_build_role b val of
        None \<Rightarrow> Some (Some EINVAL, b)
      | Some r \<Rightarrow>
          (case policy_build_gid w b key of
             None \<Rightarrow> None
           | Some (Inl e, b) \<Rightarrow> Some (Some e, b)
           | Some (Inr gid, b) \<Rightarrow>
               if gid = po_overflow_gid (pb_p b) then Some (Some EINVAL, b)
               else if policy_ranges_have (pb_subgids b) gid then Some (Some EINVAL, b)
               else groups_loop w ms
                      (b\<lparr>pb_p := (pb_p b)\<lparr>po_groups := po_groups (pb_p b) @ [\<lparr>pg_gid = gid, pg_role = of_nat r\<rparr>]\<rparr>\<rparr>)))"

definition policy_build_groups :: "os \<Rightarrow> json \<Rightarrow> policy_build \<Rightarrow> (errno option \<times> policy_build) option" where
  "policy_build_groups w groups b =
     (if groups = JNull then Some (None, b)
      else if \<not> json_is_object groups then Some (Some EINVAL, b)
      else groups_loop w (json_members groups) b)"

definition policy_build_kind :: "policy_build \<Rightarrow> json \<Rightarrow> errno option \<times> nat option" where
  "policy_build_kind b val =
     (if val = JNull then (None, None)
      else case policy_build_role b val of None \<Rightarrow> (Some EINVAL, None) | Some r \<Rightarrow> (None, Some r))"

definition build_stranger :: "bytes \<times> json \<Rightarrow> policy_build \<Rightarrow> errno option \<times> policy_build" where
  "build_stranger m b =
     (case m of (key, val) \<Rightarrow>
      let k = cstr_view_index policy_kinds key
      in if k = POLICY_KINDS then (Some EINVAL, b)
         else
           case policy_build_kind b val of
             (e, role) \<Rightarrow>
               let b = b\<lparr>pb_p := (pb_p b)\<lparr>po_anonymous := (po_anonymous (pb_p b))[k := role]\<rparr>\<rparr>
               in if e \<noteq> None then (e, b)
                  else
                    case role of
                      None \<Rightarrow> (None, b)
                    | Some r \<Rightarrow>
                        case policy_build_who [ascii ''anonymous '', policy_kinds ! k, ascii '' ('', gr_who (po_roles (pb_p b) ! r), ascii '')''] b of
                          (who, b) \<Rightarrow> (None, b\<lparr>pb_p := (pb_p b)\<lparr>po_strangers := (po_strangers (pb_p b))[k := who]\<rparr>\<rparr>))"

definition policy_build_anonymous :: "json \<Rightarrow> policy_build \<Rightarrow> errno option \<times> policy_build" where
  "policy_build_anonymous anonymous b =
     (if anonymous = JNull then (None, b)
      else if \<not> json_is_object anonymous then (Some EINVAL, b)
      else each build_stranger (json_members anonymous) b)"

definition policy_build_file :: "os \<Rightarrow> json \<Rightarrow> json \<Rightarrow> json \<Rightarrow> policy_build \<Rightarrow> (errno option \<times> policy_build) option" where
  "policy_build_file w identities groups anonymous b =
     (case policy_build_roles b of
        (Some e, b) \<Rightarrow> Some (Some e, b)
      | (None, b) \<Rightarrow>
          case policy_build_identities w identities b of
            (Some e, b) \<Rightarrow> Some (Some e, b)
          | (None, b) \<Rightarrow>
              case policy_build_groups w groups b of
                None \<Rightarrow> None
              | Some (Some e, b) \<Rightarrow> Some (Some e, b)
              | Some (None, b) \<Rightarrow> Some (policy_build_anonymous anonymous b))"

definition policy_build_own :: "os \<Rightarrow> bytes option \<Rightarrow> policy_build \<Rightarrow> policy_build" where
  "policy_build_own w token b =
     (let p = pb_p b;
          all' = policy_all (pb_reg b);
          p = p\<lparr>po_roles := [grant_zero\<lparr>gr_tools := all', gr_upstream := all', gr_metrics := True\<rparr>,
                             grant_zero\<lparr>gr_tools := all', gr_upstream := all'\<rparr>]\<rparr>
      in case token of
           None \<Rightarrow> b\<lparr>pb_p := p\<lparr>po_anonymous := [Some 0, Some 1, Some 0]\<rparr>\<rparr>
         | Some t \<Rightarrow> b\<lparr>pb_p := (policy_token_add p (os_sha256 w t) (ascii ''identity ASKAI_TOKEN'') 0)\<lparr>po_unix_token := True\<rparr>\<rparr>)"

definition policy_members :: "json \<Rightarrow> nat" where
  "policy_members obj = (if json_is_object obj then length (json_members obj) else 0)"

text \<open>\<^verbatim>\<open>policy_file()\<close>: whether any of the parts is in the file, and the parts.\<close>

definition policy_file :: "json \<Rightarrow> bool \<times> json list" where
  "policy_file file = (list_ex (\<lambda>part. fst (json_get_ex file part)) policy_parts, map (\<lambda>part. snd (json_get_ex file part)) policy_parts)"

definition policy_member :: "bytes \<Rightarrow> bool" where
  "policy_member key \<longleftrightarrow> cstr_view_index policy_parts key < length policy_parts"

text \<open>The token of the environment that askai's own policy asks for.\<close>

definition own_token :: "os \<Rightarrow> bytes option" where
  "own_token w = (case os_getenv w (ascii ''ASKAI_TOKEN'') of Some t \<Rightarrow> if t \<noteq> [] then Some t else None | None \<Rightarrow> None)"

text \<open>The room in the policy's block: for tokens, roles, groups and the bytes of names.\<close>

definition policy_room :: "os \<Rightarrow> json \<Rightarrow> nat \<times> nat \<times> nat \<times> nat" where
  "policy_room w file =
     (let (from_file, of') = policy_file file;
          n_groups = policy_members (of' ! 2);
          n_ids = policy_members (of' ! 1);
          n_roles = (if from_file then policy_members (of' ! 0) else 2);
          n_names = (if from_file then n_roles * (5 + POLICY_NAME) + n_ids * (9 + POLICY_NAME) + POLICY_KINDS * (POLICY_WHO - 1) else 0);
          n_tokens = (if from_file then 0 else of_bool (own_token w \<noteq> None));
          n_tokens = n_tokens + (if n_ids \<noteq> 0 then sum_list (map (\<lambda>m. jb_len (jb_get (snd m) (ascii ''tokens''))) (json_members (of' ! 1))) else 0)
      in (n_tokens, n_roles, n_groups, n_names))"

definition policy_zero :: policy where
  "policy_zero = \<lparr>po_allowed = 0, po_refs = 1, po_tokens = [], po_roles = [], po_groups = [], po_subuids = [],
     po_anonymous = replicate POLICY_KINDS None, po_strangers = replicate POLICY_KINDS [], po_key = zeros POLICY_KEY,
     po_overflow_uid = 0, po_overflow_gid = 0, po_overflow_errors = (None, None), po_unix_token = False\<rparr>"

record policy_files =
  pf_subuid :: subid_file
  pf_subgid :: subid_file
  pf_overflow_uid :: "errno + bytes"
  pf_overflow_gid :: "errno + bytes"

text \<open>What \<^verbatim>\<open>policy_create()\<close> begins with: the policy and its builder.\<close>

definition build_begin :: "policy_files \<Rightarrow> thread \<Rightarrow> json \<Rightarrow> registry \<Rightarrow> tool_mask \<Rightarrow> policy_range list \<Rightarrow> policy_range list \<Rightarrow> policy_build" where
  "build_begin fs th file reg upstream subuids subgids =
     (let (e1, uid) = policy_read_overflow (pf_overflow_uid fs);
          (e2, gid) = policy_read_overflow (pf_overflow_gid fs)
      in \<lparr>pb_upstream = upstream,
          pb_p = policy_zero\<lparr>po_subuids := subuids, po_overflow_uid := uid, po_overflow_gid := gid, po_overflow_errors := (e1, e2)\<rparr>,
          pb_roles = snd (policy_file file) ! 0, pb_reg = reg, pb_names = 0, pb_subgids = subgids, pb_nss = buf_zero, pb_thread = th\<rparr>)"

text \<open>
  \<^verbatim>\<open>policy_create()\<close>, where \<open>as\<close> are the outcomes of the allocations of the ranges and the block: the policy and the thread.
\<close>

definition policy_create ::
    "os \<Rightarrow> policy_files \<Rightarrow> allocs \<Rightarrow> thread \<Rightarrow> json \<Rightarrow> registry \<Rightarrow> tool_mask \<Rightarrow> tool_mask \<Rightarrow> ((errno + policy) \<times> thread) option"
where
  "policy_create w fs as th file reg allowed upstream =
     (let (from_file, of') = policy_file file
      in case policy_build_ranges as (pf_subuid fs) of
           (Inl e, as) \<Rightarrow> Some (Inl e, th)
         | (Inr subuids, as) \<Rightarrow>
             case (if policy_members (of' ! 2) \<noteq> 0 then policy_build_ranges as (pf_subgid fs) else (Inr [], as)) of
               (Inl e, as) \<Rightarrow> Some (Inl e, th)
             | (Inr subgids, as) \<Rightarrow>
                 if \<not> fst (alloc as) then Some (Inl ENOMEM, th)
                 else
                   let b = build_begin fs th file reg upstream subuids subgids
                   in case (if from_file then policy_build_file w (of' ! 1) (of' ! 2) (of' ! 3) b else Some (None, policy_build_own w (own_token w) b)) of
                        None \<Rightarrow> None
                      | Some (e, b) \<Rightarrow>
                          let (th, nss) = buf_fini (pb_thread b) (pb_nss b)
                          in if e \<noteq> None then Some (Inl (the e), th)
                             else
                               case policy_principals w (pb_p b) of
                                 (Some e, p) \<Rightarrow> Some (Inl EIO, th)
                               | (None, p) \<Rightarrow>
                                   Some (Inr (p\<lparr>po_allowed := allowed, po_roles := map (\<lambda>r. r\<lparr>gr_tools := gr_tools r AND allowed\<rparr>) (po_roles p)\<rparr>), th))"

definition policy_get :: "policy \<Rightarrow> policy" where
  "policy_get p = p\<lparr>po_refs := po_refs p + 1\<rparr>"

text \<open>\<^verbatim>\<open>policy_put()\<close>: whether it frees the policy.\<close>

definition policy_put :: "policy \<Rightarrow> bool \<times> policy" where
  "policy_put p = (po_refs p = 1, p\<lparr>po_refs := po_refs p - 1\<rparr>)"

definition policy_key :: "os \<Rightarrow> policy \<Rightarrow> bytes \<Rightarrow> errno option \<times> policy" where
  "policy_key w p key = (if po_refs p \<noteq> 1 then (Some EBUSY, p) else policy_principals w (p\<lparr>po_key := key\<rparr>))"

section \<open>Asking a policy\<close>

definition policy_admit_uid :: "policy option \<Rightarrow> u32 \<Rightarrow> policy_admit" where
  "policy_admit_uid po uid =
     (case po of
        None \<Rightarrow> POLICY_UNMAPPED
      | Some p \<Rightarrow>
          if uid = 0xFFFFFFFF \<or> uid = po_overflow_uid p then POLICY_UNMAPPED
          else if policy_ranges_have (po_subuids p) uid then POLICY_SUBORDINATE else POLICY_ADMIT)"

definition policy_principal_uid :: "os \<Rightarrow> policy option \<Rightarrow> u32 \<Rightarrow> errno + u64" where
  "policy_principal_uid w po uid =
     (case po of None \<Rightarrow> Inl EINVAL | Some p \<Rightarrow> policy_principal_of w p 0 (ascii ''uid:'' @ util_decimal (ucast uid)))"

definition policy_grant_role :: "policy \<Rightarrow> nat option \<Rightarrow> u64 \<Rightarrow> cstr_view \<Rightarrow> policy_verdict" where
  "policy_grant_role p role prin who =
     (case role of
        None \<Rightarrow> POLICY_REFUSED
      | Some r \<Rightarrow>
          let g = (po_roles p ! r)\<lparr>gr_principal := prin\<rparr>
          in POLICY_GRANTED (if who \<noteq> [] then g\<lparr>gr_who := who\<rparr> else g))"

definition policy_grant_token :: "os \<Rightarrow> policy \<Rightarrow> cstr_view \<Rightarrow> policy_verdict" where
  "policy_grant_token w p token =
     (case find (\<lambda>t. tk_digest t = os_sha256 w token) (po_tokens p) of
        None \<Rightarrow> POLICY_REFUSED
      | Some t \<Rightarrow> policy_grant_role p (Some (tk_role t)) (tk_principal t) (tk_who t))"

definition policy_grant_unix :: "policy \<Rightarrow> policy_peer \<Rightarrow> policy_verdict" where
  "policy_grant_unix p peer =
     policy_grant_role p
       (case find (\<lambda>g. pg_gid g \<in> set (pe_groups peer)) (po_groups p) of
          Some g \<Rightarrow> Some (unat (pg_role g)) | None \<Rightarrow> po_anonymous p ! POLICY_UNIX)
       (pe_principal peer) []"

definition policy_grant_client :: "os \<Rightarrow> policy option \<Rightarrow> cstr_view option \<Rightarrow> nat \<Rightarrow> policy_peer option \<Rightarrow> policy_verdict" where
  "policy_grant_client w po token kind peer =
     (case po of
        None \<Rightarrow> POLICY_REFUSED
      | Some p \<Rightarrow>
          if kind \<ge> POLICY_KINDS then POLICY_REFUSED
          else
            let stranger = policy_grant_role p (po_anonymous p ! kind) 0 (po_strangers p ! kind)
            in case (if kind = POLICY_UNIX then peer else None, token) of
                 (None, Some t) \<Rightarrow> if po_tokens p \<noteq> [] then policy_grant_token w p t else stranger
               | (None, None) \<Rightarrow> stranger
               | (Some pe, None) \<Rightarrow> policy_grant_unix p pe
               | (Some pe, Some t) \<Rightarrow>
                   if \<not> po_unix_token p then POLICY_UNIX_TOKEN
                   else
                     case policy_grant_token w p t of
                       POLICY_GRANTED g \<Rightarrow> POLICY_GRANTED (g\<lparr>gr_principal := pe_principal pe\<rparr>)
                     | _ \<Rightarrow> POLICY_REFUSED)"

definition policy_sort_ids :: "u32 list \<Rightarrow> u32 list" where
  "policy_sort_ids ids = sort ids"

section \<open>Facts: loops that end at an error\<close>

lemma each_inv:
  "(\<And>x s. x \<in> set xs \<Longrightarrow> I s \<Longrightarrow> I (snd (f x s))) \<Longrightarrow> I s \<Longrightarrow> I (snd (each f xs s))"
proof (induction xs arbitrary: s)
  case (Cons x xs)
  have "I (snd (f x s))" by (rule Cons.prems(1)) (simp_all add: Cons.prems(2))
  moreover have "I (snd (each f xs t))" if "I t" for t by (rule Cons.IH [OF Cons.prems(1) that]) simp_all
  ultimately show ?case by (auto split: prod.splits option.splits)
qed simp

lemma each_sum:
  fixes size' :: "'s \<Rightarrow> nat"
  shows "(\<And>x s. x \<in> set xs \<Longrightarrow> size' (snd (f x s)) \<le> size' s + wt x) \<Longrightarrow> size' (snd (each f xs s)) \<le> size' s + sum_list (map wt xs)"
proof (induction xs arbitrary: s)
  case (Cons x xs)
  obtain e t where f: "f x s = (e, t)" by (metis surj_pair)
  have "size' t \<le> size' s + wt x" using Cons.prems [of x s] f by simp
  moreover have "size' (snd (each f xs t)) \<le> size' t + sum_list (map wt xs)" by (rule Cons.IH) (use Cons.prems in simp)
  ultimately show ?case using f by (cases e) auto
qed simp

section \<open>Facts: roles\<close>

text \<open>The value names the role of index \<open>i\<close>.\<close>

definition role_at :: "json \<Rightarrow> json \<Rightarrow> nat \<Rightarrow> bool" where
  "role_at roles v i \<longleftrightarrow> (\<exists>s. v = JString s \<and> key_index (json_members roles) (cstring s) = Some i)"

lemma build_role_iff: "policy_build_role b v = Some i \<longleftrightarrow> role_at (pb_roles b) v i"
  by (auto simp: policy_build_role_def role_at_def jb_view_def split: json.splits)

lemma key_index_Some: "key_index ms s = Some i \<Longrightarrow> i < length ms \<and> fst (ms ! i) = s"
  by (induction ms arbitrary: i) (auto split: if_splits)

lemma role_at_less: "role_at roles v i \<Longrightarrow> i < length (json_members roles)"
  by (auto simp: role_at_def dest: key_index_Some)

text \<open>The tool of id \<open>k\<close> is one that roles can grant, and the value is its name.\<close>

definition names_tool :: "registry \<Rightarrow> json \<Rightarrow> nat \<Rightarrow> bool" where
  "names_tool reg v k \<longleftrightarrow> k < rg_granted reg \<and> tool_names reg ! k = (case jb_view v of None \<Rightarrow> [] | Some s \<Rightarrow> s)"

definition mask_of :: "bool \<Rightarrow> policy_grant \<Rightarrow> tool_mask" where
  "mask_of up r = (if up then gr_upstream r else gr_tools r)"

lemma bit_single: "bit (2 ^ j :: tool_mask) k \<longleftrightarrow> j = k \<and> k < 128"
  by (auto simp: bit_exp_iff)

lemma build_tool_spec:
  assumes reg: "reg_ok spare (pb_reg b)" and t: "build_tool b up v r = (e, r')"
  shows "mask_of (\<not> up) r' = mask_of (\<not> up) r \<and> gr_who r' = gr_who r \<and> gr_metrics r' = gr_metrics r \<and> gr_principal r' = gr_principal r \<and>
    (e = None \<longrightarrow> (\<exists>k. names_tool (pb_reg b) v k) \<and>
      (\<forall>k. names_tool (pb_reg b) v k \<longrightarrow> (up \<longrightarrow> bit (pb_upstream b) k)) \<and>
      (\<forall>k. bit (mask_of up r') k \<longleftrightarrow> bit (mask_of up r) k \<or> names_tool (pb_reg b) v k))"
proof -
  let ?reg = "pb_reg b" and ?n = "rg_granted (pb_reg b)"
  define name where "name = (case jb_view v of None \<Rightarrow> [] | Some s \<Rightarrow> s)"
  define j where "j = registry_find ?reg name ?n"
  have n: "?n \<le> length (rg_tools ?reg)" "length (rg_tools ?reg) \<le> 128" using reg by (simp_all add: reg_ok_def TOOL_MAX_def)
  have f: "j \<le> ?n" "\<And>k. k < ?n \<Longrightarrow> j = k \<longleftrightarrow> tool_names ?reg ! k = name"
    using find_spec [OF reg n(1), of name] by (simp_all add: j_def)
  have nt: "names_tool ?reg v k \<longleftrightarrow> k < ?n \<and> j = k" for k using f(2) [of k] by (auto simp: names_tool_def name_def)
  have run: "build_tool b up v r = (if j = ?n \<or> \<not> bit (if up then pb_upstream b else NOT 0) j then (Some EINVAL, r)
      else (None, if up then r\<lparr>gr_upstream := gr_upstream r OR push_bit j 1\<rparr> else r\<lparr>gr_tools := gr_tools r OR push_bit j 1\<rparr>))"
    by (simp add: build_tool_def Let_def j_def name_def)
  show ?thesis
  proof (cases "j = ?n \<or> \<not> bit (if up then pb_upstream b else NOT 0) j")
    case True
    then show ?thesis using t run by auto
  next
    case False
    have r': "e = None" "r' = (if up then r\<lparr>gr_upstream := gr_upstream r OR push_bit j 1\<rparr> else r\<lparr>gr_tools := gr_tools r OR push_bit j 1\<rparr>)"
      using t run False by (simp_all split: if_splits)
    have j: "j < ?n" "j < 128" using False f(1) n by simp_all
    show ?thesis using False j by (auto simp: r' nt mask_of_def bit_or_iff bit_single)
  qed
qed

lemma build_tools_each:
  assumes reg: "reg_ok spare (pb_reg b)"
  shows "each (build_tool b up) vs r = (e, r') \<Longrightarrow>
    mask_of (\<not> up) r' = mask_of (\<not> up) r \<and> gr_who r' = gr_who r \<and> gr_metrics r' = gr_metrics r \<and> gr_principal r' = gr_principal r \<and>
    (e = None \<longrightarrow> (\<forall>v \<in> set vs. \<forall>k. names_tool (pb_reg b) v k \<longrightarrow> (up \<longrightarrow> bit (pb_upstream b) k)) \<and>
      (\<forall>k. bit (mask_of up r') k \<longleftrightarrow> bit (mask_of up r) k \<or> (\<exists>v \<in> set vs. names_tool (pb_reg b) v k)))"
proof (induction vs arbitrary: r)
  case (Cons v vs)
  obtain e1 r1 where t: "build_tool b up v r = (e1, r1)" by (metis surj_pair)
  note one = build_tool_spec [OF reg t]
  show ?case
  proof (cases e1)
    case (Some x)
    then have "e = Some x" "r' = r1" using Cons.prems t by simp_all
    then show ?thesis using Some one by simp
  next
    case None
    then have "each (build_tool b up) vs r1 = (e, r')" using Cons.prems t by simp
    from Cons.IH [OF this] show ?thesis using one None by auto
  qed
qed simp

text \<open>The member of that key lists the name of the tool.\<close>

definition lists_tool :: "registry \<Rightarrow> (bytes \<times> json) list \<Rightarrow> bytes \<Rightarrow> nat \<Rightarrow> bool" where
  "lists_tool reg ms key k \<longleftrightarrow> (\<exists>vs. (key, JArray vs) \<in> set ms \<and> (\<exists>v \<in> set vs. names_tool reg v k))"

lemma lists_tool_simps:
  "\<not> lists_tool reg [] key k"
  "lists_tool reg (m # ms) key k \<longleftrightarrow> (\<exists>vs. m = (key, JArray vs) \<and> (\<exists>v \<in> set vs. names_tool reg v k)) \<or> lists_tool reg ms key k"
  by (auto simp: lists_tool_def)

definition key_of :: "bool \<Rightarrow> bytes" where
  "key_of up = (if up then ascii ''upstream'' else ascii ''tools'')"

lemma build_member_spec:
  assumes reg: "reg_ok spare (pb_reg b)" and m: "policy_build_member b (key, val) r = (None, r')"
  shows "gr_who r' = gr_who r \<and> gr_principal r' = gr_principal r \<and> (gr_metrics r' \<longrightarrow> gr_metrics r \<or> (key, val) = (ascii ''metrics'', JBool True)) \<and>
    (\<forall>up k. bit (mask_of up r') k \<longleftrightarrow> bit (mask_of up r) k \<or> lists_tool (pb_reg b) [(key, val)] (key_of up) k) \<and>
    (\<forall>k. lists_tool (pb_reg b) [(key, val)] (key_of True) k \<longrightarrow> bit (pb_upstream b) k)"
proof -
  have keys: "ascii ''upstream'' \<noteq> ascii ''tools''" "ascii ''metrics'' \<noteq> ascii ''tools''" "ascii ''metrics'' \<noteq> ascii ''upstream''" by (simp_all add: ascii_def)
  consider (tools) up where "key = key_of up" | (other) "key \<noteq> key_of True" "key \<noteq> key_of False" by blast
  then show ?thesis
  proof cases
    case tools
    have "policy_build_tools b val up r = (None, r')" using m tools keys by (cases up) (simp_all add: policy_build_member_def key_of_def Let_def)
    then obtain vs where vs: "val = JArray vs" "each (build_tool b up) vs r = (None, r')"
      by (cases val) (auto simp: policy_build_tools_def json_is_array_def split: if_splits)
    note e = build_tools_each [OF reg vs(2)]
    have l: "lists_tool (pb_reg b) [(key, val)] (key_of up') k \<longleftrightarrow> up' = up \<and> (\<exists>v \<in> set vs. names_tool (pb_reg b) v k)" for up' k
      using tools vs(1) keys by (auto simp: lists_tool_simps key_of_def)
    have "bit (mask_of up' r') k \<longleftrightarrow> bit (mask_of up' r) k \<or> lists_tool (pb_reg b) [(key, val)] (key_of up') k" for up' k
      using e unfolding l by (cases "up' = up") auto
    then show ?thesis using e l by auto
  next
    case other
    then obtain v where "key = ascii ''metrics''" "val = JBool v" "r' = r\<lparr>gr_metrics := v\<rparr>"
      using m by (auto simp: policy_build_member_def key_of_def Let_def split: if_splits json.splits)
    then show ?thesis using keys by (auto simp: lists_tool_simps key_of_def mask_of_def)
  qed
qed

lemma build_members_spec:
  assumes reg: "reg_ok spare (pb_reg b)"
  shows "each (policy_build_member b) ms r = (None, r') \<Longrightarrow>
    gr_who r' = gr_who r \<and> gr_principal r' = gr_principal r \<and> (gr_metrics r' \<longrightarrow> gr_metrics r \<or> (ascii ''metrics'', JBool True) \<in> set ms) \<and>
    (\<forall>up k. bit (mask_of up r') k \<longleftrightarrow> bit (mask_of up r) k \<or> lists_tool (pb_reg b) ms (key_of up) k) \<and>
    (\<forall>k. lists_tool (pb_reg b) ms (key_of True) k \<longrightarrow> bit (pb_upstream b) k)"
proof (induction ms arbitrary: r)
  case (Cons m ms)
  obtain key val where kv: "m = (key, val)" by (metis surj_pair)
  obtain r1 where one: "policy_build_member b (key, val) r = (None, r1)" "each (policy_build_member b) ms r1 = (None, r')"
    using Cons.prems kv by (auto split: prod.splits option.splits)
  have l: "lists_tool (pb_reg b) (m # ms) k' k \<longleftrightarrow> lists_tool (pb_reg b) [(key, val)] k' k \<or> lists_tool (pb_reg b) ms k' k" for k' k
    by (auto simp: lists_tool_simps kv)
  show ?case unfolding l using build_member_spec [OF reg one(1)] Cons.IH [OF one(2)] kv by auto
qed (simp add: lists_tool_simps)

text \<open>What a role grants is what its members list.\<close>

definition role_from :: "registry \<Rightarrow> tool_mask \<Rightarrow> bytes \<times> json \<Rightarrow> policy_grant \<Rightarrow> bool" where
  "role_from reg upstream m r \<longleftrightarrow>
     (case m of (name, members) \<Rightarrow>
       gr_who r = ascii ''role '' @ name \<and> policy_name_len name = length name \<and> gr_principal r = 0 \<and>
       (gr_metrics r \<longrightarrow> (ascii ''metrics'', JBool True) \<in> set (json_members members)) \<and>
       (\<forall>k. bit (gr_tools r) k \<longleftrightarrow> lists_tool reg (json_members members) (ascii ''tools'') k) \<and>
       (\<forall>k. bit (gr_upstream r) k \<longleftrightarrow>
          (if fst (json_get_ex members (ascii ''upstream'')) then lists_tool reg (json_members members) (ascii ''upstream'') k \<and> bit upstream k
           else bit (gr_tools r) k)))"

lemma name_len: "policy_name_len name = (if list_all name_byte name \<and> length name \<le> POLICY_NAME then length name else 0)"
proof -
  have "length (takeWhile name_byte name) = length name \<longleftrightarrow> list_all name_byte name"
    by (metis list_all_iff takeWhile_eq_all_conv takeWhile_eq_take take_all_iff order_refl)
  then show ?thesis by (auto simp: policy_name_len_def Let_def)
qed

text \<open>A builder that differs in the roles and the bytes of names.\<close>

definition with_roles :: "policy_build \<Rightarrow> policy_build \<Rightarrow> bool" where
  "with_roles b b' \<longleftrightarrow> (\<exists>n rs. b' = b\<lparr>pb_names := n, pb_p := (pb_p b)\<lparr>po_roles := rs\<rparr>\<rparr>)"

lemma with_roles_trans: "with_roles a b \<Longrightarrow> with_roles b c \<Longrightarrow> with_roles a c"
  unfolding with_roles_def by fastforce

lemma with_roles_add:
  assumes "with_roles b c"
  shows "with_roles b (c\<lparr>pb_p := (pb_p c)\<lparr>po_roles := rs\<rparr>\<rparr>)"
proof -
  obtain n rs' where c: "c = b\<lparr>pb_names := n, pb_p := (pb_p b)\<lparr>po_roles := rs'\<rparr>\<rparr>" using assms by (auto simp: with_roles_def)
  show ?thesis unfolding with_roles_def c by (intro exI [of _ n] exI [of _ rs]) simp
qed

lemma with_roles_same: "with_roles b b"
  unfolding with_roles_def by (intro exI [of _ "pb_names b"] exI [of _ "po_roles (pb_p b)"]) simp

lemma with_roles_frame: "with_roles b b' \<Longrightarrow> pb_reg b' = pb_reg b \<and> pb_upstream b' = pb_upstream b \<and> pb_roles b' = pb_roles b"
  unfolding with_roles_def by auto

lemma build_role_one_spec:
  assumes reg: "reg_ok spare (pb_reg b)" and o: "policy_build_role_one m b = (e, b')"
  shows "with_roles b b' \<and> pb_names b' \<le> pb_names b + (5 + POLICY_NAME) \<and>
    (case e of None \<Rightarrow> \<exists>r. po_roles (pb_p b') = po_roles (pb_p b) @ [r] \<and> role_from (pb_reg b) (pb_upstream b) m r
     | Some x \<Rightarrow> x = EINVAL \<and> po_roles (pb_p b') = po_roles (pb_p b))"
proof -
  obtain name members where m: "m = (name, members)" by (metis surj_pair)
  show ?thesis
  proof (cases "policy_name_len name = 0 \<or> \<not> json_is_object members")
    case True
    then have "e = Some EINVAL" "b' = b"
      using o m by (cases "policy_name_len name = 0"; auto simp: policy_build_role_one_def Let_def)+
    then show ?thesis by (simp add: with_roles_same)
  next
    case False
    have len: "policy_name_len name = length name" "length name \<le> POLICY_NAME" using False by (simp_all add: name_len split: if_splits)
    define b1 where "b1 = b\<lparr>pb_names := pb_names b + length (ascii ''role '' @ name)\<rparr>"
    define r0 where "r0 = grant_zero\<lparr>gr_who := ascii ''role '' @ name\<rparr>"
    obtain e1 r where run: "each (policy_build_member b1) (json_members members) r0 = (e1, r)" by (metis surj_pair)
    have who: "policy_build_who [ascii ''role '', take (length name) name] b = (ascii ''role '' @ name, b1)"
      by (simp add: policy_build_who_def b1_def)
    have size: "pb_names b1 \<le> pb_names b + (5 + POLICY_NAME)" using len(2) by (simp add: b1_def)
    have w: "with_roles b b1" unfolding with_roles_def b1_def
      by (intro exI [of _ "pb_names b + length (ascii ''role '' @ name)"] exI [of _ "po_roles (pb_p b)"]) simp
    have one: "policy_build_role_one m b = (if e1 \<noteq> None then (e1, b1)
        else (None, b1\<lparr>pb_p := (pb_p b1)\<lparr>po_roles := po_roles (pb_p b1) @
          [if \<not> fst (json_get_ex members (ascii ''upstream'')) then r\<lparr>gr_upstream := gr_tools r\<rparr> else r]\<rparr>\<rparr>))"
      unfolding policy_build_role_one_def m prod.case Let_def len(1) who run [unfolded r0_def] using False len(1) by simp
    show ?thesis
    proof (cases e1)
      case (Some x)
      have "snd (policy_build_member b1 m r) = snd (policy_build_member b1 m r) \<and> (fst (policy_build_member b1 m r) = None \<or> fst (policy_build_member b1 m r) = Some EINVAL)" for m r
      proof -
        have "fst (each (build_tool b1 up) vs r) = None \<or> fst (each (build_tool b1 up) vs r) = Some EINVAL" for up vs r
          by (induction vs arbitrary: r) (auto simp: build_tool_def Let_def split: prod.splits option.splits)
        then show ?thesis by (auto simp: policy_build_member_def policy_build_tools_def Let_def split: prod.splits json.splits)
      qed
      then have mem: "policy_build_member b1 m r = (Some y, r') \<Longrightarrow> y = EINVAL" for m r y r' by (metis fst_conv option.distinct(1) option.inject)
      have "each (policy_build_member b1) ms r = (Some y, r') \<Longrightarrow> y = EINVAL" for ms r y r'
        by (induction ms arbitrary: r) (auto dest: mem split: prod.splits option.splits)
      then have "x = EINVAL" using run Some by blast
      moreover have "e = Some x" "b' = b1" using one o Some by simp_all
      ultimately show ?thesis using w size by (simp add: b1_def)
    next
      case None
      let ?r = "if \<not> fst (json_get_ex members (ascii ''upstream'')) then r\<lparr>gr_upstream := gr_tools r\<rparr> else r"
      have b': "e = None" "b' = b1\<lparr>pb_p := (pb_p b1)\<lparr>po_roles := po_roles (pb_p b1) @ [?r]\<rparr>\<rparr>" using one o None by simp_all
      have reg1: "reg_ok spare (pb_reg b1)" "pb_reg b1 = pb_reg b" "pb_upstream b1 = pb_upstream b" using reg by (simp_all add: b1_def)
      note ms = build_members_spec [OF reg1(1) run [unfolded None], unfolded reg1(2,3)]
      have tools: "bit (gr_tools r) k \<longleftrightarrow> lists_tool (pb_reg b) (json_members members) (ascii ''tools'') k" for k
        using ms by (auto simp: mask_of_def key_of_def r0_def grant_zero_def dest: spec [of _ False])
      have up: "bit (gr_upstream r) k \<longleftrightarrow> lists_tool (pb_reg b) (json_members members) (ascii ''upstream'') k \<and> bit (pb_upstream b) k" for k
      proof -
        have "bit (mask_of True r) k \<longleftrightarrow> bit (mask_of True r0) k \<or> lists_tool (pb_reg b) (json_members members) (key_of True) k"
          "lists_tool (pb_reg b) (json_members members) (key_of True) k \<longrightarrow> bit (pb_upstream b) k" using ms by blast+
        then show ?thesis by (auto simp: mask_of_def key_of_def r0_def grant_zero_def)
      qed
      have "role_from (pb_reg b) (pb_upstream b) m ?r"
        using ms tools up len(1) by (auto simp: role_from_def m r0_def grant_zero_def)
      moreover have "with_roles b b'" unfolding b' by (rule with_roles_add [OF w])
      moreover have "pb_names b' = pb_names b1" by (simp add: b')
      ultimately show ?thesis using size b' by (auto simp: b1_def)
    qed
  qed
qed

lemma build_roles_each:
  "reg_ok spare (pb_reg b) \<Longrightarrow> each policy_build_role_one ms b = (e, b') \<Longrightarrow>
     with_roles b b' \<and> pb_names b' \<le> pb_names b + length ms * (5 + POLICY_NAME) \<and>
     (\<exists>rs. po_roles (pb_p b') = po_roles (pb_p b) @ rs \<and> length rs \<le> length ms \<and>
       (e = None \<longrightarrow> list_all2 (role_from (pb_reg b) (pb_upstream b)) ms rs)) \<and> (e = None \<or> e = Some EINVAL)"
proof (induction ms arbitrary: b)
  case Nil
  then show ?case by (simp add: with_roles_same)
next
  case (Cons m ms)
  obtain e1 b1 where o: "policy_build_role_one m b = (e1, b1)" by (metis surj_pair)
  note one = build_role_one_spec [OF Cons.prems(1) o]
  show ?case
  proof (cases e1)
    case (Some x)
    then have "e = Some x" "b' = b1" using Cons.prems(2) o by simp_all
    then show ?thesis using one Some by auto
  next
    case None
    then obtain r where r: "po_roles (pb_p b1) = po_roles (pb_p b) @ [r]" "role_from (pb_reg b) (pb_upstream b) m r" using one by auto
    have f: "pb_reg b1 = pb_reg b" "pb_upstream b1 = pb_upstream b" using with_roles_frame [of b b1] one by simp_all
    have run: "each policy_build_role_one ms b1 = (e, b')" using Cons.prems(2) o None by simp
    have ih: "with_roles b1 b' \<and> pb_names b' \<le> pb_names b1 + length ms * (5 + POLICY_NAME) \<and>
       (\<exists>rs. po_roles (pb_p b') = po_roles (pb_p b1) @ rs \<and> length rs \<le> length ms \<and>
         (e = None \<longrightarrow> list_all2 (role_from (pb_reg b) (pb_upstream b)) ms rs)) \<and> (e = None \<or> e = Some EINVAL)"
      using Cons.IH [of b1] run Cons.prems(1) f by simp
    then obtain rs where rs: "po_roles (pb_p b') = po_roles (pb_p b1) @ rs" "length rs \<le> length ms"
        "e = None \<longrightarrow> list_all2 (role_from (pb_reg b) (pb_upstream b)) ms rs" by blast
    have "with_roles b b'" using one ih with_roles_trans by blast
    moreover have "pb_names b' \<le> pb_names b + length (m # ms) * (5 + POLICY_NAME)" using one ih by simp
    moreover have "po_roles (pb_p b') = po_roles (pb_p b) @ (r # rs)" using r rs by simp
    ultimately show ?thesis using rs r(2) ih by (intro conjI exI [of _ "r # rs"]) simp_all
  qed
qed

section \<open>Facts: identities, groups and strangers\<close>

text \<open>What the later steps of building leave alone.\<close>

definition still :: "policy_build \<Rightarrow> json \<times> policy_range list \<times> policy_grant list \<times> policy_range list \<times> bytes \<times> u32 \<times> u32 \<times> bool \<times> u64" where
  "still b = (pb_roles b, pb_subgids b, po_roles (pb_p b), po_subuids (pb_p b), po_key (pb_p b), po_overflow_uid (pb_p b),
     po_overflow_gid (pb_p b), po_unix_token (pb_p b), po_refs (pb_p b))"

text \<open>The part of the file that a token, a group or a stranger's role comes from.\<close>

definition token_from :: "os \<Rightarrow> json \<Rightarrow> json \<Rightarrow> policy_token \<Rightarrow> bool" where
  "token_from w roles ids t \<longleftrightarrow>
     (\<exists>who idv v specs spec. (who, idv) \<in> set (json_members ids) \<and> tk_who t = ascii ''identity '' @ who \<and>
        length who \<le> POLICY_NAME \<and>
        (ascii ''role'', v) \<in> set (json_members idv) \<and> role_at roles v (tk_role t) \<and>
        (ascii ''tokens'', JArray specs) \<in> set (json_members idv) \<and> spec \<in> set specs \<and> policy_build_token w spec = Inr (tk_digest t))"

definition gid_of :: "os \<Rightarrow> bytes \<Rightarrow> u32 \<Rightarrow> bool" where
  "gid_of w key gid \<longleftrightarrow> policy_number key = Some gid \<or> (\<exists>room. os_getgrnam w key room = Group gid)"

definition group_from :: "os \<Rightarrow> json \<Rightarrow> json \<Rightarrow> policy_build \<Rightarrow> policy_gid \<Rightarrow> bool" where
  "group_from w roles grps b g \<longleftrightarrow>
     (\<exists>key v i. (key, v) \<in> set (json_members grps) \<and> role_at roles v i \<and> pg_role g = of_nat i \<and> gid_of w key (pg_gid g)) \<and>
     pg_gid g \<noteq> po_overflow_gid (pb_p b) \<and> \<not> policy_ranges_have (pb_subgids b) (pg_gid g)"

definition anon_from :: "json \<Rightarrow> json \<Rightarrow> nat \<Rightarrow> nat option \<Rightarrow> bool" where
  "anon_from roles anon k role \<longleftrightarrow> (\<forall>i. role = Some i \<longrightarrow> (\<exists>v. (policy_kinds ! k, v) \<in> set (json_members anon) \<and> role_at roles v i))"

definition built :: "os \<Rightarrow> json \<Rightarrow> json \<Rightarrow> json \<Rightarrow> policy_build \<Rightarrow> bool" where
  "built w ids grps anon b \<longleftrightarrow>
     (\<forall>t \<in> set (po_tokens (pb_p b)). token_from w (pb_roles b) ids t) \<and>
     (\<forall>g \<in> set (po_groups (pb_p b)). group_from w (pb_roles b) grps b g) \<and>
     length (po_anonymous (pb_p b)) = POLICY_KINDS \<and> length (po_strangers (pb_p b)) = POLICY_KINDS \<and>
     (\<forall>k < POLICY_KINDS. anon_from (pb_roles b) anon k (po_anonymous (pb_p b) ! k)) \<and>
     (\<forall>who \<in> set (po_strangers (pb_p b)). length who \<le> POLICY_WHO - 1)"

lemma identity_loop_from:
  "identity_loop ms (r0, t0) = (True, r, t) \<Longrightarrow>
     (r = r0 \<or> (ascii ''role'', r) \<in> set ms) \<and> (t = t0 \<or> (ascii ''tokens'', t) \<in> set ms)"
proof (induction ms arbitrary: r0 t0)
  case (Cons m ms)
  obtain key val where m: "m = (key, val)" by (metis surj_pair)
  consider "key = ascii ''role''" | "key \<noteq> ascii ''role''" "key = ascii ''tokens''" | "key \<noteq> ascii ''role''" "key \<noteq> ascii ''tokens''" by blast
  then show ?case
  proof cases
    case 1
    then have "identity_loop ms (val, t0) = (True, r, t)" using Cons.prems m by simp
    from Cons.IH [OF this] show ?thesis using m 1 by auto
  next
    case 2
    then have "identity_loop ms (r0, val) = (True, r, t)" using Cons.prems m by simp
    from Cons.IH [OF this] show ?thesis using m 2 by auto
  next
    case 3
    then show ?thesis using Cons.prems m by simp
  qed
qed simp

text \<open>An identity: it adds tokens of its own, all of them if there is no error.\<close>

lemma token_add_each:
  assumes "each (build_token_add w name r) specs b = (e, b')"
  shows "\<exists>ts. b' = b\<lparr>pb_p := (pb_p b)\<lparr>po_tokens := po_tokens (pb_p b) @ ts\<rparr>\<rparr> \<and> length ts \<le> length specs \<and>
    (\<forall>t \<in> set ts. tk_who t = name \<and> tk_role t = r \<and> (\<exists>spec \<in> set specs. policy_build_token w spec = Inr (tk_digest t))) \<and>
    (e = None \<longrightarrow> length ts = length specs)"
  using assms
proof (induction specs arbitrary: b)
  case Nil
  then show ?case by (intro exI [of _ "[]"]) simp
next
  case (Cons spec specs)
  show ?case
  proof (cases "policy_build_token w spec")
    case (Inl x)
    then have "e = Some x" "b' = b" using Cons.prems by (simp_all add: build_token_add_def)
    then show ?thesis by (intro exI [of _ "[]"]) simp
  next
    case (Inr digest)
    let ?t = "\<lparr>tk_digest = digest, tk_who = name, tk_principal = 0, tk_role = r\<rparr>"
    have "each (build_token_add w name r) specs (b\<lparr>pb_p := (pb_p b)\<lparr>po_tokens := po_tokens (pb_p b) @ [?t]\<rparr>\<rparr>) = (e, b')"
    proof -
      have "build_token_add w name r spec b = (None, b\<lparr>pb_p := (pb_p b)\<lparr>po_tokens := po_tokens (pb_p b) @ [?t]\<rparr>\<rparr>)"
        using Inr by (simp add: build_token_add_def policy_token_add_def)
      then show ?thesis using Cons.prems by simp
    qed
    from Cons.IH [OF this] obtain ts where ts:
      "b' = b\<lparr>pb_p := (pb_p b)\<lparr>po_tokens := po_tokens (pb_p b) @ ?t # ts\<rparr>\<rparr>" "length ts \<le> length specs"
      "\<forall>t \<in> set ts. tk_who t = name \<and> tk_role t = r \<and> (\<exists>spec \<in> set specs. policy_build_token w spec = Inr (tk_digest t))"
      "e = None \<longrightarrow> length ts = length specs" by auto
    then show ?thesis using Inr by (intro exI [of _ "?t # ts"]) auto
  qed
qed

lemma identity_spec:
  assumes "policy_build_identity w (who, idv) b = (e, b')"
  shows "\<exists>n ts. b' = b\<lparr>pb_names := n, pb_p := (pb_p b)\<lparr>po_tokens := po_tokens (pb_p b) @ ts\<rparr>\<rparr> \<and> n \<le> pb_names b + (9 + POLICY_NAME) \<and>
    (ts \<noteq> [] \<longrightarrow> (\<exists>v specs. identity_loop (json_members idv) (JNull, JNull) = (True, v, JArray specs) \<and> length ts \<le> length specs \<and>
       (ascii ''role'', v) \<in> set (json_members idv) \<and> (ascii ''tokens'', JArray specs) \<in> set (json_members idv) \<and> length who \<le> POLICY_NAME \<and>
       (\<forall>t \<in> set ts. tk_who t = ascii ''identity '' @ who \<and> role_at (pb_roles b) v (tk_role t) \<and>
          (\<exists>spec \<in> set specs. policy_build_token w spec = Inr (tk_digest t)))))"
proof -
  have stay: ?thesis if "b' = b" using that by (intro exI [of _ "pb_names b"] exI [of _ "[]"]) simp
  obtain known v tokens where l: "identity_loop (json_members idv) (JNull, JNull) = (known, v, tokens)" by (metis surj_pair)
  show ?thesis
  proof (cases "policy_name_len who \<noteq> 0 \<and> json_is_object idv \<and> known \<and> policy_build_role b v \<noteq> None \<and> json_is_array tokens \<and> jb_len tokens \<noteq> 0")
    case False
    then have "b' = b" using assms l by (auto simp: policy_build_identity_def Let_def jb_len_def split: if_splits option.splits)
    then show ?thesis by (rule stay)
  next
    case True
    then obtain r specs where r: "role_at (pb_roles b) v r" "policy_build_role b v = Some r" and specs: "tokens = JArray specs" "specs \<noteq> []"
      using build_role_iff by (cases tokens) (auto simp: jb_len_def json_is_array_def)
    have len: "policy_name_len who = length who" "length who \<le> POLICY_NAME" using True by (simp_all add: name_len split: if_splits)
    define b1 where "b1 = b\<lparr>pb_names := pb_names b + length (ascii ''identity '' @ who)\<rparr>"
    have who: "policy_build_who [ascii ''identity '', take (length who) who] b = (ascii ''identity '' @ who, b1)"
      by (simp add: policy_build_who_def b1_def)
    have "policy_build_identity w (who, idv) b = each (build_token_add w (ascii ''identity '' @ who) r) specs b1"
      unfolding policy_build_identity_def prod.case Let_def len(1) l r(2) option.case who specs
      using True specs len by (auto simp: json_is_array_def jb_len_def)
    then obtain ts where ts: "b' = b1\<lparr>pb_p := (pb_p b1)\<lparr>po_tokens := po_tokens (pb_p b1) @ ts\<rparr>\<rparr>" "length ts \<le> length specs"
        "\<forall>t \<in> set ts. tk_who t = ascii ''identity '' @ who \<and> tk_role t = r \<and> (\<exists>spec \<in> set specs. policy_build_token w spec = Inr (tk_digest t))"
      using token_add_each [of w "ascii ''identity '' @ who" r specs b1 e b'] assms by auto
    have src: "(ascii ''role'', v) \<in> set (json_members idv)" "(ascii ''tokens'', JArray specs) \<in> set (json_members idv)"
      using identity_loop_from [of "json_members idv" JNull JNull v tokens] l True r(1) specs(1) by (auto simp: role_at_def)
    have "identity_loop (json_members idv) (JNull, JNull) = (True, v, JArray specs)" using l True specs by simp
    then show ?thesis using ts src r(1) len(2)
      by (intro exI [of _ "pb_names b1"] exI [of _ ts]) (auto simp: b1_def intro!: exI [of _ v] exI [of _ specs])
  qed
qed

lemma identity_built:
  assumes m: "m \<in> set (json_members ids)" and b: "built w ids grps anon b"
  shows "built w ids grps anon (snd (policy_build_identity w m b)) \<and> still (snd (policy_build_identity w m b)) = still b \<and>
    pb_thread (snd (policy_build_identity w m b)) = pb_thread b \<and> pb_nss (snd (policy_build_identity w m b)) = pb_nss b"
proof -
  obtain who idv where wi: "m = (who, idv)" by (metis surj_pair)
  obtain e b' where r: "policy_build_identity w (who, idv) b = (e, b')" by (metis surj_pair)
  obtain n ts where b': "b' = b\<lparr>pb_names := n, pb_p := (pb_p b)\<lparr>po_tokens := po_tokens (pb_p b) @ ts\<rparr>\<rparr>"
      "ts \<noteq> [] \<longrightarrow> (\<exists>v specs. identity_loop (json_members idv) (JNull, JNull) = (True, v, JArray specs) \<and> length ts \<le> length specs \<and>
       (ascii ''role'', v) \<in> set (json_members idv) \<and> (ascii ''tokens'', JArray specs) \<in> set (json_members idv) \<and> length who \<le> POLICY_NAME \<and>
       (\<forall>t \<in> set ts. tk_who t = ascii ''identity '' @ who \<and> role_at (pb_roles b) v (tk_role t) \<and>
          (\<exists>spec \<in> set specs. policy_build_token w spec = Inr (tk_digest t))))"
    using identity_spec [OF r] by blast
  have "token_from w (pb_roles b) ids t" if t: "t \<in> set ts" for t
  proof -
    have "ts \<noteq> []" using t by auto
    from b'(2) [THEN mp, OF this] obtain v specs where vs: "(ascii ''role'', v) \<in> set (json_members idv)"
        "(ascii ''tokens'', JArray specs) \<in> set (json_members idv)" "length who \<le> POLICY_NAME"
        "\<forall>t \<in> set ts. tk_who t = ascii ''identity '' @ who \<and> role_at (pb_roles b) v (tk_role t) \<and>
          (\<exists>spec \<in> set specs. policy_build_token w spec = Inr (tk_digest t))" by (elim exE conjE)
    obtain spec where sp: "spec \<in> set specs" "policy_build_token w spec = Inr (tk_digest t)" using vs(4) t by blast
    have "tk_who t = ascii ''identity '' @ who" "role_at (pb_roles b) v (tk_role t)" using vs(4) t by simp_all
    then show ?thesis using m [unfolded wi] vs(1-3) sp unfolding token_from_def by (intro exI conjI)
  qed
  then have new: "\<forall>t \<in> set ts. token_from w (pb_roles b) ids t" by blast
  have g: "group_from w roles grps b' = group_from w roles grps b" for roles by (rule ext) (simp add: b'(1) group_from_def)
  have "built w ids grps anon b'" using b new unfolding built_def g by (simp add: b'(1) ball_Un)
  then show ?thesis unfolding wi r snd_conv by (simp add: b'(1) still_def)
qed

lemma identities_built:
  assumes "built w ids grps anon b" "policy_build_identities w ids b = (e, b')"
  shows "built w ids grps anon b' \<and> still b' = still b \<and> pb_thread b' = pb_thread b \<and> pb_nss b' = pb_nss b"
proof -
  let ?I = "\<lambda>s. built w ids grps anon s \<and> still s = still b \<and> pb_thread s = pb_thread b \<and> pb_nss s = pb_nss b"
  have all: "?I (snd (each (policy_build_identity w) (json_members ids) b))"
    by (rule each_inv) (use identity_built assms(1) in auto)
  obtain e1 b1 where r: "each (policy_build_identity w) (json_members ids) b = (e1, b1)" by (metis surj_pair)
  have sorted: "?I (b1\<lparr>pb_p := (pb_p b1)\<lparr>po_tokens := sort_key tk_digest (po_tokens (pb_p b1))\<rparr>\<rparr>)"
    using all unfolding r by (auto simp: built_def still_def group_from_def)
  show ?thesis using assms all sorted unfolding r
    by (auto simp: policy_build_identities_def r Let_def split: if_splits option.splits)
qed

text \<open>The storage of group lookups holds no bytes between them.\<close>

definition store_ok :: "ref list \<Rightarrow> policy_build \<Rightarrow> bool" where
  "store_ok hs b \<longleftrightarrow> thread_ok (pb_thread b) (refs (pb_nss b) @ hs) \<and> buf_ok (pb_nss b) \<and> buf_peek (pb_nss b) = []"

lemma nss_loop_spec:
  assumes junk: "junk_ok (os_junk w)"
  shows "store_ok hs b \<Longrightarrow> 0 < least \<Longrightarrow>
    \<exists>r th nss. nss_loop w name least b = Some (r, b\<lparr>pb_thread := th, pb_nss := nss\<rparr>) \<and> store_ok hs (b\<lparr>pb_thread := th, pb_nss := nss\<rparr>) \<and>
      (case r of Inl e \<Rightarrow> e = ENOBUFS \<or> e = ENOMEM | Inr g \<Rightarrow> g \<noteq> Group_range \<and> (\<exists>room. os_getgrnam w name room = g))"
proof (induction "POLICY_ENTRY_MAX - least" arbitrary: least b rule: less_induct)
  case less
  obtain e room th nss where r: "buf_reserve (os_junk w) (pb_thread b) (pb_nss b) least POLICY_ENTRY_MAX = (e, room, th, nss)" by (metis surj_pair)
  have st: "thread_ok (pb_thread b) (refs (pb_nss b) @ hs)" "buf_ok (pb_nss b)" "buf_peek (pb_nss b) = []" using less.prems(1) by (simp_all add: store_ok_def)
  note rs = reserve_spec [OF st(1,2) junk r]
  let ?b = "b\<lparr>pb_thread := th, pb_nss := nss\<rparr>"
  have ok: "store_ok hs ?b" using rs st(3) by (simp add: store_ok_def)
  show ?case
  proof (cases e)
    case (Some x)
    then have "nss_loop w name least b = Some (Inl x, ?b)" using r by (subst nss_loop.simps) simp
    moreover have "x = ENOBUFS \<or> x = ENOMEM" using rs Some by auto
    ultimately show ?thesis using ok by (intro exI [of _ "Inl x"] exI [of _ th] exI [of _ nss]) simp
  next
    case None
    obtain off n where room: "room = Some (off, n)" using rs None less.prems(2) by (cases room) auto
    have n: "least \<le> n" "n \<le> POLICY_ENTRY_MAX" using rs None room st(3) by simp_all
    show ?thesis
    proof (cases "os_getgrnam w name n = Group_range")
      case True
      have run: "nss_loop w name least b = nss_loop w name (n + 1) ?b" using r None room True by (subst nss_loop.simps) simp
      show ?thesis
      proof (cases "n = POLICY_ENTRY_MAX")
        case False
        have "POLICY_ENTRY_MAX - (n + 1) < POLICY_ENTRY_MAX - least" using n False by simp
        from less.hyps [OF this ok] show ?thesis unfolding run by simp
      next
        case True
        obtain e2 room2 th2 nss2 where r2: "buf_reserve (os_junk w) th nss (n + 1) POLICY_ENTRY_MAX = (e2, room2, th2, nss2)" by (metis surj_pair)
        have st2: "thread_ok th (refs nss @ hs)" "buf_ok nss" "buf_peek nss = []" using ok by (simp_all add: store_ok_def)
        note rs2 = reserve_spec [OF st2(1,2) junk r2]
        have "\<not> n + 1 \<le> POLICY_ENTRY_MAX" using True by simp
        then have e2: "e2 = Some ENOBUFS" using rs2 st2(3) by (cases e2) auto
        let ?c = "b\<lparr>pb_thread := th2, pb_nss := nss2\<rparr>"
        have "nss_loop w name (n + 1) ?b = Some (Inl ENOBUFS, ?c)" using r2 e2 by (subst nss_loop.simps) simp
        moreover have "store_ok hs ?c" using rs2 st2(3) by (simp add: store_ok_def)
        ultimately show ?thesis unfolding run by (intro exI [of _ "Inl ENOBUFS"] exI [of _ th2] exI [of _ nss2]) simp
      qed
    next
      case False
      then have "nss_loop w name least b = Some (Inr (os_getgrnam w name n), ?b)"
        using r None room by (cases "os_getgrnam w name n") (subst nss_loop.simps, simp)+
      then show ?thesis using ok False by (intro exI [of _ "Inr (os_getgrnam w name n)"] exI [of _ th] exI [of _ nss]) auto
    qed
  qed
qed

lemma build_gid_spec:
  assumes junk: "junk_ok (os_junk w)" and ok: "store_ok hs b"
  shows "\<exists>r th nss. policy_build_gid w b name = Some (r, b\<lparr>pb_thread := th, pb_nss := nss\<rparr>) \<and> store_ok hs (b\<lparr>pb_thread := th, pb_nss := nss\<rparr>) \<and>
    (case r of Inl e \<Rightarrow> e = EINVAL \<or> e = ENOMEM | Inr gid \<Rightarrow> gid_of w name gid)"
proof (cases "policy_number name")
  case (Some gid)
  then show ?thesis using ok
    by (intro exI [of _ "Inr gid"] exI [of _ "pb_thread b"] exI [of _ "pb_nss b"]) (simp add: policy_build_gid_def gid_of_def)
next
  case None
  obtain r th nss where n: "nss_loop w name 1 b = Some (r, b\<lparr>pb_thread := th, pb_nss := nss\<rparr>)" "store_ok hs (b\<lparr>pb_thread := th, pb_nss := nss\<rparr>)"
      "case r of Inl e \<Rightarrow> e = ENOBUFS \<or> e = ENOMEM | Inr g \<Rightarrow> g \<noteq> Group_range \<and> (\<exists>room. os_getgrnam w name room = g)"
    using nss_loop_spec [OF junk ok, of 1 name] by auto
  define r' where "r' = (case r of
               Inl e \<Rightarrow> if e = ENOMEM then Inl ENOMEM else Inl EINVAL
             | Inr (Group_error e) \<Rightarrow> if e = ENOMEM then Inl ENOMEM else Inl EINVAL
             | Inr (Group gid) \<Rightarrow> Inr gid
             | Inr _ \<Rightarrow> Inl EINVAL)"
  have "policy_build_gid w b name = Some (r', b\<lparr>pb_thread := th, pb_nss := nss\<rparr>)" using None n(1) by (simp add: policy_build_gid_def r'_def)
  moreover have "case r' of Inl e \<Rightarrow> e = EINVAL \<or> e = ENOMEM | Inr gid \<Rightarrow> gid_of w name gid"
    using n(3) by (auto simp: r'_def gid_of_def split: sum.splits group_entry.splits if_splits)
  ultimately show ?thesis using n(2) by blast
qed

lemma store_built:
  "built w ids grps anon (b\<lparr>pb_thread := th, pb_nss := nss\<rparr>) = built w ids grps anon b" "still (b\<lparr>pb_thread := th, pb_nss := nss\<rparr>) = still b"
  "group_from w roles grps (b\<lparr>pb_thread := th, pb_nss := nss\<rparr>) g = group_from w roles grps b g"
  by (simp_all add: built_def still_def group_from_def)

lemma groups_spec:
  assumes junk: "junk_ok (os_junk w)"
  shows "set ms \<subseteq> set (json_members grps) \<Longrightarrow> built w ids grps anon b \<Longrightarrow> store_ok hs b \<Longrightarrow>
    \<exists>e b'. groups_loop w ms b = Some (e, b') \<and> built w ids grps anon b' \<and> still b' = still b \<and> store_ok hs b' \<and> pb_names b' = pb_names b \<and>
      po_tokens (pb_p b') = po_tokens (pb_p b) \<and> length (po_groups (pb_p b')) \<le> length (po_groups (pb_p b)) + length ms \<and>
      (e = None \<or> e = Some EINVAL \<or> e = Some ENOMEM)"
proof (induction ms arbitrary: b)
  case Nil
  then show ?case by simp
next
  case (Cons m ms)
  obtain key val where m: "m = (key, val)" by (metis surj_pair)
  show ?case
  proof (cases "policy_build_role b val")
    case None
    then have "groups_loop w (m # ms) b = Some (Some EINVAL, b)" by (simp add: m)
    then show ?thesis using Cons.prems by (intro exI [of _ "Some EINVAL"] exI [of _ b]) simp
  next
    case (Some i)
    obtain r th nss where g: "policy_build_gid w b key = Some (r, b\<lparr>pb_thread := th, pb_nss := nss\<rparr>)" "store_ok hs (b\<lparr>pb_thread := th, pb_nss := nss\<rparr>)"
        "case r of Inl e \<Rightarrow> e = EINVAL \<or> e = ENOMEM | Inr gid \<Rightarrow> gid_of w key gid"
      using build_gid_spec [OF junk Cons.prems(3), of key] by (elim exE conjE)
    let ?b = "b\<lparr>pb_thread := th, pb_nss := nss\<rparr>"
    have bt: "built w ids grps anon ?b" "still ?b = still b" using Cons.prems(2) by (simp_all add: store_built)
    show ?thesis
    proof (cases r)
      case (Inl e)
      then have "groups_loop w (m # ms) b = Some (Some e, ?b)" using Some g(1) by (simp add: m)
      then show ?thesis using g(2,3) bt Inl by (intro exI [of _ "Some e"] exI [of _ ?b]) auto
    next
      case (Inr gid)
      show ?thesis
      proof (cases "gid = po_overflow_gid (pb_p b) \<or> policy_ranges_have (pb_subgids b) gid")
        case True
        then have "groups_loop w (m # ms) b = Some (Some EINVAL, ?b)" using Some g(1) Inr by (auto simp: m)
        then show ?thesis using g(2) bt by (intro exI [of _ "Some EINVAL"] exI [of _ ?b]) simp
      next
        case False
        let ?g = "\<lparr>pg_gid = gid, pg_role = of_nat i\<rparr>"
        let ?c = "?b\<lparr>pb_p := (pb_p ?b)\<lparr>po_groups := po_groups (pb_p ?b) @ [?g]\<rparr>\<rparr>"
        have "role_at (pb_roles b) val i" using Some by (simp add: build_role_iff)
        moreover have "(key, val) \<in> set (json_members grps)" using Cons.prems(1) m by simp
        moreover have "gid_of w key gid" using g(3) Inr by simp
        ultimately have "group_from w (pb_roles b) grps b ?g" using False unfolding group_from_def by auto
        moreover have "group_from w roles grps ?c = group_from w roles grps b" for roles by (rule ext) (simp add: group_from_def)
        ultimately have c: "built w ids grps anon ?c" using Cons.prems(2) by (simp add: built_def ball_Un)
        have run: "groups_loop w (m # ms) b = groups_loop w ms ?c" using Some g(1) Inr False by (simp add: m)
        have s: "store_ok hs ?c" using g(2) by (simp add: store_ok_def)
        have "set ms \<subseteq> set (json_members grps)" using Cons.prems(1) by simp
        from Cons.IH [OF this c s] obtain e b' where "groups_loop w ms ?c = Some (e, b')" "built w ids grps anon b'" "still b' = still ?c" "store_ok hs b'"
            "pb_names b' = pb_names ?c" "po_tokens (pb_p b') = po_tokens (pb_p ?c)"
            "length (po_groups (pb_p b')) \<le> length (po_groups (pb_p ?c)) + length ms" "e = None \<or> e = Some EINVAL \<or> e = Some ENOMEM"
          by (elim exE conjE)
        moreover have "still ?c = still b" by (simp add: still_def)
        ultimately show ?thesis unfolding run by (intro exI [of _ e] exI [of _ b']) simp
      qed
    qed
  qed
qed

lemma index_less: "cstr_view_index names key \<noteq> length names \<Longrightarrow> cstr_view_index names key < length names \<and> names ! cstr_view_index names key = key"
  by (induction names) auto

lemma kinds: "length policy_kinds = POLICY_KINDS" "k < POLICY_KINDS \<Longrightarrow> length (policy_kinds ! k) \<le> 8"
  by (auto simp: policy_kinds_def POLICY_KINDS_def less_Suc_eq numeral_3_eq_3)

definition roles_fit :: "policy_build \<Rightarrow> bool" where
  "roles_fit b \<longleftrightarrow> length (po_roles (pb_p b)) = length (json_members (pb_roles b)) \<and> (\<forall>r \<in> set (po_roles (pb_p b)). length (gr_who r) \<le> 5 + POLICY_NAME)"

lemma still_fit: "still b = still c \<Longrightarrow> roles_fit b = roles_fit c"
  by (simp add: still_def roles_fit_def)

lemma stranger_spec:
  assumes m: "(key, val) \<in> set (json_members anon)" and b: "built w ids grps anon b" and fit: "roles_fit b"
    and s: "build_stranger (key, val) b = (e, b')"
  shows "built w ids grps anon b' \<and> still b' = still b \<and> pb_thread b' = pb_thread b \<and> pb_nss b' = pb_nss b \<and>
    po_tokens (pb_p b') = po_tokens (pb_p b) \<and> po_groups (pb_p b') = po_groups (pb_p b) \<and>
    (e = None \<or> e = Some EINVAL) \<and>
    pb_names b' \<le> pb_names b + (if key \<in> set policy_kinds then POLICY_WHO - 1 else 0) \<and> (e = None \<longrightarrow> key \<in> set policy_kinds)"
proof -
  define k where "k = cstr_view_index policy_kinds key"
  show ?thesis
  proof (cases "k = POLICY_KINDS")
    case True
    then have "e = Some EINVAL" "b' = b" using s by (simp_all add: build_stranger_def k_def)
    then show ?thesis using b by simp
  next
    case False
    have k: "k < POLICY_KINDS" "policy_kinds ! k = key" using index_less [of policy_kinds key] False kinds(1) by (simp_all add: k_def)
    have key: "key \<in> set policy_kinds" using k kinds(1) by (metis nth_mem)
    obtain e1 role where r: "policy_build_kind b val = (e1, role)" by (metis surj_pair)
    have rf: "e1 = None \<or> e1 = Some EINVAL" "anon_from (pb_roles b) anon k role"
      using r m k(2) by (auto simp: policy_build_kind_def anon_from_def build_role_iff split: if_splits option.splits)
    define c where "c = b\<lparr>pb_p := (pb_p b)\<lparr>po_anonymous := (po_anonymous (pb_p b))[k := role]\<rparr>\<rparr>"
    have gc: "group_from w roles grps c = group_from w roles grps b" for roles by (rule ext) (simp add: c_def group_from_def)
    have "anon_from (pb_roles b) anon j ((po_anonymous (pb_p b))[k := role] ! j)" if "j < POLICY_KINDS" for j
      using b rf(2) that by (cases "j = k") (simp_all add: built_def)
    then have bc: "built w ids grps anon c" using b unfolding built_def gc by (simp add: c_def)
    have sc: "still c = still b" "pb_thread c = pb_thread b" "pb_nss c = pb_nss b" "po_tokens (pb_p c) = po_tokens (pb_p b)"
        "po_groups (pb_p c) = po_groups (pb_p b)" "pb_names c = pb_names b" by (simp_all add: c_def still_def)
    show ?thesis
    proof (cases "e1 \<noteq> None \<or> role = None")
      case True
      then have "e = e1 \<and> b' = c" using s r False
        by (cases e1; cases role) (auto simp: build_stranger_def k_def [symmetric] c_def Let_def)
      then show ?thesis using rf bc sc key by simp
    next
      case nf: False
      then obtain i where i: "role = Some i" "e1 = None" by auto
      have ri: "role_at (pb_roles b) val i" using r i by (auto simp: policy_build_kind_def build_role_iff split: if_splits option.splits)
      define parts where "parts = [ascii ''anonymous '', policy_kinds ! k, ascii '' ('', gr_who (po_roles (pb_p c) ! i), ascii '')'']"
      have "i < length (po_roles (pb_p b))" using role_at_less [OF ri] fit by (simp add: roles_fit_def)
      then have "length (gr_who (po_roles (pb_p b) ! i)) \<le> 5 + POLICY_NAME" using fit by (simp add: roles_fit_def)
      then have len: "length (concat parts) \<le> POLICY_WHO - 1" using kinds(2) [OF k(1)] by (simp add: parts_def c_def POLICY_WHO_def POLICY_NAME_def)
      define d where "d = c\<lparr>pb_names := pb_names c + length (concat parts), pb_p := (pb_p c)\<lparr>po_strangers := (po_strangers (pb_p c))[k := concat parts]\<rparr>\<rparr>"
      have res: "e = None" "b' = d" using s r False i by (simp_all add: build_stranger_def k_def [symmetric] c_def Let_def policy_build_who_def parts_def d_def)
      have gd: "group_from w roles grps d = group_from w roles grps c" for roles by (rule ext) (simp add: d_def group_from_def)
      have "built w ids grps anon d" using bc len unfolding built_def gd by (auto simp: d_def dest: set_update_subset_insert [THEN subsetD])
      moreover have "still d = still c" "pb_thread d = pb_thread c" "pb_nss d = pb_nss c" "po_tokens (pb_p d) = po_tokens (pb_p c)"
        "po_groups (pb_p d) = po_groups (pb_p c)" "pb_names d \<le> pb_names c + (POLICY_WHO - 1)" using len by (simp_all add: d_def still_def)
      ultimately show ?thesis using res sc key by simp
    qed
  qed
qed

lemma strangers_spec:
  "set ms \<subseteq> set (json_members anon) \<Longrightarrow> built w ids grps anon b \<Longrightarrow> roles_fit b \<Longrightarrow> each build_stranger ms b = (e, b') \<Longrightarrow>
     built w ids grps anon b' \<and> still b' = still b \<and> pb_thread b' = pb_thread b \<and> pb_nss b' = pb_nss b \<and>
     po_tokens (pb_p b') = po_tokens (pb_p b) \<and> po_groups (pb_p b') = po_groups (pb_p b) \<and> (e = None \<or> e = Some EINVAL) \<and>
     pb_names b' \<le> pb_names b + length (filter (\<lambda>m. fst m \<in> set policy_kinds) ms) * (POLICY_WHO - 1)"
proof (induction ms arbitrary: b)
  case (Cons m ms)
  obtain key val where m: "m = (key, val)" by (metis surj_pair)
  obtain e1 b1 where o: "build_stranger (key, val) b = (e1, b1)" by (metis surj_pair)
  have "(key, val) \<in> set (json_members anon)" using Cons.prems(1) m by simp
  note one = stranger_spec [OF this Cons.prems(2,3) o]
  show ?case
  proof (cases e1)
    case (Some x)
    then have "e = Some x" "b' = b1" using Cons.prems(4) o m by simp_all
    then show ?thesis using one Some m by auto
  next
    case None
    then have run: "each build_stranger ms b1 = (e, b')" using Cons.prems(4) o m by simp
    have "roles_fit b1" using still_fit [of b1 b] one Cons.prems(3) by simp
    from Cons.IH [OF _ _ this run] show ?thesis using one None Cons.prems(1) m by auto
  qed
qed simp

lemma kinds_filter: "distinct (map fst ms) \<Longrightarrow> length (filter (\<lambda>m. fst m \<in> set policy_kinds) ms) \<le> POLICY_KINDS"
proof -
  assume d: "distinct (map fst ms)"
  let ?f = "filter (\<lambda>m. fst m \<in> set policy_kinds) ms"
  have "distinct (map fst ?f)" using d by (induction ms) auto
  then have "card (set (map fst ?f)) = length ?f" by (metis distinct_card length_map)
  moreover have "card (set (map fst ?f)) \<le> card (set policy_kinds)" by (intro card_mono) auto
  moreover have "card (set policy_kinds) \<le> POLICY_KINDS" using card_length [of policy_kinds] kinds(1) by simp
  ultimately show ?thesis by simp
qed

definition token_room :: "bytes \<times> json \<Rightarrow> nat" where
  "token_room m = jb_len (jb_get (snd m) (ascii ''tokens''))"

lemma identity_sizes:
  assumes d: "distinct (map fst (json_members (snd m)))"
  shows "pb_names (snd (policy_build_identity w m b)) \<le> pb_names b + (9 + POLICY_NAME) \<and>
    length (po_tokens (pb_p (snd (policy_build_identity w m b)))) \<le> length (po_tokens (pb_p b)) + token_room m \<and>
    po_groups (pb_p (snd (policy_build_identity w m b))) = po_groups (pb_p b)"
proof -
  obtain who idv where wi: "m = (who, idv)" by (metis surj_pair)
  obtain e b' where r: "policy_build_identity w (who, idv) b = (e, b')" by (metis surj_pair)
  obtain n ts where b': "b' = b\<lparr>pb_names := n, pb_p := (pb_p b)\<lparr>po_tokens := po_tokens (pb_p b) @ ts\<rparr>\<rparr>" "n \<le> pb_names b + (9 + POLICY_NAME)"
      "ts \<noteq> [] \<longrightarrow> (\<exists>v specs. identity_loop (json_members idv) (JNull, JNull) = (True, v, JArray specs) \<and> length ts \<le> length specs \<and>
       (ascii ''role'', v) \<in> set (json_members idv) \<and> (ascii ''tokens'', JArray specs) \<in> set (json_members idv) \<and> length who \<le> POLICY_NAME \<and>
       (\<forall>t \<in> set ts. tk_who t = ascii ''identity '' @ who \<and> role_at (pb_roles b) v (tk_role t) \<and>
          (\<exists>spec \<in> set specs. policy_build_token w spec = Inr (tk_digest t))))"
    using identity_spec [OF r] by (elim exE conjE)
  have "length ts \<le> token_room m"
  proof (cases "ts = []")
    case False
    then obtain specs where "length ts \<le> length specs" "(ascii ''tokens'', JArray specs) \<in> set (json_members idv)" using b'(3) by blast
    then show ?thesis using d wi by (simp add: token_room_def jb_get_def json_get_ex_def jb_len_def json_is_array_def)
  qed simp
  then show ?thesis using b'(1,2) unfolding wi r snd_conv by simp
qed

lemma identities_sizes:
  assumes "\<forall>m \<in> set (json_members ids). distinct (map fst (json_members (snd m)))" "policy_build_identities w ids b = (e, b')"
  shows "pb_names b' \<le> pb_names b + length (json_members ids) * (9 + POLICY_NAME) \<and>
    length (po_tokens (pb_p b')) \<le> length (po_tokens (pb_p b)) + sum_list (map token_room (json_members ids)) \<and>
    po_groups (pb_p b') = po_groups (pb_p b)"
proof -
  let ?ms = "json_members ids"
  obtain e1 b1 where r: "each (policy_build_identity w) ?ms b = (e1, b1)" by (metis surj_pair)
  have "pb_names (snd (each (policy_build_identity w) ?ms b)) \<le> pb_names b + sum_list (map (\<lambda>m. 9 + POLICY_NAME) ?ms)"
    by (rule each_sum) (use identity_sizes assms(1) in blast)
  moreover have "length (po_tokens (pb_p (snd (each (policy_build_identity w) ?ms b)))) \<le> length (po_tokens (pb_p b)) + sum_list (map token_room ?ms)"
    by (rule each_sum [where size' = "\<lambda>b. length (po_tokens (pb_p b))"]) (use identity_sizes assms(1) in blast)
  moreover have "po_groups (pb_p (snd (each (policy_build_identity w) ?ms b))) = po_groups (pb_p b)"
    by (rule each_inv [where I = "\<lambda>s. po_groups (pb_p s) = po_groups (pb_p b)"]) (use identity_sizes assms(1) in \<open>auto simp del: ball_simps\<close>)
  ultimately show ?thesis using assms(2) unfolding r
    by (auto simp: policy_build_identities_def r Let_def sum_list_triv split: if_splits option.splits)
qed

lemma each_error:
  "(\<And>x s. fst (f x s) = None \<or> fst (f x s) = Some err) \<Longrightarrow> fst (each f xs s) = None \<or> fst (each f xs s) = Some err"
proof (induction xs arbitrary: s)
  case (Cons x xs)
  obtain e t where f: "f x s = (e, t)" by (metis surj_pair)
  show ?case using Cons.IH [OF Cons.prems, of t] Cons.prems [of x s] f by (cases e) auto
qed simp

lemma token_error: "policy_build_token w spec = Inl e \<Longrightarrow> e = EINVAL"
  by (auto simp: policy_build_token_def Let_def split: option.splits if_splits)

lemma identities_error: "fst (policy_build_identities w ids b) = None \<or> fst (policy_build_identities w ids b) = Some EINVAL"
proof -
  have add: "fst (build_token_add w name r spec s) = None \<or> fst (build_token_add w name r spec s) = Some EINVAL" for name r spec s
    using token_error by (auto simp: build_token_add_def split: sum.splits)
  have "policy_build_identity w m s = (Some EINVAL, s) \<or> (\<exists>n r specs b. policy_build_identity w m s = each (build_token_add w n r) specs b)" for m s
  proof -
    obtain who idv where m: "m = (who, idv)" by (metis surj_pair)
    obtain known v tokens where l: "identity_loop (json_members idv) (JNull, JNull) = (known, v, tokens)" by (metis surj_pair)
    define Q where "Q x \<longleftrightarrow> x = (Some EINVAL, s) \<or> (\<exists>n r specs b. x = each (build_token_add w n r) specs b)" for x
    have Q: "Q (Some EINVAL, s)" "Q (each (build_token_add w n r) specs b)" for n r specs b by (auto simp only: Q_def)
    have "Q (policy_build_identity w m s)"
      unfolding policy_build_identity_def m prod.case Let_def l policy_build_who_def
      by (cases "policy_build_role s v") (simp_all only: option.case Q if_splits simp_thms)
    then show ?thesis unfolding Q_def .
  qed
  then have "fst (policy_build_identity w m s) = None \<or> fst (policy_build_identity w m s) = Some EINVAL" for m s
    using each_error [of "build_token_add w _ _", OF add] by (metis fst_conv)
  then have "fst (each (policy_build_identity w) (json_members ids) b) = None \<or> fst (each (policy_build_identity w) (json_members ids) b) = Some EINVAL"
    by (rule each_error)
  then show ?thesis by (auto simp: policy_build_identities_def Let_def split: prod.splits option.splits)
qed

lemma neighbours_distinct: "sorted (map tk_digest ts) \<Longrightarrow> \<not> same_neighbours ts \<Longrightarrow> distinct (map tk_digest ts)"
proof (induction ts rule: same_neighbours.induct)
  case (1 s t ts)
  have d: "distinct (map tk_digest (t # ts))" using 1 by simp
  have "tk_digest s \<noteq> tk_digest t" "tk_digest s \<le> tk_digest t" using "1.prems" by simp_all
  then have "tk_digest s < tk_digest t" by simp
  moreover have "\<forall>u \<in> set ts. tk_digest t \<le> tk_digest u" using "1.prems"(1) by simp
  ultimately have "tk_digest s \<notin> tk_digest ` set (t # ts)" by fastforce
  then show ?case using d by simp
qed simp_all

lemma identities_distinct:
  assumes "policy_build_identities w ids b = (None, b')" "po_tokens (pb_p b) = []"
  shows "distinct (map tk_digest (po_tokens (pb_p b'))) \<and> sorted (map tk_digest (po_tokens (pb_p b')))"
proof (cases "ids = JNull")
  case True
  then show ?thesis using assms by (simp add: policy_build_identities_def)
next
  case False
  obtain e1 b1 where r: "each (policy_build_identity w) (json_members ids) b = (e1, b1)" by (metis surj_pair)
  define ts where "ts = sort_key tk_digest (po_tokens (pb_p b1))"
  have "\<not> same_neighbours ts" "po_tokens (pb_p b') = ts"
    using assms(1) False unfolding policy_build_identities_def r
    by (auto simp: Let_def ts_def split: if_splits option.splits)
  moreover have "sorted (map tk_digest ts)" by (simp add: ts_def)
  ultimately show ?thesis using neighbours_distinct by simp
qed

text \<open>What no step of building a policy from a file changes.\<close>

definition base :: "policy_build \<Rightarrow> json \<times> policy_range list \<times> policy_range list \<times> bytes \<times> u32 \<times> u32 \<times> bool \<times> u64" where
  "base b = (pb_roles b, pb_subgids b, po_subuids (pb_p b), po_key (pb_p b), po_overflow_uid (pb_p b),
     po_overflow_gid (pb_p b), po_unix_token (pb_p b), po_refs (pb_p b))"

lemma still_base: "still b = still c \<Longrightarrow> base b = base c \<and> po_roles (pb_p b) = po_roles (pb_p c)"
  by (simp add: still_def base_def)

lemma with_roles_rest:
  assumes "with_roles b c"
  shows "base c = base b" "pb_thread c = pb_thread b" "pb_nss c = pb_nss b" "po_tokens (pb_p c) = po_tokens (pb_p b)"
    "po_groups (pb_p c) = po_groups (pb_p b)" "built w ids grps anon c = built w ids grps anon b"
proof -
  obtain n rs where c: "c = b\<lparr>pb_names := n, pb_p := (pb_p b)\<lparr>po_roles := rs\<rparr>\<rparr>" using assms by (auto simp: with_roles_def)
  show "base c = base b" "pb_thread c = pb_thread b" "pb_nss c = pb_nss b" "po_tokens (pb_p c) = po_tokens (pb_p b)"
    "po_groups (pb_p c) = po_groups (pb_p b)" by (simp_all add: c base_def)
  have "group_from w roles grps c = group_from w roles grps b" for roles by (rule ext) (simp add: c group_from_def)
  then show "built w ids grps anon c = built w ids grps anon b" by (simp add: c built_def)
qed

definition json_distinct :: "json \<Rightarrow> json \<Rightarrow> bool" where
  "json_distinct ids anon \<longleftrightarrow> distinct (map fst (json_members anon)) \<and> (\<forall>m \<in> set (json_members ids). distinct (map fst (json_members (snd m))))"

text \<open>The storage that a builder has used, against the room for it.\<close>

definition within_room :: "json \<Rightarrow> json \<Rightarrow> policy_build \<Rightarrow> bool" where
  "within_room ids grps b \<longleftrightarrow>
     length (po_roles (pb_p b)) \<le> length (json_members (pb_roles b)) \<and>
     length (po_tokens (pb_p b)) \<le> sum_list (map token_room (json_members ids)) \<and>
     length (po_groups (pb_p b)) \<le> length (json_members grps) \<and>
     pb_names b \<le> length (json_members (pb_roles b)) * (5 + POLICY_NAME) + length (json_members ids) * (9 + POLICY_NAME) +
       POLICY_KINDS * (POLICY_WHO - 1)"

lemma roles_spec:
  assumes reg: "reg_ok spare (pb_reg b)" and r: "policy_build_roles b = (e, c)" and z: "po_roles (pb_p b) = []"
  shows "with_roles b c \<and> pb_names c \<le> pb_names b + length (json_members (pb_roles b)) * (5 + POLICY_NAME) \<and>
    length (po_roles (pb_p c)) \<le> length (json_members (pb_roles b)) \<and> (e = None \<or> e = Some EINVAL) \<and>
    (e = None \<longrightarrow> list_all2 (role_from (pb_reg b) (pb_upstream b)) (json_members (pb_roles b)) (po_roles (pb_p c)))"
proof (cases "json_is_object (pb_roles b)")
  case False
  then have "c = b" "e = None \<longrightarrow> pb_roles b = JNull" "e = None \<or> e = Some EINVAL" using r by (auto simp: policy_build_roles_def split: if_splits)
  then show ?thesis using z with_roles_same by auto
next
  case True
  then have "each policy_build_role_one (json_members (pb_roles b)) b = (e, c)" using r by (auto simp: policy_build_roles_def json_is_object_def split: if_splits)
  from build_roles_each [OF reg this] show ?thesis using z by auto
qed

lemma role_from_who: "role_from reg up m r \<Longrightarrow> length (gr_who r) \<le> 5 + POLICY_NAME"
proof -
  assume r: "role_from reg up m r"
  obtain name members where m: "m = (name, members)" by (metis surj_pair)
  have "gr_who r = ascii ''role '' @ name" "policy_name_len name = length name" using r by (simp_all add: role_from_def m)
  moreover have "policy_name_len name \<le> POLICY_NAME" by (simp add: name_len)
  ultimately show ?thesis by simp
qed

lemma roles_who:
  assumes "list_all2 (role_from reg up) ms rs"
  shows "\<forall>r \<in> set rs. length (gr_who r) \<le> 5 + POLICY_NAME"
proof
  fix r
  assume "r \<in> set rs"
  then obtain i where "i < length rs" "r = rs ! i" by (metis in_set_conv_nth)
  then have "role_from reg up (ms ! i) r" using assms by (simp add: list_all2_conv_all_nth)
  then show "length (gr_who r) \<le> 5 + POLICY_NAME" by (rule role_from_who)
qed

lemma file_spec:
  assumes junk: "junk_ok (os_junk w)" and reg: "reg_ok spare (pb_reg b)" and st: "store_ok hs b"
    and z: "po_roles (pb_p b) = []" "po_tokens (pb_p b) = []" "po_groups (pb_p b) = []" "pb_names b = 0"
    and bu: "built w ids grps anon b"
  shows "\<exists>e b'. policy_build_file w ids grps anon b = Some (e, b') \<and> built w ids grps anon b' \<and> store_ok hs b' \<and> base b' = base b \<and>
    (e = None \<or> e = Some EINVAL \<or> e = Some ENOMEM) \<and>
    (e = None \<longrightarrow> list_all2 (role_from (pb_reg b) (pb_upstream b)) (json_members (pb_roles b)) (po_roles (pb_p b')) \<and>
       distinct (map tk_digest (po_tokens (pb_p b'))) \<and> sorted (map tk_digest (po_tokens (pb_p b')))) \<and>
    (json_distinct ids anon \<longrightarrow> within_room ids grps b')"
proof -
  obtain e1 b1 where r: "policy_build_roles b = (e1, b1)" by (metis surj_pair)
  note rs = roles_spec [OF reg r z(1)]
  have w1: "with_roles b b1" using rs by blast
  note f1 = with_roles_rest [OF w1]
  have roles1: "pb_roles b1 = pb_roles b" using with_roles_frame [OF w1] by simp
  have st1: "store_ok hs b1" using st by (simp add: store_ok_def f1)
  have bu1: "built w ids grps anon b1" using bu f1 by blast
  have room1: "within_room ids grps b1" using rs z by (simp add: within_room_def f1(4,5) roles1)
  show ?thesis
  proof (cases e1)
    case (Some x)
    then have "policy_build_file w ids grps anon b = Some (Some x, b1)" using r by (simp add: policy_build_file_def)
    then show ?thesis using bu1 st1 f1(1) room1 rs Some by (intro exI [of _ "Some x"] exI [of _ b1]) auto
  next
    case n1: None
    have l2: "list_all2 (role_from (pb_reg b) (pb_upstream b)) (json_members (pb_roles b)) (po_roles (pb_p b1))" using rs n1 by blast
    have fit1: "roles_fit b1"
      using roles_who [OF l2] l2 by (simp add: roles_fit_def roles1 list_all2_lengthD)
    obtain e2 b2 where i: "policy_build_identities w ids b1 = (e2, b2)" by (metis surj_pair)
    note idn = identities_built [OF bu1 i]
    have sb2: "base b2 = base b" "po_roles (pb_p b2) = po_roles (pb_p b1)" "pb_roles b2 = pb_roles b" using still_base [of b2 b1] idn f1(1) by (simp_all add: base_def)
    have st2: "store_ok hs b2" using st1 idn by (simp add: store_ok_def)
    have e2: "e2 = None \<or> e2 = Some EINVAL" using identities_error [of w ids b1] i by simp
    have sz2: "pb_names b2 \<le> length (json_members (pb_roles b)) * (5 + POLICY_NAME) + length (json_members ids) * (9 + POLICY_NAME)"
        "length (po_tokens (pb_p b2)) \<le> sum_list (map token_room (json_members ids))" "po_groups (pb_p b2) = []" if "json_distinct ids anon"
      using identities_sizes [OF _ i] that rs z f1(4,5) by (auto simp: json_distinct_def)
    have room2: "json_distinct ids anon \<longrightarrow> within_room ids grps b2"
      using sz2 rs by (auto simp: within_room_def sb2)
    show ?thesis
    proof (cases e2)
      case (Some x)
      then have "policy_build_file w ids grps anon b = Some (Some x, b2)" using r n1 i by (simp add: policy_build_file_def)
      then show ?thesis using idn st2 sb2 room2 e2 Some by (intro exI [of _ "Some x"] exI [of _ b2]) auto
    next
      case n2: None
      have dist: "distinct (map tk_digest (po_tokens (pb_p b2)))" "sorted (map tk_digest (po_tokens (pb_p b2)))"
        using identities_distinct [OF i [unfolded n2]] z f1(4) by simp_all
      have g: "\<exists>e b3. policy_build_groups w grps b2 = Some (e, b3) \<and> built w ids grps anon b3 \<and> still b3 = still b2 \<and> store_ok hs b3 \<and>
          pb_names b3 = pb_names b2 \<and> po_tokens (pb_p b3) = po_tokens (pb_p b2) \<and>
          length (po_groups (pb_p b3)) \<le> length (po_groups (pb_p b2)) + length (json_members grps) \<and> (e = None \<or> e = Some EINVAL \<or> e = Some ENOMEM)"
      proof (cases "json_is_object grps")
        case True
        then have "policy_build_groups w grps b2 = groups_loop w (json_members grps) b2" by (auto simp: policy_build_groups_def json_is_object_def)
        then show ?thesis using groups_spec [OF junk subset_refl, where grps = grps and ids = ids and anon = anon and b = b2 and hs = hs] idn st2 by simp
      next
        case False
        then obtain e where "policy_build_groups w grps b2 = Some (e, b2)" "e = None \<or> e = Some EINVAL"
          by (cases "grps = JNull") (auto simp: policy_build_groups_def)
        then show ?thesis using idn st2 by auto
      qed
      obtain e3 b3 where g3: "policy_build_groups w grps b2 = Some (e3, b3)" "built w ids grps anon b3" "still b3 = still b2" "store_ok hs b3"
          "pb_names b3 = pb_names b2" "po_tokens (pb_p b3) = po_tokens (pb_p b2)"
          "length (po_groups (pb_p b3)) \<le> length (po_groups (pb_p b2)) + length (json_members grps)" "e3 = None \<or> e3 = Some EINVAL \<or> e3 = Some ENOMEM"
        using g by (elim exE conjE)
      have sb3: "base b3 = base b" "po_roles (pb_p b3) = po_roles (pb_p b1)" "pb_roles b3 = pb_roles b" using still_base [OF g3(3)] sb2 by (simp_all add: base_def)
      have room3: "json_distinct ids anon \<longrightarrow> within_room ids grps b3"
        using room2 sz2(3) g3(5-7) by (auto simp: within_room_def sb3 sb2)
      show ?thesis
      proof (cases e3)
        case (Some x)
        then have "policy_build_file w ids grps anon b = Some (Some x, b3)" using r n1 i n2 g3(1) by (simp add: policy_build_file_def)
        then show ?thesis using g3 sb3 room3 Some by (intro exI [of _ "Some x"] exI [of _ b3]) auto
      next
        case n3: None
        obtain e4 b4 where a: "policy_build_anonymous anon b3 = (e4, b4)" by (metis surj_pair)
        have run: "policy_build_file w ids grps anon b = Some (e4, b4)" using r n1 i n2 g3(1) n3 a by (simp add: policy_build_file_def)
        have fit3: "roles_fit b3" using fit1 sb3 roles1 by (simp add: roles_fit_def)
        have s: "built w ids grps anon b4 \<and> still b4 = still b3 \<and> pb_thread b4 = pb_thread b3 \<and> pb_nss b4 = pb_nss b3 \<and>
            po_tokens (pb_p b4) = po_tokens (pb_p b3) \<and> po_groups (pb_p b4) = po_groups (pb_p b3) \<and> (e4 = None \<or> e4 = Some EINVAL) \<and>
            pb_names b4 \<le> pb_names b3 + length (filter (\<lambda>m. fst m \<in> set policy_kinds) (json_members anon)) * (POLICY_WHO - 1)"
        proof (cases "json_is_object anon")
          case True
          then have "each build_stranger (json_members anon) b3 = (e4, b4)" using a by (cases anon) (simp_all add: policy_build_anonymous_def json_is_object_def)
          from strangers_spec [OF subset_refl g3(2) fit3 this] show ?thesis .
        next
          case False
          then have "b4 = b3" "e4 = None \<or> e4 = Some EINVAL" using a by (auto simp: policy_build_anonymous_def split: if_splits)
          then show ?thesis using g3(2) by simp
        qed
        have sb4: "base b4 = base b" "po_roles (pb_p b4) = po_roles (pb_p b1)" "pb_roles b4 = pb_roles b" using still_base [of b4 b3] s sb3 by (simp_all add: base_def)
        have st4: "store_ok hs b4" using g3(4) s by (simp add: store_ok_def)
        have "within_room ids grps b4" if j: "json_distinct ids anon"
        proof -
          have "length (filter (\<lambda>m. fst m \<in> set policy_kinds) (json_members anon)) * (POLICY_WHO - 1) \<le> POLICY_KINDS * (POLICY_WHO - 1)"
            using kinds_filter [of "json_members anon"] j by (intro mult_right_mono) (simp_all add: json_distinct_def)
          then have "pb_names b4 \<le> pb_names b2 + POLICY_KINDS * (POLICY_WHO - 1)" using s g3(5) by linarith
          then have "pb_names b4 \<le> length (json_members (pb_roles b)) * (5 + POLICY_NAME) + length (json_members ids) * (9 + POLICY_NAME) + POLICY_KINDS * (POLICY_WHO - 1)"
            using sz2(1) [OF j] by linarith
          moreover have "po_tokens (pb_p b4) = po_tokens (pb_p b3)" "po_groups (pb_p b4) = po_groups (pb_p b3)" using s by simp_all
          ultimately show ?thesis using mp [OF room3 j] unfolding within_room_def sb4 sb3 by simp
        qed
        then show ?thesis using run s st4 sb4 l2 dist g3(6) by (intro exI [of _ e4] exI [of _ b4]) auto
      qed
    qed
  qed
qed

section \<open>Facts: principals\<close>

lemma word_exp_bit: "n < 64 \<Longrightarrow> bit (2 ^ n :: u64) k \<longleftrightarrow> k = n"
  by (auto simp: bit_exp_iff)

lemma identity_bit: "bit POLICY_IDENTITY k \<longleftrightarrow> k = 62"
  unfolding POLICY_IDENTITY_def push_bit_of_1 by (rule word_exp_bit) simp

lemma principal_bits:
  assumes tag: "tag = 0 \<or> tag = POLICY_IDENTITY" and h: "policy_principal_of w p tag txt = Inr h"
  shows "h \<noteq> 0 \<and> \<not> bit h 63 \<and> (bit h 62 \<longleftrightarrow> tag = POLICY_IDENTITY)"
proof -
  obtain x :: u64 where x: "h = ((x AND (POLICY_IDENTITY - 1)) OR tag) + of_bool ((x AND (POLICY_IDENTITY - 1)) OR tag = 0)"
    using h by (auto simp: policy_principal_of_def Let_def split: option.splits if_splits)
  define y where "y = (x AND (POLICY_IDENTITY - 1)) OR tag"
  have m: "POLICY_IDENTITY - 1 = mask 62" by (simp add: POLICY_IDENTITY_def mask_eq_exp_minus_1)
  have t: "bit tag k \<longleftrightarrow> tag = POLICY_IDENTITY \<and> k = 62" for k
    using tag identity_bit [of k] by auto
  have b: "bit y k \<longleftrightarrow> bit x k \<and> k < 62 \<or> tag = POLICY_IDENTITY \<and> k = 62" for k
    by (auto simp: y_def m bit_or_iff bit_and_iff bit_mask_iff t dest: bit_imp_possible_bit)
  show ?thesis
  proof (cases "y = 0")
    case True
    then have "tag \<noteq> POLICY_IDENTITY" using b [of 62] by auto
    moreover have "h = 1" using x True by (simp add: y_def)
    ultimately show ?thesis by (simp add: bit_1_iff)
  next
    case False
    then have "h = y" using x by (simp add: y_def)
    then show ?thesis using False b [of 62] b [of 63] by simp
  qed
qed

lemma principals_loop_spec:
  "principals_loop w p ts = (e, ts') \<Longrightarrow>
     map tk_digest ts' = map tk_digest ts \<and> map tk_who ts' = map tk_who ts \<and> map tk_role ts' = map tk_role ts \<and>
     (e = None \<longrightarrow> (\<forall>t \<in> set ts'. bit (tk_principal t) 62 \<and> \<not> bit (tk_principal t) 63))"
proof (induction ts arbitrary: ts' e)
  case (Cons t ts)
  show ?case
  proof (cases "policy_principal_identity w p (tk_who t)")
    case (Inl x)
    then show ?thesis using Cons.prems by auto
  next
    case (Inr h)
    obtain e1 ts1 where r: "principals_loop w p ts = (e1, ts1)" by (metis surj_pair)
    have "bit h 62 \<and> \<not> bit h 63"
      using Inr principal_bits [of POLICY_IDENTITY w p _ h] by (auto simp: policy_principal_identity_def Let_def split: if_splits)
    moreover have "e = e1" "ts' = t\<lparr>tk_principal := h\<rparr> # ts1" using Cons.prems Inr r by simp_all
    ultimately show ?thesis using Cons.IH [OF r] by simp
  qed
qed simp

lemma principals_loop_good:
  "principals_loop w p ts = (e, ts') \<Longrightarrow> \<forall>t \<in> set ts. bit (tk_principal t) 62 \<and> \<not> bit (tk_principal t) 63 \<Longrightarrow>
     \<forall>t \<in> set ts'. bit (tk_principal t) 62 \<and> \<not> bit (tk_principal t) 63"
proof (induction ts arbitrary: ts' e)
  case (Cons t ts)
  show ?case
  proof (cases "policy_principal_identity w p (tk_who t)")
    case (Inl x)
    then show ?thesis using Cons.prems by auto
  next
    case (Inr h)
    obtain e1 ts1 where r: "principals_loop w p ts = (e1, ts1)" by (metis surj_pair)
    have "bit h 62 \<and> \<not> bit h 63"
      using Inr principal_bits [of POLICY_IDENTITY w p _ h] by (auto simp: policy_principal_identity_def Let_def split: if_splits)
    moreover have "ts' = t\<lparr>tk_principal := h\<rparr> # ts1" using Cons.prems(1) Inr r by simp
    moreover have "\<forall>t \<in> set ts1. bit (tk_principal t) 62 \<and> \<not> bit (tk_principal t) 63" by (rule Cons.IH [OF r]) (use Cons.prems(2) in simp)
    ultimately show ?thesis by simp
  qed
qed simp

text \<open>The principals of identities are theirs.\<close>

definition principals_ok :: "policy \<Rightarrow> bool" where
  "principals_ok p \<longleftrightarrow> (\<forall>t \<in> set (po_tokens p). bit (tk_principal t) 62 \<and> \<not> bit (tk_principal t) 63)"

text \<open>Every role that is named is there, no two tokens have a digest in common, and the ranges can be searched.\<close>

definition policy_ok :: "policy \<Rightarrow> bool" where
  "policy_ok p \<longleftrightarrow>
     (\<forall>t \<in> set (po_tokens p). tk_role t < length (po_roles p)) \<and> (\<forall>g \<in> set (po_groups p). unat (pg_role g) < length (po_roles p)) \<and>
     length (po_anonymous p) = POLICY_KINDS \<and> length (po_strangers p) = POLICY_KINDS \<and>
     (\<forall>k < POLICY_KINDS. \<forall>i. po_anonymous p ! k = Some i \<longrightarrow> i < length (po_roles p)) \<and>
     distinct (map tk_digest (po_tokens p)) \<and> sorted (map tk_digest (po_tokens p)) \<and> apart (po_subuids p) \<and>
     (\<forall>t \<in> set (po_tokens p). length (tk_who t) \<le> POLICY_WHO - 1) \<and> (\<forall>who \<in> set (po_strangers p). length who \<le> POLICY_WHO - 1) \<and>
     (\<forall>r \<in> set (po_roles p). length (gr_who r) \<le> POLICY_WHO - 1)"

lemma all_map: "map f ts' = map f ts \<Longrightarrow> (\<forall>t \<in> set ts'. P (f t)) \<longleftrightarrow> (\<forall>t \<in> set ts. P (f t))"
  by (metis (no_types, lifting) in_set_conv_nth length_map nth_map)

lemma principals_keep:
  assumes ok: "policy_ok p" and r: "policy_principals w p = (e, p')"
  shows "policy_ok p' \<and> (e = None \<longrightarrow> principals_ok p') \<and> (\<exists>ts. p' = p\<lparr>po_tokens := ts\<rparr> \<and>
    map tk_digest ts = map tk_digest (po_tokens p) \<and> map tk_who ts = map tk_who (po_tokens p) \<and> map tk_role ts = map tk_role (po_tokens p))"
proof -
  obtain ts where l: "principals_loop w p (po_tokens p) = (e, ts)" and p': "p' = p\<lparr>po_tokens := ts\<rparr>"
    using r by (auto simp: policy_principals_def split: prod.splits)
  note s = principals_loop_spec [OF l]
  have "(\<forall>t \<in> set ts. tk_role t < n) \<longleftrightarrow> (\<forall>t \<in> set (po_tokens p). tk_role t < n)" for n
    using all_map [of tk_role ts "po_tokens p" "\<lambda>x. x < n"] s by blast
  moreover have "(\<forall>t \<in> set ts. length (tk_who t) \<le> n) \<longleftrightarrow> (\<forall>t \<in> set (po_tokens p). length (tk_who t) \<le> n)" for n
    using all_map [of tk_who ts "po_tokens p" "\<lambda>x. length x \<le> n"] s by blast
  ultimately have "policy_ok p'" using ok s by (simp add: policy_ok_def p')
  then show ?thesis using s by (intro conjI exI [of _ ts]) (simp_all add: p' principals_ok_def)
qed

section \<open>Facts: a policy that is made\<close>

lemma role_at_unat: "role_at roles v i \<Longrightarrow> length (json_members roles) < 2 ^ 32 \<Longrightarrow> unat (of_nat i :: u32) = i"
  using role_at_less [of roles v i] by (simp add: unsigned_of_nat take_bit_nat_eq_self)

text \<open>What \<^verbatim>\<open>policy_create()\<close> makes from a file, but for the principals and what clients may get.\<close>

definition made_from :: "os \<Rightarrow> json \<Rightarrow> registry \<Rightarrow> tool_mask \<Rightarrow> policy_build \<Rightarrow> bool" where
  "made_from w file reg upstream b \<longleftrightarrow>
     (case snd (policy_file file) of
        [roles, ids, grps, anon] \<Rightarrow> pb_roles b = roles \<and> built w ids grps anon b \<and>
          list_all2 (role_from reg upstream) (json_members roles) (po_roles (pb_p b)) \<and>
          distinct (map tk_digest (po_tokens (pb_p b))) \<and> sorted (map tk_digest (po_tokens (pb_p b)))
      | _ \<Rightarrow> False)"

lemma parts: "\<exists>roles ids grps anon. snd (policy_file file) = [roles, ids, grps, anon]"
  by (simp add: policy_file_def policy_parts_def)

lemma made_ok:
  assumes m: "made_from w file reg upstream b" and n: "length (json_members (snd (policy_file file) ! 0)) < 2 ^ 32"
    and a: "apart (po_subuids (pb_p b))"
  shows "policy_ok (pb_p b)"
proof -
  obtain roles ids grps anon where f: "snd (policy_file file) = [roles, ids, grps, anon]" using parts by blast
  have b: "pb_roles b = roles" "built w ids grps anon b" "list_all2 (role_from reg upstream) (json_members roles) (po_roles (pb_p b))"
      "distinct (map tk_digest (po_tokens (pb_p b)))" "sorted (map tk_digest (po_tokens (pb_p b)))"
    using m f by (simp_all add: made_from_def)
  have len: "length (po_roles (pb_p b)) = length (json_members roles)" using b(3) by (simp add: list_all2_lengthD)
  have t: "tk_role t < length (po_roles (pb_p b)) \<and> length (tk_who t) \<le> POLICY_WHO - 1" if "t \<in> set (po_tokens (pb_p b))" for t
  proof -
    have "token_from w roles ids t" using b that by (simp add: built_def)
    then show ?thesis unfolding token_from_def len by (auto simp: POLICY_WHO_def dest: role_at_less)
  qed
  have g: "unat (pg_role g) < length (po_roles (pb_p b))" if "g \<in> set (po_groups (pb_p b))" for g
  proof -
    have "group_from w roles grps b g" using b that by (simp add: built_def)
    then obtain v i where "role_at roles v i" "pg_role g = of_nat i" by (auto simp: group_from_def)
    then show ?thesis using role_at_unat [of roles v i] role_at_less [of roles v i] n f len by simp
  qed
  have k: "i < length (po_roles (pb_p b))" if "k < POLICY_KINDS" "po_anonymous (pb_p b) ! k = Some i" for k i
  proof -
    have "anon_from roles anon k (po_anonymous (pb_p b) ! k)" using b(1,2) that(1) by (simp add: built_def)
    then show ?thesis using that(2) unfolding anon_from_def len by (auto dest: role_at_less)
  qed
  have r: "length (gr_who r) \<le> POLICY_WHO - 1" if "r \<in> set (po_roles (pb_p b))" for r
    using roles_who [OF b(3)] that by (auto simp: POLICY_WHO_def)
  show ?thesis using b(2,4,5) t g k r a by (simp add: policy_ok_def built_def)
qed


lemma file_parts: "snd (policy_file file) = map (\<lambda>part. snd (json_get_ex file part)) policy_parts" "length (snd (policy_file file)) = 4"
  by (simp_all add: policy_file_def policy_parts_def)

lemma begin_facts:
  fixes fs and th and fl and reg and upstream and subuids and subgids
  defines "b \<equiv> build_begin fs th fl reg upstream subuids subgids"
  shows "pb_upstream b = upstream" "pb_reg b = reg" "pb_roles b = snd (policy_file fl) ! 0" "pb_names b = 0" "pb_subgids b = subgids"
    "po_roles (pb_p b) = []" "po_tokens (pb_p b) = []" "po_groups (pb_p b) = []" "po_subuids (pb_p b) = subuids"
    "\<not> po_unix_token (pb_p b)" "po_refs (pb_p b) = 1" "po_anonymous (pb_p b) = replicate POLICY_KINDS None"
    "po_strangers (pb_p b) = replicate POLICY_KINDS []" "pb_thread b = th" "pb_nss b = buf_zero"
    "po_overflow_uid (pb_p b) = snd (policy_read_overflow (pf_overflow_uid fs))"
    "po_overflow_gid (pb_p b) = snd (policy_read_overflow (pf_overflow_gid fs))"
  by (simp_all add: b_def build_begin_def policy_zero_def split: prod.splits)

lemma begin_built: "built w ids grps anon (build_begin fs th file reg upstream subuids subgids)"
  by (simp add: built_def begin_facts anon_from_def POLICY_WHO_def)

text \<open>What \<^verbatim>\<open>policy_build_file()\<close> and \<^verbatim>\<open>policy_build_own()\<close> leave for \<^verbatim>\<open>policy_create()\<close> to end.\<close>

definition made :: "os \<Rightarrow> policy_files \<Rightarrow> json \<Rightarrow> registry \<Rightarrow> tool_mask \<Rightarrow> policy_build \<Rightarrow> bool" where
  "made w fs file reg upstream b \<longleftrightarrow>
     apart (po_subuids (pb_p b)) \<and> (\<forall>k. policy_ranges_have (po_subuids (pb_p b)) k \<longleftrightarrow> subordinate (pf_subuid fs) k) \<and>
     (policy_members (snd (policy_file file) ! 2) \<noteq> 0 \<longrightarrow> (\<forall>k. policy_ranges_have (pb_subgids b) k \<longleftrightarrow> subordinate (pf_subgid fs) k)) \<and>
     po_overflow_uid (pb_p b) = snd (policy_read_overflow (pf_overflow_uid fs)) \<and>
     po_overflow_gid (pb_p b) = snd (policy_read_overflow (pf_overflow_gid fs)) \<and> po_refs (pb_p b) = 1 \<and>
     (if fst (policy_file file) then made_from w file reg upstream b \<and> \<not> po_unix_token (pb_p b)
      else \<exists>th subuids subgids. b = policy_build_own w (own_token w) (build_begin fs th file reg upstream subuids subgids))"

definition file_error :: "subid_file \<Rightarrow> errno \<Rightarrow> bool" where
  "file_error f e \<longleftrightarrow> f = Not_opened e \<or> (\<exists>lines. f = Lines lines (Some e))"

definition finished :: "tool_mask \<Rightarrow> policy \<Rightarrow> policy" where
  "finished allowed p = p\<lparr>po_allowed := allowed, po_roles := map (\<lambda>r. r\<lparr>gr_tools := gr_tools r AND allowed\<rparr>) (po_roles p)\<rparr>"

lemma own_facts:
  "pb_thread (policy_build_own w t b) = pb_thread b" "pb_nss (policy_build_own w t b) = pb_nss b" "pb_subgids (policy_build_own w t b) = pb_subgids b"
  "po_subuids (pb_p (policy_build_own w t b)) = po_subuids (pb_p b)" "po_refs (pb_p (policy_build_own w t b)) = po_refs (pb_p b)"
  "po_overflow_uid (pb_p (policy_build_own w t b)) = po_overflow_uid (pb_p b)" "po_overflow_gid (pb_p (policy_build_own w t b)) = po_overflow_gid (pb_p b)"
  by (simp_all add: policy_build_own_def policy_token_add_def Let_def split: option.splits)

lemma made_begin:
  fixes fs and th and fl and reg and upstream and subuids and subgids
  defines "b \<equiv> build_begin fs th fl reg upstream subuids subgids"
  assumes junk: "junk_ok (os_junk w)" and reg: "reg_ok spare reg" and th: "thread_ok th hs"
    and u: "apart subuids" "\<forall>k. policy_ranges_have subuids k \<longleftrightarrow> subordinate (pf_subuid fs) k"
    and g: "policy_members (snd (policy_file fl) ! 2) \<noteq> 0 \<longrightarrow> (\<forall>k. policy_ranges_have subgids k \<longleftrightarrow> subordinate (pf_subgid fs) k)"
  shows "\<exists>e c. (if fst (policy_file fl) then policy_build_file w (snd (policy_file fl) ! 1) (snd (policy_file fl) ! 2) (snd (policy_file fl) ! 3) b
        else Some (None, policy_build_own w (own_token w) b)) = Some (e, c) \<and> store_ok hs c \<and>
      (e = None \<or> e = Some EINVAL \<or> e = Some ENOMEM) \<and> (e = None \<longrightarrow> made w fs fl reg upstream c)"
proof (cases "fst (policy_file fl)")
  case True
  obtain roles ids grps anon where f: "snd (policy_file fl) = [roles, ids, grps, anon]" using parts by blast
  have st: "store_ok hs b" using th by (simp add: store_ok_def b_def begin_facts)
  have reg': "reg_ok spare (pb_reg b)" using reg by (simp add: b_def begin_facts)
  have z: "po_roles (pb_p b) = []" "po_tokens (pb_p b) = []" "po_groups (pb_p b) = []" "pb_names b = 0" by (simp_all add: b_def begin_facts)
  have bu: "built w ids grps anon b" unfolding b_def by (rule begin_built)
  obtain e c where c: "policy_build_file w ids grps anon b = Some (e, c)" "built w ids grps anon c" "store_ok hs c" "base c = base b"
      "e = None \<or> e = Some EINVAL \<or> e = Some ENOMEM"
      "e = None \<longrightarrow> list_all2 (role_from (pb_reg b) (pb_upstream b)) (json_members (pb_roles b)) (po_roles (pb_p c)) \<and>
       distinct (map tk_digest (po_tokens (pb_p c))) \<and> sorted (map tk_digest (po_tokens (pb_p c)))"
    using file_spec [OF junk reg' st z bu] by (elim exE conjE)
  have bc: "pb_roles c = roles" "pb_subgids c = subgids" "po_subuids (pb_p c) = subuids" "\<not> po_unix_token (pb_p c)" "po_refs (pb_p c) = 1"
      "po_overflow_uid (pb_p c) = snd (policy_read_overflow (pf_overflow_uid fs))"
      "po_overflow_gid (pb_p c) = snd (policy_read_overflow (pf_overflow_gid fs))"
    using c(4) by (simp_all add: base_def b_def begin_facts f)
  have "made w fs fl reg upstream c" if "e = None"
    unfolding made_def made_from_def using that c(2,6) u g bc True by (simp add: f b_def begin_facts)
  then show ?thesis using True c(1,3,5) f by (intro exI [of _ e] exI [of _ c]) simp
next
  case False
  have "made w fs fl reg upstream (policy_build_own w (own_token w) b)"
  proof -
    have "\<exists>th' subuids' subgids'. policy_build_own w (own_token w) b = policy_build_own w (own_token w) (build_begin fs th' fl reg upstream subuids' subgids')"
      unfolding b_def by (intro exI) (rule refl)
    then show ?thesis unfolding made_def using u g False by (simp add: own_facts b_def begin_facts)
  qed
  moreover have "store_ok hs (policy_build_own w (own_token w) b)" using th by (simp add: store_ok_def own_facts b_def begin_facts)
  ultimately show ?thesis using False by simp
qed


lemma ranges_built:
  "policy_build_ranges as f = (r, as') \<Longrightarrow> case r of Inl e \<Rightarrow> e = ENOMEM \<or> file_error f e
     | Inr rs \<Rightarrow> apart rs \<and> (\<forall>k. policy_ranges_have rs k \<longleftrightarrow> subordinate f k)"
  using build_ranges_spec [of as f _ as'] build_ranges_error [of as f _ as'] by (cases r) (auto simp: file_error_def)

lemma create_made:
  assumes junk: "junk_ok (os_junk w)" and reg: "reg_ok spare reg" and th: "thread_ok th hs"
  shows "\<exists>r th'. policy_create w fs as th fl reg allowed upstream = Some (r, th') \<and> thread_ok th' hs \<and>
    (case r of
       Inl e \<Rightarrow> e \<in> {EINVAL, ENOMEM, EIO} \<or> file_error (pf_subuid fs) e \<or> policy_members (snd (policy_file fl) ! 2) \<noteq> 0 \<and> file_error (pf_subgid fs) e
     | Inr p \<Rightarrow> \<exists>b q. made w fs fl reg upstream b \<and> policy_principals w (pb_p b) = (None, q) \<and> p = finished allowed q)"
proof -
  obtain from_file of' where f: "policy_file fl = (from_file, of')" by (metis surj_pair)
  obtain r1 as1 where u: "policy_build_ranges as (pf_subuid fs) = (r1, as1)" by (metis surj_pair)
  show ?thesis
  proof (cases r1)
    case (Inl e)
    then show ?thesis using th ranges_built [OF u] by (auto simp: policy_create_def f u)
  next
    case u1: (Inr subuids)
    obtain r2 as2 where g: "(if policy_members (of' ! 2) \<noteq> 0 then policy_build_ranges as1 (pf_subgid fs) else (Inr [], as1)) = (r2, as2)" by (metis surj_pair)
    show ?thesis
    proof (cases r2)
      case (Inl e)
      then have "policy_members (of' ! 2) \<noteq> 0" "policy_build_ranges as1 (pf_subgid fs) = (Inl e, as2)" using g by (simp_all split: if_splits)
      then show ?thesis using th ranges_built [of as1 "pf_subgid fs" "Inl e" as2] Inl g by (auto simp: policy_create_def f u u1)
    next
      case g1: (Inr subgids)
      show ?thesis
      proof (cases "fst (alloc as2)")
        case False
        then show ?thesis using th g g1 by (simp add: policy_create_def f u u1)
      next
        case True
        define b where "b = build_begin fs th fl reg upstream subuids subgids"
        have us: "apart subuids" "\<forall>k. policy_ranges_have subuids k \<longleftrightarrow> subordinate (pf_subuid fs) k" using ranges_built [OF u] u1 by simp_all
        have gs: "policy_members (snd (policy_file fl) ! 2) \<noteq> 0 \<longrightarrow> (\<forall>k. policy_ranges_have subgids k \<longleftrightarrow> subordinate (pf_subgid fs) k)"
          using ranges_built [of as1 "pf_subgid fs" r2 as2] g g1 f by auto
        obtain e c where c: "(if from_file then policy_build_file w (of' ! 1) (of' ! 2) (of' ! 3) b else Some (None, policy_build_own w (own_token w) b)) = Some (e, c)"
            "store_ok hs c" "e = None \<or> e = Some EINVAL \<or> e = Some ENOMEM" "e = None \<longrightarrow> made w fs fl reg upstream c"
          using made_begin [OF junk reg th us, where fl = fl and subgids = subgids and upstream = upstream, OF gs]
          unfolding b_def [symmetric] f fst_conv snd_conv by (elim exE conjE) (rule that)
        obtain th' nss where fini: "buf_fini (pb_thread c) (pb_nss c) = (th', nss)" by (metis surj_pair)
        have th': "thread_ok th' hs" using fini_spec [OF _ _ fini] c(2) by (simp add: store_ok_def)
        obtain e' q where q: "policy_principals w (pb_p c) = (e', q)" by (metis surj_pair)
        have run: "policy_create w fs as th fl reg allowed upstream =
            (if e \<noteq> None then Some (Inl (the e), th') else case (e', q) of (Some x, p) \<Rightarrow> Some (Inl EIO, th') | (None, p) \<Rightarrow> Some (Inr (finished allowed p), th'))"
          unfolding policy_create_def Let_def f prod.case u u1 sum.case g g1 b_def [symmetric] c(1) option.case fini q
          using True by (simp add: finished_def split: option.split)
        show ?thesis
        proof (cases e)
          case (Some x)
          then show ?thesis using run th' c(3) by auto
        next
          case n: None
          show ?thesis
          proof (cases e')
            case (Some x)
            then show ?thesis using run n th' by simp
          next
            case None
            have "\<exists>b q'. made w fs fl reg upstream b \<and> policy_principals w (pb_p b) = (None, q') \<and> finished allowed q = finished allowed q'"
              using c(4) n q None by (intro exI [of _ c] exI [of _ q]) simp
            then show ?thesis using run n None th' by simp
          qed
        qed
      qed
    qed
  qed
qed


lemma finished_simps [simp]:
  "po_tokens (finished a p) = po_tokens p" "po_groups (finished a p) = po_groups p" "po_anonymous (finished a p) = po_anonymous p"
  "po_strangers (finished a p) = po_strangers p" "po_subuids (finished a p) = po_subuids p" "po_refs (finished a p) = po_refs p"
  "po_overflow_uid (finished a p) = po_overflow_uid p" "po_unix_token (finished a p) = po_unix_token p" "po_allowed (finished a p) = a"
  "po_key (finished a p) = po_key p"
  "length (po_roles (finished a p)) = length (po_roles p)" "principals_ok (finished a p) = principals_ok p"
  by (simp_all add: finished_def principals_ok_def)

lemma finished_ok: "policy_ok p \<Longrightarrow> policy_ok (finished a p)"
  by (simp add: policy_ok_def finished_def)

lemma own_ok: "policy_ok (pb_p (policy_build_own w t (build_begin fs th fl reg upstream subuids subgids)))" if "apart subuids"
  using that by (cases t) (auto simp: policy_ok_def policy_build_own_def policy_token_add_def Let_def begin_facts grant_zero_def
      POLICY_WHO_def POLICY_NAME_def POLICY_KINDS_def less_Suc_eq numeral_3_eq_3)

lemma created:
  assumes "junk_ok (os_junk w)" "reg_ok spare reg" "thread_ok th hs" and c: "policy_create w fs as th fl reg allowed upstream = Some (Inr p, th')"
  obtains b ts where "made w fs fl reg upstream b" "p = finished allowed ((pb_p b)\<lparr>po_tokens := ts\<rparr>)" "principals_ok p"
    "map tk_digest ts = map tk_digest (po_tokens (pb_p b))" "map tk_who ts = map tk_who (po_tokens (pb_p b))"
    "map tk_role ts = map tk_role (po_tokens (pb_p b))"
    "length (json_members (snd (policy_file fl) ! 0)) < 2 ^ 32 \<Longrightarrow> policy_ok p"
proof -
  obtain b q where b: "made w fs fl reg upstream b" and q: "policy_principals w (pb_p b) = (None, q)" and p: "p = finished allowed q"
    using create_made [OF assms(1-3), of fs as fl allowed upstream] unfolding c by auto
  obtain ts where ts: "q = (pb_p b)\<lparr>po_tokens := ts\<rparr>" "map tk_digest ts = map tk_digest (po_tokens (pb_p b))"
      "map tk_who ts = map tk_who (po_tokens (pb_p b))" "map tk_role ts = map tk_role (po_tokens (pb_p b))"
    using q by (auto simp: policy_principals_def split: prod.splits dest!: principals_loop_spec)
  have pk: "principals_ok q" using q principals_loop_spec [of w "pb_p b" "po_tokens (pb_p b)" None]
    by (auto simp: policy_principals_def principals_ok_def split: prod.splits)
  have "policy_ok (pb_p b)" if n: "length (json_members (snd (policy_file fl) ! 0)) < 2 ^ 32"
  proof (cases "fst (policy_file fl)")
    case True
    then show ?thesis using b n made_ok [of w fl reg upstream b] by (simp add: made_def)
  next
    case False
    then obtain th0 su sg where bo: "b = policy_build_own w (own_token w) (build_begin fs th0 fl reg upstream su sg)" using b by (auto simp: made_def)
    have "apart su" using b unfolding made_def bo by (simp add: own_facts begin_facts)
    then show ?thesis unfolding bo by (rule own_ok)
  qed
  then have "length (json_members (snd (policy_file fl) ! 0)) < 2 ^ 32 \<Longrightarrow> policy_ok p"
    using principals_keep [OF _ q] p finished_ok by simp
  then show ?thesis using that [OF b _ _ ts(2-4)] p ts(1) pk by simp
qed

lemma policy_key_keeps:
  assumes ok: "policy_ok p" and pr: "principals_ok p" and k: "policy_key w p key = (e, q)"
  shows "policy_ok q \<and> principals_ok q"
proof (cases "po_refs p = 1")
  case False
  then show ?thesis using assms by (simp add: policy_key_def split: if_splits)
next
  case True
  then have r: "policy_principals w (p\<lparr>po_key := key\<rparr>) = (e, q)" using k by (simp add: policy_key_def)
  have "policy_ok (p\<lparr>po_key := key\<rparr>)" using ok by (simp add: policy_ok_def)
  then have "policy_ok q" using principals_keep [OF _ r] by simp
  moreover obtain ts where l: "principals_loop w (p\<lparr>po_key := key\<rparr>) (po_tokens p) = (e, ts)" and q: "q = p\<lparr>po_key := key, po_tokens := ts\<rparr>"
    using r by (auto simp: policy_principals_def split: prod.splits)
  have "\<forall>t \<in> set ts. bit (tk_principal t) 62 \<and> \<not> bit (tk_principal t) 63"
    using principals_loop_good [OF l] pr by (simp add: principals_ok_def)
  ultimately show ?thesis by (simp add: principals_ok_def q)
qed

end
