(* ===== verification/Grants.thy ===== *)
theory Grants
  imports Policy
begin

text \<open>
  What a client is granted (\<^verbatim>\<open>src/policy.c\<close>): the facts of a policy that \<^verbatim>\<open>policy_create()\<close> makes, whatever the
  file and the system say, and of what \<^verbatim>\<open>policy_grant()\<close>, \<^verbatim>\<open>policy_admit_uid()\<close> and
  \<^verbatim>\<open>policy_principal_uid()\<close> answer from it, in terms of the file's members.
\<close>

section \<open>Facts: who is entitled to a role\<close>

text \<open>The value names the member of the roles.\<close>

definition names_role :: "json \<Rightarrow> json \<Rightarrow> bytes \<times> json \<Rightarrow> bool" where
  "names_role roles v m \<longleftrightarrow> (\<exists>i. role_at roles v i \<and> m = json_members roles ! i)"

text \<open>The token is one of an identity that the role is given to.\<close>

definition token_entitled :: "os \<Rightarrow> json \<Rightarrow> json \<Rightarrow> cstr_view \<Rightarrow> bytes \<times> json \<Rightarrow> bool" where
  "token_entitled w roles ids token m \<longleftrightarrow>
     (\<exists>who idv v specs spec. (who, idv) \<in> set (json_members ids) \<and> (ascii ''role'', v) \<in> set (json_members idv) \<and> names_role roles v m \<and>
        (ascii ''tokens'', JArray specs) \<in> set (json_members idv) \<and> spec \<in> set specs \<and> policy_build_token w spec = Inr (os_sha256 w token))"

text \<open>The peer is in a group that the role is given to, and that is neither the overflow id nor a subordinate one.\<close>

definition group_entitled :: "os \<Rightarrow> policy_files \<Rightarrow> json \<Rightarrow> json \<Rightarrow> policy_peer \<Rightarrow> bytes \<times> json \<Rightarrow> bool" where
  "group_entitled w fs roles grps peer m \<longleftrightarrow>
     (\<exists>key v gid. (key, v) \<in> set (json_members grps) \<and> names_role roles v m \<and> gid_of w key gid \<and> gid \<in> set (pe_groups peer) \<and>
        gid \<noteq> snd (policy_read_overflow (pf_overflow_gid fs)) \<and> \<not> subordinate (pf_subgid fs) gid)"

definition kind_entitled :: "json \<Rightarrow> json \<Rightarrow> nat \<Rightarrow> bytes \<times> json \<Rightarrow> bool" where
  "kind_entitled roles anon kind m \<longleftrightarrow> (\<exists>v. (policy_kinds ! kind, v) \<in> set (json_members anon) \<and> names_role roles v m)"

text \<open>What the member of the roles grants.\<close>

definition grants :: "registry \<Rightarrow> tool_mask \<Rightarrow> tool_mask \<Rightarrow> bytes \<times> json \<Rightarrow> policy_grant \<Rightarrow> bool" where
  "grants reg upstream allowed m g \<longleftrightarrow>
     (\<forall>k. bit (gr_tools g) k \<longleftrightarrow> lists_tool reg (json_members (snd m)) (ascii ''tools'') k \<and> bit allowed k) \<and>
     (\<forall>k. bit (gr_upstream g) k \<longrightarrow> lists_tool reg (json_members (snd m)) (ascii ''tools'') k \<or>
        lists_tool reg (json_members (snd m)) (ascii ''upstream'') k \<and> bit upstream k) \<and>
     (gr_metrics g \<longrightarrow> (ascii ''metrics'', JBool True) \<in> set (json_members (snd m)))"

lemma names_role_iff: "role_at roles v i \<Longrightarrow> names_role roles v (json_members roles ! i)"
  by (auto simp: names_role_def)

lemma role_grants:
  assumes l: "list_all2 (role_from reg upstream) ms rs" and i: "i < length ms"
    and q: "po_roles q = rs"
  shows "grants reg upstream allowed (ms ! i) (po_roles (finished allowed q) ! i)"
proof -
  obtain name members where m: "ms ! i = (name, members)" by (metis surj_pair)
  have r: "role_from reg upstream (name, members) (rs ! i)" using l i m by (metis list_all2_conv_all_nth)
  have "po_roles (finished allowed q) ! i = (rs ! i)\<lparr>gr_tools := gr_tools (rs ! i) AND allowed\<rparr>"
    using l i q by (simp add: finished_def list_all2_lengthD)
  then show ?thesis using r unfolding grants_def m role_from_def by (auto simp: bit_and_iff split: if_splits)
qed

lemma grants_more [simp]:
  "grants reg upstream allowed m (g\<lparr>gr_principal := a\<rparr>) = grants reg upstream allowed m g"
  "grants reg upstream allowed m (g\<lparr>gr_who := who\<rparr>) = grants reg upstream allowed m g"
  by (simp_all add: grants_def)

lemma grant_role_some:
  "policy_grant_role p role a who = POLICY_GRANTED g \<Longrightarrow>
     \<exists>i. role = Some i \<and> (g = (po_roles p ! i)\<lparr>gr_principal := a, gr_who := who\<rparr> \<or> g = (po_roles p ! i)\<lparr>gr_principal := a\<rparr>)"
  by (cases role) (auto simp: policy_grant_role_def Let_def split: if_splits)

lemma grant_role_principal: "policy_grant_role p role a who = POLICY_GRANTED g \<Longrightarrow> gr_principal g = a"
  using grant_role_some [of p role a who g] by auto

text \<open>A policy that is made from a file, and the parts of the file.\<close>

definition of_file :: "os \<Rightarrow> policy_files \<Rightarrow> json \<Rightarrow> registry \<Rightarrow> tool_mask \<Rightarrow> tool_mask \<Rightarrow> json \<Rightarrow> json \<Rightarrow> json \<Rightarrow> json \<Rightarrow> policy \<Rightarrow> bool" where
  "of_file w fs fl reg upstream allowed roles ids grps anon p \<longleftrightarrow>
     snd (policy_file fl) = [roles, ids, grps, anon] \<and>
     (\<forall>t \<in> set (po_tokens p). \<exists>who idv v specs spec. (who, idv) \<in> set (json_members ids) \<and> tk_who t = ascii ''identity '' @ who \<and>
        (ascii ''role'', v) \<in> set (json_members idv) \<and> role_at roles v (tk_role t) \<and>
        (ascii ''tokens'', JArray specs) \<in> set (json_members idv) \<and> spec \<in> set specs \<and> policy_build_token w spec = Inr (tk_digest t)) \<and>
     (\<forall>g \<in> set (po_groups p). (\<exists>key v. (key, v) \<in> set (json_members grps) \<and> role_at roles v (unat (pg_role g)) \<and> gid_of w key (pg_gid g)) \<and>
        pg_gid g \<noteq> snd (policy_read_overflow (pf_overflow_gid fs)) \<and> \<not> subordinate (pf_subgid fs) (pg_gid g)) \<and>
     (\<forall>k < POLICY_KINDS. anon_from roles anon k (po_anonymous p ! k)) \<and>
     (\<forall>i < length (json_members roles). grants reg upstream allowed (json_members roles ! i) (po_roles p ! i)) \<and>
     \<not> po_unix_token p"

lemma made_of_file:
  assumes m: "made w fs fl reg upstream b" and f: "fst (policy_file fl)" and n: "length (json_members (snd (policy_file fl) ! 0)) < 2 ^ 32"
    and d: "map tk_digest ts = map tk_digest (po_tokens (pb_p b))" "map tk_who ts = map tk_who (po_tokens (pb_p b))"
      "map tk_role ts = map tk_role (po_tokens (pb_p b))"
  obtains roles ids grps anon where "of_file w fs fl reg upstream allowed roles ids grps anon (finished allowed ((pb_p b)\<lparr>po_tokens := ts\<rparr>))"
proof -
  obtain roles ids grps anon where fs: "snd (policy_file fl) = [roles, ids, grps, anon]" using parts by blast
  have b: "pb_roles b = roles" "built w ids grps anon b" "list_all2 (role_from reg upstream) (json_members roles) (po_roles (pb_p b))"
      "\<not> po_unix_token (pb_p b)" "po_overflow_gid (pb_p b) = snd (policy_read_overflow (pf_overflow_gid fs))"
    using m f fs by (simp_all add: made_def made_from_def)
  have tok: "\<exists>who idv v specs spec. (who, idv) \<in> set (json_members ids) \<and> tk_who t = ascii ''identity '' @ who \<and>
        (ascii ''role'', v) \<in> set (json_members idv) \<and> role_at roles v (tk_role t) \<and>
        (ascii ''tokens'', JArray specs) \<in> set (json_members idv) \<and> spec \<in> set specs \<and> policy_build_token w spec = Inr (tk_digest t)"
    if t: "t \<in> set ts" for t
  proof -
    obtain i where i: "i < length ts" "t = ts ! i" using t by (metis in_set_conv_nth)
    have len: "length ts = length (po_tokens (pb_p b))" using d(1) by (rule map_eq_imp_length_eq)
    let ?t = "po_tokens (pb_p b) ! i"
    have same: "tk_digest t = tk_digest ?t" "tk_who t = tk_who ?t" "tk_role t = tk_role ?t" using d i len by (metis nth_map)+
    have "token_from w roles ids ?t" using b(1,2) i len by (simp add: built_def)
    then show ?thesis unfolding token_from_def same by blast
  qed
  have grp: "(\<exists>key v. (key, v) \<in> set (json_members grps) \<and> role_at roles v (unat (pg_role g)) \<and> gid_of w key (pg_gid g)) \<and>
        pg_gid g \<noteq> snd (policy_read_overflow (pf_overflow_gid fs)) \<and> \<not> subordinate (pf_subgid fs) (pg_gid g)"
    if g: "g \<in> set (po_groups (pb_p b))" for g
  proof -
    have gf: "group_from w roles grps b g" using b(1,2) g by (simp add: built_def)
    then obtain key v i where k: "(key, v) \<in> set (json_members grps)" "role_at roles v i" "pg_role g = of_nat i" "gid_of w key (pg_gid g)"
      by (auto simp: group_from_def)
    have "unat (pg_role g) = i" using role_at_unat [OF k(2)] n fs k(3) by simp
    moreover have "policy_members grps \<noteq> 0" using k(1) by (cases grps) (auto simp: policy_members_def json_is_object_def)
    then have "\<not> subordinate (pf_subgid fs) (pg_gid g)" using m fs gf by (simp add: made_def group_from_def)
    moreover have "pg_gid g \<noteq> snd (policy_read_overflow (pf_overflow_gid fs))" using gf b(5) by (simp add: group_from_def)
    ultimately show ?thesis using k by blast
  qed
  have roles: "grants reg upstream allowed (json_members roles ! i) (po_roles (finished allowed ((pb_p b)\<lparr>po_tokens := ts\<rparr>)) ! i)"
    if "i < length (json_members roles)" for i
    by (rule role_grants [OF b(3) that]) simp
  have "anon_from roles anon k (po_anonymous (pb_p b) ! k)" if "k < POLICY_KINDS" for k using b(1,2) that by (simp add: built_def)
  then have "of_file w fs fl reg upstream allowed roles ids grps anon (finished allowed ((pb_p b)\<lparr>po_tokens := ts\<rparr>))"
    unfolding of_file_def using fs tok grp roles b(4) by simp
  then show ?thesis by (rule that)
qed

text \<open>The right of a client to what the member of the roles grants.\<close>

definition entitled ::
    "os \<Rightarrow> policy_files \<Rightarrow> json \<Rightarrow> policy \<Rightarrow> cstr_view option \<Rightarrow> nat \<Rightarrow> policy_peer option \<Rightarrow> bytes \<times> json \<Rightarrow> bool"
where
  "entitled w fs fl p token kind peer m \<longleftrightarrow>
     (case snd (policy_file fl) of
        [roles, ids, grps, anon] \<Rightarrow>
          (case (if kind = POLICY_UNIX then peer else None, token) of
             (None, Some t) \<Rightarrow> token_entitled w roles ids t m \<or> po_tokens p = [] \<and> kind_entitled roles anon kind m
           | (None, None) \<Rightarrow> kind_entitled roles anon kind m
           | (Some pe, None) \<Rightarrow> group_entitled w fs roles grps pe m \<or> kind_entitled roles anon POLICY_UNIX m
           | (Some pe, Some t) \<Rightarrow> False)
      | _ \<Rightarrow> False)"

lemma grant_entitled:
  assumes f: "of_file w fs fl reg upstream allowed roles ids grps anon p"
    and g: "policy_grant_client w (Some p) token kind peer = POLICY_GRANTED g"
  shows "\<exists>m \<in> set (json_members (snd (policy_file fl) ! 0)). grants reg upstream allowed m g \<and> entitled w fs fl p token kind peer m"
proof -
  have fl: "snd (policy_file fl) = [roles, ids, grps, anon]" using f by (simp add: of_file_def)
  have gr: "grants reg upstream allowed (json_members roles ! i) (po_roles p ! i)" if "i < length (json_members roles)" for i
    using f that by (simp add: of_file_def)
  have at: "json_members roles ! i \<in> set (json_members roles) \<and> grants reg upstream allowed (json_members roles ! i) g \<and> names_role roles v (json_members roles ! i)"
    if "policy_grant_role p (Some i) a who = POLICY_GRANTED g" "role_at roles v i" for i a who v
    using grant_role_some [OF that(1)] role_at_less [OF that(2)] gr [OF role_at_less [OF that(2)]] names_role_iff [OF that(2)] by auto
  have kind: "kind < POLICY_KINDS" using g by (auto simp: policy_grant_client_def split: if_splits)
  have stranger: "\<exists>m \<in> set (json_members roles). grants reg upstream allowed m g \<and> kind_entitled roles anon k m"
    if gs: "policy_grant_role p (po_anonymous p ! k) a who = POLICY_GRANTED g" and k: "k < POLICY_KINDS" for k a who
  proof -
    obtain i where i: "po_anonymous p ! k = Some i" using grant_role_some [OF gs] by blast
    have "anon_from roles anon k (po_anonymous p ! k)" using f k by (simp add: of_file_def)
    then obtain v where "(policy_kinds ! k, v) \<in> set (json_members anon)" "role_at roles v i" using i by (auto simp: anon_from_def)
    then show ?thesis using at [of i a who v] gs i unfolding kind_entitled_def by auto
  qed
  have tok: "\<exists>m \<in> set (json_members roles). grants reg upstream allowed m g \<and> token_entitled w roles ids t m"
    if gt: "policy_grant_token w p t = POLICY_GRANTED g" for t
  proof -
    obtain x where x: "find (\<lambda>t'. tk_digest t' = os_sha256 w t) (po_tokens p) = Some x"
        "policy_grant_role p (Some (tk_role x)) (tk_principal x) (tk_who x) = POLICY_GRANTED g"
      using gt by (auto simp: policy_grant_token_def split: option.splits)
    have "x \<in> set (po_tokens p)" "tk_digest x = os_sha256 w t" using x(1) by (auto simp: find_Some_iff)
    then obtain who idv v specs spec where "(who, idv) \<in> set (json_members ids)" "(ascii ''role'', v) \<in> set (json_members idv)" "role_at roles v (tk_role x)"
        "(ascii ''tokens'', JArray specs) \<in> set (json_members idv)" "spec \<in> set specs" "policy_build_token w spec = Inr (os_sha256 w t)"
      using f unfolding of_file_def by metis
    then show ?thesis using at [OF x(2)] unfolding token_entitled_def by blast
  qed
  have grp: "\<exists>m \<in> set (json_members roles). grants reg upstream allowed m g \<and> (group_entitled w fs roles grps pe m \<or> kind_entitled roles anon POLICY_UNIX m)"
    if gu: "policy_grant_unix p pe = POLICY_GRANTED g" for pe
  proof (cases "find (\<lambda>g. pg_gid g \<in> set (pe_groups pe)) (po_groups p)")
    case None
    then have "policy_grant_role p (po_anonymous p ! POLICY_UNIX) (pe_principal pe) [] = POLICY_GRANTED g" using gu by (simp add: policy_grant_unix_def)
    from stranger [OF this] show ?thesis by (auto simp: POLICY_UNIX_def POLICY_KINDS_def)
  next
    case (Some x)
    have x: "x \<in> set (po_groups p)" "pg_gid x \<in> set (pe_groups pe)" using Some by (auto simp: find_Some_iff)
    have r: "policy_grant_role p (Some (unat (pg_role x))) (pe_principal pe) [] = POLICY_GRANTED g" using gu Some by (simp add: policy_grant_unix_def)
    have xs: "(\<exists>key v. (key, v) \<in> set (json_members grps) \<and> role_at roles v (unat (pg_role x)) \<and> gid_of w key (pg_gid x)) \<and>
        pg_gid x \<noteq> snd (policy_read_overflow (pf_overflow_gid fs)) \<and> \<not> subordinate (pf_subgid fs) (pg_gid x)" using f x(1) unfolding of_file_def by blast
    then obtain key v where k: "(key, v) \<in> set (json_members grps)" "role_at roles v (unat (pg_role x))" "gid_of w key (pg_gid x)" by blast
    have "group_entitled w fs roles grps pe (json_members roles ! unat (pg_role x))"
      unfolding group_entitled_def using k(1,3) xs x(2) names_role_iff [OF k(2)] by blast
    then show ?thesis using at [OF r k(2)] by blast
  qed
  have "\<exists>m \<in> set (json_members roles). grants reg upstream allowed m g \<and> entitled w fs fl p token kind peer m"
  proof (cases "if kind = POLICY_UNIX then peer else None")
    case None
    show ?thesis
    proof (cases token)
      case t: None
      then have "policy_grant_role p (po_anonymous p ! kind) 0 (po_strangers p ! kind) = POLICY_GRANTED g"
        using g None kind by (auto simp: policy_grant_client_def Let_def)
      from stranger [OF this kind] show ?thesis using None t by (simp add: entitled_def fl)
    next
      case (Some t)
      then have "(if po_tokens p \<noteq> [] then policy_grant_token w p t
          else policy_grant_role p (po_anonymous p ! kind) 0 (po_strangers p ! kind)) = POLICY_GRANTED g"
        using g None kind by (auto simp: policy_grant_client_def Let_def)
      then show ?thesis using tok [of t] stranger [OF _ kind] None Some by (cases "po_tokens p = []") (auto simp: entitled_def fl)
    qed
  next
    case (Some pe)
    have k: "kind = POLICY_UNIX" "peer = Some pe" using Some by (simp_all split: if_splits)
    have "token = None" using f g kind k by (cases token) (auto simp: policy_grant_client_def Let_def of_file_def)
    moreover have "policy_grant_unix p pe = POLICY_GRANTED g" using g kind k \<open>token = None\<close> by (simp add: policy_grant_client_def Let_def)
    ultimately show ?thesis using grp [of pe] k by (simp add: entitled_def fl)
  qed
  then show ?thesis by (simp add: fl)
qed


section \<open>Facts: a policy of askai's own\<close>

lemma own_begin:
  assumes m: "made w fs fl reg upstream b" and f: "\<not> fst (policy_file fl)"
  shows "po_roles (pb_p b) = [grant_zero\<lparr>gr_tools := policy_all reg, gr_upstream := policy_all reg, gr_metrics := True\<rparr>,
      grant_zero\<lparr>gr_tools := policy_all reg, gr_upstream := policy_all reg\<rparr>] \<and> po_groups (pb_p b) = [] \<and>
    (case own_token w of
       None \<Rightarrow> po_tokens (pb_p b) = [] \<and> po_anonymous (pb_p b) = [Some 0, Some 1, Some 0] \<and> \<not> po_unix_token (pb_p b)
     | Some t \<Rightarrow> map tk_digest (po_tokens (pb_p b)) = [os_sha256 w t] \<and> map tk_role (po_tokens (pb_p b)) = [0] \<and>
         po_anonymous (pb_p b) = [None, None, None] \<and> po_unix_token (pb_p b))"
proof -
  obtain th subuids subgids where b: "b = policy_build_own w (own_token w) (build_begin fs th fl reg upstream subuids subgids)"
    using m f by (auto simp: made_def)
  show ?thesis unfolding b
    by (cases "own_token w") (simp_all add: policy_build_own_def policy_token_add_def Let_def begin_facts POLICY_KINDS_def numeral_3_eq_3)
qed

lemma room_file:
  assumes junk: "junk_ok (os_junk w)" and reg: "reg_ok spare reg" and th: "thread_ok th hs" and f: "fst (policy_file fl)"
    and d: "json_distinct (snd (policy_file fl) ! 1) (snd (policy_file fl) ! 3)"
  shows "\<exists>e b. policy_build_file w (snd (policy_file fl) ! 1) (snd (policy_file fl) ! 2) (snd (policy_file fl) ! 3)
      (build_begin fs th fl reg upstream subuids subgids) = Some (e, b) \<and>
    (case policy_room w fl of (n_tokens, n_roles, n_groups, n_names) \<Rightarrow>
       length (po_tokens (pb_p b)) \<le> n_tokens \<and> length (po_roles (pb_p b)) \<le> n_roles \<and> length (po_groups (pb_p b)) \<le> n_groups \<and>
       pb_names b \<le> n_names)"
proof -
  let ?b = "build_begin fs th fl reg upstream subuids subgids"
  obtain roles ids grps anon where fl: "snd (policy_file fl) = [roles, ids, grps, anon]" using parts by blast
  have st: "store_ok hs ?b" using th by (simp add: store_ok_def begin_facts)
  have reg': "reg_ok spare (pb_reg ?b)" using reg by (simp add: begin_facts)
  have z: "po_roles (pb_p ?b) = []" "po_tokens (pb_p ?b) = []" "po_groups (pb_p ?b) = []" "pb_names ?b = 0" by (simp_all add: begin_facts)
  obtain e c where c: "policy_build_file w ids grps anon ?b = Some (e, c)" "base c = base ?b" "json_distinct ids anon \<longrightarrow> within_room ids grps c"
    using file_spec [OF junk reg' st z begin_built, of ids grps anon] by (elim exE conjE) (rule that)
  have r: "pb_roles c = roles" using c(2) by (simp add: base_def begin_facts fl)
  have mem: "policy_members v = length (json_members v)" for v by (cases v) (simp_all add: policy_members_def json_is_object_def)
  have wr: "within_room ids grps c" using c(3) d fl by simp
  have room: "policy_room w fl = (sum_list (map token_room (json_members ids)), length (json_members roles), length (json_members grps),
      length (json_members roles) * (5 + POLICY_NAME) + length (json_members ids) * (9 + POLICY_NAME) + POLICY_KINDS * (POLICY_WHO - 1))"
  proof -
    have pf: "policy_file fl = (True, [roles, ids, grps, anon])" using f fl by (metis prod.collapse)
    show ?thesis by (cases "json_members ids = []") (simp_all add: policy_room_def pf mem Let_def token_room_def [abs_def])
  qed
  show ?thesis unfolding room prod.case using c(1) wr r fl by (intro exI [of _ e] exI [of _ c]) (simp add: within_room_def)
qed

section \<open>An example\<close>

text \<open>A system, a file with a role and an identity, and a registry of one tool.\<close>

definition demo_os :: os where
  "demo_os = \<lparr>os_getenv = (\<lambda>name. Some (ascii ''key'')), os_sha256 = (\<lambda>x. take 32 (x @ zeros 32)), os_hmac = (\<lambda>key x. Some (take 8 (x @ zeros 8))),
     os_getgrnam = (\<lambda>name room. Group_none), os_junk = (\<lambda>n. replicate n 255)\<rparr>"

definition demo_files :: policy_files where
  "demo_files = \<lparr>pf_subuid = Not_opened ENOENT, pf_subgid = Not_opened ENOENT,
     pf_overflow_uid = Inl ENOENT, pf_overflow_gid = Inl ENOENT\<rparr>"

definition demo_file :: json where
  "demo_file = JObject
     [(ascii ''roles'', JObject [(ascii ''r'', JObject [(ascii ''tools'', JArray [JString (ascii ''a'')])])]),
      (ascii ''identities'', JObject [(ascii ''joe'', JObject [(ascii ''role'', JString (ascii ''r'')), (ascii ''tokens'', JArray [JString (ascii ''env:K'')])])])]"

definition demo_reg :: registry where
  "demo_reg = \<lparr>rg_tools = [\<lparr>tl_name = ascii ''a'', tl_kind = 1, tl_data = None, tl_part = 0\<rparr>], rg_plugins = [\<lparr>pl_plugin = 7, pl_loaded = None\<rparr>], rg_granted = 1\<rparr>"

abbreviation demo_create :: "json \<Rightarrow> ((errno + policy) \<times> thread) option" where
  "demo_create fl \<equiv> policy_create demo_os demo_files [] (Some stash_new, heap_new []) fl demo_reg 1 0"

lemma demo_ok: "junk_ok (os_junk demo_os)" "reg_ok 0 demo_reg"
  by (simp_all add: junk_ok_def demo_os_def reg_ok_def demo_reg_def tool_names_def TOOL_MAX_def)

lemma demo_run:
  "case demo_create demo_file of
     Some (Inr p, th) \<Rightarrow> (case policy_grant_client demo_os (Some p) (Some (ascii ''key'')) POLICY_REMOTE None of POLICY_GRANTED g \<Rightarrow> gr_tools g = 1 | _ \<Rightarrow> False)
   | _ \<Rightarrow> False"
  by code_simp

lemma demo_own: "case demo_create JNull of Some (Inr p, th) \<Rightarrow> True | _ \<Rightarrow> False"
  by code_simp

lemma demo_created:
  obtains p th g where "demo_create demo_file = Some (Inr p, th)"
    "policy_grant_client demo_os (Some p) (Some (ascii ''key'')) POLICY_REMOTE None = POLICY_GRANTED g" "gr_tools g = 1"
  using demo_run by (auto split: option.splits sum.splits prod.splits policy_verdict.splits)

lemma demo_own_created:
  obtains p th where "demo_create JNull = Some (Inr p, th)"
  using demo_own by (auto split: option.splits sum.splits prod.splits)

lemma demo_file_parts: "fst (policy_file demo_file)" "length (json_members (snd (policy_file demo_file) ! 0)) < 2 ^ 32" "\<not> fst (policy_file JNull)"
  "json_distinct (snd (policy_file demo_file) ! 1) (snd (policy_file demo_file) ! 3)"
proof -
  have l: "length (json_members (snd (policy_file demo_file) ! 0)) = 1" by code_simp
  show "length (json_members (snd (policy_file demo_file) ! 0)) < 2 ^ 32" unfolding l by simp
qed (code_simp+)

lemma demo_thread: "thread_ok (Some stash_new, heap_new []) []"
  using new_thread [of "[]"] by simp

section \<open>Properties\<close>

text \<open>
  C10.  \<^verbatim>\<open>policy_create()\<close> returns, whatever the files, the system's answers, the allocations and the JSON text say, and
  gives back the storage of group lookups: the thread owns what it did before.  It fails only as documented, or with the error of
  reading a file of subordinate ids; the groups' file is read only if the policy names groups.  A policy that it makes has one
  reference and the command line's limit.
\<close>

theorem policy_create_ends:
  assumes "junk_ok (os_junk w)" "reg_ok spare reg" "thread_ok th hs"
  shows "\<exists>r th'. policy_create w fs as th fl reg allowed upstream = Some (r, th') \<and> thread_ok th' hs \<and>
    (case r of
       Inl e \<Rightarrow> e \<in> {EINVAL, ENOMEM, EIO} \<or> file_error (pf_subuid fs) e \<or>
         policy_members (snd (policy_file fl) ! 2) \<noteq> 0 \<and> file_error (pf_subgid fs) e
     | Inr p \<Rightarrow> po_refs p = 1 \<and> po_allowed p = allowed)"
proof -
  obtain r th' where c: "policy_create w fs as th fl reg allowed upstream = Some (r, th')" "thread_ok th' hs"
      "case r of
         Inl e \<Rightarrow> e \<in> {EINVAL, ENOMEM, EIO} \<or> file_error (pf_subuid fs) e \<or> policy_members (snd (policy_file fl) ! 2) \<noteq> 0 \<and> file_error (pf_subgid fs) e
       | Inr p \<Rightarrow> \<exists>b q. made w fs fl reg upstream b \<and> policy_principals w (pb_p b) = (None, q) \<and> p = finished allowed q"
    using create_made [OF assms, of fs as fl allowed upstream] by (elim exE conjE)
  have "po_refs p = 1 \<and> po_allowed p = allowed" if p: "r = Inr p" for p
  proof -
    obtain b q where b: "made w fs fl reg upstream b" "policy_principals w (pb_p b) = (None, q)" "p = finished allowed q" using c(3) p by auto
    then show ?thesis by (auto simp: made_def policy_principals_def split: prod.splits)
  qed
  then show ?thesis using c by (intro exI [of _ r] exI [of _ th']) (auto split: sum.splits)
qed

theorem policy_create_ends_witness:
  "\<exists>r th'. demo_create demo_file = Some (r, th') \<and> thread_ok th' []"
  using policy_create_ends [OF demo_ok demo_thread, of demo_files "[]" demo_file 1 0] by blast

text \<open>
  C6.  A policy is well formed: every role that a token, a group or a kind of stranger has is there, the tokens are in order with
  no digest twice, so that a search finds the one there is, the ranges are apart, and the names fit.  A reference more or less
  keeps that, and so does a new key, even one that fails halfway; identities' principals stay marked as such.
\<close>

theorem policies_are_well_formed:
  assumes "junk_ok (os_junk w)" "reg_ok spare reg" "thread_ok th hs" "length (json_members (snd (policy_file fl) ! 0)) < 2 ^ 32"
    and c: "policy_create w fs as th fl reg allowed upstream = Some (Inr p, th')"
  shows "policy_ok p \<and> principals_ok p \<and> policy_ok (policy_get p) \<and> policy_ok (snd (policy_put p)) \<and>
    (\<forall>w key. policy_ok (snd (policy_key w p key)) \<and> principals_ok (snd (policy_key w p key)))"
proof -
  have ok: "policy_ok p" "principals_ok p" using created [OF assms(1-3) c] assms(4) by blast+
  have "policy_ok (policy_get p)" "policy_ok (snd (policy_put p))" using ok(1) by (simp_all add: policy_ok_def policy_get_def policy_put_def)
  moreover have "policy_ok (snd (policy_key w p key)) \<and> principals_ok (snd (policy_key w p key))" for w key
    by (rule policy_key_keeps [OF ok, of w key "fst (policy_key w p key)"]) simp
  ultimately show ?thesis using ok by blast
qed

theorem policies_are_well_formed_witness:
  "\<exists>p th. demo_create demo_file = Some (Inr p, th) \<and> policy_ok p \<and> principals_ok (snd (policy_key demo_os p (zeros 32)))"
proof -
  obtain p th g where p: "demo_create demo_file = Some (Inr p, th)" by (rule demo_created)
  from policies_are_well_formed [OF demo_ok demo_thread demo_file_parts(2) p] show ?thesis using p by blast
qed

text \<open>
  C8.  \<^verbatim>\<open>policy_admit_uid()\<close> admits a uid exactly if it is neither the one that stands for none, nor the overflow uid,
  nor in a line of the subordinate uids; without a policy it admits none.
\<close>

theorem admits_what_stands_for_itself:
  assumes "junk_ok (os_junk w)" "reg_ok spare reg" "thread_ok th hs"
    and c: "policy_create w fs as th fl reg allowed upstream = Some (Inr p, th')"
  shows "policy_admit_uid (Some p) uid =
      (if uid = 0xFFFFFFFF \<or> uid = snd (policy_read_overflow (pf_overflow_uid fs)) then POLICY_UNMAPPED
       else if subordinate (pf_subuid fs) uid then POLICY_SUBORDINATE else POLICY_ADMIT) \<and>
    policy_admit_uid None uid \<noteq> POLICY_ADMIT"
proof -
  obtain b ts where b: "made w fs fl reg upstream b" "p = finished allowed ((pb_p b)\<lparr>po_tokens := ts\<rparr>)"
    using created [OF assms(1-3) c] by blast
  then show ?thesis by (simp add: policy_admit_uid_def made_def)
qed

theorem admits_what_stands_for_itself_witness:
  "\<exists>p th. demo_create demo_file = Some (Inr p, th) \<and> policy_admit_uid (Some p) 5 = POLICY_ADMIT \<and> policy_admit_uid (Some p) 65534 = POLICY_UNMAPPED"
proof -
  obtain p th g where p: "demo_create demo_file = Some (Inr p, th)" by (rule demo_created)
  have o: "snd (policy_read_overflow (pf_overflow_uid demo_files)) = 65534" "\<not> subordinate (pf_subuid demo_files) 5"
    by (simp_all add: demo_files_def policy_read_overflow_def subordinate_def)
  have "policy_admit_uid (Some p) 5 = POLICY_ADMIT"
    using admits_what_stands_for_itself [OF demo_ok demo_thread p, of 5] by (simp add: o)
  moreover have "policy_admit_uid (Some p) 65534 = POLICY_UNMAPPED"
    using admits_what_stands_for_itself [OF demo_ok demo_thread p, of 65534] by (simp add: o)
  ultimately show ?thesis using p by blast
qed

text \<open>
  C5.  A client that a policy of a file grants anything gets exactly the tools that one role of the file lists and the command line
  allows, and asks the upstream server for no more than that role says; and it is entitled to the role: its token is that of an
  identity with the role, or it is in a group with the role, one that stands for itself, or the role is that of strangers of its
  kind.  A token that is of no identity is never taken for a stranger's while the policy has tokens.
\<close>

theorem granted_is_listed:
  assumes "junk_ok (os_junk w)" "reg_ok spare reg" "thread_ok th hs" "length (json_members (snd (policy_file fl) ! 0)) < 2 ^ 32"
    and c: "policy_create w fs as th fl reg allowed upstream = Some (Inr p, th')" and f: "fst (policy_file fl)"
    and g: "policy_grant_client w (Some p) token kind peer = POLICY_GRANTED g"
  shows "\<exists>m \<in> set (json_members (snd (policy_file fl) ! 0)). grants reg upstream allowed m g \<and> entitled w fs fl p token kind peer m"
proof -
  obtain b ts where b: "made w fs fl reg upstream b" "p = finished allowed ((pb_p b)\<lparr>po_tokens := ts\<rparr>)"
      "map tk_digest ts = map tk_digest (po_tokens (pb_p b))" "map tk_who ts = map tk_who (po_tokens (pb_p b))"
      "map tk_role ts = map tk_role (po_tokens (pb_p b))" using created [OF assms(1-3) c] by blast
  obtain roles ids grps anon where "of_file w fs fl reg upstream allowed roles ids grps anon p"
    using made_of_file [OF b(1) f assms(4) b(3-5)] unfolding b(2) by blast
  from grant_entitled [OF this g] show ?thesis .
qed

theorem granted_is_listed_witness:
  "\<exists>p th g m. demo_create demo_file = Some (Inr p, th) \<and>
    policy_grant_client demo_os (Some p) (Some (ascii ''key'')) POLICY_REMOTE None = POLICY_GRANTED g \<and> gr_tools g = 1 \<and>
    grants demo_reg 0 1 m g \<and> entitled demo_os demo_files demo_file p (Some (ascii ''key'')) POLICY_REMOTE None m"
proof -
  obtain p th g where p: "demo_create demo_file = Some (Inr p, th)" and
      g: "policy_grant_client demo_os (Some p) (Some (ascii ''key'')) POLICY_REMOTE None = POLICY_GRANTED g" "gr_tools g = 1"
    by (rule demo_created)
  from granted_is_listed [OF demo_ok demo_thread demo_file_parts(2) p demo_file_parts(1) g(1)] show ?thesis using p g by blast
qed

text \<open>
  C7.  Without identities and roles in a file, askai's own policy asks every client for the token of \<^verbatim>\<open>ASKAI_TOKEN\<close> if
  the environment has one, over a Unix socket too, and refuses whoever has none or another.  Else it grants every client
  every tool that the command line allows, and metrics unless the client is remote; only one that offers a token of itself over a Unix
  socket is sent back.
\<close>

theorem own_policy_grants:
  assumes "junk_ok (os_junk w)" "reg_ok spare reg" "thread_ok th hs"
    and c: "policy_create w fs as th fl reg allowed upstream = Some (Inr p, th')" and f: "\<not> fst (policy_file fl)" and k: "kind < POLICY_KINDS"
  shows "case own_token w of
      Some t \<Rightarrow>
        (if \<exists>u. token = Some u \<and> os_sha256 w u = os_sha256 w t
         then \<exists>g. policy_grant_client w (Some p) token kind peer = POLICY_GRANTED g \<and> gr_tools g = policy_all reg AND allowed \<and> gr_metrics g
         else policy_grant_client w (Some p) token kind peer = POLICY_REFUSED)
    | None \<Rightarrow>
        (if kind = POLICY_UNIX \<and> peer \<noteq> None \<and> token \<noteq> None then policy_grant_client w (Some p) token kind peer = POLICY_UNIX_TOKEN
         else \<exists>g. policy_grant_client w (Some p) token kind peer = POLICY_GRANTED g \<and> gr_tools g = policy_all reg AND allowed \<and>
           (gr_metrics g \<longleftrightarrow> kind \<noteq> POLICY_REMOTE))"
proof -
  obtain b ts where b: "made w fs fl reg upstream b" "p = finished allowed ((pb_p b)\<lparr>po_tokens := ts\<rparr>)"
      "map tk_digest ts = map tk_digest (po_tokens (pb_p b))" "map tk_role ts = map tk_role (po_tokens (pb_p b))"
    using created [OF assms(1-3) c] by blast
  note o = own_begin [OF b(1) f]
  have roles: "po_roles p = [grant_zero\<lparr>gr_tools := policy_all reg AND allowed, gr_upstream := policy_all reg, gr_metrics := True\<rparr>,
      grant_zero\<lparr>gr_tools := policy_all reg AND allowed, gr_upstream := policy_all reg\<rparr>]" "po_groups p = []"
    using o by (simp_all add: b(2) finished_def)
  have r: "\<exists>g. policy_grant_role p (Some i) a who = POLICY_GRANTED g \<and> gr_tools g = policy_all reg AND allowed \<and> (gr_metrics g \<longleftrightarrow> i = 0)"
    if "i < 2" for i a who using that by (cases i) (auto simp: policy_grant_role_def roles Let_def grant_zero_def)
  show ?thesis
  proof (cases "own_token w")
    case None
    then have p: "po_tokens p = []" "po_anonymous p = [Some 0, Some 1, Some 0]" "\<not> po_unix_token p" using o b(3) by (simp_all add: b(2))
    have a: "po_anonymous p ! kind = Some (of_bool (kind = POLICY_REMOTE))"
      using k by (auto simp: p POLICY_KINDS_def POLICY_REMOTE_def less_Suc_eq numeral_3_eq_3)
    have s: "\<exists>g. policy_grant_role p (po_anonymous p ! kind) z who = POLICY_GRANTED g \<and> gr_tools g = policy_all reg AND allowed \<and>
        (gr_metrics g \<longleftrightarrow> kind \<noteq> POLICY_REMOTE)" for z who
      using r [of "of_bool (kind = POLICY_REMOTE)" z who] unfolding a by auto
    show ?thesis
    proof (cases "if kind = POLICY_UNIX then peer else None")
      case n: None
      then have "policy_grant_client w (Some p) token kind peer = policy_grant_role p (po_anonymous p ! kind) 0 (po_strangers p ! kind)"
        using k p(1) by (cases token) (simp_all add: policy_grant_client_def Let_def)
      then show ?thesis using s [of 0 "po_strangers p ! kind"] None n by (auto split: if_splits)
    next
      case (Some pe)
      have u: "kind = POLICY_UNIX" "peer = Some pe" using Some by (simp_all split: if_splits)
      show ?thesis
      proof (cases token)
        case t: None
        have "policy_grant_client w (Some p) token kind peer = policy_grant_role p (po_anonymous p ! kind) (pe_principal pe) []"
          using k u t by (simp add: policy_grant_client_def policy_grant_unix_def roles(2))
        then show ?thesis using s [of "pe_principal pe" "[]"] None t by simp
      next
        case (Some t)
        then show ?thesis using k u None p(3) by (simp add: policy_grant_client_def)
      qed
    qed
  next
    case (Some t)
    have d: "map tk_digest ts = [os_sha256 w t]" "map tk_role ts = [0]" using o Some b(3,4) by simp_all
    then obtain x where x: "ts = [x]" "tk_digest x = os_sha256 w t" "tk_role x = 0" by (cases ts) auto
    have p: "po_tokens p = [x]" "po_anonymous p = [None, None, None]" "po_unix_token p" using o Some by (simp_all add: b(2) x(1))
    have none: "po_anonymous p ! j = None" if "j < POLICY_KINDS" for j using that by (auto simp: p POLICY_KINDS_def less_Suc_eq numeral_3_eq_3)
    have tok: "policy_grant_token w p u = (if os_sha256 w u = os_sha256 w t then policy_grant_role p (Some 0) (tk_principal x) (tk_who x) else POLICY_REFUSED)" for u
      using x by (auto simp: policy_grant_token_def p(1))
    obtain g where g: "policy_grant_role p (Some 0) (tk_principal x) (tk_who x) = POLICY_GRANTED g" "gr_tools g = policy_all reg AND allowed" "gr_metrics g"
      using r [of 0] by auto
    have refused: "policy_grant_role p None a who = POLICY_REFUSED" for a who by (simp add: policy_grant_role_def)
    have unix: "policy_grant_unix p pe = POLICY_REFUSED" for pe
      using none [of POLICY_UNIX] by (simp add: policy_grant_unix_def roles(2) refused POLICY_UNIX_def POLICY_KINDS_def)
    show ?thesis using Some k none [OF k] p(1,3) tok g refused unix
      by (cases "if kind = POLICY_UNIX then peer else None"; cases token) (simp_all add: policy_grant_client_def Let_def)
  qed
qed

theorem own_policy_grants_witness:
  "\<exists>p th g. demo_create JNull = Some (Inr p, th) \<and>
    policy_grant_client demo_os (Some p) (Some (ascii ''key'')) POLICY_REMOTE None = POLICY_GRANTED g \<and> gr_metrics g \<and>
    policy_grant_client demo_os (Some p) None POLICY_LOOPBACK None = POLICY_REFUSED"
proof -
  obtain p th where p: "demo_create JNull = Some (Inr p, th)" by (rule demo_own_created)
  have t: "own_token demo_os = Some (ascii ''key'')" by (simp add: own_token_def demo_os_def ascii_def)
  have k: "POLICY_REMOTE < POLICY_KINDS" "POLICY_LOOPBACK < POLICY_KINDS" by (simp_all add: POLICY_REMOTE_def POLICY_LOOPBACK_def POLICY_KINDS_def)
  have "\<exists>g. policy_grant_client demo_os (Some p) (Some (ascii ''key'')) POLICY_REMOTE None = POLICY_GRANTED g \<and> gr_metrics g"
    using own_policy_grants [OF demo_ok demo_thread p demo_file_parts(3) k(1), where token = "Some (ascii ''key'')" and peer = None] by (auto simp: t)
  moreover have "policy_grant_client demo_os (Some p) None POLICY_LOOPBACK None = POLICY_REFUSED"
    using own_policy_grants [OF demo_ok demo_thread p demo_file_parts(3) k(2), where token = None and peer = None] by (simp add: t)
  ultimately show ?thesis using p by blast
qed

text \<open>
  C9.  Principals are apart.  The principal of a uid is none of an identity's, and never 0, which stands for no one.  A client
  that is granted something over a Unix socket has its own principal; any other has that of an identity, or 0 if it is a stranger.
\<close>

theorem principals_are_apart:
  assumes "junk_ok (os_junk w)" "reg_ok spare reg" "thread_ok th hs"
    and c: "policy_create w fs as th fl reg allowed upstream = Some (Inr p, th')"
    and h: "policy_principal_uid w (Some p) uid = Inr h"
  shows "h \<noteq> 0 \<and> \<not> bit h 63 \<and> (\<forall>t \<in> set (po_tokens p). tk_principal t \<noteq> h \<and> tk_principal t \<noteq> 0) \<and>
    (case policy_grant_client w (Some p) token kind peer of
       POLICY_GRANTED g \<Rightarrow>
         (case (if kind = POLICY_UNIX then peer else None) of
            Some pe \<Rightarrow> gr_principal g = pe_principal pe
          | None \<Rightarrow> gr_principal g \<noteq> h \<and> (gr_principal g = 0 \<or> (\<exists>t \<in> set (po_tokens p). gr_principal g = tk_principal t)))
     | _ \<Rightarrow> True)"
proof -
  have ok: "principals_ok p" using created [OF assms(1-3) c] by blast
  have hb: "h \<noteq> 0" "\<not> bit h 63" "\<not> bit h 62"
    using principal_bits [of 0 w p _ h] h by (auto simp: policy_principal_uid_def POLICY_IDENTITY_def)
  have t: "tk_principal t \<noteq> h \<and> tk_principal t \<noteq> 0" if "t \<in> set (po_tokens p)" for t
    using ok that hb(3) by (auto simp: principals_ok_def)
  have tok: "\<exists>t \<in> set (po_tokens p). gr_principal g = tk_principal t" if gt: "policy_grant_token w p u = POLICY_GRANTED g" for g u
    using gt grant_role_some by (fastforce simp: policy_grant_token_def find_Some_iff split: option.splits)
  have str: "gr_principal g = 0" if gs: "policy_grant_role p role 0 who = POLICY_GRANTED g" for g role who
    by (rule grant_role_principal [OF gs])
  have un: "gr_principal g = pe_principal pe" if gu: "policy_grant_unix p pe = POLICY_GRANTED g" for g pe
    by (rule grant_role_principal [OF gu [unfolded policy_grant_unix_def]])
  have "case (if kind = POLICY_UNIX then peer else None) of
            Some pe \<Rightarrow> gr_principal g = pe_principal pe
          | None \<Rightarrow> gr_principal g = 0 \<or> (\<exists>t \<in> set (po_tokens p). gr_principal g = tk_principal t)"
    if g: "policy_grant_client w (Some p) token kind peer = POLICY_GRANTED g" for g
  proof -
    have k: "kind < POLICY_KINDS" using g by (auto simp: policy_grant_client_def split: if_splits)
    show ?thesis using g k tok str un
      by (cases "if kind = POLICY_UNIX then peer else None"; cases token)
        (auto simp: policy_grant_client_def Let_def split: if_splits policy_verdict.splits)
  qed
  note g = this
  show ?thesis
  proof (cases "policy_grant_client w (Some p) token kind peer")
    case (POLICY_GRANTED g')
    then show ?thesis using g [of g'] hb t by (cases "if kind = POLICY_UNIX then peer else None") (auto dest: t)
  qed (use hb t in simp_all)
qed

theorem principals_are_apart_witness:
  "\<exists>p th h g. demo_create demo_file = Some (Inr p, th) \<and> policy_principal_uid demo_os (Some p) 5 = Inr h \<and>
    policy_grant_client demo_os (Some p) (Some (ascii ''key'')) POLICY_REMOTE None = POLICY_GRANTED g \<and> h \<noteq> 0 \<and> gr_principal g \<noteq> h"
proof -
  obtain p th g where p: "demo_create demo_file = Some (Inr p, th)" and
      g: "policy_grant_client demo_os (Some p) (Some (ascii ''key'')) POLICY_REMOTE None = POLICY_GRANTED g" by (rule demo_created)
  obtain md where "os_hmac demo_os (po_key p) (ascii ''uid:'' @ util_decimal (ucast (5 :: u32))) = Some md" "length md = 8"
    by (simp add: demo_os_def)
  then obtain h where h: "policy_principal_uid demo_os (Some p) 5 = Inr h"
    by (simp add: policy_principal_uid_def policy_principal_of_def Let_def)
  show ?thesis
    using principals_are_apart [OF demo_ok demo_thread p h, where token = "Some (ascii ''key'')" and kind = POLICY_REMOTE and peer = None] p h g by auto
qed

text \<open>
  C11.  \<^verbatim>\<open>policy_create()\<close> counts enough room before it fills it: neither a file in which no object has a key twice, whether
  or not it ends in an error, nor askai's own policy, with a token or without, adds more tokens, roles, groups or bytes of names
  than there is room for.
\<close>

theorem policy_stays_within_room:
  assumes "junk_ok (os_junk w)" "reg_ok spare reg" "thread_ok th hs"
    "fst (policy_file fl) \<Longrightarrow> json_distinct (snd (policy_file fl) ! 1) (snd (policy_file fl) ! 3)"
  shows "\<exists>e b. (if fst (policy_file fl)
      then policy_build_file w (snd (policy_file fl) ! 1) (snd (policy_file fl) ! 2) (snd (policy_file fl) ! 3)
        (build_begin fs th fl reg upstream subuids subgids)
      else Some (None, policy_build_own w (own_token w) (build_begin fs th fl reg upstream subuids subgids))) = Some (e, b) \<and>
    (case policy_room w fl of (n_tokens, n_roles, n_groups, n_names) \<Rightarrow>
       length (po_tokens (pb_p b)) \<le> n_tokens \<and> length (po_roles (pb_p b)) \<le> n_roles \<and> length (po_groups (pb_p b)) \<le> n_groups \<and>
       pb_names b \<le> n_names)"
proof (cases "fst (policy_file fl)")
  case True
  from room_file [OF assms(1-3) True assms(4) [OF True]] show ?thesis using True by simp
next
  case False
  then show ?thesis
    by (cases "own_token w") (auto simp: policy_room_def policy_build_own_def policy_token_add_def build_begin_def policy_zero_def Let_def split: prod.split)
qed

theorem policy_stays_within_room_witness:
  "(\<exists>e b. policy_build_file demo_os (snd (policy_file demo_file) ! 1) (snd (policy_file demo_file) ! 2) (snd (policy_file demo_file) ! 3)
      (build_begin demo_files (Some stash_new, heap_new []) demo_file demo_reg 0 [] []) = Some (e, b) \<and>
    length (po_tokens (pb_p b)) \<le> fst (policy_room demo_os demo_file)) \<and>
   length (po_tokens (pb_p (policy_build_own demo_os (own_token demo_os)
     (build_begin demo_files (Some stash_new, heap_new []) JNull demo_reg 0 [] [])))) \<le> fst (policy_room demo_os JNull)"
proof -
  have "\<not> fst (policy_file JNull)" by code_simp
  then show ?thesis
    using policy_stays_within_room [OF demo_ok demo_thread, of demo_file demo_files 0 "[]" "[]"] demo_file_parts(1,4)
      policy_stays_within_room [OF demo_ok demo_thread, of JNull demo_files 0 "[]" "[]"] by auto
qed

end
