(* ===== verification/Hist.thy ===== *)
theory Hist
  imports Prelude "HOL-Library.Multiset"
begin

text \<open>
  Counters and budgets: the log-linear latency histogram of \<^verbatim>\<open>src/hist.h\<close>, the tally of items and
  bytes of \<^verbatim>\<open>src/tally.h\<close>, and the conversions of times of \<^verbatim>\<open>src/clk.h\<close>.  A histogram has one
  writer, whose relaxed loads and stores are plain reads and updates of the record here; a
  counter that several threads write is a single atomic addition.

  The lemmas show that the bucket index stays in the array, grows with the value and loses at
  most one part in 256 of it, that the histogram is the image of the multiset of the values
  recorded, and that a tally never passes its bounds.
\<close>

unbundle bit_operations_syntax

section \<open>The histogram\<close>

definition HIST_SIG_BITS :: nat where "HIST_SIG_BITS = 7"
definition HIST_SUB :: nat where "HIST_SUB = 128"
definition HIST_OCTAVES :: nat where "HIST_OCTAVES = 57"
definition HIST_BUCKETS :: nat where "HIST_BUCKETS = (HIST_OCTAVES + 1) * HIST_SUB"

lemmas hist_constants = HIST_SIG_BITS_def HIST_SUB_def HIST_OCTAVES_def HIST_BUCKETS_def

record hist =
  h_count :: u64
  h_sum :: u64
  h_min :: u64
  h_max :: u64
  h_bucket :: "u64 list"

definition hist_clear :: hist where
  "hist_clear = \<lparr> h_count = 0, h_sum = 0, h_min = 0, h_max = 0, h_bucket = replicate HIST_BUCKETS 0 \<rparr>"

text \<open>\<^verbatim>\<open>__builtin_clzl()\<close>: the zeros above the highest bit that is set.\<close>

fun clz_loop :: "nat \<Rightarrow> u64 \<Rightarrow> nat" where
  "clz_loop 0 v = 64"
| "clz_loop (Suc i) v = (if bit v i then 63 - i else clz_loop i v)"

definition clz64 :: "u64 \<Rightarrow> nat" where
  "clz64 v = clz_loop 64 v"

definition hist_index :: "u64 \<Rightarrow> nat" where
  "hist_index v =
     (if unat v < HIST_SUB then unat v
      else let x = 63 - clz64 v - HIST_SIG_BITS;
               y = drop_bit x (v - push_bit x (of_nat HIST_SUB))
           in (x + 1) * HIST_SUB + unat y)"

definition hist_value :: "nat \<Rightarrow> u64" where
  "hist_value i =
     (if i < HIST_SUB then of_nat i
      else let x = i div HIST_SUB - 1
           in push_bit x (of_nat (i mod HIST_SUB)) + push_bit x (of_nat HIST_SUB) + push_bit x 1 div 2)"

definition hist_record :: "hist \<Rightarrow> u64 \<Rightarrow> hist" where
  "hist_record h v =
     (let cnt = h_count h;
          h = (if cnt = 0 \<or> v < h_min h then h\<lparr>h_min := v\<rparr> else h);
          h = (if v > h_max h then h\<lparr>h_max := v\<rparr> else h);
          h = h\<lparr>h_count := cnt + 1\<rparr>;
          h = h\<lparr>h_sum := h_sum h + v\<rparr>
      in h\<lparr>h_bucket := (h_bucket h)[hist_index v := h_bucket h ! hist_index v + 1]\<rparr>)"

text \<open>\<^verbatim>\<open>hist_above()\<close>: the loop over the buckets after the value's.\<close>

definition hist_above :: "hist \<Rightarrow> u64 \<Rightarrow> u64" where
  "hist_above h v = foldl (+) 0 (drop (hist_index v + 1) (h_bucket h))"

text \<open>
  \<^verbatim>\<open>hist_pct()\<close>.  The rank, \<^verbatim>\<open>(double)h_count * p + 0.5\<close> cut to an integer, is an argument: it is
  floating point arithmetic.
\<close>

fun pct_loop :: "u64 list \<Rightarrow> nat \<Rightarrow> u64 \<Rightarrow> u64 \<Rightarrow> u64 \<Rightarrow> u64" where
  "pct_loop [] i seen rank mx = mx"
| "pct_loop (b # bs) i seen rank mx =
     (let seen = seen + b
      in if seen \<ge> rank then (let val = hist_value i in if val > mx then mx else val)
         else pct_loop bs (i + 1) seen rank mx)"

definition hist_pct :: "hist \<Rightarrow> u64 \<Rightarrow> u64" where
  "hist_pct h rank =
     (if h_count h = 0 then 0
      else pct_loop (h_bucket h) 0 0 (if rank = 0 then 1 else rank) (h_max h))"

section \<open>Tallies\<close>

record tally =
  t_n :: u64
  t_bytes :: u64

definition tally_fits :: "tally \<Rightarrow> tally \<Rightarrow> u64 \<Rightarrow> bool" where
  "tally_fits used mx b \<longleftrightarrow> t_n used < t_n mx \<and> t_bytes used \<le> t_bytes mx \<and> b \<le> t_bytes mx - t_bytes used"

definition tally_add :: "tally \<Rightarrow> u64 \<Rightarrow> tally" where
  "tally_add used b = used\<lparr>t_n := t_n used + 1, t_bytes := t_bytes used + b\<rparr>"

definition tally_sub :: "tally \<Rightarrow> u64 \<Rightarrow> tally" where
  "tally_sub used b = used\<lparr>t_n := t_n used - 1, t_bytes := t_bytes used - b\<rparr>"

section \<open>Times\<close>

definition NS :: u64 where "NS = 1000000000"
definition MS :: u64 where "MS = 1000000"

text \<open>A \<^verbatim>\<open>struct timespec\<close>: two signed 64-bit numbers.\<close>

record timespec =
  tv_sec :: "64 word"
  tv_nsec :: "64 word"

definition clk_timespec :: "u64 \<Rightarrow> timespec" where
  "clk_timespec ns = \<lparr> tv_sec = ns div NS, tv_nsec = ns mod NS \<rparr>"

definition clk_ns :: "timespec \<Rightarrow> u64" where
  "clk_ns t = NS * tv_sec t + tv_nsec t"

definition clk_timespec_ok :: "timespec \<Rightarrow> bool" where
  "clk_timespec_ok t \<longleftrightarrow>
     0 \<le> sint (tv_sec t) \<and> 0 \<le> sint (tv_nsec t) \<and> sint (tv_nsec t) < 1000000000"

text \<open>
  \<^verbatim>\<open>clk_now_or_1969()\<close> on what \<^verbatim>\<open>clock_gettime()\<close> does: it stores a time, or fails with the value
  of \<^verbatim>\<open>errno\<close>, a 32-bit \<^verbatim>\<open>int\<close>, which is widened.
\<close>

definition clk_now_or_1969 :: "32 word + timespec \<Rightarrow> timespec" where
  "clk_now_or_1969 r =
     (case r of
        Inl e \<Rightarrow> let nsec = (if 0 \<le> sint e then -1 else 0) :: 64 word
                 in \<lparr> tv_sec = scast e XOR nsec, tv_nsec = nsec \<rparr>
      | Inr t \<Rightarrow> if clk_timespec_ok t then t else \<lparr> tv_sec = -1, tv_nsec = 0 \<rparr>)"

definition clk_errno :: "timespec \<Rightarrow> 32 word" where
  "clk_errno t =
     (if 0 \<le> sint (tv_sec t) then 0
      else if 0 \<le> sint (tv_nsec t) then ucast (tv_sec t) else ucast (NOT (tv_sec t)))"

definition clk_now_or_1970 :: "32 word + timespec \<Rightarrow> timespec" where
  "clk_now_or_1970 r =
     (case r of Inl e \<Rightarrow> \<lparr> tv_sec = 0, tv_nsec = 0 \<rparr>
      | Inr t \<Rightarrow> if clk_timespec_ok t then t else \<lparr> tv_sec = 0, tv_nsec = 0 \<rparr>)"

definition clk_now_or_1970_ns :: "32 word + timespec \<Rightarrow> u64" where
  "clk_now_or_1970_ns r = clk_ns (clk_now_or_1970 r)"

section \<open>Facts: the bucket of a value\<close>

lemma clz_loop_spec:
  "i \<le> 64 \<Longrightarrow> v \<noteq> 0 \<Longrightarrow> unat v < 2 ^ i \<Longrightarrow>
     clz_loop i v \<le> 63 \<and> 2 ^ (63 - clz_loop i v) \<le> unat v \<and> unat v < 2 ^ (64 - clz_loop i v)"
proof (induction i)
  case 0
  then show ?case by (simp add: unat_0_iff)
next
  case (Suc i)
  have bit: "bit v i \<longleftrightarrow> \<not> unat v < 2 ^ i"
  proof -
    have "bit v i \<longleftrightarrow> bit (unat v) i"
      using Suc.prems(1) bit_unsigned_iff [where ?'a = nat and w = v and n = i] by simp
    also have "\<dots> \<longleftrightarrow> odd (unat v div 2 ^ i)" by (simp add: bit_iff_odd)
    also have "unat v div 2 ^ i < 2" using Suc.prems(3) by (simp add: less_mult_imp_div_less)
    then have "odd (unat v div 2 ^ i) \<longleftrightarrow> unat v div 2 ^ i \<noteq> 0" by (auto simp: less_2_cases_iff)
    finally show ?thesis by (simp add: div_eq_0_iff)
  qed
  show ?case
  proof (cases "bit v i")
    case True
    with bit have "2 ^ i \<le> unat v" by (simp add: not_less)
    moreover have "63 - (63 - i) = i" "64 - (63 - i) = Suc i" using Suc.prems(1) by auto
    ultimately show ?thesis using True Suc.prems by simp
  next
    case False
    with bit Suc show ?thesis by simp
  qed
qed

lemma clz64_spec:
  assumes "v \<noteq> 0"
  shows "clz64 v \<le> 63" "2 ^ (63 - clz64 v) \<le> unat v" "unat v < 2 ^ (64 - clz64 v)"
proof -
  have "unat v < 2 ^ 64" using unsigned_less [of v, where ?'a = nat] by simp
  then show "clz64 v \<le> 63" "2 ^ (63 - clz64 v) \<le> unat v" "unat v < 2 ^ (64 - clz64 v)"
    using clz_loop_spec [of 64 v] assms by (simp_all add: clz64_def)
qed

text \<open>The index in closed form: \<open>x\<close> is the octave, and \<open>unat v div 2 ^ x\<close> the position in it.\<close>

lemma hist_index_form:
  obtains x where "x \<le> 56" "hist_index v = HIST_SUB * x + unat v div 2 ^ x"
    "unat v div 2 ^ x < 2 * HIST_SUB" "x = 0 \<or> HIST_SUB \<le> unat v div 2 ^ x"
proof (cases "unat v < HIST_SUB")
  case True
  then show thesis by (intro that [of 0]) (simp_all add: hist_index_def HIST_SUB_def)
next
  case False
  then have v: "v \<noteq> 0" "128 \<le> unat v" by (auto simp: HIST_SUB_def)
  note clz = clz64_spec [OF v(1)]
  define x where "x = 63 - clz64 v - HIST_SIG_BITS"
  have c56: "clz64 v \<le> 56"
  proof (rule ccontr)
    assume "\<not> clz64 v \<le> 56"
    then have "(2::nat) ^ (64 - clz64 v) \<le> 2 ^ 7" by (intro power_increasing) auto
    with clz(3) v(2) show False by simp
  qed
  have x: "63 - clz64 v = x + 7" "64 - clz64 v = x + 8" "x \<le> 56"
    using c56 by (auto simp: HIST_SIG_BITS_def x_def)
  have lo: "2 ^ x * 128 \<le> unat v" and hi: "unat v < 2 ^ x * 256"
    using clz(2,3) unfolding x(1,2) power_add by simp_all
  have d: "128 \<le> unat v div 2 ^ x" "unat v div 2 ^ x < 256"
    using lo hi by (simp_all add: less_eq_div_iff_mult_less_eq mult.commute less_mult_imp_div_less)
  have "unat (push_bit x (of_nat HIST_SUB) :: u64) = 2 ^ x * 128"
  proof -
    have "2 ^ x * 128 < (2::nat) ^ 64"
      using lo unat_less_64 [of v] by simp
    moreover have "push_bit x (of_nat HIST_SUB) = (of_nat (2 ^ x * 128) :: u64)"
      by (simp add: HIST_SUB_def push_bit_eq_mult)
    ultimately show ?thesis by (simp only: unat_of_nat_64)
  qed
  then have "unat (v - push_bit x (of_nat HIST_SUB)) = unat v - 2 ^ x * 128"
    using lo by (subst unat_sub) (simp_all add: word_le_nat_alt)
  then have "unat (drop_bit x (v - push_bit x (of_nat HIST_SUB))) = unat v div 2 ^ x - 128"
    using diff_mult_div [of "2 ^ x" 128 "unat v"] lo by (simp add: unat_drop_bit_div mult.commute)
  then have "hist_index v = HIST_SUB * x + unat v div 2 ^ x"
    using False d unfolding hist_index_def Let_def x_def [symmetric] by (simp add: HIST_SUB_def)
  then show thesis using d x(3) by (intro that [of x]) (simp_all add: HIST_SUB_def)
qed

lemma hist_index_bound: "hist_index v < HIST_BUCKETS"
proof -
  obtain x where "x \<le> 56" "hist_index v = HIST_SUB * x + unat v div 2 ^ x"
      "unat v div 2 ^ x < 2 * HIST_SUB"
    by (rule hist_index_form)
  then show ?thesis by (simp add: hist_constants)
qed

lemma hist_index_mono:
  assumes "v \<le> w"
  shows "hist_index v \<le> hist_index w"
proof -
  obtain x where x: "hist_index v = HIST_SUB * x + unat v div 2 ^ x"
      "unat v div 2 ^ x < 2 * HIST_SUB" "x = 0 \<or> HIST_SUB \<le> unat v div 2 ^ x"
    by (rule hist_index_form)
  obtain y where y: "hist_index w = HIST_SUB * y + unat w div 2 ^ y"
      "unat w div 2 ^ y < 2 * HIST_SUB" "y = 0 \<or> HIST_SUB \<le> unat w div 2 ^ y"
    by (rule hist_index_form)
  have le: "unat v \<le> unat w" using assms by (simp add: word_le_nat_alt)
  consider "x = y" | "x < y" | "y < x" by linarith
  then show ?thesis
  proof cases
    case 1
    then show ?thesis using x(1) y(1) le by (simp add: div_le_mono)
  next
    case 2
    then have "HIST_SUB * Suc x \<le> HIST_SUB * y" "HIST_SUB \<le> unat w div 2 ^ y"
      using y(3) by (simp_all only: mult_le_mono2 Suc_le_eq) auto
    then show ?thesis using x(1,2) y(1) by simp
  next
    case 3
    then have "(2::nat) ^ x = 2 ^ y * 2 ^ (x - y)" by (simp flip: power_add)
    then have "unat w div 2 ^ x = unat w div 2 ^ y div 2 ^ (x - y)" by (simp add: div_mult2_eq)
    also have "\<dots> \<le> unat w div 2 ^ y div 2 ^ 1"
      using 3 by (intro div_le_mono2 power_increasing) auto
    also have "\<dots> < HIST_SUB" using y(2) by (simp add: less_mult_imp_div_less mult.commute)
    finally have "unat w div 2 ^ x < HIST_SUB" .
    moreover have "HIST_SUB \<le> unat v div 2 ^ x" using x(3) 3 by simp
    moreover have "unat v div 2 ^ x \<le> unat w div 2 ^ x" using le by (rule div_le_mono)
    ultimately show ?thesis by simp
  qed
qed

lemma hist_value_form:
  assumes "x \<le> 56" "q < 2 * HIST_SUB" "x = 0 \<or> HIST_SUB \<le> q"
  shows "unat (hist_value (HIST_SUB * x + q)) = 2 ^ x * q + (if HIST_SUB \<le> q then 2 ^ x div 2 else 0)"
proof (cases "HIST_SUB \<le> q")
  case False
  with assms show ?thesis by (simp add: hist_value_def HIST_SUB_def)
next
  case True
  define r where "r = q - HIST_SUB"
  have q: "q = HIST_SUB + r" "r < HIST_SUB" using True assms(2) by (auto simp: r_def)
  have i: "(HIST_SUB * x + q) div HIST_SUB - 1 = x" "(HIST_SUB * x + q) mod HIST_SUB = r"
    using q by (simp_all add: HIST_SUB_def)
  have pow: "(2::nat) ^ x \<le> 2 ^ 56" using assms(1) by (intro power_increasing) auto
  have "2 ^ x * q + 2 ^ x div 2 < 2 ^ 64"
  proof -
    have "2 ^ x * q \<le> 2 ^ 56 * 255" using pow q by (intro mult_mono) (auto simp: HIST_SUB_def)
    with pow show ?thesis by simp
  qed
  note total = this
  have p: "unat (of_nat (2 ^ x) :: u64) = 2 ^ x" using pow by (intro unat_of_nat_64) simp
  have "(push_bit x 1 :: u64) div 2 = of_nat (2 ^ x div 2)"
  proof -
    have "unat (push_bit x 1 div 2 :: u64) = 2 ^ x div 2"
      using p by (simp add: unat_div_distrib)
    moreover have "unat (of_nat (2 ^ x div 2) :: u64) = 2 ^ x div 2"
      using pow by (intro unat_of_nat_64) simp
    ultimately show ?thesis by (simp only: word_unat_eq_iff)
  qed
  then have "hist_value (HIST_SUB * x + q) =
      push_bit x (of_nat r) + push_bit x (of_nat HIST_SUB) + of_nat (2 ^ x div 2)"
    unfolding hist_value_def Let_def i using True by simp
  also have "\<dots> = of_nat (2 ^ x * q + 2 ^ x div 2)"
    by (simp add: push_bit_eq_mult q(1) algebra_simps)
  finally show ?thesis using total True by (simp only: unat_of_nat_64 if_True)
qed

text \<open>The midpoint that stands for a bucket is within 1/256 of every value in it.\<close>

lemma hist_value_error:
  "256 * \<bar>int (unat (hist_value (hist_index v))) - int (unat v)\<bar> \<le> int (unat v)"
proof -
  obtain x where x: "x \<le> 56" "hist_index v = HIST_SUB * x + unat v div 2 ^ x"
      "unat v div 2 ^ x < 2 * HIST_SUB" "x = 0 \<or> HIST_SUB \<le> unat v div 2 ^ x"
    by (rule hist_index_form)
  define q where "q = unat v div 2 ^ x"
  define m where "m = unat v mod 2 ^ x"
  have v: "unat v = 2 ^ x * q + m" "m < 2 ^ x" by (simp_all add: q_def m_def)
  have val: "unat (hist_value (hist_index v)) = 2 ^ x * q + (if HIST_SUB \<le> q then 2 ^ x div 2 else 0)"
    unfolding x(2) q_def [symmetric] using x hist_value_form [of x q] by (simp add: q_def)
  show ?thesis
  proof (cases "x = 0")
    case True
    then show ?thesis using val v by simp
  next
    case False
    then obtain y where y: "x = Suc y" by (cases x) auto
    have h: "HIST_SUB \<le> q" "(2::nat) ^ x div 2 = 2 ^ y" "(2::nat) ^ x = 2 * 2 ^ y"
      using x(4) False y by (auto simp: q_def)
    have "2 ^ x * 128 \<le> 2 ^ x * q" using h(1) by (simp add: HIST_SUB_def)
    then have big: "256 * 2 ^ y \<le> unat v" using v(1) h(3) by linarith
    have diff: "int (unat (hist_value (hist_index v))) - int (unat v) = 2 ^ y - int m"
      using val v(1) h by simp
    have "int m < 2 * 2 ^ y"
      using v(2) h(3) by (metis of_nat_less_iff of_nat_mult of_nat_numeral of_nat_power)
    then have "\<bar>int (unat (hist_value (hist_index v))) - int (unat v)\<bar> \<le> 2 ^ y"
      unfolding diff by linarith
    then have "256 * \<bar>int (unat (hist_value (hist_index v))) - int (unat v)\<bar> \<le> 256 * 2 ^ y"
      by (rule mult_left_mono) simp
    also have "256 * 2 ^ y \<le> int (unat v)"
      using big by (metis of_nat_le_iff of_nat_mult of_nat_numeral of_nat_power)
    finally show ?thesis .
  qed
qed

lemma octave_unique:
  assumes q: "k div 2 ^ x < 2 * HIST_SUB" and q': "y = 0 \<or> HIST_SUB \<le> (k::nat) div 2 ^ y"
  shows "y \<le> x"
proof (rule ccontr)
  assume "\<not> y \<le> x"
  then have lt: "x < y" by simp
  then have "(2::nat) ^ y = 2 ^ x * 2 ^ (y - x)" by (simp flip: power_add)
  then have "k div 2 ^ y = k div 2 ^ x div 2 ^ (y - x)" by (simp add: div_mult2_eq)
  also have "\<dots> \<le> k div 2 ^ x div 2 ^ 1"
    using lt by (intro div_le_mono2 power_increasing) auto
  also have "\<dots> < HIST_SUB" using q by (simp add: less_mult_imp_div_less mult.commute)
  finally show False using q' lt by simp
qed

lemma hist_index_unique:
  assumes "unat v div 2 ^ x < 2 * HIST_SUB" "x = 0 \<or> HIST_SUB \<le> unat v div 2 ^ x"
  shows "hist_index v = HIST_SUB * x + unat v div 2 ^ x"
proof -
  obtain y where y: "hist_index v = HIST_SUB * y + unat v div 2 ^ y"
      "unat v div 2 ^ y < 2 * HIST_SUB" "y = 0 \<or> HIST_SUB \<le> unat v div 2 ^ y"
    by (rule hist_index_form)
  have "x = y"
    using octave_unique [OF assms(1) y(3)] octave_unique [OF y(2) assms(2)] by simp
  with y(1) show ?thesis by simp
qed

lemma hist_index_value:
  assumes "i < HIST_BUCKETS"
  shows "hist_index (hist_value i) = i"
proof -
  define x where "x = (if i < HIST_SUB then 0 else i div HIST_SUB - 1)"
  define q where "q = i - HIST_SUB * x"
  have i: "i = HIST_SUB * x + q" "x \<le> 56" "q < 2 * HIST_SUB" "x = 0 \<or> HIST_SUB \<le> q"
    using assms by (auto simp: x_def q_def hist_constants)
  have "unat (hist_value i) div 2 ^ x = q"
    using hist_value_form [OF i(2-4)] i(1) by simp
  then show ?thesis using hist_index_unique [of "hist_value i" x] i by simp
qed

section \<open>Facts: what a histogram holds\<close>

text \<open>The histogram of the values \<open>M\<close>: the counts modulo 2^64, and the exact extrema.\<close>

definition hist_of :: "u64 multiset \<Rightarrow> hist \<Rightarrow> bool" where
  "hist_of M h \<longleftrightarrow>
     length (h_bucket h) = HIST_BUCKETS \<and>
     h_count h = of_nat (size M) \<and> h_sum h = (\<Sum>v\<in>#M. v) \<and>
     (M \<noteq> {#} \<longrightarrow> h_min h = Min (set_mset M) \<and> h_max h = Max (set_mset M)) \<and>
     (M = {#} \<longrightarrow> h_max h = 0) \<and>
     (\<forall>i < HIST_BUCKETS. h_bucket h ! i = of_nat (size (filter_mset (\<lambda>v. hist_index v = i) M)))"

lemma hist_of_clear: "hist_of {#} hist_clear"
  by (simp add: hist_of_def hist_clear_def)

lemma hist_of_record:
  assumes h: "hist_of M h" and small: "size M < 2 ^ 64"
  shows "hist_of (add_mset v M) (hist_record h v)"
proof -
  have empty: "h_count h = 0 \<longleftrightarrow> M = {#}"
  proof -
    have "unat (h_count h) = size M" using h small by (simp add: hist_of_def)
    then show ?thesis by (metis size_eq_0_iff_empty unat_0_iff)
  qed
  have min: "h_min (hist_record h v) = Min (set_mset (add_mset v M))"
  proof (cases "M = {#}")
    case False
    define m where "m = Min (set_mset M)"
    have "h_min h = m" using h False by (simp add: hist_of_def m_def)
    moreover have "Min (set_mset (add_mset v M)) = min v m" using False by (simp add: m_def)
    ultimately show ?thesis using empty False
      by (simp only:) (simp add: hist_record_def Let_def min_def less_imp_le)
  qed (simp add: hist_record_def Let_def empty)
  have max: "h_max (hist_record h v) = Max (set_mset (add_mset v M))"
  proof (cases "M = {#}")
    case True
    then have "h_max h = 0" using h by (simp add: hist_of_def)
    then show ?thesis using True by (simp add: hist_record_def Let_def word_gt_0)
  next
    case False
    define m where "m = Max (set_mset M)"
    have "h_max h = m" using h False by (simp add: hist_of_def m_def)
    moreover have "Max (set_mset (add_mset v M)) = max v m" using False by (simp add: m_def)
    ultimately show ?thesis
      by (simp only:) (auto simp: hist_record_def Let_def max_def)
  qed
  show ?thesis
    using h min max hist_index_bound [of v]
    by (auto simp: hist_of_def hist_record_def Let_def nth_list_update)
qed

lemma hist_of_records:
  "hist_of M h \<Longrightarrow> size M + length vs \<le> 2 ^ 64 \<Longrightarrow> hist_of (M + mset vs) (foldl hist_record h vs)"
proof (induction vs arbitrary: M h)
  case (Cons v vs)
  then have "hist_of (add_mset v M) (hist_record h v)" by (intro hist_of_record) auto
  with Cons show ?case by (auto dest: Cons.IH)
qed simp

lemma foldl_plus: "foldl (+) a xs = a + sum_list (xs :: 'a::comm_monoid_add list)"
  by (induction xs arbitrary: a) (simp_all add: add.assoc)

lemma sum_filter_mset:
  "finite I \<Longrightarrow> (\<Sum>i\<in>I. size (filter_mset (\<lambda>v. f v = i) M)) = size (filter_mset (\<lambda>v. f v \<in> I) M)"
proof (induction M)
  case (add x M)
  have "(\<Sum>i\<in>I. size (filter_mset (\<lambda>v. f v = i) (add_mset x M))) =
      (\<Sum>i\<in>I. (if i = f x then 1 else 0) + size (filter_mset (\<lambda>v. f v = i) M))"
    by (rule sum.cong) auto
  with add show ?case by (simp add: sum.distrib)
qed simp

lemma hist_of_above:
  assumes "hist_of M h"
  shows "hist_above h v = of_nat (size (filter_mset (\<lambda>w. hist_index v < hist_index w) M))"
proof -
  let ?I = "{hist_index v + 1..<HIST_BUCKETS}"
  have "hist_above h v = sum_list (drop (hist_index v + 1) (h_bucket h))"
    by (simp add: hist_above_def foldl_plus)
  also have "\<dots> = (\<Sum>i\<in>?I. h_bucket h ! i)"
  proof -
    have l: "length (h_bucket h) = HIST_BUCKETS" using assms by (simp add: hist_of_def)
    have "sum_list (drop (hist_index v + 1) (h_bucket h)) =
        (\<Sum>i = 0..<HIST_BUCKETS - (hist_index v + 1). h_bucket h ! (i + (hist_index v + 1)))"
      by (subst sum_list_sum_nth) (simp add: l add.commute)
    also have "\<dots> = (\<Sum>i\<in>?I. h_bucket h ! i)"
      using hist_index_bound [of v]
      by (subst sum.shift_bounds_nat_ivl [symmetric]) (simp add: Suc_leI)
    finally show ?thesis .
  qed
  also have "\<dots> = (\<Sum>i\<in>?I. of_nat (size (filter_mset (\<lambda>v. hist_index v = i) M)))"
    using assms by (intro sum.cong) (auto simp: hist_of_def)
  also have "\<dots> = of_nat (size (filter_mset (\<lambda>w. hist_index w \<in> ?I) M))"
    by (simp flip: of_nat_sum add: sum_filter_mset)
  also have "filter_mset (\<lambda>w. hist_index w \<in> ?I) M = filter_mset (\<lambda>w. hist_index v < hist_index w) M"
    by (rule filter_mset_cong) (auto simp: hist_index_bound)
  finally show ?thesis .
qed

lemma pct_loop_le: "pct_loop bs i seen rank mx \<le> mx"
  by (induction bs i seen rank mx rule: pct_loop.induct) (auto simp: Let_def)

lemma hist_pct_le: "h_count h \<noteq> 0 \<Longrightarrow> hist_pct h rank \<le> h_max h"
  by (simp add: hist_pct_def pct_loop_le)

section \<open>Facts: the value of a rank\<close>

text \<open>The values at or below a bucket, and the value of a rank.\<close>

definition below :: "u64 multiset \<Rightarrow> nat \<Rightarrow> nat" where
  "below M i = size (filter_mset (\<lambda>v. hist_index v < i) M)"

lemma below_Suc: "below M (Suc i) = below M i + size (filter_mset (\<lambda>v. hist_index v = i) M)"
proof -
  have "filter_mset (\<lambda>v. hist_index v < Suc i) M
      = filter_mset (\<lambda>v. hist_index v < i) M + filter_mset (\<lambda>v. hist_index v = i) M"
    by (induction M) auto
  then show ?thesis by (simp add: below_def)
qed

lemma below_le: "below M i \<le> size M"
  by (simp add: below_def size_filter_mset_lesseq)

lemma pct_loop_rank:
  assumes M: "hist_of M h" "size M < 2 ^ 64" and r: "0 < unat rank" "unat rank \<le> size M"
  shows "i \<le> HIST_BUCKETS \<Longrightarrow> below M i < unat rank \<Longrightarrow>
    \<exists>j < HIST_BUCKETS. below M j < unat rank \<and> unat rank \<le> below M (Suc j) \<and>
      pct_loop (drop i (h_bucket h)) i (of_nat (below M i)) rank mx = min (hist_value j) mx"
proof (induction "HIST_BUCKETS - i" arbitrary: i)
  case 0
  then have "i = HIST_BUCKETS" by simp
  then have "below M i = size M" by (simp add: below_def hist_index_bound)
  with 0 r show ?case by simp
next
  case (Suc k)
  then have i: "i < HIST_BUCKETS" by simp
  then have dr: "drop i (h_bucket h) = h_bucket h ! i # drop (Suc i) (h_bucket h)"
    using M(1) Cons_nth_drop_Suc [of i "h_bucket h"] by (simp add: hist_of_def)
  have seen: "of_nat (below M i) + h_bucket h ! i = (of_nat (below M (Suc i)) :: u64)"
    using M(1) i by (simp add: hist_of_def below_Suc)
  have ge: "rank \<le> (of_nat (below M (Suc i)) :: u64) \<longleftrightarrow> unat rank \<le> below M (Suc i)"
    using below_le [of M "Suc i"] M(2) by (simp add: word_le_nat_alt)
  show ?case
  proof (cases "unat rank \<le> below M (Suc i)")
    case True
    then show ?thesis using i Suc.prems seen ge dr
      by (intro exI [of _ i]) (auto simp: Let_def min_def not_le)
  next
    case False
    then have "\<exists>j < HIST_BUCKETS. below M j < unat rank \<and> unat rank \<le> below M (Suc j) \<and>
      pct_loop (drop (Suc i) (h_bucket h)) (Suc i) (of_nat (below M (Suc i))) rank mx = min (hist_value j) mx"
      using Suc i by (intro Suc.hyps(1)) auto
    then show ?thesis using dr seen ge False by (simp add: Let_def)
  qed
qed

text \<open>With the values in order, the bucket reached at the rank is the bucket of the value there.\<close>

lemma rank_bucket:
  assumes r: "0 < r" "r \<le> size M" and j: "below M j < r" "r \<le> below M (Suc j)"
  shows "hist_index (sorted_list_of_multiset M ! (r - 1)) = j"
proof -
  let ?xs = "sorted_list_of_multiset M"
  have M: "mset ?xs = M" by simp
  have mono: "hist_index (?xs ! a) \<le> hist_index (?xs ! b)" if "a \<le> b" "b < length ?xs" for a b
    using that by (simp add: hist_index_mono sorted_nth_mono)
  have len: "length ?xs = size M" using M by (metis size_mset)
  have cnt: "below M i = card {a. a < length ?xs \<and> hist_index (?xs ! a) < i}" for i
  proof -
    have "below M i = length (filter (\<lambda>v. hist_index v < i) ?xs)"
      by (metis M below_def mset_filter size_mset)
    then show ?thesis by (simp add: length_filter_conv_card)
  qed
  show ?thesis
  proof (rule antisym)
    show "hist_index (?xs ! (r - 1)) \<le> j"
    proof (rule ccontr)
      assume gt: "\<not> hist_index (?xs ! (r - 1)) \<le> j"
      have "{a. a < length ?xs \<and> hist_index (?xs ! a) < Suc j} \<subseteq> {..<r - 1}"
      proof
        fix a assume a: "a \<in> {a. a < length ?xs \<and> hist_index (?xs ! a) < Suc j}"
        show "a \<in> {..<r - 1}" using a gt mono [of "r - 1" a] by (cases "r - 1 \<le> a") auto
      qed
      then have "card {a. a < length ?xs \<and> hist_index (?xs ! a) < Suc j} \<le> card {..<r - 1}"
        by (intro card_mono) simp_all
      then have "below M (Suc j) \<le> r - 1" by (simp add: cnt)
      with j r show False by simp
    qed
    show "j \<le> hist_index (?xs ! (r - 1))"
    proof (rule ccontr)
      assume lt: "\<not> j \<le> hist_index (?xs ! (r - 1))"
      have "{..<r} \<subseteq> {a. a < length ?xs \<and> hist_index (?xs ! a) < j}"
      proof
        fix a assume a: "a \<in> {..<r}"
        then have "hist_index (?xs ! a) \<le> hist_index (?xs ! (r - 1))"
          using r len by (intro mono) auto
        then show "a \<in> {a. a < length ?xs \<and> hist_index (?xs ! a) < j}"
          using a lt r len by simp
      qed
      then have "card {..<r} \<le> card {a. a < length ?xs \<and> hist_index (?xs ! a) < j}"
        by (intro card_mono) simp_all
      then have "r \<le> below M j" by (simp add: cnt)
      with j show False by simp
    qed
  qed
qed

lemma hist_pct_rank:
  assumes M: "hist_of M h" "size M < 2 ^ 64" and r: "0 < unat rank" "unat rank \<le> size M"
  shows "hist_pct h rank =
    min (hist_value (hist_index (sorted_list_of_multiset M ! (unat rank - 1)))) (h_max h)"
proof -
  have "h_count h \<noteq> 0"
    using M r by (auto simp: hist_of_def word_unat_eq_iff)
  moreover have "rank \<noteq> 0" using r by auto
  moreover obtain j where j: "below M j < unat rank" "unat rank \<le> below M (Suc j)"
    and p: "pct_loop (h_bucket h) 0 0 rank (h_max h) = min (hist_value j) (h_max h)"
    using pct_loop_rank [OF M r, of 0 "h_max h"] r by (auto simp: below_def)
  ultimately show ?thesis using rank_bucket [OF r j] by (simp add: hist_pct_def)
qed

section \<open>Facts: tallies and times\<close>

definition tally_within :: "tally \<Rightarrow> tally \<Rightarrow> bool" where
  "tally_within used mx \<longleftrightarrow> t_n used \<le> t_n mx \<and> t_bytes used \<le> t_bytes mx"

lemma tally_add_within:
  assumes "tally_fits used mx b"
  shows "tally_within (tally_add used b) mx"
    "unat (t_n (tally_add used b)) = unat (t_n used) + 1"
    "unat (t_bytes (tally_add used b)) = unat (t_bytes used) + unat b"
proof -
  have a: "unat (t_n used) < unat (t_n mx)" "unat (t_bytes used) \<le> unat (t_bytes mx)"
      "unat b \<le> unat (t_bytes mx) - unat (t_bytes used)"
    using assms by (auto simp: tally_fits_def word_less_nat_alt word_le_nat_alt unat_sub)
  show n: "unat (t_n (tally_add used b)) = unat (t_n used) + 1"
    using a(1) unat_less_64 [of "t_n mx"] by (simp add: tally_add_def unat_word_ariths)
  show b: "unat (t_bytes (tally_add used b)) = unat (t_bytes used) + unat b"
    using a(2,3) unat_less_64 [of "t_bytes mx"] by (simp add: tally_add_def unat_word_ariths)
  show "tally_within (tally_add used b) mx"
    using a n b by (simp add: tally_within_def word_le_nat_alt)
qed

lemma tally_sub_add [simp]: "tally_sub (tally_add used b) b = used"
  by (simp add: tally_sub_def tally_add_def)

lemma clk_ns_timespec: "clk_ns (clk_timespec ns) = ns"
  by (simp add: clk_ns_def clk_timespec_def mult_div_mod_eq)

lemma sint_nonneg:
  assumes "unat w < 2 ^ 63"
  shows "sint (w :: 64 word) = int (unat w)"
proof -
  have "int (unat w) < 2 ^ 63" using assms by (metis of_nat_less_iff of_nat_numeral of_nat_power)
  then have "uint w < 2 ^ 63" by (simp only: uint_nat)
  moreover have "- (2 ^ 63) \<le> uint w" by (rule order_trans [of _ 0]) simp_all
  ultimately have "sint w = uint w"
    by (simp add: sint_uint signed_take_bit_int_eq_self)
  then show ?thesis by (simp only: uint_nat)
qed

lemma clk_timespec_valid: "clk_timespec_ok (clk_timespec ns)"
proof -
  have sec: "unat (ns div NS) < 2 ^ 63"
    using unat_less_64 [of ns] by (simp add: unat_div_distrib NS_def less_mult_imp_div_less)
  have nsec: "unat (ns mod NS) < 1000000000"
    by (simp add: unat_mod_distrib NS_def)
  then have "unat (ns mod NS) < 2 ^ 63" by simp
  note s = sint_nonneg [OF sec] sint_nonneg [OF this]
  have "int (unat (ns mod NS)) < 1000000000"
    using nsec by (metis of_nat_less_iff of_nat_numeral)
  then show ?thesis
    unfolding clk_timespec_ok_def clk_timespec_def timespec.select_convs s by simp
qed

lemma clk_errno_ok: "clk_timespec_ok t \<Longrightarrow> clk_errno t = 0"
  by (simp add: clk_errno_def clk_timespec_ok_def)

lemma sign_bit: "0 \<le> sint (w :: 64 word) \<longleftrightarrow> \<not> bit w 63" "0 \<le> sint (e :: 32 word) \<longleftrightarrow> \<not> bit e 31"
  using bit_last_iff [of w] bit_last_iff [of e] by auto

lemma clk_errno_1969_failed: "clk_errno (clk_now_or_1969 (Inl e)) = e"
proof -
  have wide: "bit (scast e :: 64 word) n \<longleftrightarrow> n < 64 \<and> bit e (min 31 n)" for n
    by (simp add: bit_signed_iff)
  have narrow: "ucast (scast e :: 64 word) = e"
    by (rule bit_word_eqI) (simp add: bit_ucast_iff wide)
  have m1: "(scast e :: 64 word) XOR - 1 = NOT (scast e)" by simp
  show ?thesis
    by (cases "bit e 31")
       (simp_all add: clk_now_or_1969_def clk_errno_def Let_def sign_bit m1 wide bit_not_iff narrow)
qed

section \<open>Properties\<close>

text \<open>
  Recording values one after the other into a cleared histogram gives the histogram of
  the multiset of the values: the count, the sum (mod 2^64), the least and the greatest
  value, and in each bucket the number of the values of that bucket.
\<close>

theorem histogram_of_values:
  assumes "length vs \<le> 2 ^ 64"
  shows "hist_of (mset vs) (foldl hist_record hist_clear vs)"
  using hist_of_records [OF hist_of_clear, of vs] assms by simp

theorem histogram_of_values_witness:
  "hist_of {# 5, 300, 300 #} (foldl hist_record hist_clear [5, 300, 300])"
  using histogram_of_values [of "[5, 300, 300]"] by simp

text \<open>
  The bucket of a value lies inside the array, a greater value has no smaller bucket,
  the value that stands for the bucket belongs to the bucket, and it differs from each value of the
  bucket by at most one part in 256.
\<close>

theorem bucket_of_value:
  "hist_index v < HIST_BUCKETS \<and>
   hist_index (min v w) \<le> hist_index (max v w) \<and>
   hist_index (hist_value (hist_index v)) = hist_index v \<and>
   256 * \<bar>int (unat (hist_value (hist_index v))) - int (unat v)\<bar> \<le> int (unat v)"
proof (intro conjI)
  show "hist_index (min v w) \<le> hist_index (max v w)" by (rule hist_index_mono) (auto simp: min_def max_def)
  show "hist_index (hist_value (hist_index v)) = hist_index v"
    by (rule hist_index_value) (rule hist_index_bound)
qed (rule hist_index_bound hist_value_error)+

text \<open>
  The percentile query answers with the bucket of the value at the rank asked for in the sorted
  sequence of all values recorded, cut to the greatest value.
\<close>

theorem percentile_is_ranked_value:
  assumes "length vs < 2 ^ 64" "0 < unat rank" "unat rank \<le> length vs"
  shows "hist_pct (foldl hist_record hist_clear vs) rank =
    min (hist_value (hist_index (sort vs ! (unat rank - 1)))) (Max (set vs))"
proof -
  have h: "hist_of (mset vs) (foldl hist_record hist_clear vs)"
    using hist_of_records [OF hist_of_clear, of vs] assms(1) by simp
  moreover have "vs \<noteq> []" using assms by auto
  ultimately have "h_max (foldl hist_record hist_clear vs) = Max (set vs)" by (simp add: hist_of_def)
  with hist_pct_rank [OF h] assms show ?thesis by simp
qed

theorem percentile_is_ranked_value_witness:
  "hist_pct (foldl hist_record hist_clear [300, 5, 9]) 2 = 9"
proof -
  have "sort [300, 5, 9] = [5, 9, 300 :: u64]" by (simp add: word_le_nat_alt word_less_nat_alt)
  then show ?thesis
    using percentile_is_ranked_value [of "[300, 5, 9]" 2]
    by (simp add: hist_index_def hist_value_def HIST_SUB_def word_le_nat_alt min_def)
qed

text \<open>
  An item that a tally has room for takes it neither past the bound on the items nor past the
  bound on the bytes, with no wrap-around in either number, and removing the item gives the tally before.
\<close>

theorem tally_stays_within:
  assumes "tally_fits used mx b"
  shows "tally_within (tally_add used b) mx \<and>
    unat (t_n (tally_add used b)) = unat (t_n used) + 1 \<and>
    unat (t_bytes (tally_add used b)) = unat (t_bytes used) + unat b \<and>
    tally_sub (tally_add used b) b = used"
  using tally_add_within [OF assms] by simp

theorem tally_stays_within_witness:
  "tally_fits \<lparr>t_n = 1, t_bytes = 90\<rparr> \<lparr>t_n = 2, t_bytes = 100\<rparr> 10 \<and>
   tally_within (tally_add \<lparr>t_n = 1, t_bytes = 90\<rparr> 10) \<lparr>t_n = 2, t_bytes = 100\<rparr>"
proof -
  have "tally_fits \<lparr>t_n = 1, t_bytes = 90\<rparr> \<lparr>t_n = 2, t_bytes = 100\<rparr> 10"
    by (simp add: tally_fits_def word_le_nat_alt word_less_nat_alt)
  then show ?thesis using tally_stays_within by blast
qed

text \<open>
  A count of nanoseconds survives its conversion to a valid time and back, a valid time
  reports no error, and a failed reading of the clock reports the error number it failed with.
\<close>

theorem clock_values:
  "clk_ns (clk_timespec ns) = ns \<and>
   clk_errno (clk_now_or_1969 (Inr (clk_timespec ns))) = 0 \<and>
   clk_errno (clk_now_or_1969 (Inl e)) = e"
  by (simp add: clk_ns_timespec clk_errno_ok clk_timespec_valid clk_now_or_1969_def
        clk_errno_1969_failed [unfolded clk_now_or_1969_def, simplified])

end
