(* ===== verification/Inbox.thy ===== *)
theory Inbox
  imports Prelude
begin

text \<open>
  The inbox of an event loop (\<^verbatim>\<open>loop_post()\<close>, \<^verbatim>\<open>loop_collect()\<close>, \<^verbatim>\<open>loop_deliver()\<close> and the wait of
  \<^verbatim>\<open>loop_turn()\<close> in \<^verbatim>\<open>src/loop.c\<close>).  Any thread pushes a message on a list by compare and swap, the
  loop takes the whole list by an exchange, turns it around and hands the messages out in
  the order of the posts.  A loop that is about to wait says so in \<open>asleep\<close> and then looks
  at the inbox once more; a poster that finds \<open>asleep\<close> set writes the eventfd.

  The functions are sequential.  The relation \<open>sys_step\<close> interleaves the atomic steps of
  any number of posters with those of the loop.  The lemmas show that the messages are
  delivered exactly once each and in the order in which they were pushed, and that a
  waiting loop is always woken when there is a message.
\<close>

section \<open>The functions\<close>

record msg =
  m_next :: "ref option"
  m_fn :: bool  \<comment> \<open>the message has a function\<close>
  m_posted :: u64

record inbox =
  ib_asleep :: u64
  ib_inbox :: "ref option"  \<comment> \<open>posted, newest first\<close>
  ib_mail :: "ref option"   \<comment> \<open>taken from the inbox, oldest first\<close>
  ib_last :: "ref option"
  ib_efd :: nat             \<comment> \<open>the count of the eventfd\<close>
  ib_msgs :: "ref \<Rightarrow> msg"

definition set_msg_next :: "ref \<Rightarrow> ref option \<Rightarrow> inbox \<Rightarrow> inbox" where
  "set_msg_next m v st = st\<lparr>ib_msgs := (ib_msgs st)(m := (ib_msgs st m)\<lparr>m_next := v\<rparr>)\<rparr>"

text \<open>The body of the loop of \<^verbatim>\<open>loop_post()\<close> before the compare and swap, with the head it has loaded.\<close>

definition post_write :: "ref \<Rightarrow> ref option \<Rightarrow> u64 \<Rightarrow> inbox \<Rightarrow> inbox" where
  "post_write m head posted st =
     (let st = set_msg_next m head st
      in st\<lparr>ib_msgs := (ib_msgs st)(m := (ib_msgs st m)\<lparr>m_posted := posted\<rparr>)\<rparr>)"

text \<open>What follows it: the exchange of \<open>asleep\<close>, and the eventfd if it was set.\<close>

definition post_exchange :: "inbox \<Rightarrow> bool \<times> inbox" where
  "post_exchange st = (ib_asleep st \<noteq> 0, st\<lparr>ib_asleep := 0\<rparr>)"

definition post_eventfd :: "inbox \<Rightarrow> inbox" where
  "post_eventfd st = st\<lparr>ib_efd := ib_efd st + 1\<rparr>"

text \<open>
  \<^verbatim>\<open>loop_post()\<close> with no other thread between its steps: the compare and swap succeeds.  The
  message is \<open>None\<close> for a null pointer, and \<open>loop\<close> tells whether the loop is one.
\<close>

definition loop_post :: "bool \<Rightarrow> ref option \<Rightarrow> u64 \<Rightarrow> inbox \<Rightarrow> errno option \<times> inbox" where
  "loop_post loop msg now st =
     (case msg of
        None \<Rightarrow> (Some EFAULT, st)
      | Some m \<Rightarrow>
          if \<not> loop \<or> \<not> m_fn (ib_msgs st m) then (Some EFAULT, st)
          else
            let head = ib_inbox st
            in if head = Some m then (Some EALREADY, st)
               else
                 let st = post_write m head now st;
                     st = st\<lparr>ib_inbox := Some m\<rparr>;
                     (asleep, st) = post_exchange st
                 in (None, if asleep then post_eventfd st else st))"

text \<open>The loop of \<^verbatim>\<open>loop_collect()\<close> that turns the list around.\<close>

partial_function (option) collect_walk :: "ref option \<Rightarrow> ref option \<Rightarrow> inbox \<Rightarrow> (ref option \<times> inbox) option" where
  "collect_walk msg fifo st =
     (if msg = None then Some (fifo, st)
      else collect_walk (m_next (ib_msgs st (the msg))) msg (set_msg_next (the msg) fifo st))"

definition loop_collect :: "inbox \<Rightarrow> inbox option" where
  "loop_collect st =
     (if ib_inbox st = None then Some st
      else
        let msg = ib_inbox st;
            last = msg
        in case collect_walk msg None (st\<lparr>ib_inbox := None\<rparr>) of
             None \<Rightarrow> None
           | Some (fifo, st) \<Rightarrow>
               let st = (case ib_last st of
                           Some l \<Rightarrow> set_msg_next l fifo st
                         | None \<Rightarrow> st\<lparr>ib_mail := fifo\<rparr>)
               in Some (st\<lparr>ib_last := last\<rparr>))"

text \<open>\<^verbatim>\<open>loop_deliver()\<close> up to the call: the message whose function is called.\<close>

definition loop_deliver :: "inbox \<Rightarrow> (ref \<times> inbox) option" where
  "loop_deliver st =
     (case ib_mail st of
        None \<Rightarrow> None
      | Some m \<Rightarrow>
          let st = st\<lparr>ib_mail := m_next (ib_msgs st m)\<rparr>
          in Some (m, if ib_mail st = None then st\<lparr>ib_last := None\<rparr> else st))"

section \<open>The lists of an inbox\<close>

abbreviation next_of :: "inbox \<Rightarrow> ref \<Rightarrow> ref option" where
  "next_of st \<equiv> \<lambda>m. m_next (ib_msgs st m)"

text \<open>The inbox leads through \<open>inb\<close>, the newest first, and the mail through \<open>ml\<close>.\<close>

definition inbox_holds :: "inbox \<Rightarrow> ref list \<Rightarrow> ref list \<Rightarrow> bool" where
  "inbox_holds st inb ml \<longleftrightarrow>
     linked (next_of st) (ib_inbox st) inb \<and> linked (next_of st) (ib_mail st) ml \<and>
     distinct (inb @ ml) \<and> ib_last st = (if ml = [] then None else Some (last ml))"

lemma next_of_set [simp]: "next_of (set_msg_next m v st) = (next_of st)(m := v)"
  by (auto simp: set_msg_next_def)

lemma next_set [simp]:
  "m_next (ib_msgs (set_msg_next m v st) x) = (if x = m then v else m_next (ib_msgs st x))"
  by (simp add: set_msg_next_def)

lemma set_msg_next_simps [simp]:
  "ib_inbox (set_msg_next m v st) = ib_inbox st" "ib_mail (set_msg_next m v st) = ib_mail st"
  "ib_last (set_msg_next m v st) = ib_last st" "ib_asleep (set_msg_next m v st) = ib_asleep st"
  "ib_efd (set_msg_next m v st) = ib_efd st"
  by (simp_all add: set_msg_next_def)

lemma next_of_write [simp]: "next_of (post_write m head posted st) = (next_of st)(m := head)"
  by (auto simp: post_write_def set_msg_next_def Let_def)

lemma next_write [simp]:
  "m_next (ib_msgs (post_write m v p st) x) = (if x = m then v else m_next (ib_msgs st x))"
  by (simp add: post_write_def set_msg_next_def Let_def)

lemma post_write_simps [simp]:
  "ib_inbox (post_write m head p st) = ib_inbox st" "ib_mail (post_write m head p st) = ib_mail st"
  "ib_last (post_write m head p st) = ib_last st" "ib_asleep (post_write m head p st) = ib_asleep st"
  "ib_efd (post_write m head p st) = ib_efd st"
  by (simp_all add: post_write_def Let_def)

lemma linked_other:
  "m \<notin> set xs \<Longrightarrow> linked (f(m := v)) p xs = linked f p xs"
  "m \<notin> set xs \<Longrightarrow> linked (\<lambda>x. if x = m then v else f x) p xs = linked f p xs"
  by (rule linked_cong; auto)+

lemma collect_walk_linked:
  "linked (next_of st) msg xs \<Longrightarrow> linked (next_of st) fifo ys \<Longrightarrow> distinct (xs @ ys) \<Longrightarrow>
     \<exists>fifo' st'. collect_walk msg fifo st = Some (fifo', st') \<and>
       linked (next_of st') fifo' (rev xs @ ys) \<and>
       ib_inbox st' = ib_inbox st \<and> ib_mail st' = ib_mail st \<and> ib_last st' = ib_last st \<and>
       ib_asleep st' = ib_asleep st \<and> ib_efd st' = ib_efd st \<and>
       (\<forall>m. m \<notin> set xs \<longrightarrow> next_of st' m = next_of st m)"
proof (induction xs arbitrary: msg fifo st ys)
  case Nil
  then show ?case by (simp add: collect_walk.simps)
next
  case (Cons x xs)
  have x: "msg = Some x" "linked (next_of st) (next_of st x) xs" "x \<notin> set xs" "x \<notin> set ys"
    using Cons.prems by auto
  let ?st = "set_msg_next x fifo st"
  have "linked (next_of ?st) (next_of st x) xs" "linked (next_of ?st) (Some x) (x # ys)"
    using x Cons.prems(2) by (simp_all add: linked_other)
  moreover have "distinct (xs @ x # ys)" using Cons.prems(3) by auto
  ultimately obtain fifo' st' where IH:
      "collect_walk (next_of st x) (Some x) ?st = Some (fifo', st')"
      "linked (next_of st') fifo' (rev xs @ x # ys)"
      "ib_inbox st' = ib_inbox ?st" "ib_mail st' = ib_mail ?st" "ib_last st' = ib_last ?st"
      "ib_asleep st' = ib_asleep ?st" "ib_efd st' = ib_efd ?st"
      "\<And>m. m \<notin> set xs \<Longrightarrow> next_of st' m = next_of ?st m"
    using Cons.IH [of ?st "next_of st x" "Some x" "x # ys"] by blast
  have "collect_walk msg fifo st = Some (fifo', st')"
    using IH(1) x(1) by (simp add: collect_walk.simps [of "Some x"])
  with IH show ?case by auto
qed

lemma loop_collect_holds:
  assumes h: "inbox_holds st inb ml"
  shows "\<exists>st'. loop_collect st = Some st' \<and> inbox_holds st' [] (ml @ rev inb) \<and>
    ib_inbox st' = None \<and> ib_asleep st' = ib_asleep st \<and> ib_efd st' = ib_efd st \<and>
    (\<forall>m. m \<notin> set (inb @ ml) \<longrightarrow> next_of st' m = next_of st m)"
proof (cases inb)
  case Nil
  then show ?thesis using h by (auto simp: loop_collect_def inbox_holds_def)
next
  case (Cons x xs)
  let ?st = "st\<lparr>ib_inbox := None\<rparr>"
  have lk: "linked (next_of ?st) (ib_inbox st) inb" "linked (next_of ?st) (ib_mail st) ml"
    and d: "distinct inb" "distinct ml" "set inb \<inter> set ml = {}"
    and l: "ib_last st = (if ml = [] then None else Some (last ml))" and i: "ib_inbox st = Some x"
    using h Cons by (auto simp: inbox_holds_def)
  obtain fifo st1 where w: "collect_walk (ib_inbox st) None ?st = Some (fifo, st1)"
      "linked (next_of st1) fifo (rev inb)"
      "ib_inbox st1 = None" "ib_mail st1 = ib_mail st" "ib_last st1 = ib_last st"
      "ib_asleep st1 = ib_asleep st" "ib_efd st1 = ib_efd st"
      "\<And>m. m \<notin> set inb \<Longrightarrow> next_of st1 m = next_of ?st m"
    using collect_walk_linked [OF lk(1), of None "[]"] d(1) by auto
  have ml1: "linked (next_of st1) (ib_mail st) ml"
    using lk(2) w(8) d(3) by (subst linked_cong [of ml _ "next_of ?st"]) auto
  show ?thesis
  proof (cases ml rule: rev_cases)
    case Nil
    have "loop_collect st = Some (st1\<lparr>ib_mail := fifo, ib_last := ib_inbox st\<rparr>)"
      using w i l Nil by (simp add: loop_collect_def)
    moreover have "last (rev inb) = x" "rev inb \<noteq> []" using Cons by simp_all
    ultimately show ?thesis using w i d Nil by (auto simp: inbox_holds_def)
  next
    case (snoc ys y)
    let ?st2 = "(set_msg_next y fifo st1)\<lparr>ib_last := ib_inbox st\<rparr>"
    have c: "loop_collect st = Some ?st2" using w i l snoc by (simp add: loop_collect_def)
    have y: "y \<notin> set (rev inb)" using d snoc by auto
    have nx: "next_of ?st2 = (next_of st1)(y := fifo)" by (simp add: set_msg_next_def fun_eq_iff)
    have "linked (next_of ?st2) fifo (rev inb)" using w(2) y nx by (simp add: linked_other)
    then have "linked (next_of ?st2) (ib_mail st) ((ys @ [y]) @ rev inb)"
      using ml1 d snoc nx by (intro linked_snoc_append [of "next_of st1"]) auto
    then have "inbox_holds ?st2 [] (ml @ rev inb)"
      using snoc d w i Cons by (auto simp: inbox_holds_def)
    moreover have "next_of ?st2 m = next_of st m" if "m \<notin> set (inb @ ml)" for m
      using that w(8) [of m] nx snoc by auto
    ultimately show ?thesis using c w by auto
  qed
qed

lemma loop_deliver_holds:
  assumes h: "inbox_holds st inb (m # ml)"
  shows "\<exists>st'. loop_deliver st = Some (m, st') \<and> inbox_holds st' inb ml \<and>
    ib_inbox st' = ib_inbox st \<and> ib_asleep st' = ib_asleep st \<and> ib_efd st' = ib_efd st \<and>
    ib_msgs st' = ib_msgs st"
  using h by (cases ml) (auto simp: loop_deliver_def inbox_holds_def)

lemma push_holds:
  assumes "inbox_holds st inb ml" "m \<notin> set (inb @ ml)" "next_of st m = ib_inbox st"
  shows "inbox_holds (st\<lparr>ib_inbox := Some m\<rparr>) (m # inb) ml"
  using assms by (auto simp: inbox_holds_def)

lemma write_holds:
  assumes "inbox_holds st inb ml" "m \<notin> set (inb @ ml)"
  shows "inbox_holds (post_write m v p st) inb ml"
  using assms by (simp add: inbox_holds_def linked_other)

section \<open>Posters and the loop, interleaved\<close>

text \<open>
  Where a poster is in \<^verbatim>\<open>loop_post()\<close>: it has loaded the head, it has written the message, its
  compare and swap has succeeded, or it has found the loop asleep and is about to write the
  eventfd.  The loop runs (callbacks, messages, timers, steps), has set \<open>asleep\<close> and is about
  to look at the inbox, waits in \<^verbatim>\<open>epoll_pwait2()\<close>, polls without waiting, or has returned from
  it and not cleared \<open>asleep\<close> yet.
\<close>

datatype poster =
    Idle
  | Loaded ref "ref option"
  | Written ref "ref option"
  | Pushed ref
  | Waking

datatype looper = Running | Armed | Waiting | Polling | Returned

record sys =
  s_ib :: inbox
  s_poster :: "nat \<Rightarrow> poster"
  s_loop :: looper
  s_pushed :: "ref list"     \<comment> \<open>the messages in the order of the successful swaps\<close>
  s_delivered :: "ref list"  \<comment> \<open>the messages whose function has been called, in order\<close>

fun holds :: "poster \<Rightarrow> ref option" where
  "holds (Loaded m head) = Some m"
| "holds (Written m head) = Some m"
| "holds _ = None"

text \<open>A poster may only post a message that no one has posted and the loop has not yet handled.\<close>

definition message_free :: "sys \<Rightarrow> ref \<Rightarrow> bool" where
  "message_free s m \<longleftrightarrow>
     (\<forall>t. holds (s_poster s t) \<noteq> Some m) \<and>
     (\<forall>inb ml. inbox_holds (s_ib s) inb ml \<longrightarrow> m \<notin> set (inb @ ml))"

abbreviation at_poster :: "nat \<Rightarrow> poster \<Rightarrow> sys \<Rightarrow> sys" where
  "at_poster t p s \<equiv> s\<lparr>s_poster := (s_poster s)(t := p)\<rparr>"

inductive sys_step :: "sys \<Rightarrow> sys \<Rightarrow> bool" where
  load: "s_poster s t = Idle \<Longrightarrow> m_fn (ib_msgs (s_ib s) m) \<Longrightarrow> message_free s m \<Longrightarrow>
    sys_step s (at_poster t (Loaded m (ib_inbox (s_ib s))) s)"
| already: "s_poster s t = Loaded m (Some m) \<Longrightarrow> sys_step s (at_poster t Idle s)"
| store: "s_poster s t = Loaded m head \<Longrightarrow> head \<noteq> Some m \<Longrightarrow>
    sys_step s (at_poster t (Written m head) (s\<lparr>s_ib := post_write m head posted (s_ib s)\<rparr>))"
| swap: "s_poster s t = Written m head \<Longrightarrow> ib_inbox (s_ib s) = head \<Longrightarrow>
    sys_step s (at_poster t (Pushed m)
      (s\<lparr>s_ib := (s_ib s)\<lparr>ib_inbox := Some m\<rparr>, s_pushed := s_pushed s @ [m]\<rparr>))"
| swap_fails: "s_poster s t = Written m head \<Longrightarrow>
    sys_step s (at_poster t (Loaded m (ib_inbox (s_ib s))) s)"
| exchange: "s_poster s t = Pushed m \<Longrightarrow> post_exchange (s_ib s) = (asleep, ib) \<Longrightarrow>
    sys_step s (at_poster t (if asleep then Waking else Idle) (s\<lparr>s_ib := ib\<rparr>))"
| eventfd: "s_poster s t = Waking \<Longrightarrow>
    sys_step s (at_poster t Idle (s\<lparr>s_ib := post_eventfd (s_ib s)\<rparr>))"
| arm: "s_loop s = Running \<Longrightarrow>
    sys_step s (s\<lparr>s_loop := Armed, s_ib := (s_ib s)\<lparr>ib_asleep := 1\<rparr>\<rparr>)"
| poll: "s_loop s = Running \<Longrightarrow> sys_step s (s\<lparr>s_loop := Polling\<rparr>)"
| look: "s_loop s = Armed \<Longrightarrow>
    sys_step s (s\<lparr>s_loop := (if ib_inbox (s_ib s) = None then Waiting else Polling)\<rparr>)"
| wake: "s_loop s = Waiting \<Longrightarrow> 0 < ib_efd (s_ib s) \<Longrightarrow> sys_step s (s\<lparr>s_loop := Returned\<rparr>)"
| other_wake: "s_loop s = Waiting \<Longrightarrow> sys_step s (s\<lparr>s_loop := Returned\<rparr>)"
| polled: "s_loop s = Polling \<Longrightarrow> sys_step s (s\<lparr>s_loop := Returned\<rparr>)"
| awake: "s_loop s = Returned \<Longrightarrow>
    sys_step s (s\<lparr>s_loop := Running, s_ib := (s_ib s)\<lparr>ib_asleep := 0\<rparr>\<rparr>)"
| drain: "s_loop s = Running \<Longrightarrow> sys_step s (s\<lparr>s_ib := (s_ib s)\<lparr>ib_efd := 0\<rparr>\<rparr>)"
| collect: "s_loop s = Running \<Longrightarrow> loop_collect (s_ib s) = Some ib \<Longrightarrow> sys_step s (s\<lparr>s_ib := ib\<rparr>)"
| deliver: "s_loop s = Running \<Longrightarrow> loop_deliver (s_ib s) = Some (m, ib) \<Longrightarrow>
    sys_step s (s\<lparr>s_ib := ib, s_delivered := s_delivered s @ [m]\<rparr>)"

inductive_cases sys_stepE: "sys_step s s'"

definition sys_start :: "sys \<Rightarrow> bool" where
  "sys_start s \<longleftrightarrow>
     ib_asleep (s_ib s) = 0 \<and> ib_inbox (s_ib s) = None \<and> ib_mail (s_ib s) = None \<and>
     ib_last (s_ib s) = None \<and> ib_efd (s_ib s) = 0 \<and>
     s_poster s = (\<lambda>t. Idle) \<and> s_loop s = Running \<and> s_pushed s = [] \<and> s_delivered s = []"

inductive sys_reach :: "sys \<Rightarrow> bool" where
  start: "sys_start s \<Longrightarrow> sys_reach s"
| step: "sys_reach s \<Longrightarrow> sys_step s s' \<Longrightarrow> sys_reach s'"

text \<open>What holds of the messages, and what holds of the wait.\<close>

definition mail_inv :: "sys \<Rightarrow> ref list \<Rightarrow> ref list \<Rightarrow> bool" where
  "mail_inv s inb ml \<longleftrightarrow>
     inbox_holds (s_ib s) inb ml \<and> s_pushed s = s_delivered s @ ml @ rev inb \<and>
     (\<forall>t m. holds (s_poster s t) = Some m \<longrightarrow> m \<notin> set (inb @ ml)) \<and>
     (\<forall>t u. t \<noteq> u \<longrightarrow> holds (s_poster s t) \<noteq> None \<longrightarrow> holds (s_poster s t) \<noteq> holds (s_poster s u)) \<and>
     (\<forall>t m head. s_poster s t = Written m head \<longrightarrow> next_of (s_ib s) m = head)"

text \<open>The eventfd is set, or a poster is about to set it.\<close>

definition alarmed :: "sys \<Rightarrow> bool" where
  "alarmed s \<longleftrightarrow> 0 < ib_efd (s_ib s) \<or> (\<exists>t. s_poster s t = Waking)"

definition wake_inv :: "sys \<Rightarrow> bool" where
  "wake_inv s \<longleftrightarrow>
     (s_loop s \<in> {Armed, Waiting} \<and> ib_asleep (s_ib s) = 0 \<longrightarrow> alarmed s) \<and>
     (s_loop s = Waiting \<and> ib_inbox (s_ib s) \<noteq> None \<longrightarrow>
        alarmed s \<or> (\<exists>t m. s_poster s t = Pushed m))"

lemma mail_inv_start: "sys_start s \<Longrightarrow> mail_inv s [] []"
  by (simp add: sys_start_def mail_inv_def inbox_holds_def)

text \<open>The steps that leave the memory, the lists and the records of the posts alone.\<close>

lemma mail_inv_cong:
  assumes "mail_inv s inb ml" "ib_msgs (s_ib s') = ib_msgs (s_ib s)" "ib_inbox (s_ib s') = ib_inbox (s_ib s)"
    "ib_mail (s_ib s') = ib_mail (s_ib s)" "ib_last (s_ib s') = ib_last (s_ib s)"
    "s_poster s' = s_poster s" "s_pushed s' = s_pushed s" "s_delivered s' = s_delivered s"
  shows "mail_inv s' inb ml"
  using assms by (simp add: mail_inv_def inbox_holds_def)

text \<open>A poster that moves on.\<close>

lemma mail_inv_poster:
  assumes inv: "mail_inv s inb ml"
    and new: "inbox_holds (s_ib s') inb' ml'" "s_pushed s' = s_delivered s' @ ml' @ rev inb'"
    and t: "s_poster s' = (s_poster s)(t := p)" "holds p = None \<or> holds p = holds (s_poster s t)"
    and out: "\<And>u m. u \<noteq> t \<Longrightarrow> holds (s_poster s u) = Some m \<Longrightarrow> m \<notin> set (inb' @ ml')"
      "\<And>m. holds p = Some m \<Longrightarrow> m \<notin> set (inb' @ ml')"
    and nx: "\<And>u m. u \<noteq> t \<Longrightarrow> holds (s_poster s u) = Some m \<Longrightarrow> next_of (s_ib s') m = next_of (s_ib s) m"
      "\<And>m head. p = Written m head \<Longrightarrow> next_of (s_ib s') m = head"
  shows "mail_inv s' inb' ml'"
  unfolding mail_inv_def
proof (intro conjI allI impI)
  have inj: "\<And>u v. u \<noteq> v \<Longrightarrow> holds (s_poster s u) \<noteq> None \<Longrightarrow> holds (s_poster s u) \<noteq> holds (s_poster s v)"
    using inv by (simp add: mail_inv_def)
  show "m \<notin> set (inb' @ ml')" if "holds (s_poster s' u) = Some m" for u m
    using that out t(1) by (cases "u = t") auto
  show "holds (s_poster s' u) \<noteq> holds (s_poster s' v)"
    if "u \<noteq> v" "holds (s_poster s' u) \<noteq> None" for u v
    using that t inj [of u v] inj [of v u] by (cases "u = t"; cases "v = t") auto
  show "next_of (s_ib s') m = head" if "s_poster s' u = Written m head" for u m head
  proof (cases "u = t")
    case True
    then show ?thesis using that t(1) nx(2) by simp
  next
    case False
    then have w: "s_poster s u = Written m head" using that t(1) by simp
    then have "next_of (s_ib s) m = head" using inv by (simp add: mail_inv_def)
    then show ?thesis using nx(1) [OF False] w by simp
  qed
qed (use new in auto)

lemma mail_inv_step:
  assumes step: "sys_step s s'" and inv: "mail_inv s inb ml"
  shows "\<exists>inb' ml'. mail_inv s' inb' ml'"
proof -
  have hold: "inbox_holds (s_ib s) inb ml" and log: "s_pushed s = s_delivered s @ ml @ rev inb"
    and out: "\<And>t m. holds (s_poster s t) = Some m \<Longrightarrow> m \<notin> set (inb @ ml)"
    and inj: "\<And>u v. u \<noteq> v \<Longrightarrow> holds (s_poster s u) \<noteq> None \<Longrightarrow> holds (s_poster s u) \<noteq> holds (s_poster s v)"
    using inv by (auto simp: mail_inv_def)
  from step show ?thesis
  proof cases
    case (load t m)
    have m: "m \<notin> set (inb @ ml)" "\<And>u. holds (s_poster s u) \<noteq> Some m"
      using load(4) hold by (auto simp: message_free_def)
    have "mail_inv s' inb ml"
      unfolding mail_inv_def
    proof (intro conjI allI impI)
      show "k \<notin> set (inb @ ml)" if "holds (s_poster s' u) = Some k" for u k
        using that load(1) m out by (cases "u = t") auto
      show "holds (s_poster s' u) \<noteq> holds (s_poster s' v)"
        if "u \<noteq> v" "holds (s_poster s' u) \<noteq> None" for u v
        using that load(1) m inj [of u v] by (cases "u = t"; cases "v = t") (auto dest: sym)
      show "next_of (s_ib s') k = head" if "s_poster s' u = Written k head" for u k head
        using that load(1) inv by (cases "u = t") (auto simp: mail_inv_def)
    qed (use load(1) hold log in auto)
    then show ?thesis by blast
  next
    case (already t m)
    then have "mail_inv s' inb ml"
      using hold log out by (intro mail_inv_poster [OF inv, of s' inb ml t Idle]) auto
    then show ?thesis by blast
  next
    case (store t m head posted)
    have mt: "holds (s_poster s t) = Some m" using store by simp
    have other: "k \<noteq> m" if "u \<noteq> t" "holds (s_poster s u) = Some k" for u k
      using inj [OF that(1)] that(2) mt by auto
    note w = write_holds [OF hold out [OF mt]]
    have "mail_inv s' inb ml"
      using store mt other w log out [OF mt] out
      by (intro mail_inv_poster [OF inv, of s' inb ml t "Written m head"]) (auto simp del: next_of_write)
    then show ?thesis by blast
  next
    case (swap t m head)
    have mt: "holds (s_poster s t) = Some m" using swap by simp
    have other: "k \<noteq> m" if "u \<noteq> t" "holds (s_poster s u) = Some k" for u k
      using inj [OF that(1)] that(2) mt by auto
    have "next_of (s_ib s) m = ib_inbox (s_ib s)" using inv swap by (auto simp: mail_inv_def)
    then have "inbox_holds (s_ib s') (m # inb) ml"
      using swap push_holds [OF hold out [OF mt]] by simp
    then have "mail_inv s' (m # inb) ml"
      using swap other log out by (intro mail_inv_poster [OF inv, of s' "m # inb" ml t "Pushed m"]) auto
    then show ?thesis by blast
  next
    case (swap_fails t m head)
    then have mt: "holds (s_poster s t) = Some m" by simp
    then have "mail_inv s' inb ml"
      using swap_fails hold log out out [OF mt]
      by (intro mail_inv_poster [OF inv, of s' inb ml t "Loaded m (ib_inbox (s_ib s))"]) auto
    then show ?thesis by blast
  next
    case (exchange t m asleep ib)
    have "ib = (s_ib s)\<lparr>ib_asleep := 0\<rparr>" using exchange by (simp add: post_exchange_def)
    then have "mail_inv s' inb ml"
      using exchange hold log out
      by (intro mail_inv_poster [OF inv, of s' inb ml t "if asleep then Waking else Idle"])
         (cases asleep; auto simp: inbox_holds_def)+
    then show ?thesis by blast
  next
    case (eventfd t)
    then have "mail_inv s' inb ml"
      using hold log out by (intro mail_inv_poster [OF inv, of s' inb ml t Idle])
         (auto simp: inbox_holds_def post_eventfd_def)
    then show ?thesis by blast
  next
    case (collect ib)
    obtain ib' where c: "loop_collect (s_ib s) = Some ib'" "inbox_holds ib' [] (ml @ rev inb)"
        "\<forall>m. m \<notin> set (inb @ ml) \<longrightarrow> next_of ib' m = next_of (s_ib s) m"
      using loop_collect_holds [OF hold] by blast
    have "next_of ib m = head" if w: "s_poster s t = Written m head" for t m head
    proof -
      have "next_of (s_ib s) m = head" using inv w by (simp add: mail_inv_def)
      moreover have "m \<notin> set (inb @ ml)" using out [of t m] w by simp
      ultimately show ?thesis using c(1,3) collect(3) by simp
    qed
    then have "mail_inv s' [] (ml @ rev inb)"
      using collect c log out inv unfolding mail_inv_def by (auto 0 3)
    then show ?thesis by blast
  next
    case (deliver m ib)
    obtain ml' where ml: "ml = m # ml'"
      using deliver hold by (cases ml) (auto simp: loop_deliver_def inbox_holds_def Let_def)
    obtain ib' where c: "loop_deliver (s_ib s) = Some (m, ib')" "inbox_holds ib' inb ml'"
        "ib_msgs ib' = ib_msgs (s_ib s)"
      using loop_deliver_holds hold ml by blast
    have "mail_inv s' inb ml'"
      using deliver c log out inv ml unfolding mail_inv_def by (auto 0 3)
    then show ?thesis by blast
  qed (rule exI, rule exI, rule mail_inv_cong [OF inv]; simp)+
qed

text \<open>A poster that moves on without waking the loop leaves the alarm of the others.\<close>

lemma alarmed_poster:
  assumes "alarmed s" "ib_efd (s_ib s') = ib_efd (s_ib s)" "s_poster s' = (s_poster s)(t := p)"
    "s_poster s t \<noteq> Waking"
  shows "alarmed s'"
  using assms unfolding alarmed_def by (metis fun_upd_other)

lemma pushed_poster:
  assumes "s_poster s' = (s_poster s)(t := p)" "\<forall>m. s_poster s t \<noteq> Pushed m"
    "\<exists>t m. s_poster s t = Pushed m"
  shows "\<exists>t m. s_poster s' t = Pushed m"
  using assms by (metis fun_upd_other)

lemma wake_inv_poster:
  assumes "wake_inv s" "s_poster s' = (s_poster s)(t := p)" "s_poster s t \<noteq> Waking"
    "\<forall>m. s_poster s t \<noteq> Pushed m" "ib_efd (s_ib s') = ib_efd (s_ib s)"
    "ib_asleep (s_ib s') = ib_asleep (s_ib s)" "s_loop s' = s_loop s"
    "ib_inbox (s_ib s') = ib_inbox (s_ib s) \<or> (\<exists>m. p = Pushed m)"
  shows "wake_inv s'"
proof -
  have "\<exists>t m. s_poster s' t = Pushed m" if "p = Pushed m" for m
    using assms(2) that by (metis fun_upd_same)
  then show ?thesis
    using assms alarmed_poster [of s s' t p] pushed_poster [of s' s t p] unfolding wake_inv_def
    by metis
qed

lemma wake_inv_step:
  assumes step: "sys_step s s'" and inv: "wake_inv s"
  shows "wake_inv s'"
  using step
proof cases
  case (load t m)
  then show ?thesis by (intro wake_inv_poster [OF inv]) auto
next
  case (already t m)
  then show ?thesis by (intro wake_inv_poster [OF inv]) auto
next
  case (store t m head posted)
  then show ?thesis by (intro wake_inv_poster [OF inv]) auto
next
  case (swap t m head)
  then show ?thesis by (intro wake_inv_poster [OF inv, of s' t "Pushed m"]) auto
next
  case (swap_fails t m head)
  then show ?thesis by (intro wake_inv_poster [OF inv]) auto
next
  case (exchange t m asleep ib)
  have ib: "ib = (s_ib s)\<lparr>ib_asleep := 0\<rparr>" "asleep \<longleftrightarrow> ib_asleep (s_ib s) \<noteq> 0"
    using exchange by (auto simp: post_exchange_def)
  show ?thesis
  proof (cases asleep)
    case True
    then have "s_poster s' t = Waking" using exchange by simp
    then have "alarmed s'" by (auto simp: alarmed_def)
    then show ?thesis by (simp add: wake_inv_def)
  next
    case False
    have "alarmed s'" if "s_loop s \<in> {Armed, Waiting}"
    proof (rule alarmed_poster [of s])
      show "alarmed s" using that False ib(2) inv by (simp add: wake_inv_def)
    qed (use exchange ib in auto)
    then show ?thesis using exchange(1) by (simp add: wake_inv_def)
  qed
next
  case (eventfd t)
  then have "alarmed s'" by (simp add: alarmed_def post_eventfd_def)
  then show ?thesis by (simp add: wake_inv_def)
qed (use inv in \<open>auto simp: wake_inv_def alarmed_def split: if_splits\<close>)

lemma sys_reach_inv:
  assumes "sys_reach s"
  shows "wake_inv s \<and> (\<exists>inb ml. mail_inv s inb ml)"
  using assms
proof induction
  case (start s)
  then have "wake_inv s" by (simp add: sys_start_def wake_inv_def)
  then show ?case using mail_inv_start [OF start] by blast
next
  case (step s s')
  then show ?case using wake_inv_step mail_inv_step by blast
qed

section \<open>Properties\<close>

text \<open>
  C2.  Whatever the interleaving of the posters and the loop, the messages whose functions have
  been called, those in the mail and those in the inbox are together the messages pushed, in the
  order in which they were pushed: none is lost, none is delivered twice, none overtakes another.
\<close>

theorem inbox_delivers_in_order:
  assumes "sys_reach s"
  shows "\<exists>inb ml. s_pushed s = s_delivered s @ ml @ rev inb \<and>
    linked (\<lambda>m. m_next (ib_msgs (s_ib s) m)) (ib_inbox (s_ib s)) inb \<and>
    linked (\<lambda>m. m_next (ib_msgs (s_ib s) m)) (ib_mail (s_ib s)) ml \<and> distinct (inb @ ml)"
  using sys_reach_inv [OF assms] unfolding mail_inv_def inbox_holds_def by blast

text \<open>
  C1.  No wake-up is lost: while the loop waits and its inbox has a message, the eventfd is set, so that the
  wait ends, or a poster is still between its push and the end of its post; once every post has
  returned, the eventfd is set.
\<close>

theorem no_lost_wakeup:
  assumes "sys_reach s" "s_loop s = Waiting" "ib_inbox (s_ib s) \<noteq> None"
  shows "0 < ib_efd (s_ib s) \<or> (\<exists>t. s_poster s t = Waking \<or> (\<exists>m. s_poster s t = Pushed m))"
  using sys_reach_inv [OF assms(1)] assms(2,3) unfolding wake_inv_def alarmed_def by blast

text \<open>A run for the witnesses: the loop falls asleep, and then a poster posts the message 5.\<close>

definition run0 :: sys where
  "run0 = \<lparr> s_ib = \<lparr> ib_asleep = 0, ib_inbox = None, ib_mail = None, ib_last = None, ib_efd = 0,
       ib_msgs = (\<lambda>m. \<lparr> m_next = None, m_fn = True, m_posted = 0 \<rparr>) \<rparr>,
     s_poster = (\<lambda>t. Idle), s_loop = Running, s_pushed = [], s_delivered = [] \<rparr>"

definition run1 :: sys where
  "run1 = run0\<lparr>s_loop := Waiting, s_ib := (s_ib run0)\<lparr>ib_asleep := 1\<rparr>\<rparr>"

definition run2 :: sys where
  "run2 = at_poster 0 (Pushed 5) (run1\<lparr>s_ib := (post_write 5 None 9 (s_ib run1))\<lparr>ib_inbox := Some 5\<rparr>,
     s_pushed := [5]\<rparr>)"

definition run3 :: sys where
  "run3 = at_poster 0 Idle (run2\<lparr>s_ib := post_eventfd ((s_ib run2)\<lparr>ib_asleep := 0\<rparr>)\<rparr>)"

lemma reach_run1: "sys_reach run1"
proof -
  have 0: "sys_reach run0" by (rule sys_reach.start) (simp add: sys_start_def run0_def)
  have 1: "sys_reach (run0\<lparr>s_loop := Armed, s_ib := (s_ib run0)\<lparr>ib_asleep := 1\<rparr>\<rparr>)" (is "sys_reach ?a")
    by (rule sys_reach.step [OF 0 sys_step.arm]) (simp add: run0_def)
  show ?thesis
    using sys_reach.step [OF 1 sys_step.look] by (simp add: run0_def run1_def)
qed

lemma reach_run3: "sys_reach run3"
proof -
  have free: "message_free run1 5"
    by (auto simp: message_free_def run1_def run0_def inbox_holds_def)
  have a: "sys_reach (at_poster 0 (Loaded 5 None) run1)"
    using sys_reach.step [OF reach_run1 sys_step.load [OF _ _ free, of 0]]
    by (simp add: run1_def run0_def)
  have b: "sys_reach (at_poster 0 (Written 5 None) (run1\<lparr>s_ib := post_write 5 None 9 (s_ib run1)\<rparr>))"
    using sys_reach.step [OF a sys_step.store [of _ 0 5 None 9]] by simp
  have c: "sys_reach run2"
    using sys_reach.step [OF b sys_step.swap [of _ 0 5 None]]
    by (simp add: run2_def run1_def run0_def)
  have d: "sys_reach (at_poster 0 Waking (run2\<lparr>s_ib := (s_ib run2)\<lparr>ib_asleep := 0\<rparr>\<rparr>))"
    using sys_reach.step [OF c sys_step.exchange [of _ 0 5 True "(s_ib run2)\<lparr>ib_asleep := 0\<rparr>"]]
    by (simp add: post_exchange_def run2_def run1_def run0_def)
  show ?thesis
    using sys_reach.step [OF d sys_step.eventfd [of _ 0]] by (simp add: run3_def)
qed

theorem inbox_delivers_in_order_witness:
  "\<exists>inb ml. [5] = s_delivered run3 @ ml @ rev inb \<and> ib_inbox (s_ib run3) = Some 5"
  using inbox_delivers_in_order [OF reach_run3]
  by (auto simp: run3_def run2_def run1_def run0_def post_eventfd_def)

theorem no_lost_wakeup_witness: "s_loop run3 = Waiting \<and> 0 < ib_efd (s_ib run3)"
proof -
  have "s_loop run3 = Waiting" "ib_inbox (s_ib run3) \<noteq> None" "s_poster run3 = (\<lambda>t. Idle)"
    by (auto simp: run3_def run2_def run1_def run0_def post_eventfd_def)
  then show ?thesis using no_lost_wakeup [OF reach_run3] by auto
qed

text \<open>
  A post alone refuses a null pointer and a message without a function with EFAULT and the
  newest message of the inbox with EALREADY, changing nothing; otherwise the message is the newest of the
  inbox, the others follow it in their order, and a loop that was asleep has its eventfd set.
\<close>

theorem post_outcomes:
  assumes "inbox_holds st inb ml"
  shows "loop_post loop None now st = (Some EFAULT, st) \<and>
    loop_post False msg now st = (Some EFAULT, st) \<and>
    (if \<not> m_fn (ib_msgs st m) then loop_post True (Some m) now st = (Some EFAULT, st)
     else if inb \<noteq> [] \<and> m = hd inb then loop_post True (Some m) now st = (Some EALREADY, st)
     else m \<in> set (inb @ ml) \<or>
       (\<exists>st'. loop_post True (Some m) now st = (None, st') \<and> inbox_holds st' (m # inb) ml \<and>
          ib_asleep st' = 0 \<and> ib_efd st' = ib_efd st + of_bool (ib_asleep st \<noteq> 0)))"
proof -
  have head: "ib_inbox st = Some m \<longleftrightarrow> inb \<noteq> [] \<and> m = hd inb"
    using assms by (cases inb) (auto simp: inbox_holds_def)
  have "\<exists>st'. loop_post True (Some m) now st = (None, st') \<and> inbox_holds st' (m # inb) ml \<and>
          ib_asleep st' = 0 \<and> ib_efd st' = ib_efd st + of_bool (ib_asleep st \<noteq> 0)"
    if m: "m_fn (ib_msgs st m)" "ib_inbox st \<noteq> Some m" "m \<notin> set (inb @ ml)"
  proof -
    let ?w = "post_write m (ib_inbox st) now st"
    have "inbox_holds (?w\<lparr>ib_inbox := Some m\<rparr>) (m # inb) ml"
      using push_holds [OF write_holds [OF assms m(3)] m(3)] by simp
    then show ?thesis
      using m by (auto simp: loop_post_def Let_def post_exchange_def post_eventfd_def inbox_holds_def)
  qed
  moreover have "loop_post loop None now st = (Some EFAULT, st)" "loop_post False msg now st = (Some EFAULT, st)"
    by (auto simp: loop_post_def split: option.splits)
  moreover have "loop_post True (Some m) now st = (Some EFAULT, st)" if "\<not> m_fn (ib_msgs st m)"
    using that by (simp add: loop_post_def)
  moreover have "loop_post True (Some m) now st = (Some EALREADY, st)"
    if "m_fn (ib_msgs st m)" "ib_inbox st = Some m"
    using that by (simp add: loop_post_def)
  ultimately show ?thesis unfolding head [symmetric] by (cases "m \<in> set (inb @ ml)") simp_all
qed

theorem post_outcomes_witness:
  "\<exists>st'. loop_post True (Some 5) 9 (s_ib run1) = (None, st') \<and> inbox_holds st' [5] [] \<and> ib_efd st' = 1"
proof -
  have h: "inbox_holds (s_ib run1) [] []" by (simp add: inbox_holds_def run1_def run0_def)
  show ?thesis using post_outcomes [OF h, of True 9 None 5] by (auto simp: run1_def run0_def)
qed

text \<open>
  Taking the mail ends, empties the inbox and puts its messages behind those that earlier turns
  left, the oldest first; delivering then hands out the first of them.
\<close>

theorem collect_then_deliver:
  assumes "inbox_holds st inb ml" "inb @ ml \<noteq> []"
  shows "\<exists>st1 st2. loop_collect st = Some st1 \<and> ib_inbox st1 = None \<and> inbox_holds st1 [] (ml @ rev inb) \<and>
    loop_deliver st1 = Some (hd (ml @ rev inb), st2) \<and> inbox_holds st2 [] (tl (ml @ rev inb))"
proof -
  obtain st1 where c: "loop_collect st = Some st1" "inbox_holds st1 [] (ml @ rev inb)" "ib_inbox st1 = None"
    using loop_collect_holds [OF assms(1)] by blast
  have "ml @ rev inb = hd (ml @ rev inb) # tl (ml @ rev inb)"
    using assms(2) by (intro hd_Cons_tl [symmetric]) auto
  then obtain st2 where "loop_deliver st1 = Some (hd (ml @ rev inb), st2)"
      "inbox_holds st2 [] (tl (ml @ rev inb))"
    using loop_deliver_holds c(2) by metis
  then show ?thesis using c by blast
qed

theorem collect_then_deliver_witness:
  "\<exists>st1 st2. loop_collect (s_ib run3) = Some st1 \<and> loop_deliver st1 = Some (5, st2) \<and> inbox_holds st2 [] []"
proof -
  have "inbox_holds (s_ib run3) [5] []"
    by (simp add: inbox_holds_def run3_def run2_def run1_def run0_def post_eventfd_def)
  from collect_then_deliver [OF this] show ?thesis by auto
qed

end
