(* ===== verification/Handles.thy ===== *)
theory Handles
  imports Util_Io
begin

text \<open>
  The table of handles of an event loop (\<^verbatim>\<open>loop_handle()\<close>, \<^verbatim>\<open>loop_lookup()\<close>, \<^verbatim>\<open>loop_forget()\<close> and
  their helpers in \<^verbatim>\<open>src/loop.c\<close>).  A handle is a word of 8 bits for the loop, 24 for the slot
  and 32 for the slot's generation.  A free slot links the slot that was freed before it.

  The lemmas show that the fields of a handle are read back, that a handle names its
  object until it is forgotten, for its own kind only, that no operation changes what another handle names, and
  that a forgotten handle names nothing until its slot has been freed 2^32 - 2 more times.
\<close>

unbundle bit_operations_syntax

definition SLOTS_MIN :: u32 where "SLOTS_MIN = 64"
definition SLOTS_MAX :: u32 where "SLOTS_MAX = 0x1000000"
definition SLOT_BYTES :: u64 where "SLOT_BYTES = 16"

section \<open>The table\<close>

text \<open>The union of \<^verbatim>\<open>kind\<close> and \<^verbatim>\<open>vacant\<close> is the one word \<open>sl_word\<close>.\<close>

record slot =
  sl_obj :: "ref option"
  sl_gen :: u32
  sl_word :: u32

text \<open>The storage holds \<^verbatim>\<open>slots_cap\<close> slots, of which the first \<open>hs_used\<close> have ever been used.\<close>

record handles =
  hs_id :: u64
  hs_slots :: "slot list"
  hs_used :: u32
  hs_vacant :: u32

definition handle_bits :: "u64 \<Rightarrow> u32 \<Rightarrow> u32 \<Rightarrow> u64" where
  "handle_bits ident i gen = push_bit 56 ident OR push_bit 32 (ucast i) OR ucast gen"

definition handle_slot :: "u64 \<Rightarrow> u32" where
  "handle_slot h = ucast (drop_bit 32 h) AND (SLOTS_MAX - 1)"

definition loop_slot_of :: "handles \<Rightarrow> u64 \<Rightarrow> nat option" where
  "loop_slot_of t h =
     (let i = handle_slot h
      in if drop_bit 56 h \<noteq> hs_id t \<or> i \<ge> hs_used t then None
         else let slot = hs_slots t ! unat i
              in if sl_gen slot = ucast h \<and> sl_obj slot \<noteq> None then Some (unat i) else None)"

text \<open>What \<^verbatim>\<open>realloc()\<close> leaves in the new slots is the argument \<open>junk\<close>.\<close>

definition loop_slots_grow :: "allocs \<Rightarrow> (nat \<Rightarrow> slot) \<Rightarrow> handles \<Rightarrow> errno option \<times> handles \<times> allocs" where
  "loop_slots_grow as junk t =
     (if hs_used t \<ge> SLOTS_MAX then (Some ENOMEM, t, as)
      else
        let n = (if hs_used t < SLOTS_MIN then ucast SLOTS_MIN else ucast (hs_used t + 1));
            len = length (hs_slots t);
            (e, cap, as) = util_grow as (of_nat len) n SLOT_BYTES
        in (e, t\<lparr>hs_slots := hs_slots t @ map junk [len..<unat cap]\<rparr>, as))"

definition loop_handle ::
    "allocs \<Rightarrow> (nat \<Rightarrow> slot) \<Rightarrow> handles \<Rightarrow> ref option \<Rightarrow> u32 \<Rightarrow> (errno + u64) \<times> handles \<times> allocs" where
  "loop_handle as junk t obj kind =
     (let named = (\<lambda>t i. t\<lparr>hs_slots := (hs_slots t)[unat i :=
                    (hs_slots t ! unat i)\<lparr>sl_obj := obj, sl_word := kind\<rparr>]\<rparr>);
          handle = (\<lambda>t i. handle_bits (hs_id t) i (sl_gen (hs_slots t ! unat i)))
      in if hs_vacant t \<noteq> 0 then
           let i = hs_vacant t - 1;
               t = t\<lparr>hs_vacant := sl_word (hs_slots t ! unat i)\<rparr>;
               t = named t i
           in (Inr (handle t i), t, as)
         else
           case loop_slots_grow as junk t of
             (Some e, t, as) \<Rightarrow> (Inl e, t, as)
           | (None, t, as) \<Rightarrow>
               let i = hs_used t;
                   t = t\<lparr>hs_used := i + 1\<rparr>;
                   t = t\<lparr>hs_slots := (hs_slots t)[unat i := (hs_slots t ! unat i)\<lparr>sl_gen := 1\<rparr>]\<rparr>;
                   t = named t i
               in (Inr (handle t i), t, as))"

definition loop_lookup :: "handles \<Rightarrow> u64 \<Rightarrow> u32 \<Rightarrow> ref option" where
  "loop_lookup t h kind =
     (case loop_slot_of t h of
        None \<Rightarrow> None
      | Some i \<Rightarrow> if sl_word (hs_slots t ! i) = kind then sl_obj (hs_slots t ! i) else None)"

definition next_gen :: "u32 \<Rightarrow> u32" where
  "next_gen g = g + (1 + of_bool (g = - 1))"

definition loop_forget :: "handles \<Rightarrow> u64 \<Rightarrow> handles" where
  "loop_forget t h =
     (case loop_slot_of t h of
        None \<Rightarrow> t
      | Some i \<Rightarrow>
          let slot = hs_slots t ! i
          in t\<lparr>hs_slots := (hs_slots t)[i := slot\<lparr>sl_obj := None, sl_gen := next_gen (sl_gen slot),
                                            sl_word := hs_vacant t\<rparr>],
               hs_vacant := of_nat i + 1\<rparr>)"

section \<open>The fields of a handle\<close>

lemma bit_small:
  assumes "unat (w :: 'a::len word) < 2 ^ k" "bit w n"
  shows "n < k"
proof -
  have "odd (unat w div 2 ^ n)"
    using assms(2) bit_unsigned_iff [where ?'a = nat and w = w and n = n]
    by (auto simp: bit_iff_odd dest: bit_imp_le_length)
  then have "2 ^ n \<le> unat w" by (metis div_less dvd_0_right not_le)
  from le_less_trans [OF this assms(1)] have "2 ^ n < (2::nat) ^ k" .
  then show ?thesis by simp
qed

lemma handle_fields:
  assumes "ident < 256" "i < SLOTS_MAX"
  shows "drop_bit 56 (handle_bits ident i gen) = ident"
    "handle_slot (handle_bits ident i gen) = i"
    "ucast (handle_bits ident i gen) = gen"
proof -
  have b: "bit ident n \<Longrightarrow> n < 8" "bit i n \<Longrightarrow> n < 24" for n
    using bit_small [of ident 8 n] bit_small [of i 24 n] assms
    by (simp_all add: SLOTS_MAX_def word_less_nat_alt)
  have m: "SLOTS_MAX - 1 = mask 24" by (simp add: SLOTS_MAX_def mask_eq_exp_minus_1)
  show "drop_bit 56 (handle_bits ident i gen) = ident"
    by (rule bit_word_eqI) (use b in \<open>force simp: handle_bits_def bit_simps dest: bit_imp_le_length\<close>)
  show "handle_slot (handle_bits ident i gen) = i"
    unfolding handle_slot_def m
    by (rule bit_word_eqI) (use b in \<open>force simp: handle_bits_def bit_simps dest: bit_imp_le_length\<close>)
  show "ucast (handle_bits ident i gen) = gen"
    by (rule bit_word_eqI) (use b in \<open>force simp: handle_bits_def bit_simps dest: bit_imp_le_length\<close>)
qed

section \<open>Well-formed tables\<close>

text \<open>The slot that a link names: 0 names none.\<close>

definition link_slot :: "u32 \<Rightarrow> nat option" where
  "link_slot v = (if v = 0 then None else Some (unat v - 1))"

abbreviation next_free :: "slot list \<Rightarrow> nat \<Rightarrow> nat option" where
  "next_free sl \<equiv> \<lambda>i. link_slot (sl_word (sl ! i))"

text \<open>The free slots are \<open>vs\<close>, linked from the one that was freed last; every other used slot names an object.\<close>

definition hs_inv :: "handles \<Rightarrow> nat list \<Rightarrow> bool" where
  "hs_inv t vs \<longleftrightarrow>
     hs_id t < 256 \<and> hs_used t \<le> SLOTS_MAX \<and> unat (hs_used t) \<le> length (hs_slots t) \<and>
     length (hs_slots t) * 16 < 2 ^ 64 \<and>
     linked (next_free (hs_slots t)) (link_slot (hs_vacant t)) vs \<and> distinct vs \<and>
     (\<forall>i < unat (hs_used t). sl_gen (hs_slots t ! i) \<noteq> 0 \<and>
        (i \<in> set vs \<longleftrightarrow> sl_obj (hs_slots t ! i) = None)) \<and>
     set vs \<subseteq> {..< unat (hs_used t)}"

lemma link_slot_of_nat: "i < 2 ^ 24 \<Longrightarrow> link_slot (of_nat i + 1) = Some i"
proof -
  assume i: "i < 2 ^ 24"
  have e: "of_nat i + 1 = (of_nat (Suc i) :: u32)" by simp
  have u: "unat (of_nat i + 1 :: u32) = Suc i"
    unfolding e using i by (simp add: unsigned_of_nat take_bit_nat_eq_self del: of_nat_Suc)
  then have "of_nat i + 1 \<noteq> (0 :: u32)" by (metis unat_0 nat.distinct(1))
  with u show ?thesis by (simp add: link_slot_def)
qed

lemma unat_less_slots: "i < SLOTS_MAX \<longleftrightarrow> unat i < 2 ^ 24"
  by (simp add: SLOTS_MAX_def word_less_nat_alt)

lemma next_gen_nonzero: "next_gen g \<noteq> 0"
proof -
  have "g + 1 \<noteq> 0" if "g \<noteq> - 1" using that by (metis add_eq_0_iff2)
  then show ?thesis by (auto simp: next_gen_def)
qed

lemma slot_of_handle:
  assumes "hs_id t < 256" "i < hs_used t" "hs_used t \<le> SLOTS_MAX"
    "sl_obj (hs_slots t ! unat i) \<noteq> None"
  shows "loop_slot_of t (handle_bits (hs_id t) i (sl_gen (hs_slots t ! unat i))) = Some (unat i)"
proof -
  have i: "i < SLOTS_MAX" using assms(2,3) by simp
  show ?thesis
    unfolding loop_slot_of_def handle_fields [OF assms(1) i] Let_def
    using assms by (simp add: not_le handle_fields [OF assms(1) i])
qed

lemma slot_of_Some:
  assumes "loop_slot_of t h = Some i"
  shows "i < unat (hs_used t)" "sl_obj (hs_slots t ! i) \<noteq> None" "sl_gen (hs_slots t ! i) = ucast h"
    "i = unat (handle_slot h)" "drop_bit 56 h = hs_id t"
  using assms by (auto simp: loop_slot_of_def Let_def word_less_nat_alt not_le split: if_splits)

text \<open>The table named by another object: what a handle names elsewhere is as before.\<close>

lemma slot_of_cong:
  assumes "hs_id t' = hs_id t" "hs_used t \<le> hs_used t'"
    "loop_slot_of t h = Some i" "hs_slots t' ! i = hs_slots t ! i"
  shows "loop_slot_of t' h = Some i"
  using assms slot_of_Some [OF assms(3)]
  by (auto simp: loop_slot_of_def Let_def word_le_nat_alt word_less_nat_alt not_le)

lemma loop_forget_inv:
  assumes inv: "hs_inv t vs" and i: "loop_slot_of t h = Some i"
  shows "hs_inv (loop_forget t h) (i # vs)"
proof -
  have u: "i < unat (hs_used t)" "sl_obj (hs_slots t ! i) \<noteq> None" using slot_of_Some [OF i] by auto
  have "i \<notin> set vs" using inv u by (auto simp: hs_inv_def)
  have i24: "i < 2 ^ 24" using inv u(1) by (simp add: hs_inv_def SLOTS_MAX_def word_le_nat_alt)
  let ?new = "(hs_slots t ! i)\<lparr>sl_obj := None, sl_gen := next_gen (sl_gen (hs_slots t ! i)), sl_word := hs_vacant t\<rparr>"
  have f: "loop_forget t h = t\<lparr>hs_slots := (hs_slots t)[i := ?new], hs_vacant := of_nat i + 1\<rparr>"
    using i by (simp add: loop_forget_def Let_def)
  have len: "i < length (hs_slots t)" using inv u by (simp add: hs_inv_def)
  have "linked (next_free ((hs_slots t)[i := ?new])) (link_slot (hs_vacant t)) vs =
      linked (next_free (hs_slots t)) (link_slot (hs_vacant t)) vs"
    using \<open>i \<notin> set vs\<close> by (intro linked_cong) (metis nth_list_update_neq)
  then show ?thesis
    using inv u \<open>i \<notin> set vs\<close> len link_slot_of_nat [OF i24] next_gen_nonzero
    unfolding f by (auto simp: hs_inv_def nth_list_update)
qed

lemma loop_forget_none: "loop_slot_of t h = None \<Longrightarrow> loop_forget t h = t"
  by (simp add: loop_forget_def)

lemma slots_grow_ok:
  assumes g: "loop_slots_grow as junk t = (e, t', as')" and inv: "hs_inv t vs"
  shows "\<exists>more. t' = t\<lparr>hs_slots := hs_slots t @ more\<rparr> \<and> length (hs_slots t @ more) * 16 < 2 ^ 64"
    "e = None \<Longrightarrow> hs_used t < SLOTS_MAX \<and> unat (hs_used t) < length (hs_slots t')"
    "e \<noteq> None \<Longrightarrow> e = Some ENOMEM"
proof -
  let ?len = "length (hs_slots t)"
  let ?n = "(if hs_used t < SLOTS_MIN then ucast SLOTS_MIN else ucast (hs_used t + 1)) :: u64"
  have len: "?len * 16 < 2 ^ 64" using inv by (simp add: hs_inv_def)
  have goal: "(\<exists>more. t' = t\<lparr>hs_slots := hs_slots t @ more\<rparr> \<and> length (hs_slots t @ more) * 16 < 2 ^ 64) \<and>
    (e = None \<longrightarrow> hs_used t < SLOTS_MAX \<and> unat (hs_used t) < length (hs_slots t')) \<and>
    (e \<noteq> None \<longrightarrow> e = Some ENOMEM)"
  proof (cases "hs_used t \<ge> SLOTS_MAX")
    case True
    then show ?thesis using g len by (auto simp: loop_slots_grow_def intro: exI [of _ "[]"])
  next
    case False
    obtain cap moved as1 where r: "util_room as (of_nat ?len) ?n SLOT_BYTES = (cap, moved, as1)"
      by (metis prod_cases3)
    have ul: "unat (of_nat ?len :: u64) = ?len" using len by (intro unat_of_nat_64) simp
    have b: "SLOT_BYTES \<noteq> 0" "unat SLOT_BYTES = 16" by (simp_all add: SLOT_BYTES_def)
    note spec = util_room_spec [OF r b(1), unfolded ul b(2), OF len]
    have le: "?len \<le> unat cap" using spec(2) ul by (simp add: word_le_nat_alt)
    have t': "t' = t\<lparr>hs_slots := hs_slots t @ map junk [?len..<unat cap]\<rparr>"
      and e: "e = (if cap < ?n then Some ENOMEM else None)"
      using g r False by (auto simp: loop_slots_grow_def util_grow_def Let_def split: if_splits)
    have "unat (hs_used t) < unat ?n"
    proof (cases "hs_used t < SLOTS_MIN")
      case True
      then show ?thesis by (simp add: SLOTS_MIN_def word_less_nat_alt)
    next
      case small: False
      have "unat (hs_used t) < 2 ^ 24" using False by (simp add: SLOTS_MAX_def word_le_nat_alt not_le)
      then have "unat (hs_used t + 1) = unat (hs_used t) + 1"
        by (simp add: unat_word_ariths(1))
      then show ?thesis using small by (simp add: unat_ucast_32)
    qed
    then have "e = None \<Longrightarrow> unat (hs_used t) < length (hs_slots t')"
      using e le by (auto simp: t' word_less_nat_alt split: if_splits)
    then show ?thesis using False e spec(1) le by (auto simp: t' not_le)
  qed
  then show "\<exists>more. t' = t\<lparr>hs_slots := hs_slots t @ more\<rparr> \<and> length (hs_slots t @ more) * 16 < 2 ^ 64"
    "e = None \<Longrightarrow> hs_used t < SLOTS_MAX \<and> unat (hs_used t) < length (hs_slots t')"
    "e \<noteq> None \<Longrightarrow> e = Some ENOMEM" by auto
qed

text \<open>What \<^verbatim>\<open>loop_handle()\<close> gives: a slot \<open>i\<close> that no handle named now has the object and the kind.\<close>

definition names :: "handles \<Rightarrow> handles \<Rightarrow> u32 \<Rightarrow> ref \<Rightarrow> u32 \<Rightarrow> bool" where
  "names t t' i obj kind \<longleftrightarrow>
     hs_id t' = hs_id t \<and> i < hs_used t' \<and> hs_used t \<le> hs_used t' \<and>
     sl_obj (hs_slots t' ! unat i) = Some obj \<and> sl_word (hs_slots t' ! unat i) = kind \<and>
     (\<forall>h. loop_slot_of t h \<noteq> Some (unat i)) \<and>
     (\<forall>k. k < unat (hs_used t) \<longrightarrow> k \<noteq> unat i \<longrightarrow> hs_slots t' ! k = hs_slots t ! k) \<and>
     (\<forall>k. k < unat (hs_used t') \<longrightarrow> k \<noteq> unat i \<longrightarrow> k < unat (hs_used t)) \<and>
     (unat i < unat (hs_used t) \<longrightarrow> sl_gen (hs_slots t' ! unat i) = sl_gen (hs_slots t ! unat i))"

lemma loop_handle_reuse:
  assumes inv: "hs_inv t vs" and v: "hs_vacant t \<noteq> 0"
  shows "\<exists>t' i ws. loop_handle as junk t (Some obj) kind =
      (Inr (handle_bits (hs_id t') i (sl_gen (hs_slots t' ! unat i))), t', as) \<and>
    hs_inv t' ws \<and> names t t' i obj kind"
proof -
  have lk: "linked (next_free (hs_slots t)) (Some (unat (hs_vacant t) - 1)) vs"
    using inv v by (simp add: hs_inv_def link_slot_def)
  then obtain j ws where vs: "vs = j # ws" "j = unat (hs_vacant t) - 1"
    by (cases vs) auto
  define i where "i = hs_vacant t - 1"
  have ui: "unat i = j" using v vs(2) by (simp add: i_def unat_minus_one)
  have j: "j < unat (hs_used t)" "j < length (hs_slots t)" "sl_obj (hs_slots t ! j) = None" "j \<notin> set ws"
    using inv vs(1) by (auto simp: hs_inv_def)
  let ?new = "(hs_slots t ! j)\<lparr>sl_obj := Some obj, sl_word := kind\<rparr>"
  let ?t = "t\<lparr>hs_vacant := sl_word (hs_slots t ! j), hs_slots := (hs_slots t)[j := ?new]\<rparr>"
  have run: "loop_handle as junk t (Some obj) kind =
      (Inr (handle_bits (hs_id ?t) i (sl_gen (hs_slots ?t ! unat i))), ?t, as)"
    using v j ui by (simp add: loop_handle_def Let_def i_def [symmetric])
  have "linked (next_free ((hs_slots t)[j := ?new])) p ws = linked (next_free (hs_slots t)) p ws" for p
    using j(4) by (intro linked_cong) (metis nth_list_update_neq)
  then have "hs_inv ?t ws"
    using inv vs j by (auto simp: hs_inv_def nth_list_update)
  moreover have "names t ?t i obj kind"
    using ui j slot_of_Some [of t _ j] by (auto simp: names_def nth_list_update word_less_nat_alt)
  ultimately show ?thesis using run by blast
qed

lemma loop_handle_fresh:
  assumes inv: "hs_inv t vs" and v: "hs_vacant t = 0" and g: "loop_slots_grow as junk t = (None, t1, as1)"
  shows "\<exists>t' i ws. loop_handle as junk t (Some obj) kind =
      (Inr (handle_bits (hs_id t') i (sl_gen (hs_slots t' ! unat i))), t', as1) \<and>
    hs_inv t' ws \<and> names t t' i obj kind"
proof -
  obtain more where t1: "t1 = t\<lparr>hs_slots := hs_slots t @ more\<rparr>" "length (hs_slots t @ more) * 16 < 2 ^ 64"
    using slots_grow_ok(1) [OF g inv] by blast
  have room: "hs_used t < SLOTS_MAX" "unat (hs_used t) < length (hs_slots t @ more)"
    using slots_grow_ok(2) [OF g inv] t1 by auto
  have vs: "vs = []" using inv v by (simp add: hs_inv_def link_slot_def)
  define i where "i = hs_used t"
  let ?sl = "hs_slots t @ more"
  let ?new = "(?sl ! unat i)\<lparr>sl_gen := 1, sl_obj := Some obj, sl_word := kind\<rparr>"
  let ?t = "t\<lparr>hs_slots := ?sl[unat i := ?new], hs_used := i + 1\<rparr>"
  have i: "unat i < length ?sl" using room by (simp add: i_def)
  have "unat i < 2 ^ 24" using room(1) by (simp add: i_def unat_less_slots)
  then have i1: "unat (i + 1) = unat i + 1" by (simp add: unat_word_ariths(1))
  have run: "loop_handle as junk t (Some obj) kind =
      (Inr (handle_bits (hs_id ?t) i (sl_gen (hs_slots ?t ! unat i))), ?t, as1)"
    using v g t1 i by (simp add: loop_handle_def Let_def i_def [symmetric] nth_list_update)
  have le: "unat i \<le> length (hs_slots t)" using inv by (simp add: hs_inv_def i_def)
  have old: "?sl[unat i := ?new] ! k = hs_slots t ! k" if "k < unat i" for k
    using that le by (simp add: nth_append)
  have "hs_inv ?t []"
    using inv i i1 old t1(2) room v \<open>unat i < 2 ^ 24\<close> vs
    by (auto simp: hs_inv_def i_def [symmetric] SLOTS_MAX_def word_le_nat_alt less_Suc_eq
        link_slot_def)
  moreover have "names t ?t i obj kind"
  proof -
    have "\<forall>h. loop_slot_of t h \<noteq> Some (unat i)"
      using slot_of_Some(1) by (auto simp: i_def)
    then show ?thesis
      using i i1 old by (auto simp: names_def i_def [symmetric] word_less_nat_alt word_le_nat_alt)
  qed
  ultimately show ?thesis using run by blast
qed

lemma loop_handle_cases:
  assumes inv: "hs_inv t vs"
  obtains
    (named) t' i ws as' where "loop_handle as junk t (Some obj) kind =
        (Inr (handle_bits (hs_id t') i (sl_gen (hs_slots t' ! unat i))), t', as')"
      "hs_inv t' ws" "names t t' i obj kind"
  | (full) t' as' more where "loop_handle as junk t (Some obj) kind = (Inl ENOMEM, t', as')"
      "t' = t\<lparr>hs_slots := hs_slots t @ more\<rparr>" "hs_inv t' vs"
proof (cases "hs_vacant t = 0")
  case False
  then show thesis using loop_handle_reuse [OF inv] named by metis
next
  case v: True
  obtain e t1 as1 where g: "loop_slots_grow as junk t = (e, t1, as1)" by (metis prod_cases3)
  show thesis
  proof (cases e)
    case None
    then show thesis using loop_handle_fresh [OF inv v] g named by metis
  next
    case (Some x)
    then have x: "x = ENOMEM" using slots_grow_ok(3) [OF g inv] by simp
    obtain more where t1: "t1 = t\<lparr>hs_slots := hs_slots t @ more\<rparr>" "length (hs_slots t @ more) * 16 < 2 ^ 64"
      using slots_grow_ok(1) [OF g inv] by blast
    have "linked (next_free (hs_slots t @ more)) p vs = linked (next_free (hs_slots t)) p vs" for p
      using inv by (intro linked_cong) (auto simp: hs_inv_def nth_append subset_eq)
    then have "hs_inv t1 vs"
      using inv t1 by (auto simp: hs_inv_def nth_append)
    then show thesis using full v g Some x t1(1) by (simp add: loop_handle_def)
  qed
qed

section \<open>Generations\<close>

text \<open>A generation as a number from 0: it goes round all but one of the 2^32 values.\<close>

definition gen_rank :: "u32 \<Rightarrow> nat" where
  "gen_rank g = unat g - 1"

lemma gen_rank_next:
  assumes "g \<noteq> 0"
  shows "gen_rank (next_gen g) = (gen_rank g + 1) mod (2 ^ 32 - 1)" "gen_rank g < 2 ^ 32 - 1"
proof -
  have u: "unat g < 2 ^ 32" "0 < unat g"
    using unsigned_less [of g, where ?'a = nat] assms by (simp_all add: unat_gt_0)
  show "gen_rank g < 2 ^ 32 - 1" using u by (auto simp: gen_rank_def)
  have max': "unat (- 1 :: u32) = 2 ^ 32 - 1" by (simp add: unsigned_minus_1_eq_mask mask_eq_exp_minus_1)
  show "gen_rank (next_gen g) = (gen_rank g + 1) mod (2 ^ 32 - 1)"
  proof (cases "g = - 1")
    case True
    then show ?thesis using max' by (simp add: gen_rank_def next_gen_def)
  next
    case False
    then have "unat g \<noteq> 2 ^ 32 - 1" using max' by (metis word_unat_eq_iff)
    then have "unat (g + 1) = unat g + 1" "unat g < 2 ^ 32 - 1"
      using u by (simp_all add: unat_word_ariths(1))
    then show ?thesis using False u by (simp add: gen_rank_def next_gen_def)
  qed
qed

lemma gen_rank_inj: "gen_rank g = gen_rank g' \<Longrightarrow> g \<noteq> 0 \<Longrightarrow> g' \<noteq> 0 \<Longrightarrow> g = g'"
  by (simp add: gen_rank_def word_unat_eq_iff [symmetric] unat_gt_0 [symmetric])
     (metis One_nat_def Suc_pred unat_gt_0 word_unat_eq_iff)

text \<open>Runs of the table: objects are named and handles forgotten, in any order.\<close>

datatype table_op = Name "allocs" "nat \<Rightarrow> slot" ref u32 | Forget u64

fun table_run :: "table_op list \<Rightarrow> handles \<Rightarrow> handles" where
  "table_run [] t = t"
| "table_run (Name as junk obj kind # ops) t =
     (case loop_handle as junk t (Some obj) kind of (_, t, _) \<Rightarrow> table_run ops t)"
| "table_run (Forget h # ops) t = table_run ops (loop_forget t h)"

text \<open>How often a run frees the slot \<open>i\<close>: a \<open>Forget\<close> frees the slot that its handle names then, if it names one.\<close>

fun slot_frees :: "nat \<Rightarrow> table_op list \<Rightarrow> handles \<Rightarrow> nat" where
  "slot_frees i [] t = 0"
| "slot_frees i (Name as junk obj kind # ops) t =
     (case loop_handle as junk t (Some obj) kind of (_, t, _) \<Rightarrow> slot_frees i ops t)"
| "slot_frees i (Forget h # ops) t = of_bool (loop_slot_of t h = Some i) + slot_frees i ops (loop_forget t h)"

text \<open>The generation of a used slot after a run: it has moved on once for each time that the slot was freed.\<close>

lemma table_run_gen:
  "hs_inv t vs \<Longrightarrow> i < unat (hs_used t) \<Longrightarrow>
     \<exists>ws. hs_inv (table_run ops t) ws \<and> i < unat (hs_used (table_run ops t)) \<and> hs_id (table_run ops t) = hs_id t \<and>
       gen_rank (sl_gen (hs_slots (table_run ops t) ! i)) =
         (gen_rank (sl_gen (hs_slots t ! i)) + slot_frees i ops t) mod (2 ^ 32 - 1)"
proof (induction ops t arbitrary: vs rule: table_run.induct)
  case (1 t)
  then have "gen_rank (sl_gen (hs_slots t ! i)) < 2 ^ 32 - 1"
    by (intro gen_rank_next(2)) (simp add: hs_inv_def)
  then show ?case using 1 by (intro exI [of _ vs]) simp
next
  case (2 as junk obj kind ops t)
  show ?case
    using "2.prems"(1)
  proof (cases rule: loop_handle_cases [of t vs as junk obj kind])
    case (named t' j ws as')
    have u: "i < unat (hs_used t')"
      using named(3) "2.prems"(2) by (auto simp: names_def word_le_nat_alt)
    have "sl_gen (hs_slots t' ! i) = sl_gen (hs_slots t ! i)"
      using named(3) "2.prems"(2) by (cases "i = unat j") (auto simp: names_def)
    moreover have "hs_id t' = hs_id t" using named(3) by (simp add: names_def)
    ultimately show ?thesis
      using "2.IH" [OF named(1) [symmetric] refl named(2) u] named(1) by simp
  next
    case (full t' as' more)
    have "hs_slots t' ! i = hs_slots t ! i"
      using full(2) "2.prems" by (simp add: hs_inv_def nth_append)
    then show ?thesis
      using "2.IH" [OF full(1) [symmetric] refl full(3)] full(1,2) "2.prems"(2) by simp
  qed
next
  case (3 h ops t)
  show ?case
  proof (cases "loop_slot_of t h")
    case None
    then show ?thesis using "3.IH" [unfolded loop_forget_none [OF None], OF "3.prems"] by (simp add: loop_forget_none [OF None])
  next
    case (Some j)
    let ?t = "loop_forget t h"
    have same: "hs_used ?t = hs_used t" "hs_id ?t = hs_id t"
      using Some by (simp_all add: loop_forget_def Let_def)
    obtain ws where IH: "hs_inv (table_run ops ?t) ws" "i < unat (hs_used (table_run ops ?t))" "hs_id (table_run ops ?t) = hs_id t"
        "gen_rank (sl_gen (hs_slots (table_run ops ?t) ! i)) = (gen_rank (sl_gen (hs_slots ?t ! i)) + slot_frees i ops ?t) mod (2 ^ 32 - 1)"
      using "3.IH" [OF loop_forget_inv [OF "3.prems"(1) Some]] "3.prems"(2) same by auto
    have g: "sl_gen (hs_slots t ! i) \<noteq> 0" "i < length (hs_slots t)"
      using "3.prems" by (auto simp: hs_inv_def)
    have "gen_rank (sl_gen (hs_slots ?t ! i)) = (gen_rank (sl_gen (hs_slots t ! i)) + of_bool (i = j)) mod (2 ^ 32 - 1)"
      using Some g gen_rank_next [OF g(1)] by (cases "i = j") (simp_all add: loop_forget_def Let_def)
    then have "gen_rank (sl_gen (hs_slots (table_run ops ?t) ! i)) =
        (gen_rank (sl_gen (hs_slots t ! i)) + (of_bool (i = j) + slot_frees i ops ?t)) mod (2 ^ 32 - 1)"
      unfolding IH(4) by (simp only: mod_add_left_eq add.assoc)
    moreover have "slot_frees i (Forget h # ops) t = of_bool (i = j) + slot_frees i ops ?t" using Some by auto
    ultimately show ?thesis using IH(1-3) by (intro exI [of _ ws]) (simp only: table_run.simps simp_thms)
  qed
qed

lemma forget_gen:
  assumes "loop_slot_of t h = Some i" "i < length (hs_slots t)"
  shows "sl_gen (hs_slots (loop_forget t h) ! i) = next_gen (ucast h)"
  using assms slot_of_Some [OF assms(1)] by (simp add: loop_forget_def Let_def)

lemma forgotten_dead:
  assumes inv: "hs_inv t vs" and h: "loop_slot_of t h = Some i"
    and few: "slot_frees i ops (loop_forget t h) < 2 ^ 32 - 2"
  shows "loop_slot_of (table_run ops (loop_forget t h)) h = None"
proof -
  let ?t = "loop_forget t h"
  note inv' = loop_forget_inv [OF inv h]
  have i: "i < unat (hs_used ?t)" using slot_of_Some(1) [OF h] h by (simp add: loop_forget_def Let_def)
  define k where "k = slot_frees i ops ?t"
  have r: "gen_rank (sl_gen (hs_slots (table_run ops ?t) ! i)) =
        (gen_rank (sl_gen (hs_slots ?t ! i)) + k) mod (2 ^ 32 - 1)"
    using table_run_gen [OF inv' i, of ops] by (auto simp: k_def)
  have g0: "(ucast h :: u32) \<noteq> 0" using slot_of_Some(1,3) [OF h] inv by (auto simp: hs_inv_def)
  have len: "i < length (hs_slots t)" using inv slot_of_Some(1) [OF h] by (simp add: hs_inv_def)
  let ?r = "gen_rank (ucast h)" and ?M = "2 ^ 32 - 1 :: nat"
  have rank: "gen_rank (sl_gen (hs_slots (table_run ops ?t) ! i)) = (?r + (1 + k)) mod ?M"
    unfolding r forget_gen [OF h len] gen_rank_next(1) [OF g0]
    by (simp only: mod_add_left_eq add.assoc)
  have lt: "?r < ?M" by (rule gen_rank_next(2) [OF g0])
  have "(?r + (1 + k)) mod ?M \<noteq> ?r"
  proof
    assume "(?r + (1 + k)) mod ?M = ?r"
    then have "?M dvd 1 + k" using lt by (metis add_diff_cancel_left' mod_eq_dvd_iff_nat mod_less le_add1)
    then have "?M \<le> 1 + k" by (rule dvd_imp_le) simp
    then show False using few by (simp add: k_def)
  qed
  then have "sl_gen (hs_slots (table_run ops ?t) ! i) \<noteq> ucast h" using rank by metis
  then show ?thesis
    using slot_of_Some(3,4) [of "table_run ops ?t" h] slot_of_Some(4) [OF h]
    by (cases "loop_slot_of (table_run ops ?t) h") auto
qed

section \<open>Properties\<close>

lemma lookup_kept:
  assumes "hs_id t' = hs_id t" "hs_used t \<le> hs_used t'"
    "\<And>i. loop_slot_of t g = Some i \<Longrightarrow> hs_slots t' ! i = hs_slots t ! i"
    "loop_slot_of t g \<noteq> None"
  shows "loop_lookup t' g k = loop_lookup t g k"
proof -
  obtain i where i: "loop_slot_of t g = Some i" using assms(4) by blast
  show ?thesis using slot_of_cong [OF assms(1,2) i assms(3) [OF i]] i assms(3) [OF i]
    by (simp add: loop_lookup_def)
qed

lemma lookup_None: "loop_slot_of t g = None \<Longrightarrow> loop_lookup t g k = None"
  by (simp add: loop_lookup_def)

lemma handle_whole: "handle_bits (drop_bit 56 g) (handle_slot g) (ucast g) = g"
proof -
  have m: "SLOTS_MAX - 1 = mask 24" by (simp add: SLOTS_MAX_def mask_eq_exp_minus_1)
  have "bit (handle_bits (drop_bit 56 g) (handle_slot g) (ucast g)) n = bit g n" if "n < 64" for n
    using that unfolding handle_bits_def handle_slot_def m by (cases "n < 56") (auto simp: bit_simps)
  then show ?thesis by (intro bit_word_eqI) simp
qed

lemma named_lookup:
  assumes n: "names t t1 i obj kind" and inv: "hs_inv t1 ws" and h: "h = handle_bits (hs_id t1) i (sl_gen (hs_slots t1 ! unat i))"
  shows "loop_lookup t h k = None \<and> loop_lookup t1 g k = (if g = h then if k = kind then Some obj else None else loop_lookup t g k)"
proof -
  have f: "hs_id t1 = hs_id t" "i < hs_used t1" "hs_used t \<le> hs_used t1"
      "sl_obj (hs_slots t1 ! unat i) = Some obj" "sl_word (hs_slots t1 ! unat i) = kind"
      "\<And>h. loop_slot_of t h \<noteq> Some (unat i)"
      "\<And>k. k < unat (hs_used t) \<Longrightarrow> k \<noteq> unat i \<Longrightarrow> hs_slots t1 ! k = hs_slots t ! k"
      "\<And>k. k < unat (hs_used t1) \<Longrightarrow> k \<noteq> unat i \<Longrightarrow> k < unat (hs_used t)"
    using n by (auto simp: names_def)
  have small: "hs_id t1 < 256" "i < SLOTS_MAX" using inv f(2) by (auto simp: hs_inv_def)
  have h1: "loop_slot_of t1 h = Some (unat i)"
    unfolding h using inv f by (intro slot_of_handle) (auto simp: hs_inv_def)
  have hs: "handle_slot h = i" unfolding h by (rule handle_fields(2) [OF small])
  have none: "loop_slot_of t h = None"
    using f(6) [of h] slot_of_Some(4) [of t h] hs by (cases "loop_slot_of t h") auto
  show ?thesis
  proof (cases "g = h")
    case True
    then show ?thesis using h1 none f(4,5) by (simp add: loop_lookup_def)
  next
    case False
    have kept: "loop_lookup t1 g k = loop_lookup t g k" if "loop_slot_of t g \<noteq> None"
      using f slot_of_Some(1) that by (intro lookup_kept) metis+
    have "loop_slot_of t1 g = None" if "loop_slot_of t g = None"
    proof (cases "loop_slot_of t1 g")
      case (Some j)
      note S = slot_of_Some [OF Some]
      show ?thesis
      proof (cases "j = unat i")
        case True
        then have "handle_slot g = i" using S(4) by (simp add: word_unat_eq_iff)
        then have "handle_bits (drop_bit 56 g) (handle_slot g) (ucast g) = h" using S(3,5) True h by simp
        then show ?thesis using False handle_whole [of g] by simp
      next
        case other: False
        have u: "j < unat (hs_used t)" using f(8) [OF S(1) other] .
        have "hs_slots t1 ! j = hs_slots t ! j" using f(7) [OF u other] .
        moreover have "\<not> hs_used t \<le> handle_slot g" using u S(4) by (simp add: word_le_nat_alt)
        ultimately have "loop_slot_of t g = Some j" using S f(1) by (simp add: loop_slot_of_def)
        then show ?thesis using that by simp
      qed
    qed simp
    then show ?thesis using kept none False by (cases "loop_slot_of t g") (simp_all add: lookup_None)
  qed
qed

text \<open>
  C13.  A new handle, which named nothing before, names its object, for the kind it was made with and no other; every other handle names
  what it named, or nothing if it named nothing.  The only failure is ENOMEM, and then every handle names what it named, or nothing, and
  the free slots, the slots in use and what they hold are as they were: only the storage may have grown.
\<close>

theorem handle_names_object:
  assumes "hs_inv t vs" "loop_handle as junk t (Some obj) kind = (r, t', as')"
  shows "(\<exists>ws. hs_inv t' ws) \<and>
    (case r of
       Inl e \<Rightarrow> e = ENOMEM \<and> (\<exists>more. t' = t\<lparr>hs_slots := hs_slots t @ more\<rparr>) \<and> loop_lookup t' g k = loop_lookup t g k
     | Inr h \<Rightarrow> loop_lookup t h k = None \<and>
         loop_lookup t' g k = (if g = h then if k = kind then Some obj else None else loop_lookup t g k))"
  using assms(1)
proof (cases rule: loop_handle_cases [of t vs as junk obj kind])
  case (named t1 i ws as1)
  have r: "r = Inr (handle_bits (hs_id t1) i (sl_gen (hs_slots t1 ! unat i)))" "t' = t1"
    using assms(2) named(1) by auto
  show ?thesis using named_lookup [OF named(3,2) refl, of k g] named(2) r by auto
next
  case (full t1 as1 more)
  have r: "r = Inl ENOMEM" "t' = t1" using assms(2) full(1) by simp_all
  have "hs_slots t1 ! j = hs_slots t ! j" if "j < unat (hs_used t)" for j
    using that full(2) assms(1) by (simp add: hs_inv_def nth_append)
  then have "loop_slot_of t1 g = loop_slot_of t g"
    using full(2) by (cases "hs_used t \<le> handle_slot g") (simp_all add: loop_slot_of_def Let_def word_le_nat_alt not_le)
  moreover have "hs_slots t1 ! j = hs_slots t ! j" if "loop_slot_of t g = Some j" for j
    using slot_of_Some(1) [OF that] full(2) assms(1) by (simp add: hs_inv_def nth_append)
  ultimately have "loop_lookup t1 g k = loop_lookup t g k" by (auto simp: loop_lookup_def split: option.split)
  then show ?thesis using r full by auto
qed

definition example_handles :: handles where
  "example_handles = \<lparr> hs_id = 3, hs_slots = [\<lparr> sl_obj = Some 70, sl_gen = 8, sl_word = 1 \<rparr>],
     hs_used = 1, hs_vacant = 0 \<rparr>"

lemma example_handles_inv: "hs_inv example_handles []"
  by (simp add: hs_inv_def example_handles_def link_slot_def SLOTS_MAX_def word_le_nat_alt word_less_nat_alt)

lemma example_handles_lookup:
  "loop_slot_of example_handles (handle_bits 3 0 8) = Some 0"
  using slot_of_handle [of example_handles 0]
  by (simp add: example_handles_def SLOTS_MAX_def word_le_nat_alt word_less_nat_alt)

theorem handle_names_object_witness:
  "\<exists>r t' as'. loop_handle [] (\<lambda>i. \<lparr> sl_obj = None, sl_gen = 0, sl_word = 0 \<rparr>) example_handles (Some 71) 2 = (r, t', as') \<and>
     loop_lookup t' (handle_bits 3 0 8) 1 = Some 70"
proof -
  obtain r t' as' where h: "loop_handle [] (\<lambda>i. \<lparr> sl_obj = None, sl_gen = 0, sl_word = 0 \<rparr>) example_handles (Some 71) 2 = (r, t', as')"
    by (metis prod_cases3)
  have "loop_lookup example_handles (handle_bits 3 0 8) 1 = Some 70"
    using example_handles_lookup by (simp add: loop_lookup_def example_handles_def)
  then show ?thesis
    using handle_names_object [OF example_handles_inv h, of "handle_bits 3 0 8" 1] h by (cases r) (auto split: if_splits)
qed

text \<open>
  C12.  A handle that is forgotten names nothing, for any kind, through any sequence of further operations, until its own slot has been
  freed 2^32 - 2 times more, which is when the slot's generation has gone through all of its 2^32 - 1 values: no object made before is
  mistaken for the old one, however many handles of other slots are forgotten.
\<close>

theorem forgotten_handle_stays_dead:
  assumes "hs_inv t vs" "loop_lookup t h kind = Some obj"
    "slot_frees (unat (handle_slot h)) ops (loop_forget t h) < 2 ^ 32 - 2"
  shows "loop_lookup (table_run ops (loop_forget t h)) h k = None"
proof -
  obtain i where i: "loop_slot_of t h = Some i"
    using assms(2) by (auto simp: loop_lookup_def split: option.splits)
  have "slot_frees i ops (loop_forget t h) < 2 ^ 32 - 2" using assms(3) slot_of_Some(4) [OF i] by simp
  from forgotten_dead [OF assms(1) i this] show ?thesis by (rule lookup_None)
qed

theorem forgotten_handle_stays_dead_witness:
  "loop_lookup (table_run [Name [] (\<lambda>i. \<lparr> sl_obj = None, sl_gen = 0, sl_word = 0 \<rparr>) 72 1]
     (loop_forget example_handles (handle_bits 3 0 8))) (handle_bits 3 0 8) 1 = None"
proof -
  have "loop_lookup example_handles (handle_bits 3 0 8) 1 = Some 70"
    using example_handles_lookup by (simp add: loop_lookup_def example_handles_def)
  from forgotten_handle_stays_dead [OF example_handles_inv this] show ?thesis
    by (simp del: table_run.simps split: prod.split)
qed

text \<open>
  Forgetting a handle keeps the table well-formed and changes what no other slot's handle names; a handle that names
  nothing is forgotten without effect.
\<close>

theorem forget_frees_one_slot:
  assumes "hs_inv t vs"
  shows "(\<exists>ws. hs_inv (loop_forget t h) ws) \<and>
    (loop_slot_of t h = None \<longleftrightarrow> loop_forget t h = t) \<and>
    (loop_slot_of t g = None \<or> loop_slot_of t g = loop_slot_of t h \<or>
       loop_lookup (loop_forget t h) g k = loop_lookup t g k)"
proof (cases "loop_slot_of t h")
  case None
  then show ?thesis using assms loop_forget_none by auto
next
  case (Some i)
  have len: "i < length (hs_slots t)" using assms slot_of_Some(1) [OF Some] by (simp add: hs_inv_def)
  have "loop_forget t h \<noteq> t"
  proof
    assume "loop_forget t h = t"
    then have "sl_obj (hs_slots (loop_forget t h) ! i) = sl_obj (hs_slots t ! i)" by simp
    then show False using Some len slot_of_Some(2) [OF Some] by (simp add: loop_forget_def Let_def)
  qed
  moreover have "loop_lookup (loop_forget t h) g k = loop_lookup t g k"
    if "loop_slot_of t g \<noteq> None" "loop_slot_of t g \<noteq> Some i"
    using that Some by (intro lookup_kept) (auto simp: loop_forget_def Let_def)
  ultimately show ?thesis using loop_forget_inv [OF assms Some] Some by auto
qed

theorem forget_frees_one_slot_witness:
  "loop_forget example_handles (handle_bits 3 0 8) \<noteq> example_handles"
  using forget_frees_one_slot [OF example_handles_inv, of "handle_bits 3 0 8" 0 0]
    example_handles_lookup by simp

end
