(* ===== verification/Timers.thy ===== *)
theory Timers
  imports Util_Io
begin

text \<open>
  The timers of an event loop (\<^verbatim>\<open>loop_timer_set()\<close>, \<^verbatim>\<open>loop_timer_stop()\<close>, \<^verbatim>\<open>loop_fire()\<close> and their
  helpers in \<^verbatim>\<open>src/loop.c\<close>): a heap of arity 4 of pointers to timers, ordered by the due times, in
  which every timer knows its own place.

  The lemmas show that the sifting restores the order from a violation at one place, that setting and
  stopping keep the order and the places and change the set of the armed timers as they
  say, that a stale place is refused, and that a turn fires due timers alone, the earliest first, and
  leaves none due unless its bound or an exit stopped it.
\<close>

definition HEAP_MIN :: nat where "HEAP_MIN = 64"
definition TIMERS :: nat where "TIMERS = 64"

section \<open>The heap\<close>

record timer =
  tm_due :: u64
  tm_fn :: bool   \<comment> \<open>the timer has a function\<close>
  tm_slot :: nat  \<comment> \<open>its index in the heap plus 1, or 0\<close>

record theap =
  th_heap :: "ref option list"  \<comment> \<open>the storage, \<open>heap_cap\<close> long\<close>
  th_n :: nat                   \<comment> \<open>\<open>timers\<close>: the length of the heap\<close>
  th_mem :: "ref \<Rightarrow> timer"

abbreviation due_of :: "theap \<Rightarrow> ref \<Rightarrow> u64" where
  "due_of t x \<equiv> tm_due (th_mem t x)"

abbreviation slot_of :: "theap \<Rightarrow> ref \<Rightarrow> nat" where
  "slot_of t x \<equiv> tm_slot (th_mem t x)"

abbreviation heap_at :: "theap \<Rightarrow> nat \<Rightarrow> ref" where
  "heap_at t i \<equiv> the (th_heap t ! i)"

definition set_slot :: "ref \<Rightarrow> nat \<Rightarrow> theap \<Rightarrow> theap" where
  "set_slot x i t = t\<lparr>th_mem := (th_mem t)(x := (th_mem t x)\<lparr>tm_slot := i\<rparr>)\<rparr>"

definition set_due :: "ref \<Rightarrow> u64 \<Rightarrow> theap \<Rightarrow> theap" where
  "set_due x due t = t\<lparr>th_mem := (th_mem t)(x := (th_mem t x)\<lparr>tm_due := due\<rparr>)\<rparr>"

definition loop_heap_put :: "theap \<Rightarrow> ref \<Rightarrow> nat \<Rightarrow> theap" where
  "loop_heap_put t timer i = set_slot timer (i + 1) (t\<lparr>th_heap := (th_heap t)[i := Some timer]\<rparr>)"

lemma put_simps [simp]:
  "th_n (loop_heap_put t x i) = th_n t"
  "th_heap (loop_heap_put t x i) = (th_heap t)[i := Some x]"
  "due_of (loop_heap_put t x i) y = due_of t y"
  "tm_fn (th_mem (loop_heap_put t x i) y) = tm_fn (th_mem t y)"
  "slot_of (loop_heap_put t x i) y = (if y = x then i + 1 else slot_of t y)"
  by (simp_all add: loop_heap_put_def set_slot_def)

function sift_up :: "theap \<Rightarrow> ref \<Rightarrow> nat \<Rightarrow> theap \<times> nat" where
  "sift_up t timer i =
     (if i \<noteq> 0 \<and> due_of t (heap_at t ((i - 1) div 4)) > due_of t timer
      then sift_up (loop_heap_put t (heap_at t ((i - 1) div 4)) i) timer ((i - 1) div 4)
      else (t, i))"
  by pat_completeness auto
termination by (relation "measure (\<lambda>(t, x, i). i)") auto

declare sift_up.simps [simp del]

text \<open>The least of the children of a place, the first of which is \<open>c\<close>.\<close>

definition least_child :: "theap \<Rightarrow> nat \<Rightarrow> nat" where
  "least_child t c =
     (let end' = (if c + 4 < th_n t then c + 4 else th_n t)
      in foldl (\<lambda>c k. if due_of t (heap_at t k) < due_of t (heap_at t c) then k else c) c [c + 1..<end'])"

lemma foldl_least:
  "\<exists>b. foldl (\<lambda>c k. if f k < f c then k else c) c ks = b \<and> b \<in> set (c # ks) \<and>
     (\<forall>k \<in> set (c # ks). (f b :: 'a::linorder) \<le> f k)"
proof (induction ks arbitrary: c)
  case (Cons k ks)
  let ?c = "if f k < f c then k else c"
  obtain b where b: "foldl (\<lambda>c k. if f k < f c then k else c) ?c ks = b" "b \<in> set (?c # ks)"
      "\<forall>k \<in> set (?c # ks). f b \<le> f k"
    using Cons.IH [of ?c] by blast
  then have "f b \<le> f c" "f b \<le> f k" by (auto split: if_splits)
  with b show ?case by (auto split: if_splits)
qed simp

lemma least_child_spec:
  assumes "c < th_n t"
  shows "c \<le> least_child t c" "least_child t c < c + 4" "least_child t c < th_n t"
    "c \<le> k \<Longrightarrow> k < c + 4 \<Longrightarrow> k < th_n t \<Longrightarrow>
       due_of t (heap_at t (least_child t c)) \<le> due_of t (heap_at t k)"
proof -
  let ?e = "if c + 4 < th_n t then c + 4 else th_n t"
  have s: "set (c # [c + 1..<?e]) = {c..<?e}" using assms by auto
  have "least_child t c \<in> {c..<?e} \<and>
      (\<forall>k \<in> {c..<?e}. due_of t (heap_at t (least_child t c)) \<le> due_of t (heap_at t k))"
    using foldl_least [of "\<lambda>k. due_of t (heap_at t k)" c "[c + 1..<?e]"]
    unfolding s least_child_def Let_def by blast
  then show "c \<le> least_child t c" "least_child t c < c + 4" "least_child t c < th_n t"
    "c \<le> k \<Longrightarrow> k < c + 4 \<Longrightarrow> k < th_n t \<Longrightarrow>
       due_of t (heap_at t (least_child t c)) \<le> due_of t (heap_at t k)"
    by (auto split: if_splits)
qed

function sift_down :: "theap \<Rightarrow> ref \<Rightarrow> nat \<Rightarrow> theap \<times> nat" where
  "sift_down t timer i =
     (if 4 * i + 1 < th_n t then
        let c = least_child t (4 * i + 1)
        in if due_of t (heap_at t c) \<ge> due_of t timer then (t, i)
           else sift_down (loop_heap_put t (heap_at t c) i) timer c
      else (t, i))"
  by pat_completeness auto
termination
proof (relation "measure (\<lambda>(t, x, i). th_n t - i)")
  fix t :: theap and timer i c
  assume "4 * i + 1 < th_n t" "c = least_child t (4 * i + 1)"
  then show "((loop_heap_put t (heap_at t c) i, timer, c), t, timer, i)
      \<in> measure (\<lambda>(t, x, i). th_n t - i)"
    using least_child_spec(1,3) [of "4 * i + 1" t] by simp
qed simp

declare sift_down.simps [simp del]

definition loop_heap_fix :: "theap \<Rightarrow> ref \<Rightarrow> theap" where
  "loop_heap_fix t timer =
     (let i = slot_of t timer - 1;
          (t, i) = sift_up t timer i;
          (t, i) = sift_down t timer i
      in loop_heap_put t timer i)"

text \<open>\<open>junk\<close> is what \<^verbatim>\<open>realloc()\<close> leaves in the new places.\<close>

definition loop_timer_set ::
    "allocs \<Rightarrow> (nat \<Rightarrow> ref option) \<Rightarrow> bool \<Rightarrow> theap \<Rightarrow> ref option \<Rightarrow> u64 \<Rightarrow> errno option \<times> theap \<times> allocs" where
  "loop_timer_set as junk loop t timer due =
     (case timer of
        None \<Rightarrow> (Some EFAULT, t, as)
      | Some x \<Rightarrow>
          if \<not> loop \<or> \<not> tm_fn (th_mem t x) then (Some EFAULT, t, as)
          else if slot_of t x > th_n t then (Some EINVAL, t, as)
          else if slot_of t x = 0 then
            let n = (if th_n t < HEAP_MIN then HEAP_MIN else th_n t + 1);
                len = length (th_heap t);
                (e, cap, as) = util_grow as (of_nat len) (of_nat n) 8;
                t = t\<lparr>th_heap := th_heap t @ map junk [len..<unat cap]\<rparr>
            in if e \<noteq> None then (Some ENOMEM, t, as)
               else let t = loop_heap_put t x (th_n t);
                        t = t\<lparr>th_n := th_n t + 1\<rparr>
                    in (None, loop_heap_fix (set_due x due t) x, as)
          else if th_heap t ! (slot_of t x - 1) \<noteq> Some x then (Some EINVAL, t, as)
          else (None, loop_heap_fix (set_due x due t) x, as))"

definition loop_timer_stop :: "bool \<Rightarrow> theap \<Rightarrow> ref option \<Rightarrow> errno option \<times> theap" where
  "loop_timer_stop loop t timer =
     (case timer of
        None \<Rightarrow> (Some EFAULT, t)
      | Some x \<Rightarrow>
          if \<not> loop then (Some EFAULT, t)
          else if slot_of t x = 0 then (None, t)
          else if slot_of t x > th_n t \<or> th_heap t ! (slot_of t x - 1) \<noteq> Some x then (Some EINVAL, t)
          else
            let i = slot_of t x - 1;
                t = set_slot x 0 t;
                t = t\<lparr>th_n := th_n t - 1\<rparr>;
                last = heap_at t (th_n t);
                t = t\<lparr>th_heap := (th_heap t)[th_n t := None]\<rparr>
            in (None, if i < th_n t then loop_heap_fix (loop_heap_put t last i) last else t))"

text \<open>
  \<^verbatim>\<open>loop_fire()\<close>, for what is left of its bound.  The function of a timer is an argument: it may
  set or stop any timer, and ask the loop to exit.  The result has the timers that fired, each with the
  time by which it was late.
\<close>

fun fire_loop ::
    "nat \<Rightarrow> u64 \<Rightarrow> (ref \<Rightarrow> bool \<times> theap \<Rightarrow> bool \<times> theap) \<Rightarrow> bool \<times> theap \<Rightarrow> (ref \<times> u64) list \<times> bool \<times> theap" where
  "fire_loop 0 now fn (stop, t) = ([], stop, t)"
| "fire_loop (Suc left') now fn (stop, t) =
     (if th_n t \<noteq> 0 \<and> \<not> stop then
        let timer = heap_at t 0
        in if due_of t timer > now then ([], stop, t)
           else
             let late = now - due_of t timer;
                 t = loop_heap_fix (set_due timer (- 1) t) timer;
                 (fired, st) = fire_loop left' now fn (fn timer (stop, t))
             in ((timer, late) # fired, st)
      else ([], stop, t))"

definition loop_fire ::
    "u64 \<Rightarrow> (ref \<Rightarrow> bool \<times> theap \<Rightarrow> bool \<times> theap) \<Rightarrow> bool \<times> theap \<Rightarrow> (ref \<times> u64) list \<times> bool \<times> theap" where
  "loop_fire now fn st = fire_loop TIMERS now fn st"

section \<open>Heap order\<close>

text \<open>
  \<open>D\<close> gives the due time at each place of a heap of \<open>n\<close>.  The order may be violated around the
  place \<open>i\<close> alone, whose children come after its parent.
\<close>

abbreviation parent :: "nat \<Rightarrow> nat" where
  "parent j \<equiv> (j - 1) div 4"

definition heap_ordered :: "nat \<Rightarrow> (nat \<Rightarrow> u64) \<Rightarrow> bool" where
  "heap_ordered n D \<longleftrightarrow> (\<forall>j. 0 < j \<longrightarrow> j < n \<longrightarrow> D (parent j) \<le> D j)"

definition ordered_but :: "nat \<Rightarrow> (nat \<Rightarrow> u64) \<Rightarrow> nat \<Rightarrow> bool" where
  "ordered_but n D i \<longleftrightarrow>
     (\<forall>j. 0 < j \<longrightarrow> j < n \<longrightarrow> j \<noteq> i \<longrightarrow> parent j \<noteq> i \<longrightarrow> D (parent j) \<le> D j) \<and>
     (\<forall>j. 0 < j \<longrightarrow> j < n \<longrightarrow> parent j = i \<longrightarrow> 0 < i \<longrightarrow> D (parent i) \<le> D j)"

lemma parent_less: "0 < j \<Longrightarrow> parent j < j"
  by simp

lemma parent_child: "parent j = i \<Longrightarrow> 0 < j \<Longrightarrow> 4 * i + 1 \<le> j \<and> j < 4 * i + 1 + 4"
  by auto

lemma ordered_imp_but: "heap_ordered n D \<Longrightarrow> i < n \<Longrightarrow> ordered_but n (D(i := d)) i"
proof -
  assume h: "heap_ordered n D" and i: "i < n"
  have "D (parent i) \<le> D j" if "0 < j" "j < n" "parent j = i" "0 < i" for j
  proof -
    have "D (parent i) \<le> D i" using h that(4) i unfolding heap_ordered_def by blast
    moreover have "D (parent j) \<le> D j" using h that(1,2) unfolding heap_ordered_def by blast
    ultimately show ?thesis unfolding that(3) by (rule order_trans)
  qed
  moreover have "parent i \<noteq> i" if "0 < i" using parent_less [OF that] by simp
  moreover have "j \<noteq> i" if "0 < j" "parent j = i" for j using parent_less [OF that(1)] that(2) by simp
  ultimately show ?thesis using h by (auto simp: ordered_but_def heap_ordered_def)
qed

lemma ordered_but_cong:
  assumes "\<And>j. j < n \<Longrightarrow> D j = D' j" "i < n" "ordered_but n D i"
  shows "ordered_but n D' i"
proof -
  have p: "parent j < n" if "j < n" for j using that by (metis div_le_dividend diff_le_self le_less_trans)
  show ?thesis using assms p unfolding ordered_but_def by metis
qed

lemma ordered_but_mono: "ordered_but n D i \<Longrightarrow> m \<le> n \<Longrightarrow> ordered_but m D i"
  by (simp add: ordered_but_def)

lemma ordered_but_up:
  assumes o: "ordered_but n D i" and i: "0 < i" "i < n" and gt: "D (parent i) > D i"
  shows "ordered_but n (D(i := D (parent i), parent i := D i)) (parent i)"
  unfolding ordered_but_def
proof (intro conjI allI impI)
  let ?p = "parent i" and ?D = "D(i := D (parent i), parent i := D i)"
  have p: "?p < i" using parent_less [OF i(1)] .
  have o1: "\<And>j. 0 < j \<Longrightarrow> j < n \<Longrightarrow> j \<noteq> i \<Longrightarrow> parent j \<noteq> i \<Longrightarrow> D (parent j) \<le> D j"
    and o2: "\<And>j. 0 < j \<Longrightarrow> j < n \<Longrightarrow> parent j = i \<Longrightarrow> D ?p \<le> D j"
    using o i by (auto simp: ordered_but_def)
  fix j assume j: "0 < j" "j < n"
  show "?D (parent j) \<le> ?D j" if "j \<noteq> ?p" "parent j \<noteq> ?p"
  proof (cases "parent j = i")
    case True
    then have "j \<noteq> i" using parent_less [OF j(1)] by auto
    then show ?thesis using True o2 [OF j True] that p by simp
  next
    case False
    moreover have "j \<noteq> i" using that by auto
    ultimately show ?thesis using o1 [OF j] that by simp
  qed
  show "?D (parent ?p) \<le> ?D j" if "parent j = ?p" "0 < ?p"
  proof -
    have pp: "parent ?p < ?p" by (rule parent_less [OF that(2)])
    have up: "D (parent ?p) \<le> D ?p" using o1 [of ?p] that(2) p pp i(2) by auto
    have Dpp: "?D (parent ?p) = D (parent ?p)" using pp p by simp
    have jp: "j \<noteq> ?p" using parent_less [OF j(1)] that(1) by auto
    show ?thesis
    proof (cases "j = i")
      case True
      then show ?thesis using up Dpp p by simp
    next
      case False
      have "D ?p \<le> D j" using o1 [OF j False] that(1) p by auto
      then show ?thesis using up Dpp False jp by simp
    qed
  qed
qed

lemma ordered_but_down:
  assumes o: "ordered_but n D i" and i: "i < n" and up: "0 < i \<Longrightarrow> D (parent i) \<le> D i"
    and c: "0 < c" "c < n" "parent c = i" and lt: "D c < D i"
    and least: "\<And>k. 0 < k \<Longrightarrow> k < n \<Longrightarrow> parent k = i \<Longrightarrow> D c \<le> D k"
  shows "ordered_but n (D(i := D c, c := D i)) c"
    "(D(i := D c, c := D i)) (parent c) \<le> (D(i := D c, c := D i)) c"
proof -
  let ?D = "D(i := D c, c := D i)"
  have ic: "i < c" using parent_less [OF c(1)] c(3) by simp
  have o1: "\<And>j. 0 < j \<Longrightarrow> j < n \<Longrightarrow> j \<noteq> i \<Longrightarrow> parent j \<noteq> i \<Longrightarrow> D (parent j) \<le> D j"
    and o2: "\<And>j. 0 < j \<Longrightarrow> j < n \<Longrightarrow> parent j = i \<Longrightarrow> 0 < i \<Longrightarrow> D (parent i) \<le> D j"
    using o by (auto simp: ordered_but_def)
  show "?D (parent c) \<le> ?D c" using c(3) ic lt by simp
  show "ordered_but n ?D c"
    unfolding ordered_but_def
  proof (intro conjI allI impI)
    fix j assume j: "0 < j" "j < n"
    show "?D (parent j) \<le> ?D j" if "j \<noteq> c" "parent j \<noteq> c"
    proof (cases "j = i")
      case True
      have "parent i < i" using parent_less j(1) True by blast
      then show ?thesis using True o2 [OF c] j ic by simp
    next
      case False
      show ?thesis
      proof (cases "parent j = i")
        case True
        then show ?thesis using least [OF j True] that False ic by simp
      next
        case pj: False
        then show ?thesis using o1 [OF j False pj] that False by simp
      qed
    qed
    show "?D (parent c) \<le> ?D j" if "parent j = c" "0 < c"
    proof -
      have jc: "c < j" using parent_less [OF j(1)] that by simp
      have "D c \<le> D j" using o1 [OF j] that ic jc by auto
      then show ?thesis using c(3) jc ic by simp
    qed
  qed
qed

lemma ordered_but_done:
  assumes o: "ordered_but n D i" and up: "0 < i \<Longrightarrow> D (parent i) \<le> D i"
    and down: "\<And>k. 0 < k \<Longrightarrow> k < n \<Longrightarrow> parent k = i \<Longrightarrow> D i \<le> D k"
  shows "heap_ordered n D"
  unfolding heap_ordered_def
proof (intro allI impI)
  fix j assume j: "0 < j" "j < n"
  show "D (parent j) \<le> D j"
  proof (cases "j = i \<or> parent j = i")
    case True
    then show ?thesis using up down [OF j] j by auto
  next
    case False
    then show ?thesis using o j by (simp add: ordered_but_def)
  qed
qed

lemma heap_least:
  assumes h: "heap_ordered n D" and j: "j < n"
  shows "D 0 \<le> D j"
  using j
proof (induction j rule: less_induct)
  case (less j)
  show ?case
  proof (cases "j = 0")
    case False
    then have "D (parent j) \<le> D j" "parent j < j" using h less.prems by (auto simp: heap_ordered_def)
    moreover have "D 0 \<le> D (parent j)" using less.IH calculation(2) less.prems by simp
    ultimately show ?thesis by (metis order_trans)
  qed simp
qed

section \<open>The heap with a hole\<close>

text \<open>
  While a timer \<open>x\<close> is sifted, its place \<open>i\<close> is a hole and the other places hold the timers \<open>E\<close>, each of
  which knows its place.  \<open>dues t x i\<close> are the due times with \<open>x\<close> in the hole.
\<close>

definition hole :: "theap \<Rightarrow> ref \<Rightarrow> nat \<Rightarrow> ref set \<Rightarrow> bool" where
  "hole t x i E \<longleftrightarrow>
     i < th_n t \<and> th_n t \<le> length (th_heap t) \<and> x \<notin> E \<and>
     (\<forall>j < th_n t. j \<noteq> i \<longrightarrow> (\<exists>y \<in> E. th_heap t ! j = Some y \<and> slot_of t y = j + 1)) \<and>
     (\<forall>y \<in> E. \<exists>j < th_n t. j \<noteq> i \<and> th_heap t ! j = Some y)"

definition dues :: "theap \<Rightarrow> ref \<Rightarrow> nat \<Rightarrow> nat \<Rightarrow> u64" where
  "dues t x i = (\<lambda>j. if j = i then due_of t x else due_of t (heap_at t j))"

text \<open>What sifting leaves alone.\<close>

definition same_but_places :: "ref set \<Rightarrow> theap \<Rightarrow> theap \<Rightarrow> bool" where
  "same_but_places E t t' \<longleftrightarrow>
     th_n t' = th_n t \<and> length (th_heap t') = length (th_heap t) \<and>
     (\<forall>y. due_of t' y = due_of t y \<and> tm_fn (th_mem t' y) = tm_fn (th_mem t y)) \<and>
     (\<forall>y. y \<notin> E \<longrightarrow> slot_of t' y = slot_of t y)"

lemma same_refl [simp]: "same_but_places E t t"
  by (simp add: same_but_places_def)

lemma same_trans: "same_but_places E t u \<Longrightarrow> same_but_places E u v \<Longrightarrow> same_but_places E t v"
  by (simp add: same_but_places_def)

lemma hole_move:
  assumes h: "hole t x i E" and k: "k < th_n t" "k \<noteq> i"
  shows "hole (loop_heap_put t (heap_at t k) i) x k E"
    "dues (loop_heap_put t (heap_at t k) i) x k = (dues t x i)(i := dues t x i k, k := dues t x i i)"
    "same_but_places E t (loop_heap_put t (heap_at t k) i)"
proof -
  obtain y where y: "y \<in> E" "th_heap t ! k = Some y" "slot_of t y = k + 1"
    using h k by (auto simp: hole_def)
  have i: "i < length (th_heap t)" and xy: "x \<noteq> y" using h y by (auto simp: hole_def)
  have uniq: "j = k" if "j < th_n t" "j \<noteq> i" "th_heap t ! j = Some y" for j
    using h that y by (auto simp: hole_def)
  show "hole (loop_heap_put t (heap_at t k) i) x k E"
    unfolding hole_def
  proof (intro conjI allI impI ballI)
    show "\<exists>z\<in>E. th_heap (loop_heap_put t (heap_at t k) i) ! j = Some z \<and>
        slot_of (loop_heap_put t (heap_at t k) i) z = j + 1"
      if j: "j < th_n (loop_heap_put t (heap_at t k) i)" "j \<noteq> k" for j
    proof (cases "j = i")
      case True
      then show ?thesis using y i by auto
    next
      case False
      then obtain z where "z \<in> E" "th_heap t ! j = Some z" "slot_of t z = j + 1"
        using h j by (auto simp: hole_def)
      moreover have "z \<noteq> y" using calculation uniq [of j] j False by auto
      ultimately show ?thesis using False y by auto
    qed
    show "\<exists>j<th_n (loop_heap_put t (heap_at t k) i). j \<noteq> k \<and>
        th_heap (loop_heap_put t (heap_at t k) i) ! j = Some z" if z: "z \<in> E" for z
    proof (cases "z = y")
      case True
      then show ?thesis using y i h k by (intro exI [of _ i]) (auto simp: hole_def)
    next
      case False
      obtain j where "j < th_n t" "j \<noteq> i" "th_heap t ! j = Some z" using h z by (auto simp: hole_def)
      then show ?thesis using False y by (intro exI [of _ j]) auto
    qed
  qed (use h k in \<open>auto simp: hole_def\<close>)
  show "dues (loop_heap_put t (heap_at t k) i) x k = (dues t x i)(i := dues t x i k, k := dues t x i i)"
    using i k by (auto simp: dues_def fun_eq_iff)
  show "same_but_places E t (loop_heap_put t (heap_at t k) i)"
    using y by (simp add: same_but_places_def)
qed

lemma sift_up_spec:
  assumes "hole t x i E" "ordered_but (th_n t) (dues t x i) i" "sift_up t x i = (t', i')"
  shows "hole t' x i' E \<and> ordered_but (th_n t) (dues t' x i') i' \<and> same_but_places E t t' \<and>
    (0 < i' \<longrightarrow> dues t' x i' (parent i') \<le> dues t' x i' i')"
  using assms
proof (induction t x i arbitrary: t' i' rule: sift_up.induct)
  case (1 t x i)
  have i: "i < th_n t" using "1.prems"(1) by (simp add: hole_def)
  show ?case
  proof (cases "i \<noteq> 0 \<and> due_of t (heap_at t (parent i)) > due_of t x")
    case False
    then have "t' = t" "i' = i" using "1.prems"(3) by (auto simp: sift_up.simps [of t x i])
    moreover have "parent i \<noteq> i" if "0 < i" using parent_less [OF that] by simp
    ultimately show ?thesis using "1.prems"(1,2) False by (auto simp: dues_def not_less)
  next
    case True
    then have p: "parent i < i" "parent i \<noteq> i" using parent_less [of i] by auto
    let ?u = "loop_heap_put t (heap_at t (parent i)) i"
    have D: "dues t x i (parent i) = due_of t (heap_at t (parent i))" "dues t x i i = due_of t x"
      using p by (simp_all add: dues_def)
    note m = hole_move [OF "1.prems"(1) less_trans [OF p(1) i] p(2)]
    have "0 < i" "dues t x i i < dues t x i (parent i)" using True D by simp_all
    then have "ordered_but (th_n ?u) (dues ?u x (parent i)) (parent i)"
      unfolding m(2) put_simps by (intro ordered_but_up "1.prems"(2) i)
    moreover have "sift_up ?u x (parent i) = (t', i')"
      using True "1.prems"(3) by (simp add: sift_up.simps [of t x i])
    ultimately show ?thesis using "1.IH" [OF True m(1)] same_trans [OF m(3)] by simp
  qed
qed

lemma sift_down_spec:
  assumes "hole t x i E" "ordered_but (th_n t) (dues t x i) i"
    "0 < i \<longrightarrow> dues t x i (parent i) \<le> dues t x i i" "sift_down t x i = (t', i')"
  shows "hole t' x i' E \<and> heap_ordered (th_n t) (dues t' x i') \<and> same_but_places E t t'"
  using assms
proof (induction t x i arbitrary: t' i' rule: sift_down.induct)
  case (1 t x i)
  have i: "i < th_n t" using "1.prems"(1) by (simp add: hole_def)
  define c where "c = least_child t (4 * i + 1)"
  show ?case
  proof (cases "4 * i + 1 < th_n t \<and> due_of t (heap_at t c) < due_of t x")
    case True
    then have lt: "4 * i + 1 < th_n t" by simp
    have c: "4 * i + 1 \<le> c" "c < 4 * i + 1 + 4" "c < th_n t"
      using least_child_spec [OF lt] by (simp_all add: c_def)
    then have pc: "parent c = i" "0 < c" "c \<noteq> i" by auto
    let ?u = "loop_heap_put t (heap_at t c) i"
    have D: "dues t x i c = due_of t (heap_at t c)" "dues t x i i = due_of t x"
      using pc by (simp_all add: dues_def)
    have least: "dues t x i c \<le> dues t x i k" if "0 < k" "k < th_n t" "parent k = i" for k
      using least_child_spec(4) [OF lt, of k] parent_child [OF that(3,1)] that(2) D(1) pc
      by (simp add: dues_def c_def)
    have "dues t x i c < dues t x i i" using True D by simp
    note od = ordered_but_down [OF "1.prems"(2) i _ pc(2) c(3) pc(1) this least]
    note m = hole_move [OF "1.prems"(1) c(3) pc(3)]
    have "ordered_but (th_n ?u) (dues ?u x c) c" "dues ?u x c (parent c) \<le> dues ?u x c c"
      unfolding m(2) using od "1.prems"(3) by (simp_all del: fun_upd_apply)
    moreover have "sift_down ?u x c = (t', i')"
      using True "1.prems"(4) by (simp add: sift_down.simps [of t x i] c_def Let_def not_le [symmetric])
    moreover have "\<not> due_of t x \<le> due_of t (heap_at t c)" using True by (simp add: not_le c_def)
    ultimately show ?thesis using "1.IH" [OF lt c_def _ m(1)] same_trans [OF m(3)] by simp
  next
    case False
    then have r: "t' = t" "i' = i"
      using "1.prems"(4) by (auto simp: sift_down.simps [of t x i] c_def Let_def split: if_splits)
    have down: "dues t x i i \<le> dues t x i k" if k: "0 < k" "k < th_n t" "parent k = i" for k
    proof -
      have lt: "4 * i + 1 < th_n t" using parent_child [OF k(3,1)] k(2) by simp
      have "k \<noteq> i" using parent_less [OF k(1)] k(3) by simp
      then have "due_of t (heap_at t c) \<le> dues t x i k"
        using least_child_spec(4) [OF lt, of k] parent_child [OF k(3,1)] k(2)
        by (simp add: dues_def c_def)
      moreover have "due_of t x \<le> due_of t (heap_at t c)" using False lt by (simp add: not_less)
      ultimately show ?thesis by (simp add: dues_def)
    qed
    show ?thesis using r "1.prems"(1-3) ordered_but_done [OF "1.prems"(2) _ down] by simp
  qed
qed

section \<open>The timers armed\<close>

text \<open>The heap holds the timers \<open>T\<close>: each place a timer that knows it, in heap order.\<close>

definition th_ok :: "theap \<Rightarrow> ref set \<Rightarrow> bool" where
  "th_ok t T \<longleftrightarrow>
     th_n t \<le> length (th_heap t) \<and> length (th_heap t) * 8 < 2 ^ 64 \<and>
     (\<forall>j < th_n t. \<exists>y \<in> T. th_heap t ! j = Some y \<and> slot_of t y = j + 1) \<and>
     (\<forall>y \<in> T. \<exists>j < th_n t. th_heap t ! j = Some y) \<and>
     heap_ordered (th_n t) (\<lambda>j. due_of t (heap_at t j))"

lemma loop_heap_fix_spec:
  assumes h: "hole t x i E" and s: "slot_of t x = i + 1" and o: "ordered_but (th_n t) (dues t x i) i"
    and len: "length (th_heap t) * 8 < 2 ^ 64"
  shows "th_ok (loop_heap_fix t x) (insert x E)" "same_but_places (insert x E) t (loop_heap_fix t x)"
proof -
  obtain t1 i1 where u: "sift_up t x i = (t1, i1)" by force
  note us = sift_up_spec [OF h o u]
  have n1: "th_n t1 = th_n t" using us by (simp add: same_but_places_def)
  obtain t2 i2 where d: "sift_down t1 x i1 = (t2, i2)" by force
  have ds: "hole t2 x i2 E" "heap_ordered (th_n t) (dues t2 x i2)" "same_but_places E t1 t2"
    using sift_down_spec [of t1 x i1 E t2 i2] us d n1 by auto
  have same: "same_but_places E t t2" using same_trans us ds(3) by blast
  then have n2: "th_n t2 = th_n t" "length (th_heap t2) = length (th_heap t)"
    by (simp_all add: same_but_places_def)
  have f: "loop_heap_fix t x = loop_heap_put t2 x i2"
    using u d s by (simp add: loop_heap_fix_def Let_def)
  have i2: "i2 < length (th_heap t2)" using ds(1) by (simp add: hole_def)
  have ho: "heap_ordered (th_n t2) (\<lambda>j. due_of t2 (the ((th_heap t2)[i2 := Some x] ! j)))"
  proof -
    have "(\<lambda>j. due_of t2 (the ((th_heap t2)[i2 := Some x] ! j))) = dues t2 x i2"
      using i2 by (auto simp: dues_def fun_eq_iff nth_list_update)
    then show ?thesis using ds(2) n2 by simp
  qed
  have places: "\<exists>y\<in>insert x E. th_heap (loop_heap_put t2 x i2) ! j = Some y \<and>
      slot_of (loop_heap_put t2 x i2) y = j + 1" if j: "j < th_n t2" for j
  proof (cases "j = i2")
    case True
    then show ?thesis using i2 by simp
  next
    case False
    then obtain y where "y \<in> E" "th_heap t2 ! j = Some y" "slot_of t2 y = j + 1"
      using ds(1) j by (auto simp: hole_def)
    moreover have "x \<notin> E" using h by (simp add: hole_def)
    ultimately show ?thesis using False by auto
  qed
  have here: "\<exists>j<th_n t2. th_heap (loop_heap_put t2 x i2) ! j = Some y" if y: "y \<in> insert x E" for y
  proof (cases "y = x")
    case True
    then show ?thesis using ds(1) i2 by (intro exI [of _ i2]) (auto simp: hole_def)
  next
    case False
    then obtain j where "j < th_n t2" "j \<noteq> i2" "th_heap t2 ! j = Some y"
      using ds(1) y by (auto simp: hole_def)
    then show ?thesis by (intro exI [of _ j]) auto
  qed
  show "th_ok (loop_heap_fix t x) (insert x E)"
    unfolding f th_ok_def using ds(1) n2 len places here ho by (simp add: hole_def)
  show "same_but_places (insert x E) t (loop_heap_fix t x)"
    unfolding f using same by (simp add: same_but_places_def)
qed

section \<open>Setting and stopping\<close>

lemma th_ok_at:
  assumes "th_ok t T" "x \<in> T"
  shows "slot_of t x \<noteq> 0" "slot_of t x - 1 < th_n t" "th_heap t ! (slot_of t x - 1) = Some x"
proof -
  obtain j where j: "j < th_n t" "th_heap t ! j = Some x" using assms by (auto simp: th_ok_def)
  then have "slot_of t x = j + 1" using assms(1) by (auto simp: th_ok_def)
  with j show "slot_of t x \<noteq> 0" "slot_of t x - 1 < th_n t" "th_heap t ! (slot_of t x - 1) = Some x"
    by simp_all
qed

lemma th_ok_in:
  assumes "th_ok t T" "i < th_n t" "th_heap t ! i = Some x"
  shows "x \<in> T" "slot_of t x = i + 1"
  using assms by (auto simp: th_ok_def)

lemma th_ok_place_eq:
  assumes "th_ok t T" "i < th_n t" "j < th_n t" "th_heap t ! i = th_heap t ! j"
  shows "i = j"
proof -
  obtain y where "th_heap t ! i = Some y" "slot_of t y = i + 1"
    using assms(1,2) unfolding th_ok_def by blast
  moreover obtain z where "th_heap t ! j = Some z" "slot_of t z = j + 1"
    using assms(1,3) unfolding th_ok_def by blast
  ultimately show ?thesis using assms(4) by simp
qed

text \<open>Taking a timer out of its place leaves a hole there.\<close>

lemma th_ok_hole:
  assumes t: "th_ok t T" and i: "i < th_n t" "th_heap t ! i = Some x"
  shows "hole t x i (T - {x})"
  unfolding hole_def
proof (intro conjI allI impI ballI)
  show "\<exists>y\<in>T - {x}. th_heap t ! j = Some y \<and> slot_of t y = j + 1" if j: "j < th_n t" "j \<noteq> i" for j
  proof -
    obtain y where y: "y \<in> T" "th_heap t ! j = Some y" "slot_of t y = j + 1"
      using t j by (auto simp: th_ok_def)
    moreover have "y \<noteq> x" using y(3) th_ok_in(2) [OF t i] j(2) by auto
    ultimately show ?thesis by blast
  qed
  show "\<exists>j<th_n t. j \<noteq> i \<and> th_heap t ! j = Some y" if y: "y \<in> T - {x}" for y
  proof -
    obtain j where "j < th_n t" "th_heap t ! j = Some y" using t y by (auto simp: th_ok_def)
    moreover have "j \<noteq> i" using calculation i y by auto
    ultimately show ?thesis by blast
  qed
qed (use t i in \<open>auto simp: th_ok_def\<close>)

lemma set_due_simps [simp]:
  "th_n (set_due x d t) = th_n t" "th_heap (set_due x d t) = th_heap t"
  "due_of (set_due x d t) y = (if y = x then d else due_of t y)"
  "tm_fn (th_mem (set_due x d t) y) = tm_fn (th_mem t y)" "slot_of (set_due x d t) y = slot_of t y"
  by (simp_all add: set_due_def)

lemma set_slot_simps [simp]:
  "th_n (set_slot x i t) = th_n t" "th_heap (set_slot x i t) = th_heap t"
  "due_of (set_slot x i t) y = due_of t y"
  "tm_fn (th_mem (set_slot x i t) y) = tm_fn (th_mem t y)"
  "slot_of (set_slot x i t) y = (if y = x then i else slot_of t y)"
  by (simp_all add: set_slot_def)

lemma hole_set_due [simp]: "hole (set_due x d t) y i E = hole t y i E"
  by (simp add: hole_def)

text \<open>Changing the due time of an armed timer and sifting it.\<close>

lemma refix_spec:
  assumes t: "th_ok t T" and x: "x \<in> T"
  shows "th_ok (loop_heap_fix (set_due x d t) x) T"
    "same_but_places T (set_due x d t) (loop_heap_fix (set_due x d t) x)"
proof -
  define i where "i = slot_of t x - 1"
  note at' = th_ok_at [OF t x, folded i_def]
  have s: "slot_of (set_due x d t) x = i + 1" using at'(1) by (simp add: i_def)
  have "heap_at t j \<noteq> x" if "j < th_n t" "j \<noteq> i" for j
  proof -
    obtain y where "th_heap t ! j = Some y" "slot_of t y = j + 1" using t \<open>j < th_n t\<close> by (auto simp: th_ok_def)
    then show ?thesis using that(2) by (auto simp: i_def)
  qed
  then have D: "((\<lambda>j. due_of t (heap_at t j))(i := d)) j = dues (set_due x d t) x i j"
    if "j < th_n t" for j
    using that by (auto simp: dues_def)
  have "ordered_but (th_n t) ((\<lambda>j. due_of t (heap_at t j))(i := d)) i"
    using t at'(2) by (intro ordered_imp_but) (simp add: th_ok_def)
  from ordered_but_cong [of "th_n t" "(\<lambda>j. due_of t (heap_at t j))(i := d)" "dues (set_due x d t) x i" i,
      OF D at'(2) this]
  have o: "ordered_but (th_n (set_due x d t)) (dues (set_due x d t) x i) i" by simp
  have h: "hole (set_due x d t) x i (T - {x})" using th_ok_hole [OF t at'(2,3)] by simp
  have len: "length (th_heap (set_due x d t)) * 8 < 2 ^ 64" using t by (simp add: th_ok_def)
  have "insert x (T - {x}) = T" using x by blast
  then show "th_ok (loop_heap_fix (set_due x d t) x) T"
    "same_but_places T (set_due x d t) (loop_heap_fix (set_due x d t) x)"
    using loop_heap_fix_spec [OF h s o len] by simp_all
qed

text \<open>A new timer at the end of the heap.\<close>

lemma add_spec:
  assumes t: "th_ok t T" and x: "x \<notin> T" and room: "th_n t < length (th_heap t)"
    and u_def: "u = set_due x d ((loop_heap_put t x (th_n t))\<lparr>th_n := th_n t + 1\<rparr>)"
  shows "th_ok (loop_heap_fix u x) (insert x T)" "same_but_places (insert x T) u (loop_heap_fix u x)"
proof -
  let ?n = "th_n t"
  have u: "th_n u = ?n + 1" "th_heap u = (th_heap t)[?n := Some x]" "slot_of u x = ?n + 1"
      "\<And>y. y \<noteq> x \<Longrightarrow> slot_of u y = slot_of t y" "\<And>y. due_of u y = (if y = x then d else due_of t y)"
    by (simp_all add: u_def)
  have h: "hole u x ?n T"
    unfolding hole_def
  proof (intro conjI allI impI ballI)
    show "\<exists>y\<in>T. th_heap u ! j = Some y \<and> slot_of u y = j + 1" if j: "j < th_n u" "j \<noteq> ?n" for j
    proof -
      have "j < ?n" using j u(1) by simp
      then obtain y where "y \<in> T" "th_heap t ! j = Some y" "slot_of t y = j + 1"
        using t by (auto simp: th_ok_def)
      moreover have "y \<noteq> x" using calculation(1) x by auto
      ultimately show ?thesis using u(2,4) j(2) by auto
    qed
    show "\<exists>j<th_n u. j \<noteq> ?n \<and> th_heap u ! j = Some y" if y: "y \<in> T" for y
    proof -
      obtain j where "j < ?n" "th_heap t ! j = Some y" using t y by (auto simp: th_ok_def)
      then show ?thesis using u(1,2) by (intro exI [of _ j]) simp
    qed
  qed (use u x room in auto)
  have o: "ordered_but (th_n u) (dues u x ?n) ?n"
    unfolding ordered_but_def
  proof (intro conjI allI impI)
    fix j assume j: "0 < j" "j < th_n u"
    show "dues u x ?n (parent j) \<le> dues u x ?n j" if "j \<noteq> ?n"
    proof -
      have jn: "j < ?n" "parent j < ?n" using j u(1) that parent_less [OF j(1)] by auto
      have "heap_at t k \<noteq> x" if "k < ?n" for k using t that x by (force simp: th_ok_def)
      then have "dues u x ?n k = due_of t (heap_at t k)" if "k < ?n" for k
        using that u(2,5) by (simp add: dues_def)
      then show ?thesis using jn j(1) t by (simp add: th_ok_def heap_ordered_def)
    qed
    show "dues u x ?n (parent ?n) \<le> dues u x ?n j" if "parent j = ?n" "0 < ?n"
      using parent_less [OF j(1)] that j(2) u(1) by simp
  qed
  have len: "length (th_heap u) * 8 < 2 ^ 64" using t u(2) by (simp add: th_ok_def)
  show "th_ok (loop_heap_fix u x) (insert x T)" "same_but_places (insert x T) u (loop_heap_fix u x)"
    using loop_heap_fix_spec [OF h u(3) o len] by simp_all
qed

text \<open>The last timer of the heap in the place of the one that leaves.\<close>

lemma remove_spec:
  assumes t: "th_ok t T" and x: "x \<in> T"
  shows "\<exists>t'. loop_timer_stop True t (Some x) = (None, t') \<and> th_ok t' (T - {x}) \<and> slot_of t' x = 0 \<and>
    (\<forall>y. due_of t' y = due_of t y \<and> tm_fn (th_mem t' y) = tm_fn (th_mem t y)) \<and>
    (\<forall>y. y \<notin> T \<longrightarrow> slot_of t' y = slot_of t y)"
proof -
  define i where "i = slot_of t x - 1"
  define m where "m = th_n t - 1"
  note at' = th_ok_at [OF t x, folded i_def]
  have sx: "slot_of t x = i + 1" using at'(1) by (simp add: i_def)
  have m: "m < th_n t" "th_n t = m + 1" "i \<le> m" using at'(2) by (simp_all add: m_def)
  define u where "u = (set_slot x 0 t)\<lparr>th_n := m, th_heap := (th_heap t)[m := None]\<rparr>"
  obtain l where l: "th_heap t ! m = Some l" "l \<in> T" "slot_of t l = m + 1"
    using t m(1) by (auto simp: th_ok_def)
  have u: "th_n u = m" "th_heap u = (th_heap t)[m := None]" "slot_of u x = 0"
      "\<And>y. y \<noteq> x \<Longrightarrow> slot_of u y = slot_of t y" "\<And>y. due_of u y = due_of t y"
      "\<And>y. tm_fn (th_mem u y) = tm_fn (th_mem t y)"
    by (simp_all add: u_def)
  have mlen: "m < length (th_heap t)" "length (th_heap t) * 8 < 2 ^ 64" using t m(1) by (auto simp: th_ok_def)
  have old: "th_heap u ! j = th_heap t ! j" if "j < m" for j using that u(2) by simp
  have run: "loop_timer_stop True t (Some x) =
      (None, if i < m then loop_heap_fix (loop_heap_put u l i) l else u)"
    using sx at'(2,3) l(1) m by (simp add: loop_timer_stop_def Let_def u_def)
  have xi: "heap_at t j \<noteq> x" if "j < th_n t" "j \<noteq> i" for j
    using that th_ok_place_eq [OF t that(1) at'(2)] at'(3) t by (auto simp: th_ok_def)
  show ?thesis
  proof (cases "i < m")
    case False
    then have im: "i = m" using m(3) by simp
    then have lx: "l = x" using l(1) at'(3) by simp
    have "th_ok u (T - {x})"
      unfolding th_ok_def
    proof (intro conjI allI impI ballI)
      show "\<exists>y\<in>T - {x}. th_heap u ! j = Some y \<and> slot_of u y = j + 1" if j: "j < th_n u" for j
      proof -
        have jn: "j < m" "j < th_n t" using j u(1) m(1) by simp_all
        then obtain y where "y \<in> T" "th_heap t ! j = Some y" "slot_of t y = j + 1"
          using t by (auto simp: th_ok_def)
        moreover have "y \<noteq> x" using calculation xi [OF jn(2)] jn(1) im by auto
        ultimately show ?thesis using old [of j] j u(1,4) by auto
      qed
      show "\<exists>j<th_n u. th_heap u ! j = Some y" if y: "y \<in> T - {x}" for y
      proof -
        obtain j where j: "j < th_n t" "th_heap t ! j = Some y" using t y by (auto simp: th_ok_def)
        then have "j \<noteq> m" using im at'(3) y by auto
        then have "j < m" using j(1) m(2) by simp
        then show ?thesis using old [of j] j(2) u(1) by auto
      qed
      have "heap_ordered m (\<lambda>j. due_of t (heap_at t j))"
        using t m(2) by (simp add: th_ok_def heap_ordered_def)
      then show "heap_ordered (th_n u) (\<lambda>j. due_of u (heap_at u j))"
        unfolding heap_ordered_def using old u(1,5) parent_less by (auto simp: less_trans)
    qed (use u mlen in auto)
    moreover have "slot_of u y = slot_of t y" if "y \<notin> T" for y using that u(4) x by metis
    ultimately show ?thesis using run False u(3,5,6) by auto
  next
    case True
    have lx: "l \<noteq> x" using xi [of m] True l(1) m(1) by auto
    let ?v = "loop_heap_put u l i" and ?E = "T - {x} - {l}"
    have h: "hole ?v l i ?E"
      unfolding hole_def
    proof (intro conjI allI impI ballI)
      show "\<exists>y\<in>?E. th_heap ?v ! j = Some y \<and> slot_of ?v y = j + 1" if j: "j < th_n ?v" "j \<noteq> i" for j
      proof -
        have jm: "j < m" using j u(1) by simp
        then have jn: "j < th_n t" using m(1) by simp
        then obtain y where y: "y \<in> T" "th_heap t ! j = Some y" "slot_of t y = j + 1"
          using t by (auto simp: th_ok_def)
        moreover have "y \<noteq> x" using y(2) xi [OF jn] j(2) by auto
        moreover have "y \<noteq> l" using y(3) l(3) jm by auto
        ultimately show ?thesis using old [OF jm] j u(4) by auto
      qed
      show "\<exists>j<th_n ?v. j \<noteq> i \<and> th_heap ?v ! j = Some y" if y: "y \<in> ?E" for y
      proof -
        obtain j where j: "j < th_n t" "th_heap t ! j = Some y" using t y by (auto simp: th_ok_def)
        then have "j \<noteq> m" "j \<noteq> i" using l(1) at'(3) y by auto
        then have "j < m" using j(1) m(2) by simp
        then show ?thesis using old [of j] j(2) u(1) \<open>j \<noteq> i\<close> by (intro exI [of _ j]) simp
      qed
    qed (use True u mlen in auto)
    have D: "((\<lambda>j. due_of t (heap_at t j))(i := due_of t l)) j = dues ?v l i j" if "j < m" for j
      using that old [OF that] u(5) by (simp add: dues_def)
    have "ordered_but (th_n t) ((\<lambda>j. due_of t (heap_at t j))(i := due_of t l)) i"
      using t at'(2) by (intro ordered_imp_but) (simp add: th_ok_def)
    then have "ordered_but m ((\<lambda>j. due_of t (heap_at t j))(i := due_of t l)) i"
      using m(1) by (auto intro: ordered_but_mono)
    from ordered_but_cong [of m "(\<lambda>j. due_of t (heap_at t j))(i := due_of t l)" "dues ?v l i" i,
        OF D True this]
    have o: "ordered_but (th_n ?v) (dues ?v l i) i" using u(1) by simp
    have "length (th_heap ?v) * 8 < 2 ^ 64" using u(2) mlen by simp
    note f = loop_heap_fix_spec [OF h _ o this, simplified]
    have "insert l ?E = T - {x}" using l(2) lx by blast
    then have ok: "th_ok (loop_heap_fix ?v l) (T - {x})"
      and same: "same_but_places (T - {x}) ?v (loop_heap_fix ?v l)"
      using f by simp_all
    then have "slot_of (loop_heap_fix ?v l) x = 0" using u(3) lx by (simp add: same_but_places_def)
    moreover have "slot_of (loop_heap_fix ?v l) y = slot_of t y" if "y \<notin> T" for y
      
    proof -
      have "y \<noteq> x" "y \<noteq> l" using that x l(2) by auto
      then show ?thesis using same that u(4) by (simp add: same_but_places_def)
    qed
    moreover have "due_of (loop_heap_fix ?v l) y = due_of t y"
      "tm_fn (th_mem (loop_heap_fix ?v l) y) = tm_fn (th_mem t y)" for y
      using same u(5,6) by (simp_all add: same_but_places_def)
    ultimately show ?thesis using run True ok by auto
  qed
qed

text \<open>Room for one more timer.\<close>

lemma timer_room:
  assumes t: "th_ok t T"
    and g: "util_grow as (of_nat (length (th_heap t)))
      (of_nat (if th_n t < HEAP_MIN then HEAP_MIN else th_n t + 1)) 8 = (e, cap, as')"
  shows "\<exists>more. th_heap t @ map junk [length (th_heap t)..<unat cap] = th_heap t @ more \<and>
      length (th_heap t @ more) * 8 < 2 ^ 64 \<and> (e = None \<longrightarrow> th_n t < length (th_heap t @ more))"
proof -
  let ?len = "length (th_heap t)"
  define n where "n = (if th_n t < HEAP_MIN then HEAP_MIN else th_n t + 1)"
  have len: "?len * 8 < 2 ^ 64" "th_n t \<le> ?len" using t by (simp_all add: th_ok_def)
  have n: "th_n t < n" "n < 2 ^ 64" using len by (simp_all add: n_def HEAP_MIN_def)
  note g' = g [folded n_def]
  obtain cap' moved as1 where r: "util_room as (of_nat ?len) (of_nat n) 8 = (cap', moved, as1)"
    by (metis prod_cases3)
  have e: "e = (if cap' < of_nat n then Some ENOMEM else None)" "cap = cap'"
    using g' r by (auto simp: util_grow_def)
  have un: "unat (of_nat ?len :: u64) = ?len" "unat (of_nat n :: u64) = n"
    using len(1) n(2) by (intro unat_of_nat_64; simp)+
  have b: "(8 :: u64) \<noteq> 0" "unat (8 :: u64) = 8" by simp_all
  note spec = util_room_spec [OF r b(1), unfolded un b(2), OF len(1)]
  have le: "?len \<le> unat cap" using spec(2) un(1) e(2) by (simp add: word_le_nat_alt)
  have "n \<le> unat cap" if "e = None"
    using e un(2) that by (simp add: word_less_nat_alt split: if_splits)
  then show ?thesis using le spec(1) e(2) n(1)
    by (intro exI [of _ "map junk [?len..<unat cap]"]) auto
qed

lemma th_ok_more:
  assumes "th_ok t T" "length (th_heap t @ extra) * 8 < 2 ^ 64"
  shows "th_ok (t\<lparr>th_heap := th_heap t @ extra\<rparr>) T"
proof -
  have "heap_ordered (th_n t) (\<lambda>j. due_of t (the ((th_heap t @ extra) ! j)))"
    unfolding heap_ordered_def
  proof (intro allI impI)
    fix j assume j: "0 < j" "j < th_n t"
    have "parent j < th_n t" using parent_less [OF j(1)] j(2) by simp
    moreover have "due_of t (heap_at t (parent j)) \<le> due_of t (heap_at t j)"
      using assms(1) j unfolding th_ok_def heap_ordered_def by blast
    moreover have "th_n t \<le> length (th_heap t)" using assms(1) by (simp add: th_ok_def)
    ultimately show "due_of t (the ((th_heap t @ extra) ! parent j)) \<le> due_of t (the ((th_heap t @ extra) ! j))"
      using j(2) by (simp add: nth_append)
  qed
  moreover have "\<exists>j<th_n t. (th_heap t @ extra) ! j = Some y" if y: "y \<in> T" for y
  proof -
    obtain j where "j < th_n t" "th_heap t ! j = Some y" "j < length (th_heap t)"
      using assms(1) y unfolding th_ok_def by (meson less_le_trans)
    then show ?thesis by (intro exI [of _ j]) (simp add: nth_append)
  qed
  ultimately show ?thesis using assms by (auto simp: th_ok_def nth_append)
qed

text \<open>What changes when a timer is set: it is armed at the due time, and no other timer is touched but for its place.\<close>

definition armed :: "theap \<Rightarrow> theap \<Rightarrow> ref set \<Rightarrow> ref \<Rightarrow> u64 \<Rightarrow> bool" where
  "armed t t' T x due \<longleftrightarrow>
     th_ok t' (insert x T) \<and> due_of t' x = due \<and> (\<forall>y. y \<noteq> x \<longrightarrow> due_of t' y = due_of t y) \<and>
     (\<forall>y. tm_fn (th_mem t' y) = tm_fn (th_mem t y)) \<and>
     (\<forall>y. y \<notin> insert x T \<longrightarrow> slot_of t' y = slot_of t y)"

lemma timer_set_ok:
  assumes t: "th_ok t T" and fn: "tm_fn (th_mem t x)"
  shows "\<exists>e t' as'. loop_timer_set as junk True t (Some x) due = (e, t', as') \<and>
    (if slot_of t x = 0 then e = None \<and> armed t t' T x due \<or> e = Some ENOMEM \<and> th_ok t' T \<and> th_mem t' = th_mem t
     else if x \<in> T then e = None \<and> armed t t' T x due
     else e = Some EINVAL \<and> t' = t)"
proof -
  consider (new) "slot_of t x = 0" | (old) "x \<in> T" | (stale) "slot_of t x \<noteq> 0" "x \<notin> T" by blast
  then show ?thesis
  proof cases
    case new
    then have x: "x \<notin> T" using th_ok_at(1) [OF t, of x] by blast
    obtain e cap as' where g: "util_grow as (of_nat (length (th_heap t)))
        (of_nat (if th_n t < HEAP_MIN then HEAP_MIN else th_n t + 1)) 8 = (e, cap, as')"
      by (metis prod_cases3)
    obtain more where m: "th_heap t @ map junk [length (th_heap t)..<unat cap] = th_heap t @ more"
        "length (th_heap t @ more) * 8 < 2 ^ 64" "e = None \<Longrightarrow> th_n t < length (th_heap t @ more)"
      using timer_room [OF t g] by blast
    let ?t = "t\<lparr>th_heap := th_heap t @ more\<rparr>"
    have ok: "th_ok ?t T" by (rule th_ok_more [OF t m(2)])
    show ?thesis
    proof (cases e)
      case (Some err)
      then have "loop_timer_set as junk True t (Some x) due = (Some ENOMEM, ?t, as')"
        using fn new g m(1) by (simp add: loop_timer_set_def Let_def)
      then show ?thesis using new ok by simp
    next
      case None
      define u where "u = set_due x due ((loop_heap_put ?t x (th_n ?t))\<lparr>th_n := th_n ?t + 1\<rparr>)"
      have "th_n ?t < length (th_heap ?t)" using m(3) None by simp
      note a = add_spec [OF ok x this u_def]
      have "loop_timer_set as junk True t (Some x) due = (None, loop_heap_fix u x, as')"
        using fn new g m(1) None by (simp add: loop_timer_set_def Let_def u_def)
      moreover have "armed t (loop_heap_fix u x) T x due"
        using a by (auto simp: armed_def same_but_places_def u_def)
      ultimately show ?thesis using new by simp
    qed
  next
    case old
    note at' = th_ok_at [OF t old]
    let ?u = "set_due x due t"
    have "loop_timer_set as junk True t (Some x) due = (None, loop_heap_fix ?u x, as)"
      using fn at' by (simp add: loop_timer_set_def)
    moreover have "armed t (loop_heap_fix ?u x) T x due"
      using refix_spec [OF t old, of due] old
      by (auto simp: armed_def same_but_places_def insert_absorb)
    ultimately show ?thesis using at'(1) old by simp
  next
    case stale
    have "th_heap t ! (slot_of t x - 1) \<noteq> Some x" if "slot_of t x \<le> th_n t"
    proof
      assume "th_heap t ! (slot_of t x - 1) = Some x"
      moreover have "slot_of t x - 1 < th_n t" using that stale(1) by simp
      ultimately have "x \<in> T" using th_ok_in [OF t] by blast
      then show False using stale(2) by simp
    qed
    then have "loop_timer_set as junk True t (Some x) due = (Some EINVAL, t, as)"
      using fn stale by (auto simp: loop_timer_set_def)
    then show ?thesis using stale by simp
  qed
qed

lemma timer_stop_stale:
  assumes "th_ok t T" "x \<notin> T"
  shows "loop_timer_stop True t (Some x) = (if slot_of t x = 0 then None else Some EINVAL, t)"
proof -
  have "th_heap t ! (slot_of t x - 1) \<noteq> Some x" if "slot_of t x \<noteq> 0" "slot_of t x \<le> th_n t"
  proof -
    have "slot_of t x - 1 < th_n t" using that by simp
    then show ?thesis using th_ok_in(1) [OF assms(1)] assms(2) by blast
  qed
  then show ?thesis by (auto simp: loop_timer_stop_def)
qed

section \<open>Firing\<close>

lemma th_ok_top:
  assumes t: "th_ok t T" and n: "th_n t \<noteq> 0"
  shows "heap_at t 0 \<in> T" "y \<in> T \<Longrightarrow> due_of t (heap_at t 0) \<le> due_of t y"
proof -
  show "heap_at t 0 \<in> T" using t n by (force simp: th_ok_def)
  assume "y \<in> T"
  then obtain j where j: "j < th_n t" "th_heap t ! j = Some y" using t by (auto simp: th_ok_def)
  have "due_of t (heap_at t 0) \<le> due_of t (heap_at t j)"
    using t j(1) heap_least [of "th_n t" "\<lambda>j. due_of t (heap_at t j)" j] by (simp add: th_ok_def)
  then show "due_of t (heap_at t 0) \<le> due_of t y" using j(2) by simp
qed

text \<open>A timer's function may do what it likes with the heap as long as it leaves it in order.\<close>

definition fn_keeps :: "(ref \<Rightarrow> bool \<times> theap \<Rightarrow> bool \<times> theap) \<Rightarrow> bool" where
  "fn_keeps fn \<longleftrightarrow> (\<forall>x stop t T stop' t'. th_ok t T \<longrightarrow> fn x (stop, t) = (stop', t') \<longrightarrow> (\<exists>T'. th_ok t' T'))"

lemma fire_loop_ok:
  "fn_keeps fn \<Longrightarrow> th_ok t T \<Longrightarrow> fire_loop left' now fn (stop, t) = (fired, stop', t') \<Longrightarrow>
     \<exists>T'. th_ok t' T' \<and> length fired \<le> left' \<and>
       (length fired = left' \<or> stop' \<or> (\<forall>y \<in> T'. now < due_of t' y))"
proof (induction left' arbitrary: stop t T fired)
  case 0
  then show ?case by auto
next
  case (Suc left')
  show ?case
  proof (cases "th_n t \<noteq> 0 \<and> \<not> stop \<and> \<not> due_of t (heap_at t 0) > now")
    case True
    let ?x = "heap_at t 0"
    let ?u = "loop_heap_fix (set_due ?x (- 1) t) ?x"
    obtain s1 t1 where f: "fn ?x (stop, ?u) = (s1, t1)" by force
    obtain fs st where r: "fire_loop left' now fn (s1, t1) = (fs, st)" by (metis surj_pair)
    have out: "fired = (?x, now - due_of t ?x) # fs" "st = (stop', t')"
      using Suc.prems(3) True f r by (auto simp: Let_def)
    have "th_ok ?u T" using refix_spec(1) [OF Suc.prems(2) th_ok_top(1) [OF Suc.prems(2)]] True by simp
    then obtain T1 where "th_ok t1 T1" using Suc.prems(1) f unfolding fn_keeps_def by blast
    from Suc.IH [OF Suc.prems(1) this] r out show ?thesis by auto
  next
    case False
    then have r: "fired = []" "stop' = stop" "t' = t" using Suc.prems(3) by (auto simp: Let_def split: if_splits)
    consider "th_n t = 0" | "stop" | "th_n t \<noteq> 0" "due_of t (heap_at t 0) > now" using False by blast
    then show ?thesis
    proof cases
      case 1
      then have "T = {}" using Suc.prems(2) by (auto simp: th_ok_def)
      then show ?thesis using r Suc.prems(2) by auto
    next
      case 2
      then show ?thesis using r Suc.prems(2) by auto
    next
      case 3
      have "now < due_of t y" if "y \<in> T" for y
        using less_le_trans [OF 3(2) th_ok_top(2) [OF Suc.prems(2) 3(1) that]] .
      then show ?thesis using r Suc.prems(2) by auto
    qed
  qed
qed

lemma fire_quiet:
  "th_ok t T \<Longrightarrow> now \<noteq> - 1 \<Longrightarrow> fire_loop left' now (\<lambda>x st. st) (stop, t) = (fired, stop', t') \<Longrightarrow>
     stop' = stop \<and> th_ok t' T \<and> distinct (map fst fired) \<and>
     sorted (map (due_of t) (map fst fired)) \<and>
     (\<forall>(x, late) \<in> set fired. x \<in> T \<and> due_of t x \<le> now \<and> late = now - due_of t x) \<and>
     (\<forall>y. y \<notin> set (map fst fired) \<longrightarrow> due_of t' y = due_of t y)"
proof (induction left' arbitrary: t fired)
  case 0
  then show ?case by auto
next
  case (Suc left')
  show ?case
  proof (cases "th_n t \<noteq> 0 \<and> \<not> stop \<and> \<not> due_of t (heap_at t 0) > now")
    case False
    then have "fired = []" "stop' = stop" "t' = t" using Suc.prems(3) by (auto simp: Let_def split: if_splits)
    then show ?thesis using Suc.prems(1) by simp
  next
    case True
    let ?x = "heap_at t 0"
    let ?u = "loop_heap_fix (set_due ?x (- 1) t) ?x"
    obtain fs st where r: "fire_loop left' now (\<lambda>x st. st) (stop, ?u) = (fs, st)" by (metis surj_pair)
    have out: "fired = (?x, now - due_of t ?x) # fs" "st = (stop', t')"
      using Suc.prems(3) True r by (auto simp: Let_def)
    have x: "?x \<in> T" and top: "\<And>y. y \<in> T \<Longrightarrow> due_of t ?x \<le> due_of t y"
      using th_ok_top [OF Suc.prems(1)] True by auto
    have ok: "th_ok ?u T" by (rule refix_spec(1) [OF Suc.prems(1) x])
    have due: "due_of ?u y = (if y = ?x then - 1 else due_of t y)" for y
      using refix_spec(2) [OF Suc.prems(1) x, of "- 1"] by (simp add: same_but_places_def)
    have IH: "stop' = stop" "th_ok t' T" "distinct (map fst fs)" "sorted (map (due_of ?u) (map fst fs))"
      "\<And>y late. (y, late) \<in> set fs \<Longrightarrow> y \<in> T \<and> due_of ?u y \<le> now \<and> late = now - due_of ?u y"
      "\<And>y. y \<notin> set (map fst fs) \<Longrightarrow> due_of t' y = due_of ?u y"
      using Suc.IH [OF ok Suc.prems(2) r [unfolded out(2)]] by auto
    have "\<not> (- 1 :: u64) \<le> now" using Suc.prems(2) by (simp add: word_order.extremum_unique)
    then have nx: "y \<noteq> ?x" if "(y, late) \<in> set fs" for y late
      using IH(5) [OF that] due by auto
    then have D: "due_of ?u y = due_of t y" if "y \<in> set (map fst fs)" for y
      using that due by force
    then have eq: "map (due_of ?u) (map fst fs) = map (due_of t) (map fst fs)" by (intro map_cong) auto
    have "sorted (map (due_of t) (map fst fs))" using IH(4) unfolding eq .
    moreover have "due_of t ?x \<le> due_of t y" if "y \<in> set (map fst fs)" for y
      using that IH(5) top by force
    ultimately have "sorted (map (due_of t) (map fst fired))" using out(1) by auto
    moreover have "?x \<notin> set (map fst fs)" using nx by force
    moreover have "due_of t ?x \<le> now" using True by (simp add: not_less)
    moreover have "y \<in> T \<and> due_of t y \<le> now \<and> late = now - due_of t y" if "(y, late) \<in> set fs" for y late
      using IH(5) [OF that] nx [OF that] due [of y] by simp
    ultimately show ?thesis using out IH(1-3,6) x due by auto
  qed
qed

section \<open>Properties\<close>

text \<open>
  C3.  Setting a timer that is not armed arms it at the due time or fails with ENOMEM; setting an
  armed one moves it; a timer whose place is stale is refused with EINVAL and nothing
  changes.  The heap keeps its order and every timer its place.
\<close>

theorem timer_set_outcomes:
  assumes "th_ok t T" "tm_fn (th_mem t x)" "loop_timer_set as junk True t (Some x) due = (e, t', as')"
  shows "if slot_of t x = 0 then e = None \<and> armed t t' T x due \<or> e = Some ENOMEM \<and> th_ok t' T \<and> th_mem t' = th_mem t
     else if x \<in> T then e = None \<and> armed t t' T x due
     else e = Some EINVAL \<and> t' = t"
  using timer_set_ok [OF assms(1,2), of as junk due] assms(3) by auto

text \<open>A heap of two timers to apply the properties to: 3 is due at 5, and 4 at 9; 8 is not armed.\<close>

definition example_heap :: theap where
  "example_heap = \<lparr> th_heap = [Some 3, Some 4, None], th_n = 2,
     th_mem = (\<lambda>x. \<lparr> tm_due = 0, tm_fn = True, tm_slot = 0 \<rparr>)
       (3 := \<lparr> tm_due = 5, tm_fn = True, tm_slot = 1 \<rparr>, 4 := \<lparr> tm_due = 9, tm_fn = True, tm_slot = 2 \<rparr>) \<rparr>"

lemma example_heap_ok: "th_ok example_heap {3, 4}"
  by (simp add: th_ok_def example_heap_def heap_ordered_def less_2_cases_iff word_le_nat_alt
      ex_disj_distrib conj_disj_distribR all_conj_distrib disj_imp [symmetric] imp_disjL)

theorem timer_set_outcomes_witness:
  "\<exists>e t' as'. loop_timer_set [] (\<lambda>i. None) True example_heap (Some 4) 1 = (e, t', as') \<and>
     e = None \<and> armed example_heap t' {3, 4} 4 1"
proof -
  obtain e t' as' where r: "loop_timer_set [] (\<lambda>i. None) True example_heap (Some 4) 1 = (e, t', as')"
    by (metis prod_cases3)
  have "tm_fn (th_mem example_heap 4)" "slot_of example_heap 4 = 2" by (simp_all add: example_heap_def)
  then show ?thesis using timer_set_outcomes [OF example_heap_ok _ r] r by simp
qed

text \<open>
  Stopping an armed timer takes it alone out of the heap, with the due times of all others as
  they were; a timer that is not armed is left alone, with EINVAL if it claims a place.
\<close>

theorem timer_stop_outcomes:
  assumes "th_ok t T" "loop_timer_stop True t (Some x) = (e, t')"
  shows "if x \<in> T then e = None \<and> th_ok t' (T - {x}) \<and> slot_of t' x = 0 \<and> (\<forall>y. due_of t' y = due_of t y)
     else t' = t \<and> e = (if slot_of t x = 0 then None else Some EINVAL)"
proof (cases "x \<in> T")
  case True
  then show ?thesis using remove_spec [OF assms(1) True] assms(2) by auto
next
  case False
  then show ?thesis using timer_stop_stale [OF assms(1) False] assms(2) by simp
qed

theorem timer_stop_outcomes_witness:
  "\<exists>t'. loop_timer_stop True example_heap (Some 3) = (None, t') \<and> th_ok t' {4}"
proof -
  obtain e t' where r: "loop_timer_stop True example_heap (Some 3) = (e, t')" by force
  have "{3, 4} - {3 :: nat} = {4}" by auto
  then show ?thesis using timer_stop_outcomes [OF example_heap_ok r] r by simp
qed

text \<open>
  C4.  A turn fires at most 64 timers, and unless that bound or an exit stops it, it leaves no timer due, whatever the
  timers' functions set and stop.
\<close>

theorem fire_leaves_none_due:
  assumes "fn_keeps fn" "th_ok t T" "loop_fire now fn (stop, t) = (fired, stop', t')"
  shows "\<exists>T'. th_ok t' T' \<and> length fired \<le> TIMERS \<and>
    (length fired = TIMERS \<or> stop' \<or> {y \<in> T'. due_of t' y \<le> now} = {})"
  using fire_loop_ok [OF assms(1,2) assms(3) [unfolded loop_fire_def]] by (auto simp: not_le)

theorem fire_leaves_none_due_witness:
  "\<exists>fired stop' t' T'. loop_fire 7 (\<lambda>x st. st) (False, example_heap) = (fired, stop', t') \<and> th_ok t' T'"
proof -
  obtain fired stop' t' where r: "loop_fire 7 (\<lambda>x st. st) (False, example_heap) = (fired, stop', t')"
    by (metis prod_cases3)
  have "fn_keeps (\<lambda>x st. st)" by (auto simp: fn_keeps_def)
  from fire_leaves_none_due [OF this example_heap_ok r] r show ?thesis by blast
qed

text \<open>
  The timers that fire are due, fire once each in the order of their due times and are reported late by the time that
  has passed since then; and where the bound does not cut the turn short they are all the timers that are
  due.  (The functions of the timers leave the heap alone here.)
\<close>

theorem fire_in_order:
  assumes "th_ok t T" "now \<noteq> - 1" "loop_fire now (\<lambda>x st. st) (False, t) = (fired, stop', t')"
  shows "distinct (map fst fired) \<and> sorted (map (\<lambda>x. due_of t x) (map fst fired)) \<and>
    set fired \<subseteq> {(x, late). x \<in> T \<and> due_of t x \<le> now \<and> late = now - due_of t x} \<and>
    (length fired = TIMERS \<or> set (map fst fired) = {x \<in> T. due_of t x \<le> now})"
proof -
  have q: "\<not> stop'" "th_ok t' T" "distinct (map fst fired)" "sorted (map (due_of t) (map fst fired))"
    "\<And>x late. (x, late) \<in> set fired \<Longrightarrow> x \<in> T \<and> due_of t x \<le> now \<and> late = now - due_of t x"
    "\<And>y. y \<notin> set (map fst fired) \<Longrightarrow> due_of t' y = due_of t y"
    using fire_quiet [OF assms(1,2) assms(3) [unfolded loop_fire_def]] by auto
  have keeps: "fn_keeps (\<lambda>x st. st)" by (auto simp: fn_keeps_def)
  obtain T' where T': "th_ok t' T'" "length fired = TIMERS \<or> (\<forall>y \<in> T'. now < due_of t' y)"
    using fire_loop_ok [OF keeps assms(1) assms(3) [unfolded loop_fire_def]] q(1) by auto
  have "T' = T" using T'(1) q(2) unfolding th_ok_def by (metis option.inject subsetI subset_antisym)
  then have "set (map fst fired) = {x \<in> T. due_of t x \<le> now}" if "length fired \<noteq> TIMERS"
    using that T'(2) q(5,6) by (force simp: not_le [symmetric])
  then show ?thesis using q(3-5) by auto
qed

theorem fire_in_order_witness:
  "\<exists>fired stop' t'. loop_fire 7 (\<lambda>x st. st) (False, example_heap) = (fired, stop', t') \<and>
     set fired \<subseteq> {(3, 2)}"
proof -
  obtain fired stop' t' where r: "loop_fire 7 (\<lambda>x st. st) (False, example_heap) = (fired, stop', t')"
    by (metis prod_cases3)
  have "{(x, late). x \<in> {3, 4} \<and> due_of example_heap x \<le> 7 \<and> late = 7 - due_of example_heap x} = {(3, 2)}"
    by (auto simp: example_heap_def word_le_nat_alt)
  moreover have "(7 :: u64) \<noteq> - 1" by simp
  ultimately show ?thesis using fire_in_order [OF example_heap_ok _ r] r by metis
qed

end
