(* ===== verification/Steps.thy ===== *)
theory Steps
  imports Prelude "HOL-Library.Sublist" "HOL-Library.Multiset"
begin

text \<open>
  The ready lists of an event loop and the budget of a step (\<^verbatim>\<open>loop_ready()\<close>, \<^verbatim>\<open>loop_ready_bulk()\<close>,
  \<^verbatim>\<open>loop_unready()\<close>, \<^verbatim>\<open>loop_run()\<close>, \<^verbatim>\<open>loop_work()\<close> and \<^verbatim>\<open>loop_room()\<close> in \<^verbatim>\<open>src/loop.c\<close>, \<^verbatim>\<open>loop_spent()\<close> and
  \<^verbatim>\<open>loop_fits()\<close> in \<^verbatim>\<open>src/loop.h\<close>).  A list of steps is the list of its entries, as the theory
  \<open>Ring\<close> justifies; an entry is queued (its hook is not zeroed) when it is on a ready list or in a batch
  under way.  What a step does to the lists is a sequence of actions, and the clock is read from a tape.

  The lemmas show that an entry is never on two lists, that a run ends, makes progress, runs each entry that was
  queued at most once and first in first out, takes the two interactive lists in turn, and
  puts what it did not run back before what was queued meanwhile.
\<close>

definition FRESH :: nat where "FRESH = 0"
definition ONGOING :: nat where "ONGOING = 1"
definition BULK :: nat where "BULK = 2"

text \<open>The bounds of \<^verbatim>\<open>LOOP_UNIT_LIST\<close>, in its order, which is the order of \<^verbatim>\<open>enum loop_unit\<close>.\<close>

definition loop_bound :: "u64 list" where
  "loop_bound = [8, 64 * 1024, 256 * 1024, 64 * 1024, 16 * 1024, 256, 64 * 1024, 1024 * 1024, 32, 32, 256, 1, 1]"

section \<open>The lists\<close>

record lstate =
  ls_ready :: "ref list list"  \<comment> \<open>interactive fresh and ongoing, bulk\<close>
  ls_batch :: "ref list list"  \<comment> \<open>what a run has taken and not run yet\<close>
  ls_exit :: bool
  ls_stepping :: bool
  ls_work :: "u64 list"

definition on_lists :: "lstate \<Rightarrow> ref list" where
  "on_lists s = concat (ls_ready s) @ concat (ls_batch s)"

definition queued :: "lstate \<Rightarrow> ref \<Rightarrow> bool" where
  "queued s x \<longleftrightarrow> x \<in> set (on_lists s)"

definition append_to :: "nat \<Rightarrow> ref \<Rightarrow> lstate \<Rightarrow> lstate" where
  "append_to i x s = s\<lparr>ls_ready := (ls_ready s)[i := ls_ready s ! i @ [x]]\<rparr>"

definition loop_ready :: "ref \<Rightarrow> lstate \<Rightarrow> lstate" where
  "loop_ready x s =
     (if \<not> queued s x then append_to (if ls_stepping s then ONGOING else FRESH) x s else s)"

definition loop_ready_bulk :: "ref \<Rightarrow> lstate \<Rightarrow> lstate" where
  "loop_ready_bulk x s = (if \<not> queued s x then append_to BULK x s else s)"

definition loop_unready :: "ref \<Rightarrow> lstate \<Rightarrow> lstate" where
  "loop_unready x s =
     (if queued s x then
        s\<lparr>ls_ready := map (remove1 x) (ls_ready s), ls_batch := map (remove1 x) (ls_batch s)\<rparr>
      else s)"

definition loop_exit :: "lstate \<Rightarrow> lstate" where
  "loop_exit s = s\<lparr>ls_exit := True\<rparr>"

section \<open>The budget\<close>

text \<open>A unit is its number; a number past the last is out of range.  The loop is \<open>None\<close> for a null pointer.\<close>

definition loop_work :: "lstate option \<Rightarrow> nat \<Rightarrow> u64 \<Rightarrow> errno option \<times> lstate option" where
  "loop_work l u n =
     (case l of
        None \<Rightarrow> (Some EFAULT, l)
      | Some s \<Rightarrow>
          if u \<ge> length (ls_work s) then (Some EINVAL, l)
          else (None, Some (s\<lparr>ls_work := (ls_work s)[u := ls_work s ! u + n]\<rparr>)))"

definition loop_room :: "lstate option \<Rightarrow> nat \<Rightarrow> u64" where
  "loop_room l u =
     (case l of
        None \<Rightarrow> 0
      | Some s \<Rightarrow>
          if u \<ge> length loop_bound then 0
          else if ls_work s ! u < loop_bound ! u then loop_bound ! u - ls_work s ! u else 0)"

definition loop_spent :: "lstate \<Rightarrow> ref \<Rightarrow> nat \<Rightarrow> bool \<times> lstate" where
  "loop_spent s x u = (if loop_room (Some s) u \<noteq> 0 then (False, s) else (True, loop_ready_bulk x s))"

definition loop_fits :: "lstate \<Rightarrow> nat \<Rightarrow> u64 \<Rightarrow> bool" where
  "loop_fits s u n \<longleftrightarrow>
     (let room = loop_room (Some s) u
      in room \<ge> n \<or> (u < length loop_bound \<and> room = loop_bound ! u))"

section \<open>Running steps\<close>

text \<open>What the function of a step may do to the lists and the budget.\<close>

datatype action = Ready ref | Ready_Bulk ref | Unready ref | Exit | Work nat u64

fun do_action :: "action \<Rightarrow> lstate \<Rightarrow> lstate" where
  "do_action (Ready x) s = loop_ready x s"
| "do_action (Ready_Bulk x) s = loop_ready_bulk x s"
| "do_action (Unready x) s = loop_unready x s"
| "do_action Exit s = loop_exit s"
| "do_action (Work u n) s = the (snd (loop_work (Some s) u n))"

definition do_actions :: "action list \<Rightarrow> lstate \<Rightarrow> lstate" where
  "do_actions as s = fold do_action as s"

definition left_in :: "lstate \<Rightarrow> nat" where
  "left_in s = length (concat (ls_batch s))"

lemma length_remove1_le: "length (remove1 x xs) \<le> length xs"
  by (simp add: length_remove1)

lemma sum_remove1_le: "sum_list (map (length \<circ> remove1 x) bs) \<le> sum_list (map length bs)"
  by (rule sum_list_mono) (simp add: length_remove1)

lemma left_in_unready: "left_in (loop_unready x s) \<le> left_in s"
  using sum_remove1_le [of x "ls_batch s"]
  by (simp add: left_in_def loop_unready_def length_concat comp_def)

lemma left_in_action: "left_in (do_action a s) \<le> left_in s"
proof (cases a)
  case (Unready x)
  then show ?thesis by (simp add: left_in_unready)
qed (auto simp: loop_ready_def loop_ready_bulk_def append_to_def loop_exit_def loop_work_def left_in_def)

lemma left_in_actions: "left_in (do_actions as s) \<le> left_in s"
  unfolding do_actions_def
proof (induction as arbitrary: s)
  case (Cons a as)
  then show ?case using left_in_action [of a s] order_trans by fastforce
qed simp

lemma left_in_run:
  assumes i: "i < length (ls_batch s)" and x: "ls_batch s ! i = x # xs"
  shows "left_in (loop_unready x s) < left_in s"
proof -
  have split: "ls_batch s = take i (ls_batch s) @ (x # xs) # drop (Suc i) (ls_batch s)"
    using id_take_nth_drop [OF i] x by simp
  then have "x \<in> set (concat (ls_batch s))" by (metis UN_I in_set_conv_decomp list.set_intros(1) set_concat)
  then have q: "queued s x" by (simp add: queued_def on_lists_def)
  have "sum_list (map (length \<circ> remove1 x) (take i (ls_batch s) @ (x # xs) # drop (Suc i) (ls_batch s)))
      < sum_list (map length (take i (ls_batch s) @ (x # xs) # drop (Suc i) (ls_batch s)))"
    using sum_remove1_le [of x "take i (ls_batch s)"] sum_remove1_le [of x "drop (Suc i) (ls_batch s)"]
    by simp
  then have "sum_list (map (length \<circ> remove1 x) (ls_batch s)) < sum_list (map length (ls_batch s))"
    using split by simp
  then show ?thesis using q by (simp add: left_in_def loop_unready_def length_concat comp_def)
qed

lemma length_batch_action [simp]: "length (ls_batch (do_action a s)) = length (ls_batch s)"
  by (cases a)
     (auto simp: loop_unready_def loop_ready_def loop_ready_bulk_def append_to_def loop_exit_def loop_work_def)

lemma length_batch_actions [simp]: "length (ls_batch (do_actions as s)) = length (ls_batch s)"
  unfolding do_actions_def by (induction as arbitrary: s) auto

text \<open>One step of the run: the entry at the head of the batch \<open>i\<close>, with a fresh budget.\<close>

definition start_step :: "ref \<Rightarrow> lstate \<Rightarrow> lstate" where
  "start_step x s = (let s = loop_unready x s in s\<lparr>ls_work := replicate (length loop_bound) 0\<rparr>)"

lemma left_in_start [simp]: "left_in (start_step x s) = left_in (loop_unready x s)"
  by (simp add: start_step_def left_in_def Let_def)

lemma length_batch_start [simp]: "length (ls_batch (start_step x s)) = length (ls_batch s)"
  by (simp add: start_step_def loop_unready_def Let_def)

text \<open>
  The loop of \<^verbatim>\<open>loop_run()\<close>.  The step number \<open>k\<close> does the actions \<open>acts k\<close> and ends when the clock
  shows \<open>clock (k + 1)\<close>.  The cursor is always in range, as the condition \<open>i < n\<close> says.  The trace has, for each step, the list it came from, the entry, and the time the step
  took; the result has the place of the cursor too.
\<close>

function run_loop ::
    "(nat \<Rightarrow> action list) \<Rightarrow> (nat \<Rightarrow> u64) \<Rightarrow> u64 \<Rightarrow> nat \<Rightarrow> nat \<Rightarrow> nat \<Rightarrow> lstate \<Rightarrow> (nat \<times> ref \<times> u64) list \<times> nat \<times> lstate"
where
  "run_loop acts clock until k i idle s =
     (let n = length (ls_batch s)
      in if idle < n \<and> \<not> ls_exit s \<and> (k = 0 \<or> clock k < until) \<and> i < n then
           (case ls_batch s ! i of
              [] \<Rightarrow> run_loop acts clock until k ((i + 1) mod n) (idle + 1) s
            | x # xs \<Rightarrow>
                let s = do_actions (acts k) (start_step x s);
                    (trace, r) = run_loop acts clock until (k + 1) ((i + 1) mod n) 0 s
                in ((i, x, clock (k + 1) - clock k) # trace, r))
         else ([], i, s))"
  by pat_completeness auto
termination
proof (relation "measures [\<lambda>(a, c, u, k, i, e, s). left_in s, \<lambda>(a, c, u, k, i, e, s). length (ls_batch s) - e]")
  fix acts :: "nat \<Rightarrow> action list" and clock :: "nat \<Rightarrow> u64" and until k i idle s n x xs s1
  assume n: "n = length (ls_batch s)" and c: "idle < n \<and> \<not> ls_exit s \<and> (k = 0 \<or> clock k < until) \<and> i < n"
    and x: "ls_batch s ! i = x # xs" and s1: "s1 = do_actions (acts k) (start_step x s)"
  have "left_in s1 \<le> left_in (start_step x s)" unfolding s1 by (rule left_in_actions)
  also have "\<dots> < left_in s" using left_in_run [of i s x xs] n c x by simp
  finally show "((acts, clock, until, k + 1, (i + 1) mod n, 0, s1), acts, clock, until, k, i, idle, s)
      \<in> measures [\<lambda>(a, c, u, k, i, e, s). left_in s, \<lambda>(a, c, u, k, i, e, s). length (ls_batch s) - e]"
    by simp
qed auto

declare run_loop.simps [simp del]

definition runnable :: "(nat \<Rightarrow> u64) \<Rightarrow> u64 \<Rightarrow> nat \<Rightarrow> nat \<Rightarrow> nat \<Rightarrow> lstate \<Rightarrow> bool" where
  "runnable clock until k i idle s \<longleftrightarrow>
     idle < length (ls_batch s) \<and> \<not> ls_exit s \<and> (k = 0 \<or> clock k < until) \<and> i < length (ls_batch s)"

lemma run_loop_stop: "\<not> runnable clock until k i idle s \<Longrightarrow> run_loop acts clock until k i idle s = ([], i, s)"
  by (subst run_loop.simps) (auto simp: runnable_def Let_def)

lemma run_loop_skip:
  "runnable clock until k i idle s \<Longrightarrow> ls_batch s ! i = [] \<Longrightarrow>
   run_loop acts clock until k i idle s =
     run_loop acts clock until k ((i + 1) mod length (ls_batch s)) (idle + 1) s"
  by (subst run_loop.simps) (simp add: runnable_def Let_def)

lemma run_loop_step:
  assumes "runnable clock until k i idle s" "ls_batch s ! i = x # xs"
    "run_loop acts clock until (k + 1) ((i + 1) mod length (ls_batch s)) 0
       (do_actions (acts k) (start_step x s)) = (tr, r)"
  shows "run_loop acts clock until k i idle s = ((i, x, clock (k + 1) - clock k) # tr, r)"
  using assms by (subst run_loop.simps) (simp add: runnable_def Let_def)

text \<open>
  \<^verbatim>\<open>loop_run()\<close> on the \<open>n\<close> lists from \<open>base\<close>: the lists move to the batches, and what is left of the
  batches moves back before what the lists hold by then.
\<close>

definition loop_run ::
    "(nat \<Rightarrow> action list) \<Rightarrow> (nat \<Rightarrow> u64) \<Rightarrow> nat \<Rightarrow> nat \<Rightarrow> nat \<Rightarrow> u64 \<Rightarrow> lstate \<Rightarrow> (nat \<times> ref \<times> u64) list \<times> nat \<times> lstate"
where
  "loop_run acts clock base n cursor until s =
     (let s = s\<lparr>ls_batch := take n (drop base (ls_ready s)),
                ls_ready := overwrite (ls_ready s) base (replicate n [])\<rparr>;
          (trace, cursor, s) = run_loop acts clock until 0 cursor 0 s;
          s = s\<lparr>ls_ready := overwrite (ls_ready s) base
                 (map2 (@) (ls_batch s) (take n (drop base (ls_ready s)))), ls_batch := []\<rparr>
      in (trace, cursor, s))"

section \<open>An entry is on one list\<close>

definition ls_ok :: "lstate \<Rightarrow> bool" where
  "ls_ok s \<longleftrightarrow> length (ls_ready s) = 3 \<and> distinct (on_lists s) \<and> length (ls_work s) = length loop_bound"

lemma concat_append_to:
  "i < length xss \<Longrightarrow> mset (concat (xss[i := xss ! i @ [x]])) = add_mset x (mset (concat xss))"
proof (induction xss arbitrary: i)
  case (Cons xs xss)
  then show ?case by (cases i) auto
qed simp

lemma distinct_mset: "mset xs = mset ys \<Longrightarrow> distinct xs \<longleftrightarrow> distinct ys"
  by (rule mset_eq_imp_distinct_iff)

lemma append_to_ok:
  assumes "ls_ok s" "\<not> queued s x" "i < 3"
  shows "ls_ok (append_to i x s)"
proof -
  have "mset (on_lists (append_to i x s)) = mset (x # on_lists s)"
    using assms by (simp add: on_lists_def append_to_def concat_append_to ls_ok_def)
  from distinct_mset [OF this] show ?thesis
    using assms by (simp add: ls_ok_def queued_def append_to_def)
qed

lemma distinct_concat_remove1: "distinct (concat xss) \<Longrightarrow> distinct (concat (map (remove1 x) xss))"
proof (induction xss)
  case (Cons xs xss)
  have "set (concat (map (remove1 x) xss)) \<subseteq> set (concat xss)"
    using set_remove1_subset by fastforce
  moreover have "set (remove1 x xs) \<subseteq> set xs" by (rule set_remove1_subset)
  ultimately show ?case using Cons by auto
qed simp

lemma loop_unready_ok:
  assumes "ls_ok s"
  shows "ls_ok (loop_unready x s)"
proof (cases "queued s x")
  case True
  then have u: "loop_unready x s =
      s\<lparr>ls_ready := map (remove1 x) (ls_ready s), ls_batch := map (remove1 x) (ls_batch s)\<rparr>"
    by (simp add: loop_unready_def)
  have "distinct (concat (ls_ready s @ ls_batch s))" using assms by (simp add: ls_ok_def on_lists_def)
  then have d: "distinct (concat (map (remove1 x) (ls_ready s @ ls_batch s)))" by (rule distinct_concat_remove1)
  have "on_lists (loop_unready x s) = concat (map (remove1 x) (ls_ready s @ ls_batch s))"
    unfolding u on_lists_def by simp
  then show ?thesis using d assms unfolding ls_ok_def by (simp add: u)
next
  case False
  then show ?thesis using assms by (simp add: loop_unready_def)
qed

lemma do_action_ok: "ls_ok s \<Longrightarrow> ls_ok (do_action a s)"
proof (cases a)
  case (Ready x)
  then show "ls_ok s \<Longrightarrow> ?thesis"
    by (auto simp: loop_ready_def ONGOING_def FRESH_def intro: append_to_ok)
next
  case (Ready_Bulk x)
  then show "ls_ok s \<Longrightarrow> ?thesis" by (auto simp: loop_ready_bulk_def BULK_def intro: append_to_ok)
next
  case (Unready x)
  then show "ls_ok s \<Longrightarrow> ?thesis" by (simp add: loop_unready_ok)
qed (auto simp: loop_exit_def loop_work_def ls_ok_def on_lists_def)

lemma do_actions_ok: "ls_ok s \<Longrightarrow> ls_ok (do_actions as s)"
  unfolding do_actions_def by (induction as arbitrary: s) (auto intro: do_action_ok)

lemma start_step_ok: "ls_ok s \<Longrightarrow> ls_ok (start_step x s)"
  using loop_unready_ok [of s x] by (simp add: start_step_def ls_ok_def on_lists_def Let_def)

lemma ready_bulk_queues:
  assumes "ls_ok s"
  shows "queued (loop_ready_bulk x s) x"
proof (cases "queued s x")
  case False
  have "ls_ready s ! BULK @ [x] \<in> set (ls_ready (append_to BULK x s))"
    using assms by (simp add: append_to_def ls_ok_def BULK_def set_update_memI)
  then have "x \<in> set (concat (ls_ready (append_to BULK x s)))" by force
  then show ?thesis using False by (simp add: loop_ready_bulk_def queued_def on_lists_def)
qed (simp add: loop_ready_bulk_def)

section \<open>What a run does\<close>

text \<open>The entries of the list \<open>j\<close> that a trace has run.\<close>

definition ran :: "nat \<Rightarrow> (nat \<times> ref \<times> u64) list \<Rightarrow> ref list" where
  "ran j trace = map (fst \<circ> snd) (filter (\<lambda>e. fst e = j) trace)"

lemma ran_simps [simp]:
  "ran j [] = []" "ran j ((i, x, d) # tr) = (if i = j then x # ran j tr else ran j tr)"
  by (simp_all add: ran_def)

lemma subseq_remove1: "subseq (remove1 x xs) xs"
  by (induction xs) auto

lemma batch_action:
  assumes "j < length (ls_batch s)"
  shows "subseq (ls_batch (do_action a s) ! j) (ls_batch s ! j)"
  using assms
  by (cases a)
     (auto simp: loop_ready_def loop_ready_bulk_def append_to_def loop_unready_def loop_exit_def
        loop_work_def subseq_remove1)

lemma batch_actions:
  "j < length (ls_batch s) \<Longrightarrow> subseq (ls_batch (do_actions as s) ! j) (ls_batch s ! j)"
  unfolding do_actions_def
proof (induction as arbitrary: s)
  case (Cons a as)
  have "subseq (ls_batch (fold do_action as (do_action a s)) ! j) (ls_batch (do_action a s) ! j)"
    using Cons by simp
  then show ?case using batch_action [OF Cons.prems, of a] subseq_order.trans by simp
qed simp

lemma batch_other_list:
  assumes "ls_ok s" "i < length (ls_batch s)" "x \<in> set (ls_batch s ! i)" "j < length (ls_batch s)" "j \<noteq> i"
  shows "x \<notin> set (ls_batch s ! j)"
proof
  assume x: "x \<in> set (ls_batch s ! j)"
  have d: "distinct (concat (ls_batch s))" using assms(1) by (simp add: ls_ok_def on_lists_def)
  have "\<not> distinct (concat bs)" if "a < b" "b < length bs" "x \<in> set (bs ! a)" "x \<in> set (bs ! b)" for a b bs
  proof -
    have "bs = take b bs @ bs ! b # drop (Suc b) bs" using that by (simp add: id_take_nth_drop)
    moreover have "bs ! a \<in> set (take b bs)" using that by (auto simp: in_set_conv_nth intro!: exI [of _ a])
    then have "x \<in> set (concat (take b bs))" using that(3) by auto
    ultimately show ?thesis using that(4) by (metis IntI concat.simps(2) concat_append distinct_append emptyE UnI1 set_append)
  qed
  then show False using d assms x by (metis linorder_neqE_nat)
qed

lemma start_step_batch:
  assumes ok: "ls_ok s" and i: "i < length (ls_batch s)" "ls_batch s ! i = x # xs" and j: "j < length (ls_batch s)"
  shows "ls_batch (start_step x s) ! j = (if j = i then xs else ls_batch s ! j)"
proof -
  have x: "x \<in> set (ls_batch s ! i)" using i by simp
  then have "queued s x" using i(1) by (auto simp: queued_def on_lists_def in_set_conv_nth) (metis nth_mem)
  moreover have "j \<noteq> i \<Longrightarrow> x \<notin> set (ls_batch s ! j)" using batch_other_list [OF ok i(1) x j] .
  ultimately show ?thesis using i j by (simp add: start_step_def loop_unready_def Let_def remove1_idem)
qed

lemma run_loop_ok:
  "ls_ok s \<Longrightarrow> run_loop acts clock until k i idle s = (trace, i', s') \<Longrightarrow>
     ls_ok s' \<and> length (ls_batch s') = length (ls_batch s) \<and>
     (\<forall>j < length (ls_batch s). subseq (ran j trace @ ls_batch s' ! j) (ls_batch s ! j)) \<and>
     (\<forall>e \<in> set trace. fst e < length (ls_batch s)) \<and>
     (\<forall>m < length trace. k + m = 0 \<or> clock (k + m) < until) \<and>
     map (snd \<circ> snd) trace = map (\<lambda>m. clock (m + 1) - clock m) [k..<k + length trace]"
proof (induction acts clock until k i idle s arbitrary: trace i' s' rule: run_loop.induct)
  case (1 acts clock until k i idle s)
  let ?n = "length (ls_batch s)"
  show ?case
  proof (cases "runnable clock until k i idle s")
    case False
    then have "trace = [] \<and> s' = s" using "1.prems"(2) run_loop_stop by simp
    then show ?thesis using "1.prems"(1) by simp
  next
    case run: True
    then have c: "idle < ?n \<and> \<not> ls_exit s \<and> (k = 0 \<or> clock k < until) \<and> i < ?n" by (simp add: runnable_def)
    show ?thesis
    proof (cases "ls_batch s ! i")
      case Nil
      have "run_loop acts clock until k ((i + 1) mod ?n) (idle + 1) s = (trace, i', s')"
        using "1.prems"(2) run_loop_skip [OF run Nil] by simp
      from "1.IH"(1) [OF refl c Nil "1.prems"(1) this] show ?thesis .
    next
      case (Cons x xs)
      let ?u = "start_step x s"
      let ?v = "do_actions (acts k) ?u"
      obtain tr r where r: "run_loop acts clock until (k + 1) ((i + 1) mod ?n) 0 ?v = (tr, r)"
        by (metis surj_pair)
      have out: "trace = (i, x, clock (k + 1) - clock k) # tr" "r = (i', s')"
        using "1.prems"(2) run_loop_step [OF run Cons r] by simp_all
      have v: "ls_ok ?v" using "1.prems"(1) by (intro do_actions_ok start_step_ok)
      note IH = "1.IH"(2) [OF refl c Cons refl v r [unfolded out(2)]]
      have b: "subseq (ran j trace @ ls_batch s' ! j) (ls_batch s ! j)" if j: "j < ?n" for j
      proof -
        have "subseq (ls_batch ?v ! j) (ls_batch ?u ! j)" using batch_actions [of j ?u] j by simp
        moreover have "subseq (ran j tr @ ls_batch s' ! j) (ls_batch ?v ! j)" using IH j by simp
        ultimately have "subseq (ran j tr @ ls_batch s' ! j) (ls_batch ?u ! j)"
          using subseq_order.trans by blast
        then show ?thesis
          using start_step_batch [OF "1.prems"(1) _ Cons j] c Cons out(1) by (simp split: if_splits)
      qed
      have t: "k + m = 0 \<or> clock (k + m) < until" if "m < length trace" for m
      proof (cases m)
        case 0
        then show ?thesis using c by auto
      next
        case (Suc m')
        then show ?thesis using IH that out(1) by auto
      qed
      have "[k..<k + Suc (length tr)] = k # [Suc k..<Suc k + length tr]" by (subst upt_conv_Cons) simp_all
      then have "[k..<k + length trace] = k # [k + 1..<k + 1 + length tr]" using out(1) by (simp del: upt_Suc)
      moreover have "map (snd \<circ> snd) tr = map (\<lambda>m. clock (m + 1) - clock m) [k + 1..<k + 1 + length tr]" using IH by blast
      ultimately have "map (snd \<circ> snd) trace = map (\<lambda>m. clock (m + 1) - clock m) [k..<k + length trace]"
        by (simp only: out(1) list.map comp_apply snd_conv)
      moreover have "ls_ok s'" "length (ls_batch s') = ?n" using IH by simp_all
      moreover have "\<forall>e \<in> set trace. fst e < ?n" using IH c out(1) by simp
      ultimately show ?thesis using b t by blast
    qed
  qed
qed

lemma run_loop_idle:
  assumes "run_loop acts clock until k i idle s = ([], i', s')" "i < length (ls_batch s)"
    "idle \<le> length (ls_batch s)"
  shows "s' = s \<and> i' = (if \<not> ls_exit s \<and> (k = 0 \<or> clock k < until) then (i + (length (ls_batch s) - idle)) mod length (ls_batch s)
           else i)"
  using assms
proof (induction "length (ls_batch s) - idle" arbitrary: i idle)
  case 0
  then show ?case using run_loop_stop [of clock until k i idle s acts] by (auto simp: runnable_def)
next
  case (Suc d)
  let ?n = "length (ls_batch s)"
  have idle: "idle < ?n" using Suc.hyps(2) by simp
  show ?case
  proof (cases "runnable clock until k i idle s")
    case False
    then show ?thesis using Suc.prems idle run_loop_stop [OF False, of acts] by (auto simp: runnable_def)
  next
    case True
    have b: "ls_batch s ! i = []"
    proof (cases "ls_batch s ! i")
      case (Cons x xs)
      obtain tr r where "run_loop acts clock until (k + 1) ((i + 1) mod ?n) 0 (do_actions (acts k) (start_step x s)) = (tr, r)"
        by (metis surj_pair)
      from run_loop_step [OF True Cons this] show ?thesis using Suc.prems(1) by simp
    qed
    have r: "run_loop acts clock until k ((i + 1) mod ?n) (idle + 1) s = ([], i', s')"
      using Suc.prems(1) run_loop_skip [OF True b, of acts] by simp
    have d: "d = ?n - (idle + 1)" using Suc.hyps(2) by simp
    have i: "(i + 1) mod ?n < ?n" using idle by (intro mod_less_divisor) linarith
    have l: "idle + 1 \<le> ?n" using idle by simp
    have "s' = s \<and> i' = ((i + 1) mod ?n + (?n - (idle + 1))) mod ?n"
      using Suc.hyps(1) [OF d r i l] True unfolding runnable_def by metis
    moreover have "((i + 1) mod ?n + (?n - (idle + 1))) mod ?n = (i + (?n - idle)) mod ?n"
    proof -
      have "((i + 1) mod ?n + (?n - (idle + 1))) mod ?n = (i + 1 + (?n - (idle + 1))) mod ?n" by (rule mod_add_left_eq)
      also have "i + 1 + (?n - (idle + 1)) = i + (?n - idle)" using idle by simp
      finally show ?thesis .
    qed
    ultimately show ?thesis using True by (simp add: runnable_def)
  qed
qed

lemma run_loop_progress:
  assumes "\<not> ls_exit s" "k = 0 \<or> clock k < until" "i < length (ls_batch s)"
    "d < length (ls_batch s) - idle" "ls_batch s ! ((i + d) mod length (ls_batch s)) \<noteq> []"
  shows "fst (run_loop acts clock until k i idle s) \<noteq> []"
  using assms
proof (induction d arbitrary: i idle)
  case 0
  let ?n = "length (ls_batch s)"
  have run: "runnable clock until k i idle s" using 0 by (simp add: runnable_def)
  obtain x xs where x: "ls_batch s ! i = x # xs" using 0 by (cases "ls_batch s ! i") auto
  obtain tr r where "run_loop acts clock until (k + 1) ((i + 1) mod ?n) 0 (do_actions (acts k) (start_step x s)) = (tr, r)"
    by (metis surj_pair)
  from run_loop_step [OF run x this] show ?case by simp
next
  case (Suc d)
  let ?n = "length (ls_batch s)"
  have run: "runnable clock until k i idle s" using Suc.prems by (simp add: runnable_def)
  show ?case
  proof (cases "ls_batch s ! i")
    case Nil
    have "((i + 1) mod ?n + d) mod ?n = (i + Suc d) mod ?n" by (simp add: mod_add_left_eq)
    moreover have "(i + 1) mod ?n < ?n" using Suc.prems(3) by (cases ?n) auto
    ultimately show ?thesis
      using Suc.IH [of "(i + 1) mod ?n" "idle + 1"] Suc.prems run_loop_skip [OF run Nil, of acts] by simp
  next
    case (Cons x xs)
    obtain tr r where "run_loop acts clock until (k + 1) ((i + 1) mod ?n) 0 (do_actions (acts k) (start_step x s)) = (tr, r)"
      by (metis surj_pair)
    from run_loop_step [OF run Cons this] show ?thesis by simp
  qed
qed

text \<open>The cursor ends after the list of the last step.\<close>

lemma run_loop_cursor:
  "run_loop acts clock until k i idle s = (trace, i', s') \<Longrightarrow> i < length (ls_batch s) \<Longrightarrow> trace \<noteq> [] \<Longrightarrow>
     i' = (fst (last trace) + 1) mod length (ls_batch s)"
proof (induction acts clock until k i idle s arbitrary: trace i' s' rule: run_loop.induct)
  case (1 acts clock until k i idle s)
  let ?n = "length (ls_batch s)"
  have run: "runnable clock until k i idle s" using "1.prems" run_loop_stop by fastforce
  then have c: "idle < ?n \<and> \<not> ls_exit s \<and> (k = 0 \<or> clock k < until) \<and> i < ?n" by (simp add: runnable_def)
  have next_i: "(i + 1) mod ?n < ?n" using "1.prems"(2) by (cases ?n) auto
  show ?case
  proof (cases "ls_batch s ! i")
    case Nil
    have "run_loop acts clock until k ((i + 1) mod ?n) (idle + 1) s = (trace, i', s')"
      using "1.prems"(1) run_loop_skip [OF run Nil] by simp
    from "1.IH"(1) [OF refl c Nil this next_i "1.prems"(3)] show ?thesis .
  next
    case (Cons x xs)
    let ?v = "do_actions (acts k) (start_step x s)"
    obtain tr r where r: "run_loop acts clock until (k + 1) ((i + 1) mod ?n) 0 ?v = (tr, r)" by (metis surj_pair)
    have out: "trace = (i, x, clock (k + 1) - clock k) # tr" "r = (i', s')"
      using "1.prems"(1) run_loop_step [OF run Cons r] by simp_all
    show ?thesis
    proof (cases tr)
      case Nil
      have "i' = (i + 1) mod ?n"
        using run_loop_idle [of acts clock until "k + 1" "(i + 1) mod ?n" 0 ?v i' s'] r out next_i Nil
        by (simp split: if_splits)
      then show ?thesis using out(1) Nil by simp
    next
      case (Cons e tr')
      note IH = "1.IH"(2) [OF refl c \<open>ls_batch s ! i = x # xs\<close> refl r [unfolded out(2)]]
      then show ?thesis using next_i Cons out(1) by simp
    qed
  qed
qed

text \<open>While both lists have entries the steps alternate: a list steps twice in a row only when the other is empty.\<close>

lemma run_loop_turns:
  "run_loop acts clock until k i idle s = (trace, i', s') \<Longrightarrow> ls_ok s \<Longrightarrow> length (ls_batch s) = 2 \<Longrightarrow> i < 2 \<Longrightarrow>
     trace = as @ (j, x, d) # (j, y, e) # bs \<Longrightarrow> c \<in> set bs \<Longrightarrow> fst c = j"
proof (induction acts clock until k i idle s arbitrary: trace i' s' as rule: run_loop.induct)
  case (1 acts clock until k i idle s)
  let ?n = "length (ls_batch s)"
  have run: "runnable clock until k i idle s" using "1.prems"(1,5) run_loop_stop by fastforce
  then have c: "idle < ?n \<and> \<not> ls_exit s \<and> (k = 0 \<or> clock k < until) \<and> i < ?n" by (simp add: runnable_def)
  have next_i: "(i + 1) mod ?n < 2" using "1.prems"(3) by simp
  show ?case
  proof (cases "ls_batch s ! i")
    case Nil
    have "run_loop acts clock until k ((i + 1) mod ?n) (idle + 1) s = (trace, i', s')"
      using "1.prems"(1) run_loop_skip [OF run Nil] by simp
    from "1.IH"(1) [OF refl c Nil this "1.prems"(2,3) next_i "1.prems"(5,6)] show ?thesis .
  next
    case (Cons z zs)
    let ?v = "do_actions (acts k) (start_step z s)"
    obtain tr r where r: "run_loop acts clock until (k + 1) ((i + 1) mod ?n) 0 ?v = (tr, r)" by (metis surj_pair)
    have out: "trace = (i, z, clock (k + 1) - clock k) # tr" "r = (i', s')"
      using "1.prems"(1) run_loop_step [OF run Cons r] by simp_all
    have v: "ls_ok ?v" using "1.prems"(2) by (intro do_actions_ok start_step_ok)
    have len: "length (ls_batch ?v) = 2" using "1.prems"(3) by simp
    show ?thesis
    proof (cases as)
      case (Cons a as')
      then have tr: "tr = as' @ (j, x, d) # (j, y, e) # bs" using "1.prems"(5) out(1) by simp
      show ?thesis
        using "1.IH"(2) [OF refl c \<open>ls_batch s ! i = z # zs\<close> refl r [unfolded out(2)] v len next_i tr "1.prems"(6)] .
    next
      case Nil
      then have tr: "tr = (i, y, e) # bs" "i = j" using "1.prems"(5) out(1) by auto
      let ?o = "(i + 1) mod ?n"
      have o: "?o < 2" "?o \<noteq> i" using "1.prems"(3,4) by (auto simp: less_2_cases_iff)
      have "ls_batch ?v ! ?o = []"
      proof (cases "ls_batch ?v ! ?o")
        case (Cons w ws)
        have rv: "runnable clock until (k + 1) ?o 0 ?v"
          using run_loop_stop [of clock until "k + 1" ?o 0 ?v acts] r tr(1) by fastforce
        obtain tr' r' where "run_loop acts clock until (k + 1 + 1) ((?o + 1) mod length (ls_batch ?v)) 0
            (do_actions (acts (k + 1)) (start_step w ?v)) = (tr', r')" by (metis surj_pair)
        from run_loop_step [OF rv Cons this] show ?thesis using r tr(1) o(2) by simp
      qed
      moreover have "subseq (ran ?o tr @ ls_batch s' ! ?o) (ls_batch ?v ! ?o)" "\<forall>e \<in> set tr. fst e < 2"
        using run_loop_ok [OF v r [unfolded out(2)]] len o(1) by auto
      ultimately have "ran ?o tr = []" "\<forall>e \<in> set tr. fst e < 2"
        by (metis Nil_is_append_conv list_emb_Nil2, blast)
      then have "\<forall>e \<in> set tr. fst e \<noteq> ?o" "\<forall>e \<in> set tr. fst e < 2" by (auto simp: ran_def filter_empty_conv)
      moreover have "c \<in> set tr" using tr(1) "1.prems"(6) by simp
      ultimately show ?thesis using o tr(2) "1.prems"(4) by (metis less_2_cases_iff)
    qed
  qed
qed

section \<open>Without removals\<close>

fun unreadies :: "action \<Rightarrow> bool" where
  "unreadies (Unready x) = True"
| "unreadies _ = False"

fun queues :: "ref \<Rightarrow> action \<Rightarrow> bool" where
  "queues x (Ready y) = (x = y)"
| "queues x (Ready_Bulk y) = (x = y)"
| "queues x _ = False"

lemma append_to_grows:
  "\<exists>new. ls_ready (append_to i x s) ! l = ls_ready s ! l @ new \<and> (\<forall>y \<in> set new. y = x)"
proof -
  consider "i \<noteq> l" | "i = l" "i < length (ls_ready s)" | "length (ls_ready s) \<le> i" by linarith
  then show ?thesis
  proof cases
    case 1
    then show ?thesis by (simp add: append_to_def)
  next
    case 2
    then show ?thesis by (simp add: append_to_def)
  next
    case 3
    then show ?thesis by (simp add: append_to_def list_update_beyond)
  qed
qed

lemma append_to_simps [simp]:
  "ls_batch (append_to i x s) = ls_batch s" "length (ls_ready (append_to i x s)) = length (ls_ready s)"
  by (simp_all add: append_to_def)

lemma actions_only_queue:
  assumes "\<forall>a \<in> set as. \<not> unreadies a" "length (ls_ready s) = 3"
  shows "ls_batch (do_actions as s) = ls_batch s \<and> length (ls_ready (do_actions as s)) = 3 \<and>
    (\<forall>l < 3. \<exists>new. ls_ready (do_actions as s) ! l = ls_ready s ! l @ new \<and> (\<forall>x \<in> set new. \<exists>a \<in> set as. queues x a))"
  using assms unfolding do_actions_def
proof (induction as arbitrary: s)
  case (Cons a as)
  have one: "ls_batch (do_action a s) = ls_batch s \<and> length (ls_ready (do_action a s)) = 3 \<and>
    (\<forall>l < 3. \<exists>new. ls_ready (do_action a s) ! l = ls_ready s ! l @ new \<and> (\<forall>x \<in> set new. queues x a))"
    using Cons.prems append_to_grows
    by (cases a) (auto simp: loop_ready_def loop_ready_bulk_def loop_exit_def loop_work_def)
  then have rec: "ls_batch (fold do_action as (do_action a s)) = ls_batch (do_action a s) \<and>
    length (ls_ready (fold do_action as (do_action a s))) = 3 \<and>
    (\<forall>l < 3. \<exists>new. ls_ready (fold do_action as (do_action a s)) ! l = ls_ready (do_action a s) ! l @ new \<and>
       (\<forall>x \<in> set new. \<exists>a \<in> set as. queues x a))"
    using Cons.IH [of "do_action a s"] Cons.prems(1) by simp
  have "\<exists>new. ls_ready (fold do_action as (do_action a s)) ! l = ls_ready s ! l @ new \<and>
      (\<forall>x \<in> set new. \<exists>b \<in> set (a # as). queues x b)" if l: "l < 3" for l
  proof -
    obtain n1 where n1: "ls_ready (do_action a s) ! l = ls_ready s ! l @ n1" "\<forall>x \<in> set n1. queues x a"
      using one l by blast
    obtain n2 where n2: "ls_ready (fold do_action as (do_action a s)) ! l = ls_ready (do_action a s) ! l @ n2"
        "\<forall>x \<in> set n2. \<exists>b \<in> set as. queues x b"
      using rec l by blast
    show ?thesis using n1 n2 by (intro exI [of _ "n1 @ n2"]) auto
  qed
  then show ?case using one rec by simp
qed simp

lemma start_step_ready:
  assumes "ls_ok s" "i < length (ls_batch s)" "ls_batch s ! i = x # xs"
  shows "ls_ready (start_step x s) = ls_ready s"
proof -
  have "x \<in> set (concat (ls_batch s))" using assms(2,3) by (metis UN_I list.set_intros(1) nth_mem set_concat)
  moreover have "distinct (concat (ls_ready s) @ concat (ls_batch s))" using assms(1) by (simp add: ls_ok_def on_lists_def)
  ultimately have "x \<notin> set (concat (ls_ready s))" by auto
  then have "map (remove1 x) (ls_ready s) = ls_ready s" by (intro map_idI) (auto simp: remove1_idem)
  then show ?thesis by (simp add: start_step_def loop_unready_def Let_def)
qed

lemma run_loop_only_queues:
  "run_loop acts clock until k i idle s = (trace, i', s') \<Longrightarrow> ls_ok s \<Longrightarrow> \<forall>m. \<forall>a \<in> set (acts m). \<not> unreadies a \<Longrightarrow>
     (\<forall>j < length (ls_batch s). ran j trace @ ls_batch s' ! j = ls_batch s ! j) \<and>
     (\<forall>l < 3. \<exists>new. ls_ready s' ! l = ls_ready s ! l @ new \<and>
        (\<forall>x \<in> set new. \<exists>m < length trace. \<exists>a \<in> set (acts (k + m)). queues x a))"
proof (induction acts clock until k i idle s arbitrary: trace i' s' rule: run_loop.induct)
  case (1 acts clock until k i idle s)
  let ?n = "length (ls_batch s)"
  show ?case
  proof (cases "runnable clock until k i idle s")
    case False
    then show ?thesis using "1.prems"(1) run_loop_stop by simp
  next
    case run: True
    then have c: "idle < ?n \<and> \<not> ls_exit s \<and> (k = 0 \<or> clock k < until) \<and> i < ?n" by (simp add: runnable_def)
    show ?thesis
    proof (cases "ls_batch s ! i")
      case Nil
      have "run_loop acts clock until k ((i + 1) mod ?n) (idle + 1) s = (trace, i', s')"
        using "1.prems"(1) run_loop_skip [OF run Nil] by simp
      from "1.IH"(1) [OF refl c Nil this "1.prems"(2,3)] show ?thesis .
    next
      case (Cons z zs)
      let ?u = "start_step z s"
      let ?v = "do_actions (acts k) ?u"
      obtain tr r where r: "run_loop acts clock until (k + 1) ((i + 1) mod ?n) 0 ?v = (tr, r)" by (metis surj_pair)
      have out: "trace = (i, z, clock (k + 1) - clock k) # tr" "r = (i', s')"
        using "1.prems"(1) run_loop_step [OF run Cons r] by simp_all
      have v: "ls_ok ?v" using "1.prems"(2) by (intro do_actions_ok start_step_ok)
      note IH = "1.IH"(2) [OF refl c Cons refl r [unfolded out(2)] v "1.prems"(3)]
      have i: "i < ?n" using c by blast
      have q: "ls_batch ?v = ls_batch ?u \<and> (\<forall>l < 3. \<exists>new. ls_ready ?v ! l = ls_ready s ! l @ new \<and>
          (\<forall>x \<in> set new. \<exists>a \<in> set (acts k). queues x a))"
        using actions_only_queue [of "acts k" ?u] "1.prems"(2,3) start_step_ready [OF "1.prems"(2) i Cons]
        by (simp add: ls_ok_def)
      have "ran j trace @ ls_batch s' ! j = ls_batch s ! j" if j: "j < ?n" for j
        using IH q j start_step_batch [OF "1.prems"(2) i Cons j] Cons out(1) by auto
      moreover have "\<exists>new. ls_ready s' ! l = ls_ready s ! l @ new \<and>
          (\<forall>x \<in> set new. \<exists>m < length trace. \<exists>a \<in> set (acts (k + m)). queues x a)" if l: "l < 3" for l
      proof -
        obtain n1 where n1: "ls_ready ?v ! l = ls_ready s ! l @ n1" "\<forall>x \<in> set n1. \<exists>a \<in> set (acts k). queues x a"
          using q l by blast
        obtain n2 where n2: "ls_ready s' ! l = ls_ready ?v ! l @ n2"
            "\<forall>x \<in> set n2. \<exists>m < length tr. \<exists>a \<in> set (acts (k + 1 + m)). queues x a"
          using IH l by blast
        have "\<exists>m < length trace. \<exists>a \<in> set (acts (k + m)). queues x a" if "x \<in> set (n1 @ n2)" for x
        proof (cases "x \<in> set n1")
          case True
          then show ?thesis using n1(2) out(1) by (intro exI [of _ 0]) simp
        next
          case False
          then have "x \<in> set n2" using that by simp
          with n2(2) obtain m where "m < length tr" "\<exists>a \<in> set (acts (k + 1 + m)). queues x a" by blast
          then show ?thesis using out(1) by (intro exI [of _ "Suc m"]) simp
        qed
        then show ?thesis using n1(1) n2(1) by (intro exI [of _ "n1 @ n2"]) simp
      qed
      ultimately show ?thesis by blast
    qed
  qed
qed

section \<open>A run of a group of lists\<close>

text \<open>The two groups that the loop runs: the interactive lists, and the bulk list.\<close>

definition group :: "nat \<Rightarrow> nat \<Rightarrow> bool" where
  "group base n \<longleftrightarrow> base = FRESH \<and> n = 2 \<or> base = BULK \<and> n = 1"

definition taken :: "nat \<Rightarrow> nat \<Rightarrow> lstate \<Rightarrow> lstate" where
  "taken base n s =
     s\<lparr>ls_batch := take n (drop base (ls_ready s)), ls_ready := overwrite (ls_ready s) base (replicate n [])\<rparr>"

definition put_back :: "nat \<Rightarrow> nat \<Rightarrow> lstate \<Rightarrow> lstate" where
  "put_back base n s =
     s\<lparr>ls_ready := overwrite (ls_ready s) base (map2 (@) (ls_batch s) (take n (drop base (ls_ready s)))),
       ls_batch := []\<rparr>"

lemma loop_run_parts:
  assumes "loop_run acts clock base n cursor until s = (trace, cursor', s')"
  obtains s1 where "run_loop acts clock until 0 cursor 0 (taken base n s) = (trace, cursor', s1)"
    "s' = put_back base n s1"
  using assms by (auto simp: loop_run_def taken_def put_back_def Let_def split: prod.splits)

lemma length_3: "length xs = 3 \<longleftrightarrow> (\<exists>a b c. xs = [a, b, c])"
  by (auto simp: numeral_3_eq_3 length_Suc_conv)

lemma length_2: "length xs = 2 \<longleftrightarrow> (\<exists>a b. xs = [a, b])"
  by (auto simp: numeral_2_eq_2 length_Suc_conv)

lemma taken_simps:
  assumes "length (ls_ready s) = 3" "group base n"
  shows "length (ls_batch (taken base n s)) = n" "length (ls_ready (taken base n s)) = 3"
    "j < n \<Longrightarrow> ls_batch (taken base n s) ! j = ls_ready s ! (base + j)"
    "j < n \<Longrightarrow> ls_ready (taken base n s) ! (base + j) = []"
    "l < base \<or> base + n \<le> l \<Longrightarrow> l < 3 \<Longrightarrow> ls_ready (taken base n s) ! l = ls_ready s ! l"
  using assms
  by (auto simp: taken_def group_def FRESH_def BULK_def overwrite_def length_3 numeral_2_eq_2 less_Suc_eq)

lemma taken_ok:
  assumes "ls_ok s" "ls_batch s = []" "group base n"
  shows "ls_ok (taken base n s)"
  using assms
  by (auto simp: taken_def group_def FRESH_def BULK_def overwrite_def length_3 numeral_2_eq_2 ls_ok_def on_lists_def)

lemma put_back_simps:
  assumes "length (ls_ready s) = 3" "length (ls_batch s) = n" "group base n"
  shows "length (ls_ready (put_back base n s)) = 3" "ls_batch (put_back base n s) = []"
    "j < n \<Longrightarrow> ls_ready (put_back base n s) ! (base + j) = ls_batch s ! j @ ls_ready s ! (base + j)"
    "l < base \<or> base + n \<le> l \<Longrightarrow> l < 3 \<Longrightarrow> ls_ready (put_back base n s) ! l = ls_ready s ! l"
  using assms
  by (auto simp: put_back_def group_def FRESH_def BULK_def overwrite_def length_3 numeral_2_eq_2 less_Suc_eq
      length_Suc_conv)

lemma put_back_ok:
  assumes "ls_ok s" "length (ls_batch s) = n" "group base n"
  shows "ls_ok (put_back base n s)"
proof -
  have "mset (on_lists (put_back base n s)) = mset (on_lists s)"
    using assms
    by (auto simp: put_back_def group_def FRESH_def BULK_def overwrite_def length_3 numeral_2_eq_2 ls_ok_def
        on_lists_def length_Suc_conv)
  then have "distinct (on_lists (put_back base n s))" using assms(1) distinct_mset by (metis ls_ok_def)
  moreover have "length (ls_ready (put_back base n s)) = 3"
    using put_back_simps(1) [OF _ assms(2,3)] assms(1) by (simp add: ls_ok_def)
  moreover have "ls_work (put_back base n s) = ls_work s" by (simp add: put_back_def)
  ultimately show ?thesis using assms(1) by (simp add: ls_ok_def)
qed

lemma distinct_subseq: "subseq xs ys \<Longrightarrow> distinct ys \<Longrightarrow> distinct xs"
proof (induction rule: list_emb.induct)
  case (list_emb_Cons2 x y xs ys)
  then show ?case using list_emb_set [of "(=)" xs ys] by force
qed auto

lemma distinct_ran:
  assumes "\<forall>e \<in> set tr. fst e < (2::nat)" "distinct (ran 0 tr @ ran 1 tr)"
  shows "distinct (map (fst \<circ> snd) tr)"
  using assms
proof (induction tr)
  case (Cons e tr)
  have "set (map (fst \<circ> snd) tr) = set (ran 0 tr) \<union> set (ran 1 tr)"
    using Cons.prems(1) by (force simp: ran_def less_2_cases_iff)
  moreover obtain i x d where "e = (i, x, d)" by (metis surj_pair)
  moreover have "i = 0 \<or> i = 1" using Cons.prems(1) calculation(2) by auto
  ultimately show ?case using Cons by auto
qed simp

section \<open>Properties\<close>

text \<open>
  C15.  A run of a group of ready lists only runs entries that were queued on them before the call, each at most
  once and first in first out within its list.  A step after the first starts only before the time limit, the times recorded are those
  between the readings of the clock, and afterwards every entry still is on at most one list.
\<close>

theorem run_once_in_order:
  assumes "ls_ok s" "ls_batch s = []" "group base n"
    and run: "loop_run acts clock base n cursor until s = (trace, cursor', s')"
  shows "ls_ok s' \<and> ls_batch s' = [] \<and>
    distinct (map (fst \<circ> snd) trace) \<and> (\<forall>e \<in> set trace. fst e < n) \<and>
    (\<forall>j < n. subseq (ran j trace) (ls_ready s ! (base + j))) \<and>
    (\<forall>m < length trace. m = 0 \<or> clock m < until) \<and>
    map (snd \<circ> snd) trace = map (\<lambda>m. clock (m + 1) - clock m) [0..<length trace]"
proof -
  obtain s1 where s1: "run_loop acts clock until 0 cursor 0 (taken base n s) = (trace, cursor', s1)"
      "s' = put_back base n s1"
    using loop_run_parts [OF run] .
  have len: "length (ls_ready s) = 3" using assms(1) by (simp add: ls_ok_def)
  note t = taken_simps [OF len assms(3)]
  note ok = taken_ok [OF assms(1-3)]
  note r = run_loop_ok [OF ok s1(1), unfolded t(1)]
  note lt = r [THEN conjunct2, THEN conjunct2, THEN conjunct2, THEN conjunct1]
  have s': "ls_ok s' \<and> ls_batch s' = []"
    using put_back_ok [OF _ _ assms(3), of s1] put_back_simps(2) [OF _ _ assms(3), of s1] r s1(2) by (simp add: ls_ok_def)
  have sub: "subseq (ran j trace) (ls_ready s ! (base + j))" if "j < n" for j
  proof -
    have "subseq (ran j trace @ ls_batch s1 ! j) (ls_ready s ! (base + j))" using r t(3) [OF that, symmetric] that by simp
    moreover have "subseq (ran j trace) (ran j trace @ ls_batch s1 ! j)" by (rule prefix_imp_subseq) simp
    ultimately show ?thesis by (rule subseq_order.trans [rotated])
  qed
  have d: "distinct (ran 0 trace @ ran 1 trace)"
  proof -
    have all: "distinct (concat (ls_ready s))" using assms(1) by (simp add: ls_ok_def on_lists_def)
    have one: "ran 1 trace = []" if "n = 1"
    proof -
      have "\<forall>e \<in> set trace. fst e < 1" using lt that by simp
      then show ?thesis by (auto simp: ran_def filter_empty_conv)
    qed
    from assms(3) consider "base = 0 \<and> n = 2" | "base = 2 \<and> n = 1" by (auto simp: group_def FRESH_def BULK_def)
    then show ?thesis
    proof cases
      case 1
      obtain a b c where abc: "ls_ready s = [a, b, c]" using len by (auto simp: length_3)
      have "subseq (ran 0 trace @ ran 1 trace) (a @ b)"
      proof (rule list_emb_append_mono)
        show "subseq (ran 0 trace) a" using sub [of 0] 1 abc by simp
        show "subseq (ran 1 trace) b" using sub [of 1] 1 abc by simp
      qed
      moreover have "distinct (a @ b)" using all abc by auto
      ultimately show ?thesis by (rule distinct_subseq)
    next
      case 2
      obtain a b c where abc: "ls_ready s = [a, b, c]" using len by (auto simp: length_3)
      have "subseq (ran 0 trace) c" using sub [of 0] 2 abc by simp
      moreover have "distinct c" using all abc by simp
      ultimately show ?thesis using distinct_subseq one 2 by simp
    qed
  qed
  have two: "\<forall>e \<in> set trace. fst e < 2" using lt assms(3) by (auto simp: group_def)
  show ?thesis
    using s' sub lt distinct_ran [OF two d] r [THEN conjunct2, THEN conjunct2, THEN conjunct2, THEN conjunct2]
    by simp
qed

text \<open>Three entries on the interactive lists, one of which queues a fourth.\<close>

definition example_lists :: lstate where
  "example_lists = \<lparr>ls_ready = [[10, 11], [20], [30]], ls_batch = [], ls_exit = False, ls_stepping = True,
     ls_work = replicate 13 0\<rparr>"

definition example_acts :: "nat \<Rightarrow> action list" where
  "example_acts k = (if k = 0 then [Ready 40, Ready 10, Work 0 3] else [])"


theorem run_once_in_order_witness:
  "distinct [20, 10, 11::ref] \<and> subseq [10, 11::ref] (ls_ready example_lists ! (0 + 0)) \<and>
   subseq [20::ref] (ls_ready example_lists ! (0 + 1))"
proof -
  have run: "loop_run example_acts of_nat 0 2 1 100 example_lists =
      ([(1, 20, 1), (0, 10, 1), (0, 11, 1)], 1, example_lists\<lparr>ls_ready := [[], [40], [30]]\<rparr>)"
    by code_simp
  have ok: "ls_ok example_lists" "ls_batch example_lists = []" "group 0 2" by code_simp+
  note r = run_once_in_order [OF ok run]
  have "subseq (ran j [(1, 20, 1), (0, 10, 1), (0, 11, 1)]) (ls_ready example_lists ! (0 + j))" if "j < 2" for j
    using r that by blast
  from this [of 0] this [of 1] r show ?thesis by simp
qed

text \<open>
  A run whose steps remove nothing from the lists runs a beginning of each list of its group; the entries it did not run go
  back to the head of their list in the same order, before those queued by the steps of this run, and the
  other lists only grow at their end.
\<close>

theorem run_puts_back_the_rest:
  assumes "ls_ok s" "ls_batch s = []" "group base n" "\<forall>m. \<forall>a \<in> set (acts m). \<not> unreadies a"
    and run: "loop_run acts clock base n cursor until s = (trace, cursor', s')"
  shows "(\<forall>j < n. \<exists>rest new. ls_ready s ! (base + j) = ran j trace @ rest \<and> ls_ready s' ! (base + j) = rest @ new \<and>
      (\<forall>x \<in> set new. \<exists>m < length trace. \<exists>a \<in> set (acts m). queues x a)) \<and>
    (\<forall>l < 3. (l < base \<or> base + n \<le> l) \<longrightarrow> prefix (ls_ready s ! l) (ls_ready s' ! l))"
proof -
  obtain s1 where s1: "run_loop acts clock until 0 cursor 0 (taken base n s) = (trace, cursor', s1)"
      "s' = put_back base n s1"
    using loop_run_parts [OF run] .
  have len: "length (ls_ready s) = 3" using assms(1) by (simp add: ls_ok_def)
  note t = taken_simps [OF len assms(3)]
  note ok = taken_ok [OF assms(1-3)]
  note q = run_loop_only_queues [OF s1(1) ok assms(4), unfolded t(1) add_0]
  have r: "ls_ok s1" "length (ls_batch s1) = n" using run_loop_ok [OF ok s1(1)] t(1) by simp_all
  then have len1: "length (ls_ready s1) = 3" by (simp add: ls_ok_def)
  note b = put_back_simps [OF len1 r(2) assms(3)]
  have "\<exists>rest new. ls_ready s ! (base + j) = ran j trace @ rest \<and> ls_ready s' ! (base + j) = rest @ new \<and>
      (\<forall>x \<in> set new. \<exists>m < length trace. \<exists>a \<in> set (acts m). queues x a)" if j: "j < n" for j
  proof -
    have "base + j < 3" using assms(3) j by (auto simp: group_def FRESH_def BULK_def)
    then obtain new where "ls_ready s1 ! (base + j) = new" "\<forall>x \<in> set new. \<exists>m < length trace. \<exists>a \<in> set (acts m). queues x a"
      using q t(4) [OF j] by (metis append_Nil)
    then show ?thesis using q t(3) [OF j] b(3) [OF j] j s1(2) by metis
  qed
  moreover have "prefix (ls_ready s ! l) (ls_ready s' ! l)" if "l < 3" "l < base \<or> base + n \<le> l" for l
    using q t(5) [OF that(2,1)] b(4) [OF that(2,1)] s1(2) that(1) by (metis prefixI)
  ultimately show ?thesis by blast
qed

theorem run_puts_back_the_rest_witness:
  "\<exists>rest new. ls_ready example_lists ! 0 = [10] @ rest \<and> [11] = rest @ new \<and> prefix [30] [30::ref]"
proof -
  have run: "loop_run example_acts of_nat 0 2 1 2 example_lists =
      ([(1, 20, 1), (0, 10, 1)], 1, example_lists\<lparr>ls_ready := [[11], [40], [30]]\<rparr>)"
    by code_simp
  have ok: "ls_ok example_lists" "ls_batch example_lists = []" "group 0 2" by code_simp+
  have "\<forall>m. \<forall>a \<in> set (example_acts m). \<not> unreadies a" by (simp add: example_acts_def)
  from run_puts_back_the_rest [OF ok this run] show ?thesis by (auto dest!: spec [of _ "0::nat"])
qed

text \<open>
  C14.  A run makes progress and is fair: when an entry is queued and the loop is not to exit, a step runs; the first is
  from the list of the cursor unless that list is empty; a list steps twice in a row only when the
  other list has run out; and the cursor is left after the list of the last step.
\<close>

theorem run_is_fair:
  assumes "ls_ok s" "ls_batch s = []" "group base n" "\<not> ls_exit s" "cursor < n"
    and x: "j < n" "ls_ready s ! (base + j) \<noteq> []"
    and run: "loop_run acts clock base n cursor until s = (trace, cursor', s')"
  shows "trace \<noteq> [] \<and> (ls_ready s ! (base + cursor) \<noteq> [] \<longrightarrow> fst (hd trace) = cursor) \<and>
    cursor' = (fst (last trace) + 1) mod n \<and>
    (\<forall>as k x d y e bs. n = 2 \<longrightarrow> trace = as @ (k, x, d) # (k, y, e) # bs \<longrightarrow> (\<forall>c \<in> set bs. fst c = k))"
proof -
  obtain s1 where s1: "run_loop acts clock until 0 cursor 0 (taken base n s) = (trace, cursor', s1)"
    using loop_run_parts [OF run] .
  have len: "length (ls_ready s) = 3" using assms(1) by (simp add: ls_ok_def)
  note t = taken_simps [OF len assms(3)]
  note ok = taken_ok [OF assms(1-3)]
  have exit: "\<not> ls_exit (taken base n s)" using assms(4) by (simp add: taken_def)
  obtain d where d: "d < n" "(cursor + d) mod n = j"
  proof (cases "cursor \<le> j")
    case True
    then show ?thesis using that [of "j - cursor"] x(1) by simp
  next
    case False
    then show ?thesis using that [of "n + j - cursor"] x(1) assms(5) by simp
  qed
  have ne: "trace \<noteq> []"
    using run_loop_progress [of "taken base n s" 0 clock until cursor d 0 acts] exit assms(5) t d t(3) [OF x(1)] x(2) s1
    by simp
  have hd: "fst (hd trace) = cursor" if c: "ls_ready s ! (base + cursor) \<noteq> []"
  proof -
    obtain y ys where y: "ls_batch (taken base n s) ! cursor = y # ys" using c t(3) [OF assms(5)] by (metis list.exhaust)
    have run0: "runnable clock until 0 cursor 0 (taken base n s)" using exit assms(5) t(1) by (simp add: runnable_def)
    obtain tr r where "run_loop acts clock until (0 + 1) ((cursor + 1) mod length (ls_batch (taken base n s))) 0
        (do_actions (acts 0) (start_step y (taken base n s))) = (tr, r)"
      by (metis surj_pair)
    from run_loop_step [OF run0 y this] show ?thesis using s1 by simp
  qed
  have "cursor' = (fst (last trace) + 1) mod n" using run_loop_cursor [OF s1 _ ne] assms(5) t(1) by simp
  moreover have "fst c = k" if "n = 2" "trace = as @ (k, x, d) # (k, y, e) # bs" "c \<in> set bs" for as k x d y e bs c
    using run_loop_turns [OF s1 ok _ _ that(2,3)] t(1) that(1) assms(5) by simp
  ultimately show ?thesis using ne hd by blast
qed

theorem run_is_fair_witness: "fst (hd [(1, 20::ref, 1::u64), (0, 10, 1), (0, 11, 1)]) = (1::nat)"
proof -
  have run: "loop_run example_acts of_nat 0 2 1 100 example_lists =
      ([(1, 20, 1), (0, 10, 1), (0, 11, 1)], 1, example_lists\<lparr>ls_ready := [[], [40], [30]]\<rparr>)"
    by code_simp
  have ok: "ls_ok example_lists" "ls_batch example_lists = []" "group 0 2" "\<not> ls_exit example_lists" "1 < (2::nat)"
    "0 < (2::nat)" "ls_ready example_lists ! (0 + 0) \<noteq> []" "ls_ready example_lists ! (0 + 1) \<noteq> []"
    by code_simp+
  show ?thesis using run_is_fair [OF ok(1-7) run] ok(8) by blast
qed

text \<open>
  The budget of a step: what \<^verbatim>\<open>loop_fits()\<close> lets through keeps the work within the bound, unless it is the
  first work of its kind in the step, and \<^verbatim>\<open>loop_room()\<close> is exactly what is left; \<^verbatim>\<open>loop_spent()\<close> is true
  exactly when nothing is left, and then the entry is queued for another step.
\<close>

theorem step_budget:
  assumes "ls_ok s" "u < 13"
  shows "loop_room (Some s) u = loop_bound ! u - min (ls_work s ! u) (loop_bound ! u) \<and>
    (loop_fits s u n \<longleftrightarrow> unat (ls_work s ! u) + unat n \<le> unat (loop_bound ! u) \<or> ls_work s ! u = 0
       \<or> n = 0) \<and>
    (fst (loop_spent s x u) \<longleftrightarrow> loop_bound ! u \<le> ls_work s ! u) \<and>
    (fst (loop_spent s x u) \<longrightarrow> queued (snd (loop_spent s x u)) x) \<and>
    (\<exists>s'. loop_work (Some s) u n = (None, Some s') \<and> ls_work s' ! u = ls_work s ! u + n \<and>
       (\<forall>v < 13. v \<noteq> u \<longrightarrow> ls_work s' ! v = ls_work s ! v))"
proof -
  have len: "length (ls_work s) = 13" "length loop_bound = 13" using assms(1) by (simp_all add: ls_ok_def loop_bound_def)
  have pos: "loop_bound ! u \<noteq> 0"
  proof -
    have "list_all (\<lambda>b. b \<noteq> 0) loop_bound" by code_simp
    then show ?thesis using assms(2) len(2) by (simp add: list_all_length)
  qed
  define w where "w = ls_work s ! u"
  define b where "b = loop_bound ! u"
  have room: "loop_room (Some s) u = (if w < b then b - w else 0)"
    using assms(2) len by (simp add: loop_room_def w_def b_def)
  have room_nat: "unat (loop_room (Some s) u) = unat b - unat w"
    unfolding room using word_less_nat_alt [of w b] unat_sub [of w b] by (simp add: word_le_nat_alt)
  have room_zero: "loop_room (Some s) u = 0 \<longleftrightarrow> b \<le> w"
    using room_nat by (simp add: word_le_nat_alt word_unat_eq_iff)
  have "loop_room (Some s) u = b - min w b" unfolding room by (auto simp: min_def not_less intro: order.antisym)
  moreover have "loop_fits s u n \<longleftrightarrow> unat w + unat n \<le> unat b \<or> w = 0 \<or> n = 0"
  proof -
    have "loop_fits s u n \<longleftrightarrow> unat n \<le> unat b - unat w \<or> unat b - unat w = unat b"
      using room_nat assms(2) len by (simp add: loop_fits_def Let_def word_le_nat_alt word_unat_eq_iff b_def)
    moreover have "0 < unat b" using pos by (simp add: b_def unat_gt_0)
    moreover have "w = 0 \<longleftrightarrow> unat w = 0" "n = 0 \<longleftrightarrow> unat n = 0" by (simp_all add: unat_eq_0)
    ultimately show ?thesis by linarith
  qed
  moreover have "fst (loop_spent s x u) \<longleftrightarrow> b \<le> w"
    using room_zero by (simp add: loop_spent_def)
  moreover have "fst (loop_spent s x u) \<longrightarrow> queued (snd (loop_spent s x u)) x"
    using ready_bulk_queues [OF assms(1)] by (simp add: loop_spent_def)
  moreover have "\<exists>s'. loop_work (Some s) u n = (None, Some s') \<and> ls_work s' ! u = w + n \<and>
       (\<forall>v < 13. v \<noteq> u \<longrightarrow> ls_work s' ! v = ls_work s ! v)"
    using assms(2) len by (simp add: loop_work_def w_def)
  ultimately show ?thesis by (simp add: w_def b_def)
qed

theorem step_budget_witness:
  "loop_room (Some example_lists) 1 = 65536 \<and> (loop_fits example_lists 1 70000)"
proof -
  have "ls_ok example_lists" "(1::nat) < 13" by code_simp+
  from step_budget [OF this] show ?thesis by (simp add: example_lists_def loop_bound_def)
qed

end
