(* ===== verification/Ring.thy ===== *)
theory Ring
  imports Prelude
begin

text \<open>
  The intrusive circular doubly linked list of \<^verbatim>\<open>src/list.h\<close>, on the level of pointers: a node
  is a number, and the memory \<open>list_mem\<close> holds the members \<open>next\<close> and \<open>prev\<close> of every node.
  \<open>ring m h xs\<close> says that the head \<open>h\<close> leads through the nodes \<open>xs\<close> in order and back, in
  both directions.  The lemmas show that appending, deleting and transplanting change the
  list \<open>xs\<close> as their names say, touch no other ring, and that the empty test is exact.
\<close>

type_synonym node = nat

record list_mem =
  nx :: "node \<Rightarrow> node"
  pv :: "node \<Rightarrow> node"

abbreviation set_nx :: "node \<Rightarrow> node \<Rightarrow> list_mem \<Rightarrow> list_mem" where
  "set_nx p v m \<equiv> m\<lparr>nx := (nx m)(p := v)\<rparr>"

abbreviation set_pv :: "node \<Rightarrow> node \<Rightarrow> list_mem \<Rightarrow> list_mem" where
  "set_pv p v m \<equiv> m\<lparr>pv := (pv m)(p := v)\<rparr>"

definition list_init :: "node \<Rightarrow> list_mem \<Rightarrow> list_mem" where
  "list_init dest m = set_pv dest dest (set_nx dest dest m)"

definition list_is_empty :: "list_mem \<Rightarrow> node \<Rightarrow> bool" where
  "list_is_empty m ptr \<longleftrightarrow> ptr = nx m ptr"

definition list_append :: "node \<Rightarrow> node \<Rightarrow> list_mem \<Rightarrow> list_mem" where
  "list_append dest n m =
     (let m = set_pv n (pv m dest) m;
          m = set_nx n dest m;
          m = set_nx (pv m dest) n m
      in set_pv dest n m)"

definition list_del :: "node \<Rightarrow> list_mem \<Rightarrow> list_mem" where
  "list_del n m =
     (let m = set_nx (pv m n) (nx m n) m;
          m = set_pv (nx m n) (pv m n) m
      in list_init n m)"

definition list_transplant :: "node \<Rightarrow> node \<Rightarrow> list_mem \<Rightarrow> list_mem" where
  "list_transplant dest src m =
     (if \<not> list_is_empty m src then
        let m = set_pv (nx m src) (pv m dest) m;
            m = set_nx (pv m dest) (nx m src) m;
            m = set_nx (pv m src) dest m;
            m = set_pv dest (pv m src) m
        in list_init src m
      else m)"

section \<open>Rings\<close>

text \<open>The way from \<open>a\<close> through \<open>xs\<close> to \<open>b\<close>.\<close>

fun way :: "list_mem \<Rightarrow> node \<Rightarrow> node list \<Rightarrow> node \<Rightarrow> bool" where
  "way m a [] b \<longleftrightarrow> nx m a = b \<and> pv m b = a"
| "way m a (x # xs) b \<longleftrightarrow> nx m a = x \<and> pv m x = a \<and> way m x xs b"

definition ring :: "list_mem \<Rightarrow> node \<Rightarrow> node list \<Rightarrow> bool" where
  "ring m h xs \<longleftrightarrow> distinct (h # xs) \<and> way m h xs h"

lemma way_append [simp]: "way m a (xs @ x # ys) b \<longleftrightarrow> way m a xs x \<and> way m x ys b"
  by (induction xs arbitrary: a) auto

text \<open>A way rests on the \<open>next\<close> of its nodes but the last and the \<open>prev\<close> of its nodes but the first.\<close>

lemma way_cong:
  assumes "\<And>x. x \<in> set (a # xs) \<Longrightarrow> nx m' x = nx m x" "\<And>x. x \<in> set (xs @ [b]) \<Longrightarrow> pv m' x = pv m x"
  shows "way m' a xs b \<longleftrightarrow> way m a xs b"
  using assms by (induction xs arbitrary: a) auto

lemma way_first: "way m a xs b \<Longrightarrow> nx m a = hd (xs @ [b])"
  by (cases xs) auto

lemma way_last: "way m a xs b \<Longrightarrow> pv m b = last (a # xs)"
  by (induction xs arbitrary: a) auto

lemma ring_next_prev:
  "ring m h xs \<Longrightarrow> nx m h = hd (xs @ [h])" "ring m h xs \<Longrightarrow> pv m h = last (h # xs)"
  using way_first way_last by (auto simp: ring_def)

lemma ring_is_empty: "ring m h xs \<Longrightarrow> list_is_empty m h \<longleftrightarrow> xs = []"
  using ring_next_prev(1) [of m h xs] by (cases xs) (auto simp: list_is_empty_def ring_def)

lemma ring_init: "ring (list_init h m) h []"
  by (simp add: ring_def list_init_def)

text \<open>The operations touch the nodes of their rings alone.\<close>

lemma ring_other:
  assumes "ring m h xs" "\<And>x. x \<in> set (h # xs) \<Longrightarrow> nx m' x = nx m x \<and> pv m' x = pv m x"
  shows "ring m' h xs"
  using assms way_cong [of h xs m' m h] by (auto simp: ring_def)

lemma in_butlast:
  assumes "distinct l" "x \<in> set (butlast l)"
  shows "x \<noteq> last l" "x \<in> set l"
proof -
  have "l = butlast l @ [last l]" using assms(2) by (cases l) auto
  then have "distinct (butlast l @ [last l])" using assms(1) by simp
  then show "x \<noteq> last l" using assms(2) by auto
  show "x \<in> set l" using assms(2) by (rule in_set_butlastD)
qed

text \<open>Leading the end of a way to another node.\<close>

lemma way_relink:
  "way m a xs b \<Longrightarrow> (\<And>x. x \<in> set (butlast (a # xs)) \<Longrightarrow> nx m' x = nx m x) \<Longrightarrow>
     (\<And>x. x \<in> set xs \<Longrightarrow> pv m' x = pv m x) \<Longrightarrow>
     nx m' (last (a # xs)) = c \<Longrightarrow> pv m' c = last (a # xs) \<Longrightarrow> way m' a xs c"
proof (induction xs arbitrary: a)
  case (Cons y ys)
  have "way m' y ys c"
    using Cons.prems by (intro Cons.IH) (auto split: if_splits)
  then show ?case using Cons.prems(1) Cons.prems(2) [of a] Cons.prems(3) [of y] by simp
qed simp

lemma append_ring:
  assumes r: "ring m h xs" and n: "n \<notin> set (h # xs)"
  shows "ring (list_append h n m) h (xs @ [n])"
proof -
  let ?m = "list_append h n m" and ?l = "last (h # xs)"
  have l: "pv m h = ?l" by (rule ring_next_prev [OF r])
  have d: "distinct (h # xs)" and w: "way m h xs h" using r by (simp_all add: ring_def)
  have "?l \<in> set (h # xs)" by (rule last_in_set) simp
  then have ln: "n \<noteq> ?l" using n by auto
  have m: "nx ?m = (nx m)(n := h, ?l := n)" "pv ?m = (pv m)(n := ?l, h := n)"
    using n l ln by (auto simp: list_append_def Let_def)
  have "way ?m h xs n"
  proof (rule way_relink [OF w])
    show "nx ?m x = nx m x" if "x \<in> set (butlast (h # xs))" for x
      using in_butlast [OF d that] n by (auto simp: m)
  qed (use d n in \<open>auto simp: m\<close>)
  then show ?thesis using d n ln by (auto simp: ring_def m)
qed

lemma append_other:
  assumes "ring m h xs" "ring m g ys" "set (h # xs) \<inter> set (g # ys) = {}" "n \<notin> set (g # ys)"
  shows "ring (list_append h n m) g ys"
proof (rule ring_other [OF assms(2)])
  fix x assume x: "x \<in> set (g # ys)"
  have "pv m h \<in> set (h # xs)" using ring_next_prev(2) [OF assms(1)] by simp
  then show "nx (list_append h n m) x = nx m x \<and> pv (list_append h n m) x = pv m x"
    using x assms(3,4) by (auto simp: list_append_def Let_def)
qed

lemma del_ring:
  assumes r: "ring m h (as @ n # bs)"
  shows "ring (list_del n m) h (as @ bs)" "ring (list_del n m) n []"
proof -
  let ?p = "pv m n" and ?q = "nx m n" and ?m = "list_del n m"
  have d: "distinct (h # as @ n # bs)" and w: "way m h as n" "way m n bs h"
    using r by (auto simp: ring_def)
  have p: "?p = last (h # as)" and q: "?q = hd (bs @ [h])" using way_last [OF w(1)] way_first [OF w(2)] by auto
  have pq: "?p \<noteq> n" "?q \<noteq> n" using d p q by (cases as rule: rev_cases; cases bs; auto)+
  have m: "nx ?m = (nx m)(?p := ?q, n := n)" "pv ?m = (pv m)(?q := ?p, n := n)"
    using pq by (auto simp: list_del_def list_init_def Let_def)
  show "ring ?m n []" by (simp add: ring_def m)
  have da: "distinct (h # as)" using d by simp
  have head: "way ?m h as ?q"
  proof (rule way_relink [OF w(1)])
    show "nx ?m x = nx m x" if "x \<in> set (butlast (h # as))" for x
      using in_butlast [OF da that] d p by (auto simp: m)
    show "pv ?m x = pv m x" if "x \<in> set as" for x
      using that d q by (cases bs) (auto simp: m)
  qed (use p pq in \<open>simp_all add: m\<close>)
  have "way ?m h (as @ bs) h"
  proof (cases bs)
    case Nil
    then show ?thesis using head q by simp
  next
    case (Cons b es)
    have "?p \<in> set (h # as)" using p by simp
    then have "way ?m b es h \<longleftrightarrow> way m b es h"
      using Cons d q by (intro way_cong) (auto simp: m)
    then show ?thesis using Cons head q w(2) by simp
  qed
  then show "ring ?m h (as @ bs)" using d by (simp add: ring_def)
qed

lemma del_other:
  assumes "ring m h (as @ n # bs)" "ring m g ys" "set (h # as @ n # bs) \<inter> set (g # ys) = {}"
  shows "ring (list_del n m) g ys"
proof (rule ring_other [OF assms(2)])
  fix x assume x: "x \<in> set (g # ys)"
  have w: "way m h as n" "way m n bs h" using assms(1) by (auto simp: ring_def)
  have "pv m n \<in> set (h # as)" using way_last [OF w(1)] by simp
  moreover have "nx m n \<in> set (h # bs)" using way_first [OF w(2)] by (cases bs) auto
  ultimately show "nx (list_del n m) x = nx m x \<and> pv (list_del n m) x = pv m x"
    using x assms(3) by (auto simp: list_del_def list_init_def Let_def)
qed

lemma transplant_ring:
  assumes d: "ring m h xs" and s: "ring m g ys" and apart: "set (h # xs) \<inter> set (g # ys) = {}"
  shows "ring (list_transplant h g m) h (xs @ ys)" "ring (list_transplant h g m) g []"
proof -
  let ?m = "list_transplant h g m"
  have dd: "distinct (h # xs)" "distinct (g # ys)" and w: "way m h xs h" "way m g ys g"
    using d s by (simp_all add: ring_def)
  have "ring ?m h (xs @ ys) \<and> ring ?m g []"
  proof (cases ys)
    case Nil
    then show ?thesis using d s ring_is_empty [OF s] by (simp add: list_transplant_def)
  next
    case (Cons y zs)
    let ?l = "last (h # xs)" and ?k = "last (y # zs)"
    have ends: "pv m h = ?l" "nx m g = y" "pv m g = ?k"
      using ring_next_prev [OF d] ring_next_prev [OF s] Cons by simp_all
    have ne: "\<not> list_is_empty m g" using ring_is_empty [OF s] Cons by simp
    have l: "?l \<in> set (h # xs)" and k: "?k \<in> set (y # zs)" by (rule last_in_set; simp)+
    have gy: "g \<noteq> y" "g \<noteq> h" "h \<noteq> y" "?k \<noteq> g" "?l \<noteq> g" "?l \<noteq> ?k"
      using dd apart Cons l k by auto
    have m: "nx ?m = (nx m)(?l := y, ?k := h, g := g)" "pv ?m = (pv m)(y := ?l, h := ?k, g := g)"
      using ne ends gy by (auto simp: list_transplant_def list_init_def Let_def)
    have "way ?m h xs y"
    proof (rule way_relink [OF w(1)])
      show "nx ?m x = nx m x" if "x \<in> set (butlast (h # xs))" for x
        using in_butlast [OF dd(1) that] apart k Cons by (auto simp: m)
    qed (use apart Cons gy dd in \<open>auto simp: m\<close>)
    moreover have "way ?m y zs h"
    proof (rule way_relink)
      show "way m y zs g" using w(2) Cons by simp
      show "nx ?m x = nx m x" if "x \<in> set (butlast (y # zs))" for x
        using in_butlast [OF _ that] dd(2) apart l Cons by (auto simp: m)
    qed (use apart Cons gy dd in \<open>auto simp: m\<close>)
    ultimately have "way ?m h (xs @ ys) h" using Cons by simp
    moreover have "distinct (h # xs @ ys)" using dd apart by auto
    ultimately show ?thesis by (simp add: ring_def m)
  qed
  then show "ring ?m h (xs @ ys)" "ring ?m g []" by auto
qed

lemma transplant_other:
  assumes d: "ring m h xs" and s: "ring m g ys" and o: "ring m f zs"
    and apart: "set (h # xs) \<inter> set (f # zs) = {}" "set (g # ys) \<inter> set (f # zs) = {}"
  shows "ring (list_transplant h g m) f zs"
proof (rule ring_other [OF o])
  fix x assume x: "x \<in> set (f # zs)"
  have "pv m h \<in> set (h # xs)" "pv m g \<in> set (g # ys)"
    using ring_next_prev(2) [OF d] ring_next_prev(2) [OF s] by simp_all
  moreover have "nx m g \<in> set (g # ys)" using ring_next_prev(1) [OF s] by (cases ys) auto
  moreover have "h \<in> set (h # xs)" "g \<in> set (g # ys)" by simp_all
  ultimately have "x \<noteq> pv m h" "x \<noteq> pv m g" "x \<noteq> nx m g" "x \<noteq> h" "x \<noteq> g"
    using x apart by blast+
  then show "nx (list_transplant h g m) x = nx m x \<and> pv (list_transplant h g m) x = pv m x"
    by (simp add: list_transplant_def list_init_def Let_def)
qed

text \<open>
  The loop \<open>list_foreach_safe\<close>: it reads a node's \<open>next\<close> before its body runs, so the body may
  delete the node.  \<open>list_foreach_del\<close> is the walk that deletes the nodes of a predicate.
\<close>

fun foreach_del :: "nat \<Rightarrow> (node \<Rightarrow> bool) \<Rightarrow> node \<Rightarrow> node \<Rightarrow> list_mem \<Rightarrow> list_mem option" where
  "foreach_del fuel P head pos m =
     (if pos = head then Some m
      else case fuel of 0 \<Rightarrow> None
        | Suc fuel \<Rightarrow> foreach_del fuel P head (nx m pos) (if P pos then list_del pos m else m))"

declare foreach_del.simps [simp del]

lemma foreach_del_ring:
  "ring m h (as @ bs) \<Longrightarrow> length bs \<le> fuel \<Longrightarrow>
     \<exists>m'. foreach_del fuel P h (hd (bs @ [h])) m = Some m' \<and> ring m' h (as @ filter (\<lambda>x. \<not> P x) bs)"
proof (induction bs arbitrary: as m fuel)
  case Nil
  then show ?case by (simp add: foreach_del.simps)
next
  case (Cons b bs)
  obtain f where f: "fuel = Suc f" "length bs \<le> f" using Cons.prems(2) by (cases fuel) auto
  have w: "way m b bs h" "b \<noteq> h" using Cons.prems(1) by (auto simp: ring_def)
  have nx: "nx m b = hd (bs @ [h])" by (rule way_first [OF w(1)])
  show ?case
  proof (cases "P b")
    case True
    from Cons.IH [OF del_ring(1) [OF Cons.prems(1)] f(2)] True nx w f show ?thesis
      by (simp add: foreach_del.simps [of "Suc f"])
  next
    case False
    have "ring m h ((as @ [b]) @ bs)" using Cons.prems(1) by simp
    from Cons.IH [OF this f(2)] False nx w f show ?thesis
      by (simp add: foreach_del.simps [of "Suc f"])
  qed
qed

section \<open>Properties\<close>

text \<open>
  On a well-formed ring, appending a node that is in no ring puts it at the end, the
  empty test tells whether the ring has nodes, deleting a node takes it alone out and leaves it a ring of its own,
  and transplanting a ring moves all its nodes behind those of another and leaves it empty.
\<close>

theorem list_operations:
  assumes "ring m h (xs @ n # ys)" "ring m g zs" "set (h # xs @ n # ys) \<inter> set (g # zs) = {}"
    "k \<notin> set (h # xs @ n # ys) \<union> set (g # zs)"
  shows "ring (list_append h k m) h (xs @ n # ys @ [k]) \<and> ring (list_append h k m) g zs \<and>
    ring (list_del n m) h (xs @ ys) \<and> ring (list_del n m) n [] \<and> ring (list_del n m) g zs \<and>
    ring (list_transplant h g m) h (xs @ n # ys @ zs) \<and> ring (list_transplant h g m) g [] \<and>
    (list_is_empty m g \<longleftrightarrow> zs = [])"
proof (intro conjI)
  have k: "k \<notin> set (h # xs @ n # ys)" "k \<notin> set (g # zs)" using assms(4) by blast+
  show "ring (list_append h k m) h (xs @ n # ys @ [k])" using append_ring [OF assms(1) k(1)] by simp
  show "ring (list_append h k m) g zs" by (rule append_other [OF assms(1-3) k(2)])
  show "ring (list_del n m) h (xs @ ys)" "ring (list_del n m) n []" by (rule del_ring [OF assms(1)])+
  show "ring (list_del n m) g zs" by (rule del_other [OF assms(1-3)])
  show "ring (list_transplant h g m) h (xs @ n # ys @ zs)" "ring (list_transplant h g m) g []"
    using transplant_ring [OF assms(1-3)] by simp_all
  show "list_is_empty m g \<longleftrightarrow> zs = []" by (rule ring_is_empty [OF assms(2)])
qed

theorem list_operations_witness:
  "\<exists>m. ring m 0 [1] \<and> ring m 2 [3] \<and> ring (list_transplant 0 2 m) 0 [1, 3]"
proof -
  define m where "m = list_append 2 3 (list_append 0 1 (list_init 0 (list_init 2 \<lparr> nx = id, pv = id \<rparr>)))"
  have "ring m 0 ([] @ 1 # [])" "ring m 2 [3]"
    by (simp_all add: m_def ring_def list_append_def list_init_def Let_def)
  then show ?thesis using list_operations [of m 0 "[]" 1 "[]" 2 "[3]" 4] by auto
qed

end
