(* ===== verification/Htab.thy ===== *)
theory Htab
  imports Prelude "HOL-Library.Multiset"
begin

text \<open>
  The intrusive hash table of \<^verbatim>\<open>src/htab.h\<close> and the intrusive list of \<^verbatim>\<open>src/list.h\<close>, on the level
  of pointers.  A record is named by a number, its \<open>ref\<close>.  The part of the record that the table uses
  (\<^verbatim>\<open>struct htab_node\<close>) is in the memory \<open>ht_nodes\<close>, and a pointer to a pointer (\<^verbatim>\<open>struct htab_node
  **\<close>) is a \<open>link\<close>: a bucket, or the member \<open>next\<close> of a node.  A walk along a chain is a
  partial function: it gives \<open>None\<close> when the code would follow a null pointer or never end.

  The lemmas show that on a well-formed table the chains are lists of distinct records, each in the bucket
  of its hash; that every operation ends, keeps the table well-formed and changes these
  lists as its comment says; and that the walk by \<open>htab_next\<close> visits every record once.
  The locale \<open>keyed_table\<close> is the interface the tables of records are used through.
\<close>

unbundle bit_operations_syntax

section \<open>The table\<close>

record htab_node =
  nd_hash :: u64
  nd_next :: "ref option"

record htab =
  ht_buckets :: "ref option list"
  ht_mask :: u64
  ht_n :: u64
  ht_nodes :: "ref \<Rightarrow> htab_node"

datatype link = Bucket nat | Next ref

definition read_link :: "htab \<Rightarrow> link \<Rightarrow> ref option" where
  "read_link t l = (case l of Bucket i \<Rightarrow> ht_buckets t ! i | Next x \<Rightarrow> nd_next (ht_nodes t x))"

definition set_next :: "(ref \<Rightarrow> htab_node) \<Rightarrow> ref \<Rightarrow> ref option \<Rightarrow> (ref \<Rightarrow> htab_node)" where
  "set_next nodes x v = nodes(x := (nodes x)\<lparr>nd_next := v\<rparr>)"

definition write_link :: "htab \<Rightarrow> link \<Rightarrow> ref option \<Rightarrow> htab" where
  "write_link t l v =
     (case l of
        Bucket i \<Rightarrow> t\<lparr>ht_buckets := (ht_buckets t)[i := v]\<rparr>
      | Next x \<Rightarrow> t\<lparr>ht_nodes := set_next (ht_nodes t) x v\<rparr>)"

text \<open>The key's hash is written by the table's user before the record is linked.\<close>

definition set_hash :: "htab \<Rightarrow> ref \<Rightarrow> u64 \<Rightarrow> htab" where
  "set_hash t x h = t\<lparr>ht_nodes := (ht_nodes t)(x := (ht_nodes t x)\<lparr>nd_hash := h\<rparr>)\<rparr>"

text \<open>\<^verbatim>\<open>stdc_has_single_bit()\<close>, and \<^verbatim>\<open>calloc()\<close>, which refuses a size that has no representation.\<close>

definition stdc_has_single_bit :: "u64 \<Rightarrow> bool" where
  "stdc_has_single_bit n \<longleftrightarrow> length (filter (bit n) [0..<64]) = 1"

definition calloc :: "allocs \<Rightarrow> u64 \<Rightarrow> nat \<Rightarrow> bool \<times> allocs" where
  "calloc as n sz = (if unat n * sz \<le> SIZE_MAX then alloc as else (False, as))"

text \<open>\<^verbatim>\<open>htab()\<close>: a table on buckets that the caller provides.\<close>

definition htab_provided :: "(ref \<Rightarrow> htab_node) \<Rightarrow> ref option list \<Rightarrow> u64 \<Rightarrow> htab" where
  "htab_provided nodes buckets n = \<lparr> ht_buckets = buckets, ht_mask = n - 1, ht_n = 0, ht_nodes = nodes \<rparr>"

definition htab_init :: "allocs \<Rightarrow> (ref \<Rightarrow> htab_node) \<Rightarrow> u64 \<Rightarrow> (errno + htab) \<times> allocs" where
  "htab_init as nodes n =
     (if \<not> stdc_has_single_bit n then (Inl EINVAL, as)
      else case calloc as n 8 of
             (False, as) \<Rightarrow> (Inl ENOMEM, as)
           | (True, as) \<Rightarrow>
               (Inr \<lparr> ht_buckets = replicate (unat n) None, ht_mask = n - 1, ht_n = 0,
                      ht_nodes = nodes \<rparr>, as))"

definition htab_fini :: "htab \<Rightarrow> htab" where
  "htab_fini t = t\<lparr> ht_buckets := [], ht_mask := 0, ht_n := 0 \<rparr>"

definition bucket_of :: "u64 \<Rightarrow> u64 \<Rightarrow> nat" where
  "bucket_of m h = unat (h AND m)"

definition htab_bucket :: "htab \<Rightarrow> u64 \<Rightarrow> link" where
  "htab_bucket t h = Bucket (bucket_of (ht_mask t) h)"

definition htab_link :: "htab \<Rightarrow> ref \<Rightarrow> htab" where
  "htab_link t node =
     (let first = htab_bucket t (nd_hash (ht_nodes t node));
          t = t\<lparr>ht_nodes := set_next (ht_nodes t) node (read_link t first)\<rparr>;
          t = write_link t first (Some node)
      in t\<lparr>ht_n := ht_n t + 1\<rparr>)"

partial_function (option) unlink_walk :: "htab \<Rightarrow> link \<Rightarrow> ref \<Rightarrow> link option" where
  "unlink_walk t l node =
     (if read_link t l = Some node then Some l
      else if read_link t l = None then None
      else unlink_walk t (Next (the (read_link t l))) node)"

definition htab_unlink :: "htab \<Rightarrow> ref \<Rightarrow> htab option" where
  "htab_unlink t node =
     (case unlink_walk t (htab_bucket t (nd_hash (ht_nodes t node))) node of
        None \<Rightarrow> None
      | Some l \<Rightarrow>
          let t = write_link t l (nd_next (ht_nodes t node))
          in Some (t\<lparr>ht_n := ht_n t - 1\<rparr>))"

text \<open>A null \<^verbatim>\<open>match\<close> is \<open>None\<close>; the key is part of the predicate.\<close>

partial_function (option) find_walk ::
    "htab \<Rightarrow> link \<Rightarrow> u64 \<Rightarrow> (ref \<Rightarrow> bool) option \<Rightarrow> link option" where
  "find_walk t l h match =
     (if read_link t l \<noteq> None \<and>
         (nd_hash (ht_nodes t (the (read_link t l))) \<noteq> h \<or>
          (match \<noteq> None \<and> \<not> the match (the (read_link t l))))
      then find_walk t (Next (the (read_link t l))) h match else Some l)"

definition htab_find :: "htab \<Rightarrow> u64 \<Rightarrow> (ref \<Rightarrow> bool) option \<Rightarrow> link option" where
  "htab_find t h match = find_walk t (htab_bucket t h) h match"

function next_loop :: "htab \<Rightarrow> nat \<Rightarrow> ref option" where
  "next_loop t i =
     (if i \<le> unat (ht_mask t)
      then (if ht_buckets t ! i \<noteq> None then ht_buckets t ! i else next_loop t (i + 1))
      else None)"
  by pat_completeness auto
termination by (relation "measure (\<lambda>(t, i). Suc (unat (ht_mask t)) - i)") auto

declare next_loop.simps [simp del]

definition htab_next :: "htab \<Rightarrow> ref option \<Rightarrow> ref option" where
  "htab_next t node =
     (case node of
        None \<Rightarrow> next_loop t 0
      | Some x \<Rightarrow>
          if nd_next (ht_nodes t x) \<noteq> None then nd_next (ht_nodes t x)
          else next_loop t (bucket_of (ht_mask t) (nd_hash (ht_nodes t x)) + 1))"

text \<open>The inner and the outer loop of \<^verbatim>\<open>htab_grow()\<close>; \<open>m\<close> is the new mask
  \<open>n - 1\<close>, and a node's \<open>next\<close> is read before it is written.\<close>

partial_function (option) move_chain ::
    "u64 \<Rightarrow> (ref \<Rightarrow> htab_node) \<Rightarrow> ref option list \<Rightarrow> ref option \<Rightarrow>
       ((ref \<Rightarrow> htab_node) \<times> ref option list) option" where
  "move_chain m nodes buckets node =
     (if node = None then Some (nodes, buckets)
      else move_chain m
             (set_next nodes (the node) (buckets ! bucket_of m (nd_hash (nodes (the node)))))
             (buckets[bucket_of m (nd_hash (nodes (the node))) := node])
             (nd_next (nodes (the node))))"

fun move_buckets ::
    "u64 \<Rightarrow> (ref \<Rightarrow> htab_node) \<Rightarrow> ref option list \<Rightarrow> ref option list \<Rightarrow>
       ((ref \<Rightarrow> htab_node) \<times> ref option list) option" where
  "move_buckets m nodes buckets [] = Some (nodes, buckets)"
| "move_buckets m nodes buckets (b # bs) =
     (case move_chain m nodes buckets b of
        None \<Rightarrow> None
      | Some (nodes, buckets) \<Rightarrow> move_buckets m nodes buckets bs)"

definition htab_grow :: "allocs \<Rightarrow> htab \<Rightarrow> ((errno option \<times> htab) \<times> allocs) option" where
  "htab_grow as t =
     (let n = 2 * (ht_mask t + 1)
      in case calloc as n 8 of
           (False, as) \<Rightarrow> Some ((Some ENOMEM, t), as)
         | (True, as) \<Rightarrow>
             (case move_buckets (n - 1) (ht_nodes t) (replicate (unat n) None)
                     (take (unat (ht_mask t) + 1) (ht_buckets t)) of
                None \<Rightarrow> None
              | Some (nodes, buckets) \<Rightarrow>
                  Some ((None, t\<lparr>ht_buckets := buckets, ht_mask := n - 1, ht_nodes := nodes\<rparr>), as)))"

section \<open>Chains\<close>

fun chain :: "(ref \<Rightarrow> htab_node) \<Rightarrow> ref option \<Rightarrow> ref list \<Rightarrow> bool" where
  "chain nodes p [] \<longleftrightarrow> p = None"
| "chain nodes p (x # xs) \<longleftrightarrow> p = Some x \<and> chain nodes (nd_next (nodes x)) xs"

lemma chain_unique: "chain nodes p xs \<Longrightarrow> chain nodes p ys \<Longrightarrow> xs = ys"
proof (induction xs arbitrary: p ys)
  case Nil
  then show ?case by (cases ys) auto
next
  case (Cons x xs)
  then show ?case by (cases ys) auto
qed

lemma chain_None [simp]: "chain nodes None xs \<longleftrightarrow> xs = []"
  by (cases xs) auto

lemma chain_Some: "chain nodes (Some x) xs \<longleftrightarrow> (\<exists>ys. xs = x # ys \<and> chain nodes (nd_next (nodes x)) ys)"
  by (cases xs) auto

lemma chain_set_next_other [simp]: "x \<notin> set xs \<Longrightarrow> chain (set_next nodes x v) p xs = chain nodes p xs"
  by (induction xs arbitrary: p) (auto simp: set_next_def)

lemma set_next_simps [simp]:
  "nd_hash (set_next nodes x v y) = nd_hash (nodes y)"
  "nd_next (set_next nodes x v x) = v"
  "y \<noteq> x \<Longrightarrow> set_next nodes x v y = nodes y"
  by (auto simp: set_next_def)


section \<open>Well-formed tables\<close>

text \<open>
  The table \<open>t\<close> holds the chains \<open>css\<close>: a power of two of buckets whose size in bytes has a
  representation, one chain for each bucket, distinct records, each in the bucket of its
  hash, and their number in \<open>n\<close>.
\<close>

definition ht_size :: "htab \<Rightarrow> nat \<Rightarrow> bool" where
  "ht_size t k \<longleftrightarrow> k \<le> 60 \<and> length (ht_buckets t) = 2 ^ k \<and> ht_mask t = mask k"

definition htab_chains :: "htab \<Rightarrow> ref list list \<Rightarrow> bool" where
  "htab_chains t css \<longleftrightarrow>
     (\<exists>k. ht_size t k) \<and>
     list_all2 (chain (ht_nodes t)) (ht_buckets t) css \<and>
     (\<forall>i < length css. distinct (css ! i) \<and>
        (\<forall>x \<in> set (css ! i). bucket_of (ht_mask t) (nd_hash (ht_nodes t x)) = i)) \<and>
     ht_n t = of_nat (length (concat css))"

lemma htab_chains_unique:
  assumes "htab_chains t css" "htab_chains t dss"
  shows "css = dss"
proof (rule nth_equalityI)
  have c: "list_all2 (chain (ht_nodes t)) (ht_buckets t) css"
    and d: "list_all2 (chain (ht_nodes t)) (ht_buckets t) dss"
    using assms by (auto simp: htab_chains_def)
  show "length css = length dss" using c d by (metis list_all2_lengthD)
  fix i assume "i < length css"
  then show "css ! i = dss ! i"
    using c d chain_unique by (metis list_all2_lengthD list_all2_nthD2)
qed

lemma unat_exp_64: "k < 64 \<Longrightarrow> unat (2 ^ k :: u64) = 2 ^ k"
proof -
  assume "k < 64"
  then have "2 ^ k < (2::nat) ^ 64" by (intro power_strict_increasing) auto
  then have "unat (of_nat (2 ^ k) :: u64) = 2 ^ k" by (rule unat_of_nat_64)
  then show ?thesis by simp
qed

lemma unat_mask_nat: "k < 64 \<Longrightarrow> unat (mask k :: u64) = 2 ^ k - 1"
proof -
  assume "k < 64"
  note e = unat_exp_64 [OF this]
  then have "(2 ^ k :: u64) \<noteq> 0" by (metis power_not_zero unat_0 zero_neq_numeral)
  with e show "unat (mask k :: u64) = 2 ^ k - 1"
    using unat_minus_one [of "2 ^ k :: u64"] by (simp add: mask_eq_exp_minus_1)
qed

lemma bucket_of_mask:
  assumes "k \<le> 60"
  shows "bucket_of (mask k) h = unat h mod 2 ^ k"
proof -
  have "bucket_of (mask k) h = unat (take_bit k h)"
    by (simp add: bucket_of_def take_bit_eq_mask)
  also have "\<dots> = take_bit k (unat h)" by (rule unsigned_take_bit_eq)
  finally show ?thesis by (simp add: take_bit_eq_mod)
qed

lemma bucket_in_range:
  "ht_size t k \<Longrightarrow> bucket_of (ht_mask t) h < length (ht_buckets t)"
  by (simp add: ht_size_def bucket_of_mask)

lemma chains_length: "htab_chains t css \<Longrightarrow> length css = length (ht_buckets t)"
  by (auto simp: htab_chains_def dest: list_all2_lengthD)

lemma chains_bucket:
  assumes "htab_chains t css"
  shows "bucket_of (ht_mask t) h < length css" "bucket_of (ht_mask t) h < length (ht_buckets t)"
  using assms chains_length [OF assms] bucket_in_range by (auto simp: htab_chains_def)

lemma chains_nth:
  "htab_chains t css \<Longrightarrow> i < length css \<Longrightarrow> chain (ht_nodes t) (ht_buckets t ! i) (css ! i)"
  by (auto simp: htab_chains_def dest: list_all2_nthD2)

lemma chains_mem:
  assumes "htab_chains t css" "x \<in> set (concat css)"
  shows "x \<in> set (css ! bucket_of (ht_mask t) (nd_hash (ht_nodes t x)))"
proof -
  obtain i where i: "i < length css" "x \<in> set (css ! i)"
    using assms(2) by (metis in_set_conv_nth set_concat UN_iff)
  then show ?thesis using assms(1) by (auto simp: htab_chains_def)
qed

lemma chains_distinct:
  assumes "htab_chains t css"
  shows "distinct (concat css)"
proof -
  have d: "distinct ys" if "ys \<in> set css" for ys
    using that assms by (auto simp: htab_chains_def in_set_conv_nth)
  have "i = j" if "i < length css" "j < length css" "x \<in> set (css ! i)" "x \<in> set (css ! j)" for i j x
    using that assms unfolding htab_chains_def by metis
  then have apart: "set (css ! i) \<inter> set (css ! j) = {}" if "i < j" "j < length css" for i j
    using that by (metis disjoint_iff less_irrefl less_trans)
  have "(\<forall>ys \<in> set css. distinct ys) \<Longrightarrow>
    (\<And>i j. i < j \<Longrightarrow> j < length css \<Longrightarrow> set (css ! i) \<inter> set (css ! j) = {}) \<Longrightarrow> distinct (concat css)"
  proof (induction css)
    case (Cons c cs)
    have "distinct (concat cs)"
      using Cons.prems(1) Cons.prems(2) [of "Suc _" "Suc _"] by (intro Cons.IH) auto
    moreover have "set c \<inter> set ys = {}" if ys: "ys \<in> set cs" for ys
    proof -
      obtain j where "j < length cs" "ys = cs ! j" using ys by (auto simp: in_set_conv_nth)
      then show ?thesis using Cons.prems(2) [of 0 "Suc j"] by simp
    qed
    then have "set c \<inter> set (concat cs) = {}" by auto
    ultimately show ?case using Cons.prems(1) by simp
  qed simp
  then show ?thesis using d apart by blast
qed

text \<open>Replacing the chain of one bucket.\<close>

lemma chains_update:
  assumes t: "htab_chains t css" and i: "i < length css"
    and t': "length (ht_buckets t') = length (ht_buckets t)" "ht_mask t' = ht_mask t"
    and others: "\<And>j. j < length css \<Longrightarrow> j \<noteq> i \<Longrightarrow> chain (ht_nodes t') (ht_buckets t' ! j) (css ! j)"
    and hash: "\<And>x. nd_hash (ht_nodes t' x) = nd_hash (ht_nodes t x)"
    and xs: "chain (ht_nodes t') (ht_buckets t' ! i) xs" "distinct xs"
      "\<And>x. x \<in> set xs \<Longrightarrow> bucket_of (ht_mask t) (nd_hash (ht_nodes t x)) = i"
    and n: "ht_n t' = of_nat (length (concat css) + length xs - length (css ! i))"
  shows "htab_chains t' (css[i := xs])"
  unfolding htab_chains_def
proof (intro conjI)
  have len: "length css = length (ht_buckets t)" by (rule chains_length [OF t])
  show "\<exists>k. ht_size t' k" using t t' by (simp add: htab_chains_def ht_size_def)
  show "list_all2 (chain (ht_nodes t')) (ht_buckets t') (css[i := xs])"
    using xs others i len t' by (auto simp: list_all2_conv_all_nth nth_list_update)
  show "\<forall>j<length (css[i := xs]). distinct (css[i := xs] ! j) \<and>
      (\<forall>x\<in>set (css[i := xs] ! j). bucket_of (ht_mask t') (nd_hash (ht_nodes t' x)) = j)"
    using t xs i t' hash by (auto simp: htab_chains_def nth_list_update)
  have "length (concat (css[i := xs])) = length (concat css) + length xs - length (css ! i)"
    using i by (simp add: length_concat map_update sum_list_update)
  then show "ht_n t' = of_nat (length (concat (css[i := xs])))" using n by simp
qed

lemma length_chain_le: "i < length css \<Longrightarrow> length (css ! i) \<le> length (concat css)"
proof -
  assume i: "i < length css"
  then have "css ! i \<in> set css" by simp
  then obtain as bs where "css = as @ (css ! i) # bs" by (metis split_list)
  then have "length (concat css) = length (concat as) + length (css ! i) + length (concat bs)"
    by (metis add.assoc concat.simps(2) concat_append length_append)
  then show ?thesis by simp
qed

section \<open>What the operations do to the chains\<close>

lemma read_link_Bucket [simp]: "read_link t (Bucket i) = ht_buckets t ! i"
  by (simp add: read_link_def)

lemma read_link_Next [simp]: "read_link t (Next x) = nd_next (ht_nodes t x)"
  by (simp add: read_link_def)

definition index_of :: "htab \<Rightarrow> ref \<Rightarrow> nat" where
  "index_of t x = bucket_of (ht_mask t) (nd_hash (ht_nodes t x))"

lemma htab_init_ok:
  assumes "htab_init as nodes n = (Inr t, as')"
  shows "\<exists>k. ht_size t k \<and> n = 2 ^ k" "htab_chains t (replicate (unat n) [])"
    "ht_nodes t = nodes"
proof -
  have bit: "stdc_has_single_bit n" and mem: "unat n * 8 \<le> SIZE_MAX"
    and t: "t = \<lparr> ht_buckets = replicate (unat n) None, ht_mask = n - 1, ht_n = 0, ht_nodes = nodes \<rparr>"
    using assms by (auto simp: htab_init_def calloc_def split: if_splits prod.splits bool.splits)
  obtain k where k: "filter (bit n) [0..<64] = [k]"
    using bit by (auto simp: stdc_has_single_bit_def length_Suc_conv)
  have "k \<in> set (filter (bit n) [0..<64])" unfolding k by simp
  then have k64: "k < 64" "bit n k" by auto
  have "bit n i \<longleftrightarrow> i = k" if "i < 64" for i
  proof -
    have "bit n i \<longleftrightarrow> i \<in> set (filter (bit n) [0..<64])" using that by simp
    then show ?thesis unfolding k by simp
  qed
  then have n: "n = 2 ^ k"
    using k64 by (intro bit_word_eqI) (auto simp: bit_exp_iff)
  have un: "unat n = 2 ^ k" using k64 by (simp add: n unat_exp_64)
  have "\<not> 61 \<le> k"
  proof
    assume "61 \<le> k"
    then have "2 ^ 61 \<le> (2::nat) ^ k" by (intro power_increasing) auto
    then show False using mem un by (simp add: SIZE_MAX_def)
  qed
  then have s: "ht_size t k" using un by (auto simp: ht_size_def t n mask_eq_exp_minus_1)
  with n show "\<exists>k. ht_size t k \<and> n = 2 ^ k" by blast
  show "htab_chains t (replicate (unat n) [])"
    using s by (auto simp: htab_chains_def t list_all2_conv_all_nth concat_replicate_trivial)
  show "ht_nodes t = nodes" by (simp add: t)
qed

lemma htab_link_chains:
  assumes t: "htab_chains t css" and x: "x \<notin> set (concat css)"
  shows "htab_chains (htab_link t x) (css[index_of t x := x # css ! index_of t x])"
proof (rule chains_update [OF t])
  let ?i = "index_of t x"
  show i: "?i < length css" using chains_bucket [OF t] by (simp add: index_of_def)
  have b: "?i < length (ht_buckets t)" using i chains_length [OF t] by simp
  have fresh: "x \<notin> set (css ! j)" if "j < length css" for j
    using x that by (metis UN_I nth_mem set_concat)
  show "chain (ht_nodes (htab_link t x)) (ht_buckets (htab_link t x) ! j) (css ! j)"
    if "j < length css" "j \<noteq> ?i" for j
    using that fresh chains_nth [OF t] 
    by (simp add: htab_link_def htab_bucket_def write_link_def index_of_def Let_def)
  show "chain (ht_nodes (htab_link t x)) (ht_buckets (htab_link t x) ! ?i) (x # css ! ?i)"
    using b fresh [OF i] chains_nth [OF t i]
    by (simp add: htab_link_def htab_bucket_def write_link_def index_of_def Let_def)
  show "distinct (x # css ! ?i)" using fresh [OF i] t i by (simp add: htab_chains_def)
  show "bucket_of (ht_mask t) (nd_hash (ht_nodes t y)) = ?i" if "y \<in> set (x # css ! ?i)" for y
    using that t i by (auto simp: htab_chains_def index_of_def)
  show "ht_n (htab_link t x) =
      of_nat (length (concat css) + length (x # css ! ?i) - length (css ! ?i))"
    using t by (simp add: htab_link_def htab_bucket_def write_link_def Let_def htab_chains_def)
qed (simp_all add: htab_link_def htab_bucket_def write_link_def Let_def)

text \<open>The walk to a record ends at the pointer to it.\<close>

lemma unlink_walk_chain:
  assumes "chain (ht_nodes t) (read_link t l) xs" "x \<in> set xs" "distinct xs"
  shows "\<exists>as bs l'. xs = as @ x # bs \<and> unlink_walk t l x = Some l' \<and>
     (as = [] \<and> l' = l \<or> (\<exists>as' y. as = as' @ [y] \<and> l' = Next y))"
  using assms
proof (induction xs arbitrary: l)
  case (Cons y ys)
  show ?case
  proof (cases "y = x")
    case True
    then show ?thesis using Cons.prems
      by (intro exI [of _ "[]"] exI [of _ ys] exI [of _ l]) (simp add: unlink_walk.simps [of t l])
  next
    case False
    have "chain (ht_nodes t) (read_link t (Next y)) ys" "x \<in> set ys" "distinct ys"
      using Cons.prems False by auto
    from Cons.IH [OF this] obtain as bs l' where IH: "ys = as @ x # bs"
      "unlink_walk t (Next y) x = Some l'"
      "as = [] \<and> l' = Next y \<or> (\<exists>as' z. as = as' @ [z] \<and> l' = Next z)"
      by blast
    have "unlink_walk t l x = Some l'"
      using Cons.prems False IH(2) by (simp add: unlink_walk.simps [of t l])
    moreover have "\<exists>as' z. y # as = as' @ [z] \<and> l' = Next z"
      using IH(3) by (metis append_Cons append_Nil)
    ultimately show ?thesis using IH(1) by (metis append_Cons)
  qed
qed simp

lemma chain_skip:
  assumes "chain nodes p (as @ y # x # bs)" "distinct (as @ y # x # bs)"
  shows "chain (set_next nodes y (nd_next (nodes x))) p (as @ y # bs)"
  using assms
proof (induction as arbitrary: p)
  case Nil
  then show ?case by simp
next
  case (Cons a as)
  then show ?case by auto
qed

lemma htab_unlink_chains:
  assumes t: "htab_chains t css" and x: "x \<in> set (concat css)"
  shows "\<exists>t'. htab_unlink t x = Some t' \<and> ht_nodes t' x = ht_nodes t x \<and>
    (\<forall>y. nd_hash (ht_nodes t' y) = nd_hash (ht_nodes t y)) \<and> ht_mask t' = ht_mask t \<and>
    htab_chains t' (css[index_of t x := remove1 x (css ! index_of t x)])"
proof -
  let ?i = "index_of t x"
  have i: "?i < length css" and b: "?i < length (ht_buckets t)"
    using chains_bucket [OF t] by (simp_all add: index_of_def)
  have xi: "x \<in> set (css ! ?i)" using chains_mem [OF t x] by (simp add: index_of_def)
  have d: "distinct (css ! ?i)" using t i by (simp add: htab_chains_def)
  have c: "chain (ht_nodes t) (read_link t (Bucket ?i)) (css ! ?i)" using chains_nth [OF t i] by simp
  obtain as bs l where split: "css ! ?i = as @ x # bs"
    and walk: "unlink_walk t (Bucket ?i) x = Some l"
    and l: "as = [] \<and> l = Bucket ?i \<or> (\<exists>as' y. as = as' @ [y] \<and> l = Next y)"
    using unlink_walk_chain [OF c xi d] by blast
  define t' where "t' = write_link t l (nd_next (ht_nodes t x))"
  have rest: "remove1 x (css ! ?i) = as @ bs" using d by (simp add: split remove1_append)
  have mem: "x \<notin> set as" "x \<notin> set bs" using d split by auto
  have hash: "nd_hash (ht_nodes t' y) = nd_hash (ht_nodes t y)" for y
    by (cases l) (simp_all add: t'_def write_link_def)
  have own: "ht_nodes t' x = ht_nodes t x"
    using l mem by (auto simp: t'_def write_link_def)
  have new: "chain (ht_nodes t') (ht_buckets t' ! ?i) (as @ bs)"
    using l
  proof (elim disjE exE conjE)
    assume "as = []" "l = Bucket ?i"
    then show ?thesis using c b by (simp add: t'_def write_link_def split)
  next
    fix as' y assume as: "as = as' @ [y]" "l = Next y"
    then show ?thesis
      using chain_skip [of "ht_nodes t" "ht_buckets t ! ?i" as' y x bs] c d
      by (simp add: t'_def write_link_def split)
  qed
  have others: "chain (ht_nodes t') (ht_buckets t' ! j) (css ! j)"
    if "j < length css" "j \<noteq> ?i" for j
    using l
  proof (elim disjE exE conjE)
    assume "as = []" "l = Bucket ?i"
    then show ?thesis using that chains_nth [OF t] by (simp add: t'_def write_link_def)
  next
    fix as' y assume as: "as = as' @ [y]" "l = Next y"
    have "y \<in> set (css ! ?i)" using split as by simp
    then have "y \<notin> set (css ! j)" using t that i unfolding htab_chains_def by metis
    then show ?thesis using as that chains_nth [OF t] by (simp add: t'_def write_link_def)
  qed
  have shape: "length (ht_buckets t') = length (ht_buckets t)" "ht_mask t' = ht_mask t" "ht_n t' = ht_n t"
    by (cases l; simp add: t'_def write_link_def)+
  let ?u = "t'\<lparr>ht_n := ht_n t' - 1\<rparr>"
  have "0 < length (concat css)" using x by (cases "concat css") auto
  then have n: "ht_n t - 1 = of_nat (length (concat css) + length (as @ bs) - length (css ! ?i))"
    using t length_chain_le [OF i] by (simp add: htab_chains_def split of_nat_diff)
  have "htab_chains ?u (css[?i := as @ bs])"
  proof (rule chains_update [OF t i])
    show "distinct (as @ bs)" using d split by auto
    show "bucket_of (ht_mask t) (nd_hash (ht_nodes t y)) = ?i" if "y \<in> set (as @ bs)" for y
      using that t i split by (auto simp: htab_chains_def)
  qed (use new others hash shape n in auto)
  moreover have "htab_unlink t x = Some ?u"
    using walk by (simp add: htab_unlink_def htab_bucket_def index_of_def [symmetric] t'_def Let_def)
  ultimately show ?thesis using rest own hash shape by (intro exI [of _ ?u]) simp
qed

text \<open>The search answers for the chain as \<open>find\<close> does, and the link it returns points to the record.\<close>

definition matches :: "htab \<Rightarrow> u64 \<Rightarrow> (ref \<Rightarrow> bool) option \<Rightarrow> ref \<Rightarrow> bool" where
  "matches t h match x \<longleftrightarrow> nd_hash (ht_nodes t x) = h \<and> (match = None \<or> the match x)"

lemma find_walk_chain:
  "chain (ht_nodes t) (read_link t l) xs \<Longrightarrow>
     \<exists>l'. find_walk t l h match = Some l' \<and> read_link t l' = find (matches t h match) xs"
proof (induction xs arbitrary: l)
  case Nil
  then show ?case by (simp add: find_walk.simps [of t l])
next
  case (Cons x xs)
  show ?case
  proof (cases "matches t h match x")
    case True
    then show ?thesis using Cons.prems
      by (auto simp: find_walk.simps [of t l] matches_def)
  next
    case False
    have "chain (ht_nodes t) (read_link t (Next x)) xs" using Cons.prems by simp
    from Cons.IH [OF this] show ?thesis
      using Cons.prems False by (auto simp: find_walk.simps [of t l] matches_def)
  qed
qed

definition htab_first :: "htab \<Rightarrow> u64 \<Rightarrow> (ref \<Rightarrow> bool) option \<Rightarrow> ref option option" where
  "htab_first t h match = map_option (read_link t) (htab_find t h match)"

lemma htab_first_chains:
  assumes t: "htab_chains t css"
  shows "htab_first t h match = Some (find (matches t h match) (css ! bucket_of (ht_mask t) h))"
proof -
  have "chain (ht_nodes t) (read_link t (htab_bucket t h)) (css ! bucket_of (ht_mask t) h)"
    using chains_nth [OF t] chains_bucket [OF t] by (simp add: htab_bucket_def)
  from find_walk_chain [OF this] show ?thesis by (auto simp: htab_first_def htab_find_def)
qed

lemma htab_first_Some:
  assumes t: "htab_chains t css" and r: "htab_first t h match = Some (Some x)"
  shows "x \<in> set (concat css) \<and> matches t h match x"
proof -
  have "find (matches t h match) (css ! bucket_of (ht_mask t) h) = Some x"
    using r htab_first_chains [OF t] by simp
  then have "x \<in> set (css ! bucket_of (ht_mask t) h)" "matches t h match x"
    by (auto simp: find_Some_iff)
  then show ?thesis using chains_bucket [OF t, of h] by auto
qed

lemma htab_first_None:
  assumes t: "htab_chains t css" and r: "htab_first t h match = Some None"
    and x: "x \<in> set (concat css)"
  shows "\<not> matches t h match x"
proof
  assume m: "matches t h match x"
  have "find (matches t h match) (css ! bucket_of (ht_mask t) h) = None"
    using r htab_first_chains [OF t] by simp
  moreover have "x \<in> set (css ! bucket_of (ht_mask t) h)"
    using chains_mem [OF t x] m by (simp add: matches_def)
  ultimately show False using m by (auto simp: find_None_iff)
qed

section \<open>Walking the table\<close>

lemma chains_mask:
  assumes "htab_chains t css"
  shows "unat (ht_mask t) + 1 = length css"
proof -
  obtain k where "ht_size t k" using assms by (auto simp: htab_chains_def)
  then show ?thesis using chains_length [OF assms] by (simp add: ht_size_def unat_mask_nat)
qed

lemma next_loop_drop:
  assumes t: "htab_chains t css"
  shows "next_loop t i = (case concat (drop i css) of [] \<Rightarrow> None | x # _ \<Rightarrow> Some x)"
proof (induction "length css - i" arbitrary: i)
  case 0
  then have "\<not> i \<le> unat (ht_mask t)" using chains_mask [OF t] by simp
  then show ?case using 0 by (simp add: next_loop.simps [of t i])
next
  case (Suc n)
  then have i: "i < length css" by simp
  then have le: "i \<le> unat (ht_mask t)" using chains_mask [OF t] by simp
  have dr: "drop i css = css ! i # drop (Suc i) css" using i by (simp add: Cons_nth_drop_Suc)
  have c: "chain (ht_nodes t) (ht_buckets t ! i) (css ! i)" by (rule chains_nth [OF t i])
  have IH: "next_loop t (Suc i) = (case concat (drop (Suc i) css) of [] \<Rightarrow> None | x # _ \<Rightarrow> Some x)"
    using Suc by (intro Suc.hyps(1)) simp
  show ?case
  proof (cases "css ! i")
    case Nil
    then show ?thesis using c le dr IH by (simp add: next_loop.simps [of t i])
  next
    case (Cons x xs)
    then show ?thesis using c le dr by (simp add: next_loop.simps [of t i])
  qed
qed

lemma chain_next:
  "chain nodes p (as @ x # bs) \<Longrightarrow> nd_next (nodes x) = (case bs of [] \<Rightarrow> None | b # _ \<Rightarrow> Some b)"
proof (induction as arbitrary: p)
  case Nil
  then show ?case by (cases bs) auto
qed auto

lemma htab_next_None:
  "htab_chains t css \<Longrightarrow> htab_next t None = (case concat css of [] \<Rightarrow> None | x # _ \<Rightarrow> Some x)"
  using next_loop_drop [of t css 0] by (simp add: htab_next_def)

lemma htab_next_Some:
  assumes t: "htab_chains t css" and split: "concat css = xs @ x # ys"
  shows "htab_next t (Some x) = (case ys of [] \<Rightarrow> None | y # _ \<Rightarrow> Some y)"
proof -
  define i where "i = index_of t x"
  have i: "i < length css" using chains_bucket [OF t] by (simp add: i_def index_of_def)
  have "x \<in> set (css ! i)" using chains_mem [OF t, of x] split by (simp add: i_def index_of_def)
  then obtain as bs where ab: "css ! i = as @ x # bs" by (metis split_list)
  have "css = take i css @ (css ! i) # drop (Suc i) css" by (rule id_take_nth_drop [OF i])
  then have "concat css = concat (take i css) @ (css ! i) @ concat (drop (Suc i) css)"
    by (metis concat.simps(2) concat_append)
  then have c: "concat css = (concat (take i css) @ as) @ x # (bs @ concat (drop (Suc i) css))"
    by (simp add: ab)
  have d: "distinct (xs @ x # ys)" using chains_distinct [OF t] split by simp
  have "xs = concat (take i css) @ as \<and> ys = bs @ concat (drop (Suc i) css)"
  proof -
    have "distinct ((concat (take i css) @ as) @ x # (bs @ concat (drop (Suc i) css)))"
      using chains_distinct [OF t] c by simp
    moreover have "xs @ x # ys = (concat (take i css) @ as) @ x # (bs @ concat (drop (Suc i) css))"
      using c split by simp
    ultimately show ?thesis using d
      by (metis append_Cons_eq_iff distinct_append not_distinct_conv_prefix distinct.simps(2))
  qed
  then have ys: "ys = bs @ concat (drop (Suc i) css)" by simp
  have nx: "nd_next (ht_nodes t x) = (case bs of [] \<Rightarrow> None | b # _ \<Rightarrow> Some b)"
    using chains_nth [OF t i] ab chain_next by metis
  show ?thesis
  proof (cases bs)
    case Nil
    then show ?thesis using nx ys next_loop_drop [OF t, of "Suc i"]
      by (simp add: htab_next_def i_def index_of_def)
  next
    case (Cons b bs')
    then show ?thesis using nx ys by (simp add: htab_next_def)
  qed
qed

text \<open>A walk that visits the records \<open>xs\<close> after the record it stands at, and ends.\<close>

fun htab_walk :: "htab \<Rightarrow> ref option \<Rightarrow> ref list \<Rightarrow> bool" where
  "htab_walk t p [] \<longleftrightarrow> htab_next t p = None"
| "htab_walk t p (x # xs) \<longleftrightarrow> htab_next t p = Some x \<and> htab_walk t (Some x) xs"

lemma htab_walk_from:
  "htab_chains t css \<Longrightarrow> concat css = xs @ x # ys \<Longrightarrow> htab_walk t (Some x) ys"
proof (induction ys arbitrary: xs x)
  case Nil
  then show ?case by (simp add: htab_next_Some)
next
  case (Cons y ys)
  have "concat css = (xs @ [x]) @ y # ys" using Cons.prems by simp
  with Cons.IH Cons.prems(1) have "htab_walk t (Some y) ys" by blast
  then show ?case using htab_next_Some [OF Cons.prems] by simp
qed

lemma htab_walk_all:
  assumes "htab_chains t css"
  shows "htab_walk t None (concat css)"
proof (cases "concat css")
  case Nil
  then show ?thesis using htab_next_None [OF assms] unfolding Nil by simp
next
  case (Cons x xs)
  then show ?thesis
    using htab_next_None [OF assms] htab_walk_from [OF assms, of "[]" x xs] by simp
qed

section \<open>Growing\<close>

text \<open>What moving the records \<open>xs\<close> does to the chains of the new buckets.\<close>

definition place :: "(ref \<Rightarrow> u64) \<Rightarrow> u64 \<Rightarrow> ref \<Rightarrow> ref list list \<Rightarrow> ref list list" where
  "place h m x dss = dss[bucket_of m (h x) := x # dss ! bucket_of m (h x)]"

lemma length_place [simp]: "length (place h m x dss) = length dss"
  by (simp add: place_def)

lemma length_fold_place [simp]: "length (fold (place h m) xs dss) = length dss"
  by (induction xs arbitrary: dss) auto

lemma mset_concat_update:
  "i < length dss \<Longrightarrow> mset (concat (dss[i := x # dss ! i])) = add_mset x (mset (concat dss))"
proof (induction dss arbitrary: i)
  case (Cons d ds)
  then show ?case by (cases i) auto
qed simp

lemma mset_fold_place:
  "(\<And>x. x \<in> set xs \<Longrightarrow> bucket_of m (h x) < length dss) \<Longrightarrow>
     mset (concat (fold (place h m) xs dss)) = mset xs + mset (concat dss)"
proof (induction xs arbitrary: dss)
  case (Cons x xs)
  have "mset (concat (fold (place h m) xs (place h m x dss))) = mset xs + mset (concat (place h m x dss))"
    using Cons.prems by (intro Cons.IH) (simp add: place_def)
  moreover have "mset (concat (place h m x dss)) = add_mset x (mset (concat dss))"
    using Cons.prems by (simp add: place_def mset_concat_update)
  ultimately show ?case by simp
qed simp

lemma fold_place_index:
  "(\<And>i x. i < length dss \<Longrightarrow> x \<in> set (dss ! i) \<Longrightarrow> bucket_of m (h x) = i) \<Longrightarrow>
     i < length dss \<Longrightarrow> x \<in> set (fold (place h m) xs dss ! i) \<Longrightarrow> bucket_of m (h x) = i"
proof (induction xs arbitrary: dss)
  case (Cons y ys)
  have "bucket_of m (h z) = j" if "j < length (place h m y dss)" "z \<in> set (place h m y dss ! j)" for j z
    using that Cons.prems(1) [of j]
    by (cases "bucket_of m (h y) = j") (auto simp: place_def)
  from Cons.IH [of "place h m y dss", OF this] Cons.prems(2,3) show ?case by simp
qed simp

lemma move_chain_chains:
  assumes "chain nodes p xs" "list_all2 (chain nodes) bs dss"
    "set xs \<inter> set (concat dss) = {}" "distinct xs"
    "\<And>x. bucket_of m (nd_hash (nodes x)) < length dss"
  shows "\<exists>nodes' bs'. move_chain m nodes bs p = Some (nodes', bs') \<and>
     list_all2 (chain nodes') bs' (fold (place (nd_hash \<circ> nodes) m) xs dss) \<and>
     nd_hash \<circ> nodes' = nd_hash \<circ> nodes \<and>
     (\<forall>q ys. set ys \<inter> set xs = {} \<longrightarrow> chain nodes' q ys = chain nodes q ys)"
  using assms
proof (induction xs arbitrary: nodes p bs dss)
  case Nil
  then show ?case by (simp add: move_chain.simps)
next
  case (Cons x xs)
  define i where "i = bucket_of m (nd_hash (nodes x))"
  define nodes1 where "nodes1 = set_next nodes x (bs ! i)"
  have i: "i < length dss" "i < length bs" 
    using Cons.prems(2,5) by (auto simp: i_def dest: list_all2_lengthD)
  have p: "p = Some x" and tail': "chain nodes (nd_next (nodes x)) xs" using Cons.prems(1) by auto
  have hash: "nd_hash \<circ> nodes1 = nd_hash \<circ> nodes" by (auto simp: nodes1_def)
  have place: "place (nd_hash \<circ> nodes) m x dss = dss[i := x # dss ! i]"
    by (simp add: place_def i_def)
  have fresh: "x \<notin> set (dss ! j)" if "j < length dss" for j
    using Cons.prems(3) that by (auto simp: in_set_conv_nth) (metis nth_mem)
  have all2: "list_all2 (chain nodes1) (bs[i := Some x]) (dss[i := x # dss ! i])"
    using Cons.prems(2) i fresh
    by (auto simp: list_all2_conv_all_nth nth_list_update nodes1_def)
  have "chain nodes1 (nd_next (nodes x)) xs"
    using tail' Cons.prems(4) by (simp add: nodes1_def)
  moreover have "mset (concat (dss[i := x # dss ! i])) = add_mset x (mset (concat dss))"
    using i by (simp add: mset_concat_update)
  then have "set (concat (dss[i := x # dss ! i])) = insert x (set (concat dss))"
    by (metis set_mset_add_mset_insert set_mset_mset)
  then have "set xs \<inter> set (concat (dss[i := x # dss ! i])) = {}"
    using Cons.prems(3,4) by auto
  moreover have "bucket_of m (nd_hash (nodes1 y)) < length (dss[i := x # dss ! i])" for y
    using Cons.prems(5) by (simp add: nodes1_def)
  moreover have "distinct xs" using Cons.prems(4) by simp
  ultimately obtain nodes' bs' where IH:
      "move_chain m nodes1 (bs[i := Some x]) (nd_next (nodes x)) = Some (nodes', bs')"
      "list_all2 (chain nodes') bs' (fold (place (nd_hash \<circ> nodes1) m) xs (dss[i := x # dss ! i]))"
      "nd_hash \<circ> nodes' = nd_hash \<circ> nodes1"
      "\<And>q ys. set ys \<inter> set xs = {} \<Longrightarrow> chain nodes' q ys = chain nodes1 q ys"
    using Cons.IH [of nodes1 "nd_next (nodes x)" "bs[i := Some x]" "dss[i := x # dss ! i]", OF _ all2]
    by blast
  have "move_chain m nodes bs p = Some (nodes', bs')"
    using IH(1) p by (simp add: move_chain.simps [of m nodes bs "Some x"] nodes1_def i_def)
  moreover have "chain nodes' q ys = chain nodes q ys" if "set ys \<inter> set (x # xs) = {}" for q ys
    using IH(4) [of ys q] that by (auto simp: nodes1_def)
  ultimately show ?case using IH(2,3) hash place by (metis fold_simps(2))
qed

lemma move_buckets_chains:
  assumes "list_all2 (chain nodes) src css" "list_all2 (chain nodes) bs dss"
    "distinct (concat css)" "set (concat css) \<inter> set (concat dss) = {}"
    "\<And>x. bucket_of m (nd_hash (nodes x)) < length dss"
  shows "\<exists>nodes' bs'. move_buckets m nodes bs src = Some (nodes', bs') \<and>
     list_all2 (chain nodes') bs' (fold (place (nd_hash \<circ> nodes) m) (concat css) dss) \<and>
     nd_hash \<circ> nodes' = nd_hash \<circ> nodes"
  using assms
proof (induction css arbitrary: src nodes bs dss rule: list.induct)
  case Nil
  have "src = []" using Nil.prems(1) by simp
  then show ?case using Nil.prems(2) by simp
next
  case (Cons c css)
  obtain p src' where src: "src = p # src'" "chain nodes p c" "list_all2 (chain nodes) src' css"
    using Cons.prems(1) by (auto simp: list_all2_Cons2)
  let ?dss = "fold (place (nd_hash \<circ> nodes) m) c dss"
  have "set c \<inter> set (concat dss) = {}" "distinct c" using Cons.prems(3,4) by auto
  then obtain nodes1 bs1 where 1: "move_chain m nodes bs p = Some (nodes1, bs1)"
      "list_all2 (chain nodes1) bs1 ?dss" "nd_hash \<circ> nodes1 = nd_hash \<circ> nodes"
      "\<And>q ys. set ys \<inter> set c = {} \<Longrightarrow> chain nodes1 q ys = chain nodes q ys"
    using move_chain_chains [OF src(2) Cons.prems(2) _ _ Cons.prems(5)] by blast
  have "mset (concat ?dss) = mset c + mset (concat dss)"
    using Cons.prems(5) by (intro mset_fold_place) simp
  then have "set (concat ?dss) = set c \<union> set (concat dss)"
    by (metis set_mset_mset set_mset_union)
  then have apart: "set (concat css) \<inter> set (concat ?dss) = {}" using Cons.prems(3,4) by auto
  have "chain nodes1 q ys = chain nodes q ys" if "ys \<in> set css" for q ys
    using that Cons.prems(3) by (intro 1(4)) auto
  then have rest: "list_all2 (chain nodes1) src' css"
    using src(3) by (auto simp: list_all2_conv_all_nth)
  have same: "nd_hash (nodes1 x) = nd_hash (nodes x)" for x
    using 1(3) by (metis comp_apply)
  have "bucket_of m (nd_hash (nodes1 x)) < length ?dss" for x
    using Cons.prems(5) same by simp
  moreover have "distinct (concat css)" using Cons.prems(3) by simp
  ultimately obtain nodes' bs' where "move_buckets m nodes1 bs1 src' = Some (nodes', bs')"
      "list_all2 (chain nodes') bs' (fold (place (nd_hash \<circ> nodes1) m) (concat css) ?dss)"
      "nd_hash \<circ> nodes' = nd_hash \<circ> nodes1"
    using Cons.IH [OF rest 1(2) _ apart] by blast
  then show ?case using 1(1,3) src(1) by (simp add: comp_def)
qed

lemma calloc_buckets:
  assumes "k \<le> 60" "calloc as (2 * (mask k + 1)) 8 = (True, as')"
  shows "k < 60" "2 * (mask k + 1) = (2 ^ Suc k :: u64)" "unat (2 * (mask k + 1) :: u64) = 2 ^ Suc k"
proof -
  show e: "2 * (mask k + 1) = (2 ^ Suc k :: u64)" by (simp add: mask_eq_exp_minus_1)
  show u: "unat (2 * (mask k + 1) :: u64) = 2 ^ Suc k"
    unfolding e using assms(1) by (intro unat_exp_64) simp
  have "k \<noteq> 60" using assms(2) u by (auto simp: calloc_def SIZE_MAX_def split: if_splits)
  then show "k < 60" using assms(1) by simp
qed

lemma htab_grow_fails:
  "\<not> fst (calloc as (2 * (ht_mask t + 1)) 8) \<Longrightarrow>
     htab_grow as t = Some ((Some ENOMEM, t), snd (calloc as (2 * (ht_mask t + 1)) 8))"
  by (cases "calloc as (2 * (ht_mask t + 1)) 8") (simp add: htab_grow_def)

lemma htab_grow_chains:
  assumes t: "htab_chains t css" and room: "calloc as (2 * (ht_mask t + 1)) 8 = (True, as')"
  shows "\<exists>t' dss. htab_grow as t = Some ((None, t'), as') \<and> htab_chains t' dss \<and>
     mset (concat dss) = mset (concat css) \<and> length dss = 2 * length css \<and>
     (\<forall>x. nd_hash (ht_nodes t' x) = nd_hash (ht_nodes t x))"
proof -
  obtain k where k: "k \<le> 60" "length (ht_buckets t) = 2 ^ k" "ht_mask t = mask k"
    using t by (auto simp: htab_chains_def ht_size_def)
  have k1: "k < 60" "2 * (ht_mask t + 1) = 2 ^ Suc k" "unat (2 * (ht_mask t + 1)) = 2 ^ Suc k"
    using calloc_buckets [of k as as'] room k by simp_all
  have m: "2 * (ht_mask t + 1) - 1 = mask (Suc k)"
    unfolding k1(2) by (simp add: mask_eq_exp_minus_1)
  let ?h = "nd_hash \<circ> ht_nodes t" and ?dss = "replicate (2 ^ Suc k) ([] :: ref list)"
  let ?new = "fold (place ?h (mask (Suc k))) (concat css) ?dss"
  have range': "bucket_of (mask (Suc k)) h < 2 ^ Suc k" for h
    using k1(1) by (simp add: bucket_of_mask)
  have src: "take (unat (ht_mask t) + 1) (ht_buckets t) = ht_buckets t"
    using chains_mask [OF t] chains_length [OF t] by simp
  have all2: "list_all2 (chain (ht_nodes t)) (ht_buckets t) css" using t by (simp add: htab_chains_def)
  have "list_all2 (chain (ht_nodes t)) (replicate (2 ^ Suc k) None) ?dss"
    by (simp add: list_all2_conv_all_nth)
  note new = this
  have apart: "set (concat css) \<inter> set (concat ?dss) = {}" by simp
  have "bucket_of (mask (Suc k)) (nd_hash (ht_nodes t x)) < length ?dss" for x
    using range' by simp
  from move_buckets_chains [OF all2 new chains_distinct [OF t] apart this]
  obtain nodes' bs' where mv:
      "move_buckets (mask (Suc k)) (ht_nodes t) (replicate (2 ^ Suc k) None) (ht_buckets t) = Some (nodes', bs')"
      "list_all2 (chain nodes') bs' ?new" "nd_hash \<circ> nodes' = ?h"
    by blast
  let ?t = "t\<lparr>ht_buckets := bs', ht_mask := mask (Suc k), ht_nodes := nodes'\<rparr>"
  have hash: "nd_hash (nodes' x) = nd_hash (ht_nodes t x)" for x using mv(3) by (metis comp_apply)
  have ms: "mset (concat ?new) = mset (concat css)"
    using range' by (subst mset_fold_place) simp_all
  then have "distinct (concat ?new)" using chains_distinct [OF t] mset_eq_imp_distinct_iff by blast
  then have "distinct ys" if "ys \<in> set ?new" for ys
    using that by (metis concat_append concat.simps(2) distinct_append split_list)
  moreover have "bucket_of (mask (Suc k)) (nd_hash (ht_nodes t x)) = i"
    if "i < length ?new" "x \<in> set (?new ! i)" for i x
    using that fold_place_index [of ?dss "mask (Suc k)" ?h i x "concat css"] by simp
  moreover have "length bs' = 2 ^ Suc k" using mv(2) by (simp add: list_all2_lengthD)
  moreover have "length (concat ?new) = length (concat css)" using ms by (metis size_mset)
  moreover have "ht_size ?t (Suc k)" using k1(1) calculation(3) by (simp add: ht_size_def)
  ultimately have "htab_chains ?t ?new"
    using mv(2) hash t by (auto simp: htab_chains_def)
  moreover have "htab_grow as t = Some ((None, ?t), as')"
    using mv(1) room k1(3) m src by (simp add: htab_grow_def Let_def)
  moreover have "length ?new = 2 * length css" using k(2) chains_length [OF t] by simp
  ultimately show ?thesis using ms hash by (intro exI [of _ ?t] exI [of _ ?new]) simp
qed

section \<open>Unlinking during a walk\<close>

lemma concat_remove1:
  assumes i: "i < length css" and x: "x \<in> set (css ! i)" and d: "distinct (concat css)"
  shows "concat (css[i := remove1 x (css ! i)]) = remove1 x (concat css)"
proof -
  have split: "css = take i css @ (css ! i) # drop (Suc i) css" by (rule id_take_nth_drop [OF i])
  then have c: "concat css = concat (take i css) @ (css ! i) @ concat (drop (Suc i) css)"
    by (metis concat.simps(2) concat_append)
  then have "x \<notin> set (concat (take i css))" using d x by auto
  moreover have "css[i := remove1 x (css ! i)] = take i css @ remove1 x (css ! i) # drop (Suc i) css"
    by (rule upd_conv_take_nth_drop [OF i])
  then have "concat (css[i := remove1 x (css ! i)]) =
      concat (take i css) @ remove1 x (css ! i) @ concat (drop (Suc i) css)"
    by (metis concat.simps(2) concat_append)
  ultimately show ?thesis using c x by (simp add: remove1_append)
qed

lemma htab_unlink_list:
  assumes t: "htab_chains t css" and x: "x \<in> set (concat css)"
  shows "\<exists>t' dss. htab_unlink t x = Some t' \<and> htab_chains t' dss \<and>
    concat dss = remove1 x (concat css) \<and> (\<forall>y. nd_hash (ht_nodes t' y) = nd_hash (ht_nodes t y))"
proof -
  have "index_of t x < length css" using chains_bucket [OF t] by (simp add: index_of_def)
  moreover have "x \<in> set (css ! index_of t x)" using chains_mem [OF t x] by (simp add: index_of_def)
  ultimately have "concat (css[index_of t x := remove1 x (css ! index_of t x)]) = remove1 x (concat css)"
    using chains_distinct [OF t] by (intro concat_remove1)
  then show ?thesis using htab_unlink_chains [OF t x] by metis
qed

text \<open>The loop of the users that takes some of the records out of the table during a walk.\<close>

partial_function (option) walk_unlink :: "(ref \<Rightarrow> bool) \<Rightarrow> htab \<Rightarrow> ref option \<Rightarrow> htab option" where
  "walk_unlink P t node =
     (if node = None then Some t
      else Option.bind (if P (the node) then htab_unlink t (the node) else Some t)
             (\<lambda>t'. walk_unlink P t' (htab_next t node)))"

definition hd_option :: "'a list \<Rightarrow> 'a option" where
  "hd_option xs = (case xs of [] \<Rightarrow> None | x # _ \<Rightarrow> Some x)"

lemma hd_option_simps [simp]: "hd_option [] = None" "hd_option (x # xs) = Some x"
  by (simp_all add: hd_option_def)

lemma walk_unlink_from:
  "htab_chains t css \<Longrightarrow> concat css = xs @ ys \<Longrightarrow>
     \<exists>t' dss. walk_unlink P t (hd_option ys) = Some t' \<and> htab_chains t' dss \<and>
       concat dss = xs @ filter (\<lambda>y. \<not> P y) ys \<and>
       (\<forall>y. nd_hash (ht_nodes t' y) = nd_hash (ht_nodes t y))"
proof (induction ys arbitrary: t css xs)
  case Nil
  then show ?case by (auto simp: walk_unlink.simps)
next
  case (Cons y ys)
  have nx: "htab_next t (Some y) = hd_option ys"
    using htab_next_Some [OF Cons.prems] by (simp add: hd_option_def)
  show ?case
  proof (cases "P y")
    case False
    have "concat css = (xs @ [y]) @ ys" using Cons.prems(2) by simp
    from Cons.IH [OF Cons.prems(1) this] False nx show ?thesis
      by (simp add: walk_unlink.simps [of P t "Some y"])
  next
    case True
    have y: "y \<in> set (concat css)" unfolding Cons.prems(2) by simp
    obtain t1 ess where u: "htab_unlink t y = Some t1" "htab_chains t1 ess"
        "concat ess = remove1 y (concat css)" "\<forall>z. nd_hash (ht_nodes t1 z) = nd_hash (ht_nodes t z)"
      using htab_unlink_list [OF Cons.prems(1) y] by blast
    have "y \<notin> set xs" using chains_distinct [OF Cons.prems(1)] Cons.prems(2) by simp
    then have "concat ess = xs @ ys" using u(3) Cons.prems(2) by (simp add: remove1_append)
    from Cons.IH [OF u(2) this] True nx u show ?thesis
      by (simp add: walk_unlink.simps [of P t "Some y"])
  qed
qed

lemma walk_unlink_all:
  assumes t: "htab_chains t css"
  shows "\<exists>t' dss. walk_unlink P t (htab_next t None) = Some t' \<and> htab_chains t' dss \<and>
    concat dss = filter (\<lambda>y. \<not> P y) (concat css) \<and>
    (\<forall>y. nd_hash (ht_nodes t' y) = nd_hash (ht_nodes t y))"
  using walk_unlink_from [OF t, of "[]" "concat css" P] htab_next_None [OF t]
  by (simp add: hd_option_def)

section \<open>The interface of a table of records\<close>

text \<open>
  What the users of the table rely on: \<open>inv\<close> is the table's invariant, \<open>refs\<close> the set of the records
  in it, and \<open>hash\<close> the hash that each record holds.
\<close>

locale keyed_table =
  fixes inv :: "'t \<Rightarrow> bool"
    and refs :: "'t \<Rightarrow> 'r set"
    and hash :: "'t \<Rightarrow> 'r \<Rightarrow> 'h"
    and insert' :: "'t \<Rightarrow> 'r \<Rightarrow> 't"
    and remove' :: "'t \<Rightarrow> 'r \<Rightarrow> 't option"
    and first :: "'t \<Rightarrow> 'h \<Rightarrow> ('r \<Rightarrow> bool) option \<Rightarrow> 'r option option"
  assumes insert_law: "inv t \<Longrightarrow> x \<notin> refs t \<Longrightarrow>
      inv (insert' t x) \<and> refs (insert' t x) = insert x (refs t) \<and> hash (insert' t x) = hash t"
    and remove_law: "inv t \<Longrightarrow> x \<in> refs t \<Longrightarrow>
      \<exists>t'. remove' t x = Some t' \<and> inv t' \<and> refs t' = refs t - {x} \<and> hash t' = hash t"
    and first_returns: "inv t \<Longrightarrow> first t h m \<noteq> None"
    and first_Some_law: "inv t \<Longrightarrow> first t h m = Some (Some x) \<Longrightarrow>
      x \<in> refs t \<and> hash t x = h \<and> (m = None \<or> the m x)"
    and first_None_law: "inv t \<Longrightarrow> first t h m = Some None \<Longrightarrow> x \<in> refs t \<Longrightarrow>
      \<not> (hash t x = h \<and> (m = None \<or> the m x))"
begin

lemma found_iff:
  assumes "inv t"
  shows "(\<exists>x. first t h m = Some (Some x)) \<longleftrightarrow> (\<exists>x \<in> refs t. hash t x = h \<and> (m = None \<or> the m x))"
proof
  assume "\<exists>x. first t h m = Some (Some x)"
  then show "\<exists>x \<in> refs t. hash t x = h \<and> (m = None \<or> the m x)"
    using first_Some_law [OF assms] by blast
next
  assume "\<exists>x \<in> refs t. hash t x = h \<and> (m = None \<or> the m x)"
  then have "first t h m \<noteq> Some None" using first_None_law [OF assms] by blast
  then show "\<exists>x. first t h m = Some (Some x)" using first_returns [OF assms, of h m]
    by (cases "first t h m"; cases "the (first t h m)") auto
qed

text \<open>Where at most one record answers to a key, the search finds it and no other.\<close>

lemma found_unique:
  assumes t: "inv t" and x: "x \<in> refs t" "hash t x = h" "m = None \<or> the m x"
    and unique: "\<And>y. y \<in> refs t \<Longrightarrow> hash t y = h \<Longrightarrow> m = None \<or> the m y \<Longrightarrow> y = x"
  shows "first t h m = Some (Some x)"
proof -
  obtain y where y: "first t h m = Some (Some y)" using found_iff [OF t] x by blast
  then have "y = x" using first_Some_law [OF t y] unique by blast
  then show ?thesis using y by simp
qed

lemma missing:
  assumes t: "inv t" and none: "\<And>y. y \<in> refs t \<Longrightarrow> hash t y = h \<Longrightarrow> \<not> (m = None \<or> the m y)"
  shows "first t h m = Some None"
proof -
  have "\<not> (\<exists>x. first t h m = Some (Some x))" using found_iff [OF t] none by blast
  then show ?thesis using first_returns [OF t, of h m]
    by (cases "first t h m"; cases "the (first t h m)") auto
qed

text \<open>A record that is inserted and removed again leaves the records that were there.\<close>

lemma remove_insert:
  assumes "inv t" "x \<notin> refs t"
  shows "\<exists>t'. remove' (insert' t x) x = Some t' \<and> inv t' \<and> refs t' = refs t \<and> hash t' = hash t"
  using insert_law [OF assms] remove_law [of "insert' t x" x] assms(2) by fastforce

end

definition ht_inv :: "htab \<Rightarrow> bool" where
  "ht_inv t \<longleftrightarrow> (\<exists>css. htab_chains t css)"

definition ht_refs :: "htab \<Rightarrow> ref set" where
  "ht_refs t = {x. \<exists>css. htab_chains t css \<and> x \<in> set (concat css)}"

definition ht_hash :: "htab \<Rightarrow> ref \<Rightarrow> u64" where
  "ht_hash t x = nd_hash (ht_nodes t x)"

lemma ht_refs_chains: "htab_chains t css \<Longrightarrow> ht_refs t = set (concat css)"
  using htab_chains_unique by (auto simp: ht_refs_def)

lemma ht_n_card: "ht_inv t \<Longrightarrow> ht_n t = of_nat (card (ht_refs t)) \<and> finite (ht_refs t)"
proof -
  assume "ht_inv t"
  then obtain css where c: "htab_chains t css" by (auto simp: ht_inv_def)
  have "card (ht_refs t) = length (concat css)"
    unfolding ht_refs_chains [OF c] by (rule distinct_card [OF chains_distinct [OF c]])
  then show ?thesis using c ht_refs_chains [OF c] by (simp add: htab_chains_def)
qed

lemma htab_link_law:
  assumes "ht_inv t" "x \<notin> ht_refs t"
  shows "ht_inv (htab_link t x)" "ht_refs (htab_link t x) = insert x (ht_refs t)"
    "ht_hash (htab_link t x) = ht_hash t"
proof -
  obtain css where c: "htab_chains t css" using assms(1) by (auto simp: ht_inv_def)
  have x: "x \<notin> set (concat css)" using assms(2) ht_refs_chains [OF c] by simp
  note l = htab_link_chains [OF c x]
  have i: "index_of t x < length css" using chains_bucket [OF c] by (simp add: index_of_def)
  show "ht_inv (htab_link t x)" using l by (auto simp: ht_inv_def)
  have "set (concat (css[index_of t x := x # css ! index_of t x])) = insert x (set (concat css))"
    using mset_concat_update [OF i, of x] by (metis set_mset_add_mset_insert set_mset_mset)
  then show "ht_refs (htab_link t x) = insert x (ht_refs t)"
    using ht_refs_chains [OF c] ht_refs_chains [OF l] by simp
  show "ht_hash (htab_link t x) = ht_hash t"
    by (rule ext) (simp add: ht_hash_def htab_link_def htab_bucket_def write_link_def Let_def)
qed

lemma htab_unlink_law:
  assumes "ht_inv t" "x \<in> ht_refs t"
  shows "\<exists>t'. htab_unlink t x = Some t' \<and> ht_inv t' \<and> ht_refs t' = ht_refs t - {x} \<and>
    ht_hash t' = ht_hash t"
proof -
  obtain css where c: "htab_chains t css" using assms(1) by (auto simp: ht_inv_def)
  have x: "x \<in> set (concat css)" using assms(2) ht_refs_chains [OF c] by simp
  obtain t' dss where u: "htab_unlink t x = Some t'" "htab_chains t' dss"
      "concat dss = remove1 x (concat css)" "\<forall>y. nd_hash (ht_nodes t' y) = nd_hash (ht_nodes t y)"
    using htab_unlink_list [OF c x] by blast
  have "ht_refs t' = ht_refs t - {x}"
    using ht_refs_chains [OF c] ht_refs_chains [OF u(2)] u(3) chains_distinct [OF c]
    by (metis set_remove1_eq)
  moreover have "ht_hash t' = ht_hash t" using u(4) by (auto simp: ht_hash_def)
  ultimately show ?thesis using u by (auto simp: ht_inv_def)
qed

interpretation ht: keyed_table ht_inv ht_refs ht_hash htab_link htab_unlink htab_first
proof (unfold_locales, goal_cases)
  case (1 t x)
  then show ?case using htab_link_law by blast
next
  case (2 t x)
  then show ?case by (rule htab_unlink_law)
next
  case (3 t h m)
  then show ?case using htab_first_chains by (auto simp: ht_inv_def)
next
  case (4 t h m x)
  then show ?case using htab_first_Some
    by (fastforce simp: ht_inv_def ht_refs_chains ht_hash_def matches_def)
next
  case (5 t h m x)
  then show ?case using htab_first_None
    by (fastforce simp: ht_inv_def ht_refs_chains ht_hash_def matches_def)
qed

lemma htab_grow_law:
  assumes "ht_inv t"
  shows "htab_grow as t = Some ((Some ENOMEM, t), snd (calloc as (2 * (ht_mask t + 1)) 8)) \<or>
    (\<exists>t' as'. htab_grow as t = Some ((None, t'), as') \<and> ht_inv t' \<and> ht_refs t' = ht_refs t \<and>
       ht_hash t' = ht_hash t \<and> length (ht_buckets t') = 2 * length (ht_buckets t))"
proof (cases "fst (calloc as (2 * (ht_mask t + 1)) 8)")
  case False
  then show ?thesis using htab_grow_fails by blast
next
  case True
  obtain as' where room: "calloc as (2 * (ht_mask t + 1)) 8 = (True, as')"
    using True by (cases "calloc as (2 * (ht_mask t + 1)) 8") simp
  obtain css where c: "htab_chains t css" using assms by (auto simp: ht_inv_def)
  obtain t' dss where g: "htab_grow as t = Some ((None, t'), as')" "htab_chains t' dss"
      "mset (concat dss) = mset (concat css)" "length dss = 2 * length css"
      "\<forall>x. nd_hash (ht_nodes t' x) = nd_hash (ht_nodes t x)"
    using htab_grow_chains [OF c room] by blast
  have "ht_refs t' = ht_refs t"
    using ht_refs_chains [OF c] ht_refs_chains [OF g(2)] mset_eq_setD [OF g(3)] by simp
  moreover have "ht_hash t' = ht_hash t" using g(5) by (auto simp: ht_hash_def)
  moreover have "length (ht_buckets t') = 2 * length (ht_buckets t)"
    using g(4) chains_length [OF c] chains_length [OF g(2)] by simp
  ultimately show ?thesis using g by (auto simp: ht_inv_def)
qed

section \<open>Properties\<close>

text \<open>
  A record that is linked into a table is in it and is found by its hash, and no record that was
  in the table is lost; unlinking it ends and gives the records before.
\<close>

theorem table_link_and_unlink:
  assumes "ht_inv t" "x \<notin> ht_refs t"
  shows "ht_inv (htab_link t x) \<and> ht_refs (htab_link t x) = insert x (ht_refs t) \<and>
    htab_first (htab_link t x) (ht_hash t x) (Some (\<lambda>y. y = x)) = Some (Some x) \<and>
    (\<exists>t'. htab_unlink (htab_link t x) x = Some t' \<and> ht_inv t' \<and> ht_refs t' = ht_refs t \<and>
       ht_n t' = of_nat (card (ht_refs t)))"
proof (intro conjI)
  note l = htab_link_law [OF assms]
  show "ht_inv (htab_link t x)" "ht_refs (htab_link t x) = insert x (ht_refs t)" by (rule l)+
  show "htab_first (htab_link t x) (ht_hash t x) (Some (\<lambda>y. y = x)) = Some (Some x)"
    by (rule ht.found_unique) (use l in auto)
  show "\<exists>t'. htab_unlink (htab_link t x) x = Some t' \<and> ht_inv t' \<and> ht_refs t' = ht_refs t \<and>
       ht_n t' = of_nat (card (ht_refs t))"
    using ht.remove_insert [OF assms] ht_n_card by metis
qed

text \<open>A small table to apply the properties to.\<close>

definition example_table :: htab where
  "example_table = \<lparr> ht_buckets = [None, None], ht_mask = 1, ht_n = 0,
     ht_nodes = (\<lambda>x. \<lparr> nd_hash = of_nat x, nd_next = None \<rparr>) \<rparr>"

lemma example_chains: "htab_chains example_table [[], []]"
proof -
  have "ht_size example_table 1" by (simp add: ht_size_def example_table_def mask_eq_exp_minus_1)
  then show ?thesis by (auto simp: htab_chains_def example_table_def less_Suc_eq)
qed

lemma example_inv: "ht_inv example_table" "ht_refs example_table = {}"
  using example_chains ht_refs_chains [OF example_chains] by (auto simp: ht_inv_def)

theorem table_link_and_unlink_witness:
  "ht_refs (htab_link example_table 7) = {7} \<and>
   htab_first (htab_link example_table 7) 7 (Some (\<lambda>y. y = 7)) = Some (Some 7)"
  using table_link_and_unlink [of example_table 7] example_inv
  by (simp add: ht_hash_def example_table_def)

text \<open>
  A search ends; it answers with a record of the table that has the hash and matches, and it
  answers with none exactly when the table has no such record.
\<close>

theorem table_search:
  assumes "ht_inv t"
  shows "\<exists>r. htab_first t h match = Some r \<and>
    (case r of
       None \<Rightarrow> {x \<in> ht_refs t. ht_hash t x = h \<and> (match = None \<or> the match x)} = {}
     | Some x \<Rightarrow> x \<in> ht_refs t \<and> ht_hash t x = h \<and> (match = None \<or> the match x))"
  using ht.first_returns [OF assms, of h match] ht.first_Some_law [OF assms, of h match]
    ht.first_None_law [OF assms, of h match]
  by (auto split: option.splits)

theorem table_search_witness:
  "htab_first (htab_link example_table 7) 7 None = Some (Some 7)"
proof -
  have l: "ht_inv (htab_link example_table 7)" "ht_refs (htab_link example_table 7) = {7}"
    "ht_hash (htab_link example_table 7) 7 = 7"
    using htab_link_law [of example_table 7] example_inv
    by (simp_all add: ht_hash_def example_table_def)
  obtain r where r: "htab_first (htab_link example_table 7) 7 None = Some r"
      "case r of None \<Rightarrow> {x \<in> ht_refs (htab_link example_table 7).
           ht_hash (htab_link example_table 7) x = 7 \<and> (None = None \<or> the None x)} = {}
       | Some x \<Rightarrow> x \<in> ht_refs (htab_link example_table 7)"
    using table_search [OF l(1), of 7 None] by (auto split: option.splits)
  then show ?thesis using l by (auto split: option.splits)
qed

text \<open>
  A walk visits each record of the table once and ends, also when it unlinks some of the
  records it visits, as the users of the table do; then exactly the others are left.
\<close>

theorem table_walk:
  assumes "ht_inv t"
  shows "\<exists>xs. distinct xs \<and> set xs = ht_refs t \<and> htab_walk t None xs \<and>
    (\<exists>t'. walk_unlink P t (htab_next t None) = Some t' \<and> ht_inv t' \<and>
       ht_refs t' = {x \<in> ht_refs t. \<not> P x})"
proof -
  obtain css where c: "htab_chains t css" using assms by (auto simp: ht_inv_def)
  obtain t' dss where w: "walk_unlink P t (htab_next t None) = Some t'" "htab_chains t' dss"
      "concat dss = filter (\<lambda>y. \<not> P y) (concat css)"
    using walk_unlink_all [OF c] by blast
  have "ht_refs t' = {x \<in> ht_refs t. \<not> P x}"
    unfolding ht_refs_chains [OF c] ht_refs_chains [OF w(2)] w(3) by auto
  then show ?thesis
    using chains_distinct [OF c] ht_refs_chains [OF c] htab_walk_all [OF c] w
    by (intro exI [of _ "concat css"]) (auto simp: ht_inv_def)
qed

theorem table_walk_witness:
  "\<exists>t'. walk_unlink (\<lambda>x. x = 7) (htab_link example_table 7) (htab_next (htab_link example_table 7) None)
     = Some t' \<and> ht_refs t' = {}"
proof -
  have l: "ht_inv (htab_link example_table 7)" "ht_refs (htab_link example_table 7) = {7}"
    using htab_link_law [of example_table 7] example_inv by simp_all
  show ?thesis using table_walk [OF l(1), of "\<lambda>x. x = 7"] l(2) by auto
qed

text \<open>
  C37.  Growing ends, and either fails with ENOMEM and leaves the table as it was, or
  doubles the buckets and leaves every record in the table with its hash.
\<close>

theorem table_grow:
  assumes "ht_inv t"
  shows "\<exists>e t' as'. htab_grow as t = Some ((e, t'), as') \<and> ht_inv t' \<and> ht_refs t' = ht_refs t \<and>
    ht_hash t' = ht_hash t \<and> (e = Some ENOMEM \<and> t' = t \<or>
      e = None \<and> length (ht_buckets t') = 2 * length (ht_buckets t))"
  using htab_grow_law [OF assms, of as] assms by auto

theorem table_grow_witness:
  "\<exists>t' as'. htab_grow [] (htab_link example_table 7) = Some ((None, t'), as') \<and>
     ht_refs t' = {7} \<and> length (ht_buckets t') = 4"
proof -
  have l: "ht_inv (htab_link example_table 7)" "ht_refs (htab_link example_table 7) = {7}"
    using htab_link_law [of example_table 7] example_inv by simp_all
  have m: "ht_mask (htab_link example_table 7) = 1" "length (ht_buckets (htab_link example_table 7)) = 2"
    by (simp_all add: htab_link_def htab_bucket_def write_link_def example_table_def Let_def
        split: nat.splits)
  have "htab_grow [] (htab_link example_table 7) \<noteq> Some ((Some ENOMEM, t'), as')" for t' as'
    by (auto simp: htab_grow_def m calloc_def SIZE_MAX_def split: option.splits)
  then show ?thesis using table_grow [OF l(1), of "[]"] l(2) m(2) by auto
qed

end
