(* ===== verification/Dstr.thy ===== *)
theory Dstr
  imports Prelude
begin

unbundle bit_operations_syntax

text \<open>
  Dynamic strings with short strings in place (\<^verbatim>\<open>src/dstr.h\<close> and \<^verbatim>\<open>src/dstr.c\<close>), on a little-endian machine
  with the default object size of 24 bytes; the names that end in an underscore there have none here.  The union of \<^verbatim>\<open>struct dstr\<close> is a record with both views: the
  23 bytes before the meta byte, and the buffer, the end and the block count of an allocated string.  The meta
  byte tells which view is the live one, and code that wipes the object resets both.  The buffer is
  the block that \<^verbatim>\<open>ptr[0]\<close> points to and the end pointer an offset into it.

  The lemmas show the invariant of a valid string (its state, its storage, the zeros after its content), that
  every operation keeps it, and that the operations are those of a list of bytes: append, erase, truncate, move.
\<close>

definition OBJ_SIZE :: nat where "OBJ_SIZE = 24"
definition BLK_SIZE :: nat where "BLK_SIZE = 256"
definition GROW_SHIFT_MAX :: nat where "GROW_SHIFT_MAX = 4"
definition PTR_FLAG :: byte where "PTR_FLAG = 0x80"
definition GROW_COUNT_MASK :: byte where "GROW_COUNT_MASK = 0x0F"
definition BLK_COUNT_MASK :: nat where "BLK_COUNT_MASK = 0xFFFFFFFFFFFFFF"

record dstr =
  d_str :: bytes          \<comment> \<open>in place: the bytes before the meta byte\<close>
  d_meta :: byte
  d_ptr :: "bytes option" \<comment> \<open>allocated: the buffer\<close>
  d_end :: "nat option"   \<comment> \<open>the end of the string in it\<close>
  d_blk :: nat            \<comment> \<open>its block count\<close>

text \<open>An object of zeros, and \<^verbatim>\<open>DSTR_INIT\<close>.\<close>

definition dstr_zero :: dstr where
  "dstr_zero = \<lparr>d_str = zeros (OBJ_SIZE - 1), d_meta = 0, d_ptr = None, d_end = None, d_blk = 0\<rparr>"

definition DSTR_INIT :: dstr where
  "DSTR_INIT = dstr_zero\<lparr>d_meta := of_nat (OBJ_SIZE - 1)\<rparr>"

section \<open>Reading the object\<close>

definition dstr_is_sso :: "dstr \<Rightarrow> bool" where
  "dstr_is_sso d \<longleftrightarrow> unat (d_meta d) < OBJ_SIZE"

definition dstr_is_ptr :: "dstr \<Rightarrow> bool" where
  "dstr_is_ptr d \<longleftrightarrow> d_meta d AND PTR_FLAG \<noteq> 0"

definition dstr_sso_space_left :: "dstr \<Rightarrow> nat" where
  "dstr_sso_space_left d = unat (d_meta d)"

definition dstr_sso_len :: "dstr \<Rightarrow> nat" where
  "dstr_sso_len d = OBJ_SIZE - 1 - unat (d_meta d)"

definition dstr_ptr_len :: "dstr \<Rightarrow> nat" where
  "dstr_ptr_len d = the (d_end d)"

definition dstr_ptr_space_left :: "dstr \<Rightarrow> nat" where
  "dstr_ptr_space_left d = d_blk d * BLK_SIZE - 1 - dstr_ptr_len d"

datatype dstate = Is_Not | Is_Sso | Is_Ptr | Is_Bad

record dstr_info =
  i_blocks :: nat
  i_length :: nat
  i_space :: nat
  i_state :: dstate

text \<open>The object is \<open>None\<close> for a null pointer.\<close>

definition dstr_info :: "dstr option \<Rightarrow> dstr_info" where
  "dstr_info ds =
     (case ds of
        None \<Rightarrow> \<lparr>i_blocks = 0, i_length = 0, i_space = 0, i_state = Is_Not\<rparr>
      | Some d \<Rightarrow>
          if dstr_is_sso d then
            \<lparr>i_blocks = 0, i_length = dstr_sso_len d, i_space = dstr_sso_space_left d, i_state = Is_Sso\<rparr>
          else
            let blk = d_blk d;
                size = blk * BLK_SIZE;
                len = dstr_ptr_len d
            in if dstr_is_ptr d \<and> d_ptr d \<noteq> None \<and> d_end d \<noteq> None \<and> blk \<noteq> 0 \<and> len < size then
                 \<lparr>i_blocks = blk, i_length = len, i_space = size - 1 - len, i_state = Is_Ptr\<rparr>
               else \<lparr>i_blocks = 0, i_length = 0, i_space = 0, i_state = Is_Bad\<rparr>)"

definition dstr_len :: "dstr option \<Rightarrow> nat" where
  "dstr_len ds =
     (case ds of
        None \<Rightarrow> 0
      | Some d \<Rightarrow>
          if dstr_is_sso d then dstr_sso_len d
          else if dstr_is_ptr d \<and> d_ptr d \<noteq> None \<and> d_end d \<noteq> None then dstr_ptr_len d
          else 0)"

definition dstr_space_left :: "dstr option \<Rightarrow> nat" where
  "dstr_space_left ds =
     (case ds of
        None \<Rightarrow> 0
      | Some d \<Rightarrow>
          if dstr_is_sso d then dstr_sso_space_left d
          else if dstr_is_ptr d \<and> d_ptr d \<noteq> None \<and> d_end d \<noteq> None then dstr_ptr_space_left d
          else 0)"

definition dstr_get_block_count :: "dstr option \<Rightarrow> nat" where
  "dstr_get_block_count ds =
     (case ds of None \<Rightarrow> 0 | Some d \<Rightarrow> if \<not> dstr_is_ptr d then 0 else d_blk d)"

text \<open>The bytes of the object, the last of which is the meta byte, and a write to them.\<close>

definition dstr_bytes :: "dstr \<Rightarrow> bytes" where
  "dstr_bytes d = d_str d @ [d_meta d]"

definition put_raw :: "nat \<Rightarrow> bytes \<Rightarrow> dstr \<Rightarrow> dstr" where
  "put_raw off src d =
     (let raw = overwrite (dstr_bytes d) off src
      in d\<lparr>d_str := take (OBJ_SIZE - 1) raw, d_meta := raw ! (OBJ_SIZE - 1)\<rparr>)"

definition put_buf :: "nat \<Rightarrow> bytes \<Rightarrow> dstr \<Rightarrow> dstr" where
  "put_buf off src d = d\<lparr>d_ptr := map_option (\<lambda>b. overwrite b off src) (d_ptr d)\<rparr>"

text \<open>What \<^verbatim>\<open>dstr_get()\<close> points to: the bytes from the start of the content on.\<close>

definition dstr_get :: "dstr option \<Rightarrow> bytes option" where
  "dstr_get ds =
     (case ds of
        None \<Rightarrow> None
      | Some d \<Rightarrow>
          if dstr_is_sso d then Some (dstr_bytes d)
          else if dstr_is_ptr d then d_ptr d
          else None)"

section \<open>Allocating\<close>

text \<open>
  \<^verbatim>\<open>realloc()\<close> leaves the new bytes of a block unspecified.  They are a byte other
  than zero here, so that a byte that is not wiped is seen.
\<close>

definition unset_byte :: byte where "unset_byte = 0xA5"

definition realloc_bytes :: "bytes \<Rightarrow> nat \<Rightarrow> bytes" where
  "realloc_bytes buf n = take n buf @ replicate (n - length buf) unset_byte"

definition dstr_init_n :: "allocs \<Rightarrow> bytes \<Rightarrow> dstr \<Rightarrow> errno option \<times> allocs \<times> dstr" where
  "dstr_init_n al src d =
     (let len = length src
      in if len = 0 then (None, al, d)
         else if len < OBJ_SIZE then
           let d = put_raw 0 src d in (None, al, d\<lparr>d_meta := d_meta d - of_nat len\<rparr>)
         else
           let n_blocks = len div 256 + 1
           in if n_blocks > BLK_COUNT_MASK then (Some EOVERFLOW, al, d)
              else
                let (ok, al) = alloc al
                in if \<not> ok then (Some ENOMEM, al, d)
                   else
                     let buf = overwrite (zeros (n_blocks * BLK_SIZE)) 0 src
                     in (None, al, d\<lparr>d_ptr := Some buf, d_end := Some len, d_blk := n_blocks,
                                      d_meta := 0 OR PTR_FLAG\<rparr>))"

text \<open>\<^verbatim>\<open>dstr_init_()\<close> of a string, or of a null pointer, and \<^verbatim>\<open>dstr_n_()\<close>, the object by value.\<close>

definition dstr_init :: "allocs \<Rightarrow> bytes option \<Rightarrow> dstr \<Rightarrow> errno option \<times> allocs \<times> dstr" where
  "dstr_init al src d =
     (case src of None \<Rightarrow> (None, al, d) | Some s \<Rightarrow> dstr_init_n al (takeWhile (\<lambda>c. c \<noteq> 0) s) d)"

definition dstr_n :: "allocs \<Rightarrow> bytes \<Rightarrow> allocs \<times> dstr" where
  "dstr_n al src =
     (let ret = DSTR_INIT
      in if length src < OBJ_SIZE then
           let ret = put_raw 0 src ret in (al, ret\<lparr>d_meta := d_meta ret - of_nat (length src)\<rparr>)
         else let (e, al, ret) = dstr_init_n al src ret in (al, ret))"

definition dstr_resize :: "allocs \<Rightarrow> nat \<Rightarrow> dstr \<Rightarrow> errno option \<times> allocs \<times> dstr" where
  "dstr_resize al n_blocks d =
     (if n_blocks > BLK_COUNT_MASK then (Some EOVERFLOW, al, d)
      else
        let i = dstr_info (Some d)
        in if i_state i = Is_Not then (Some EFAULT, al, d)
           else if i_state i = Is_Bad then (Some EILSEQ, al, d)
           else if n_blocks = i_blocks i then (None, al, d)
           else
             let cur_size = (if i_blocks i \<noteq> 0 then i_blocks i * BLK_SIZE else OBJ_SIZE);
                 new_size = (if n_blocks \<noteq> 0 then n_blocks * BLK_SIZE else OBJ_SIZE);
                 orig_len = i_length i
             in if i_state i = Is_Ptr then
                  let truncate = orig_len \<ge> new_size;
                      count = d_meta d AND GROW_COUNT_MASK;
                      len = (if truncate then new_size - 1 else orig_len)
                  in if n_blocks = 0 then
                       let str = take len (the (d_ptr d));
                           d = dstr_zero;
                           d = (if orig_len \<noteq> 0 \<and> len \<noteq> 0 then put_raw 0 str d else d)
                       in (None, al, d\<lparr>d_meta := of_nat (OBJ_SIZE - 1 - len)\<rparr>)
                     else
                       let d = (if truncate then put_buf len (zeros (orig_len - len)) d else d);
                           (ok, al) = alloc al
                       in if \<not> ok then
                            let d = (if truncate then d\<lparr>d_end := Some len\<rparr> else d)
                            in (if new_size > cur_size then Some ENOMEM else None, al, d)
                          else
                            let d = d\<lparr>d_ptr := Some (realloc_bytes (the (d_ptr d)) new_size)\<rparr>;
                                d = (if new_size > cur_size then put_buf cur_size (zeros (new_size - cur_size)) d
                                     else d)
                            in (None, al, d\<lparr>d_end := Some len, d_blk := n_blocks,
                                            d_meta := 0 OR (PTR_FLAG OR count)\<rparr>)
                else
                  let (ok, al) = alloc al
                  in if \<not> ok then (Some ENOMEM, al, d)
                     else
                       let buf = zeros (n_blocks * BLK_SIZE);
                           len = i_length i;
                           buf = (if len \<noteq> 0 then overwrite buf 0 (take len (dstr_bytes d)) else buf);
                           d = dstr_zero
                       in (None, al, d\<lparr>d_ptr := Some buf, d_end := Some len, d_blk := n_blocks,
                                       d_meta := 0 OR PTR_FLAG\<rparr>))"

definition dstr_grow :: "allocs \<Rightarrow> nat \<Rightarrow> bool \<Rightarrow> dstr \<Rightarrow> errno option \<times> allocs \<times> dstr" where
  "dstr_grow al len exact d =
     (let i = dstr_info (Some d)
      in if i_state i = Is_Not then (Some EFAULT, al, d)
         else if i_state i = Is_Bad then (Some EILSEQ, al, d)
         else if len \<le> i_space i then (None, al, d)
         else
           let n = i_length i + len
           in if n > SIZE_MAX then (Some EOVERFLOW, al, d)
              else
                let count = (if i_state i = Is_Ptr then unat (d_meta d AND GROW_COUNT_MASK) else 0);
                    shift = (if exact then 0 else if count < GROW_SHIFT_MAX then count else GROW_SHIFT_MAX);
                    n_blocks = (n div 2 ^ (8 + shift) + 1) * 2 ^ shift;
                    (err, al, d) = dstr_resize al n_blocks d
                in if err \<noteq> None \<or> exact then (err, al, d)
                   else (None, al, if count < unat GROW_COUNT_MASK then d\<lparr>d_meta := d_meta d + 1\<rparr> else d))"

text \<open>
  The functions of the interface, on an object (with a null pointer they do nothing and fail).  The result
  tells whether the pointer returned is not null.
\<close>

definition dstr_reserve_for :: "allocs \<Rightarrow> nat \<Rightarrow> bool \<Rightarrow> dstr \<Rightarrow> bool \<times> allocs \<times> dstr" where
  "dstr_reserve_for al len exact d =
     (let info = dstr_info (Some d)
      in if i_state info = Is_Sso \<or> i_state info = Is_Ptr then
           if len \<le> i_space info then (True, al, d)
           else
             let (err, al, tmp) = dstr_grow al len exact d
             in if err \<noteq> None then (False, al, d) else (True, al, tmp)
         else (False, al, d))"

definition dstr_reserve :: "allocs \<Rightarrow> nat \<Rightarrow> dstr \<Rightarrow> bool \<times> allocs \<times> dstr" where
  "dstr_reserve al len d = dstr_reserve_for al len True d"

text \<open>
  \<^verbatim>\<open>dstr_cat_n()\<close>: the pointer of \<^verbatim>\<open>dstr_get_write_ptr()\<close> leads into the object or into its buffer.  The
  terminator is written after the length is counted, and on a full string in place it is the meta byte.
\<close>

definition dstr_cat_n :: "allocs \<Rightarrow> bytes option \<Rightarrow> nat \<Rightarrow> dstr \<Rightarrow> bool \<times> allocs \<times> dstr" where
  "dstr_cat_n al src len d =
     (if len = 0 then (True, al, d)
      else if src = None then (False, al, d)
      else
        let (ok, al, d) = dstr_reserve_for al len False d
        in if \<not> ok then (False, al, d)
           else if dstr_is_sso d then
             let at = dstr_sso_len d;
                 d = put_raw at (take len (the src)) d;
                 d = d\<lparr>d_meta := d_meta d - of_nat len\<rparr>
             in (True, al, put_raw (at + len) [0] d)
           else if dstr_is_ptr d \<and> d_ptr d \<noteq> None then
             let at = the (d_end d);
                 d = put_buf at (take len (the src)) d;
                 d = d\<lparr>d_end := Some (at + len)\<rparr>
             in (True, al, put_buf (at + len) [0] d)
           else (False, al, d))"

definition dstr_cat :: "allocs \<Rightarrow> bytes option \<Rightarrow> dstr \<Rightarrow> bool \<times> allocs \<times> dstr" where
  "dstr_cat al src d =
     dstr_cat_n al src (case src of None \<Rightarrow> 0 | Some s \<Rightarrow> length (takeWhile (\<lambda>c. c \<noteq> 0) s)) d"

text \<open>
  What \<^verbatim>\<open>vsnprintf()\<close> makes of a format and its arguments: the str, whose length it returns, or a negative result, with the error number it
  leaves, if any, and what it has written by then.
\<close>

datatype printed = Printed bytes | Failed "errno option" bytes

definition dstr_vprintf :: "allocs \<Rightarrow> printed \<Rightarrow> printed \<Rightarrow> dstr \<Rightarrow> errno option \<times> allocs \<times> dstr" where
  "dstr_vprintf al measured formatted d =
     (case measured of
        Failed e _ \<Rightarrow> (Some (case e of None \<Rightarrow> EILSEQ | Some e \<Rightarrow> e), al, d)
      | Printed str \<Rightarrow>
          let len = length str
          in if len = 0 then (None, al, d)
             else
               let (err, al, d) = dstr_grow al len False d
               in if err \<noteq> None then (err, al, d)
                  else
                    let i = dstr_info (Some d);
                        put = (if i_state i = Is_Ptr then put_buf (the (d_end d)) else put_raw (i_length i));
                        d = put (case formatted of Printed t \<Rightarrow> take len t @ [0] | Failed _ t \<Rightarrow> take (len + 1) t) d
                    in if (case formatted of Printed t \<Rightarrow> length t \<noteq> len | Failed _ _ \<Rightarrow> True) then
                         let err = (case formatted of Failed (Some e) _ \<Rightarrow> e | _ \<Rightarrow> EILSEQ);
                             d = put (zeros (len + 1)) d;
                             d = (if i_state i = Is_Sso then d\<lparr>d_meta := of_nat (i_space i)\<rparr> else d)
                         in (Some err, al, d)
                       else if i_state i = Is_Ptr then (None, al, d\<lparr>d_end := Some (the (d_end d) + len)\<rparr>)
                       else (None, al, d\<lparr>d_meta := of_nat (i_space i - len)\<rparr>))"

definition dstr_printf :: "allocs \<Rightarrow> printed \<Rightarrow> printed \<Rightarrow> dstr \<Rightarrow> bool \<times> allocs \<times> dstr" where
  "dstr_printf al measured formatted d =
     (let (err, al, tmp) = dstr_vprintf al measured formatted d in (err = None, al, tmp))"

definition dstr_erase :: "nat \<Rightarrow> nat \<Rightarrow> dstr \<Rightarrow> bool \<times> dstr" where
  "dstr_erase pos len d =
     (let info = dstr_info (Some d)
      in if i_state info \<noteq> Is_Sso \<and> i_state info \<noteq> Is_Ptr \<or> pos > i_length info then (False, d)
         else
           let n = (if len < i_length info - pos then len else i_length info - pos)
           in if n = 0 then (True, d)
              else
                let fin = i_length info - n
                in if i_state info = Is_Ptr then
                     let str = the (d_ptr d);
                         d = put_buf pos (take (fin - pos) (drop (pos + n) str)) d;
                         d = put_buf fin (zeros n) d
                     in (True, d\<lparr>d_end := Some (the (d_end d) - n)\<rparr>)
                   else
                     let str = dstr_bytes d;
                         d = put_raw pos (take (fin - pos) (drop (pos + n) str)) d;
                         d = put_raw fin (zeros n) d
                     in (True, d\<lparr>d_meta := d_meta d + of_nat n\<rparr>))"

definition dstr_clear :: "dstr \<Rightarrow> bool \<times> dstr" where
  "dstr_clear d = dstr_erase 0 SIZE_MAX d"

text \<open>The object moved out, and what stays behind.\<close>

definition dstr_move :: "dstr \<Rightarrow> dstr \<times> dstr" where
  "dstr_move d = (let ret = d in (ret, DSTR_INIT))"

text \<open>The block as it is handed to \<^verbatim>\<open>free()\<close>.\<close>

definition dstr_free :: "bytes option \<Rightarrow> nat option \<Rightarrow> bytes option" where
  "dstr_free buf fin =
     (case buf of
        None \<Rightarrow> None
      | Some b \<Rightarrow> Some (case fin of None \<Rightarrow> b | Some e \<Rightarrow> overwrite b 0 (zeros e)))"

definition dstr_cleanup :: "dstr \<Rightarrow> bytes option \<times> dstr" where
  "dstr_cleanup d = (if dstr_is_ptr d then dstr_free (d_ptr d) (d_end d) else None, DSTR_INIT)"

section \<open>The invariant and the content\<close>

text \<open>
  A string in place, and one in a buffer, with its content: after the content there are only zeros, so no
  byte that was erased stays behind.
\<close>

definition holds_sso :: "dstr \<Rightarrow> bytes \<Rightarrow> bool" where
  "holds_sso d s \<longleftrightarrow>
     length s \<le> OBJ_SIZE - 1 \<and> d_str d = s @ zeros (OBJ_SIZE - 1 - length s) \<and>
     d_meta d = of_nat (OBJ_SIZE - 1 - length s)"

definition holds_ptr :: "dstr \<Rightarrow> bytes \<Rightarrow> bool" where
  "holds_ptr d s \<longleftrightarrow>
     0x80 \<le> unat (d_meta d) \<and> unat (d_meta d) \<le> 0x8F \<and> 0 < d_blk d \<and> d_blk d \<le> BLK_COUNT_MASK \<and>
     length s < d_blk d * BLK_SIZE \<and> d_ptr d = Some (s @ zeros (d_blk d * BLK_SIZE - length s)) \<and>
     d_end d = Some (length s)"

definition holds :: "dstr \<Rightarrow> bytes \<Rightarrow> bool" where
  "holds d s \<longleftrightarrow> holds_sso d s \<or> holds_ptr d s"

definition content :: "dstr \<Rightarrow> bytes" where
  "content d =
     (if dstr_is_sso d then take (dstr_sso_len d) (d_str d) else take (the (d_end d)) (the (d_ptr d)))"

definition dstr_ok :: "dstr \<Rightarrow> bool" where
  "dstr_ok d \<longleftrightarrow> holds d (content d)"

lemma meta_ptr:
  assumes "0x80 \<le> unat (m :: byte)" "unat m \<le> 0x8F"
  shows "m AND PTR_FLAG \<noteq> 0" "\<not> unat m < OBJ_SIZE"
    "unat (m AND GROW_COUNT_MASK) = unat m - 0x80" "unat (m AND GROW_COUNT_MASK) \<le> 15"
    "0 OR (PTR_FLAG OR (m AND GROW_COUNT_MASK)) = m"
proof -
  have "list_all (\<lambda>m. 0x80 \<le> unat m \<longrightarrow> unat m \<le> 0x8F \<longrightarrow> m AND PTR_FLAG \<noteq> 0 \<and> \<not> unat m < OBJ_SIZE \<and>
      unat (m AND GROW_COUNT_MASK) = unat m - 0x80 \<and> unat (m AND GROW_COUNT_MASK) \<le> 15 \<and>
      0 OR (PTR_FLAG OR (m AND GROW_COUNT_MASK)) = m) all_bytes"
    unfolding all_bytes_num by code_simp
  from byte_cases [OF this, of m] assms show "m AND PTR_FLAG \<noteq> 0" "\<not> unat m < OBJ_SIZE"
    "unat (m AND GROW_COUNT_MASK) = unat m - 0x80" "unat (m AND GROW_COUNT_MASK) \<le> 15"
    "0 OR (PTR_FLAG OR (m AND GROW_COUNT_MASK)) = m" by auto
qed

lemma meta_sso:
  assumes "n < OBJ_SIZE"
  shows "unat (of_nat n :: byte) = n" "(of_nat n :: byte) AND PTR_FLAG = 0"
proof -
  have "list_all (\<lambda>n. unat (of_nat n :: byte) = n \<and> (of_nat n :: byte) AND PTR_FLAG = 0) [0..<24]" by code_simp
  then show "unat (of_nat n :: byte) = n" "(of_nat n :: byte) AND PTR_FLAG = 0"
    using assms by (auto simp: list_all_iff OBJ_SIZE_def)
qed

lemma holds_ssoD:
  assumes "holds_sso d s"
  shows "dstr_is_sso d" "\<not> dstr_is_ptr d" "dstr_sso_len d = length s" "dstr_sso_space_left d = OBJ_SIZE - 1 - length s"
    "content d = s" "length (d_str d) = OBJ_SIZE - 1" "length s < OBJ_SIZE"
    "dstr_info (Some d) = \<lparr>i_blocks = 0, i_length = length s, i_space = OBJ_SIZE - 1 - length s, i_state = Is_Sso\<rparr>"
proof -
  have s: "length s \<le> OBJ_SIZE - 1" and m: "d_meta d = of_nat (OBJ_SIZE - 1 - length s)"
    and b: "d_str d = s @ zeros (OBJ_SIZE - 1 - length s)"
    using assms by (simp_all add: holds_sso_def)
  have lt: "OBJ_SIZE - 1 - length s < OBJ_SIZE" by (simp add: OBJ_SIZE_def)
  show 1: "dstr_is_sso d" "\<not> dstr_is_ptr d" using lt by (simp_all add: dstr_is_sso_def dstr_is_ptr_def m meta_sso)
  show 2: "dstr_sso_len d = length s" using s unfolding dstr_sso_len_def m meta_sso(1) [OF lt] by simp
  show 3: "dstr_sso_space_left d = OBJ_SIZE - 1 - length s" unfolding dstr_sso_space_left_def m meta_sso(1) [OF lt] ..
  show "content d = s" using 1 2 b by (simp add: content_def)
  show "length (d_str d) = OBJ_SIZE - 1" using s b by simp
  show "length s < OBJ_SIZE" using s by (simp add: OBJ_SIZE_def)
  show "dstr_info (Some d) = \<lparr>i_blocks = 0, i_length = length s, i_space = OBJ_SIZE - 1 - length s, i_state = Is_Sso\<rparr>"
    using 1 2 3 by (simp add: dstr_info_def)
qed

lemma holds_ptrD:
  assumes "holds_ptr d s"
  shows "\<not> dstr_is_sso d" "dstr_is_ptr d" "dstr_ptr_len d = length s" "content d = s"
    "d_ptr d = Some (s @ zeros (d_blk d * BLK_SIZE - length s))" "d_end d = Some (length s)"
    "length s < d_blk d * BLK_SIZE" "0 < d_blk d" "d_blk d \<le> BLK_COUNT_MASK"
    "dstr_info (Some d) = \<lparr>i_blocks = d_blk d, i_length = length s, i_space = d_blk d * BLK_SIZE - 1 - length s, i_state = Is_Ptr\<rparr>"
proof -
  have m: "0x80 \<le> unat (d_meta d)" "unat (d_meta d) \<le> 0x8F" using assms by (simp_all add: holds_ptr_def)
  show 1: "\<not> dstr_is_sso d" "dstr_is_ptr d" using meta_ptr [OF m] by (simp_all add: dstr_is_sso_def dstr_is_ptr_def)
  show 2: "dstr_ptr_len d = length s" "d_ptr d = Some (s @ zeros (d_blk d * BLK_SIZE - length s))" "d_end d = Some (length s)"
    "length s < d_blk d * BLK_SIZE" "0 < d_blk d" "d_blk d \<le> BLK_COUNT_MASK"
    using assms by (simp_all add: holds_ptr_def dstr_ptr_len_def)
  show "content d = s" using 1 2 by (simp add: content_def)
  show "dstr_info (Some d) = \<lparr>i_blocks = d_blk d, i_length = length s, i_space = d_blk d * BLK_SIZE - 1 - length s, i_state = Is_Ptr\<rparr>"
    using 1 2 by (simp add: dstr_info_def Let_def)
qed

lemma holds_content: "holds d s \<Longrightarrow> content d = s"
  by (auto simp: holds_def holds_ssoD(5) holds_ptrD(4))

lemma dstr_ok_holds: "dstr_ok d \<longleftrightarrow> (\<exists>s. holds d s)"
  using holds_content by (auto simp: dstr_ok_def)

lemma holds_init: "holds_sso DSTR_INIT []"
  by (simp add: holds_sso_def DSTR_INIT_def dstr_zero_def)

lemma dstr_len_holds: "holds d s \<Longrightarrow> dstr_len (Some d) = length s"
  by (auto simp: holds_def dstr_len_def holds_ssoD holds_ptrD)

section \<open>Writing into the storage\<close>

lemma zero_zeros: "0 < k \<Longrightarrow> [0] @ zeros (k - 1) = zeros k"
  by (cases k) (simp_all add: zeros_Suc)

lemma overwrite_zeros:
  "length t \<le> k \<Longrightarrow> overwrite (s @ zeros k) (length s) t = s @ t @ zeros (k - length t)"
  by (simp add: overwrite_def)

lemma overwrite_zeros_0: "length t \<le> k \<Longrightarrow> overwrite (zeros k) 0 t = t @ zeros (k - length t)"
  using overwrite_zeros [of t k "[]"] by simp

lemma overwrite_append1: "off + length t \<le> length b \<Longrightarrow> overwrite (b @ c) off t = overwrite b off t @ c"
  by (simp add: overwrite_def)

lemma put_raw_inside:
  assumes "off + length t \<le> OBJ_SIZE - 1" "length (d_str d) = OBJ_SIZE - 1"
  shows "put_raw off t d = d\<lparr>d_str := overwrite (d_str d) off t\<rparr>"
  using assms by (simp add: put_raw_def dstr_bytes_def overwrite_append1 nth_append)

lemma put_raw_meta:
  assumes "length (d_str d) = OBJ_SIZE - 1"
  shows "put_raw (OBJ_SIZE - 1) [c] d = d\<lparr>d_meta := c\<rparr>"
  using assms by (simp add: put_raw_def dstr_bytes_def overwrite_def nth_append)

text \<open>The terminator of a string in place changes nothing: it is a zero after it, or the meta byte of a full one.\<close>

lemma put_terminator_sso: "holds_sso d s \<Longrightarrow> put_raw (length s) [0] d = d"
proof -
  assume h: "holds_sso d s"
  then have b: "d_str d = s @ zeros (OBJ_SIZE - 1 - length s)" and m: "d_meta d = of_nat (OBJ_SIZE - 1 - length s)"
    and l: "length s \<le> OBJ_SIZE - 1"
    by (simp_all add: holds_sso_def)
  show ?thesis
  proof (cases "length s = OBJ_SIZE - 1")
    case True
    then show ?thesis using put_raw_meta [of d 0] holds_ssoD(6) [OF h] m by simp
  next
    case False
    then have "[0] @ zeros (OBJ_SIZE - 1 - length s - 1) = zeros (OBJ_SIZE - 1 - length s)"
      using l by (intro zero_zeros) simp
    then have "overwrite (d_str d) (length s) [0] = d_str d"
      using False l by (simp add: b overwrite_zeros)
    then show ?thesis using False l by (simp add: put_raw_inside holds_ssoD(6) [OF h])
  qed
qed

lemma put_terminator_ptr: "holds_ptr d s \<Longrightarrow> put_buf (length s) [0] d = d"
proof -
  assume h: "holds_ptr d s"
  have "[0] @ zeros (d_blk d * BLK_SIZE - length s - 1) = zeros (d_blk d * BLK_SIZE - length s)"
    using holds_ptrD(7) [OF h] by (intro zero_zeros) simp
  then show ?thesis
    using holds_ptrD(5,7) [OF h] by (simp add: put_buf_def overwrite_zeros)
qed

lemma append_sso:
  assumes "holds_sso d s" "length s + length t \<le> OBJ_SIZE - 1"
  shows "holds_sso ((put_raw (length s) t d)\<lparr>d_meta := d_meta d - of_nat (length t)\<rparr>) (s @ t)"
proof -
  have "put_raw (length s) t d = d\<lparr>d_str := s @ t @ zeros (OBJ_SIZE - 1 - length s - length t)\<rparr>"
    using assms by (simp add: put_raw_inside holds_ssoD(6) [OF assms(1)])
      (simp add: holds_sso_def overwrite_zeros)
  moreover have "d_meta d - of_nat (length t) = (of_nat (OBJ_SIZE - 1 - (length s + length t)) :: byte)"
  proof -
    have "d_meta d - of_nat (length t) = of_nat (OBJ_SIZE - 1 - length s) - of_nat (length t)"
      using assms by (simp add: holds_sso_def)
    also have "\<dots> = of_nat (OBJ_SIZE - 1 - length s - length t)" using assms(2) by (intro of_nat_diff [symmetric]) linarith
    finally show ?thesis by (simp add: diff_diff_left)
  qed
  ultimately show ?thesis using assms by (simp add: holds_sso_def)
qed

lemma append_ptr:
  assumes "holds_ptr d s" "length s + length t < d_blk d * BLK_SIZE"
  shows "holds_ptr ((put_buf (length s) t d)\<lparr>d_end := Some (length s + length t)\<rparr>) (s @ t)"
  using assms by (simp add: holds_ptr_def put_buf_def overwrite_zeros)

section \<open>Resizing and growing\<close>

lemma realloc_wiped:
  assumes "length t + k = cur" "length t < new"
  shows "(if new > cur then overwrite (realloc_bytes (t @ zeros k) new) cur (zeros (new - cur))
      else realloc_bytes (t @ zeros k) new) = t @ zeros (new - length t)"
  using assms by (auto simp: realloc_bytes_def overwrite_def zeros_append)

lemma wipe_tail:
  assumes "l \<le> length s"
  shows "overwrite (s @ zeros k) l (zeros (length s - l)) = take l s @ zeros (length s - l + k)"
  using assms by (simp add: overwrite_def zeros_append)

definition capacity :: "nat \<Rightarrow> nat" where
  "capacity n = (if n = 0 then OBJ_SIZE else n * BLK_SIZE)"

lemma resize_same:
  assumes "holds d s" "n = dstr_get_block_count (Some d)" "n \<le> BLK_COUNT_MASK"
  shows "dstr_resize al n d = (None, al, d)"
  using assms by (auto simp: holds_def dstr_resize_def holds_ssoD holds_ptrD dstr_get_block_count_def)

lemma resize_sso:
  assumes h: "holds_sso d s" and n: "0 < n" "n \<le> BLK_COUNT_MASK"
  obtains (granted) d' where "fst (alloc al)" "dstr_resize al n d = (None, snd (alloc al), d')"
      "holds_ptr d' s" "d_blk d' = n" "d_meta d' = PTR_FLAG"
  | (refused) "\<not> fst (alloc al)" "dstr_resize al n d = (Some ENOMEM, snd (alloc al), d)"
proof (cases "fst (alloc al)")
  case True
  let ?d = "dstr_zero\<lparr>d_ptr := Some (s @ zeros (n * BLK_SIZE - length s)), d_end := Some (length s), d_blk := n,
      d_meta := PTR_FLAG\<rparr>"
  have lt: "length s < n * BLK_SIZE"
  proof -
    have "length s < BLK_SIZE" using holds_ssoD(7) [OF h] by (simp add: OBJ_SIZE_def BLK_SIZE_def)
    also have "\<dots> \<le> n * BLK_SIZE" using n(1) by (cases n) simp_all
    finally show ?thesis .
  qed
  have bytes: "take (length s) (dstr_bytes d) = s"
    using h by (simp add: dstr_bytes_def holds_sso_def)
  have "overwrite (zeros (n * BLK_SIZE)) 0 s = s @ zeros (n * BLK_SIZE - length s)"
    using lt by (simp add: overwrite_zeros_0)
  then have "dstr_resize al n d = (None, snd (alloc al), ?d)"
    using True n bytes by (auto simp: dstr_resize_def holds_ssoD(8) [OF h] split_beta Let_def)
  moreover have "holds_ptr ?d s" using lt n by (simp add: holds_ptr_def PTR_FLAG_def)
  ultimately show ?thesis using True granted by simp
next
  case False
  then have "dstr_resize al n d = (Some ENOMEM, snd (alloc al), d)"
    using n by (auto simp: dstr_resize_def holds_ssoD(8) [OF h] split_beta)
  then show ?thesis using False refused by simp
qed

lemma resize_ptr_to_sso:
  assumes h: "holds_ptr d s"
  obtains d' where "dstr_resize al 0 d = (None, al, d')" "holds_sso d' (take (OBJ_SIZE - 1) s)"
proof -
  define l where "l = (if OBJ_SIZE \<le> length s then OBJ_SIZE - 1 else length s)"
  define d' where "d' = (put_raw 0 (take l s) dstr_zero)\<lparr>d_meta := of_nat (OBJ_SIZE - 1 - l)\<rparr>"
  have l: "l \<le> length s" "l \<le> OBJ_SIZE - 1" by (auto simp: l_def OBJ_SIZE_def)
  have t: "take l (s @ zeros k) = take l s" for k using l by simp
  have z: "put_raw 0 [] dstr_zero = dstr_zero" by (simp add: put_raw_inside dstr_zero_def)
  have "dstr_resize al 0 d = (None, al, d')"
    using holds_ptrD(5,8) [OF h] z l
    by (auto simp: dstr_resize_def holds_ptrD(10) [OF h] Let_def l_def [symmetric] t d'_def)
  moreover have "holds_sso d' (take (OBJ_SIZE - 1) s)"
  proof -
    have "put_raw 0 (take l s) dstr_zero = dstr_zero\<lparr>d_str := take l s @ zeros (OBJ_SIZE - 1 - l)\<rparr>"
      using l by (simp add: put_raw_inside dstr_zero_def overwrite_zeros_0)
    moreover have "take l s = take (OBJ_SIZE - 1) s" by (simp add: l_def OBJ_SIZE_def)
    moreover have "length (take (OBJ_SIZE - 1) s) = l" by (auto simp: l_def OBJ_SIZE_def)
    ultimately show ?thesis using l unfolding d'_def holds_sso_def by (simp del: length_take)
  qed
  ultimately show ?thesis using that by blast
qed

lemma resize_ptr:
  assumes h: "holds_ptr d s" and n: "0 < n" "n \<le> BLK_COUNT_MASK" "n \<noteq> d_blk d"
  obtains (granted) d' where "fst (alloc al)" "dstr_resize al n d = (None, snd (alloc al), d')"
      "holds_ptr d' (take (n * BLK_SIZE - 1) s)" "d_blk d' = n" "d_meta d' = d_meta d"
  | (kept) d' where "\<not> fst (alloc al)" "n < d_blk d" "dstr_resize al n d = (None, snd (alloc al), d')"
      "holds_ptr d' (take (n * BLK_SIZE - 1) s)" "d_blk d' = d_blk d" "d_meta d' = d_meta d"
  | (refused) "\<not> fst (alloc al)" "d_blk d < n" "dstr_resize al n d = (Some ENOMEM, snd (alloc al), d)"
proof -
  define cur new where "cur = d_blk d * BLK_SIZE" and "new = n * BLK_SIZE"
  define l where "l = (if new \<le> length s then new - 1 else length s)"
  define t where "t = take l s"
  have blk: "0 < d_blk d" and ls: "length s < cur" using holds_ptrD [OF h] by (simp_all add: cur_def)
  have new: "0 < new" using n by (simp add: new_def BLK_SIZE_def)
  have l: "l \<le> length s" "l < new" using new by (auto simp: l_def)
  have t: "t = take (new - 1) s" "length t = l" using l new by (auto simp: t_def l_def)
  have lt_iff: "cur < new \<longleftrightarrow> d_blk d < n" by (simp add: cur_def new_def BLK_SIZE_def)
  have m: "0x80 \<le> unat (d_meta d)" "unat (d_meta d) \<le> 0x8F" using h by (simp_all add: holds_ptr_def)
  define d1 where "d1 = (if new \<le> length s then put_buf l (zeros (length s - l)) d else d)"
  have d1: "d_ptr d1 = Some (t @ zeros (cur - l))" "d_meta d1 = d_meta d" "d_blk d1 = d_blk d"
    "new > length s \<Longrightarrow> d1 = d"
    using holds_ptrD(5) [OF h] wipe_tail [OF l(1), of "cur - length s"] ls
    by (auto simp: d1_def put_buf_def cur_def [symmetric] t_def l_def)
  show ?thesis
  proof (cases "fst (alloc al)")
    case True
    let ?b = "if cur < new then overwrite (realloc_bytes (t @ zeros (cur - l)) new) cur (zeros (new - cur))
        else realloc_bytes (t @ zeros (cur - l)) new"
    have b: "?b = t @ zeros (new - l)" using realloc_wiped [of t "cur - l" cur new] t l ls by simp
    let ?d = "d1\<lparr>d_ptr := Some ?b, d_end := Some l, d_blk := n, d_meta := d_meta d\<rparr>"
    have "dstr_resize al n d = (None, snd (alloc al), ?d)"
    proof (cases "new \<le> length s")
      case True
      then have "put_buf (new - 1) (zeros (length s - (new - 1))) d = d1" "\<not> cur < new"
        using ls by (simp_all add: d1_def l_def)
      then show ?thesis
        unfolding dstr_resize_def holds_ptrD(10) [OF h]
        using True \<open>fst (alloc al)\<close> n blk d1(1) meta_ptr(5) [OF m]
        by (simp add: split_beta Let_def cur_def [symmetric] new_def [symmetric] l_def)
    next
      case False
      then have "d1 = d" "l = length s" by (simp_all add: d1_def l_def)
      then show ?thesis
        unfolding dstr_resize_def holds_ptrD(10) [OF h]
        using False \<open>fst (alloc al)\<close> n blk d1(1) meta_ptr(5) [OF m]
        by (simp add: split_beta Let_def cur_def [symmetric] new_def [symmetric] put_buf_def)
    qed
    moreover have "holds_ptr ?d t" using t l m n b by (simp add: holds_ptr_def new_def)
    ultimately show ?thesis using granted [of ?d] True t(1) new_def by simp
  next
    case False
    show ?thesis
    proof (cases "cur < new")
      case True
      then have "d1 = d" "\<not> new \<le> length s" using d1(4) ls by simp_all
      then have "dstr_resize al n d = (Some ENOMEM, snd (alloc al), d)"
        unfolding dstr_resize_def holds_ptrD(10) [OF h]
        using False True n blk
        by (simp add: split_beta Let_def cur_def [symmetric] new_def [symmetric])
      then show ?thesis using refused False True lt_iff by simp
    next
      case nlt: False
      let ?d = "if new \<le> length s then d1\<lparr>d_end := Some l\<rparr> else d"
      have "dstr_resize al n d = (None, snd (alloc al), ?d)"
      proof (cases "new \<le> length s")
        case True
        then have "put_buf (new - 1) (zeros (length s - (new - 1))) d = d1" by (simp add: d1_def l_def)
        then show ?thesis
          unfolding dstr_resize_def holds_ptrD(10) [OF h]
          using True \<open>\<not> fst (alloc al)\<close> nlt n blk
          by (simp add: split_beta Let_def cur_def [symmetric] new_def [symmetric] l_def)
      next
        case short: False
        then show ?thesis
          unfolding dstr_resize_def holds_ptrD(10) [OF h]
          using False nlt n blk
          by (simp add: split_beta Let_def cur_def [symmetric] new_def [symmetric])
      qed
      moreover have "holds_ptr ?d t"
      proof (cases "new \<le> length s")
        case True
        then show ?thesis using h d1 t l ls by (simp add: holds_ptr_def cur_def)
      next
        case False
        then show ?thesis using h by (simp add: t_def l_def)
      qed
      moreover have "d_blk ?d = d_blk d" "d_meta ?d = d_meta d" using d1 by simp_all
      moreover have "n < d_blk d" using nlt lt_iff n(3) by simp
      ultimately show ?thesis using kept [of ?d] False t(1) new_def by simp
    qed
  qed
qed

lemma holds_ptr_meta:
  assumes "holds_ptr d s" "unat (d_meta d) < 0x8F"
  shows "holds_ptr (d\<lparr>d_meta := d_meta d + 1\<rparr>) s"
proof -
  have "list_all (\<lambda>m. unat m < 0x8F \<longrightarrow> unat (m + 1) = unat m + 1) all_bytes" unfolding all_bytes_num by code_simp
  from byte_cases [OF this, of "d_meta d"] assms show ?thesis by (simp add: holds_ptr_def)
qed

text \<open>The block count that an append or a reservation asks for: a multiple of the step with room for the terminator.\<close>

definition grow_blocks :: "nat \<Rightarrow> nat \<Rightarrow> nat" where
  "grow_blocks shift n = (n div 2 ^ (8 + shift) + 1) * 2 ^ shift"

lemma grow_blocks_fit: "n < grow_blocks shift n * BLK_SIZE" "0 < grow_blocks shift n"
proof -
  have "n < (n div 2 ^ (8 + shift) + 1) * 2 ^ (8 + shift)"
    by (metis Suc_eq_plus1 dividend_less_div_times mult_Suc mult.commute add.commute zero_less_numeral zero_less_power)
  then show "n < grow_blocks shift n * BLK_SIZE" by (simp add: grow_blocks_def BLK_SIZE_def power_add mult.assoc)
  show "0 < grow_blocks shift n" by (simp add: grow_blocks_def)
qed

lemma grow_blocks_big:
  assumes "BLK_COUNT_MASK < grow_blocks shift n" "shift \<le> GROW_SHIFT_MAX"
  shows "2 ^ 56 * BLK_SIZE \<le> n + 16 * BLK_SIZE"
proof -
  have "grow_blocks shift n * BLK_SIZE = n div 2 ^ (8 + shift) * 2 ^ (8 + shift) + 2 ^ (8 + shift)"
    by (simp add: grow_blocks_def BLK_SIZE_def power_add algebra_simps)
  also have "\<dots> \<le> n + 2 ^ (8 + shift)" by simp
  also have "(2::nat) ^ (8 + shift) \<le> 2 ^ 12" using assms(2) by (intro power_increasing) (simp_all add: GROW_SHIFT_MAX_def)
  finally have "grow_blocks shift n * BLK_SIZE \<le> n + 16 * BLK_SIZE" by (simp add: BLK_SIZE_def)
  moreover have "2 ^ 56 \<le> grow_blocks shift n" using assms(1) by (simp add: BLK_COUNT_MASK_def)
  then have "2 ^ 56 * BLK_SIZE \<le> grow_blocks shift n * BLK_SIZE" by (rule mult_le_mono1)
  ultimately show ?thesis by linarith
qed

lemma grow_cases:
  assumes h: "holds d s" and more: "dstr_space_left (Some d) < len"
  obtains (grown) al' d' shift where "dstr_grow al len exact d = (None, al', d')" "holds_ptr d' s"
      "d_blk d' = grow_blocks shift (length s + len)" "exact \<longrightarrow> shift = 0" "shift \<le> GROW_SHIFT_MAX"
      "al' = snd (alloc al)"
  | (failed) al' e where "dstr_grow al len exact d = (Some e, al', d)"
      "(e = EOVERFLOW \<and> (SIZE_MAX < length s + len \<or>
         (\<exists>shift \<le> GROW_SHIFT_MAX. BLK_COUNT_MASK < grow_blocks shift (length s + len)))) \<or>
       (e = ENOMEM \<and> \<not> fst (alloc al))"
proof -
  define i where "i = dstr_info (Some d)"
  have st: "i_state i = Is_Sso \<or> i_state i = Is_Ptr" "i_length i = length s" "i_space i = dstr_space_left (Some d)"
    using h by (auto simp: i_def holds_def holds_ssoD holds_ptrD dstr_space_left_def dstr_ptr_space_left_def)
  show ?thesis
  proof (cases "SIZE_MAX < length s + len")
    case True
    then have "dstr_grow al len exact d = (Some EOVERFLOW, al, d)"
      using st more by (auto simp: dstr_grow_def i_def [symmetric] Let_def)
    then show ?thesis using True failed by blast
  next
    case False
    define count where "count = (if i_state i = Is_Ptr then unat (d_meta d AND GROW_COUNT_MASK) else 0)"
    define shift where "shift = (if exact then 0 else if count < GROW_SHIFT_MAX then count else GROW_SHIFT_MAX)"
    define n where "n = grow_blocks shift (length s + len)"
    have shift: "exact \<longrightarrow> shift = 0" "shift \<le> GROW_SHIFT_MAX" by (auto simp: shift_def)
    have run: "dstr_grow al len exact d =
        (let (err, al, d) = dstr_resize al n d
         in if err \<noteq> None \<or> exact then (err, al, d)
            else (None, al, if count < unat GROW_COUNT_MASK then d\<lparr>d_meta := d_meta d + 1\<rparr> else d))"
    proof -
      have "i_state i \<noteq> Is_Not" "i_state i \<noteq> Is_Bad" "\<not> len \<le> i_space i" "\<not> SIZE_MAX < i_length i + len"
        using st more False by auto
      then show ?thesis
        unfolding dstr_grow_def i_def [symmetric] Let_def n_def grow_blocks_def shift_def count_def st(2) by simp
    qed
    have mask: "unat GROW_COUNT_MASK = 15" by (simp add: GROW_COUNT_MASK_def)
    show ?thesis
    proof (cases "n \<le> BLK_COUNT_MASK")
      case False
      then have "dstr_resize al n d = (Some EOVERFLOW, al, d)" by (simp add: dstr_resize_def)
      then have "dstr_grow al len exact d = (Some EOVERFLOW, al, d)" by (simp add: run)
      moreover have "\<exists>shift \<le> GROW_SHIFT_MAX. BLK_COUNT_MASK < grow_blocks shift (length s + len)"
        using False shift(2) by (intro exI [of _ shift]) (simp add: n_def)
      ultimately show ?thesis using failed by blast
    next
      case True
      have pos: "0 < n" by (simp add: n_def grow_blocks_fit)
      have counted: "holds_ptr (if count < 15 then d'\<lparr>d_meta := d_meta d' + 1\<rparr> else d') s"
        if "holds_ptr d' s" "count < 15 \<longrightarrow> unat (d_meta d') < 0x8F" for d'
        using that holds_ptr_meta by simp
      show ?thesis
      proof (cases "holds_sso d s")
        case sso: True
        then have c: "count = 0" by (simp add: count_def i_def holds_ssoD)
        from sso pos True show ?thesis
        proof (cases rule: resize_sso [where al = al])
          case (granted d')
          then show ?thesis
            using grown [of "snd (alloc al)" "if exact then d' else d'\<lparr>d_meta := d_meta d' + 1\<rparr>" shift]
              counted [of d'] c shift
            by (simp add: run mask n_def PTR_FLAG_def)
        next
          case refused
          then show ?thesis using failed [of ENOMEM "snd (alloc al)"] by (simp add: run)
        qed
      next
        case False
        then have hp: "holds_ptr d s" using h by (simp add: holds_def)
        have m: "0x80 \<le> unat (d_meta d)" "unat (d_meta d) \<le> 0x8F" using hp by (simp_all add: holds_ptr_def)
        have c: "count = unat (d_meta d) - 0x80" using meta_ptr(3) [OF m] hp by (simp add: count_def i_def holds_ptrD)
        have "d_blk d * BLK_SIZE \<le> length s + len"
          using more hp by (auto simp: dstr_space_left_def holds_ptrD dstr_ptr_space_left_def)
        also have "\<dots> < n * BLK_SIZE" by (simp add: n_def grow_blocks_fit)
        finally have gt: "d_blk d < n" by simp
        have all: "take (n * BLK_SIZE - 1) s = s"
          using grow_blocks_fit(1) [of "length s + len" shift] by (simp add: n_def)
        from hp pos True gt [THEN less_imp_neq, symmetric] show ?thesis
        proof (cases rule: resize_ptr [where al = al])
          case (granted d')
          let ?d = "if exact then d' else if count < 15 then d'\<lparr>d_meta := d_meta d' + 1\<rparr> else d'"
          have hp': "holds_ptr d' s" using granted(3) all by simp
          have "count < 15 \<longrightarrow> unat (d_meta d') < 0x8F" using granted(5) c m by auto
          then have "holds_ptr ?d s" using hp' counted by presburger
          moreover have "dstr_grow al len exact d = (None, snd (alloc al), ?d)"
            unfolding run mask granted(2) by simp
          moreover have "d_blk ?d = grow_blocks shift (length s + len)" using granted(4) by (simp add: n_def)
          ultimately show ?thesis using grown shift by blast
        next
          case (kept d')
          then show ?thesis using gt by simp
        next
          case refused
          then show ?thesis using failed [of ENOMEM "snd (alloc al)"] by (simp add: run)
        qed
      qed
    qed
  qed
qed

section \<open>Appending\<close>

lemma reserve_cases:
  assumes h: "holds d s"
  obtains (room) al' d' where "dstr_reserve_for al len exact d = (True, al', d')" "holds d' s"
      "len \<le> dstr_space_left (Some d')" "len \<le> dstr_space_left (Some d) \<longrightarrow> d' = d \<and> al' = al"
      "al' = al \<or> al' = snd (alloc al)"
  | (failed) al' where "dstr_reserve_for al len exact d = (False, al', d)" "dstr_space_left (Some d) < len"
      "(\<not> fst (alloc al)) \<or> SIZE_MAX < length s + len \<or>
         (\<exists>shift \<le> GROW_SHIFT_MAX. BLK_COUNT_MASK < grow_blocks shift (length s + len))"
proof -
  have st: "i_state (dstr_info (Some d)) = Is_Sso \<or> i_state (dstr_info (Some d)) = Is_Ptr"
      "i_space (dstr_info (Some d)) = dstr_space_left (Some d)"
    using h by (auto simp: holds_def holds_ssoD holds_ptrD dstr_space_left_def dstr_ptr_space_left_def)
  show ?thesis
  proof (cases "len \<le> dstr_space_left (Some d)")
    case True
    then have "dstr_reserve_for al len exact d = (True, al, d)" using st by (auto simp: dstr_reserve_for_def Let_def)
    then show ?thesis using room [of al d] h True by blast
  next
    case False
    then have less: "dstr_space_left (Some d) < len" by simp
    from h less show ?thesis
    proof (cases rule: grow_cases [where al = al and exact = exact])
      case (grown al' d' shift)
      have "dstr_reserve_for al len exact d = (True, al', d')"
        using st False grown(1) by (auto simp: dstr_reserve_for_def Let_def)
      moreover have "len \<le> dstr_space_left (Some d')"
        using grown(2,3) grow_blocks_fit(1) [of "length s + len" shift]
        by (simp add: dstr_space_left_def holds_ptrD dstr_ptr_space_left_def)
      ultimately show ?thesis using room [of al' d'] grown(2,6) False by (simp add: holds_def)
    next
      case (failed al' e)
      then have "dstr_reserve_for al len exact d = (False, al', d)"
        using st False by (auto simp: dstr_reserve_for_def Let_def)
      then show ?thesis using that(2) less failed(2) by blast
    qed
  qed
qed

lemma cat_n_cases:
  assumes h: "holds d s" and t: "len \<le> length t"
  obtains (appended) al' d' where "dstr_cat_n al (Some t) len d = (True, al', d')" "holds d' (s @ take len t)"
      "len \<le> dstr_space_left (Some d) \<longrightarrow> al' = al" "al' = al \<or> al' = snd (alloc al)"
  | (failed) al' where "dstr_cat_n al (Some t) len d = (False, al', d)" "dstr_space_left (Some d) < len"
      "(\<not> fst (alloc al)) \<or> SIZE_MAX < length s + len \<or>
         (\<exists>shift \<le> GROW_SHIFT_MAX. BLK_COUNT_MASK < grow_blocks shift (length s + len))"
proof (cases "len = 0")
  case True
  then show ?thesis using h appended [of al d] by (simp add: dstr_cat_n_def)
next
  case pos: False
  from h show ?thesis
  proof (cases rule: reserve_cases [where al = al and len = len and exact = False])
    case (failed al')
    then show ?thesis using that(2) [of al'] pos by (simp add: dstr_cat_n_def)
  next
    case (room al' d1)
    have lt: "length (take len t) = len" using t by simp
    show ?thesis
    proof (cases "holds_sso d1 s")
      case True
      note sso = holds_ssoD [OF True]
      let ?d = "(put_raw (length s) (take len t) d1)\<lparr>d_meta := d_meta d1 - of_nat len\<rparr>"
      have fits: "length s + length (take len t) \<le> OBJ_SIZE - 1"
        using room(3) sso lt by (simp add: dstr_space_left_def)
      have h': "holds_sso ?d (s @ take len t)" using append_sso [OF True fits] lt by simp
      moreover have "d_meta (put_raw (length s) (take len t) d1) = d_meta d1"
        using fits sso(6) by (simp add: put_raw_inside)
      ultimately have "dstr_cat_n al (Some t) len d = (True, al', ?d)"
        using pos room(1) sso put_terminator_sso [OF h'] lt by (simp add: dstr_cat_n_def Let_def)
      then show ?thesis using appended [of al' ?d] h' room(4,5) by (simp add: holds_def)
    next
      case False
      then have hp: "holds_ptr d1 s" using room(2) by (simp add: holds_def)
      note ptr = holds_ptrD [OF hp]
      let ?d = "(put_buf (length s) (take len t) d1)\<lparr>d_end := Some (length s + len)\<rparr>"
      have fits: "length s + length (take len t) < d_blk d1 * BLK_SIZE"
        using room(3) ptr lt by (auto simp: dstr_space_left_def dstr_ptr_space_left_def)
      have h': "holds_ptr ?d (s @ take len t)" using append_ptr [OF hp fits] lt by simp
      have "dstr_cat_n al (Some t) len d = (True, al', ?d)"
        using pos room(1) ptr put_terminator_ptr [OF h'] lt by (simp add: dstr_cat_n_def Let_def)
      then show ?thesis using appended [of al' ?d] h' room(4,5) by (simp add: holds_def)
    qed
  qed
qed

text \<open>With memory granted, an append fails only at sizes no program reaches.\<close>

lemma cat_n_granted:
  assumes h: "holds d s" and t: "len \<le> length t" and small: "length s + len < 2 ^ 60"
    and run: "dstr_cat_n [] (Some t) len d = (ok, al', d')"
  shows "ok \<and> al' = [] \<and> holds d' (s @ take len t)"
  using h t
proof (cases rule: cat_n_cases [where al = "[]"])
  case (appended al2 d2)
  then show ?thesis using run by auto
next
  case (failed al2)
  have "\<not> SIZE_MAX < length s + len" using small by (simp add: SIZE_MAX_def)
  moreover have "\<not> BLK_COUNT_MASK < grow_blocks shift (length s + len)" if "shift \<le> GROW_SHIFT_MAX" for shift
    using grow_blocks_big [OF _ that, of "length s + len"] small by (auto simp: BLK_SIZE_def)
  ultimately show ?thesis using failed(3) by auto
qed

lemma holds_length: "holds d s \<Longrightarrow> length s \<le> SIZE_MAX"
proof (cases "holds_sso d s")
  case True
  then show ?thesis using holds_ssoD(7) by (fastforce simp: OBJ_SIZE_def SIZE_MAX_def)
next
  assume "holds d s"
  case False
  then have hp: "holds_ptr d s" using \<open>holds d s\<close> by (simp add: holds_def)
  have "d_blk d * BLK_SIZE \<le> BLK_COUNT_MASK * BLK_SIZE" using holds_ptrD(9) [OF hp] by (rule mult_le_mono1)
  then show ?thesis using holds_ptrD(7) [OF hp] by (simp add: BLK_COUNT_MASK_def BLK_SIZE_def SIZE_MAX_def)
qed

lemma get_holds: "holds d s \<Longrightarrow> n \<le> length s \<Longrightarrow> take n (the (dstr_get (Some d))) = take n s"
  by (auto simp: holds_def dstr_get_def holds_ssoD holds_ptrD dstr_bytes_def) (simp add: holds_sso_def)

section \<open>Erasing\<close>

lemma erase_bytes:
  assumes "length p = pos" "length q = n" "length (p @ q @ r) = l"
  shows "overwrite (overwrite ((p @ q @ r) @ zeros k) pos (take (l - n - pos) (drop (pos + n) ((p @ q @ r) @ z)))) (l - n)
      (zeros n) = (p @ r) @ zeros (n + k)"
proof -
  have mid: "take (l - n - pos) (drop (pos + n) ((p @ q @ r) @ z)) = r" using assms by auto
  define x where "x = drop (length r) (q @ r @ zeros k)"
  have "overwrite ((p @ q @ r) @ zeros k) pos r = (p @ r) @ x"
    using assms by (auto simp: overwrite_def x_def)
  moreover have "drop n x = zeros k" using assms unfolding x_def by (auto simp: drop_drop)
  moreover have "l - n = length (p @ r)" using assms by auto
  ultimately have "overwrite (overwrite ((p @ q @ r) @ zeros k) pos r) (l - n) (zeros n) = (p @ r) @ zeros n @ zeros k"
    by (simp add: overwrite_def)
  then show ?thesis unfolding mid by (simp add: zeros_append)
qed

lemma erase_parts:
  assumes "pos + n \<le> length s"
  obtains p q r where "s = p @ q @ r" "length p = pos" "length q = n" "take pos s @ drop (pos + n) s = p @ r"
proof
  show "s = take pos s @ take n (drop pos s) @ drop (pos + n) s"
    by (metis append_take_drop_id drop_drop add.commute)
qed (use assms in auto)

lemma erase_holds:
  assumes h: "holds d s"
  shows "if pos \<le> length s then \<exists>d'. dstr_erase pos len d = (True, d') \<and> holds d' (take pos s @ drop (pos + len) s) \<and>
        dstr_get_block_count (Some d') = dstr_get_block_count (Some d)
      else dstr_erase pos len d = (False, d)"
proof (cases "pos \<le> length s")
  case False
  then show ?thesis using h by (auto simp: holds_def dstr_erase_def holds_ssoD holds_ptrD Let_def)
next
  case pos: True
  define n where "n = (if len < length s - pos then len else length s - pos)"
  have n: "pos + n \<le> length s" "drop (pos + n) s = drop (pos + len) s" using pos by (auto simp: n_def)
  obtain p q r where pqr: "s = p @ q @ r" "length p = pos" "length q = n" "take pos s @ drop (pos + n) s = p @ r"
    using erase_parts [OF n(1)] .
  show ?thesis
  proof (cases "n = 0")
    case True
    then have "len = 0 \<or> pos = length s" using pos by (auto simp: n_def split: if_splits)
    then have "dstr_erase pos len d = (True, d)" using h pos
      by (auto simp: holds_def dstr_erase_def holds_ssoD holds_ptrD Let_def)
    moreover have "take pos s @ drop (pos + len) s = s" using n True by (metis add_0_right append_take_drop_id)
    ultimately show ?thesis using pos h by simp
  next
    case nz: False
    show ?thesis
    proof (cases "holds_sso d s")
      case True
      note sso = holds_ssoD [OF True]
      have b: "d_str d = s @ zeros (OBJ_SIZE - 1 - length s)" and m: "d_meta d = of_nat (OBJ_SIZE - 1 - length s)"
        using True by (simp_all add: holds_sso_def)
      let ?mid = "take (length s - n - pos) (drop (pos + n) (dstr_bytes d))"
      let ?d = "(put_raw (length s - n) (zeros n) (put_raw pos ?mid d))\<lparr>d_meta := d_meta d + of_nat n\<rparr>"
      have l: "pos + length ?mid \<le> OBJ_SIZE - 1" "length s - n + n \<le> OBJ_SIZE - 1"
        using n sso(7) by auto
      have "put_raw (length s - n) (zeros n) (put_raw pos ?mid d) =
          d\<lparr>d_str := overwrite (overwrite (d_str d) pos ?mid) (length s - n) (zeros n)\<rparr>"
        using l sso(6) by (simp add: put_raw_inside)
      also have "overwrite (overwrite (d_str d) pos ?mid) (length s - n) (zeros n) =
          take pos s @ drop (pos + n) s @ zeros (n + (OBJ_SIZE - 1 - length s))"
        using erase_bytes [OF pqr(2,3), of r "length s" "OBJ_SIZE - 1 - length s" "zeros (OBJ_SIZE - 1 - length s) @ [d_meta d]"] b pqr
        by (simp add: dstr_bytes_def)
      finally have str: "put_raw (length s - n) (zeros n) (put_raw pos ?mid d) =
          d\<lparr>d_str := take pos s @ drop (pos + n) s @ zeros (n + (OBJ_SIZE - 1 - length s))\<rparr>" .
      have lr: "OBJ_SIZE - 1 - length (take pos s @ drop (pos + n) s) = n + (OBJ_SIZE - 1 - length s)"
        using n(1) sso(7) by simp
      have h': "holds_sso ?d (take pos s @ drop (pos + n) s)"
        unfolding holds_sso_def lr str using n(1) sso(7) m by (simp add: OBJ_SIZE_def)
      have run: "dstr_erase pos len d = (True, ?d)"
        unfolding dstr_erase_def sso(8) Let_def dstr_info.simps n_def [symmetric] using nz pos str by simp
      then show ?thesis using h' n pos holds_ssoD(2) [OF h'] sso(2) by (auto simp: holds_def dstr_get_block_count_def)
    next
      case False
      then have hp: "holds_ptr d s" using h by (simp add: holds_def)
      note ptr = holds_ptrD [OF hp]
      let ?k = "d_blk d * BLK_SIZE - length s"
      let ?mid = "take (length s - n - pos) (drop (pos + n) (s @ zeros ?k))"
      let ?d = "(put_buf (length s - n) (zeros n) (put_buf pos ?mid d))\<lparr>d_end := Some (length s - n)\<rparr>"
      have bytes: "overwrite (overwrite (s @ zeros ?k) pos ?mid) (length s - n) (zeros n) =
          take pos s @ drop (pos + n) s @ zeros (n + ?k)"
        using erase_bytes [OF pqr(2,3), of r "length s" ?k "zeros ?k"] pqr by simp
      have lr: "length (take pos s @ drop (pos + n) s) = length s - n" using n(1) by simp
      have "d_blk d * BLK_SIZE - (length s - n) = n + ?k" "length s - n < d_blk d * BLK_SIZE"
        using n(1) ptr(7) by simp_all
      then have h': "holds_ptr ?d (take pos s @ drop (pos + n) s)"
        unfolding holds_ptr_def lr using hp n(1) bytes by (simp add: holds_ptr_def put_buf_def)
      have run: "dstr_erase pos len d = (True, ?d)"
        unfolding dstr_erase_def ptr(10) Let_def dstr_info.simps n_def [symmetric] using nz pos ptr(5,6)
        by (simp add: put_buf_def)
      then show ?thesis using h' n pos holds_ptrD(2) [OF h'] ptr(2)
        by (auto simp: holds_def dstr_get_block_count_def put_buf_def)
    qed
  qed
qed

lemma clear_holds:
  assumes "holds d s" "length s \<le> SIZE_MAX"
  shows "\<exists>d'. dstr_clear d = (True, d') \<and> holds d' []"
  using erase_holds [OF assms(1), of 0 SIZE_MAX] assms(2) by (auto simp: dstr_clear_def)

section \<open>Initializing, formatting, ending\<close>

lemma init_n_cases:
  obtains (made) d where "dstr_init_n al s DSTR_INIT = (None, snd (if length s < OBJ_SIZE then (True, al) else alloc al), d)" "holds d s"
  | (failed) e where "fst (dstr_init_n al s DSTR_INIT) = Some e" "snd (snd (dstr_init_n al s DSTR_INIT)) = DSTR_INIT"
      "OBJ_SIZE \<le> length s" "e = ENOMEM \<and> \<not> fst (alloc al) \<or> e = EOVERFLOW \<and> BLK_COUNT_MASK \<le> length s div 256"
proof -
  consider "s = []" | "s \<noteq> []" "length s < OBJ_SIZE" | "OBJ_SIZE \<le> length s" by linarith
  then show ?thesis
  proof cases
    case 1
    then show ?thesis using made [of DSTR_INIT] holds_init by (simp add: dstr_init_n_def holds_def OBJ_SIZE_def)
  next
    case 2
    let ?d = "(put_raw 0 s DSTR_INIT)\<lparr>d_meta := d_meta DSTR_INIT - of_nat (length s)\<rparr>"
    have l: "length s \<le> OBJ_SIZE - 1" using 2 by simp
    have "holds_sso ?d s" using append_sso [OF holds_init, of s] l by simp
    moreover have "d_meta (put_raw 0 s DSTR_INIT) = d_meta DSTR_INIT"
      using l holds_ssoD(6) [OF holds_init] by (simp add: put_raw_inside)
    ultimately show ?thesis using made [of ?d] 2 by (simp add: dstr_init_n_def holds_def Let_def)
  next
    case 3
    then have ne: "s \<noteq> []" by (auto simp: OBJ_SIZE_def)
    define n where "n = length s div 256 + 1"
    have fit: "length s < n * BLK_SIZE" using grow_blocks_fit(1) [of "length s" 0] by (simp add: n_def grow_blocks_def)
    show ?thesis
    proof (cases "n \<le> BLK_COUNT_MASK")
      case False
      then show ?thesis using failed [of EOVERFLOW] 3 ne by (simp add: dstr_init_n_def n_def [symmetric] Let_def) (simp add: n_def)
    next
      case True
      show ?thesis
      proof (cases "fst (alloc al)")
        case False
        then have "dstr_init_n al s DSTR_INIT = (Some ENOMEM, snd (alloc al), DSTR_INIT)"
          using 3 ne True by (simp add: dstr_init_n_def n_def Let_def split_beta)
        then show ?thesis using failed [of ENOMEM] 3 False by simp
      next
        case ok: True
        let ?d = "DSTR_INIT\<lparr>d_ptr := Some (s @ zeros (n * BLK_SIZE - length s)), d_end := Some (length s), d_blk := n,
            d_meta := PTR_FLAG\<rparr>"
        have "holds_ptr ?d s" using fit True by (simp add: holds_ptr_def PTR_FLAG_def n_def)
        moreover have "overwrite (zeros (n * BLK_SIZE)) 0 s = s @ zeros (n * BLK_SIZE - length s)"
          using fit by (simp add: overwrite_zeros_0)
        ultimately have "dstr_init_n al s DSTR_INIT = (None, snd (alloc al), ?d)" "holds ?d s"
          using 3 ne True ok by (simp_all add: dstr_init_n_def n_def Let_def split_beta holds_def)
        then show ?thesis using made [of ?d] 3 by simp
      qed
    qed
  qed
qed

lemma overwrite_twice:
  assumes "length u \<le> length v" "off + length v \<le> length b"
  shows "overwrite (overwrite b off u) off v = overwrite b off v"
  using assms by (simp add: overwrite_def add.commute)

lemma put_raw_split:
  assumes "length (d_str d) = OBJ_SIZE - 1" "off + length u \<le> OBJ_SIZE"
  shows "dstr_bytes (put_raw off u d) = overwrite (dstr_bytes d) off u" "length (d_str (put_raw off u d)) = OBJ_SIZE - 1"
proof -
  define r where "r = overwrite (dstr_bytes d) off u"
  have l: "length r = OBJ_SIZE" using assms by (simp add: r_def dstr_bytes_def OBJ_SIZE_def)
  then have "take (OBJ_SIZE - 1) r @ [r ! (OBJ_SIZE - 1)] = r"
    by (metis OBJ_SIZE_def append_self_conv2 diff_Suc_1 hd_drop_conv_nth lessI numeral_nat(7) take_Suc_conv_app_nth take_all_iff order_refl zero_less_Suc Suc_diff_1 zero_less_numeral)
  then show "dstr_bytes (put_raw off u d) = overwrite (dstr_bytes d) off u"
    by (simp add: put_raw_def r_def dstr_bytes_def Let_def)
  show "length (d_str (put_raw off u d)) = OBJ_SIZE - 1" using l by (simp add: put_raw_def r_def OBJ_SIZE_def Let_def)
qed

lemma put_raw_twice:
  assumes "length (d_str d) = OBJ_SIZE - 1" "length u \<le> length v" "off + length v \<le> OBJ_SIZE"
  shows "put_raw off v (put_raw off u d) = put_raw off v d"
proof -
  have 1: "dstr_bytes (put_raw off u d) = overwrite (dstr_bytes d) off u"
    using put_raw_split [of d off u] assms by simp
  have 2: "overwrite (overwrite (dstr_bytes d) off u) off v = overwrite (dstr_bytes d) off v"
    using assms by (intro overwrite_twice) (simp_all add: dstr_bytes_def OBJ_SIZE_def)
  have "put_raw off v (put_raw off u d) =
      (put_raw off u d)\<lparr>d_str := take (OBJ_SIZE - 1) (overwrite (dstr_bytes d) off v),
        d_meta := overwrite (dstr_bytes d) off v ! (OBJ_SIZE - 1)\<rparr>"
    by (simp only: put_raw_def [of off v] 1 2 Let_def)
  then show ?thesis by (simp add: put_raw_def Let_def)
qed

text \<open>A text and its terminator after a string in place: the terminator may be the meta byte, which is set after it.\<close>

lemma format_sso:
  assumes h: "holds_sso d s" and fits: "length s + length t \<le> OBJ_SIZE - 1"
  shows "holds_sso ((put_raw (length s) (t @ [0]) d)\<lparr>d_meta := of_nat (OBJ_SIZE - 1 - length s - length t)\<rparr>) (s @ t)"
proof -
  have b: "d_str d = s @ zeros (OBJ_SIZE - 1 - length s)" using h by (simp add: holds_sso_def)
  have "d_str (put_raw (length s) (t @ [0]) d) = s @ t @ zeros (OBJ_SIZE - 1 - length s - length t)"
  proof (cases "length s + length t = OBJ_SIZE - 1")
    case True
    then show ?thesis using b by (simp add: put_raw_def dstr_bytes_def overwrite_def)
  next
    case False
    then have "length s + length (t @ [0]) \<le> OBJ_SIZE - 1" using fits by simp
    then have "d_str (put_raw (length s) (t @ [0]) d) = overwrite (s @ zeros (OBJ_SIZE - 1 - length s)) (length s) (t @ [0])"
      using holds_ssoD(6) [OF h] b by (simp add: put_raw_inside)
    also have "\<dots> = s @ (t @ [0]) @ zeros (OBJ_SIZE - 1 - length s - length (t @ [0]))"
      using False fits by (intro overwrite_zeros) simp
    also have "\<dots> = s @ t @ [0] @ zeros (OBJ_SIZE - 1 - length s - length t - 1)" by simp
    also have "[0] @ zeros (OBJ_SIZE - 1 - length s - length t - 1) = zeros (OBJ_SIZE - 1 - length s - length t)"
      using False fits by (intro zero_zeros) simp
    finally show ?thesis .
  qed
  then show ?thesis using fits by (simp add: holds_sso_def diff_diff_left)
qed

lemma unformat_sso:
  assumes h: "holds_sso d s" and fits: "length s + n \<le> OBJ_SIZE - 1" and u: "length u \<le> n + 1"
  shows "(put_raw (length s) (zeros (n + 1)) (put_raw (length s) u d))\<lparr>d_meta := of_nat (OBJ_SIZE - 1 - length s)\<rparr> = d"
proof -
  have t: "put_raw (length s) (zeros (n + 1)) (put_raw (length s) u d) = put_raw (length s) (zeros n @ [0]) d"
    using put_raw_twice [of d u "zeros (n + 1)" "length s"] holds_ssoD(6) [OF h] fits u
    by (simp add: OBJ_SIZE_def zeros_def replicate_append_same [symmetric])
  have "d_str (put_raw (length s) (zeros n @ [0]) d) = (s @ zeros n) @ zeros (OBJ_SIZE - 1 - length (s @ zeros n))"
    using format_sso [OF h, of "zeros n"] fits by (simp only: holds_sso_def length_zeros) simp
  also have "\<dots> = s @ zeros (n + (OBJ_SIZE - 1 - length (s @ zeros n)))" by (simp only: zeros_append append_assoc)
  also have "n + (OBJ_SIZE - 1 - length (s @ zeros n)) = OBJ_SIZE - 1 - length s" using fits by simp
  finally have "d_str (put_raw (length s) (zeros n @ [0]) d) = d_str d" using h by (simp add: holds_sso_def)
  then show ?thesis using h unfolding t
    by (intro dstr.equality) (simp_all add: holds_sso_def put_raw_def Let_def)
qed

lemma format_ptr:
  assumes h: "holds_ptr d s" and fits: "length s + length t < d_blk d * BLK_SIZE"
  shows "holds_ptr ((put_buf (length s) (t @ [0]) d)\<lparr>d_end := Some (length s + length t)\<rparr>) (s @ t)"
proof -
  have "[0] @ zeros (d_blk d * BLK_SIZE - length s - length t - 1) = zeros (d_blk d * BLK_SIZE - length s - length t)"
    using fits by (intro zero_zeros) simp
  then show ?thesis using h fits by (simp add: holds_ptr_def put_buf_def overwrite_zeros diff_diff_left)
qed

lemma unformat_ptr:
  assumes h: "holds_ptr d s" and fits: "length s + n < d_blk d * BLK_SIZE" and u: "length u \<le> n + 1"
  shows "put_buf (length s) (zeros (n + 1)) (put_buf (length s) u d) = d"
proof -
  have "overwrite (overwrite (s @ zeros (d_blk d * BLK_SIZE - length s)) (length s) u) (length s) (zeros (n + 1)) =
      s @ zeros (d_blk d * BLK_SIZE - length s)"
  proof -
    let ?k = "d_blk d * BLK_SIZE - length s"
    have "overwrite (overwrite (s @ zeros ?k) (length s) u) (length s) (zeros (n + 1)) =
        overwrite (s @ zeros ?k) (length s) (zeros (n + 1))"
      using fits u by (intro overwrite_twice) simp_all
    also have "\<dots> = s @ zeros (n + 1) @ zeros (?k - (n + 1))"
      using overwrite_zeros [of "zeros (n + 1)" ?k s] fits by (simp only: length_zeros)
    also have "zeros (n + 1) @ zeros (?k - (n + 1)) = zeros ?k"
      unfolding zeros_append using fits by (intro arg_cong [where f = zeros]) simp
    finally show ?thesis .
  qed
  then show ?thesis using holds_ptrD(5) [OF h] by (simp add: put_buf_def)
qed

text \<open>Whether the second run of the formatter made the text that the first one measured.\<close>

fun agrees :: "bytes \<Rightarrow> printed \<Rightarrow> bool" where
  "agrees str (Printed t) \<longleftrightarrow> length t = length str"
| "agrees str (Failed e t) \<longleftrightarrow> False"

lemma vprintf_holds:
  assumes h: "holds d s" and r: "dstr_vprintf al measured formatted d = (e, al', d')"
  shows "case measured of
      Failed _ _ \<Rightarrow> e \<noteq> None \<and> d' = d
    | Printed str \<Rightarrow>
        (if str = [] then e = None \<and> d' = d
         else (e = None \<longrightarrow> (\<exists>t. formatted = Printed t \<and> length t = length str \<and> holds d' (s @ t))) \<and>
              (e \<noteq> None \<longrightarrow> holds d' s) \<and>
              (length str \<le> dstr_space_left (Some d) \<longrightarrow> al' = al \<and> (e = None \<longleftrightarrow> agrees str formatted)))"
proof (cases measured)
  case (Failed x y)
  then show ?thesis using r by (auto simp: dstr_vprintf_def)
next
  case (Printed str)
  show ?thesis
  proof (cases "str = []")
    case True
    then show ?thesis using r Printed by (simp add: dstr_vprintf_def)
  next
    case ne: False
    define len where "len = length str"
    have nz: "len \<noteq> 0" using ne by (simp add: len_def)
    obtain err al1 d1 where g: "dstr_grow al len False d = (err, al1, d1)" by (metis surj_pair)
    have st: "i_state (dstr_info (Some d)) \<noteq> Is_Not" "i_state (dstr_info (Some d)) \<noteq> Is_Bad"
        "i_space (dstr_info (Some d)) = dstr_space_left (Some d)"
      using h by (auto simp: holds_def holds_ssoD holds_ptrD dstr_space_left_def dstr_ptr_space_left_def)
    have grown: "(err = None \<longrightarrow> holds d1 s \<and> len \<le> dstr_space_left (Some d1)) \<and> (err \<noteq> None \<longrightarrow> d1 = d) \<and>
        (len \<le> dstr_space_left (Some d) \<longrightarrow> err = None \<and> al1 = al)"
    proof (cases "len \<le> dstr_space_left (Some d)")
      case True
      then have "dstr_grow al len False d = (None, al, d)" using st by (simp add: dstr_grow_def Let_def)
      then show ?thesis using g h True by simp
    next
      case False
      then have "dstr_space_left (Some d) < len" by simp
      with h show ?thesis
      proof (cases rule: grow_cases [where al = al and exact = False])
        case (grown al2 d2 shift)
        then show ?thesis using g False grow_blocks_fit(1) [of "length s + len" shift]
          by (auto simp: holds_def dstr_space_left_def holds_ptrD dstr_ptr_space_left_def)
      next
        case (failed al2 e2)
        then show ?thesis using g False by simp
      qed
    qed
    show ?thesis
    proof (cases err)
      case (Some x)
      then show ?thesis using r Printed ne g grown h by (auto simp: dstr_vprintf_def len_def [symmetric] Let_def)
    next
      case None
      define out where "out = (case formatted of Printed t \<Rightarrow> take len t @ [0] | Failed _ t \<Rightarrow> take (len + 1) t)"
      have out: "length out \<le> len + 1" by (cases formatted) (simp_all add: out_def)
      have h1: "holds d1 s" and sp: "len \<le> dstr_space_left (Some d1)" using grown None by simp_all
      have al: "len \<le> dstr_space_left (Some d) \<longrightarrow> al1 = al" using grown by simp
      have ag: "(case formatted of Printed t \<Rightarrow> length t \<noteq> len | Failed _ _ \<Rightarrow> True) \<longleftrightarrow> \<not> agrees str formatted"
        by (cases formatted) (simp_all add: len_def)
      show ?thesis
      proof (cases "holds_sso d1 s")
        case True
        note sso = holds_ssoD [OF True]
        have fits: "length s + len \<le> OBJ_SIZE - 1" using sp sso by (simp add: dstr_space_left_def)
        have run: "(e, al', d') = (if agrees str formatted
            then (None, al1, (put_raw (length s) out d1)\<lparr>d_meta := of_nat (OBJ_SIZE - 1 - length s - len)\<rparr>)
            else (Some (case formatted of Failed (Some e) _ \<Rightarrow> e | _ \<Rightarrow> EILSEQ), al1,
              (put_raw (length s) (zeros (len + 1)) (put_raw (length s) out d1))\<lparr>d_meta := of_nat (OBJ_SIZE - 1 - length s)\<rparr>))"
          using r [symmetric] Printed ne None g sso(8)
          by (simp add: dstr_vprintf_def len_def [symmetric] out_def [symmetric] Let_def ag nz)
        show ?thesis
        proof (cases "agrees str formatted")
          case True
          then obtain t where t: "formatted = Printed t" "length t = len" by (cases formatted) (auto simp: len_def)
          then have "out = t @ [0]" by (simp add: out_def)
          then have "holds d' (s @ t)" "e = None" "al' = al1"
            using run True format_sso [OF \<open>holds_sso d1 s\<close>, of t] fits t by (simp_all add: holds_def)
          then show ?thesis using Printed ne t al True by (simp add: len_def)
        next
          case False
          then have "d' = d1" "e \<noteq> None" "al' = al1" using run unformat_sso [OF True fits out] by simp_all
          then show ?thesis using Printed ne h1 al False by (auto simp: len_def)
        qed
      next
        case False
        then have hp: "holds_ptr d1 s" using h1 by (simp add: holds_def)
        note ptr = holds_ptrD [OF hp]
        have fits: "length s + len < d_blk d1 * BLK_SIZE"
          using sp ptr by (auto simp: dstr_space_left_def dstr_ptr_space_left_def)
        have run: "(e, al', d') = (if agrees str formatted
            then (None, al1, (put_buf (length s) out d1)\<lparr>d_end := Some (length s + len)\<rparr>)
            else (Some (case formatted of Failed (Some e) _ \<Rightarrow> e | _ \<Rightarrow> EILSEQ), al1,
              put_buf (length s) (zeros (len + 1)) (put_buf (length s) out d1)))"
          using r [symmetric] Printed ne None g ptr(6,10)
          by (simp add: dstr_vprintf_def len_def [symmetric] out_def [symmetric] Let_def ag nz) (simp add: put_buf_def)
        show ?thesis
        proof (cases "agrees str formatted")
          case True
          then obtain t where t: "formatted = Printed t" "length t = len" by (cases formatted) (auto simp: len_def)
          then have "out = t @ [0]" by (simp add: out_def)
          then have "holds d' (s @ t)" "e = None" "al' = al1"
            using run True format_ptr [OF hp, of t] fits t by (simp_all add: holds_def)
          then show ?thesis using Printed ne t al True by (simp add: len_def)
        next
          case False
          then have "d' = d1" "e \<noteq> None" "al' = al1" using run unformat_ptr [OF hp fits out] by simp_all
          then show ?thesis using Printed ne h1 al False by (auto simp: len_def)
        qed
      qed
    qed
  qed
qed

section \<open>Strings as lists of bytes\<close>

text \<open>
  What a client of a store of bytes relies on: the bytes it holds, appending to them, and erasing some.  An append
  may fail, and then changes nothing.
\<close>

locale byte_store =
  fixes holds :: "'d \<Rightarrow> bytes \<Rightarrow> bool"
    and append :: "allocs \<Rightarrow> bytes \<Rightarrow> 'd \<Rightarrow> bool \<times> allocs \<times> 'd"
    and erase :: "nat \<Rightarrow> nat \<Rightarrow> 'd \<Rightarrow> bool \<times> 'd"
  assumes append: "holds d s \<Longrightarrow> append al t d = (ok, al', d') \<Longrightarrow> holds d' (if ok then s @ t else s)"
    and erase: "holds d s \<Longrightarrow> pos \<le> length s \<Longrightarrow>
      \<exists>d'. erase pos n d = (True, d') \<and> holds d' (take pos s @ drop (pos + n) s)"
begin

text \<open>Several appends, each only if the one before it succeeded.\<close>

fun append_all :: "allocs \<Rightarrow> bytes list \<Rightarrow> 'd \<Rightarrow> bool \<times> allocs \<times> 'd" where
  "append_all al [] d = (True, al, d)"
| "append_all al (t # ts) d =
     (let (ok, al, d) = append al t d in if ok then append_all al ts d else (False, al, d))"

lemma append_all_holds:
  "holds d s \<Longrightarrow> append_all al ts d = (ok, al', d') \<Longrightarrow>
     \<exists>us. holds d' (s @ concat us) \<and> us = take (length us) ts \<and> (ok \<longrightarrow> us = ts)"
proof (induction ts arbitrary: al s d)
  case Nil
  then show ?case by (auto intro: exI [of _ "[]"])
next
  case (Cons t ts)
  obtain ok1 al1 d1 where a: "append al t d = (ok1, al1, d1)" by (metis surj_pair)
  note h1 = append [OF Cons.prems(1) a]
  show ?case
  proof (cases ok1)
    case True
    then have "append_all al1 ts d1 = (ok, al', d')" "holds d1 (s @ t)" using Cons.prems(2) a h1 by simp_all
    from Cons.IH [OF this(2,1)] obtain us where "holds d' ((s @ t) @ concat us)" "us = take (length us) ts" "ok \<longrightarrow> us = ts"
      by blast
    then show ?thesis by (intro exI [of _ "t # us"]) simp
  next
    case False
    then show ?thesis using Cons.prems(2) a h1 by (intro exI [of _ "[]"]) auto
  qed
qed

lemma take_first: "holds d s \<Longrightarrow> \<exists>d'. erase 0 n d = (True, d') \<and> holds d' (drop n s)"
  using erase [of d s 0 n] by simp

end

definition dstr_append :: "allocs \<Rightarrow> bytes \<Rightarrow> dstr \<Rightarrow> bool \<times> allocs \<times> dstr" where
  "dstr_append al t d = dstr_cat_n al (Some t) (length t) d"

interpretation ds: byte_store holds dstr_append dstr_erase
proof
  fix d s al t ok al' d'
  assume h: "holds d s" and r: "dstr_append al t d = (ok, al', d')"
  from h show "holds d' (if ok then s @ t else s)"
    by (cases rule: cat_n_cases [where t = t and len = "length t" and al = al]) (use r h in \<open>auto simp: dstr_append_def\<close>)
next
  fix d s pos n
  assume "holds d s" "pos \<le> length s"
  then show "\<exists>d'. dstr_erase pos n d = (True, d') \<and> holds d' (take pos s @ drop (pos + n) s)"
    using erase_holds [of d s pos n] by auto
qed

section \<open>Properties\<close>

text \<open>
  C16.  Appending to a valid string is appending to its bytes: on success the content is the old one and the
  new bytes, the string is valid (in place or in its buffer, with zeros after the content) and an append that fits allocates nothing.
  It fails only when memory is refused, the size overflows or the source is null, and then the string is as it was.
\<close>

theorem dstr_cat_appends:
  assumes "dstr_ok d" "len \<le> length src" and r: "dstr_cat_n al (Some src) len d = (ok, al', d')"
  shows "dstr_ok d' \<and> content d' = (if ok then content d @ take len src else content d) \<and>
    (\<not> ok \<longrightarrow> d' = d \<and> (\<not> fst (alloc al) \<or> SIZE_MAX < length (content d) + len \<or> 2 ^ 56 * BLK_SIZE \<le> (length (content d) + len) + 16 * BLK_SIZE)) \<and>
    (len \<le> dstr_space_left (Some d) \<longrightarrow> ok \<and> al' = al)"
proof -
  have h: "holds d (content d)" using assms(1) by (simp add: dstr_ok_def)
  note big = grow_blocks_big
  from h assms(2) show ?thesis
  proof (cases rule: cat_n_cases [where al = al])
    case (appended al2 d2)
    then show ?thesis using r holds_content [OF appended(2)] by (auto simp: dstr_ok_def)
  next
    case (failed al2)
    then have "\<not> ok" "d' = d" using r by simp_all
    moreover have "\<not> fst (alloc al) \<or> SIZE_MAX < length (content d) + len \<or>
        2 ^ 56 * BLK_SIZE \<le> (length (content d) + len) + 16 * BLK_SIZE"
      using failed(3) big by blast
    ultimately show ?thesis using assms(1) failed(2) by simp
  qed
qed

text \<open>The string \<^verbatim>\<open>hello\<close>, in place.\<close>

definition example_short :: dstr where
  "example_short = \<lparr>d_str = [104, 101, 108, 108, 111] @ zeros 18, d_meta = 18, d_ptr = None, d_end = None, d_blk = 0\<rparr>"

lemma example_short_holds: "holds_sso example_short [104, 101, 108, 108, 111]"
  by (simp add: holds_sso_def example_short_def OBJ_SIZE_def)

lemma example_short_ok: "dstr_ok example_short" "content example_short = [104, 101, 108, 108, 111]"
    "dstr_space_left (Some example_short) = 18"
  using example_short_holds holds_ssoD [OF example_short_holds]
  by (auto simp: dstr_ok_def holds_def dstr_space_left_def OBJ_SIZE_def)

theorem dstr_cat_appends_witness:
  "content (snd (snd (dstr_cat_n [] (Some [33, 0, 33]) 3 example_short))) = [104, 101, 108, 108, 111, 33, 0, 33]"
proof -
  obtain ok al' d' where r: "dstr_cat_n [] (Some [33, 0, 33]) 3 example_short = (ok, al', d')" by (metis surj_pair)
  show ?thesis using dstr_cat_appends [OF example_short_ok(1) _ r] example_short_ok r by simp
qed

text \<open>
  C18.  Erasing removes exactly the given bytes, keeps the buffer and leaves zeros where the rest was; a place past the end is
  refused and changes nothing.
\<close>

theorem dstr_erase_removes:
  assumes "dstr_ok d" and r: "dstr_erase pos len d = (ok, d')"
  shows "dstr_ok d' \<and> (ok \<longleftrightarrow> pos \<le> length (content d)) \<and>
    content d' = (if ok then take pos (content d) @ drop (pos + len) (content d) else content d) \<and>
    dstr_get_block_count (Some d') = dstr_get_block_count (Some d)"
proof -
  have h: "holds d (content d)" using assms(1) by (simp add: dstr_ok_def)
  show ?thesis
  proof (cases "pos \<le> length (content d)")
    case True
    then obtain d2 where "dstr_erase pos len d = (True, d2)" "holds d2 (take pos (content d) @ drop (pos + len) (content d))"
        "dstr_get_block_count (Some d2) = dstr_get_block_count (Some d)"
      using erase_holds [OF h, of pos len] by auto
    then show ?thesis using r True holds_content by (auto simp: dstr_ok_holds)
  next
    case False
    then show ?thesis using r assms(1) erase_holds [OF h, of pos len] by auto
  qed
qed

theorem dstr_erase_removes_witness: "content (snd (dstr_erase 1 3 example_short)) = [104, 111]"
proof -
  obtain ok d' where r: "dstr_erase 1 3 example_short = (ok, d')" by (metis surj_pair)
  show ?thesis using dstr_erase_removes [OF example_short_ok(1) r] example_short_ok r by simp
qed

text \<open>
  Resizing a valid string to a number of blocks keeps as much of its content as fits with the terminator; zero
  blocks bring a string back in place.  A failure, which only a larger size can have, changes nothing.
\<close>

theorem dstr_resize_keeps_what_fits:
  assumes "dstr_ok d" and r: "dstr_resize al n d = (e, al', d')"
  shows "dstr_ok d' \<and> (e = None \<longrightarrow> content d' = take (capacity n - 1) (content d)) \<and> (e \<noteq> None \<longrightarrow> d' = d) \<and>
    (e \<noteq> None \<longrightarrow> dstr_get_block_count (Some d) < n) \<and>
    (e = None \<longrightarrow> n = 0 \<longrightarrow> dstr_is_sso d') \<and> (e = None \<longrightarrow> n \<ge> dstr_get_block_count (Some d) \<longrightarrow> dstr_get_block_count (Some d') = n)"
proof -
  have h: "holds d (content d)" using assms(1) by (simp add: dstr_ok_def)
  have cap: "length (content d) \<le> capacity (dstr_get_block_count (Some d)) - 1"
  proof (cases "holds_sso d (content d)")
    case True
    then show ?thesis using holds_ssoD(2,7) [OF True] by (simp add: dstr_get_block_count_def capacity_def)
  next
    case False
    then have hp: "holds_ptr d (content d)" using h by (simp add: holds_def)
    then show ?thesis using holds_ptrD(2,7,8) [OF hp] by (simp add: dstr_get_block_count_def capacity_def)
  qed
  consider "BLK_COUNT_MASK < n" | "n \<le> BLK_COUNT_MASK" "n = dstr_get_block_count (Some d)"
    | "n \<le> BLK_COUNT_MASK" "n \<noteq> dstr_get_block_count (Some d)" "holds_sso d (content d)"
    | "n \<le> BLK_COUNT_MASK" "n \<noteq> dstr_get_block_count (Some d)" "holds_ptr d (content d)" "n = 0"
    | "n \<le> BLK_COUNT_MASK" "n \<noteq> dstr_get_block_count (Some d)" "holds_ptr d (content d)" "0 < n"
    using h unfolding holds_def by (metis not_le neq0_conv)
  then show ?thesis
  proof cases
    case 1
    have "dstr_get_block_count (Some d) \<le> BLK_COUNT_MASK"
      using h by (auto simp: holds_def dstr_get_block_count_def holds_ssoD holds_ptrD)
    then show ?thesis using 1 r assms(1) by (auto simp: dstr_resize_def)
  next
    case 2
    have "d' = d \<and> e = None" using resize_same [OF h 2(2,1)] r by simp
    moreover have "n = 0 \<longrightarrow> dstr_is_sso d"
      using h 2(2) holds_ptrD(2,8) holds_ssoD(1) by (fastforce simp: holds_def dstr_get_block_count_def)
    ultimately show ?thesis using cap 2(2) assms(1) by simp
  next
    case 3
    then have c0: "dstr_get_block_count (Some d) = 0" "0 < n" by (auto simp: dstr_get_block_count_def holds_ssoD)
    from 3(3) c0(2) 3(1) show ?thesis
    proof (cases rule: resize_sso [where al = al])
      case (granted d2)
      have "length (content d) \<le> capacity n - 1"
        using holds_ptrD(7) [OF granted(3)] granted(4) c0(2) by (simp add: capacity_def)
      then show ?thesis using granted r c0 holds_ptrD [OF granted(3)]
        by (auto simp: dstr_ok_def holds_def dstr_get_block_count_def)
    next
      case refused
      then show ?thesis using r c0 assms(1) by simp
    qed
  next
    case 4
    obtain d2 where d2: "dstr_resize al 0 d = (None, al, d2)" "holds_sso d2 (take (OBJ_SIZE - 1) (content d))"
      using resize_ptr_to_sso [OF 4(3)] .
    have "dstr_get_block_count (Some d) \<noteq> 0" using 4 by simp
    then show ?thesis using d2 r 4 holds_ssoD [OF d2(2)] by (auto simp: dstr_ok_def holds_def capacity_def)
  next
    case 5
    have c: "dstr_get_block_count (Some d) = d_blk d" using 5 by (simp add: dstr_get_block_count_def holds_ptrD)
    then have "n \<noteq> d_blk d" using 5 by simp
    from 5(3,4,1) this show ?thesis
    proof (cases rule: resize_ptr [where al = al])
      case (granted d2)
      then show ?thesis using r c 5 holds_ptrD [OF granted(3)]
        by (auto simp: dstr_ok_def holds_def capacity_def dstr_get_block_count_def)
    next
      case (kept d2)
      then show ?thesis using r c 5 holds_ptrD [OF kept(4)]
        by (auto simp: dstr_ok_def holds_def capacity_def dstr_get_block_count_def)
    next
      case refused
      then show ?thesis using r c assms(1) by simp
    qed
  qed
qed

theorem dstr_resize_keeps_what_fits_witness:
  "content (snd (snd (dstr_resize [] 0 (snd (snd (dstr_resize [] 3 example_short)))))) = content example_short"
proof -
  obtain e al' d' where r: "dstr_resize [] 3 example_short = (e, al', d')" by (metis surj_pair)
  obtain e2 al2 d2 where r2: "dstr_resize [] 0 d' = (e2, al2, d2)" by (metis surj_pair)
  have "(0::nat) < 3" "3 \<le> BLK_COUNT_MASK" by (simp_all add: BLK_COUNT_MASK_def)
  from example_short_holds this have "e = None" by (cases rule: resize_sso [where al = "[]"]) (use r in auto)
  then have d': "dstr_ok d'" "content d' = content example_short"
    using dstr_resize_keeps_what_fits [OF example_short_ok(1) r] example_short_ok by (auto simp: capacity_def BLK_SIZE_def)
  show ?thesis using dstr_resize_keeps_what_fits [OF d'(1) r2] d'(2) r r2 example_short_ok by (auto simp: capacity_def OBJ_SIZE_def)
qed

text \<open>
  C17.  Formatting appends the text when both runs of the formatter agree on its length, and otherwise leaves a
  valid string with the content it had, even when the second run has written over the meta byte.
\<close>

theorem dstr_printf_appends_or_restores:
  assumes "dstr_ok d" and r: "dstr_printf al measured formatted d = (ok, al', d')"
  shows "dstr_ok d' \<and> (ok \<longrightarrow> measured = Printed [] \<and> content d' = content d \<or>
      (\<exists>str t. measured = Printed str \<and> formatted = Printed t \<and> length t = length str \<and> content d' = content d @ t)) \<and>
    (\<not> ok \<longrightarrow> content d' = content d) \<and>
    (\<forall>str. measured = Printed str \<longrightarrow> str \<noteq> [] \<longrightarrow> length str \<le> dstr_space_left (Some d) \<longrightarrow>
       al' = al \<and> (ok \<longleftrightarrow> agrees str formatted))"
proof -
  have h: "holds d (content d)" using assms(1) by (simp add: dstr_ok_def)
  obtain e where e: "dstr_vprintf al measured formatted d = (e, al', d')" "ok \<longleftrightarrow> e = None"
    using r by (auto simp: dstr_printf_def split: prod.splits)
  note v = vprintf_holds [OF h e(1)]
  show ?thesis
  proof (cases measured)
    case (Failed x y)
    then show ?thesis using v e assms(1) by simp
  next
    case (Printed str)
    show ?thesis
    proof (cases "str = []")
      case True
      then show ?thesis using v e assms(1) Printed by simp
    next
      case False
      then show ?thesis using v e(2) Printed holds_content by (auto simp: dstr_ok_holds)
    qed
  qed
qed

theorem dstr_printf_appends_or_restores_witness:
  "content (snd (snd (dstr_printf [] (Printed [97, 98]) (Printed [99, 100]) example_short))) = [104, 101, 108, 108, 111, 99, 100] \<and>
   content (snd (snd (dstr_printf [] (Printed [97, 98]) (Failed None [99]) example_short))) = content example_short"
proof -
  obtain ok al' d' where r: "dstr_printf [] (Printed [97, 98]) (Printed [99, 100]) example_short = (ok, al', d')"
    by (metis surj_pair)
  obtain ok2 al2 d2 where r2: "dstr_printf [] (Printed [97, 98]) (Failed None [99]) example_short = (ok2, al2, d2)"
    by (metis surj_pair)
  show ?thesis
    using dstr_printf_appends_or_restores [OF example_short_ok(1) r] dstr_printf_appends_or_restores [OF example_short_ok(1) r2]
      example_short_ok r r2
    by auto
qed

text \<open>
  A new string has the bytes it is made of, and cleaning up a valid string hands a buffer of zeros to
  \<^verbatim>\<open>free()\<close>: nothing of the content is left in memory.
\<close>

theorem dstr_init_and_cleanup:
  "(\<forall>d al'. dstr_init_n al s DSTR_INIT = (None, al', d) \<longrightarrow> dstr_ok d \<and> content d = s) \<and>
   (dstr_ok d \<longrightarrow> dstr_ok (snd (dstr_cleanup d)) \<and> content (snd (dstr_cleanup d)) = [] \<and>
      fst (dstr_cleanup d) = (if dstr_is_ptr d then Some (zeros (dstr_get_block_count (Some d) * BLK_SIZE)) else None))"
proof (intro conjI impI allI)
  fix d al'
  assume r: "dstr_init_n al s DSTR_INIT = (None, al', d)"
  have "holds d s" by (cases rule: init_n_cases [where al = al and s = s]) (use r in auto)
  then show "dstr_ok d" "content d = s" by (auto simp: dstr_ok_holds holds_content)
next
  show "dstr_ok (snd (dstr_cleanup d))" "content (snd (dstr_cleanup d)) = []"
    using holds_init by (auto simp: dstr_cleanup_def dstr_ok_holds holds_def holds_ssoD)
next
  assume "dstr_ok d"
  then have h: "holds d (content d)" by (simp add: dstr_ok_def)
  show "fst (dstr_cleanup d) = (if dstr_is_ptr d then Some (zeros (dstr_get_block_count (Some d) * BLK_SIZE)) else None)"
  proof (cases "dstr_is_ptr d")
    case True
    then have hp: "holds_ptr d (content d)" using h holds_ssoD(2) by (auto simp: holds_def)
    note ptr = holds_ptrD [OF hp]
    have "overwrite (content d @ zeros (d_blk d * BLK_SIZE - length (content d))) 0 (zeros (length (content d))) =
        zeros (d_blk d * BLK_SIZE)"
      using ptr(7) by (simp add: overwrite_def zeros_append)
    then show ?thesis using True ptr(5,6) by (simp add: dstr_cleanup_def dstr_free_def dstr_get_block_count_def)
  qed (simp add: dstr_cleanup_def)
qed

theorem dstr_init_and_cleanup_witness:
  "fst (dstr_cleanup example_short) = None \<and> content (snd (dstr_cleanup example_short)) = []"
  using dstr_init_and_cleanup [of "[]" "[]" example_short] example_short_ok holds_ssoD(2) [OF example_short_holds] by simp

end
