(* ===== verification/Sse.thy ===== *)
theory Sse
  imports Dstr Cstr_View
begin

text \<open>
  Views on dynamic strings (\<^verbatim>\<open>src/cstr_view.c\<close>) and the incremental parser of server-sent events
  (\<^verbatim>\<open>src/sse.c\<close>).  The callback of the parser is a parameter: it takes the data of an event and the state
  behind the user pointer, and may fail.

  The lemmas show that the parser computes a parser of lists of bytes, that how a stream is cut into pieces makes no
  difference, and that an event comes out with its data lines joined by line feeds.
\<close>

section \<open>Views and strings\<close>

definition cstr_view_dstr :: "dstr \<Rightarrow> cstr_view" where
  "cstr_view_dstr d = take (dstr_len (Some d)) (the (dstr_get (Some d)))"

definition cstr_view_cat :: "allocs \<Rightarrow> cstr_view \<Rightarrow> dstr \<Rightarrow> errno option \<times> allocs \<times> dstr" where
  "cstr_view_cat al v dest =
     (let (ok, al, dest) = dstr_cat_n al (Some v) (length v) dest in (if ok then None else Some ENOMEM, al, dest))"

definition cstr_view_store :: "allocs \<Rightarrow> cstr_view \<Rightarrow> dstr \<Rightarrow> errno option \<times> allocs \<times> dstr" where
  "cstr_view_store al v dest = (let dest = snd (dstr_clear dest) in cstr_view_cat al v dest)"

text \<open>
  \<^verbatim>\<open>cstr_view_join()\<close>: \<^verbatim>\<open>stdc_trailing_zeros()\<close> gives the index of the next name, the lowest bit of the mask.
\<close>

unbundle bit_operations_syntax

definition trailing_zeros :: "u64 \<Rightarrow> nat" where
  "trailing_zeros m = length (takeWhile (\<lambda>i. \<not> bit m i) [0..<64])"

lemma unat_clear_lowest: "m \<noteq> 0 \<Longrightarrow> unat (m AND (m - 1) :: u64) < unat m"
  using word_and_le1 [of m "m - 1"] unat_minus_one [of m] unat_gt_0 [of m]
  by (simp add: word_le_nat_alt and.commute)

function join_loop ::
    "allocs \<Rightarrow> cstr_view list \<Rightarrow> u64 \<Rightarrow> cstr_view \<Rightarrow> cstr_view \<Rightarrow> dstr \<Rightarrow> errno option \<times> allocs \<times> dstr"
where
  "join_loop al names m sep last_sep dest =
     (if m = 0 then (None, al, dest)
      else
        let i = trailing_zeros m;
            rest = m AND (m - 1);
            (e, al, dest) = cstr_view_cat al (names ! i) dest
        in if e \<noteq> None then (e, al, dest)
           else if rest = 0 then (None, al, dest)
           else
             let (e, al, dest) = cstr_view_cat al (if rest AND (rest - 1) \<noteq> 0 then sep else last_sep) dest
             in if e \<noteq> None then (e, al, dest) else join_loop al names rest sep last_sep dest)"
  by pat_completeness auto
termination by (relation "measure (\<lambda>(al, names, m, _). unat m)") (auto simp: unat_clear_lowest)

declare join_loop.simps [simp del]

definition cstr_view_join ::
    "allocs \<Rightarrow> cstr_view list \<Rightarrow> u64 \<Rightarrow> cstr_view \<Rightarrow> cstr_view \<Rightarrow> dstr \<Rightarrow> errno option \<times> allocs \<times> dstr"
where
  "cstr_view_join al names m sep last_sep dest =
     (let n = length names;
          m = (if n < 64 then m AND (push_bit n 1 - 1) else m)
      in join_loop al names m sep last_sep dest)"

section \<open>Joining names\<close>

fun join_names :: "bytes \<Rightarrow> bytes \<Rightarrow> bytes list \<Rightarrow> bytes" where
  "join_names sep last_sep [] = []"
| "join_names sep last_sep [a] = a"
| "join_names sep last_sep [a, b] = a @ last_sep @ b"
| "join_names sep last_sep (a # b # c # ns) = a @ sep @ join_names sep last_sep (b # c # ns)"

definition bits_of :: "u64 \<Rightarrow> nat list" where
  "bits_of m = filter (bit m) [0..<64]"

lemma odd_bits: "bit (2 * q + 1 :: int) i \<and> bit (2 * q) i \<longleftrightarrow> bit (2 * q + 1) i \<and> i \<noteq> 0"
  by (cases i) (simp_all add: bit_Suc bit_0)

lemma clear_lowest_int:
  fixes x :: int
  assumes "bit x k" "\<forall>j < k. \<not> bit x j" "0 < x"
  shows "bit (x AND (x - 1)) i \<longleftrightarrow> bit x i \<and> i \<noteq> k"
proof -
  have "take_bit k x = 0" using assms(2) by (intro bit_eqI) (auto simp: bit_take_bit_iff)
  then have dv: "2 ^ k dvd x" by (simp add: take_bit_eq_0_iff)
  then obtain y where y: "x = 2 ^ k * y" by auto
  have "odd y" using assms(1) by (simp add: y bit_iff_odd)
  then obtain q where q: "y = 2 * q + 1" by (auto elim: oddE)
  show ?thesis
  proof (cases "i < k")
    case True
    then show ?thesis using assms(2) by (auto simp: bit_and_iff)
  next
    case False
    then obtain j where i: "i = k + j" by (metis le_add_diff_inverse not_less)
    have "(x - 1) div 2 ^ k = 2 * q"
    proof -
      have "x - 1 = (2 ^ k - 1) + 2 * q * 2 ^ k" by (simp add: y q algebra_simps)
      then have "(x - 1) div 2 ^ k = 2 * q + (2 ^ k - 1) div 2 ^ k" by (simp only: div_mult_self1 [OF power_not_zero [OF zero_neq_numeral [symmetric]]])
      then show ?thesis by simp
    qed
    then have "bit (x - 1) i = bit (2 * q) j" by (simp add: i bit_iff_odd power_add zdiv_zmult2_eq)
    moreover have "bit x i = bit (2 * q + 1) j"
    proof -
      have "x div 2 ^ k = 2 * q + 1" by (simp add: y q)
      then show ?thesis by (simp add: i bit_iff_odd power_add zdiv_zmult2_eq)
    qed
    ultimately show ?thesis using odd_bits [of q j] by (auto simp: bit_and_iff i)
  qed
qed

lemma bits_of_step:
  assumes "m \<noteq> 0"
  shows "bits_of m = trailing_zeros m # bits_of (m AND (m - 1))"
proof -
  obtain b where b: "bit m b" using assms by (auto simp: bit_eq_iff)
  have b64: "b < 64" using b bit_imp_le_length [OF b] by simp
  define k where "k = trailing_zeros m"
  have k: "k < 64" "bit m k" "\<forall>j < k. \<not> bit m j"
  proof -
    let ?t = "takeWhile (\<lambda>i. \<not> bit m i) [0..<64]"
    have "?t \<noteq> [0..<64]" using b b64 by (metis atLeast0LessThan atLeastLessThan_upt lessThan_iff set_takeWhileD)
    then show lt: "k < 64"
      using length_takeWhile_le [of "\<lambda>i. \<not> bit m i" "[0..<64]"] takeWhile_eq_all_conv
      by (metis diff_zero k_def le_neq_implies_less length_upt takeWhile_eq_take take_all_iff order_refl trailing_zeros_def)
    then show "bit m k" using nth_length_takeWhile [of "\<lambda>i. \<not> bit m i" "[0..<64]"] by (simp add: k_def trailing_zeros_def)
    show "\<forall>j < k. \<not> bit m j"
    proof (intro allI impI)
      fix j assume "j < k"
      then have "j < length ?t" by (simp add: k_def trailing_zeros_def)
      then have "?t ! j \<in> set ?t" by (rule nth_mem)
      moreover have "?t ! j = j" using lt \<open>j < k\<close> \<open>j < length ?t\<close> by (simp add: takeWhile_nth)
      ultimately have "j \<in> set ?t" by simp
      then show "\<not> bit m j" using set_takeWhileD by metis
    qed
  qed
  have sint_pos: "0 < uint m" using assms by (metis uint_0_iff uint_ge_0 order_le_less)
  have "bit (m AND (m - 1)) i \<longleftrightarrow> bit m i \<and> i \<noteq> k" if "i < 64" for i
  proof -
    have "bit (uint m AND (uint m - 1)) i \<longleftrightarrow> bit (uint m) i \<and> i \<noteq> k"
      using k that by (intro clear_lowest_int) (auto simp: bit_uint_iff sint_pos)
    moreover have "uint (m - 1) = uint m - 1"
    proof -
      have "int (unat (m - 1)) = int (unat m) - 1"
        using unat_minus_one [OF assms] unat_gt_0 [of m] assms by (simp add: of_nat_diff)
      then show ?thesis by simp
    qed
    moreover have "bit (uint w) i \<longleftrightarrow> bit w i" for w :: u64 using that by (simp add: bit_uint_iff)
    ultimately show ?thesis by (metis bit_and_iff)
  qed
  then have rest: "bits_of (m AND (m - 1)) = filter (\<lambda>i. bit m i \<and> i \<noteq> k) [0..<64]"
    unfolding bits_of_def by (intro filter_cong) auto
  have "[0..<64] = [0..<k] @ k # [Suc k..<64]" using k(1) by (metis less_imp_le_nat upt_add_eq_append upt_conv_Cons zero_le le_add_diff_inverse2 le_add_diff_inverse)
  then show ?thesis unfolding rest using k by (auto simp: bits_of_def k_def [symmetric] filter_empty_conv intro!: filter_cong)
qed

lemma view_cat_cases:
  assumes "holds d s" "cstr_view_cat al v d = (e, al', d')"
  shows "holds d' (if e = None then s @ v else s) \<and> (e = None \<or> e = Some ENOMEM)"
proof -
  obtain ok al2 d2 where c: "dstr_append al v d = (ok, al2, d2)" by (metis surj_pair)
  have "holds d2 (if ok then s @ v else s)" using ds.append [OF assms(1) c] .
  then show ?thesis using assms(2) c by (auto simp: cstr_view_cat_def dstr_append_def split: if_splits)
qed

lemma bits_of_0 [simp]: "bits_of 0 = []"
  by (simp add: bits_of_def)

lemma bits_of_Nil: "bits_of m = [] \<longleftrightarrow> m = 0"
  using bits_of_step by fastforce

lemma join_loop_holds:
  "holds d s \<Longrightarrow> join_loop al names m sep last_sep d = (e, al', d') \<Longrightarrow>
     (e = None \<longrightarrow> holds d' (s @ join_names sep last_sep (map ((!) names) (bits_of m)))) \<and>
     (e \<noteq> None \<longrightarrow> e = Some ENOMEM \<and> (\<exists>t. holds d' (s @ t)))"
proof (induction al names m sep last_sep d arbitrary: s rule: join_loop.induct)
  case (1 al names m sep last_sep d)
  show ?case
  proof (cases "m = 0")
    case True
    then show ?thesis using "1.prems" by (auto simp: join_loop.simps [of al names 0])
  next
    case False
    define i where "i = trailing_zeros m"
    define rest where "rest = m AND (m - 1)"
    have bits: "bits_of m = i # bits_of rest" using bits_of_step [OF False] by (simp add: i_def rest_def)
    obtain e1 al1 d1 where c1: "cstr_view_cat al (names ! i) d = (e1, al1, d1)" by (metis surj_pair)
    note h1 = view_cat_cases [OF "1.prems"(1) c1]
    let ?sep = "if rest AND (rest - 1) \<noteq> 0 then sep else last_sep"
    obtain e2 al2 d2 where c2: "cstr_view_cat al1 ?sep d1 = (e2, al2, d2)" by (metis surj_pair)
    have run: "(e, al', d') = (if e1 \<noteq> None then (e1, al1, d1) else if rest = 0 then (None, al1, d1)
        else if e2 \<noteq> None then (e2, al2, d2) else join_loop al2 names rest sep last_sep d2)"
      using "1.prems"(2) [symmetric] False c1 c2
      by (simp add: join_loop.simps [of al names m] i_def [symmetric] rest_def [symmetric] Let_def)
    show ?thesis
    proof (cases "e1 = None")
      case e1: False
      then show ?thesis using run h1 by (auto intro: exI [of _ "[]"])
    next
      case e1: True
      then have h1': "holds d1 (s @ names ! i)" using h1 by simp
      note h2 = view_cat_cases [OF h1' c2]
      show ?thesis
      proof (cases "rest = 0")
        case True
        then show ?thesis using run e1 h1' bits by simp
      next
        case rest0: False
        show ?thesis
        proof (cases "e2 = None")
          case e2: False
          then show ?thesis using run e1 rest0 h2 by auto
        next
          case e2: True
          then have h2': "holds d2 ((s @ names ! i) @ ?sep)" using h2 by simp
          have rec: "join_loop al2 names rest sep last_sep d2 = (e, al', d')" using run e1 rest0 e2 by simp
          have not: "\<not> e1 \<noteq> None" "\<not> e2 \<noteq> None" using e1 e2 by simp_all
          note IH = "1.IH" [OF False i_def rest_def c1 [symmetric] refl refl not(1) rest0 c2 [symmetric] refl refl not(2) h2' rec]
          obtain j js where js: "bits_of rest = j # js" using rest0 bits_of_Nil by (metis list.exhaust)
          have "js = bits_of (rest AND (rest - 1))" using js bits_of_step [OF rest0] by simp
          then have sep: "?sep = (if js = [] then last_sep else sep)" using bits_of_Nil by simp
          have "(names ! i) @ ?sep @ join_names sep last_sep (map ((!) names) (bits_of rest)) =
              join_names sep last_sep (map ((!) names) (bits_of m))"
            unfolding bits js sep by (cases js) simp_all
          then show ?thesis using IH by auto
        qed
      qed
    qed
  qed
qed

section \<open>The parser\<close>

abbreviation LF :: byte where "LF \<equiv> 10"

text \<open>The members \<^verbatim>\<open>event\<close> and \<^verbatim>\<open>user\<close> of \<^verbatim>\<open>struct sse\<close>: the callback is an argument, the user's state a member.\<close>

type_synonym 'u event_cb = "bytes \<Rightarrow> 'u \<Rightarrow> errno option \<times> 'u"

record 'u sse =
  s_input :: dstr
  s_data :: dstr
  s_user :: 'u

definition sse_init :: "'u \<Rightarrow> 'u sse" where
  "sse_init user = \<lparr>s_input = DSTR_INIT, s_data = DSTR_INIT, s_user = user\<rparr>"

definition sse_dispatch :: "'u event_cb \<Rightarrow> 'u sse \<Rightarrow> errno option \<times> 'u sse" where
  "sse_dispatch event s =
     (let len = dstr_len (Some (s_data s))
      in if len = 0 then (None, s)
         else
           let (e, user) = event (take (len - 1) (the (dstr_get (Some (s_data s))))) (s_user s)
           in (e, s\<lparr>s_user := user, s_data := snd (dstr_clear (s_data s))\<rparr>))"

definition sse_line :: "'u event_cb \<Rightarrow> allocs \<Rightarrow> cstr_view \<Rightarrow> 'u sse \<Rightarrow> errno option \<times> allocs \<times> 'u sse" where
  "sse_line event al line s =
     (let (line, data) = cstr_view_sse_data line
      in case data of
           None \<Rightarrow>
             if length line \<noteq> 0 then (None, al, s)
             else let (e, s) = sse_dispatch event s in (e, al, s)
         | Some t \<Rightarrow>
             let (ok, al, d) = dstr_cat_n al (Some t) (length t) (s_data s)
             in if \<not> ok then (Some ENOMEM, al, s\<lparr>s_data := d\<rparr>)
                else
                  let (ok, al, d) = dstr_cat_n al (Some [LF]) 1 d
                  in (if ok then None else Some ENOMEM, al, s\<lparr>s_data := d\<rparr>))"

function feed_lines ::
    "'u event_cb \<Rightarrow> allocs \<Rightarrow> cstr_view \<Rightarrow> 'u sse \<Rightarrow> errno option \<times> allocs \<times> cstr_view \<times> 'u sse"
where
  "feed_lines event al rest s =
     (case cstr_view_cut rest LF of
        None \<Rightarrow> (None, al, rest, s)
      | Some (line, rest) \<Rightarrow>
          let (e, al, s) = sse_line event al line s
          in if e \<noteq> None then (e, al, rest, s) else feed_lines event al rest s)"
  by pat_completeness auto
termination by (relation "measure (\<lambda>(event, al, rest, s). length rest)") (auto dest: cut_length)

declare feed_lines.simps [simp del]

definition sse_feed ::
    "'u event_cb \<Rightarrow> allocs \<Rightarrow> bytes option \<Rightarrow> nat \<Rightarrow> 'u sse \<Rightarrow> errno option \<times> allocs \<times> 'u sse"
where
  "sse_feed event al data len s =
     (let (ok, al, d) = dstr_cat_n al data len (s_input s)
      in if \<not> ok then (Some ENOMEM, al, s\<lparr>s_input := d\<rparr>)
         else
           let s = s\<lparr>s_input := d\<rparr>;
               input = cstr_view_dstr (s_input s);
               (e, al, rest, s) = feed_lines event al input s
           in (e, al, s\<lparr>s_input := snd (dstr_erase 0 (length input - length rest) (s_input s))\<rparr>))"

text \<open>The blocks handed to \<^verbatim>\<open>free()\<close>, and what stays.\<close>

definition sse_fini :: "'u sse \<Rightarrow> bytes option list \<times> dstr \<times> dstr" where
  "sse_fini s =
     (let (b, data) = dstr_cleanup (s_data s);
          (c, input) = dstr_cleanup (s_input s)
      in ([b, c], data, input))"

section \<open>The parser on lists of bytes\<close>

text \<open>The state is the data gathered so far and the state of the user.\<close>

definition abs_line :: "'u event_cb \<Rightarrow> bytes \<Rightarrow> bytes \<times> 'u \<Rightarrow> errno option \<times> bytes \<times> 'u" where
  "abs_line event line = (\<lambda>(d, u).
     (case cstr_view_sse_data line of
        (l, None) \<Rightarrow>
          if l \<noteq> [] \<or> d = [] then (None, d, u) else (let (e, u) = event (butlast d) u in (e, [], u))
      | (l, Some t) \<Rightarrow> (None, d @ t @ [LF], u)))"

function abs_lines :: "'u event_cb \<Rightarrow> bytes \<Rightarrow> bytes \<times> 'u \<Rightarrow> errno option \<times> bytes \<times> bytes \<times> 'u" where
  "abs_lines event rest st =
     (case cstr_view_cut rest LF of
        None \<Rightarrow> (None, rest, st)
      | Some (line, rest) \<Rightarrow>
          let (e, st) = abs_line event line st in if e \<noteq> None then (e, rest, st) else abs_lines event rest st)"
  by pat_completeness auto
termination by (relation "measure (\<lambda>(event, rest, st). length rest)") (auto dest: cut_length)

declare abs_lines.simps [simp del]

text \<open>A feed: the input is what the last one left, and the new bytes.\<close>

definition abs_feed :: "'u event_cb \<Rightarrow> bytes \<Rightarrow> bytes \<times> bytes \<times> 'u \<Rightarrow> errno option \<times> bytes \<times> bytes \<times> 'u" where
  "abs_feed event chunk = (\<lambda>(i, st). abs_lines event (i @ chunk) st)"

lemma abs_lines_none: "LF \<notin> set rest \<Longrightarrow> abs_lines event rest st = (None, rest, st)"
  by (simp add: abs_lines.simps [of event rest])

lemma abs_lines_line:
  "LF \<notin> set line \<Longrightarrow> abs_lines event (line @ LF # rest) st =
     (let (e, st) = abs_line event line st in if e \<noteq> None then (e, rest, st) else abs_lines event rest st)"
  by (simp add: abs_lines.simps [of event "line @ LF # rest"])

text \<open>Parsing goes on where it stopped.\<close>

lemma abs_lines_append:
  "abs_lines event a st = (None, r, st') \<Longrightarrow> abs_lines event (a @ b) st = abs_lines event (r @ b) st'"
proof (induction event a st rule: abs_lines.induct)
  case (1 event rest st)
  show ?case
  proof (cases "cstr_view_cut rest LF")
    case None
    then show ?thesis using "1.prems" by (simp add: abs_lines.simps [of event rest])
  next
    case (Some lr)
    obtain line rest' where lr: "lr = (line, rest')" by (metis surj_pair)
    then have r: "rest = line @ LF # rest'" "LF \<notin> set line" using Some by (simp_all add: cut_Some_iff)
    obtain e st1 where l: "abs_line event line st = (e, st1)" by (metis surj_pair)
    have e: "e = None" "abs_lines event rest' st1 = (None, r, st')"
      using "1.prems" r l by (auto simp: abs_lines_line split: if_splits)
    have "abs_lines event (rest' @ b) st1 = abs_lines event (r @ b) st'"
      using "1.IH" [OF Some lr [symmetric] refl l [symmetric]] e by simp
    then show ?thesis using r l e by (simp add: abs_lines_line)
  qed
qed

lemma abs_feed_feed:
  assumes "abs_feed event a st = (None, st')"
  shows "abs_feed event (a @ b) st = abs_feed event b st'"
proof -
  obtain i s where st: "st = (i, s)" by (metis surj_pair)
  obtain r s' where st': "st' = (r, s')" by (metis surj_pair)
  have "abs_lines event (i @ a) s = (None, r, s')" using assms by (simp add: abs_feed_def st st')
  from abs_lines_append [OF this, of b] show ?thesis by (simp add: abs_feed_def st st')
qed

lemma sse_data_length: "cstr_view_sse_data line = (l, Some t) \<Longrightarrow> length t \<le> length line"
  by (auto simp: cstr_view_sse_data_def Let_def cstr_view_slice_eq split: if_splits)

text \<open>The parser never holds more than it was fed.\<close>

lemma abs_lines_length:
  "abs_lines event rest (d, u) = (e, r, d', u') \<Longrightarrow> length r + length d' \<le> length rest + length d"
proof (induction event rest "(d, u)" arbitrary: d u rule: abs_lines.induct)
  case (1 event rest d u)
  show ?case
  proof (cases "LF \<in> set rest")
    case False
    then show ?thesis using "1.prems" by (simp add: abs_lines_none)
  next
    case True
    then obtain line rest' where rest: "rest = line @ LF # rest'" "LF \<notin> set line" by (meson split_list_first)
    obtain e1 d1 u1 where l: "abs_line event line (d, u) = (e1, d1, u1)" by (metis surj_pair)
    have d1: "length d1 \<le> length line + 1 + length d"
      using l sse_data_length [of line]
      by (fastforce simp: abs_line_def split: prod.splits option.splits if_splits)
    show ?thesis
    proof (cases "e1 = None")
      case True
      then have "abs_lines event rest' (d1, u1) = (e, r, d', u')" using "1.prems" rest l by (simp add: abs_lines_line)
      moreover have "\<not> e1 \<noteq> None" using True by simp
      ultimately have "length r + length d' \<le> length rest' + length d1"
        using "1.hyps" [OF _ refl l [symmetric] refl, of rest'] rest by simp
      then show ?thesis using d1 rest by simp
    next
      case False
      then show ?thesis using "1.prems" rest l d1 by (auto simp: abs_lines_line)
    qed
  qed
qed

section \<open>The parser refines it\<close>

lemma view_holds: "holds d s \<Longrightarrow> cstr_view_dstr d = s"
  by (simp add: cstr_view_dstr_def dstr_len_holds get_holds)

lemma dispatch_holds:
  assumes h: "holds (s_data s) d" and l: "cstr_view_sse_data line = ([], None)"
    and r: "sse_dispatch event s = (e, s')"
  shows "\<exists>d'. holds (s_data s') d' \<and> (e, d', s_user s') = abs_line event line (d, s_user s) \<and> s_input s' = s_input s \<and>
    length d' \<le> length d"
proof (cases "d = []")
  case True
  then show ?thesis using assms by (auto simp: sse_dispatch_def abs_line_def dstr_len_holds)
next
  case False
  obtain d2 where "dstr_clear (s_data s) = (True, d2)" "holds d2 []"
    using clear_holds [OF h holds_length [OF h]] by blast
  moreover have "take (length d - 1) (the (dstr_get (Some (s_data s)))) = butlast d"
    using get_holds [OF h, of "length d - 1"] by (simp add: butlast_conv_take)
  ultimately show ?thesis using False l r
    by (auto simp: sse_dispatch_def abs_line_def dstr_len_holds [OF h] Let_def split: prod.splits)
qed

lemma line_holds:
  assumes h: "holds (s_data s) d" and r: "sse_line event al line s = (e, al', s')"
  shows "(\<exists>d'. holds (s_data s') d' \<and> s_input s' = s_input s \<and>
      ((e, d', s_user s') = abs_line event line (d, s_user s) \<or> e = Some ENOMEM \<and> s_user s' = s_user s)) \<and>
    (al = [] \<longrightarrow> length d + length line + 1 < 2 ^ 60 \<longrightarrow>
      al' = [] \<and> (\<exists>d'. holds (s_data s') d' \<and> (e, d', s_user s') = abs_line event line (d, s_user s) \<and>
        length d' \<le> length d + length line + 1))"
proof -
  obtain l data where ld: "cstr_view_sse_data line = (l, data)" by (metis surj_pair)
  show ?thesis
  proof (cases data)
    case None
    show ?thesis
    proof (cases "l = []")
      case True
      then have dp: "sse_dispatch event s = (e, s')" "al' = al"
        using r ld None by (auto simp: sse_line_def split: prod.splits)
      from dispatch_holds [OF h _ dp(1), of line] ld None True obtain d' where
        "holds (s_data s') d'" "(e, d', s_user s') = abs_line event line (d, s_user s)" "s_input s' = s_input s"
        "length d' \<le> length d"
        by auto
      then show ?thesis using dp(2) by (meson le_add1 order_trans)
    next
      case False
      then show ?thesis using r ld None h by (auto simp: sse_line_def abs_line_def)
    qed
  next
    case (Some t)
    obtain ok1 al1 d1 where c1: "dstr_cat_n al (Some t) (length t) (s_data s) = (ok1, al1, d1)" by (metis surj_pair)
    have h1: "holds d1 (if ok1 then d @ t else d)" using ds.append [OF h, of al t ok1 al1 d1] c1 by (simp add: dstr_append_def)
    have lt: "length t \<le> length line"
      using ld Some by (auto simp: cstr_view_sse_data_def Let_def cstr_view_slice_eq split: if_splits)
    obtain ok2 al2 d2 where c2: "dstr_cat_n al1 (Some [LF]) 1 d1 = (ok2, al2, d2)" by (metis surj_pair)
    have h2: "holds d2 (if ok2 then (d @ t) @ [LF] else d @ t)" if ok1
      using ds.append [of d1 "d @ t" al1 "[LF]" ok2 al2 d2] h1 that c2 by (simp add: dstr_append_def)
    have s': "s' = s\<lparr>s_data := (if ok1 then d2 else d1)\<rparr>" "e = (if ok1 \<and> ok2 then None else Some ENOMEM)"
        "al' = (if ok1 then al2 else al1)"
      using r ld Some c1 c2 by (cases ok1; cases ok2; auto simp: sse_line_def)+
    have ab: "abs_line event line (d, s_user s) = (None, d @ t @ [LF], s_user s)"
      using ld Some by (simp add: abs_line_def)
    have "\<exists>d'. holds (s_data s') d' \<and> s_input s' = s_input s \<and>
      ((e, d', s_user s') = abs_line event line (d, s_user s) \<or> e = Some ENOMEM \<and> s_user s' = s_user s)"
      using h1 h2 s' ab by (cases ok1; cases ok2) auto
    moreover have "al' = [] \<and> (\<exists>d'. holds (s_data s') d' \<and> (e, d', s_user s') = abs_line event line (d, s_user s) \<and>
        length d' \<le> length d + length line + 1)" if "al = []" "length d + length line + 1 < 2 ^ 60"
    proof -
      have g1: "ok1 \<and> al1 = [] \<and> holds d1 (d @ t)"
        using cat_n_granted [OF h, of "length t" t] c1 that lt by auto
      then have g2: "ok2 \<and> al2 = [] \<and> holds d2 ((d @ t) @ [LF])"
        using cat_n_granted [of d1 "d @ t" 1 "[LF]"] c2 that lt by auto
      then show ?thesis using g1 s' ab lt by auto
    qed
    ultimately show ?thesis by blast
  qed
qed

lemma lines_hold:
  "holds (s_data s) d \<Longrightarrow> feed_lines event al rest s = (e, al', rest', s') \<Longrightarrow>
   (\<exists>d'. holds (s_data s') d' \<and> s_input s' = s_input s \<and> (\<exists>p. rest = p @ rest') \<and>
     ((e, rest', d', s_user s') = abs_lines event rest (d, s_user s) \<or> e = Some ENOMEM)) \<and>
   (al = [] \<longrightarrow> length d + length rest < 2 ^ 60 \<longrightarrow>
     al' = [] \<and> (\<exists>d'. holds (s_data s') d' \<and> (e, rest', d', s_user s') = abs_lines event rest (d, s_user s)))"
proof (induction event al rest s arbitrary: d rule: feed_lines.induct)
  case (1 event al rest s)
  show ?case
  proof (cases "cstr_view_cut rest LF")
    case None
    then show ?thesis using "1.prems" by (auto simp: feed_lines.simps [of event al rest] cut_None_iff abs_lines_none)
  next
    case (Some lr)
    obtain line rest1 where lr: "lr = (line, rest1)" by (metis surj_pair)
    then have rest: "rest = line @ LF # rest1" and nl: "LF \<notin> set line"
      using Some by (simp_all add: cut_Some_iff)
    obtain e1 al1 s1 where l: "sse_line event al line s = (e1, al1, s1)" by (metis surj_pair)
    note lh = line_holds [OF "1.prems"(1) l]
    have run: "(e, al', rest', s') = (if e1 \<noteq> None then (e1, al1, rest1, s1) else feed_lines event al1 rest1 s1)"
      using "1.prems"(2) Some lr l by (simp add: feed_lines.simps [of event al rest])
    have abs: "abs_lines event rest st =
        (let (e, st) = abs_line event line st in if e \<noteq> None then (e, rest1, st) else abs_lines event rest1 st)" for st
      using nl by (simp add: rest abs_lines_line)
    show ?thesis
    proof (cases "e1 = None")
      case False
      then have out: "e = e1" "al' = al1" "rest' = rest1" "s' = s1" using run by simp_all
      have "\<exists>p. rest = p @ rest'" using rest out(3) by (intro exI [of _ "line @ [LF]"]) simp
      moreover obtain d' where "holds (s_data s1) d'" "s_input s1 = s_input s"
          "(e1, d', s_user s1) = abs_line event line (d, s_user s) \<or> e1 = Some ENOMEM"
        using lh by blast
      moreover have "(e, rest', d', s_user s') = abs_lines event rest (d, s_user s)"
        if "(e1, d', s_user s1) = abs_line event line (d, s_user s)" for d'
        using that [symmetric] abs False out by simp
      moreover have "length d + length line + 1 < 2 ^ 60" if "length d + length rest < 2 ^ 60" using that rest by simp
      ultimately show ?thesis using lh out by metis
    next
      case None: True
      have run1: "feed_lines event al1 rest1 s1 = (e, al', rest', s')" using run None by simp
      obtain d1 where d1: "holds (s_data s1) d1" "s_input s1 = s_input s"
          "(e1, d1, s_user s1) = abs_line event line (d, s_user s)"
        using lh None by auto
      have nn: "\<not> e1 \<noteq> None" using None by simp
      note IH = "1.IH" [OF Some lr [symmetric] refl l [symmetric] refl nn d1(1) run1]
      have step: "abs_lines event rest (d, s_user s) = abs_lines event rest1 (d1, s_user s1)"
        using abs d1(3) [symmetric] None by simp
      have "\<exists>p. rest = p @ rest'" if "\<exists>p. rest1 = p @ rest'"
        using that rest by (metis append.assoc append_Cons)
      moreover have "al1 = [] \<and> length d1 + length rest1 < 2 ^ 60"
        if al: "al = []" and small: "length d + length rest < 2 ^ 60"
      proof -
        have "length d + length line + 1 < 2 ^ 60" using small rest by simp
        then obtain d2 where "al1 = []" "holds (s_data s1) d2" "length d2 \<le> length d + length line + 1"
          using lh al by blast
        moreover have "d2 = d1" using calculation(2) d1(1) holds_content by metis
        ultimately show ?thesis using small rest by simp
      qed
      ultimately show ?thesis using IH d1(2) step by metis
    qed
  qed
qed

text \<open>The contents of a parser.\<close>

definition sse_state :: "'u sse \<Rightarrow> bytes \<times> bytes \<times> 'u" where
  "sse_state s = (content (s_input s), content (s_data s), s_user s)"

definition sse_ok :: "'u sse \<Rightarrow> bool" where
  "sse_ok s \<longleftrightarrow> dstr_ok (s_input s) \<and> dstr_ok (s_data s)"

lemma feed_holds:
  assumes ok: "sse_ok s" and r: "sse_feed event al (Some chunk) (length chunk) s = (e, al', s')"
  shows "sse_ok s' \<and> ((e, sse_state s') = abs_feed event chunk (sse_state s) \<or> e = Some ENOMEM) \<and>
    (al = [] \<longrightarrow> length (content (s_input s)) + length (content (s_data s)) + length chunk < 2 ^ 60 \<longrightarrow>
       al' = [] \<and> (e, sse_state s') = abs_feed event chunk (sse_state s))"
proof -
  define i d where "i = content (s_input s)" and "d = content (s_data s)"
  have hi: "holds (s_input s) i" and hd: "holds (s_data s) d"
    using ok by (simp_all add: sse_ok_def dstr_ok_def i_def d_def)
  obtain ok1 al1 d1 where c: "dstr_cat_n al (Some chunk) (length chunk) (s_input s) = (ok1, al1, d1)" by (metis surj_pair)
  have h1: "holds d1 (if ok1 then i @ chunk else i)"
    using ds.append [OF hi, of al chunk ok1 al1 d1] c by (simp add: dstr_append_def)
  have st: "abs_feed event chunk (sse_state s) = abs_lines event (i @ chunk) (d, s_user s)"
    by (simp add: abs_feed_def sse_state_def i_def d_def)
  show ?thesis
  proof (cases ok1)
    case False
    then have "e = Some ENOMEM" "sse_ok s'" using r c h1 hd by (auto simp: sse_feed_def sse_ok_def dstr_ok_holds)
    moreover have "\<not> length i + length chunk < 2 ^ 60" if "al = []"
      using cat_n_granted [OF hi, of "length chunk" chunk] c that False by auto
    ultimately show ?thesis by (auto simp: i_def)
  next
    case True
    let ?s = "s\<lparr>s_input := d1\<rparr>"
    have h: "holds d1 (i @ chunk)" using h1 True by simp
    obtain e2 al2 rest s2 where f: "feed_lines event al1 (i @ chunk) ?s = (e2, al2, rest, s2)" by (metis surj_pair)
    have run: "e = e2" "al' = al2" "s' = s2\<lparr>s_input := snd (dstr_erase 0 (length (i @ chunk) - length rest) (s_input s2))\<rparr>"
      using r c True f view_holds [OF h] by (simp_all add: sse_feed_def)
    have hd': "holds (s_data ?s) d" using hd by simp
    note L = lines_hold [OF hd' f]
    obtain d' p where d': "holds (s_data s2) d'" "s_input s2 = d1" "i @ chunk = p @ rest"
        "(e2, rest, d', s_user s2) = abs_lines event (i @ chunk) (d, s_user s) \<or> e2 = Some ENOMEM"
      using L by auto
    have dropped: "drop (length (i @ chunk) - length rest) (i @ chunk) = rest" using d'(3) by simp
    obtain d3 where d3: "dstr_erase 0 (length (i @ chunk) - length rest) d1 = (True, d3)" "holds d3 rest"
      using ds.take_first [OF h, of "length (i @ chunk) - length rest"] dropped by auto
    have s': "sse_ok s'" "sse_state s' = (rest, d', s_user s2)"
      using run(3) d'(1,2) d3 holds_content by (auto simp: sse_ok_def sse_state_def dstr_ok_holds)
    have "al' = [] \<and> (e, sse_state s') = abs_feed event chunk (sse_state s)"
      if al: "al = []" and small: "length i + length d + length chunk < 2 ^ 60"
    proof -
      have "al1 = []" using cat_n_granted [OF hi, of "length chunk" chunk] c al small by auto
      moreover have "length d + length (i @ chunk) < 2 ^ 60" using small by simp
      ultimately obtain d4 where "al2 = []" "holds (s_data s2) d4"
          "(e2, rest, d4, s_user s2) = abs_lines event (i @ chunk) (d, s_user s)"
        using L by auto
      moreover have "d4 = d'" using calculation(2) d'(1) holds_content by metis
      ultimately show ?thesis using run s' st by simp
    qed
    then show ?thesis using s' run(1) d'(4) st by (auto simp: i_def d_def)
  qed
qed

section \<open>An event\<close>

fun joined :: "bytes list \<Rightarrow> bytes" where
  "joined [] = []"
| "joined [l] = l"
| "joined (l # ls) = l @ LF # joined ls"

definition data_lines :: "bytes list \<Rightarrow> bytes" where
  "data_lines ls = concat (map (\<lambda>l. ascii ''data: '' @ l @ [LF]) ls)"

lemma sse_data_of_line:
  assumes "l = [] \<or> last l \<noteq> 13" "length l + 6 \<le> SIZE_MAX"
  shows "cstr_view_sse_data (ascii ''data: '' @ l) = (ascii ''data: '' @ l, Some l)"
proof -
  let ?l = "ascii ''data: '' @ l"
  have "?l ! (length ?l - 1) = last ?l" by (rule last_conv_nth [symmetric]) (simp add: ascii_def)
  also have "last ?l \<noteq> 13" using assms(1) by (auto simp: ascii_def)
  finally have whole: "take (length ?l - of_bool (length ?l \<noteq> 0 \<and> ?l ! (length ?l - 1) = ch CHR 0x0D)) ?l = ?l"
    by simp
  have "cstr_view_starts ?l (ascii ''data:'')" by (simp add: cstr_view_starts_iff ascii_def)
  moreover have "cstr_view_slice ?l 5 SIZE_MAX = 32 # l"
    using assms(2) by (simp add: cstr_view_slice_eq ascii_def)
  moreover have "cstr_view_slice (32 # l) 1 SIZE_MAX = l"
    using assms(2) by (simp add: cstr_view_slice_eq)
  ultimately show ?thesis unfolding cstr_view_sse_data_def whole by simp
qed

lemma abs_data_lines:
  assumes "\<forall>l \<in> set ls. LF \<notin> set l \<and> (l = [] \<or> last l \<noteq> 13) \<and> length l + 6 \<le> SIZE_MAX"
  shows "abs_lines event (data_lines ls @ rest) (d, u) = abs_lines event rest (d @ concat (map (\<lambda>l. l @ [LF]) ls), u)"
  using assms
proof (induction ls arbitrary: d)
  case (Cons l ls)
  have "LF \<notin> set (ascii ''data: '' @ l)" using Cons.prems by (simp add: ascii_def)
  from abs_lines_line [OF this, of event "data_lines ls @ rest" "(d, u)"]
  have "abs_lines event (data_lines (l # ls) @ rest) (d, u) = abs_lines event (data_lines ls @ rest) (d @ l @ [LF], u)"
    using sse_data_of_line [of l] Cons.prems by (simp add: data_lines_def abs_line_def)
  then show ?case using Cons by simp
qed (simp add: data_lines_def)

lemma butlast_lines: "ls \<noteq> [] \<Longrightarrow> butlast (concat (map (\<lambda>l. l @ [LF]) ls)) = joined ls"
  by (induction ls rule: joined.induct) (auto simp: butlast_append)

lemma abs_event:
  assumes "\<forall>l \<in> set ls. LF \<notin> set l \<and> (l = [] \<or> last l \<noteq> 13) \<and> length l + 6 \<le> SIZE_MAX" "ls \<noteq> []"
  shows "abs_feed event (data_lines ls @ [LF]) ([], [], u) = (let (e, u') = event (joined ls) u in (e, [], [], u'))"
proof -
  have nl: "concat (map (\<lambda>l. l @ [LF]) ls) \<noteq> []" using assms(2) by (cases ls) auto
  have empty_line: "cstr_view_sse_data [] = ([], None)" by (simp add: cstr_view_sse_data_def cstr_view_starts_def ascii_def)
  have "abs_lines event ([] @ LF # []) (d, u) = (let (e, u') = event (butlast d) u in (e, [], [], u'))" if "d \<noteq> []" for d
    using that by (subst abs_lines_line) (auto simp: abs_line_def empty_line abs_lines_none split: prod.splits)
  then show ?thesis
    using abs_data_lines [OF assms(1), of event "[LF]" "[]" u] nl butlast_lines [OF assms(2)] by (simp add: abs_feed_def)
qed

section \<open>Properties\<close>

text \<open>
  C23.  With memory at hand, feeding a stream piece by piece is feeding it in one piece, however it is cut: the same events reach the callback
  in the same order, and the same state is left.
\<close>

theorem sse_feed_in_pieces:
  assumes "sse_ok s" "length (content (s_input s)) + length (content (s_data s)) + length a + length b < 2 ^ 59"
    and a: "sse_feed event [] (Some a) (length a) s = (None, al1, s1)"
    and b: "sse_feed event al1 (Some b) (length b) s1 = (e, al2, s2)"
    and whole: "sse_feed event [] (Some (a @ b)) (length (a @ b)) s = (e', al3, s3)"
  shows "e' = e \<and> sse_state s3 = sse_state s2 \<and> sse_ok s2"
proof -
  have fa: "sse_ok s1" "al1 = []" "(None, sse_state s1) = abs_feed event a (sse_state s)"
    using feed_holds [OF assms(1) a] assms(2) by auto
  have small: "length (content (s_input s1)) + length (content (s_data s1)) \<le>
      length (content (s_input s)) + length (content (s_data s)) + length a"
    using abs_lines_length [of event "content (s_input s) @ a" "content (s_data s)" "s_user s" None
        "content (s_input s1)" "content (s_data s1)" "s_user s1"] fa(3) [symmetric]
    by (simp add: abs_feed_def sse_state_def)
  have fb: "sse_ok s2" "(e, sse_state s2) = abs_feed event b (sse_state s1)"
    using feed_holds [OF fa(1) b] fa(2) small assms(2) by auto
  have "(e', sse_state s3) = abs_feed event (a @ b) (sse_state s)"
    using feed_holds [OF assms(1) whole] assms(2) by auto
  then have "(e', sse_state s3) = (e, sse_state s2)" using fb abs_feed_feed [OF fa(3) [symmetric], of b] by simp
  then show ?thesis using fb(1) by blast
qed

text \<open>A callback that collects the events.\<close>

definition collect :: "bytes \<Rightarrow> bytes list \<Rightarrow> errno option \<times> bytes list" where
  "collect d us = (None, us @ [d])"

lemma sse_init_ok: "sse_ok (sse_init u)" "sse_state (sse_init u) = ([], [], u)"
  using holds_init holds_content [of DSTR_INIT "[]"]
  by (auto simp: sse_ok_def sse_init_def sse_state_def dstr_ok_holds holds_def)

theorem sse_feed_in_pieces_witness:
  "sse_state (snd (snd (sse_feed collect [] (Some (ascii ''data: a'' @ [10, 10])) 9 (sse_init [])))) = ([], [], [ascii ''a''])"
proof -
  let ?a = "ascii ''data: a''" and ?b = "[10, 10] :: bytes" and ?s = "sse_init [] :: bytes list sse"
  obtain e1 al1 s1 where a: "sse_feed collect [] (Some ?a) (length ?a) ?s = (e1, al1, s1)" by (metis surj_pair)
  have sz: "length (content (s_input ?s)) + length (content (s_data ?s)) = 0"
    using sse_init_ok(2) [of "[] :: bytes list"] by (simp add: sse_state_def)
  have "abs_feed collect ?a ([], [], []) = (None, ?a, [], [])" by (simp add: abs_feed_def abs_lines_none ascii_def)
  then have 1: "e1 = None" "al1 = []" "sse_ok s1" "sse_state s1 = (?a, [], [])"
    using feed_holds [OF sse_init_ok(1) a] sz by (auto simp: sse_init_ok)
  obtain e2 al2 s2 where b: "sse_feed collect al1 (Some ?b) (length ?b) s1 = (e2, al2, s2)" by (metis surj_pair)
  have "abs_feed collect ?b (?a, [], []) = abs_feed collect (data_lines [ascii ''a''] @ [LF]) ([], [], [])"
    by (simp add: abs_feed_def data_lines_def ascii_def)
  also have "\<dots> = (None, [], [], [ascii ''a''])"
    by (subst abs_event) (simp_all add: collect_def ascii_def SIZE_MAX_def)
  finally have "abs_feed collect ?b (?a, [], []) = (None, [], [], [ascii ''a''])" .
  then have 2: "sse_state s2 = ([], [], [ascii ''a''])"
    using feed_holds [OF 1(3) b] 1(2,4) by (auto simp: sse_state_def)
  obtain e3 al3 s3 where w: "sse_feed collect [] (Some (?a @ ?b)) (length (?a @ ?b)) ?s = (e3, al3, s3)"
    by (metis surj_pair)
  have "sse_state s3 = sse_state s2"
    using sse_feed_in_pieces [OF sse_init_ok(1) _ a [unfolded 1(1)] b w] sz by simp
  moreover have "length (?a @ ?b) = 9" by simp
  ultimately show ?thesis using w 2 by (simp only: snd_conv)
qed

text \<open>
  C24.  An event comes out as its data lines joined by line feeds: after a parser at rest is fed the data lines
  and an empty line, the callback has been called once, with exactly that, and the parser is at rest again.
\<close>

theorem sse_event_data:
  assumes "sse_ok s" "sse_state s = ([], [], u)" "ls \<noteq> []"
    and ls: "\<forall>l \<in> set ls. LF \<notin> set l \<and> (l = [] \<or> last l \<noteq> 13)" "length (data_lines ls) < 2 ^ 59"
    and r: "sse_feed event [] (Some (data_lines ls @ [LF])) (length (data_lines ls @ [LF])) s = (e, al', s')"
  shows "sse_ok s' \<and> (e, s_user s') = event (joined ls) u \<and> content (s_input s') = [] \<and> content (s_data s') = []"
proof -
  have "length l \<le> length (data_lines ls)" if "l \<in> set ls" for l
    using that by (induction ls) (auto simp: data_lines_def)
  then have "\<forall>l \<in> set ls. LF \<notin> set l \<and> (l = [] \<or> last l \<noteq> 13) \<and> length l + 6 \<le> SIZE_MAX"
    using ls by (fastforce simp: SIZE_MAX_def)
  note ev = abs_event [OF this assms(3), of event u]
  have "(e, sse_state s') = abs_feed event (data_lines ls @ [LF]) (sse_state s)" "sse_ok s'"
    using feed_holds [OF assms(1) r] assms(2) ls(2) by (auto simp: sse_state_def)
  then show ?thesis using ev assms(2) by (auto simp: sse_state_def split: prod.splits)
qed

theorem sse_event_data_witness:
  "s_user (snd (snd (sse_feed collect [] (Some (data_lines [ascii ''a'', ascii ''b''] @ [LF])) 17 (sse_init [])))) = [[97, 10, 98]]"
proof -
  let ?ls = "[ascii ''a'', ascii ''b'']"
  obtain e al' s' where r: "sse_feed collect [] (Some (data_lines ?ls @ [LF])) (length (data_lines ?ls @ [LF])) (sse_init []) = (e, al', s')"
    by (metis surj_pair)
  have "\<forall>l \<in> set ?ls. LF \<notin> set l \<and> (l = [] \<or> last l \<noteq> 13)" "length (data_lines ?ls) < 2 ^ 59"
    by (simp_all add: ascii_def data_lines_def)
  from sse_event_data [OF sse_init_ok _ this r] have "(e, s_user s') = collect (joined ?ls) []" by simp
  moreover have "length (data_lines ?ls @ [LF]) = 17" by (simp add: data_lines_def ascii_def)
  ultimately show ?thesis using r by (simp add: collect_def ascii_def)
qed

text \<open>
  Joining the names of a mask appends exactly those whose bit is set and that exist, in their order, the last separator
  before the last one and the other separator between the rest.
\<close>

theorem join_appends_names:
  assumes "dstr_ok d" and r: "cstr_view_join al names m sep last_sep d = (e, al', d')"
  shows "dstr_ok d' \<and>
    (if e = None then content d' = content d @ join_names sep last_sep
       (map ((!) names) (filter (\<lambda>i. i < 64 \<and> bit m i) [0..<length names]))
     else e = Some ENOMEM \<and> (\<exists>t. content d' = content d @ t))"
proof -
  define m' where "m' = (if length names < 64 then m AND (push_bit (length names) 1 - 1) else m)"
  have h: "holds d (content d)" using assms(1) by (simp add: dstr_ok_def)
  have run: "join_loop al names m' sep last_sep d = (e, al', d')" using r by (simp add: cstr_view_join_def m'_def Let_def)
  have mask: "bit (push_bit n 1 - 1 :: u64) i \<longleftrightarrow> i < n" if "i < 64" "n < 64" for i n
    unfolding push_bit_of_1 mask_eq_exp_minus_1 [symmetric] using that by (simp add: bit_mask_iff)
  have "bits_of m' = filter (\<lambda>i. i < 64 \<and> bit m i) [0..<length names]"
  proof (cases "length names < 64")
    case True
    then have "[0..<64] = [0..<length names] @ [length names..<64]"
      by (metis le_add_diff_inverse less_imp_le_nat upt_add_eq_append zero_le)
    moreover have b: "bit m' i \<longleftrightarrow> bit m i \<and> i < length names" if "i < 64" for i
      unfolding m'_def using True mask [OF that True] by (simp only: if_True bit_and_iff)
    have "filter (bit m') [0..<length names] = filter (\<lambda>i. i < 64 \<and> bit m i) [0..<length names]"
      using True by (intro filter_cong) (auto simp: b)
    moreover have "filter (bit m') [length names..<64] = []"
      using True by (auto simp: filter_empty_conv b)
    ultimately show ?thesis by (simp add: bits_of_def)
  next
    case False
    then have "[0..<length names] = [0..<64] @ [64..<length names]"
      by (metis le_add_diff_inverse not_less upt_add_eq_append zero_le)
    then show ?thesis using False by (auto simp: bits_of_def m'_def filter_empty_conv intro!: filter_cong)
  qed
  then show ?thesis using join_loop_holds [OF h run] holds_content by (cases "e = None") (auto simp: dstr_ok_holds)
qed

theorem join_appends_names_witness:
  "content (snd (snd (cstr_view_join [] [[97], [98], [99]] 5 [44] [46] DSTR_INIT))) = [97, 46, 99]"
proof -
  obtain e al' d' where r: "cstr_view_join [] [[97], [98], [99]] 5 [44] [46] DSTR_INIT = (e, al', d')" by (metis surj_pair)
  have "fst (cstr_view_join [] [[97], [98], [99]] 5 [44] [46] DSTR_INIT) = None" by code_simp
  moreover have "dstr_ok DSTR_INIT" "content DSTR_INIT = []"
    using holds_init holds_content by (auto simp: dstr_ok_holds holds_def)
  moreover have "filter (\<lambda>i. i < 64 \<and> bit (5 :: u64) i) [0..<length [[97], [98], [99 :: byte]]] = [0, 2]" by code_simp
  ultimately show ?thesis using join_appends_names [OF _ r] r by simp
qed

end
