(* ===== verification/Jb_Text.thy ===== *)
theory Jb_Text
  imports Sse Util
begin

text \<open>
  Text for JSON (\<^verbatim>\<open>jb_utf8()\<close>, \<^verbatim>\<open>jb_is_text()\<close>, \<^verbatim>\<open>jb_mend()\<close>, \<^verbatim>\<open>jb_escape()\<close>, \<^verbatim>\<open>jb_escape_cat()\<close> and
  \<^verbatim>\<open>jb_escape_fit()\<close> in \<^verbatim>\<open>src/jb.c\<close>).

  The lemmas show that the checker finds the longest prefix that is a sequence of encoded code points,
  that mending makes text and touches only the bytes that break it, that an escaped text reads back as the text,
  and that escaping a text in parts and escaping what fits are escaping the text.
\<close>

section \<open>The checker\<close>

text \<open>The length that the first byte \<open>c\<close> of a character announces, 0 for a byte that begins none.\<close>

definition utf8_size :: "nat \<Rightarrow> nat" where
  "utf8_size c =
     (if c < 0x80 then 1 else if c < 0xC2 then 0 else if c < 0xE0 then 2 else if c < 0xF0 then 3
      else if c < 0xF5 then 4 else 0)"

function utf8_loop :: "bytes \<Rightarrow> nat \<Rightarrow> nat" where
  "utf8_loop s i =
     (if i < length s then
        let c = unat (s ! i);
            n = utf8_size c
        in if n = 0 \<or> n > length s - i then i
           else if n = 1 then utf8_loop s (i + n)
           else
             let lo = (if c = 0xE0 then 0xA0 else if c = 0xF0 then 0x90 else 0x80);
                 hi = (if c = 0xED then 0x9F else if c = 0xF4 then 0x8F else 0xBF)
             in if unat (s ! (i + 1)) < lo \<or> unat (s ! (i + 1)) > hi then i
                else if list_ex (\<lambda>k. s ! (i + k) AND 0xC0 \<noteq> 0x80) [2..<n] then i
                else utf8_loop s (i + n)
      else i)"
  by pat_completeness auto
termination by (relation "measure (\<lambda>(s, i). length s - i)") auto

declare utf8_loop.simps [simp del]

definition jb_utf8 :: "bytes \<Rightarrow> nat" where
  "jb_utf8 s = utf8_loop s 0"

definition jb_is_text :: "cstr_view \<Rightarrow> bool" where
  "jb_is_text t \<longleftrightarrow> length t = 0 \<or> (memchr 0 t = None \<and> jb_utf8 t = length t)"

text \<open>The loop of \<^verbatim>\<open>jb_mend()\<close>, from the place \<open>i\<close>: the bytes made text, and the buffer.\<close>

function mend_loop :: "bytes \<Rightarrow> bool \<Rightarrow> nat \<Rightarrow> nat \<times> bytes" where
  "mend_loop p last_part i =
     (let i = i + jb_utf8 (drop i p);
          n = length p
      in if i < n then
           if \<not> last_part \<and> n - i < 4 then (i, p)
           else mend_loop (p[i := ch CHR ''?'']) last_part (i + 1)
         else (n, p))"
  by pat_completeness auto
termination by (relation "measure (\<lambda>(p, l, i). length p - i)") auto

declare mend_loop.simps [simp del]

definition jb_mend :: "bytes \<Rightarrow> bool \<Rightarrow> nat \<times> bytes" where
  "jb_mend p last_part = mend_loop p last_part 0"

section \<open>Escaping\<close>

definition jb_letters :: "byte \<Rightarrow> byte" where
  "jb_letters c =
     (if c = 8 then ch CHR ''b'' else if c = 9 then ch CHR ''t'' else if c = 10 then ch CHR ''n''
      else if c = 12 then ch CHR ''f'' else if c = 13 then ch CHR ''r''
      else if c = 34 then 34 else if c = 92 then 92 else 0)"

definition jb_escaped :: "byte \<Rightarrow> bool" where
  "jb_escaped c \<longleftrightarrow> c < ch CHR '' '' \<or> c = 34 \<or> c = 92"

definition escape_byte :: "byte \<Rightarrow> bytes" where
  "escape_byte c =
     (if \<not> jb_escaped c then [c]
      else if jb_letters c \<noteq> 0 then [92, jb_letters c]
      else [92, ch CHR ''u'', ch CHR ''0'', ch CHR ''0''] @ util_hex [c])"

text \<open>What \<^verbatim>\<open>jb_escape()\<close> writes to \<^verbatim>\<open>dst\<close>; it returns its length.  Null pointers are \<open>None\<close>.\<close>

fun escape_loop :: "bytes \<Rightarrow> bytes" where
  "escape_loop [] = []"
| "escape_loop (c # src) = escape_byte c @ escape_loop src"

definition jb_escape :: "bytes option \<Rightarrow> bytes" where
  "jb_escape src = (case src of None \<Rightarrow> [] | Some s \<Rightarrow> escape_loop s)"

function escape_cat_loop :: "allocs \<Rightarrow> cstr_view \<Rightarrow> nat \<Rightarrow> dstr \<Rightarrow> errno option \<times> allocs \<times> dstr" where
  "escape_cat_loop al t i dest =
     (if i < length t then
        let n = (if length t - i < 64 then length t - i else 64);
            part = jb_escape (Some (take n (drop i t)));
            (ok, al, dest) = dstr_cat_n al (Some part) (length part) dest
        in if \<not> ok then (Some ENOMEM, al, dest) else escape_cat_loop al t (i + n) dest
      else (None, al, dest))"
  by pat_completeness auto
termination by (relation "measure (\<lambda>(al, t, i, dest). length t - i)") auto

declare escape_cat_loop.simps [simp del]

definition jb_escape_cat :: "allocs \<Rightarrow> cstr_view \<Rightarrow> dstr \<Rightarrow> errno option \<times> allocs \<times> dstr" where
  "jb_escape_cat al t dest = escape_cat_loop al t 0 dest"

text \<open>The loop of \<^verbatim>\<open>jb_escape_fit()\<close>: how many bytes have escapes that fit.\<close>

fun fit_loop :: "bytes \<Rightarrow> nat \<Rightarrow> nat \<Rightarrow> nat" where
  "fit_loop [] used room = 0"
| "fit_loop (c # src) used room =
     (let used = used + (if \<not> jb_escaped c then 1 else if jb_letters c \<noteq> 0 then 2 else 6)
      in if used > room then 0 else Suc (fit_loop src used room))"

definition jb_escape_fit :: "bytes option \<Rightarrow> nat \<Rightarrow> nat" where
  "jb_escape_fit src room = (case src of None \<Rightarrow> 0 | Some s \<Rightarrow> jb_utf8 (take (fit_loop s 0 room) s))"

section \<open>Encoded code points\<close>

text \<open>The encoding of RFC 3629, as the numbers of the bytes.\<close>

definition code_point :: "nat \<Rightarrow> bool" where
  "code_point u \<longleftrightarrow> u \<le> 0x10FFFF \<and> \<not> (0xD800 \<le> u \<and> u \<le> 0xDFFF)"

definition encode :: "nat \<Rightarrow> nat list" where
  "encode u =
     (if u < 0x80 then [u]
      else if u < 0x800 then [0xC0 + u div 64, 0x80 + u mod 64]
      else if u < 0x10000 then [0xE0 + u div 4096, 0x80 + u div 64 mod 64, 0x80 + u mod 64]
      else [0xF0 + u div 262144, 0x80 + u div 4096 mod 64, 0x80 + u div 64 mod 64, 0x80 + u mod 64])"

text \<open>A text is a sequence of encoded code points.\<close>

definition utf8_text :: "bytes \<Rightarrow> bool" where
  "utf8_text s \<longleftrightarrow> (\<exists>us. list_all code_point us \<and> map unat s = concat (map encode us))"

text \<open>The length of the character at the head of some bytes, 0 if there is none, as the loop finds it.\<close>

definition first_char :: "nat list \<Rightarrow> nat" where
  "first_char s =
     (if s = [] then 0
      else
        let c = s ! 0;
            n = utf8_size c
        in if n = 0 \<or> n > length s then 0
           else if n = 1 then 1
           else if s ! 1 < (if c = 0xE0 then 0xA0 else if c = 0xF0 then 0x90 else 0x80) \<or>
                   s ! 1 > (if c = 0xED then 0x9F else if c = 0xF4 then 0x8F else 0xBF) then 0
           else if list_ex (\<lambda>k. \<not> (0x80 \<le> s ! k \<and> s ! k \<le> 0xBF)) [2..<n] then 0
           else n)"

lemma first_char_le: "first_char s \<le> length s"
  by (cases s) (auto simp: first_char_def Let_def)

lemma tail_byte: "(b AND 0xC0 \<noteq> (0x80 :: byte)) \<longleftrightarrow> \<not> (0x80 \<le> unat b \<and> unat b \<le> 0xBF)"
proof -
  have "list_all (\<lambda>b. (b AND 0xC0 \<noteq> (0x80 :: byte)) \<longleftrightarrow> \<not> (0x80 \<le> unat b \<and> unat b \<le> 0xBF)) all_bytes"
    unfolding all_bytes_num by code_simp
  then show ?thesis by (rule byte_cases)
qed

lemma utf8_loop_step:
  "utf8_loop s i = (if first_char (map unat (drop i s)) = 0 then (if i < length s then i else i)
     else utf8_loop s (i + first_char (map unat (drop i s))))"
proof (cases "i < length s")
  case False
  then show ?thesis by (simp add: utf8_loop.simps [of s i] first_char_def)
next
  case True
  define c n where "c = unat (s ! i)" and "n = utf8_size c"
  let ?s = "map unat (drop i s)"
  have c0: "?s ! 0 = c" "?s \<noteq> []" "length ?s = length s - i" using True by (simp_all add: c_def)
  have nth: "?s ! k = unat (s ! (i + k))" if "k < length s - i" for k using that True by simp
  consider "n = 0 \<or> n > length s - i" | "n = 1" "n \<le> length s - i" | "2 \<le> n" "n \<le> length s - i" by linarith
  then show ?thesis
  proof cases
    case 1
    then have "first_char ?s = 0" using c0 by (auto simp: first_char_def n_def [symmetric])
    then show ?thesis using 1 True by (simp add: utf8_loop.simps [of s i] c_def [symmetric] n_def [symmetric] Let_def)
  next
    case 2
    then have "first_char ?s = 1" using c0 by (auto simp: first_char_def n_def [symmetric])
    then show ?thesis using 2 True by (simp add: utf8_loop.simps [of s i] c_def [symmetric] n_def [symmetric] Let_def)
  next
    case 3
    have n1: "?s ! 1 = unat (s ! (i + 1))" using 3 nth [of 1] by simp
    have tails: "list_ex (\<lambda>k. s ! (i + k) AND 0xC0 \<noteq> 0x80) [2..<n] \<longleftrightarrow>
        list_ex (\<lambda>k. \<not> (0x80 \<le> ?s ! k \<and> ?s ! k \<le> 0xBF)) [2..<n]"
      unfolding list_ex_iff using 3 nth by (auto simp: tail_byte)
    have f: "first_char ?s = (if unat (s ! (i + 1)) < (if c = 0xE0 then 0xA0 else if c = 0xF0 then 0x90 else 0x80) \<or>
                   unat (s ! (i + 1)) > (if c = 0xED then 0x9F else if c = 0xF4 then 0x8F else 0xBF) then 0
           else if list_ex (\<lambda>k. s ! (i + k) AND 0xC0 \<noteq> 0x80) [2..<n] then 0 else n)"
      unfolding tails using 3 c0 unfolding first_char_def Let_def n1 c0(1) n_def [symmetric] by simp
    have u: "utf8_loop s i = (if unat (s ! (i + 1)) < (if c = 0xE0 then 0xA0 else if c = 0xF0 then 0x90 else 0x80) \<or>
                   unat (s ! (i + 1)) > (if c = 0xED then 0x9F else if c = 0xF4 then 0x8F else 0xBF) then i
           else if list_ex (\<lambda>k. s ! (i + k) AND 0xC0 \<noteq> 0x80) [2..<n] then i else utf8_loop s (i + n))"
      using 3 True unfolding utf8_loop.simps [of s i] Let_def c_def [symmetric] n_def [symmetric] by simp
    show ?thesis unfolding u using f 3(1) by simp
  qed
qed

text \<open>The checker as a recursion on the bytes.\<close>

function text_len :: "nat list \<Rightarrow> nat" where
  "text_len s = (if first_char s = 0 then 0 else first_char s + text_len (drop (first_char s) s))"
  by pat_completeness auto
termination
proof (relation "measure length")
  fix s assume "first_char s \<noteq> 0"
  then show "(drop (first_char s) s, s) \<in> measure length" using first_char_le [of s] by simp
qed simp

declare text_len.simps [simp del]

lemma utf8_loop_text_len: "utf8_loop s i = i + text_len (map unat (drop i s))"
proof (induction "length s - i" arbitrary: i rule: less_induct)
  case less
  let ?n = "first_char (map unat (drop i s))"
  show ?case
  proof (cases "?n = 0")
    case True
    then show ?thesis by (simp add: utf8_loop_step [of s i] text_len.simps [of "map unat (drop i s)"])
  next
    case False
    then have "length s - (i + ?n) < length s - i" using first_char_le [of "map unat (drop i s)"] by simp
    from less [OF this] False show ?thesis
      by (simp add: utf8_loop_step [of s i] text_len.simps [of "map unat (drop i s)"] drop_map add.commute)
  qed
qed

lemma jb_utf8_text_len: "jb_utf8 s = text_len (map unat s)"
  by (simp add: jb_utf8_def utf8_loop_text_len)

lemma text_len_le: "text_len s \<le> length s"
proof (induction s rule: text_len.induct)
  case (1 s)
  then show ?case using first_char_le [of s] by (subst text_len.simps) auto
qed

lemma sextets:
  fixes u :: nat
  obtains a b where "u = 64 * a + b" "b < 64" "u div 64 = a" "u mod 64 = b"
  by (metis div_mult_mod_eq mod_less_divisor mult.commute zero_less_numeral)

lemma first_char_encode:
  assumes "code_point u"
  shows "first_char (encode u @ r) = length (encode u)"
proof -
  obtain a1 b0 where u0: "u = 64 * a1 + b0" "b0 < 64" "u div 64 = a1" "u mod 64 = b0" using sextets .
  obtain a2 b1 where u1: "a1 = 64 * a2 + b1" "b1 < 64" "a1 div 64 = a2" "a1 mod 64 = b1" using sextets .
  obtain a3 b2 where u2: "a2 = 64 * a3 + b2" "b2 < 64" "a2 div 64 = a3" "a2 mod 64 = b2" using sextets .
  have d: "u div 4096 = a2" "u div 262144 = a3" "u div 4096 mod 64 = b2"
    using u0 u1 u2 div_mult2_eq [of u 64 64] div_mult2_eq [of u 4096 64] by simp_all
  consider "u < 0x80" | "0x80 \<le> u" "u < 0x800" | "0x800 \<le> u" "u < 0x10000" | "0x10000 \<le> u" by linarith
  then show ?thesis
  proof cases
    case 1
    then show ?thesis by (simp add: encode_def first_char_def utf8_size_def)
  next
    case 2
    then have "2 \<le> a1" "a1 < 32" using u0 by linarith+
    then show ?thesis using 2 u0 by (simp add: encode_def first_char_def utf8_size_def Let_def)
  next
    case 3
    then have a: "a2 < 16" "a2 = 0 \<longrightarrow> 32 \<le> b1" using u0 u1 by linarith+
    have "a2 = 13 \<longrightarrow> b1 < 32" using assms u0 u1 by (auto simp: code_point_def)
    then show ?thesis using 3 u0 u1 d a
      by (auto simp: encode_def first_char_def utf8_size_def Let_def numeral_3_eq_3 numeral_2_eq_2)
  next
    case 4
    then have a: "a3 < 5" "a3 = 0 \<longrightarrow> 16 \<le> b2" "a3 = 4 \<longrightarrow> b2 < 16" using assms u0 u1 u2 by (auto simp: code_point_def)
    have l: "[2..<4] = [2, 3]" by (simp add: upt_rec)
    show ?thesis using 4 u0 u1 u2 d a
      by (auto simp: encode_def first_char_def utf8_size_def Let_def l nth_Cons')
  qed
qed

lemma take_bytes:
  "2 \<le> length s \<Longrightarrow> take 2 s = [s ! 0, s ! 1]" "3 \<le> length s \<Longrightarrow> take 3 s = [s ! 0, s ! 1, s ! 2]"
  "4 \<le> length s \<Longrightarrow> take 4 s = [s ! 0, s ! 1, s ! 2, s ! 3]"
  by (auto simp: numeral_eq_Suc Suc_le_length_iff)

lemma sextet_div: "b < 64 \<Longrightarrow> (64 * a + b) div 64 = (a :: nat)"
  and sextet_mod: "b < 64 \<Longrightarrow> (64 * a + b) mod 64 = (b :: nat)"
  by simp_all

lemma div_64_64: "u div 4096 = u div 64 div (64 :: nat)" "u div 262144 = u div 4096 div (64 :: nat)"
  using div_mult2_eq [of u 64 64] div_mult2_eq [of u 4096 64] by simp_all

lemma utf8_size_iff:
  "utf8_size c = 1 \<longleftrightarrow> c < 0x80" "utf8_size c = 2 \<longleftrightarrow> 0xC2 \<le> c \<and> c < 0xE0"
  "utf8_size c = 3 \<longleftrightarrow> 0xE0 \<le> c \<and> c < 0xF0" "utf8_size c = 4 \<longleftrightarrow> 0xF0 \<le> c \<and> c < 0xF5"
  by (simp_all add: utf8_size_def)

lemma first_char_decode:
  assumes "first_char s = n" "0 < n"
  shows "\<exists>u. code_point u \<and> take n s = encode u"
proof -
  define c where "c = s ! 0"
  have ne: "s \<noteq> []" using assms by (auto simp: first_char_def)
  have n: "n = utf8_size c" "n \<le> length s"
    using assms first_char_le [of s] by (auto simp: first_char_def Let_def c_def split: if_splits)
  have sizes: "n = 1 \<or> n = 2 \<or> n = 3 \<or> n = 4" using n(1) assms(2) by (auto simp: utf8_size_def split: if_splits)
  have b1: "(if c = 0xE0 then 0xA0 else if c = 0xF0 then 0x90 else 0x80) \<le> s ! 1 \<and>
      s ! 1 \<le> (if c = 0xED then 0x9F else if c = 0xF4 then 0x8F else 0xBF)" if "2 \<le> n"
  proof (rule ccontr)
    assume a: "\<not> ?thesis"
    have "first_char s = 0"
      unfolding first_char_def Let_def c_def [symmetric] n(1) [symmetric] using a that ne by (simp only: if_False if_True) auto
    then show False using assms by simp
  qed
  have bk: "0x80 \<le> s ! k \<and> s ! k \<le> 0xBF" if "2 \<le> k" "k < n" for k
  proof (rule ccontr)
    assume "\<not> ?thesis"
    then have a: "list_ex (\<lambda>k. \<not> (0x80 \<le> s ! k \<and> s ! k \<le> 0xBF)) [2..<n]" using that by (auto simp: list_ex_iff)
    have "n \<noteq> 1" using that by simp
    then have "first_char s = 0"
      unfolding first_char_def Let_def c_def [symmetric] n(1) [symmetric] using a by simp
    then show False using assms by simp
  qed
  from sizes consider "n = 1" | "n = 2" | "n = 3" | "n = 4" by blast
  then show ?thesis
  proof cases
    case 1
    then have "c < 0x80" using n(1) utf8_size_iff(1) by metis
    moreover have "take n s = [c]" using 1 ne by (cases s) (simp_all add: c_def)
    ultimately show ?thesis by (intro exI [of _ c]) (simp add: code_point_def encode_def)
  next
    case 2
    then have c: "0xC2 \<le> c" "c < 0xE0" using n(1) utf8_size_iff(2) by metis+
    have y: "0x80 \<le> s ! 1" "s ! 1 \<le> 0xBF" using b1 2 c by auto
    obtain a x where v: "c = 0xC0 + a" "s ! 1 = 0x80 + x" "x < 64" "2 \<le> a" "a < 32"
      using that [of "c - 0xC0" "s ! 1 - 0x80"] y c by simp
    define u where "u = 64 * a + x"
    have "u div 64 = a" "u mod 64 = x" using v by (simp_all add: u_def)
    moreover have "0x80 \<le> u" "u < 0x800" using v by (simp_all add: u_def)
    ultimately show ?thesis using 2 n v take_bytes(1) [of s]
      by (intro exI [of _ u]) (simp add: code_point_def encode_def c_def)
  next
    case 3
    then have c: "0xE0 \<le> c" "c < 0xF0" using n(1) utf8_size_iff(3) by metis+
    have y: "0x80 \<le> s ! 1" "s ! 1 \<le> 0xBF" "c = 0xE0 \<longrightarrow> 0xA0 \<le> s ! 1" "c = 0xED \<longrightarrow> s ! 1 \<le> 0x9F"
      using b1 3 c by (auto split: if_splits)
    have z: "0x80 \<le> s ! 2" "s ! 2 \<le> 0xBF" using bk [of 2] 3 by simp_all
    define a x1 x2 where "a = c - 0xE0" and "x1 = s ! 1 - 0x80" and "x2 = s ! 2 - 0x80"
    have v: "c = 0xE0 + a" "s ! 1 = 0x80 + x1" "x1 < 64" "s ! 2 = 0x80 + x2" "x2 < 64" "a < 16"
        "a = 0 \<longrightarrow> 32 \<le> x1" "a = 13 \<longrightarrow> x1 < 32"
      unfolding a_def x1_def x2_def using y z c by presburger+
    define u where "u = 64 * (64 * a + x1) + x2"
    have d: "u div 64 = 64 * a + x1" "u mod 64 = x2"
      unfolding u_def by (rule sextet_div [OF v(5)]) (rule sextet_mod [OF v(5)])
    have d2: "u div 4096 = a" "u div 64 mod 64 = x1"
      unfolding div_64_64 d by (rule sextet_div [OF v(3)]) (rule sextet_mod [OF v(3)])
    have "0x800 \<le> u" "u < 0x10000" using v by (cases "a = 0"; simp add: u_def)+
    moreover have "\<not> (0xD800 \<le> u \<and> u \<le> 0xDFFF)"
    proof -
      consider "a \<le> 12" | "a = 13" | "14 \<le> a" by linarith
      then show ?thesis using v by cases (auto simp: u_def)
    qed
    ultimately show ?thesis using 3 n v d d2 take_bytes(2) [of s]
      by (intro exI [of _ u]) (simp add: code_point_def encode_def c_def)
  next
    case 4
    then have c: "0xF0 \<le> c" "c < 0xF5" using n(1) utf8_size_iff(4) by metis+
    have y: "0x80 \<le> s ! 1" "s ! 1 \<le> 0xBF" "c = 0xF0 \<longrightarrow> 0x90 \<le> s ! 1" "c = 0xF4 \<longrightarrow> s ! 1 \<le> 0x8F"
      using b1 4 c by (auto split: if_splits)
    have z: "0x80 \<le> s ! 2" "s ! 2 \<le> 0xBF" "0x80 \<le> s ! 3" "s ! 3 \<le> 0xBF" using bk [of 2] bk [of 3] 4 by simp_all
    define a x1 x2 x3 where "a = c - 0xF0" and "x1 = s ! 1 - 0x80" and "x2 = s ! 2 - 0x80" and "x3 = s ! 3 - 0x80"
    have v: "c = 0xF0 + a" "s ! 1 = 0x80 + x1" "x1 < 64" "s ! 2 = 0x80 + x2" "x2 < 64" "s ! 3 = 0x80 + x3"
        "x3 < 64" "a < 5" "a = 0 \<longrightarrow> 16 \<le> x1" "a = 4 \<longrightarrow> x1 < 16"
      unfolding a_def x1_def x2_def x3_def using y z c by presburger+
    define u where "u = 64 * (64 * (64 * a + x1) + x2) + x3"
    have d: "u div 64 = 64 * (64 * a + x1) + x2" "u mod 64 = x3"
      unfolding u_def by (rule sextet_div [OF v(7)]) (rule sextet_mod [OF v(7)])
    have d2: "u div 4096 = 64 * a + x1" "u div 64 mod 64 = x2"
      unfolding div_64_64(1) d by (rule sextet_div [OF v(5)]) (rule sextet_mod [OF v(5)])
    have d3: "u div 262144 = a" "u div 4096 mod 64 = x1"
      unfolding div_64_64(2) d2 by (rule sextet_div [OF v(3)]) (rule sextet_mod [OF v(3)])
    have "0x10000 \<le> u" "u \<le> 0x10FFFF"
    proof -
      consider "a = 0" | "1 \<le> a" "a \<le> 3" | "a = 4" using v by linarith
      then show "0x10000 \<le> u" "u \<le> 0x10FFFF" using v by (cases; simp add: u_def)+
    qed
    then show ?thesis using 4 n v d d2 d3 take_bytes(3) [of s]
      by (intro exI [of _ u]) (simp add: code_point_def encode_def c_def)
  qed
qed

lemma encode_length: "0 < length (encode u)"
  by (simp add: encode_def)

lemma text_len_text: "\<exists>us. list_all code_point us \<and> take (text_len s) s = concat (map encode us)"
proof (induction s rule: text_len.induct)
  case (1 s)
  show ?case
  proof (cases "first_char s = 0")
    case True
    then show ?thesis by (intro exI [of _ "[]"]) (simp add: text_len.simps [of s])
  next
    case False
    define n where "n = first_char s"
    obtain u where u: "code_point u" "take n s = encode u" using first_char_decode [of s n] False by (auto simp: n_def)
    obtain us where us: "list_all code_point us" "take (text_len (drop n s)) (drop n s) = concat (map encode us)"
      using 1 False by (auto simp: n_def)
    have "text_len s = n + text_len (drop n s)" using False by (simp add: text_len.simps [of s] n_def)
    then have "take (text_len s) s = concat (map encode (u # us))" using u us by (simp add: take_add)
    then show ?thesis using u us by (intro exI [of _ "u # us"]) simp
  qed
qed

lemma text_len_encode:
  assumes "code_point u"
  shows "text_len (encode u @ r) = length (encode u) + text_len r"
proof -
  have f: "first_char (encode u @ r) = length (encode u)" using first_char_encode [OF assms] .
  show ?thesis using encode_length [of u] by (subst text_len.simps) (simp add: f)
qed

lemma text_len_longest: "list_all code_point us \<Longrightarrow> length (concat (map encode us)) \<le> text_len (concat (map encode us) @ r)"
  by (induction us) (simp_all add: text_len_encode)

lemma utf8_text_Nil [simp]: "utf8_text []"
  unfolding utf8_text_def by (intro exI [of _ "[]"]) simp

lemma utf8_text_append: "utf8_text a \<Longrightarrow> utf8_text b \<Longrightarrow> utf8_text (a @ b)"
  unfolding utf8_text_def
proof (elim exE conjE)
  fix us vs assume "list_all code_point us" "map unat a = concat (map encode us)" "list_all code_point vs" "map unat b = concat (map encode vs)"
  then show "\<exists>us. list_all code_point us \<and> map unat (a @ b) = concat (map encode us)" by (intro exI [of _ "us @ vs"]) simp
qed

lemma utf8_text_ascii: "unat c < 0x80 \<Longrightarrow> utf8_text [c]"
  unfolding utf8_text_def by (intro exI [of _ "[unat c]"]) (simp add: code_point_def encode_def)

lemma jb_utf8_le: "jb_utf8 s \<le> length s"
  using text_len_le [of "map unat s"] by (simp add: jb_utf8_text_len)

lemma jb_utf8_text: "utf8_text (take (jb_utf8 s) s)"
  using text_len_text [of "map unat s"] by (simp add: utf8_text_def jb_utf8_text_len take_map)

lemma jb_utf8_max:
  assumes "utf8_text (take m s)" "m \<le> length s"
  shows "m \<le> jb_utf8 s"
proof -
  obtain us where us: "list_all code_point us" "map unat (take m s) = concat (map encode us)"
    using assms(1) by (auto simp: utf8_text_def)
  have "map unat s = concat (map encode us) @ map unat (drop m s)"
    unfolding us(2) [symmetric] by (metis append_take_drop_id map_append)
  moreover have "length (concat (map encode us)) = m" unfolding us(2) [symmetric] using assms(2) by simp
  ultimately show ?thesis using text_len_longest [OF us(1), of "map unat (drop m s)"] by (simp add: jb_utf8_text_len)
qed

lemma utf8_text_iff: "utf8_text s \<longleftrightarrow> jb_utf8 s = length s"
  using jb_utf8_text [of s] jb_utf8_max [of "length s" s] jb_utf8_le [of s] by (metis le_antisym order_refl take_all)

section \<open>Mending\<close>

lemma mend_loop_ok:
  "mend_loop p last_part i = (n, p') \<Longrightarrow> i \<le> length p \<Longrightarrow> utf8_text (take i p) \<Longrightarrow>
     length p' = length p \<and> i \<le> n \<and> n \<le> length p \<and> take i p' = take i p \<and> utf8_text (take n p') \<and> drop n p' = drop n p \<and>
     (last_part \<longrightarrow> n = length p) \<and> length p < n + 4 \<and>
     (\<forall>k < length p. p' ! k = p ! k \<or> p' ! k = ch CHR ''?'') \<and>
     (utf8_text (drop i p) \<longrightarrow> p' = p)"
proof (induction p last_part i rule: mend_loop.induct)
  case (1 p last_part i)
  define j where "j = i + jb_utf8 (drop i p)"
  have j: "i \<le> j" "j \<le> length p" using jb_utf8_le [of "drop i p"] "1.prems"(2) by (simp_all add: j_def)
  have tj: "utf8_text (take j p)"
    using utf8_text_append [OF "1.prems"(3) jb_utf8_text [of "drop i p"]] by (simp add: j_def take_add)
  show ?case
  proof (cases "j < length p")
    case False
    then have "mend_loop p last_part i = (length p, p)"
      by (subst mend_loop.simps) (simp add: j_def [symmetric] Let_def)
    then have "n = length p" "p' = p" "j = length p" using "1.prems"(1) False j by simp_all
    then show ?thesis using "1.prems"(2) tj by simp
  next
    case lt: True
    have broken: "\<not> utf8_text (drop i p)" using lt "1.prems"(2) by (simp add: utf8_text_iff j_def)
    show ?thesis
    proof (cases "\<not> last_part \<and> length p - j < 4")
      case True
      then have "mend_loop p last_part i = (j, p)"
        using lt by (subst mend_loop.simps) (simp add: j_def [symmetric] Let_def)
      then have "n = j" "p' = p" using "1.prems"(1) by simp_all
      moreover have "length p < j + 4" using True by arith
      ultimately show ?thesis using True lt j tj broken by simp
    next
      case False
      let ?p = "p[j := ch CHR ''?'']"
      have run: "mend_loop ?p last_part (j + 1) = (n, p')"
        using "1.prems"(1) lt False by (simp add: mend_loop.simps [of p last_part i] j_def [symmetric] Let_def split: if_splits)
      have "take (j + 1) ?p = take j p @ [ch CHR ''?'']" using lt by (simp add: take_Suc_conv_app_nth)
      moreover have "utf8_text [ch CHR ''?'']" by (rule utf8_text_ascii) simp
      ultimately have t: "utf8_text (take (j + 1) ?p)" using tj utf8_text_append by simp
      note IH = "1.IH" [OF j_def refl _ _ run _ t]
      have IH': "length p' = length ?p \<and> j + 1 \<le> n \<and> n \<le> length ?p \<and> take (j + 1) p' = take (j + 1) ?p \<and> utf8_text (take n p') \<and>
          drop n p' = drop n ?p \<and> (last_part \<longrightarrow> n = length ?p) \<and> length ?p < n + 4 \<and>
          (\<forall>k < length ?p. p' ! k = ?p ! k \<or> p' ! k = ch CHR ''?'') \<and> (utf8_text (drop (j + 1) ?p) \<longrightarrow> p' = ?p)"
        using IH lt False by simp
      have "take i p' = take i p"
      proof -
        have "take i p' = take i (take (j + 1) p')" using j by simp
        also have "\<dots> = take i (take (j + 1) ?p)" using IH' by simp
        finally show ?thesis using j by simp
      qed
      moreover have "drop n ?p = drop n p" using IH' by simp
      moreover have "p' ! k = p ! k \<or> p' ! k = ch CHR ''?''" if "k < length p" for k
      proof -
        have "p' ! k = ?p ! k \<or> p' ! k = ch CHR ''?''" using IH' that by simp
        then show ?thesis using that by (cases "k = j") simp_all
      qed
      ultimately show ?thesis using IH' j broken by auto
    qed
  qed
qed

section \<open>Escapes\<close>

definition escape_size :: "byte \<Rightarrow> nat" where
  "escape_size c = (if \<not> jb_escaped c then 1 else if jb_letters c \<noteq> 0 then 2 else 6)"

lemma length_escape_byte: "length (escape_byte c) = escape_size c"
  by (simp add: escape_byte_def escape_size_def)

lemma escape_size_bounds: "1 \<le> escape_size c" "escape_size c \<le> 6"
  by (simp_all add: escape_size_def)

text \<open>Reading the inside of a JSON string: \<open>None\<close> if it has a quote or a control character, or an unknown escape.\<close>

definition letter_byte :: "byte \<Rightarrow> byte option" where
  "letter_byte c =
     (if c = 34 \<or> c = 92 \<or> c = 47 then Some c else if c = 98 then Some 8 else if c = 102 then Some 12
      else if c = 110 then Some 10 else if c = 114 then Some 13 else if c = 116 then Some 9 else None)"

function unescape :: "bytes \<Rightarrow> bytes option" where
  "unescape s =
     (case s of
        [] \<Rightarrow> Some []
      | c # r \<Rightarrow>
          if c = 92 then
            (case r of
               [] \<Rightarrow> None
             | e # r \<Rightarrow>
                 if e = 117 then
                   if length r \<ge> 4 \<and> util_is_hex (take 4 r) \<and> take 2 r = [48, 48]
                   then map_option (Cons (unhex (take 2 (drop 2 r)) ! 0)) (unescape (drop 4 r))
                   else None
                 else case letter_byte e of None \<Rightarrow> None | Some b \<Rightarrow> map_option (Cons b) (unescape r))
          else if c < 32 \<or> c = 34 then None
          else map_option (Cons c) (unescape r))"
  by pat_completeness auto
termination by (relation "measure length") auto

declare unescape.simps [simp del]

lemma unescape_Nil [simp]: "unescape [] = Some []"
  by (simp add: unescape.simps)

lemma unescape_byte: "unescape (escape_byte c @ r) = map_option (Cons c) (unescape r)"
proof -
  have "list_all (\<lambda>c. if \<not> jb_escaped c then c \<noteq> 92 \<and> \<not> c < 32 \<and> c \<noteq> 34
      else if jb_letters c \<noteq> 0 then jb_letters c \<noteq> 117 \<and> letter_byte (jb_letters c) = Some c
      else util_is_hex ([48, 48] @ util_hex [c]) \<and> unhex (util_hex [c]) = [c]) all_bytes"
    unfolding all_bytes_num by code_simp
  from byte_cases [OF this, of c] show ?thesis
  proof (cases "jb_escaped c")
    case False
    then show ?thesis using byte_cases [OF \<open>list_all _ all_bytes\<close>, of c]
      by (simp add: escape_byte_def unescape.simps [of "c # r"])
  next
    case True
    show ?thesis
    proof (cases "jb_letters c = 0")
      case True
      have "length (util_hex [c]) = 2" by simp
      then obtain a b where ab: "util_hex [c] = [a, b]" by (auto simp: length_Suc_conv numeral_2_eq_2)
      have h: "util_is_hex [48, 48, a, b]" "unhex [a, b] = [c]"
        using byte_cases [OF \<open>list_all _ all_bytes\<close>, of c] True \<open>jb_escaped c\<close> unfolding ab by (simp_all del: util_is_hex.simps unhex.simps)
      have "escape_byte c @ r = 92 # 117 # 48 # 48 # a # b # r"
        using True \<open>jb_escaped c\<close> unfolding escape_byte_def ab by simp
      then show ?thesis using h by (simp add: unescape.simps [of "92 # _"] del: util_is_hex.simps unhex.simps util_hex.simps)
    next
      case False
      then show ?thesis using byte_cases [OF \<open>list_all _ all_bytes\<close>, of c] \<open>jb_escaped c\<close>
        by (simp add: escape_byte_def unescape.simps [of "92 # _"])
    qed
  qed
qed

lemma unescape_escape: "unescape (escape_loop s) = Some s"
  by (induction s) (simp_all add: unescape_byte)

lemma length_escape_loop: "length s \<le> length (escape_loop s)" "length (escape_loop s) \<le> 6 * length s"
  by (induction s) (simp_all add: length_escape_byte add_mono escape_size_bounds add.commute le_SucI, (simp add: escape_size_def)+)

lemma escape_printable: "list_all (\<lambda>c. c \<ge> 32) (escape_loop s)"
proof (induction s)
  case (Cons c s)
  have "list_all (\<lambda>c. list_all (\<lambda>c. c \<ge> 32) (escape_byte c)) all_bytes" unfolding all_bytes_num by code_simp
  from byte_cases [OF this, of c] show ?case using Cons by simp
qed simp

lemma escape_append [simp]: "escape_loop (a @ b) = escape_loop a @ escape_loop b"
  by (induction a) simp_all

lemma fit_loop_spec:
  "fit_loop s used room \<le> length s \<and>
   (\<forall>m \<le> length s. m \<le> fit_loop s used room \<longleftrightarrow> m = 0 \<or> used + length (escape_loop (take m s)) \<le> room)"
proof (induction s arbitrary: used)
  case (Cons c s)
  let ?u = "used + escape_size c"
  have f: "fit_loop (c # s) used room = (if ?u > room then 0 else Suc (fit_loop s ?u room))"
    by (simp add: escape_size_def Let_def)
  have "m \<le> fit_loop (c # s) used room \<longleftrightarrow> m = 0 \<or> used + length (escape_loop (take m (c # s))) \<le> room"
    if m: "m \<le> length (c # s)" for m
  proof (cases m)
    case (Suc k)
    have "used + length (escape_loop (take m (c # s))) = ?u + length (escape_loop (take k s))"
      by (simp add: Suc length_escape_byte)
    moreover have "k \<le> fit_loop s ?u room \<longleftrightarrow> k = 0 \<or> ?u + length (escape_loop (take k s)) \<le> room"
      using Cons [of ?u] m Suc by simp
    ultimately show ?thesis unfolding f by (cases "?u > room") (auto simp: Suc)
  qed simp
  then show ?case using Cons [of ?u] unfolding f by auto
qed simp

lemma escape_cat_holds:
  "holds d s \<Longrightarrow> escape_cat_loop al t i d = (e, al', d') \<Longrightarrow> i \<le> length t \<Longrightarrow>
     (\<exists>k. i \<le> k \<and> k \<le> length t \<and> holds d' (s @ escape_loop (take (k - i) (drop i t))) \<and> (e = None \<longrightarrow> k = length t)) \<and>
     (e = None \<or> e = Some ENOMEM)"
proof (induction al t i d arbitrary: s rule: escape_cat_loop.induct)
  case (1 al t i d)
  show ?case
  proof (cases "i < length t")
    case False
    then have "escape_cat_loop al t i d = (None, al, d)" by (subst escape_cat_loop.simps) simp
    then have "e = None" "d' = d" "i = length t" using "1.prems"(2,3) False by simp_all
    then show ?thesis using "1.prems"(1) by simp
  next
    case True
    define n where "n = (if length t - i < 64 then length t - i else 64)"
    define part where "part = jb_escape (Some (take n (drop i t)))"
    obtain ok al1 d1 where c: "dstr_cat_n al (Some part) (length part) d = (ok, al1, d1)" by (metis surj_pair)
    have h1: "holds d1 (if ok then s @ part else s)"
      using ds.append [OF "1.prems"(1), of al part ok al1 d1] c by (simp add: dstr_append_def)
    have run: "(e, al', d') = (if \<not> ok then (Some ENOMEM, al1, d1) else escape_cat_loop al1 t (i + n) d1)"
      using "1.prems"(2) [symmetric] True c
      by (simp add: escape_cat_loop.simps [of al t i] n_def [symmetric] part_def [symmetric] Let_def)
    show ?thesis
    proof (cases ok)
      case False
      then show ?thesis using run h1 "1.prems"(3) by (auto intro!: exI [of _ i])
    next
      case ok: True
      have n: "i + n \<le> length t" using True unfolding n_def by (cases "length t - i < 64") simp_all
      have "\<not> \<not> ok" using ok by simp
      from "1.IH" [OF True n_def part_def refl c [symmetric] refl this, of "s @ part"] run ok h1 n obtain k where
        k: "i + n \<le> k" "k \<le> length t" "holds d' ((s @ part) @ escape_loop (take (k - (i + n)) (drop (i + n) t)))"
          "e = None \<longrightarrow> k = length t" "e = None \<or> e = Some ENOMEM"
        by auto
      have "take (k - i) (drop i t) = take n (drop i t) @ take (k - (i + n)) (drop (i + n) t)"
        using k(1) take_add [of n "k - (i + n)" "drop i t"] by (simp add: add.commute)
      then have "part @ escape_loop (take (k - (i + n)) (drop (i + n) t)) = escape_loop (take (k - i) (drop i t))"
        by (simp add: part_def jb_escape_def)
      then show ?thesis using k by (auto intro!: exI [of _ k])
    qed
  qed
qed

section \<open>Properties\<close>

text \<open>
  C33.  The checker measures the longest prefix of some bytes that is a sequence of encoded code points, and a view is text
  exactly when all of it is such a sequence without the null character.
\<close>

theorem utf8_longest_prefix:
  "jb_utf8 s \<le> length s \<and> utf8_text (take (jb_utf8 s) s) \<and>
   (\<forall>m \<le> length s. utf8_text (take m s) \<longrightarrow> m \<le> jb_utf8 s) \<and>
   (jb_is_text s \<longleftrightarrow> 0 \<notin> set s \<and> utf8_text s)"
  using jb_utf8_le jb_utf8_text jb_utf8_max utf8_text_iff jb_utf8_le [of "[]"] by (auto simp: jb_is_text_def memchr_None_iff)

theorem utf8_longest_prefix_witness: "2 \<le> jb_utf8 [195, 169, 237, 160, 128]"
proof -
  have "utf8_text [195, 169]" unfolding utf8_text_def
    by (rule exI [of _ "[233]"]) (simp add: code_point_def encode_def)
  then show ?thesis using utf8_longest_prefix [of "[195, 169, 237, 160, 128]"] by (auto dest: spec [of _ 2])
qed

text \<open>
  Mending makes of some bytes a text of the same length: it changes bytes only to question marks, changes nothing of a text,
  and when more bytes follow it leaves at most the three that could begin a character cut by the end.
\<close>

theorem mend_makes_text:
  assumes "jb_mend p last_part = (n, p')"
  shows "length p' = length p \<and> n \<le> length p \<and> utf8_text (take n p') \<and> drop n p' = drop n p \<and>
    (if last_part then n = length p else length p < n + 4) \<and>
    (\<forall>k < length p. p' ! k = p ! k \<or> p' ! k = ch CHR ''?'') \<and> (utf8_text p \<longrightarrow> p' = p)"
proof -
  have "mend_loop p last_part 0 = (n, p')" using assms by (simp add: jb_mend_def)
  from mend_loop_ok [OF this] show ?thesis by simp
qed

theorem mend_makes_text_witness: "snd (jb_mend [97, 255, 98] True) = [97, 63, 98]"
proof -
  obtain n p' where r: "jb_mend [97, 255, 98] True = (n, p')" by (metis surj_pair)
  have "jb_mend [97, 255, 98] True = (3, [97, 63, 98])" by code_simp
  then show ?thesis using mend_makes_text [OF r] r by simp
qed

text \<open>
  C34.  An escaped text has at most six bytes for each byte and at least one, none of them a control character or a quote that
  ends the string, and reading the escapes back gives the text.
\<close>

theorem escape_reads_back:
  "unescape (jb_escape (Some s)) = Some s \<and>
   length s \<le> length (jb_escape (Some s)) \<and> length (jb_escape (Some s)) \<le> 6 * length s \<and>
   list_all (\<lambda>c. c \<ge> 32) (jb_escape (Some s))"
  using unescape_escape length_escape_loop escape_printable by (simp_all add: jb_escape_def)

text \<open>
  Appending an escaped text in parts of 64 bytes appends the escape of the whole text, or, without memory, the escape of a
  prefix of it.
\<close>

theorem escape_cat_appends:
  assumes "dstr_ok d" "jb_escape_cat al t d = (e, al', d')"
  shows "dstr_ok d' \<and>
    (case e of None \<Rightarrow> content d' = content d @ jb_escape (Some t)
             | Some x \<Rightarrow> x = ENOMEM \<and> (\<exists>k \<le> length t. content d' = content d @ jb_escape (Some (take k t))))"
proof -
  have h: "holds d (content d)" using assms(1) by (simp add: dstr_ok_def)
  have "escape_cat_loop al t 0 d = (e, al', d')" using assms(2) by (simp add: jb_escape_cat_def)
  from escape_cat_holds [OF h this] show ?thesis
    using holds_content by (auto simp: dstr_ok_holds jb_escape_def split: option.split)
qed

theorem escape_cat_appends_witness: "content (snd (snd (jb_escape_cat [] [97, 34, 10] DSTR_INIT))) = [97, 92, 34, 92, 110]"
proof -
  obtain e al' d' where r: "jb_escape_cat [] [97, 34, 10] DSTR_INIT = (e, al', d')" by (metis surj_pair)
  have "fst (jb_escape_cat [] [97, 34, 10] DSTR_INIT) = None" by code_simp
  moreover have "jb_escape (Some [97, 34, 10]) = [97, 92, 34, 92, 110]" by code_simp
  moreover have "dstr_ok DSTR_INIT" "content DSTR_INIT = []"
    using holds_init holds_content by (auto simp: dstr_ok_holds holds_def)
  ultimately show ?thesis using escape_cat_appends [OF _ r] r by simp
qed

text \<open>
  What fits in some room is a text whose escape is no longer than the room, and no longer prefix of the source that is a text
  has such an escape.
\<close>

theorem escape_fit_is_longest:
  "jb_escape_fit (Some s) room \<le> length s \<and>
   length (jb_escape (Some (take (jb_escape_fit (Some s) room) s))) \<le> room \<and>
   utf8_text (take (jb_escape_fit (Some s) room) s) \<and>
   (\<forall>m \<le> length s. utf8_text (take m s) \<and> length (jb_escape (Some (take m s))) \<le> room \<longrightarrow> m \<le> jb_escape_fit (Some s) room)"
proof (intro conjI allI impI)
  define f where "f = fit_loop s 0 room"
  have f: "f \<le> length s" "\<And>m. m \<le> length s \<Longrightarrow> m \<le> f \<longleftrightarrow> m = 0 \<or> length (escape_loop (take m s)) \<le> room"
    using fit_loop_spec [of s 0 room] by (simp_all add: f_def)
  have u: "jb_utf8 (take f s) \<le> f" using jb_utf8_le [of "take f s"] f(1) by simp
  have e: "jb_escape_fit (Some s) room = jb_utf8 (take f s)" by (simp add: jb_escape_fit_def f_def)
  show "jb_escape_fit (Some s) room \<le> length s" using u f(1) e by simp
  show "length (jb_escape (Some (take (jb_escape_fit (Some s) room) s))) \<le> room"
    using f(2) [of "jb_utf8 (take f s)"] u f(1) e by (cases "jb_utf8 (take f s) = 0") (auto simp: jb_escape_def)
  show "utf8_text (take (jb_escape_fit (Some s) room) s)"
    using jb_utf8_text [of "take f s"] u e by (simp add: min_absorb1)
  show "m \<le> jb_escape_fit (Some s) room"
    if "m \<le> length s" "utf8_text (take m s) \<and> length (jb_escape (Some (take m s))) \<le> room" for m
  proof -
    have "m \<le> f" using that f(2) [of m] by (simp add: jb_escape_def)
    then show ?thesis using jb_utf8_max [of m "take f s"] that f(1) e by (simp add: min_absorb1)
  qed
qed

theorem escape_fit_is_longest_witness: "2 \<le> jb_escape_fit (Some [97, 34, 10]) 4"
proof -
  have "utf8_text [97]" "utf8_text [34]" by (rule utf8_text_ascii, simp)+
  then have "utf8_text ([97] @ [34])" by (rule utf8_text_append)
  moreover have "length (jb_escape (Some [97, 34])) = 3" by code_simp
  ultimately show ?thesis using escape_fit_is_longest [of "[97, 34, 10]" 4] by (auto dest: spec [of _ 2])
qed

end
