(* ===== verification/Jb_Scan.thy ===== *)
theory Jb_Scan
  imports Util_Io
begin

text \<open>
  Scanning JSON for what parsing it would cost (\<^verbatim>\<open>jb_scan()\<close> in \<^verbatim>\<open>src/jb.c\<close>).

  The scan skips over the insides of strings by searching for quotes and backslashes.  The lemmas show that it is an
  automaton that takes one byte at a time, so that it does not matter in which pieces the text arrives; that it never passes
  a limit nor counts in storage it does not have; and that on any text of a JSON value, however it is spaced, it counts the
  values and the bytes of the strings.
\<close>

section \<open>The scan\<close>

datatype jb_scan_state = JB_SCAN_GAP | JB_SCAN_STRING | JB_SCAN_ESCAPE | JB_SCAN_SCALAR

text \<open>
  \<^verbatim>\<open>struct jb_scan\<close>.  The storage \<open>sc_members\<close> has \<open>sc_cap\<close> counts; what the function gives above is not allocated, and
  becomes what \<^verbatim>\<open>realloc()\<close> leaves in the new counts.
\<close>

record jb_scan =
  sc_members :: "u64 \<Rightarrow> u32"
  sc_copied :: u64
  sc_run :: u64
  sc_cap :: u64
  sc_depth :: u64
  sc_values :: u32
  sc_state :: jb_scan_state

definition scan_zero :: jb_scan where
  "scan_zero = \<lparr>sc_members = (\<lambda>_. 0), sc_copied = 0, sc_run = 0, sc_cap = 0, sc_depth = 0, sc_values = 0, sc_state = JB_SCAN_GAP\<rparr>"

definition jb_scan_reset :: "jb_scan \<Rightarrow> jb_scan" where
  "jb_scan_reset sc = scan_zero\<lparr>sc_members := sc_members sc, sc_cap := sc_cap sc\<rparr>"

definition jb_scan_fini :: "jb_scan \<Rightarrow> jb_scan" where
  "jb_scan_fini sc = scan_zero"

definition UINT32_MAX :: u32 where
  "UINT32_MAX = 0xFFFFFFFF"

definition jb_scan_open :: "allocs \<Rightarrow> jb_scan \<Rightarrow> u32 \<Rightarrow> errno option \<times> allocs \<times> jb_scan" where
  "jb_scan_open al sc members =
     (let (e, al, sc) =
        (if members \<noteq> UINT32_MAX then
           let (e, cap, al) = util_grow al (sc_cap sc) (sc_depth sc + 1) 4;
               sc = sc\<lparr>sc_cap := cap\<rparr>
           in if e \<noteq> None then (Some ENOMEM, al, sc)
              else (None, al, sc\<lparr>sc_members := (sc_members sc)(sc_depth sc := 0)\<rparr>)
         else (None, al, sc))
      in if e \<noteq> None then (e, al, sc)
         else (None, al, sc\<lparr>sc_depth := sc_depth sc + 1, sc_values := sc_values sc + 1, sc_state := JB_SCAN_GAP\<rparr>))"

text \<open>
  Places in the data are offsets, \<open>length data\<close> for \<^verbatim>\<open>end\<close>.  The results are the place where the string stopped, the next
  quote and the scan.
\<close>

definition memchr_range :: "byte \<Rightarrow> bytes \<Rightarrow> nat \<Rightarrow> nat \<Rightarrow> nat option" where
  "memchr_range c data i j = map_option ((+) i) (memchr c (take (j - i) (drop i data)))"

definition jb_scan_string :: "jb_scan \<Rightarrow> bytes \<Rightarrow> nat \<Rightarrow> nat option \<Rightarrow> nat \<times> nat \<times> jb_scan" where
  "jb_scan_string sc data i quote =
     (let quote =
        (case quote of
           Some q \<Rightarrow> if q < i then (case memchr_range 34 data i (length data) of None \<Rightarrow> length data | Some q \<Rightarrow> q) else q
         | None \<Rightarrow> (case memchr_range 34 data i (length data) of None \<Rightarrow> length data | Some q \<Rightarrow> q))
      in case memchr_range 92 data i quote of
           Some slash \<Rightarrow> (slash, quote, sc\<lparr>sc_run := sc_run sc + of_nat (slash - i), sc_state := JB_SCAN_ESCAPE\<rparr>)
         | None \<Rightarrow>
             let sc = sc\<lparr>sc_run := sc_run sc + of_nat (quote - i)\<rparr>
             in if quote = length data then (length data, quote, sc)
                else (quote, quote, sc\<lparr>sc_copied := sc_copied sc + sc_run sc, sc_state := JB_SCAN_GAP\<rparr>))"

lemma memchr_range_ge: "memchr_range c data i j = Some k \<Longrightarrow> i \<le> k"
  by (auto simp: memchr_range_def)

lemma jb_scan_string_ge: "jb_scan_string sc data i quote = (k, q, sc') \<Longrightarrow> i \<le> length data \<Longrightarrow> i \<le> k"
  by (auto simp: jb_scan_string_def Let_def split: option.splits if_splits dest: memchr_range_ge)

text \<open>The limits.\<close>

record limits =
  lim_depth :: u32
  lim_values :: u32
  lim_members :: u32
  lim_scalar :: u32

text \<open>The part of the loop's body for a byte outside strings: whether to go on.\<close>

definition scan_plain :: "limits \<Rightarrow> allocs \<Rightarrow> jb_scan \<Rightarrow> byte \<Rightarrow> bool \<times> allocs \<times> jb_scan" where
  "scan_plain lim al sc c =
     (if c = ch CHR ''{'' \<or> c = ch CHR ''['' then
        if sc_depth sc = ucast (lim_depth lim) \<or> sc_values sc = lim_values lim then (False, al, sc)
        else let (e, al, sc) = jb_scan_open al sc (lim_members lim) in (e = None, al, sc)
      else if c = 34 then
        if sc_values sc = lim_values lim then (False, al, sc)
        else (True, al, sc\<lparr>sc_values := sc_values sc + 1, sc_run := 0, sc_state := JB_SCAN_STRING\<rparr>)
      else if c = ch CHR '':'' then
        if lim_members lim \<noteq> UINT32_MAX \<and> sc_depth sc \<noteq> 0 then
          let n = sc_members sc (sc_depth sc - 1);
              counted = sc\<lparr>sc_members := (sc_members sc)(sc_depth sc - 1 := n + 1)\<rparr>
          in if n = lim_members lim
             then (False, al, counted\<lparr>sc_members := (sc_members counted)(sc_depth sc - 1 := sc_members counted (sc_depth sc - 1) - 1)\<rparr>)
             else (True, al, counted\<lparr>sc_state := JB_SCAN_GAP\<rparr>)
        else (True, al, sc\<lparr>sc_state := JB_SCAN_GAP\<rparr>)
      else if c = ch CHR ''}'' \<or> c = ch CHR '']'' then
        (True, al, sc\<lparr>sc_depth := sc_depth sc - (if sc_depth sc > 0 then 1 else 0), sc_state := JB_SCAN_GAP\<rparr>)
      else if c \<in> set [ch CHR '','', ch CHR '' '', 9, 13, 10] then (True, al, sc\<lparr>sc_state := JB_SCAN_GAP\<rparr>)
      else
        let fresh = sc_state sc \<noteq> JB_SCAN_SCALAR
        in if fresh \<and> sc_values sc = lim_values lim then (False, al, sc)
           else
             let sc = (if fresh then sc\<lparr>sc_values := sc_values sc + 1, sc_run := 0, sc_state := JB_SCAN_SCALAR\<rparr> else sc)
             in if sc_run sc = ucast (lim_scalar lim) then (False, al, sc)
                else (True, al, sc\<lparr>sc_run := sc_run sc + 1\<rparr>))"

function scan_loop :: "limits \<Rightarrow> allocs \<Rightarrow> jb_scan \<Rightarrow> bytes \<Rightarrow> nat \<Rightarrow> nat option \<Rightarrow> nat \<times> allocs \<times> jb_scan" where
  "scan_loop lim al sc data i quote =
     (if i < length data then
        case sc_state sc of
          JB_SCAN_STRING \<Rightarrow>
            let (k, quote, sc) = jb_scan_string sc data i quote
            in if k = length data then (length data, al, sc) else scan_loop lim al sc data (k + 1) (Some quote)
        | JB_SCAN_ESCAPE \<Rightarrow>
            scan_loop lim al (sc\<lparr>sc_run := sc_run sc + 2, sc_state := JB_SCAN_STRING\<rparr>) data (i + 1) quote
        | _ \<Rightarrow>
            let (go, al, sc) = scan_plain lim al sc (data ! i)
            in if go then scan_loop lim al sc data (i + 1) quote else (i, al, sc)
      else (length data, al, sc))"
  by pat_completeness auto
termination
  by (relation "measure (\<lambda>(lim, al, sc, data, i, quote). length data - i)")
    (auto dest!: jb_scan_string_ge [OF sym])

declare scan_loop.simps [simp del]

definition jb_scan :: "limits \<Rightarrow> allocs \<Rightarrow> jb_scan \<Rightarrow> bytes \<Rightarrow> nat \<times> allocs \<times> jb_scan" where
  "jb_scan lim al sc data = scan_loop lim al sc data 0 None"

section \<open>The automaton\<close>

definition scan_byte :: "limits \<Rightarrow> allocs \<Rightarrow> jb_scan \<Rightarrow> byte \<Rightarrow> bool \<times> allocs \<times> jb_scan" where
  "scan_byte lim al sc c =
     (case sc_state sc of
        JB_SCAN_STRING \<Rightarrow>
          (True, al,
           if c = 34 then sc\<lparr>sc_copied := sc_copied sc + sc_run sc, sc_state := JB_SCAN_GAP\<rparr>
           else if c = 92 then sc\<lparr>sc_state := JB_SCAN_ESCAPE\<rparr>
           else sc\<lparr>sc_run := sc_run sc + 1\<rparr>)
      | JB_SCAN_ESCAPE \<Rightarrow> (True, al, sc\<lparr>sc_run := sc_run sc + 2, sc_state := JB_SCAN_STRING\<rparr>)
      | _ \<Rightarrow> scan_plain lim al sc c)"

fun scan_bytes :: "limits \<Rightarrow> allocs \<Rightarrow> jb_scan \<Rightarrow> bytes \<Rightarrow> nat \<times> allocs \<times> jb_scan" where
  "scan_bytes lim al sc [] = (0, al, sc)"
| "scan_bytes lim al sc (c # s) =
     (let (go, al, sc) = scan_byte lim al sc c
      in if go then let (n, al, sc) = scan_bytes lim al sc s in (Suc n, al, sc) else (0, al, sc))"

lemma scan_bytes_le: "scan_bytes lim al sc s = (n, al', sc') \<Longrightarrow> n \<le> length s"
  by (induction s arbitrary: al sc n) (auto simp: Let_def split: prod.splits if_splits)

lemma scan_bytes_append:
  "scan_bytes lim al sc (a @ b) =
     (let (n, al, sc) = scan_bytes lim al sc a
      in if n < length a then (n, al, sc) else let (m, al, sc) = scan_bytes lim al sc b in (length a + m, al, sc))"
proof (induction a arbitrary: al sc)
  case (Cons c a)
  show ?case by (auto simp: Cons Let_def split: prod.split)
qed (simp add: Let_def split: prod.split)

lemma scan_bytes_string:
  "sc_state sc = JB_SCAN_STRING \<Longrightarrow> 34 \<notin> set a \<Longrightarrow> 92 \<notin> set a \<Longrightarrow>
     scan_bytes lim al sc a = (length a, al, sc\<lparr>sc_run := sc_run sc + of_nat (length a)\<rparr>)"
  by (induction a arbitrary: sc) (auto simp: scan_byte_def ac_simps)

definition quote_ok :: "bytes \<Rightarrow> nat \<Rightarrow> nat option \<Rightarrow> bool" where
  "quote_ok data i quote \<longleftrightarrow>
     (case quote of None \<Rightarrow> True
      | Some q \<Rightarrow> q < i \<or> q \<le> length data \<and> 34 \<notin> set (take (q - i) (drop i data)) \<and> (q < length data \<longrightarrow> data ! q = 34))"

lemma memchr_range_Some:
  assumes "memchr_range c data i j = Some k" "j \<le> length data"
  shows "i \<le> k \<and> k < j \<and> data ! k = c \<and> c \<notin> set (take (k - i) (drop i data))"
proof -
  obtain m where m: "memchr c (take (j - i) (drop i data)) = Some m" "k = i + m"
    using assms(1) by (auto simp: memchr_range_def)
  have f0: "m < length (take (j - i) (drop i data))" "take (j - i) (drop i data) ! m = c"
      "c \<notin> set (take m (take (j - i) (drop i data)))"
    using memchr_SomeD [OF m(1)] by blast+
  have f: "m < j - i" "take (j - i) (drop i data) ! m = c" "c \<notin> set (take (min m (j - i)) (drop i data))"
    using f0 by (simp, simp, simp only: take_take not_False_eq_True)
  have "m < length data - i" using f(1) assms(2) by arith
  moreover have "min m (j - i) = m" using f(1) by simp
  ultimately show ?thesis using f m(2) by simp
qed

lemma memchr_range_None: "memchr_range c data i j = None \<Longrightarrow> c \<notin> set (take (j - i) (drop i data))"
  by (auto simp: memchr_range_def memchr_None_iff)

lemma next_quote_ok:
  "i \<le> length data \<Longrightarrow>
     quote_ok data i (Some (case memchr_range 34 data i (length data) of None \<Rightarrow> length data | Some q \<Rightarrow> q))"
  using memchr_range_Some [of 34 data i "length data"] memchr_range_None [of 34 data i "length data"]
  by (cases "memchr_range 34 data i (length data)") (auto simp: quote_ok_def)

lemma jb_scan_string_spec:
  assumes r: "jb_scan_string sc data i quote = (k, q, sc')" and i: "i \<le> length data" and q: "quote_ok data i quote"
    and st: "sc_state sc = JB_SCAN_STRING"
  shows "i \<le> k \<and> k \<le> length data \<and> i \<le> q \<and> quote_ok data i (Some q) \<and>
     (if k = length data then scan_bytes lim al sc (drop i data) = (length data - i, al, sc')
      else scan_bytes lim al sc (drop i data) =
        (let (n, al, sc) = scan_bytes lim al sc' (drop (k + 1) data) in (k + 1 - i + n, al, sc)))"
proof -
  define nx where "nx = (case memchr_range 34 data i (length data) of None \<Rightarrow> length data | Some q \<Rightarrow> q)"
  have nx: "i \<le> nx" "quote_ok data i (Some nx)"
    unfolding nx_def using next_quote_ok [OF i] i memchr_range_ge [of 34 data i "length data"] by (auto split: option.split)
  have "q = (case quote of None \<Rightarrow> nx | Some q \<Rightarrow> if q < i then nx else q)"
    using r unfolding jb_scan_string_def Let_def nx_def [symmetric]
    by (cases "memchr_range 92 data i (case quote of None \<Rightarrow> nx | Some q \<Rightarrow> if q < i then nx else q)") (auto split: if_splits option.splits)
  then have q': "i \<le> q" "quote_ok data i (Some q)"
    using nx q by (auto simp: not_less split: option.splits if_splits)
  then have q'': "q \<le> length data" "34 \<notin> set (take (q - i) (drop i data))" "q < length data \<longrightarrow> data ! q = 34"
    by (auto simp: quote_ok_def)
  have step: "scan_bytes lim al sc (drop i data) =
      (let (n, al, sc) = scan_bytes lim al (snd (snd (scan_byte lim al (sc\<lparr>sc_run := sc_run sc + of_nat (k - i)\<rparr>) (data ! k)))) (drop (k + 1) data)
       in (k + 1 - i + n, al, sc))"
    if k: "i \<le> k" "k < length data" "34 \<notin> set (take (k - i) (drop i data))" "92 \<notin> set (take (k - i) (drop i data))"
      "data ! k = 34 \<or> data ! k = 92" for k
  proof -
    have d: "drop i data = take (k - i) (drop i data) @ data ! k # drop (k + 1) data"
      using k(1,2) by (metis Cons_nth_drop_Suc Suc_eq_plus1 append_take_drop_id drop_drop le_add_diff_inverse2)
    have l: "length (take (k - i) (drop i data)) = k - i" using k(1,2) by simp
    show ?thesis
      by (subst d, subst scan_bytes_append, subst scan_bytes_string [OF st k(3,4)], subst (1 2) l)
        (use k st in \<open>auto simp: scan_byte_def Let_def l split: prod.split\<close>)
  qed
  show ?thesis
  proof (cases "memchr_range 92 data i q")
    case None
    have n92: "92 \<notin> set (take (q - i) (drop i data))" using memchr_range_None [OF None] .
    have k: "k = q"
      using r None by (auto simp: jb_scan_string_def Let_def split: option.splits if_splits)
    show ?thesis
    proof (cases "q = length data")
      case True
      then have "sc' = sc\<lparr>sc_run := sc_run sc + of_nat (length data - i)\<rparr>"
        using r None by (auto simp: jb_scan_string_def Let_def split: option.splits if_splits)
      moreover have "take (q - i) (drop i data) = drop i data" using True by simp
      ultimately show ?thesis
        using True k q' n92 q''(2) scan_bytes_string [OF st, of "drop i data" lim al] i by simp
    next
      case False
      then have "sc' = sc\<lparr>sc_run := sc_run sc + of_nat (q - i), sc_copied := sc_copied sc + (sc_run sc + of_nat (q - i)), sc_state := JB_SCAN_GAP\<rparr>"
        using r None by (auto simp: jb_scan_string_def Let_def split: option.splits if_splits)
      then show ?thesis using False k q' n92 q'' step [of q] st by (simp add: scan_byte_def)
    qed
  next
    case (Some s)
    have s: "i \<le> s" "s < q" "data ! s = 92" "92 \<notin> set (take (s - i) (drop i data))"
      using memchr_range_Some [OF Some q''(1)] by blast+
    have "take (s - i) (take (q - i) (drop i data)) = take (s - i) (drop i data)" using s(2) by simp
    then have "34 \<notin> set (take (s - i) (drop i data))" using q''(2) by (metis in_set_takeD)
    moreover have "k = s" "sc' = sc\<lparr>sc_run := sc_run sc + of_nat (s - i), sc_state := JB_SCAN_ESCAPE\<rparr>"
      using r Some by (auto simp: jb_scan_string_def Let_def split: option.splits if_splits)
    ultimately show ?thesis using s q' q'' step [of s] st by (simp add: scan_byte_def)
  qed
qed

lemma quote_ok_later:
  assumes "quote_ok data i quote" "i \<le> j"
  shows "quote_ok data j quote"
proof (cases quote)
  case (Some q)
  show ?thesis
  proof (cases "q < j")
    case False
    then have "drop (j - i) (take (q - i) (drop i data)) = take (q - j) (drop j data)" using assms(2) by (simp add: drop_take)
    moreover have "q \<le> length data" "34 \<notin> set (take (q - i) (drop i data))" "q < length data \<longrightarrow> data ! q = 34"
      using assms Some False by (auto simp: quote_ok_def)
    ultimately show ?thesis using Some by (simp add: quote_ok_def) (metis in_set_dropD)
  qed (simp add: quote_ok_def Some)
qed (simp add: quote_ok_def)

lemma scan_loop_bytes:
  "i \<le> length data \<Longrightarrow> quote_ok data i quote \<Longrightarrow>
     scan_loop lim al sc data i quote = (let (n, al, sc) = scan_bytes lim al sc (drop i data) in (i + n, al, sc))"
proof (induction lim al sc data i quote rule: scan_loop.induct)
  case (1 lim al sc data i quote)
  show ?case
  proof (cases "i < length data")
    case False
    then show ?thesis using "1.prems"(1) by (simp add: scan_loop.simps)
  next
    case i: True
    have d: "drop i data = data ! i # drop (i + 1) data" using i by (simp add: Cons_nth_drop_Suc)
    consider (str) "sc_state sc = JB_SCAN_STRING" | (esc) "sc_state sc = JB_SCAN_ESCAPE"
      | (plain) "sc_state sc = JB_SCAN_GAP \<or> sc_state sc = JB_SCAN_SCALAR"
      by (cases "sc_state sc") auto
    then show ?thesis
    proof cases
      case str
      obtain k q sc' where r: "jb_scan_string sc data i quote = (k, q, sc')" by (metis surj_pair)
      note s = jb_scan_string_spec [OF r "1.prems" str, of lim al]
      show ?thesis
      proof (cases "k = length data")
        case True
        then show ?thesis using s i str r by (simp add: scan_loop.simps [of lim al sc data i])
      next
        case False
        have "scan_loop lim al sc data i quote = scan_loop lim al sc' data (k + 1) (Some q)"
          using i str r False by (simp add: scan_loop.simps [of lim al sc data i])
        also have "\<dots> = (let (n, al, sc) = scan_bytes lim al sc' (drop (k + 1) data) in (k + 1 + n, al, sc))"
          using "1.IH"(2) [OF i str refl r [symmetric] refl False] s False quote_ok_later [of data i "Some q" "k + 1"] by simp
        finally show ?thesis using s False by (simp add: Let_def split: prod.split)
      qed
    next
      case esc
      then show ?thesis using "1.IH"(3) [OF i esc] "1.prems" i quote_ok_later [of data i quote "i + 1"]
        by (simp add: scan_loop.simps [of lim al sc data i] d scan_byte_def Let_def split: prod.split)
    next
      case plain
      obtain go al' sc' where r: "scan_plain lim al sc (data ! i) = (go, al', sc')" by (metis surj_pair)
      have "scan_loop lim al sc data i quote = (if go then scan_loop lim al' sc' data (i + 1) quote else (i, al', sc'))"
        using i plain r by (auto simp: scan_loop.simps [of lim al sc data i])
      moreover have "go \<Longrightarrow> scan_loop lim al' sc' data (i + 1) quote =
          (let (n, al, sc) = scan_bytes lim al' sc' (drop (i + 1) data) in (i + 1 + n, al, sc))"
        using "1.IH"(1,4) [OF i _ refl r [symmetric] refl] plain "1.prems" i quote_ok_later [of data i quote "i + 1"] by auto
      moreover have "scan_byte lim al sc (data ! i) = (go, al', sc')" using plain r by (auto simp: scan_byte_def)
      ultimately show ?thesis by (simp add: d Let_def split: prod.split)
    qed
  qed
qed

lemma jb_scan_bytes: "jb_scan lim al sc data = scan_bytes lim al sc data"
  using scan_loop_bytes [of 0 data None lim al sc] by (simp add: jb_scan_def quote_ok_def Let_def split: prod.split)

section \<open>Limits\<close>

abbreviation counted :: "limits \<Rightarrow> bool" where
  "counted lim \<equiv> lim_members lim \<noteq> UINT32_MAX"

text \<open>What a scan keeps of its limits: the counts of the open containers lie in the storage, and nothing is over its limit.\<close>

definition scan_ok :: "limits \<Rightarrow> jb_scan \<Rightarrow> bool" where
  "scan_ok lim sc \<longleftrightarrow>
     unat (sc_depth sc) \<le> unat (lim_depth lim) \<and> sc_values sc \<le> lim_values lim \<and>
     (counted lim \<longrightarrow> sc_depth sc \<le> sc_cap sc \<and> (\<forall>k < sc_depth sc. sc_members sc k \<le> lim_members lim)) \<and>
     (sc_state sc = JB_SCAN_SCALAR \<longrightarrow> unat (sc_run sc) \<le> unat (lim_scalar lim))"

text \<open>The bytes of numbers and literals, as the scan takes them: all but the structure of a text, quotes and gaps.\<close>

definition scalar_byte :: "byte \<Rightarrow> bool" where
  "scalar_byte c \<longleftrightarrow> c \<notin> set (map ch ''{}[]:, '') \<and> c \<notin> {34, 9, 10, 13}"

text \<open>
  The limit that the byte \<open>c\<close> would pass, outside strings: a container too deep or one value too many, a member too many
  where members are limited, or a byte too many of a number or literal.  Commas, closing brackets and gaps pass none.

  A limit of \<open>UINT32_MAX\<close> on numbers and literals is one like any other here, since the code compares with it: \<^verbatim>\<open>jb.h\<close> calls
  it no limit, but a scan stops before the byte \<open>2 ^ 32\<close> of one all the same (\<open>scan_stops_unlimited\<close>).
\<close>

definition at_limit :: "limits \<Rightarrow> jb_scan \<Rightarrow> byte \<Rightarrow> bool" where
  "at_limit lim sc c \<longleftrightarrow>
     (sc_state sc = JB_SCAN_GAP \<or> sc_state sc = JB_SCAN_SCALAR) \<and>
     (if c = ch CHR ''{'' \<or> c = ch CHR ''[''
      then unat (sc_depth sc) = unat (lim_depth lim) \<or> sc_values sc = lim_values lim
      else if c = 34 then sc_values sc = lim_values lim
      else if c = ch CHR '':''
      then counted lim \<and> sc_depth sc \<noteq> 0 \<and> sc_members sc (sc_depth sc - 1) = lim_members lim
      else scalar_byte c \<and>
        (if sc_state sc = JB_SCAN_SCALAR then unat (sc_run sc) = unat (lim_scalar lim) else sc_values sc = lim_values lim))"

text \<open>
  A scan writes counts only where it counts, and only in its storage: from \<open>sc\<close> to \<open>sc'\<close> what lies beyond the storage stays,
  and without a limit of members so do the storage and all that it holds.
\<close>

definition in_storage :: "limits \<Rightarrow> jb_scan \<Rightarrow> jb_scan \<Rightarrow> bool" where
  "in_storage lim sc sc' \<longleftrightarrow>
     sc_cap sc \<le> sc_cap sc' \<and> (\<forall>k. sc_cap sc' \<le> k \<longrightarrow> sc_members sc' k = sc_members sc k) \<and>
     (\<not> counted lim \<longrightarrow> sc_members sc' = sc_members sc \<and> sc_cap sc' = sc_cap sc)"

lemma in_storage_refl [simp]: "in_storage lim sc sc"
  by (simp add: in_storage_def)

lemma in_storage_same: "sc_members sc' = sc_members sc \<Longrightarrow> sc_cap sc' = sc_cap sc \<Longrightarrow> in_storage lim sc sc'"
  by (simp add: in_storage_def)

lemma in_storage_trans: "in_storage lim sc sc1 \<Longrightarrow> in_storage lim sc1 sc2 \<Longrightarrow> in_storage lim sc sc2"
  unfolding in_storage_def by (metis order_trans)

lemma ucast_eq_unat: "(x :: u64) = ucast (y :: u32) \<longleftrightarrow> unat x = unat y"
  by (simp add: word_unat_eq_iff unat_ucast_32)

lemma less_max_word: "x < y \<Longrightarrow> unat (x + 1) = unat x + 1" for x y :: "'a::len word"
proof -
  assume "x < y"
  then have "unat x + 1 < 2 ^ LENGTH('a)" using unsigned_less [of y] by (simp add: word_less_nat_alt) (metis Suc_lessI less_trans not_less_eq unsigned_less)
  then show ?thesis by (simp add: unat_word_ariths)
qed

lemma lim_depth_64: "unat (lim_depth lim) < 2 ^ 32"
  using unsigned_less [of "lim_depth lim"] by simp

lemma depth_plus_1:
  assumes "unat (sc_depth sc) \<le> unat (lim_depth lim)"
  shows "unat (sc_depth sc + 1) = unat (sc_depth sc) + 1"
proof (rule less_max_word)
  show "sc_depth sc < 0x100000000" using assms lim_depth_64 [of lim] by (simp add: word_less_nat_alt)
qed

lemma util_grow_room:
  "util_grow al cap n 4 = (e, cap', al') \<Longrightarrow> cap \<le> cap' \<and> (e = None \<longrightarrow> n \<le> cap') \<and> (e = None \<or> e = Some ENOMEM)"
  by (auto simp: util_grow_def util_room_def Let_def not_less split: prod.splits if_splits bool.splits)

lemma util_grow_granted:
  assumes "unat n < 2 ^ 33"
  shows "\<exists>cap'. util_grow [] cap n 4 = (None, cap', []) \<and> n \<le> cap'"
proof -
  have "n \<le> (- 1) div 4" using assms max_div [of "4 :: u64" n] by simp
  then show ?thesis by (auto simp: util_grow_def util_room_def Let_def not_less)
qed

lemma value_more:
  assumes "(v :: u32) \<le> m" "v \<noteq> m"
  shows "v + 1 \<le> m" "unat (v + 1) = unat v + 1"
proof -
  have l: "v < m" using assms by simp
  show "unat (v + 1) = unat v + 1" using less_max_word [OF l] .
  then show "v + 1 \<le> m" using l by (simp add: word_le_nat_alt word_less_nat_alt)
qed

lemma jb_scan_open_spec:
  assumes ok: "scan_ok lim sc" and lim: "unat (sc_depth sc) \<noteq> unat (lim_depth lim)" "sc_values sc \<noteq> lim_values lim"
    and r: "jb_scan_open al sc (lim_members lim) = (e, al', sc')"
  shows "scan_ok lim sc' \<and> in_storage lim sc sc'" "e = None \<or> e = Some ENOMEM" "al = [] \<Longrightarrow> e = None \<and> al' = []"
    "e = None \<Longrightarrow> unat (sc_depth sc') = unat (sc_depth sc) + 1 \<and> unat (sc_values sc') = unat (sc_values sc) + 1 \<and>
       sc_copied sc' = sc_copied sc \<and> sc_state sc' = JB_SCAN_GAP \<and>
       (\<forall>k < sc_depth sc. sc_members sc' k = sc_members sc k) \<and> (counted lim \<longrightarrow> sc_members sc' (sc_depth sc) = 0)"
proof -
  have d: "unat (sc_depth sc + 1) = unat (sc_depth sc) + 1" using ok depth_plus_1 by (auto simp: scan_ok_def)
  have v: "sc_values sc + 1 \<le> lim_values lim" "unat (sc_values sc + 1) = unat (sc_values sc) + 1"
    using value_more [of "sc_values sc" "lim_values lim"] ok lim(2) by (auto simp: scan_ok_def)
  have below: "k < sc_depth sc + 1 \<longleftrightarrow> k < sc_depth sc \<or> k = sc_depth sc" for k
    using d by (auto simp: word_less_nat_alt word_unat_eq_iff)
  have small: "unat (sc_depth sc + 1) < 2 ^ 33" using ok lim_depth_64 [of lim] d by (simp add: scan_ok_def)
  obtain cap' al1 e1 where g: "util_grow al (sc_cap sc) (sc_depth sc + 1) 4 = (e1, cap', al1)" by (metis surj_pair)
  note room = util_grow_room [OF g]
  have beyond: "x + 1 \<le> cap' \<Longrightarrow> cap' \<le> k \<Longrightarrow> unat (x + 1) = unat x + 1 \<Longrightarrow> k \<noteq> x" for x k by (auto simp: word_le_nat_alt)
  show "scan_ok lim sc' \<and> in_storage lim sc sc'" "e = None \<or> e = Some ENOMEM" "al = [] \<Longrightarrow> e = None \<and> al' = []"
    "e = None \<Longrightarrow> unat (sc_depth sc') = unat (sc_depth sc) + 1 \<and> unat (sc_values sc') = unat (sc_values sc) + 1 \<and>
       sc_copied sc' = sc_copied sc \<and> sc_state sc' = JB_SCAN_GAP \<and>
       (\<forall>k < sc_depth sc. sc_members sc' k = sc_members sc k) \<and> (counted lim \<longrightarrow> sc_members sc' (sc_depth sc) = 0)"
    using r g d v room ok lim util_grow_granted [OF small, of "sc_cap sc"]
    by (auto simp: jb_scan_open_def Let_def scan_ok_def in_storage_def below beyond split: if_splits)
qed

lemma scan_plain_ok:
  assumes ok: "scan_ok lim sc" and r: "scan_plain lim al sc c = (go, al', sc')"
    and st: "sc_state sc = JB_SCAN_GAP \<or> sc_state sc = JB_SCAN_SCALAR"
  shows "scan_ok lim sc' \<and> in_storage lim sc sc'" "al = [] \<Longrightarrow> al' = [] \<and> (go \<or> at_limit lim sc' c)"
proof -
  have limit: "at_limit lim x c \<longleftrightarrow>
     (if c = ch CHR ''{'' \<or> c = ch CHR ''[''
      then unat (sc_depth x) = unat (lim_depth lim) \<or> sc_values x = lim_values lim
      else if c = 34 then sc_values x = lim_values lim
      else if c = ch CHR '':''
      then counted lim \<and> sc_depth x \<noteq> 0 \<and> sc_members x (sc_depth x - 1) = lim_members lim
      else scalar_byte c \<and>
        (if sc_state x = JB_SCAN_SCALAR then unat (sc_run x) = unat (lim_scalar lim) else sc_values x = lim_values lim))"
    if "sc_state x = JB_SCAN_GAP \<or> sc_state x = JB_SCAN_SCALAR" for x
    using that by (simp add: at_limit_def)
  have v: "sc_values sc \<noteq> lim_values lim \<Longrightarrow> sc_values sc + 1 \<le> lim_values lim"
    using value_more [of "sc_values sc" "lim_values lim"] ok by (simp add: scan_ok_def)
  consider (open_) "c = ch CHR ''{'' \<or> c = ch CHR ''[''" | (quote) "c = 34" | (colon) "c = ch CHR '':''"
    | (close_) "c = ch CHR ''}'' \<or> c = ch CHR '']''" | (gap) "c \<in> set [ch CHR '','', ch CHR '' '', 9, 13, 10]"
    | (other) "\<not> (c = ch CHR ''{'' \<or> c = ch CHR ''['')" "c \<noteq> 34" "c \<noteq> ch CHR '':''" "\<not> (c = ch CHR ''}'' \<or> c = ch CHR '']'')"
      "c \<notin> set [ch CHR '','', ch CHR '' '', 9, 13, 10]"
    by blast
  then have "(scan_ok lim sc' \<and> in_storage lim sc sc') \<and> (al = [] \<longrightarrow> al' = [] \<and> (go \<or> at_limit lim sc' c))"
  proof cases
    case open_
    show ?thesis
    proof (cases "unat (sc_depth sc) = unat (lim_depth lim) \<or> sc_values sc = lim_values lim")
      case True
      then have "sc' = sc \<and> al' = al" using open_ r by (auto simp: scan_plain_def ucast_eq_unat)
      then show ?thesis using open_ True ok limit [OF st] by auto
    next
      case False
      then have lim: "unat (sc_depth sc) \<noteq> unat (lim_depth lim)" "sc_values sc \<noteq> lim_values lim" by blast+
      obtain e al1 sc1 where o: "jb_scan_open al sc (lim_members lim) = (e, al1, sc1)" by (metis surj_pair)
      have "scan_plain lim al sc c = (e = None, al1, sc1)"
        using open_ lim o unfolding scan_plain_def ucast_eq_unat by simp
      then have "go = (e = None)" "al' = al1" "sc' = sc1" using r by simp_all
      then show ?thesis using jb_scan_open_spec(1,3) [OF ok lim o] by blast
    qed
  next
    case quote
    show ?thesis
    proof (cases "sc_values sc = lim_values lim")
      case True
      then have "sc' = sc \<and> al' = al" using quote r by (simp add: scan_plain_def)
      then show ?thesis using quote True ok limit [OF st] by auto
    next
      case False
      then have "sc' = sc\<lparr>sc_values := sc_values sc + 1, sc_run := 0, sc_state := JB_SCAN_STRING\<rparr> \<and> al' = al \<and> go"
        using quote r by (auto simp: scan_plain_def)
      then show ?thesis using ok v [OF False] by (auto simp: scan_ok_def in_storage_def)
    qed
  next
    case colon
    show ?thesis
    proof (cases "counted lim \<and> sc_depth sc \<noteq> 0")
      case True
      then have "0 < unat (sc_depth sc)" by (simp add: unat_gt_0)
      then have d: "sc_depth sc - 1 < sc_depth sc" using True by (simp add: word_less_nat_alt unat_minus_one)
      then have n: "sc_members sc (sc_depth sc - 1) \<le> lim_members lim" using ok True by (simp add: scan_ok_def)
      show ?thesis
      proof (cases "sc_members sc (sc_depth sc - 1) = lim_members lim")
        case eq: True
        then have "(sc_members sc)(sc_depth sc - 1 := lim_members lim) = sc_members sc" by auto
        then have "sc' = sc \<and> al' = al" using eq colon r True by (auto simp: scan_plain_def Let_def)
        then show ?thesis using ok eq True colon limit [OF st] by simp
      next
        case False
        have "sc_depth sc - 1 < k" if "sc_cap sc \<le> k" for k
          using d True ok that unfolding scan_ok_def by (meson less_le_trans order_trans)
        then have "in_storage lim sc (sc\<lparr>sc_members := (sc_members sc)(sc_depth sc - 1 := sc_members sc (sc_depth sc - 1) + 1),
            sc_state := JB_SCAN_GAP\<rparr>)"
          using True by (auto simp: in_storage_def)
        then show ?thesis using False colon r True ok value_more(1) [OF n False] by (auto simp: scan_plain_def Let_def scan_ok_def)
      qed
    next
      case False
      then show ?thesis using colon r ok by (auto simp: scan_plain_def scan_ok_def in_storage_def)
    qed
  next
    case close_
    define d where "d = sc_depth sc - (if sc_depth sc > 0 then 1 else 0)"
    have d: "d \<le> sc_depth sc"
      unfolding d_def by (cases "sc_depth sc = 0") (simp_all add: word_le_nat_alt unat_minus_one word_neq_0_conv)
    have "sc' = sc\<lparr>sc_depth := d, sc_state := JB_SCAN_GAP\<rparr>" "al' = al" "go"
      using close_ r by (auto simp: scan_plain_def d_def)
    moreover have "scan_ok lim (sc\<lparr>sc_depth := d, sc_state := JB_SCAN_GAP\<rparr>)"
      using ok d by (auto simp: scan_ok_def word_le_nat_alt word_less_nat_alt)
    ultimately show ?thesis by (simp add: in_storage_same)
  next
    case gap
    then consider "c = 44" | "c = 32" | "c = 9" | "c = 13" | "c = 10" by auto
    then have "scan_plain lim al sc c = (True, al, sc\<lparr>sc_state := JB_SCAN_GAP\<rparr>)" by cases (simp_all add: scan_plain_def)
    moreover have "scan_ok lim (sc\<lparr>sc_state := JB_SCAN_GAP\<rparr>)" using ok by (simp add: scan_ok_def)
    ultimately show ?thesis using r by (auto intro: in_storage_same)
  next
    case other
    define fresh where "fresh = (sc_state sc \<noteq> JB_SCAN_SCALAR)"
    define sc1 where "sc1 = (if fresh then sc\<lparr>sc_values := sc_values sc + 1, sc_run := 0, sc_state := JB_SCAN_SCALAR\<rparr> else sc)"
    have p: "scan_plain lim al sc c =
        (if fresh \<and> sc_values sc = lim_values lim then (False, al, sc)
         else if unat (sc_run sc1) = unat (lim_scalar lim) then (False, al, sc1)
         else (True, al, sc1\<lparr>sc_run := sc_run sc1 + 1\<rparr>))"
      using other by (simp add: scan_plain_def ucast_eq_unat sc1_def fresh_def Let_def)
    have "scalar_byte c" using other by (simp add: scalar_byte_def)
    then have lim: "at_limit lim x c \<longleftrightarrow>
        (if sc_state x = JB_SCAN_SCALAR then unat (sc_run x) = unat (lim_scalar lim) else sc_values x = lim_values lim)"
      if "sc_state x = JB_SCAN_GAP \<or> sc_state x = JB_SCAN_SCALAR" for x
      using other limit [OF that] by simp
    have kept: "in_storage lim sc sc1" "in_storage lim sc (sc1\<lparr>sc_run := sc_run sc1 + 1\<rparr>)"
      by (simp_all add: sc1_def in_storage_same)
    show ?thesis
    proof (cases "fresh \<and> sc_values sc = lim_values lim")
      case True
      then show ?thesis using r ok lim [OF st] by (auto simp: p fresh_def)
    next
      case False
      have ok1: "scan_ok lim sc1" "sc_state sc1 = JB_SCAN_SCALAR"
        using ok v False by (auto simp: scan_ok_def sc1_def fresh_def)
      show ?thesis
      proof (cases "unat (sc_run sc1) = unat (lim_scalar lim)")
        case True
        then show ?thesis using r ok1 False kept lim [of sc1] by (auto simp: p)
      next
        case more: False
        have "unat (sc_run sc1) < unat (lim_scalar lim)" using ok1 more by (simp add: scan_ok_def)
        then have "sc_run sc1 < ucast (lim_scalar lim)" by (simp add: word_less_nat_alt unat_ucast_32)
        then have "unat (sc_run sc1 + 1) = unat (sc_run sc1) + 1" by (rule less_max_word)
        then have "scan_ok lim (sc1\<lparr>sc_run := sc_run sc1 + 1\<rparr>)"
          using ok1 \<open>unat (sc_run sc1) < unat (lim_scalar lim)\<close> by (simp add: scan_ok_def)
        then show ?thesis using r False more kept by (auto simp: p)
      qed
    qed
  qed
  then show "scan_ok lim sc' \<and> in_storage lim sc sc'" "al = [] \<Longrightarrow> al' = [] \<and> (go \<or> at_limit lim sc' c)" by blast+
qed

lemma scan_bytes_ok:
  assumes "scan_ok lim sc" "scan_bytes lim al sc s = (n, al', sc')"
  shows "scan_ok lim sc'" "in_storage lim sc sc'" "al = [] \<Longrightarrow> al' = [] \<and> (n < length s \<longrightarrow> at_limit lim sc' (s ! n))"
proof -
  have "(scan_ok lim sc' \<and> in_storage lim sc sc') \<and> (al = [] \<longrightarrow> al' = [] \<and> (n < length s \<longrightarrow> at_limit lim sc' (s ! n)))"
    using assms
  proof (induction s arbitrary: al sc n)
    case (Cons c s)
    obtain go al1 sc1 where b: "scan_byte lim al sc c = (go, al1, sc1)" by (metis surj_pair)
    have ok1: "(scan_ok lim sc1 \<and> in_storage lim sc sc1) \<and> (al = [] \<longrightarrow> al1 = [] \<and> (go \<or> at_limit lim sc1 c))"
    proof (cases "sc_state sc = JB_SCAN_GAP \<or> sc_state sc = JB_SCAN_SCALAR")
      case True
      then have "scan_plain lim al sc c = (go, al1, sc1)" using b by (auto simp: scan_byte_def)
      then show ?thesis using scan_plain_ok [OF Cons.prems(1) _ True] by blast
    next
      case False
      then show ?thesis using b Cons.prems(1) by (cases "sc_state sc") (auto simp: scan_byte_def scan_ok_def in_storage_same split: if_splits)
    qed
    show ?case
    proof (cases go)
      case True
      obtain m where "scan_bytes lim al1 sc1 s = (m, al', sc')" "n = Suc m"
        using Cons.prems(2) b True by (auto split: prod.splits)
      then show ?thesis using Cons.IH [of sc1 al1 m] ok1 by (auto intro: in_storage_trans)
    next
      case False
      then show ?thesis using Cons.prems(2) b ok1 by auto
    qed
  qed simp
  then show "scan_ok lim sc'" "in_storage lim sc sc'" "al = [] \<Longrightarrow> al' = [] \<and> (n < length s \<longrightarrow> at_limit lim sc' (s ! n))" by blast+
qed

section \<open>Values\<close>

text \<open>JSON values as a text has them: the insides of strings with their escapes, numbers and literals as they are.\<close>

datatype json = JStr bytes | JScalar bytes | JArr "json list" | JObj "(bytes \<times> json) list"

fun joined_by :: "byte \<Rightarrow> bytes list \<Rightarrow> bytes" where
  "joined_by c [] = []"
| "joined_by c [t] = t"
| "joined_by c (t # ts) = t @ c # joined_by c ts"

text \<open>The text of a value with no more than it needs.\<close>

fun json_text :: "json \<Rightarrow> bytes" where
  "json_text (JStr s) = 34 # s @ [34]"
| "json_text (JScalar s) = s"
| "json_text (JArr js) = ch CHR ''['' # joined_by (ch CHR '','') (map json_text js) @ [ch CHR '']'']"
| "json_text (JObj ms) =
     ch CHR ''{'' # joined_by (ch CHR '','') (map (\<lambda>(k, j). 34 # k @ [34, ch CHR '':''] @ json_text j) ms) @ [ch CHR ''}'']"

text \<open>
  The texts of a value: with spaces, tabs and ends of lines before and after it and all that it holds, as in RFC 8259.
\<close>

definition gap :: "bytes \<Rightarrow> bool" where
  "gap g \<longleftrightarrow> list_all (\<lambda>c. c \<in> {32, 9, 10, 13}) g"

inductive says :: "json \<Rightarrow> bytes \<Rightarrow> bool" where
  says_string: "says (JStr s) (34 # s @ [34])"
| says_scalar: "says (JScalar s) s"
| says_spaced: "gap g \<Longrightarrow> gap h \<Longrightarrow> says j t \<Longrightarrow> says j (g @ t @ h)"
| says_empty_array: "gap g \<Longrightarrow> says (JArr []) (ch CHR ''['' # g @ [ch CHR '']''])"
| says_empty_object: "gap g \<Longrightarrow> says (JObj []) (ch CHR ''{'' # g @ [ch CHR ''}''])"
| says_array: "list_all2 says js ts \<Longrightarrow> says (JArr js) (ch CHR ''['' # joined_by (ch CHR '','') ts @ [ch CHR '']''])"
| says_object:
    "list_all2 (\<lambda>m t. \<exists>kt jt. says (JStr (fst m)) kt \<and> says (snd m) jt \<and> t = kt @ ch CHR '':'' # jt) ms ts \<Longrightarrow>
     says (JObj ms) (ch CHR ''{'' # joined_by (ch CHR '','') ts @ [ch CHR ''}''])"

lemma says_json_text: "says j (json_text j)"
proof (induction j)
  case (JArr js)
  have "list_all2 says js (map json_text js)" using JArr by (simp add: list.rel_map list_all2_same)
  from says_array [OF this] show ?case by simp
next
  case (JObj ms)
  let ?t = "\<lambda>(k, j). 34 # k @ [34, ch CHR '':''] @ json_text j"
  have "\<exists>kt jt. says (JStr (fst m)) kt \<and> says (snd m) jt \<and> ?t m = kt @ ch CHR '':'' # jt" if "m \<in> set ms" for m
  proof -
    have "says (snd m) (json_text (snd m))" using JObj that by (cases m) fastforce
    then show ?thesis by (intro exI [of _ "34 # fst m @ [34]"] exI [of _ "json_text (snd m)"]) (auto simp: says_string split_def)
  qed
  then have "list_all2 (\<lambda>m t. \<exists>kt jt. says (JStr (fst m)) kt \<and> says (snd m) jt \<and> t = kt @ ch CHR '':'' # jt) ms (map ?t ms)"
    by (auto simp: list.rel_map list_all2_same)
  from says_object [OF this] show ?case by simp
qed (use says_string says_scalar in simp_all)

text \<open>The values, keys included, the bytes of strings, and the nesting of containers.\<close>

fun json_values :: "json \<Rightarrow> nat" where
  "json_values (JStr s) = 1"
| "json_values (JScalar s) = 1"
| "json_values (JArr js) = 1 + sum_list (map json_values js)"
| "json_values (JObj ms) = 1 + sum_list (map (\<lambda>(k, j). 1 + json_values j) ms)"

fun json_copied :: "json \<Rightarrow> nat" where
  "json_copied (JStr s) = length s"
| "json_copied (JScalar s) = 0"
| "json_copied (JArr js) = sum_list (map json_copied js)"
| "json_copied (JObj ms) = sum_list (map (\<lambda>(k, j). length k + json_copied j) ms)"

fun json_depth :: "json \<Rightarrow> nat" where
  "json_depth (JStr s) = 0"
| "json_depth (JScalar s) = 0"
| "json_depth (JArr js) = 1 + foldr max (map json_depth js) 0"
| "json_depth (JObj ms) = 1 + foldr max (map (\<lambda>(k, j). json_depth j) ms) 0"

text \<open>The inside of a string: no quote but in escapes, none of which the end cuts.\<close>

fun string_body :: "bytes \<Rightarrow> bool" where
  "string_body [] = True"
| "string_body (c # s) =
     (if c = 92 then (case s of [] \<Rightarrow> False | e # r \<Rightarrow> string_body r) else c \<noteq> 34 \<and> string_body s)"

fun json_ok :: "limits \<Rightarrow> json \<Rightarrow> bool" where
  "json_ok lim (JStr s) = string_body s"
| "json_ok lim (JScalar s) = (s \<noteq> [] \<and> list_all scalar_byte s \<and> length s \<le> unat (lim_scalar lim))"
| "json_ok lim (JArr js) = list_all (json_ok lim) js"
| "json_ok lim (JObj ms) =
     (list_all (\<lambda>(k, j). string_body k \<and> json_ok lim j) ms \<and> (counted lim \<longrightarrow> length ms \<le> unat (lim_members lim)))"

text \<open>
  What a text does to a scan that is not within a value: it opens no more than \<open>d\<close> containers at once, begins \<open>v\<close> values,
  has \<open>c\<close> bytes in strings, and adds \<open>m\<close> members to the container it is in.
\<close>

definition grown :: "limits \<Rightarrow> jb_scan \<Rightarrow> jb_scan \<Rightarrow> nat \<Rightarrow> nat \<Rightarrow> nat \<Rightarrow> bool" where
  "grown lim sc sc' v c m \<longleftrightarrow>
     sc_depth sc' = sc_depth sc \<and> unat (sc_values sc') = unat (sc_values sc) + v \<and> sc_copied sc' = sc_copied sc + of_nat c \<and>
     (sc_state sc' = JB_SCAN_GAP \<or> sc_state sc' = JB_SCAN_SCALAR) \<and>
     (counted lim \<longrightarrow> (\<forall>k < sc_depth sc. unat (sc_members sc' k) = unat (sc_members sc k) + (if k = sc_depth sc - 1 then m else 0)))"

definition costs :: "limits \<Rightarrow> bytes \<Rightarrow> nat \<Rightarrow> nat \<Rightarrow> nat \<Rightarrow> nat \<Rightarrow> bool" where
  "costs lim t d v c m \<longleftrightarrow>
     (\<forall>sc. sc_state sc = JB_SCAN_GAP \<and> scan_ok lim sc \<and> unat (sc_depth sc) + d \<le> unat (lim_depth lim) \<and>
        unat (sc_values sc) + v \<le> unat (lim_values lim) \<and>
        (counted lim \<and> sc_depth sc \<noteq> 0 \<longrightarrow> unat (sc_members sc (sc_depth sc - 1)) + m \<le> unat (lim_members lim)) \<longrightarrow>
        (\<exists>sc'. scan_bytes lim [] sc t = (length t, [], sc') \<and> grown lim sc sc' v c m))"

lemma costsD:
  assumes "costs lim t d v c m" "sc_state sc = JB_SCAN_GAP" "scan_ok lim sc" "unat (sc_depth sc) + d \<le> unat (lim_depth lim)"
    "unat (sc_values sc) + v \<le> unat (lim_values lim)"
    "counted lim \<Longrightarrow> sc_depth sc \<noteq> 0 \<Longrightarrow> unat (sc_members sc (sc_depth sc - 1)) + m \<le> unat (lim_members lim)"
  obtains sc' where "scan_bytes lim [] sc t = (length t, [], sc')" "grown lim sc sc' v c m" "scan_ok lim sc'"
  using assms scan_bytes_ok(1) by (fastforce simp: costs_def)

lemma costs_mono: "costs lim t d v c m \<Longrightarrow> d \<le> d' \<Longrightarrow> costs lim t d' v c m"
  by (auto simp: costs_def)

lemma scan_bytes_body:
  "string_body s \<Longrightarrow> sc_state sc = JB_SCAN_STRING \<Longrightarrow>
     scan_bytes lim al sc s = (length s, al, sc\<lparr>sc_run := sc_run sc + of_nat (length s)\<rparr>)"
proof (induction s arbitrary: sc rule: string_body.induct)
  case (2 c s)
  show ?case
  proof (cases "c = 92")
    case True
    then obtain e r where s: "s = e # r" "string_body r" using "2.prems"(1) by (auto split: list.splits)
    let ?sc = "sc\<lparr>sc_run := sc_run sc + 2\<rparr>"
    have "scan_bytes lim al ?sc r = (length r, al, ?sc\<lparr>sc_run := sc_run sc + 2 + of_nat (length r)\<rparr>)"
      using "2.IH"(1) [OF True s(1) s(2), of ?sc] "2.prems"(2) by simp
    moreover have "sc\<lparr>sc_state := JB_SCAN_ESCAPE, sc_run := sc_run sc + 2, sc_state := JB_SCAN_STRING\<rparr> = ?sc"
      using "2.prems"(2) by simp
    moreover have "c \<noteq> 34" using True by (simp add: word_unat_eq_iff)
    then have "scan_byte lim al sc c = (True, al, sc\<lparr>sc_state := JB_SCAN_ESCAPE\<rparr>)"
      using True "2.prems"(2) by (simp only: scan_byte_def) simp
    moreover have "scan_byte lim al (sc\<lparr>sc_state := JB_SCAN_ESCAPE\<rparr>) e =
        (True, al, sc\<lparr>sc_state := JB_SCAN_ESCAPE, sc_run := sc_run sc + 2, sc_state := JB_SCAN_STRING\<rparr>)"
      by (simp add: scan_byte_def)
    ultimately show ?thesis by (simp add: s ac_simps)
  next
    case False
    then show ?thesis using "2.IH"(2) [OF False, of "sc\<lparr>sc_run := sc_run sc + 1\<rparr>"] "2.prems" by (simp add: scan_byte_def ac_simps)
  qed
qed simp

lemma scan_bytes_scalar:
  "list_all scalar_byte s \<Longrightarrow> sc_state sc = JB_SCAN_SCALAR \<Longrightarrow> unat (sc_run sc) + length s \<le> unat (lim_scalar lim) \<Longrightarrow>
     scan_bytes lim al sc s = (length s, al, sc\<lparr>sc_run := sc_run sc + of_nat (length s)\<rparr>)"
proof (induction s arbitrary: sc)
  case (Cons c s)
  have "unat (sc_run sc) < unat (lim_scalar lim)" using Cons.prems(3) by simp
  moreover have "unat (lim_scalar lim) < 2 ^ 32" using unsigned_less [of "lim_scalar lim"] by simp
  ultimately have "sc_run sc < 0x100000000" by (simp add: word_less_nat_alt)
  then have "unat (sc_run sc + 1) = unat (sc_run sc) + 1" by (rule less_max_word)
  then have "scan_bytes lim al (sc\<lparr>sc_run := sc_run sc + 1\<rparr>) s =
      (length s, al, sc\<lparr>sc_run := sc_run sc + 1 + of_nat (length s)\<rparr>)"
    using Cons.IH [of "sc\<lparr>sc_run := sc_run sc + 1\<rparr>"] Cons.prems by simp
  moreover have "scan_byte lim al sc c = (True, al, sc\<lparr>sc_run := sc_run sc + 1\<rparr>)"
    using Cons.prems \<open>unat (sc_run sc) < unat (lim_scalar lim)\<close>
    by (auto simp: scan_byte_def scan_plain_def scalar_byte_def ucast_eq_unat)
  ultimately show ?case by (simp add: ac_simps)
qed simp

lemma costs_string:
  assumes "string_body s"
  shows "costs lim (34 # s @ [34]) 0 1 (length s) 0"
  unfolding costs_def
proof (intro allI impI, elim conjE)
  fix sc
  assume a: "sc_state sc = JB_SCAN_GAP" "scan_ok lim sc" "unat (sc_values sc) + 1 \<le> unat (lim_values lim)"
  have v: "sc_values sc \<noteq> lim_values lim" using a(3) by auto
  let ?sc = "sc\<lparr>sc_values := sc_values sc + 1, sc_run := 0, sc_state := JB_SCAN_STRING\<rparr>"
  let ?sc' = "?sc\<lparr>sc_run := of_nat (length s), sc_copied := sc_copied sc + of_nat (length s), sc_state := JB_SCAN_GAP\<rparr>"
  have "scan_bytes lim [] ?sc s = (length s, [], ?sc\<lparr>sc_run := of_nat (length s)\<rparr>)"
    using scan_bytes_body [OF assms, of ?sc lim "[]"] by simp
  then have "scan_bytes lim [] sc (34 # s @ [34]) = (length s + 2, [], ?sc')"
    using a(1) v by (simp add: scan_byte_def scan_plain_def scan_bytes_append)
  moreover have "grown lim sc ?sc' 1 (length s) 0"
    using value_more(2) [of "sc_values sc" "lim_values lim"] a(2) v by (simp add: grown_def scan_ok_def)
  ultimately show "\<exists>sc'. scan_bytes lim [] sc (34 # s @ [34]) = (length (34 # s @ [34]), [], sc') \<and> grown lim sc sc' 1 (length s) 0"
    by auto
qed

lemma costs_scalar:
  assumes "s \<noteq> []" "list_all scalar_byte s" "length s \<le> unat (lim_scalar lim)"
  shows "costs lim s 0 1 0 0"
  unfolding costs_def
proof (intro allI impI, elim conjE)
  fix sc
  assume a: "sc_state sc = JB_SCAN_GAP" "scan_ok lim sc" "unat (sc_values sc) + 1 \<le> unat (lim_values lim)"
  have v: "sc_values sc \<noteq> lim_values lim" using a(3) by auto
  let ?sc = "sc\<lparr>sc_values := sc_values sc + 1, sc_run := 0, sc_state := JB_SCAN_SCALAR\<rparr>"
  obtain c r where s: "s = c # r" using assms(1) by (cases s) auto
  have "unat (lim_scalar lim) \<noteq> 0" using assms(3) s by auto
  then have "scan_byte lim [] sc c = scan_byte lim [] ?sc c"
    using assms(2) a(1) v by (auto simp: s scan_byte_def scan_plain_def scalar_byte_def)
  then have "scan_bytes lim [] sc s = scan_bytes lim [] ?sc s" by (simp add: s)
  then have "scan_bytes lim [] sc s = (length s, [], ?sc\<lparr>sc_run := of_nat (length s)\<rparr>)"
    using scan_bytes_scalar [OF assms(2), of ?sc lim "[]"] assms(3) by simp
  moreover have "grown lim sc (?sc\<lparr>sc_run := of_nat (length s)\<rparr>) 1 0 0"
    using value_more(2) [of "sc_values sc" "lim_values lim"] a(2) v by (simp add: grown_def scan_ok_def)
  ultimately show "\<exists>sc'. scan_bytes lim [] sc s = (length s, [], sc') \<and> grown lim sc sc' 1 0 0" by blast
qed

lemma costs_Nil: "costs lim [] d 0 0 0"
  by (auto simp: costs_def grown_def)

lemma scan_bytes_gap:
  "gap g \<Longrightarrow> sc_state sc = JB_SCAN_GAP \<or> sc_state sc = JB_SCAN_SCALAR \<Longrightarrow>
     scan_bytes lim al sc g = (length g, al, if g = [] then sc else sc\<lparr>sc_state := JB_SCAN_GAP\<rparr>)"
proof (induction g arbitrary: sc)
  case (Cons c g)
  have "scan_byte lim al sc c = (True, al, sc\<lparr>sc_state := JB_SCAN_GAP\<rparr>)"
    using Cons.prems by (auto simp: gap_def scan_byte_def scan_plain_def)
  then show ?case using Cons.IH [of "sc\<lparr>sc_state := JB_SCAN_GAP\<rparr>"] Cons.prems(1) by (simp add: gap_def)
qed simp

lemma costs_gap: "gap g \<Longrightarrow> costs lim g d 0 0 0"
  by (auto simp: costs_def grown_def scan_bytes_gap)

lemma costs_spaced:
  assumes "gap g" "gap h" "costs lim t d v c m"
  shows "costs lim (g @ t @ h) d v c m"
  unfolding costs_def
proof (intro allI impI, elim conjE)
  fix sc
  assume a: "sc_state sc = JB_SCAN_GAP" "scan_ok lim sc" "unat (sc_depth sc) + d \<le> unat (lim_depth lim)"
    "unat (sc_values sc) + v \<le> unat (lim_values lim)"
    "counted lim \<and> sc_depth sc \<noteq> 0 \<longrightarrow> unat (sc_members sc (sc_depth sc - 1)) + m \<le> unat (lim_members lim)"
  obtain sc1 where sc1: "scan_bytes lim [] sc t = (length t, [], sc1)" "grown lim sc sc1 v c m"
    using a(5) by (auto intro: costsD [OF assms(3) a(1-4)])
  have "(if g = [] then sc else sc\<lparr>sc_state := JB_SCAN_GAP\<rparr>) = sc" using a(1) by simp
  then have before: "scan_bytes lim [] sc g = (length g, [], sc)" using scan_bytes_gap [OF assms(1)] a(1) by simp
  have after: "scan_bytes lim [] sc1 h = (length h, [], if h = [] then sc1 else sc1\<lparr>sc_state := JB_SCAN_GAP\<rparr>)"
    using scan_bytes_gap [OF assms(2)] sc1(2) by (auto simp: grown_def)
  have "grown lim sc (if h = [] then sc1 else sc1\<lparr>sc_state := JB_SCAN_GAP\<rparr>) v c m" using sc1(2) by (simp add: grown_def)
  then show "\<exists>sc'. scan_bytes lim [] sc (g @ t @ h) = (length (g @ t @ h), [], sc') \<and> grown lim sc sc' v c m"
    by (simp add: scan_bytes_append before sc1(1) after)
qed

text \<open>Two texts with a comma between them, and a key and a value with a colon.\<close>

lemma costs_comma:
  assumes "costs lim a d v c m" "costs lim b d v' c' m'"
  shows "costs lim (a @ ch CHR '','' # b) d (v + v') (c + c') (m + m')"
  unfolding costs_def
proof (intro allI impI, elim conjE)
  fix sc
  assume a: "sc_state sc = JB_SCAN_GAP" "scan_ok lim sc" "unat (sc_depth sc) + d \<le> unat (lim_depth lim)"
    "unat (sc_values sc) + (v + v') \<le> unat (lim_values lim)"
    "counted lim \<and> sc_depth sc \<noteq> 0 \<longrightarrow> unat (sc_members sc (sc_depth sc - 1)) + (m + m') \<le> unat (lim_members lim)"
  obtain sc1 where sc1: "scan_bytes lim [] sc a = (length a, [], sc1)" "grown lim sc sc1 v c m" "scan_ok lim sc1"
  proof (rule costsD [OF assms(1) a(1-3)])
    show "unat (sc_values sc) + v \<le> unat (lim_values lim)" using a(4) by simp
    show "unat (sc_members sc (sc_depth sc - 1)) + m \<le> unat (lim_members lim)" if "counted lim" "sc_depth sc \<noteq> 0"
      using that a(5) by simp
  qed
  let ?sc = "sc1\<lparr>sc_state := JB_SCAN_GAP\<rparr>"
  have top: "sc_depth sc \<noteq> 0 \<Longrightarrow> sc_depth sc - 1 < sc_depth sc"
    by (simp add: word_less_nat_alt unat_minus_one unat_gt_0)
  have sc_state_sc: "sc_state ?sc = JB_SCAN_GAP" by simp
  have "scan_ok lim ?sc" using sc1(3) by (simp add: scan_ok_def)
  moreover have "counted lim \<Longrightarrow> sc_depth ?sc \<noteq> 0 \<Longrightarrow> unat (sc_members ?sc (sc_depth ?sc - 1)) + m' \<le> unat (lim_members lim)"
    using sc1(2) a(5) top by (simp add: grown_def)
  moreover have "unat (sc_depth ?sc) + d \<le> unat (lim_depth lim)" "unat (sc_values ?sc) + v' \<le> unat (lim_values lim)"
    using a(3,4) sc1(2) by (simp_all add: grown_def)
  ultimately obtain sc2 where sc2: "scan_bytes lim [] ?sc b = (length b, [], sc2)" "grown lim ?sc sc2 v' c' m'"
    using costsD [OF assms(2), of ?sc] by (metis sc_state_sc)
  have "scan_byte lim [] sc1 44 = (True, [], ?sc)"
    using sc1(2) by (auto simp: grown_def scan_byte_def scan_plain_def)
  then have "scan_bytes lim [] sc (a @ ch CHR '','' # b) = (length (a @ ch CHR '','' # b), [], sc2)"
    using sc1(1) sc2(1) by (simp add: scan_bytes_append)
  moreover have "grown lim sc sc2 (v + v') (c + c') (m + m')" using sc1(2) sc2(2) by (auto simp: grown_def)
  ultimately show "\<exists>sc'. scan_bytes lim [] sc (a @ ch CHR '','' # b) = (length (a @ ch CHR '','' # b), [], sc') \<and>
      grown lim sc sc' (v + v') (c + c') (m + m')" by blast
qed

lemma below_top: "d \<noteq> 0 \<Longrightarrow> d - 1 < d" for d :: u64
  by (simp add: word_less_nat_alt unat_minus_one unat_gt_0)

lemma costs_member:
  assumes "costs lim a 0 1 n 0" "costs lim b d v c 0"
  shows "costs lim (a @ ch CHR '':'' # b) d (1 + v) (n + c) 1"
  unfolding costs_def
proof (intro allI impI, elim conjE)
  fix sc
  assume pre: "sc_state sc = JB_SCAN_GAP" "scan_ok lim sc" "unat (sc_depth sc) + d \<le> unat (lim_depth lim)"
    "unat (sc_values sc) + (1 + v) \<le> unat (lim_values lim)"
    "counted lim \<and> sc_depth sc \<noteq> 0 \<longrightarrow> unat (sc_members sc (sc_depth sc - 1)) + 1 \<le> unat (lim_members lim)"
  obtain sc1 where sc1: "scan_bytes lim [] sc a = (length a, [], sc1)"
      "grown lim sc sc1 1 n 0" "scan_ok lim sc1"
  proof (rule costsD [OF assms(1) pre(1,2)])
    show "unat (sc_depth sc) + 0 \<le> unat (lim_depth lim)" "unat (sc_values sc) + 1 \<le> unat (lim_values lim)" using pre(3,4) by simp_all
    show "unat (sc_members sc (sc_depth sc - 1)) + 0 \<le> unat (lim_members lim)" if "counted lim" "sc_depth sc \<noteq> 0"
      using that pre(5) by simp
  qed
  let ?d = "sc_depth sc1 - 1"
  define sc2 where "sc2 =
    (if counted lim \<and> sc_depth sc1 \<noteq> 0 then sc1\<lparr>sc_members := (sc_members sc1)(?d := sc_members sc1 ?d + 1), sc_state := JB_SCAN_GAP\<rparr>
     else sc1\<lparr>sc_state := JB_SCAN_GAP\<rparr>)"
  have room: "unat (sc_members sc1 ?d) + 1 \<le> unat (lim_members lim)" if "counted lim" "sc_depth sc1 \<noteq> 0"
    using that pre(5) sc1(2) below_top by (simp add: grown_def)
  have room': "sc_members sc1 ?d \<le> lim_members lim" "sc_members sc1 ?d \<noteq> lim_members lim"
    "unat (sc_members sc1 ?d + 1) = unat (sc_members sc1 ?d) + 1" if "counted lim" "sc_depth sc1 \<noteq> 0"
  proof -
    show l: "sc_members sc1 ?d \<le> lim_members lim" and e: "sc_members sc1 ?d \<noteq> lim_members lim"
      using room [OF that] by (auto simp: word_le_nat_alt)
    show "unat (sc_members sc1 ?d + 1) = unat (sc_members sc1 ?d) + 1" by (rule value_more(2) [OF l e])
  qed
  have "scan_byte lim [] sc1 58 = (True, [], sc2)"
    using sc1(2) room' by (auto simp: grown_def scan_byte_def scan_plain_def sc2_def Let_def)
  then have colon: "scan_bytes lim [] sc1 [58] = (1, [], sc2)" by simp
  have st2: "sc_state sc2 = JB_SCAN_GAP" by (simp add: sc2_def)
  have ok2: "scan_ok lim sc2" using scan_bytes_ok(1) [OF sc1(3) colon] .
  obtain sc3 where sc3: "scan_bytes lim [] sc2 b = (length b, [], sc3)" "grown lim sc2 sc3 v c 0"
  proof (rule costsD [OF assms(2) st2 ok2])
    show "unat (sc_depth sc2) + d \<le> unat (lim_depth lim)" "unat (sc_values sc2) + v \<le> unat (lim_values lim)"
      using pre(3,4) sc1(2) by (simp_all add: grown_def sc2_def)
    show "unat (sc_members sc2 (sc_depth sc2 - 1)) + 0 \<le> unat (lim_members lim)" if "counted lim" "sc_depth sc2 \<noteq> 0"
      using ok2 that below_top [of "sc_depth sc2"] by (simp add: scan_ok_def word_le_nat_alt)
  qed
  have "scan_bytes lim [] sc1 ([58] @ b) = (let (m, al, sc) = scan_bytes lim [] sc2 b in (1 + m, al, sc))"
    unfolding scan_bytes_append colon by simp
  then have tail: "scan_bytes lim [] sc1 ([58] @ b) = (Suc (length b), [], sc3)" using sc3(1) by simp
  have whole: "a @ ch CHR '':'' # b = a @ [58] @ b" by simp
  have "scan_bytes lim [] sc (a @ ch CHR '':'' # b) = (length (a @ ch CHR '':'' # b), [], sc3)"
    by (simp only: whole scan_bytes_append [of lim "[]" sc a "[58] @ b"] sc1(1) tail Let_def prod.case) simp
  moreover have "grown lim sc sc3 (1 + v) (n + c) 1"
    using sc1(2) sc3(2) room' by (auto simp: grown_def sc2_def)
  ultimately show "\<exists>sc'. scan_bytes lim [] sc (a @ ch CHR '':'' # b) = (length (a @ ch CHR '':'' # b), [], sc') \<and>
      grown lim sc sc' (1 + v) (n + c) 1" by blast
qed

lemma costs_container:
  assumes "costs lim t d v c m" "counted lim \<longrightarrow> m \<le> unat (lim_members lim)"
    "a = ch CHR ''{'' \<or> a = ch CHR ''[''" "b = ch CHR ''}'' \<or> b = ch CHR '']''"
  shows "costs lim (a # t @ [b]) (d + 1) (v + 1) c 0"
  unfolding costs_def
proof (intro allI impI, elim conjE)
  fix sc
  assume pre: "sc_state sc = JB_SCAN_GAP" "scan_ok lim sc" "unat (sc_depth sc) + (d + 1) \<le> unat (lim_depth lim)"
    "unat (sc_values sc) + (v + 1) \<le> unat (lim_values lim)"
  have lim: "unat (sc_depth sc) \<noteq> unat (lim_depth lim)" "sc_values sc \<noteq> lim_values lim" using pre(3,4) by auto
  obtain e al1 sc1 where opn: "jb_scan_open [] sc (lim_members lim) = (e, al1, sc1)" by (metis surj_pair)
  have e: "e = None" "al1 = []" using jb_scan_open_spec(3) [OF pre(2) lim opn] by simp_all
  note o1 = jb_scan_open_spec(1,4) [OF pre(2) lim opn]
  have s1: "scan_ok lim sc1" "unat (sc_depth sc1) = unat (sc_depth sc) + 1" "unat (sc_values sc1) = unat (sc_values sc) + 1"
     "sc_copied sc1 = sc_copied sc" "sc_state sc1 = JB_SCAN_GAP" "\<forall>k < sc_depth sc. sc_members sc1 k = sc_members sc k"
     "counted lim \<longrightarrow> sc_members sc1 (sc_depth sc) = 0"
    using o1 e by blast+
  have top: "sc_depth sc1 - 1 = sc_depth sc"
    using s1(2) by (simp add: word_unat_eq_iff unat_minus_one)
  have "scan_plain lim [] sc a = (True, [], sc1)"
    using assms(3) lim opn e unfolding scan_plain_def ucast_eq_unat by simp
  then have b1: "scan_byte lim [] sc a = (True, [], sc1)" using pre(1) by (simp add: scan_byte_def)
  obtain sc2 where sc2: "scan_bytes lim [] sc1 t = (length t, [], sc2)" "grown lim sc1 sc2 v c m"
  proof (rule costsD [OF assms(1) s1(5,1)])
    show "unat (sc_depth sc1) + d \<le> unat (lim_depth lim)" "unat (sc_values sc1) + v \<le> unat (lim_values lim)"
      using pre(3,4) s1(2,3) by simp_all
    show "unat (sc_members sc1 (sc_depth sc1 - 1)) + m \<le> unat (lim_members lim)" if "counted lim" "sc_depth sc1 \<noteq> 0"
      using that assms(2) s1(7) by (simp add: top)
  qed
  let ?sc' = "sc2\<lparr>sc_depth := sc_depth sc, sc_state := JB_SCAN_GAP\<rparr>"
  have d2: "sc_depth sc2 = sc_depth sc1" using sc2(2) by (simp add: grown_def)
  have "sc_depth sc2 > 0" using s1(2) d2 by (simp add: word_less_nat_alt)
  then have "scan_byte lim [] sc2 b = (True, [], ?sc')"
    using assms(4) sc2(2) d2 top by (auto simp: grown_def scan_byte_def scan_plain_def)
  then have "scan_bytes lim [] sc (a # t @ [b]) = (length (a # t @ [b]), [], ?sc')"
    using b1 sc2(1) by (simp add: scan_bytes_append)
  moreover have "grown lim sc ?sc' (v + 1) c 0"
  proof -
    have "k < sc_depth sc1 \<and> k \<noteq> sc_depth sc" if "k < sc_depth sc" for k
      using that s1(2) by (auto simp: word_less_nat_alt)
    then show ?thesis using sc2(2) s1 top by (auto simp: grown_def)
  qed
  ultimately show "\<exists>sc'. scan_bytes lim [] sc (a # t @ [b]) = (length (a # t @ [b]), [], sc') \<and> grown lim sc sc' (v + 1) c 0" by blast
qed

lemma costs_list:
  "list_all2 (\<lambda>x t. costs lim t (d x) (v x) (c x) (m x)) xs ts \<Longrightarrow>
     costs lim (joined_by (ch CHR '','') ts) (foldr max (map d xs) 0) (sum_list (map v xs)) (sum_list (map c xs)) (sum_list (map m xs))"
proof (induction xs arbitrary: ts rule: induct_list012)
  case (2 x)
  then show ?case by (auto simp: list_all2_Cons1)
next
  case (3 x y zs)
  obtain t u us where ts: "ts = t # u # us" "costs lim t (d x) (v x) (c x) (m x)"
      "list_all2 (\<lambda>x t. costs lim t (d x) (v x) (c x) (m x)) (y # zs) (u # us)"
    using "3.prems" by (auto simp: list_all2_Cons1)
  let ?d = "foldr max (map d (x # y # zs)) 0"
  have "costs lim t ?d (v x) (c x) (m x)" using ts(2) by (rule costs_mono) simp
  moreover have "costs lim (joined_by (ch CHR '','') (u # us)) ?d (sum_list (map v (y # zs)))
      (sum_list (map c (y # zs))) (sum_list (map m (y # zs)))"
    by (rule costs_mono [OF "3.IH"(2) [OF ts(3)]]) simp
  ultimately show ?case using costs_comma by (simp add: ts(1))
qed (simp add: costs_Nil)

lemma costs_says: "says j t \<Longrightarrow> json_ok lim j \<Longrightarrow> costs lim t (json_depth j) (json_values j) (json_copied j) 0"
proof (induction rule: says.induct)
  case (says_array js ts)
  have "list_all2 (\<lambda>j t. costs lim t (json_depth j) (json_values j) (json_copied j) 0) js ts"
    by (rule list.rel_mono_strong [OF says_array.IH]) (use says_array.prems in \<open>auto simp: list_all_iff\<close>)
  from costs_container [OF costs_list [OF this], of "ch CHR ''[''" "ch CHR '']''"] show ?case by simp
next
  case (says_object ms ts)
  have "list_all2 (\<lambda>m t. costs lim t (json_depth (snd m)) (1 + json_values (snd m)) (length (fst m) + json_copied (snd m)) 1) ms ts"
  proof (rule list.rel_mono_strong [OF says_object.IH])
    fix m t
    assume m: "m \<in> set ms" and "\<exists>kt jt. (says (JStr (fst m)) kt \<and> (json_ok lim (JStr (fst m)) \<longrightarrow>
        costs lim kt (json_depth (JStr (fst m))) (json_values (JStr (fst m))) (json_copied (JStr (fst m))) 0)) \<and>
      (says (snd m) jt \<and> (json_ok lim (snd m) \<longrightarrow> costs lim jt (json_depth (snd m)) (json_values (snd m)) (json_copied (snd m)) 0)) \<and>
      t = kt @ ch CHR '':'' # jt"
    moreover have "string_body (fst m)" "json_ok lim (snd m)" using says_object.prems m by (auto simp: list_all_iff)
    ultimately show "costs lim t (json_depth (snd m)) (1 + json_values (snd m)) (length (fst m) + json_copied (snd m)) 1"
      using costs_member by fastforce
  qed
  from costs_list [OF this] have "costs lim (joined_by (ch CHR '','') ts) (foldr max (map (json_depth \<circ> snd) ms) 0)
      (sum_list (map (\<lambda>m. 1 + json_values (snd m)) ms)) (sum_list (map (\<lambda>m. length (fst m) + json_copied (snd m)) ms)) (length ms)"
    by (simp add: comp_def sum_list_triv)
  from costs_container [OF this, of "ch CHR ''{''" "ch CHR ''}''"] says_object.prems show ?case
    by (simp add: split_def comp_def)
next
  case (says_empty_array g)
  from costs_container [OF costs_gap [OF says_empty_array(1)], of lim "ch CHR ''[''" "ch CHR '']''" 0] show ?case by simp
next
  case (says_empty_object g)
  from costs_container [OF costs_gap [OF says_empty_object(1)], of lim "ch CHR ''{''" "ch CHR ''}''" 0] show ?case by simp
qed (simp_all add: costs_string [simplified] costs_scalar [simplified] costs_spaced)

section \<open>Properties\<close>

text \<open>
  It does not matter in which pieces a text arrives: scanning a piece and then the next gives the place, the allocations and
  the state that scanning both at once gives, whether the scan stops or not.
\<close>

theorem scan_in_pieces:
  "jb_scan lim al sc (a @ b) =
     (let (n, al, sc) = jb_scan lim al sc a
      in if n < length a then (n, al, sc) else let (m, al, sc) = jb_scan lim al sc b in (length a + m, al, sc))"
  unfolding jb_scan_bytes by (rule scan_bytes_append)

text \<open>
  The search for quotes and backslashes is only a short cut: the scan is the automaton that takes each byte on its own.
\<close>

theorem scan_is_automaton: "jb_scan lim al sc data = scan_bytes lim al sc data"
  by (rule jb_scan_bytes)

text \<open>
  With \<open>UINT32_MAX\<close> for numbers and literals, which \<^verbatim>\<open>jb.h\<close> calls no limit, a scan still stops at one of so many bytes.
\<close>

lemma scan_stops_unlimited:
  assumes "lim_scalar lim = UINT32_MAX" "sc_state sc = JB_SCAN_SCALAR" "sc_run sc = 0xFFFFFFFF" "scalar_byte c"
  shows "jb_scan lim al sc (c # s) = (0, al, sc)"
proof -
  have "sc_run sc = ucast (lim_scalar lim)" using assms(1,3) by (simp add: UINT32_MAX_def)
  then have "scan_byte lim al sc c = (False, al, sc)"
    using assms(2,4) by (auto simp: scan_byte_def scan_plain_def scalar_byte_def)
  then show ?thesis by (simp add: jb_scan_bytes)
qed

text \<open>
  C31.  A scan never passes a limit, in whatever pieces the text arrives and whether or not memory lasts.  It never counts a
  member outside its storage: it writes nothing beyond the storage it has in the end, and nothing at all where members are
  not limited, where it has none.  And while memory lasts it stops only before a byte that would pass a limit: a bracket that
  opens, a quote, a colon where members are limited, or a byte of a number or literal; never within a string nor at a comma, a
  closing bracket or a gap.  (\<open>UINT32_MAX\<close> is one more limit for numbers and literals, although \<^verbatim>\<open>jb.h\<close> calls it none.)
\<close>

theorem scan_keeps_limits:
  assumes "scan_ok lim sc" "jb_scan lim al sc data = (n, al', sc')"
  shows "scan_ok lim sc' \<and> in_storage lim sc sc' \<and> n \<le> length data \<and>
    (al = [] \<and> n < length data \<longrightarrow> at_limit lim sc' (data ! n))"
proof -
  have r: "scan_bytes lim al sc data = (n, al', sc')" using assms(2) by (simp add: jb_scan_bytes)
  show ?thesis using scan_bytes_ok [OF assms(1) r] scan_bytes_le [OF r] by blast
qed

theorem scan_keeps_limits_witness:
  "let lim = \<lparr>lim_depth = 1, lim_values = 9, lim_members = 9, lim_scalar = 9\<rparr>
   in fst (jb_scan lim [] scan_zero [91, 91]) = 1 \<and> at_limit lim (snd (snd (jb_scan lim [] scan_zero [91, 91]))) 91"
proof -
  let ?lim = "\<lparr>lim_depth = 1, lim_values = 9, lim_members = 9, lim_scalar = 9\<rparr>"
  obtain n al' sc' where r: "jb_scan ?lim [] scan_zero [91, 91] = (n, al', sc')" by (metis surj_pair)
  have "fst (jb_scan ?lim [] scan_zero [91, 91]) = 1" by code_simp
  then have n: "n = 1" using r by simp
  have "scan_ok ?lim scan_zero" by (simp add: scan_ok_def scan_zero_def)
  from scan_keeps_limits [OF this r] show ?thesis using r n by simp
qed

text \<open>
  C32.  On any text of a value that keeps to the limits, however it is spaced, the scan goes to the end, counts its values and
  keys and the bytes of its strings, and is back where it was: so a text that a parser may take is never refused.
\<close>

theorem scan_measures_value:
  assumes "says j t" "json_ok lim j" "json_depth j \<le> unat (lim_depth lim)" "json_values j \<le> unat (lim_values lim)"
  shows "case jb_scan lim [] (jb_scan_reset sc) t of
    (n, al, sc') \<Rightarrow> n = length t \<and> sc_depth sc' = 0 \<and> unat (sc_values sc') = json_values j \<and>
       sc_copied sc' = of_nat (json_copied j)"
proof -
  have "sc_state (jb_scan_reset sc) = JB_SCAN_GAP" "scan_ok lim (jb_scan_reset sc)"
    by (simp_all add: jb_scan_reset_def scan_zero_def scan_ok_def)
  from costsD [OF costs_says [OF assms(1,2)] this] assms(3,4) obtain sc' where
    "scan_bytes lim [] (jb_scan_reset sc) t = (length t, [], sc')"
    "grown lim (jb_scan_reset sc) sc' (json_values j) (json_copied j) 0"
    by (auto simp: jb_scan_reset_def scan_zero_def)
  then show ?thesis by (simp add: jb_scan_bytes grown_def jb_scan_reset_def scan_zero_def)
qed

text \<open>The text \<open>{ "a" : [ 1, "\"" ] }\<close>, with an end of line after the comma.\<close>

theorem scan_measures_value_witness:
  "unat (sc_values (snd (snd (jb_scan \<lparr>lim_depth = 2, lim_values = 9, lim_members = 9, lim_scalar = 9\<rparr> []
     (jb_scan_reset scan_zero)
     [123, 32, 34, 97, 34, 32, 58, 9, 91, 32, 49, 44, 13, 10, 34, 92, 34, 34, 32, 93, 32, 125])))) = 5"
proof -
  let ?lim = "\<lparr>lim_depth = 2, lim_values = 9, lim_members = 9, lim_scalar = 9\<rparr>"
  let ?j = "JObj [([97], JArr [JScalar [49], JStr [92, 34]])]"
  let ?t = "[123, 32, 34, 97, 34, 32, 58, 9, 91, 32, 49, 44, 13, 10, 34, 92, 34, 34, 32, 93, 32, 125] :: bytes"
  have one: "says (JScalar [49]) ([32] @ [49] @ [])" by (rule says_spaced) (simp_all add: gap_def says_scalar)
  have two: "says (JStr [92, 34]) ([13, 10] @ (34 # [92, 34] @ [34]) @ [32])"
    by (rule says_spaced) (simp_all only: gap_def says_string, simp_all)
  have arr: "says (JArr [JScalar [49], JStr [92, 34]]) [91, 32, 49, 44, 13, 10, 34, 92, 34, 34, 32, 93]"
    using says_array [of "[JScalar [49], JStr [92, 34]]" "[[32, 49], [13, 10, 34, 92, 34, 34, 32]]"] one two by simp
  have arr': "says (JArr [JScalar [49], JStr [92, 34]]) ([9] @ [91, 32, 49, 44, 13, 10, 34, 92, 34, 34, 32, 93] @ [32])"
    by (rule says_spaced [OF _ _ arr]) (simp_all add: gap_def)
  have key: "says (JStr [97]) ([32] @ (34 # [97] @ [34]) @ [32])"
    by (rule says_spaced [OF _ _ says_string]) (simp_all add: gap_def)
  have mem: "\<exists>kt jt. says (JStr (fst m)) kt \<and> says (snd m) jt \<and> t = kt @ ch CHR '':'' # jt"
    if "m = ([97], JArr [JScalar [49], JStr [92, 34]])"
      "t = [32, 34, 97, 34, 32, 58, 9, 91, 32, 49, 44, 13, 10, 34, 92, 34, 34, 32, 93, 32]" for m t
    using key arr' that
    by (intro exI [of _ "[32, 34, 97, 34, 32]"] exI [of _ "[9, 91, 32, 49, 44, 13, 10, 34, 92, 34, 34, 32, 93, 32]"]) simp
  have "says ?j (ch CHR ''{'' # joined_by (ch CHR '','') [[32, 34, 97, 34, 32, 58, 9, 91, 32, 49, 44, 13, 10, 34, 92, 34, 34, 32, 93, 32]] @ [ch CHR ''}''])"
    by (rule says_object) (simp only: list_all2_Cons list_all2_Nil mem [OF refl refl] simp_thms)
  then have t: "says ?j ?t" by simp
  have "json_ok ?lim ?j" by code_simp
  moreover have "json_depth ?j \<le> unat (lim_depth ?lim)" "json_values ?j \<le> unat (lim_values ?lim)" "json_values ?j = 5"
    by simp_all
  ultimately show ?thesis using scan_measures_value [of ?j ?t ?lim scan_zero] t by (simp add: split_def)
qed

end
