(* ===== verification/Datauri.thy ===== *)
theory Datauri
  imports Cstr_View Util
begin

text \<open>
  Data URIs of RFC 2397 (\<^verbatim>\<open>src/datauri.c\<close>, \<^verbatim>\<open>src/datauri.h\<close>): the check of a URI and the decoding of base64 and
  percent-encoded data.

  The lemmas show that the check accepts exactly the URIs whose data is well formed, that the size it announces is that of the
  decoded data, and that decoding undoes the encodings of RFC 4648 and RFC 3986.
\<close>

unbundle bit_operations_syntax

section \<open>The check\<close>

record datauri =
  du_encoded :: cstr_view
  du_size :: nat
  du_base64 :: bool

definition datauri_digit :: "byte \<Rightarrow> u32" where
  "datauri_digit c =
     (let u = ucast c :: u32
      in if u - 65 < 26 then u - 65
         else if u - 97 < 26 then u - 97 + 26
         else if u - 48 < 10 then u - 48 + 52
         else if u = 43 then 62 else if u = 47 then 63 else 64)"

text \<open>The loop over the padding: the length without it, and its length.\<close>

fun pad_loop :: "bytes \<Rightarrow> nat \<Rightarrow> nat \<Rightarrow> nat \<times> nat" where
  "pad_loop s 0 pad = (0, pad)"
| "pad_loop s (Suc n) pad = (if s ! n = 61 \<and> pad < 2 then pad_loop s n (pad + 1) else (Suc n, pad))"

definition datauri_parse_base64 :: "datauri \<Rightarrow> errno option \<times> datauri" where
  "datauri_parse_base64 d =
     (let s = du_encoded d;
          (n, pad) = pad_loop s (length s) 0
      in if n mod 4 = 1 \<or> (pad \<noteq> 0 \<and> (n + pad) mod 4 \<noteq> 0) then (Some EINVAL, d)
         else if list_ex (\<lambda>i. datauri_digit (s ! i) > 63) [0..<n] then (Some EINVAL, d)
         else (None, d\<lparr>du_encoded := take n s, du_size := n div 4 * 3 + (if n mod 4 \<noteq> 0 then n mod 4 - 1 else 0)\<rparr>))"

function percent_size :: "bytes \<Rightarrow> nat \<Rightarrow> nat \<Rightarrow> nat option" where
  "percent_size s i count =
     (if i < length s then
        if s ! i \<noteq> 37 then percent_size s (i + 1) (count + 1)
        else if length s - i < 3 then None
        else if util_hex_digit (s ! (i + 1)) > 15 \<or> util_hex_digit (s ! (i + 2)) > 15 then None
        else percent_size s (i + 3) (count + 1)
      else Some count)"
  by pat_completeness auto
termination by (relation "measure (\<lambda>(s, i, count). length s - i)") auto

declare percent_size.simps [simp del]

definition datauri_parse_percent :: "datauri \<Rightarrow> errno option \<times> datauri" where
  "datauri_parse_percent d =
     (case percent_size (du_encoded d) 0 0 of None \<Rightarrow> (Some EINVAL, d) | Some n \<Rightarrow> (None, d\<lparr>du_size := n\<rparr>))"

definition datauri_init :: "datauri \<Rightarrow> cstr_view \<Rightarrow> errno option \<times> datauri" where
  "datauri_init d uri =
     (let scheme = ascii ''data:'';
          base64 = ascii '';base64'';
          rest = cstr_view_slice uri (length scheme) SIZE_MAX
      in if \<not> cstr_view_starts_case uri scheme then (Some EINVAL, d)
         else
           case cstr_view_cut rest (ch CHR '','') of
             None \<Rightarrow> (Some EINVAL, d)
           | Some (media, rest) \<Rightarrow>
               let d = \<lparr>du_encoded = rest, du_size = 0,
                        du_base64 = (length media \<ge> length base64 \<and>
                          cstr_view_equal_case (cstr_view_slice media (length media - length base64) SIZE_MAX) base64)\<rparr>
               in if du_base64 d then datauri_parse_base64 d else datauri_parse_percent d)"

section \<open>Decoding\<close>

text \<open>The bytes written to \<^verbatim>\<open>out\<close>.\<close>

function decode_percent_loop :: "bytes \<Rightarrow> nat \<Rightarrow> bytes" where
  "decode_percent_loop s i =
     (if i < length s then
        if s ! i \<noteq> 37 then s ! i # decode_percent_loop s (i + 1)
        else ucast (push_bit 4 (util_hex_digit (s ! (i + 1))) OR util_hex_digit (s ! (i + 2))) # decode_percent_loop s (i + 3)
      else [])"
  by pat_completeness auto
termination by (relation "measure (\<lambda>(s, i). length s - i)") auto

declare decode_percent_loop.simps [simp del]

definition datauri_decode_percent :: "datauri \<Rightarrow> bytes" where
  "datauri_decode_percent d = decode_percent_loop (du_encoded d) 0"

fun decode_base64_loop :: "bytes \<Rightarrow> nat \<Rightarrow> u32 \<Rightarrow> bytes \<times> u32" where
  "decode_base64_loop [] i v = ([], v)"
| "decode_base64_loop (c # s) i v =
     (let v = push_bit 6 v OR datauri_digit c
      in if i mod 4 = 3
         then let (out, v') = decode_base64_loop s (i + 1) 0 in (ucast (drop_bit 16 v) # ucast (drop_bit 8 v) # ucast v # out, v')
         else decode_base64_loop s (i + 1) v)"

definition datauri_decode_base64 :: "datauri \<Rightarrow> bytes" where
  "datauri_decode_base64 d =
     (let len = length (du_encoded d);
          (out, v) = decode_base64_loop (du_encoded d) 0 0;
          rest = len mod 4
      in if rest = 2 then out @ [ucast (drop_bit 4 v)]
         else if rest = 3 then out @ [ucast (drop_bit 10 v), ucast (drop_bit 2 v)]
         else out)"

definition datauri_decode :: "datauri \<Rightarrow> bytes" where
  "datauri_decode d = (if du_base64 d then datauri_decode_base64 d else datauri_decode_percent d)"

section \<open>The encodings\<close>

definition b64_char :: "nat \<Rightarrow> byte" where
  "b64_char k = ascii ''ABCDEFGHIJKLMNOPQRSTUVWXYZabcdefghijklmnopqrstuvwxyz0123456789+/'' ! k"

fun b64 :: "bytes \<Rightarrow> bytes" where
  "b64 [] = []"
| "b64 [x] = [b64_char (unat x div 4), b64_char (unat x mod 4 * 16)]"
| "b64 [x, y] = [b64_char (unat x div 4), b64_char (unat x mod 4 * 16 + unat y div 16), b64_char (unat y mod 16 * 4)]"
| "b64 (x # y # z # r) =
     b64_char (unat x div 4) # b64_char (unat x mod 4 * 16 + unat y div 16) # b64_char (unat y mod 16 * 4 + unat z div 64) #
     b64_char (unat z mod 64) # b64 r"

text \<open>The padding that fills the last group, which a URI may leave out.\<close>

definition b64_pad :: "bytes \<Rightarrow> bytes" where
  "b64_pad s = replicate ((3 - length s mod 3) mod 3) 61"

text \<open>Percent-encoding of some bytes, among them the percent sign; \<open>up\<close> tells which have upper-case digits.\<close>

definition upper :: "byte \<Rightarrow> byte" where
  "upper c = (if ch CHR ''a'' \<le> c \<and> c \<le> ch CHR ''z'' then c - 32 else c)"

definition percent :: "(byte \<Rightarrow> bool) \<Rightarrow> (byte \<Rightarrow> bool) \<Rightarrow> bytes \<Rightarrow> bytes" where
  "percent esc up s =
     concat (map (\<lambda>c. if c = 37 \<or> esc c then 37 # map (if up c then upper else id) (util_hex [c]) else [c]) s)"

lemma digit_char: "k < 64 \<Longrightarrow> datauri_digit (b64_char k) = of_nat k \<and> b64_char k \<noteq> 61"
proof -
  assume "k < 64"
  have "list_all (\<lambda>k. datauri_digit (b64_char k) = of_nat k \<and> b64_char k \<noteq> 61) [0..<64]" by code_simp
  with \<open>k < 64\<close> show ?thesis unfolding list_all_iff by (metis atLeastLessThan_iff le0 set_upt)
qed

lemma b64_ok: "k < 64 \<Longrightarrow> datauri_digit (b64_char k) \<le> 63 \<and> b64_char k \<noteq> 61"
  using digit_char [of k] by (auto simp: word_le_nat_alt unsigned_of_nat take_bit_nat_eq_self)

lemma digit_pad: "datauri_digit 61 = 64"
  by code_simp

lemma pad_loop_spec:
  "n \<le> length s \<Longrightarrow> pad \<le> 2 \<Longrightarrow> pad_loop s n pad = (m, p) \<Longrightarrow>
     m \<le> n \<and> p = pad + (n - m) \<and> p \<le> 2 \<and> take n s = take m s @ replicate (n - m) 61 \<and> (m > 0 \<and> p < 2 \<longrightarrow> s ! (m - 1) \<noteq> 61)"
proof (induction n arbitrary: pad)
  case (Suc n)
  show ?case
  proof (cases "s ! n = 61 \<and> pad < 2")
    case True
    then have "m \<le> n" "p = pad + 1 + (n - m)" "p \<le> 2" "take n s = take m s @ replicate (n - m) 61"
      "m > 0 \<and> p < 2 \<longrightarrow> s ! (m - 1) \<noteq> 61" using Suc.IH [of "pad + 1"] Suc.prems by auto
    moreover have "take (Suc n) s = take n s @ [61]" using Suc.prems(1) True by (simp add: take_Suc_conv_app_nth)
    ultimately show ?thesis by (simp add: Suc_diff_le replicate_append_same)
  next
    case False
    then show ?thesis using Suc.prems by auto
  qed
qed simp

text \<open>One group of four digits.\<close>

lemma shift6:
  assumes "k < 64" "unat w < 2 ^ 24"
  shows "unat (push_bit 6 w OR of_nat k :: u32) = unat w * 64 + k"
proof -
  have "take_bit 6 (of_nat k :: u32) = of_nat k" using assms(1) by (simp add: take_bit_of_nat take_bit_nat_eq_self)
  then have low: "bit (of_nat k :: u32) n \<Longrightarrow> n < 6" for n by (metis bit_take_bit_iff)
  have "push_bit 6 w AND of_nat k = 0"
  proof (rule bit_word_eqI)
    show "bit (push_bit 6 w AND of_nat k) n \<longleftrightarrow> bit (0 :: u32) n" for n
      using low [of n] by (cases "bit (of_nat k :: u32) n") (simp_all add: bit_and_iff bit_push_bit_iff)
  qed
  then have "push_bit 6 w OR of_nat k = push_bit 6 w + (of_nat k :: u32)" by (rule disjunctive_add_eq_or [symmetric])
  moreover have "push_bit 6 w = w * 64" by (simp add: push_bit_eq_mult)
  ultimately have "push_bit 6 w OR of_nat k = of_nat (unat w * 64 + k)" by simp
  moreover have "unat (of_nat m :: u32) = m" if "m < 2 ^ 32" for m
    using that by (simp add: unsigned_of_nat take_bit_nat_eq_self)
  moreover have "unat w * 64 + k < 2 ^ 32" using assms by simp
  ultimately show ?thesis by presburger
qed

lemma unat_byte: "unat (x :: byte) < 256"
  using unsigned_less [of x, where ?'a = nat] by simp

lemma byte_of: "unat (ucast (drop_bit n v) :: byte) = unat (v :: u32) div 2 ^ n mod 256"
  by (simp add: unsigned_ucast_eq unat_drop_bit_div take_bit_eq_mod)

lemma b64_sextets:
  fixes x y z :: nat
  assumes "x < 256" "y < 256" "z < 256"
  shows "x div 4 < 64" "x mod 4 * 16 < 64" "x mod 4 * 16 + y div 16 < 64" "y mod 16 * 4 < 64"
    "y mod 16 * 4 + z div 64 < 64" "z mod 64 < 64"
    "x div 4 * 64 + x mod 4 * 16 = x * 16"
    "(x div 4 * 64 + (x mod 4 * 16 + y div 16)) * 64 + y mod 16 * 4 = x * 1024 + y * 4"
    "((x div 4 * 64 + (x mod 4 * 16 + y div 16)) * 64 + (y mod 16 * 4 + z div 64)) * 64 + z mod 64 = x * 65536 + y * 256 + z"
proof -
  have d: "x div 4 < 64" "y div 16 < 16" "z div 64 < 4" "x mod 4 < 4" "y mod 16 < 16" "z mod 64 < 64"
    using assms by simp_all
  then show "x div 4 < 64" "x mod 4 * 16 < 64" "x mod 4 * 16 + y div 16 < 64" "y mod 16 * 4 < 64"
    "y mod 16 * 4 + z div 64 < 64" "z mod 64 < 64" by linarith+
  have "a * 64 + b * 16 = (a * 4 + b) * 16" "(a * 64 + (b * 16 + c)) * 64 + e * 4 = (a * 4 + b) * 1024 + (c * 16 + e) * 4"
    "((a * 64 + (b * 16 + c)) * 64 + (e * 4 + g)) * 64 + h = (a * 4 + b) * 65536 + (c * 16 + e) * 256 + (g * 64 + h)"
    for a b c e g h :: nat by (simp_all add: algebra_simps)
  then show "x div 4 * 64 + x mod 4 * 16 = x * 16"
    "(x div 4 * 64 + (x mod 4 * 16 + y div 16)) * 64 + y mod 16 * 4 = x * 1024 + y * 4"
    "((x div 4 * 64 + (x mod 4 * 16 + y div 16)) * 64 + (y mod 16 * 4 + z div 64)) * 64 + z mod 64 = x * 65536 + y * 256 + z"
    by (simp_all only: div_mult_mod_eq)
qed

lemma three_bytes:
  fixes x y z :: nat
  assumes "x < 256" "y < 256" "z < 256"
  shows "(x * 65536 + y * 256 + z) div 65536 mod 256 = x" "(x * 65536 + y * 256 + z) div 256 mod 256 = y"
    "(x * 65536 + y * 256 + z) mod 256 = z"
proof -
  have "x * 65536 + y * 256 + z = (y * 256 + z) + x * 65536" "y * 256 + z < 65536" using assms by simp_all
  then show "(x * 65536 + y * 256 + z) div 65536 mod 256 = x" using assms(1) by (simp only: div_mult_self1) simp
  have e: "x * 65536 + y * 256 + z = z + (x * 256 + y) * 256" by simp
  show "(x * 65536 + y * 256 + z) div 256 mod 256 = y" unfolding e using assms by (simp only: div_mult_self1) simp
  show "(x * 65536 + y * 256 + z) mod 256 = z" unfolding e using assms(3) by (simp only: mod_mult_self1) simp
qed

lemma group4:
  fixes x y z :: byte
  assumes "v = push_bit 6 (push_bit 6 (push_bit 6 (push_bit 6 0 OR of_nat (unat x div 4)) OR
      of_nat (unat x mod 4 * 16 + unat y div 16)) OR of_nat (unat y mod 16 * 4 + unat z div 64)) OR of_nat (unat z mod 64)"
  shows "ucast (drop_bit 16 (v :: u32)) = x" "ucast (drop_bit 8 v) = y" "ucast v = z"
proof -
  note s = b64_sextets [OF unat_byte [of x] unat_byte [of y] unat_byte [of z]]
  define v1 v2 v3 :: u32 where "v1 = push_bit 6 0 OR of_nat (unat x div 4)"
    and "v2 = push_bit 6 v1 OR of_nat (unat x mod 4 * 16 + unat y div 16)"
    and "v3 = push_bit 6 v2 OR of_nat (unat y mod 16 * 4 + unat z div 64)"
  have v1: "unat v1 = unat x div 4" unfolding v1_def using shift6 [OF s(1), of 0] by simp
  have v2: "unat v2 = unat x div 4 * 64 + (unat x mod 4 * 16 + unat y div 16)"
    unfolding v2_def using shift6 [OF s(3), of v1] v1 s(1) by simp
  have v3: "unat v3 = (unat x div 4 * 64 + (unat x mod 4 * 16 + unat y div 16)) * 64 + (unat y mod 16 * 4 + unat z div 64)"
    unfolding v3_def using shift6 [OF s(5), of v2] s(1,3) v2 by simp
  have "unat v3 < 2 ^ 24" using s(1,3,5) v3 by simp
  then have "unat v = unat v3 * 64 + unat z mod 64"
    unfolding assms v1_def [symmetric] v2_def [symmetric] v3_def [symmetric] by (rule shift6 [OF s(6)])
  then have v: "unat v = unat x * 65536 + unat y * 256 + unat z" unfolding v3 s(9) .
  have "unat (ucast (drop_bit 16 v) :: byte) = unat x" "unat (ucast (drop_bit 8 v) :: byte) = unat y"
    "unat (ucast (drop_bit 0 v) :: byte) = unat z"
    unfolding byte_of v using three_bytes [OF unat_byte [of x] unat_byte [of y] unat_byte [of z]] by simp_all
  then show "ucast (drop_bit 16 v) = x" "ucast (drop_bit 8 v) = y" "ucast v = z" by (simp_all add: word_unat_eq_iff)
qed

lemma group2:
  fixes x :: byte
  assumes "v = push_bit 6 (push_bit 6 0 OR of_nat (unat x div 4)) OR of_nat (unat x mod 4 * 16)"
  shows "ucast (drop_bit 4 (v :: u32)) = x"
proof -
  note s = b64_sextets [OF unat_byte [of x] unat_byte [of x] unat_byte [of x]]
  define v1 :: u32 where "v1 = push_bit 6 0 OR of_nat (unat x div 4)"
  have v1: "unat v1 = unat x div 4" unfolding v1_def using shift6 [OF s(1), of 0] by simp
  have "unat v = unat x div 4 * 64 + unat x mod 4 * 16"
    unfolding assms v1_def [symmetric] using shift6 [OF s(2), of v1] v1 s(1) by simp
  then have v: "unat v = unat x * 16" unfolding s(7) .
  have "unat (ucast (drop_bit 4 v) :: byte) = unat x" unfolding byte_of v using unat_byte [of x] by auto
  then show ?thesis by (simp add: word_unat_eq_iff)
qed

lemma group3:
  fixes x y :: byte
  assumes "v = push_bit 6 (push_bit 6 (push_bit 6 0 OR of_nat (unat x div 4)) OR
      of_nat (unat x mod 4 * 16 + unat y div 16)) OR of_nat (unat y mod 16 * 4)"
  shows "ucast (drop_bit 10 (v :: u32)) = x" "ucast (drop_bit 2 v) = y"
proof -
  note s = b64_sextets [OF unat_byte [of x] unat_byte [of y] unat_byte [of y]]
  define v1 v2 :: u32 where "v1 = push_bit 6 0 OR of_nat (unat x div 4)"
    and "v2 = push_bit 6 v1 OR of_nat (unat x mod 4 * 16 + unat y div 16)"
  have v1: "unat v1 = unat x div 4" unfolding v1_def using shift6 [OF s(1), of 0] by simp
  have v2: "unat v2 = unat x div 4 * 64 + (unat x mod 4 * 16 + unat y div 16)"
    unfolding v2_def using shift6 [OF s(3), of v1] v1 s(1) by simp
  have "unat v = (unat x div 4 * 64 + (unat x mod 4 * 16 + unat y div 16)) * 64 + unat y mod 16 * 4"
    unfolding assms v1_def [symmetric] v2_def [symmetric] using shift6 [OF s(4), of v2] v2 s(1,3) by simp
  then have v: "unat v = unat x * 1024 + unat y * 4" unfolding s(8) .
  have "unat (ucast (drop_bit 10 v) :: byte) = unat x" "unat (ucast (drop_bit 2 v) :: byte) = unat y"
    unfolding byte_of v using unat_byte [of x] unat_byte [of y] by auto
  then show "ucast (drop_bit 10 v) = x" "ucast (drop_bit 2 v) = y" by (simp_all add: word_unat_eq_iff)
qed

section \<open>Facts: base64\<close>

lemma base64_loop_append:
  "decode_base64_loop (a @ b) i v =
     (let (o1, v) = decode_base64_loop a i v; (o2, v) = decode_base64_loop b (i + length a) v in (o1 @ o2, v))"
  by (induction a arbitrary: i v) (simp_all add: Let_def split: prod.split)

lemma base64_loop_len:
  "length (fst (decode_base64_loop s i v)) = 3 * ((i mod 4 + length s) div 4)"
proof (induction s arbitrary: i v)
  case (Cons c s)
  show ?case
  proof (cases "i mod 4 = 3")
    case True
    then have "(i + 1) mod 4 = 0" by presburger
    then show ?thesis using True Cons [of "i + 1" 0] by (simp add: Let_def split: prod.split) (auto simp: div_add1_eq)
  next
    case False
    then have "(i + 1) mod 4 = i mod 4 + 1" by presburger
    then show ?thesis using False Cons [of "i + 1" "push_bit 6 v OR datauri_digit c"] by (simp add: Let_def)
  qed
qed simp

lemma base64_step:
  "i mod 4 \<noteq> 3 \<Longrightarrow> decode_base64_loop (c # s) i v = decode_base64_loop s (i + 1) (push_bit 6 v OR datauri_digit c)"
  "i mod 4 = 3 \<Longrightarrow> decode_base64_loop (c # s) i v =
     (let v = push_bit 6 v OR datauri_digit c; (out, v') = decode_base64_loop s (i + 1) 0
      in (ucast (drop_bit 16 v) # ucast (drop_bit 8 v) # ucast v # out, v'))"
  by (simp_all add: Let_def)

lemma base64_group:
  assumes "i mod 4 = 0"
  shows "decode_base64_loop (a # b # c # d # s) i 0 =
    (let v = push_bit 6 (push_bit 6 (push_bit 6 (push_bit 6 0 OR datauri_digit a) OR datauri_digit b) OR datauri_digit c) OR datauri_digit d;
         (out, v') = decode_base64_loop s (i + 4) 0
     in (ucast (drop_bit 16 v) # ucast (drop_bit 8 v) # ucast v # out, v'))"
proof -
  have m: "i mod 4 \<noteq> 3" "(i + 1) mod 4 \<noteq> 3" "(i + 1 + 1) mod 4 \<noteq> 3" "(i + 1 + 1 + 1) mod 4 = 3" using assms by presburger+
  have e: "i + 1 + 1 + 1 + 1 = i + 4" by simp
  show ?thesis by (subst base64_step(1) [OF m(1)], subst base64_step(1) [OF m(2)], subst base64_step(1) [OF m(3)],
        subst base64_step(2) [OF m(4)], subst e) (rule refl)
qed

lemma decode_b64:
  assumes "i mod 4 = 0" "decode_base64_loop (b64 s) i 0 = (out, v)"
  shows "s = (let rest = length (b64 s) mod 4
     in if rest = 2 then out @ [ucast (drop_bit 4 v)]
        else if rest = 3 then out @ [ucast (drop_bit 10 v), ucast (drop_bit 2 v)] else out)"
  using assms
proof (induction s arbitrary: i out v rule: b64.induct)
  case (2 x)
  note s = b64_sextets [OF unat_byte [of x] unat_byte [of x] unat_byte [of x]]
  have "i mod 4 = 0" "(i + 1) mod 4 = 1" using "2.prems"(1) by presburger+
  then have "out = []" "v = push_bit 6 (push_bit 6 0 OR of_nat (unat x div 4)) OR of_nat (unat x mod 4 * 16)"
    using "2.prems"(2) digit_char [OF s(1)] digit_char [OF s(2)] by (simp_all add: Let_def)
  then show ?case using group2 [of v x] by simp
next
  case (3 x y)
  note s = b64_sextets [OF unat_byte [of x] unat_byte [of y] unat_byte [of y]]
  have "i mod 4 = 0" "(i + 1) mod 4 = 1" "(i + 2) mod 4 = 2" using "3.prems"(1) by presburger+
  then have "out = []" "v = push_bit 6 (push_bit 6 (push_bit 6 0 OR of_nat (unat x div 4)) OR
      of_nat (unat x mod 4 * 16 + unat y div 16)) OR of_nat (unat y mod 16 * 4)"
    using "3.prems"(2) digit_char [OF s(1)] digit_char [OF s(3)] digit_char [OF s(4)] by (simp_all add: Let_def)
  then show ?case using group3 [of v x y] by simp
next
  case (4 x y z r)
  note s = b64_sextets [OF unat_byte [of x] unat_byte [of y] unat_byte [of z]]
  obtain o' v' where r: "decode_base64_loop (b64 r) (i + 4) 0 = (o', v')" by (metis surj_pair)
  have "(i + 4) mod 4 = 0" using "4.prems"(1) by presburger
  note IH = "4.IH" [OF this r]
  have "out = x # y # z # o'" "v = v'"
    using "4.prems"(2) r group4 [OF refl, of x y z] digit_char [OF s(1)] digit_char [OF s(3)] digit_char [OF s(5)] digit_char [OF s(6)]
    by (simp_all only: b64.simps base64_group [OF "4.prems"(1)] Let_def prod.case prod.inject)
  moreover have "length (b64 (x # y # z # r)) mod 4 = length (b64 r) mod 4" by simp
  ultimately show ?case using IH by (simp only: Let_def) (auto split: if_splits)
qed simp

lemma b64_chars: "list_all (\<lambda>c. datauri_digit c \<le> 63 \<and> c \<noteq> 61) (b64 s)"
proof (induction s rule: b64.induct)
  case (2 x)
  show ?case using b64_sextets [OF unat_byte [of x] unat_byte [of x] unat_byte [of x]] b64_ok by simp
next
  case (3 x y)
  show ?case using b64_sextets [OF unat_byte [of x] unat_byte [of y] unat_byte [of y]] b64_ok by simp
next
  case (4 x y z r)
  then show ?case using b64_sextets [OF unat_byte [of x] unat_byte [of y] unat_byte [of z]] b64_ok by simp
qed simp

lemma length_b64: "length (b64 s) = length s div 3 * 4 + (if length s mod 3 = 0 then 0 else length s mod 3 + 1)"
proof (induction s rule: b64.induct)
  case (4 x y z r)
  have "length (x # y # z # r) div 3 = length r div 3 + 1" "length (x # y # z # r) mod 3 = length r mod 3" by simp_all
  then show ?case using 4 by simp
qed simp_all

lemma pad_loop_whole:
  assumes "pad_loop s (length s) 0 = (n, pad)"
  shows "n \<le> length s" "pad = length s - n" "pad \<le> 2" "s = take n s @ replicate (length s - n) 61"
    "n > 0 \<and> pad < 2 \<longrightarrow> s ! (n - 1) \<noteq> 61"
  using pad_loop_spec [OF order_refl _ assms] by simp_all

lemma b64_sizes:
  "length (b64 s) mod 4 \<noteq> 1" "(length (b64 s) + (3 - length s mod 3) mod 3) mod 4 = 0"
  "length (b64 s) div 4 * 3 + (if length (b64 s) mod 4 \<noteq> 0 then length (b64 s) mod 4 - 1 else 0) = length s"
proof -
  define q r where "q = length s div 3" and "r = length s mod 3"
  have l: "length s = 3 * q + r" by (simp add: q_def r_def)
  have b: "length (b64 s) = q * 4 + (if r = 0 then 0 else r + 1)" unfolding length_b64 q_def r_def ..
  have d: "q * 4 mod 4 = 0" "q * 4 div 4 = q" "(q * 4 + 2) mod 4 = 2" "(q * 4 + 2) div 4 = q" "(q * 4 + 3) mod 4 = 3"
    "(q * 4 + 3) div 4 = q" "(q * 4 + 2 + 2) mod 4 = 0" "(q * 4 + 3 + 1) mod 4 = 0"
    "Suc (Suc (q * 4)) mod 4 = 2" "Suc (Suc (q * 4)) div 4 = q" by presburger+
  have "r < 3" by (simp add: r_def)
  then have "r = 0 \<or> r = 1 \<or> r = 2" by auto
  then consider "r = 0" "length (b64 s) = q * 4" | "r = 1" "length (b64 s) = q * 4 + 2" | "r = 2" "length (b64 s) = q * 4 + 3"
    using b by (elim disjE) simp_all
  then have "length (b64 s) mod 4 \<noteq> 1 \<and> (length (b64 s) + (3 - r) mod 3) mod 4 = 0 \<and>
     length (b64 s) div 4 * 3 + (if length (b64 s) mod 4 \<noteq> 0 then length (b64 s) mod 4 - 1 else 0) = 3 * q + r"
    by cases (simp_all add: d)
  then show "length (b64 s) mod 4 \<noteq> 1" "(length (b64 s) + (3 - length s mod 3) mod 3) mod 4 = 0"
    "length (b64 s) div 4 * 3 + (if length (b64 s) mod 4 \<noteq> 0 then length (b64 s) mod 4 - 1 else 0) = length s"
    using l unfolding r_def [symmetric] by simp_all
qed

lemma parse_base64_digits:
  assumes "du_encoded d = t @ replicate p 61" "list_all (\<lambda>c. datauri_digit c \<le> 63 \<and> c \<noteq> 61) t" "p \<le> 2"
  shows "datauri_parse_base64 d =
     (if length t mod 4 = 1 \<or> (p \<noteq> 0 \<and> (length t + p) mod 4 \<noteq> 0) then (Some EINVAL, d)
      else (None, d\<lparr>du_encoded := t, du_size := length t div 4 * 3 + (if length t mod 4 \<noteq> 0 then length t mod 4 - 1 else 0)\<rparr>))"
proof -
  let ?s = "t @ replicate p 61"
  obtain n pad where r: "pad_loop ?s (length ?s) 0 = (n, pad)" by (metis surj_pair)
  have sp: "n \<le> length ?s" "pad = length ?s - n" "pad \<le> 2" "?s = take n ?s @ replicate (length ?s - n) 61"
      "n > 0 \<and> pad < 2 \<longrightarrow> ?s ! (n - 1) \<noteq> 61"
    by (rule pad_loop_whole [OF r])+
  have "n = length t"
  proof (rule ccontr)
    assume "n \<noteq> length t"
    then consider "n < length t" | "length t < n" by linarith
    then show False
    proof cases
      case 1
      have "?s ! n = 61" using sp(1,4) 1 by (metis (no_types, lifting) add.right_neutral length_append length_take less_le_trans min.absorb2 nat_add_left_cancel_less not_le nth_append_length_plus nth_replicate length_replicate le_add_diff_inverse sp(2) trans_less_add1 zero_less_diff)
      then show False using assms(2) 1 by (auto simp: nth_append list_all_iff)
    next
      case 2
      have "pad < 2" using sp(2) 2 assms(3) by simp
      moreover have "?s ! (n - 1) = 61" 
      proof -
        have "\<not> n - 1 < length t" "n - 1 - length t < p" using 2 sp(1) by simp_all
        then show ?thesis by (simp only: nth_append if_False nth_replicate)
      qed
      ultimately show False using sp(5) 2 by simp
    qed
  qed
  moreover have "\<not> list_ex (\<lambda>i. datauri_digit (?s ! i) > 63) [0..<length t]"
    using assms(2) by (auto simp: list_ex_iff list_all_length nth_append not_less)
  ultimately show ?thesis using assms(1) r sp(2) by (simp add: datauri_parse_base64_def Let_def)
qed

text \<open>Base64 data: characters of the alphabet and the padding that fills the last group, or no padding.\<close>

definition base64_data :: "bytes \<Rightarrow> bool" where
  "base64_data s \<longleftrightarrow>
     (\<exists>t p. s = t @ replicate p 61 \<and> list_all (\<lambda>c. c \<in> b64_char ` {..<64}) t \<and> p \<le> 2 \<and> length t mod 4 \<noteq> 1 \<and>
        (p = 0 \<or> (length t + p) mod 4 = 0))"

text \<open>The character of a digit, as a number; so digits that differ are of different characters, and those of the code are the alphabet.\<close>

definition b64_value :: "u32 \<Rightarrow> u32" where
  "b64_value d = (if d < 26 then d + 65 else if d < 52 then d + 71 else if d < 62 then d - 4 else if d = 62 then 43 else 47)"

lemma digit_inverse:
  assumes "datauri_digit c \<le> 63"
  shows "ucast c = b64_value (datauri_digit c)"
proof -
  let ?u = "ucast c :: u32"
  have two: "x < 26 \<Longrightarrow> \<not> x + 26 < 26 \<and> x + 26 < 52" and three: "x < 10 \<Longrightarrow> \<not> x + 52 < 26 \<and> \<not> x + 52 < 52 \<and> x + 52 < 62" for x :: "u32"
    by (simp_all add: word_less_nat_alt word_le_nat_alt unat_word_ariths)
  consider (1) "?u - 65 < 26" "datauri_digit c = ?u - 65" | (2) "?u - 97 < 26" "datauri_digit c = ?u - 97 + 26" | (3) "?u - 48 < 10" "datauri_digit c = ?u - 48 + 52"
    | (4) "?u = 43" "datauri_digit c = 62" | (5) "?u = 47" "datauri_digit c = 63"
    using assms unfolding datauri_digit_def Let_def by (simp only: split: if_splits) simp_all
  then show ?thesis
  proof cases
    case 1
    have "b64_value (?u - 65) = ?u" unfolding b64_value_def if_P [OF 1(1)] by simp
    then show ?thesis unfolding 1(2) ..
  next
    case 2
    have "b64_value (?u - 97 + 26) = ?u" using two [OF 2(1)] unfolding b64_value_def by (simp only: if_True if_False) simp
    then show ?thesis unfolding 2(2) ..
  next
    case 3
    have "b64_value (?u - 48 + 52) = ?u" using three [OF 3(1)] unfolding b64_value_def by (simp only: if_True if_False) simp
    then show ?thesis unfolding 3(2) ..
  qed (simp_all add: b64_value_def)
qed

lemma digit_inj:
  assumes "datauri_digit c \<le> 63" "datauri_digit c = datauri_digit c'"
  shows "c = c'"
proof -
  have u: "unat (ucast x :: u32) = unat x" for x :: byte
    by (simp add: unsigned_ucast_eq unsigned_take_bit_eq [symmetric]) (simp add: take_bit_word_eq_self)
  have "(ucast c :: u32) = ucast c'" using assms digit_inverse by metis
  then have "unat c = unat c'" using u by metis
  then show ?thesis by (simp add: word_unat_eq_iff)
qed

lemma digit_in_alphabet: "datauri_digit c \<le> 63 \<longleftrightarrow> c \<in> b64_char ` {..<64}"
proof
  assume d: "datauri_digit c \<le> 63"
  then have k: "unat (datauri_digit c) < 64" by (simp add: word_le_nat_alt)
  then have "datauri_digit c = datauri_digit (b64_char (unat (datauri_digit c)))" using digit_char by simp
  then have "c = b64_char (unat (datauri_digit c))" using d digit_inj by blast
  then show "c \<in> b64_char ` {..<64}" using k by blast
next
  assume "c \<in> b64_char ` {..<64}"
  then show "datauri_digit c \<le> 63" using b64_ok by auto
qed

lemma base64_data_digits:
  "base64_data s \<longleftrightarrow>
     (\<exists>t p. s = t @ replicate p 61 \<and> list_all (\<lambda>c. datauri_digit c \<le> 63) t \<and> p \<le> 2 \<and> length t mod 4 \<noteq> 1 \<and>
        (p = 0 \<or> (length t + p) mod 4 = 0))"
  unfolding base64_data_def digit_in_alphabet ..

lemma parse_base64_accepts:
  assumes "datauri_parse_base64 d = (e, d')"
  shows "e = None \<longleftrightarrow> base64_data (du_encoded d)" "e = None \<or> e = Some EINVAL" "du_base64 d' = du_base64 d"
    "e = None \<Longrightarrow> du_size d' = length (du_encoded d') div 4 * 3 + (if length (du_encoded d') mod 4 \<noteq> 0 then length (du_encoded d') mod 4 - 1 else 0)"
    "e = None \<Longrightarrow> length (du_encoded d') mod 4 \<noteq> 1"
proof -
  let ?s = "du_encoded d"
  obtain n pad where r: "pad_loop ?s (length ?s) 0 = (n, pad)" by (metis surj_pair)
  have sp: "n \<le> length ?s" "pad = length ?s - n" "pad \<le> 2" "?s = take n ?s @ replicate (length ?s - n) 61"
    by (rule pad_loop_whole [OF r])+
  have ex: "list_ex (\<lambda>i. datauri_digit (?s ! i) > 63) [0..<n] \<longleftrightarrow> \<not> list_all (\<lambda>c. datauri_digit c \<le> 63) (take n ?s)"
    using sp(1) by (auto simp: list_ex_iff list_all_length not_le)
  define bad where "bad = (n mod 4 = 1 \<or> (pad \<noteq> 0 \<and> (n + pad) mod 4 \<noteq> 0) \<or> list_ex (\<lambda>i. datauri_digit (?s ! i) > 63) [0..<n])"
  have res: "(e, d') = (if bad then (Some EINVAL, d)
      else (None, d\<lparr>du_encoded := take n ?s, du_size := n div 4 * 3 + (if n mod 4 \<noteq> 0 then n mod 4 - 1 else 0)\<rparr>))"
    using assms [symmetric] r by (simp add: datauri_parse_base64_def Let_def bad_def)
  have len: "length (take n ?s) = n" using sp(1) by simp
  have "base64_data ?s" if "\<not> bad"
    unfolding base64_data_digits using that sp ex len by (intro exI [of _ "take n ?s"] exI [of _ pad]) (simp add: bad_def)
  moreover have "\<not> base64_data ?s" if bad
  proof
    assume "base64_data ?s"
    then obtain t p where t: "?s = t @ replicate p 61" "list_all (\<lambda>c. datauri_digit c \<le> 63) t" "p \<le> 2"
       "length t mod 4 \<noteq> 1" "p = 0 \<or> (length t + p) mod 4 = 0" unfolding base64_data_digits by (elim exE conjE)
    have "61 \<notin> set t" using t(2) digit_pad by (auto simp: list_all_iff word_le_nat_alt)
    then have "list_all (\<lambda>c. datauri_digit c \<le> 63 \<and> c \<noteq> 61) t" using t(2) by (auto simp: list_all_iff)
    from parse_base64_digits [OF t(1) this t(3)] show False using assms res \<open>bad\<close> t(4,5) by auto
  qed
  ultimately show "e = None \<longleftrightarrow> base64_data (du_encoded d)" using res by (cases bad) auto
  show "e = None \<or> e = Some EINVAL" "du_base64 d' = du_base64 d" using res by (auto split: if_splits)
  show "e = None \<Longrightarrow> du_size d' = length (du_encoded d') div 4 * 3 + (if length (du_encoded d') mod 4 \<noteq> 0 then length (du_encoded d') mod 4 - 1 else 0)"
    "e = None \<Longrightarrow> length (du_encoded d') mod 4 \<noteq> 1"
    using res len by (simp_all add: bad_def split: if_splits)
qed

section \<open>Facts: percent-encoding\<close>

text \<open>The reading of percent-encoded data.\<close>

fun unpercent :: "bytes \<Rightarrow> bytes option" where
  "unpercent [] = Some []"
| "unpercent (c # s) =
     (if c \<noteq> 37 then map_option (Cons c) (unpercent s)
      else case s of
        h # l # r \<Rightarrow>
          if util_hex_digit h > 15 \<or> util_hex_digit l > 15 then None
          else map_option (Cons (ucast (push_bit 4 (util_hex_digit h) OR util_hex_digit l))) (unpercent r)
      | _ \<Rightarrow> None)"

lemma unpercent_cut: "length t < 2 \<Longrightarrow> unpercent (37 # t) = None"
  by (auto split: list.splits)

lemma percent_loops:
  "percent_size s i n = map_option (\<lambda>b. n + length b) (unpercent (drop i s)) \<and>
     (unpercent (drop i s) = Some b \<longrightarrow> decode_percent_loop s i = b)"
proof (induction s i n arbitrary: b rule: percent_size.induct)
  case (1 s i n)
  show ?case
  proof (cases "i < length s")
    case False
    then show ?thesis by (simp add: percent_size.simps [of s i] decode_percent_loop.simps [of s i])
  next
    case i: True
    have d: "drop i s = s ! i # drop (i + 1) s" using i by (simp add: Cons_nth_drop_Suc)
    show ?thesis
    proof (cases "s ! i \<noteq> 37")
      case True
      note IH = "1.IH"(1) [OF i True]
      have "percent_size s i n = percent_size s (i + 1) (n + 1)" "decode_percent_loop s i = s ! i # decode_percent_loop s (i + 1)"
        using i True by (simp_all add: percent_size.simps [of s i] decode_percent_loop.simps [of s i])
      then show ?thesis using IH True by (auto simp: d option.map_comp comp_def)
    next
      case pct: False
      show ?thesis
      proof (cases "length s - i < 3")
        case True
        then have "length (drop (i + 1) s) < 2" using i by simp
        then have "unpercent (37 # drop (i + 1) s) = None" by (rule unpercent_cut)
        then have "unpercent (drop i s) = None" using pct unfolding d by simp
        then show ?thesis using i pct True by (simp add: percent_size.simps [of s i])
      next
        case False
        then have d2: "drop (i + 1) s = s ! (i + 1) # s ! (i + 2) # drop (i + 3) s"
          by (simp add: Cons_nth_drop_Suc numeral_2_eq_2 numeral_3_eq_3)
        show ?thesis
        proof (cases "util_hex_digit (s ! (i + 1)) > 15 \<or> util_hex_digit (s ! (i + 2)) > 15")
          case True
          then have "percent_size s i n = None" using i pct False by (simp add: percent_size.simps [of s i])
          moreover have "unpercent (drop i s) = None" using pct True unfolding d d2 by simp
          ultimately show ?thesis by simp
        next
          case ok: False
          note IH = "1.IH"(2) [OF i pct False ok]
          have "percent_size s i n = percent_size s (i + 3) (n + 1)"
            using i pct False ok by (simp add: percent_size.simps [of s i])
          moreover have "decode_percent_loop s i = ucast (push_bit 4 (util_hex_digit (s ! (i + 1))) OR util_hex_digit (s ! (i + 2))) #
              decode_percent_loop s (i + 3)"
            using i pct by (simp add: decode_percent_loop.simps [of s i])
          moreover have "unpercent (drop i s) = map_option (Cons (ucast (push_bit 4 (util_hex_digit (s ! (i + 1))) OR util_hex_digit (s ! (i + 2)))))
              (unpercent (drop (i + 3) s))" using pct ok unfolding d d2 by simp
          ultimately show ?thesis using IH by (auto simp: option.map_comp comp_def)
        qed
      qed
    qed
  qed
qed

definition hex_pair :: "byte \<Rightarrow> bytes \<Rightarrow> bool" where
  "hex_pair c hs \<longleftrightarrow> util_hex_digit (hs ! 0) \<le> 15 \<and> util_hex_digit (hs ! 1) \<le> 15 \<and>
     ucast (push_bit 4 (util_hex_digit (hs ! 0)) OR util_hex_digit (hs ! 1)) = c"

lemma upper_digit:
  assumes "k < 16"
  shows "util_hex_digit (upper (hex_digits ! k)) = util_hex_digit (hex_digits ! k)" "util_hex_digit (hex_digits ! k) \<le> 15"
proof -
  have "list_all (\<lambda>k. util_hex_digit (upper (hex_digits ! k)) = util_hex_digit (hex_digits ! k) \<and> util_hex_digit (hex_digits ! k) \<le> 15) [0..<16]"
    by code_simp
  with assms show "util_hex_digit (upper (hex_digits ! k)) = util_hex_digit (hex_digits ! k)" "util_hex_digit (hex_digits ! k) \<le> 15"
    unfolding list_all_iff by (metis atLeastLessThan_iff le0 set_upt)+
qed

lemma hex_pair_digits: "hex_pair c (util_hex [c])" "hex_pair c (map upper (util_hex [c]))"
proof -
  let ?h = "hex_digits ! unat (drop_bit 4 c)" and ?l = "hex_digits ! unat (c AND 15)"
  have "ucast (push_bit 4 (ucast (drop_bit 4 c)) OR ucast (c AND 15) :: u32) = push_bit 4 (drop_bit 4 c) OR (c AND 15)"
    by (rule bit_word_eqI) (auto simp: bit_simps dest: bit_imp_le_length)
  then have "ucast (push_bit 4 (util_hex_digit ?h) OR util_hex_digit ?l) = c"
    using hex_digit_facts(3,4) [of c] nibbles(3) [of c] by simp
  then show "hex_pair c (util_hex [c])" "hex_pair c (map upper (util_hex [c]))"
    using upper_digit [OF nibbles(1) [of c]] upper_digit [OF nibbles(2) [of c]] by (simp_all add: hex_pair_def)
qed

lemma list_of_two:
  assumes "length xs = 2"
  obtains a b where "xs = [a, b]"
  using assms by (auto simp: length_Suc_conv numeral_2_eq_2)

lemma unpercent_percent: "unpercent (percent esc up s) = Some s"
proof (induction s)
  case (Cons c s)
  have h: "hex_pair c (map (if up c then upper else id) (util_hex [c]))"
    by (cases "up c") (simp_all only: if_True if_False list.map_id hex_pair_digits)
  have "length (map (if up c then upper else id) (util_hex [c])) = 2" by (simp only: length_map length_util_hex) simp
  then obtain a b where ab: "map (if up c then upper else id) (util_hex [c]) = [a, b]"
    by (rule list_of_two)
  have p: "percent esc up (c # s) = (if c = 37 \<or> esc c then [37, a, b] else [c]) @ percent esc up s"
    unfolding percent_def by (simp only: list.map concat.simps ab)
  have "\<not> util_hex_digit a > 15" "\<not> util_hex_digit b > 15" "ucast (push_bit 4 (util_hex_digit a) OR util_hex_digit b) = c"
    using h [unfolded ab] by (simp_all add: hex_pair_def not_less)
  then show ?case unfolding p using Cons by simp
qed (simp add: percent_def)

section \<open>Facts: the whole check\<close>

definition is_base64 :: "bytes \<Rightarrow> bool" where
  "is_base64 media \<longleftrightarrow> (\<exists>m t. media = m @ t \<and> map fold_case t = ascii '';base64'')"

lemma fold_base64: "map fold_case (ascii '';base64'') = ascii '';base64''" "map fold_case (ascii ''data:'') = ascii ''data:''"
  by (code_simp, code_simp)

lemma init_parts:
  assumes "length uri \<le> SIZE_MAX" "uri = h @ media @ ch CHR '','' # data" "map fold_case h = ascii ''data:''" "ch CHR '','' \<notin> set media"
  shows "datauri_init d uri =
    (let d = \<lparr>du_encoded = data, du_size = 0, du_base64 = is_base64 media\<rparr>
     in if is_base64 media then datauri_parse_base64 d else datauri_parse_percent d)"
proof -
  have h: "length h = 5" using arg_cong [OF assms(3), of length] by simp
  have lens: "length (ascii ''data:'') = 5" "length (ascii '';base64'') = 7" by simp_all
  have "cstr_view_starts_case uri (ascii ''data:'')" unfolding starts_case_iff using assms(2,3) fold_base64(2) by metis
  moreover have "cstr_view_slice uri 5 SIZE_MAX = media @ ch CHR '','' # data"
    using assms(1,2) h by (simp add: slice_rest)
  moreover have "cstr_view_cut (media @ ch CHR '','' # data) (ch CHR '','') = Some (media, data)"
    using assms(4) by (simp add: cstr_view_cut_def)
  moreover have "(length media \<ge> 7 \<and> cstr_view_equal_case (cstr_view_slice media (length media - 7) SIZE_MAX) (ascii '';base64'')) = is_base64 media"
  proof -
    have "length media \<le> SIZE_MAX" using assms(1,2) by simp
    then have "cstr_view_slice media (length media - 7) SIZE_MAX = drop (length media - 7) media" by (simp add: slice_rest)
    moreover have "is_base64 media \<longleftrightarrow> length media \<ge> 7 \<and> map fold_case (drop (length media - 7) media) = ascii '';base64''"
    proof
      assume "is_base64 media"
      then obtain m t where t: "media = m @ t" "map fold_case t = ascii '';base64''" by (auto simp: is_base64_def)
      have "length t = 7" using arg_cong [OF t(2), of length] by simp
      then show "length media \<ge> 7 \<and> map fold_case (drop (length media - 7) media) = ascii '';base64''" using t by simp
    next
      assume "length media \<ge> 7 \<and> map fold_case (drop (length media - 7) media) = ascii '';base64''"
      then show "is_base64 media" unfolding is_base64_def by (metis append_take_drop_id)
    qed
    ultimately show ?thesis using fold_base64(1) by (simp add: equal_case_iff)
  qed
  ultimately show ?thesis unfolding datauri_init_def Let_def lens by simp
qed

lemma init_rejects:
  assumes "length uri \<le> SIZE_MAX" "\<nexists>h media data. uri = h @ media @ ch CHR '','' # data \<and> map fold_case h = ascii ''data:'' \<and> ch CHR '','' \<notin> set media"
  shows "datauri_init d uri = (Some EINVAL, d)"
proof (cases "cstr_view_starts_case uri (ascii ''data:'')")
  case True
  then obtain h rest where h: "uri = h @ rest" "map fold_case h = ascii ''data:''"
    unfolding starts_case_iff using fold_base64(2) by metis
  have "length h = 5" using arg_cong [OF h(2), of length] by simp
  then have s: "cstr_view_slice uri (length (ascii ''data:'')) SIZE_MAX = rest" using assms(1) h(1) by (simp add: slice_rest)
  have "memchr (ch CHR '','') rest = None"
  proof (rule ccontr)
    assume "memchr (ch CHR '','') rest \<noteq> None"
    then obtain n where n: "memchr (ch CHR '','') rest = Some n" by blast
    from memchr_split [OF n] memchr_SomeD [OF n] h assms(2) show False by metis
  qed
  then show ?thesis using True s by (simp add: datauri_init_def cstr_view_cut_def)
qed (simp add: datauri_init_def)

lemma base64_size:
  assumes "length (du_encoded d) mod 4 \<noteq> 1"
  shows "length (datauri_decode_base64 d) =
     length (du_encoded d) div 4 * 3 + (if length (du_encoded d) mod 4 \<noteq> 0 then length (du_encoded d) mod 4 - 1 else 0)"
proof -
  obtain out v where r: "decode_base64_loop (du_encoded d) 0 0 = (out, v)" by (metis surj_pair)
  have "length out = length (du_encoded d) div 4 * 3" using base64_loop_len [of "du_encoded d" 0 0] r by simp
  moreover have "length (du_encoded d) mod 4 \<in> {0, 2, 3}" using assms by auto
  ultimately show ?thesis using r by (auto simp: datauri_decode_base64_def Let_def)
qed

section \<open>Properties\<close>

text \<open>
  C35.  The check accepts exactly the URIs that begin with the scheme in any letter case and a media type up to a comma, whose data
  is base64 digits with their padding, if the media type says so, and else has only whole percent escapes; every other URI is
  refused with \<^verbatim>\<open>EINVAL\<close>.  The size it announces is the number of bytes that decoding writes.
\<close>

theorem datauri_accepts:
  assumes "length uri \<le> SIZE_MAX" "datauri_init d uri = (e, d')"
  shows "(e = None \<longleftrightarrow>
     (\<exists>h media data. uri = h @ media @ ch CHR '','' # data \<and> map fold_case h = ascii ''data:'' \<and> ch CHR '','' \<notin> set media \<and>
        (if is_base64 media then base64_data data else unpercent data \<noteq> None))) \<and>
    (if e = None then length (datauri_decode d') = du_size d' else e = Some EINVAL)"
proof (cases "\<exists>h media data. uri = h @ media @ ch CHR '','' # data \<and> map fold_case h = ascii ''data:'' \<and> ch CHR '','' \<notin> set media")
  case False
  then have "e = Some EINVAL" using init_rejects [OF assms(1)] assms(2) by simp
  then show ?thesis using False by auto
next
  case True
  then obtain h media data where u: "uri = h @ media @ ch CHR '','' # data" "map fold_case h = ascii ''data:''" "ch CHR '','' \<notin> set media"
    by (elim exE conjE)
  have only: "h' = h \<and> m' = media \<and> d' = data"
    if "uri = h' @ m' @ ch CHR '','' # d'" "map fold_case h' = ascii ''data:''" "ch CHR '','' \<notin> set m'" for h' m' d'
  proof -
    have "length h' = length h" using arg_cong [OF that(2), of length] arg_cong [OF u(2), of length] by simp
    then have "h' = h" "m' @ ch CHR '','' # d' = media @ ch CHR '','' # data" using that(1) u(1) by simp_all
    moreover from this(2) have "length m' = length media"
      using memchr_append [OF that(3), of d'] memchr_append [OF u(3), of data] by simp
    ultimately show ?thesis by simp
  qed
  have iff: "(\<exists>h media data. uri = h @ media @ ch CHR '','' # data \<and> map fold_case h = ascii ''data:'' \<and> ch CHR '','' \<notin> set media \<and>
        (if is_base64 media then base64_data data else unpercent data \<noteq> None)) \<longleftrightarrow>
      (if is_base64 media then base64_data data else unpercent data \<noteq> None)" (is "?L \<longleftrightarrow> ?R")
  proof
    assume ?L
    then obtain h' m' d' where "uri = h' @ m' @ ch CHR '','' # d'" "map fold_case h' = ascii ''data:''" "ch CHR '','' \<notin> set m'"
      "if is_base64 m' then base64_data d' else unpercent d' \<noteq> None" by (elim exE conjE)
    moreover from this(1-3) have "m' = media" "d' = data" using only by simp_all
    ultimately show ?R by (simp only:)
  next
    assume ?R
    then show ?L using u by (intro exI [of _ h] exI [of _ media] exI [of _ data]) simp
  qed
  let ?d = "\<lparr>du_encoded = data, du_size = 0, du_base64 = is_base64 media\<rparr>"
  show ?thesis
  proof (cases "is_base64 media")
    case True
    then have p: "datauri_parse_base64 ?d = (e, d')" using init_parts [OF assms(1) u] assms(2) by (simp add: Let_def)
    show ?thesis using parse_base64_accepts [OF p] base64_size [of d'] True unfolding iff by (auto simp: datauri_decode_def)
  next
    case False
    then have p: "datauri_parse_percent ?d = (e, d')" using init_parts [OF assms(1) u] assms(2) by (simp add: Let_def)
    show ?thesis
    proof (cases "unpercent data")
      case None
      then show ?thesis using p percent_loops [of data 0 0] False unfolding iff by (auto simp: datauri_parse_percent_def)
    next
      case (Some b)
      then have "e = None" "d' = ?d\<lparr>du_size := length b\<rparr>"
        using p percent_loops [of data 0 0 b] by (simp_all add: datauri_parse_percent_def)
      then show ?thesis using percent_loops [of data 0 0 b] Some False unfolding iff
        by (simp add: datauri_decode_def datauri_decode_percent_def)
    qed
  qed
qed

theorem datauri_accepts_witness: "fst (datauri_init \<lparr>du_encoded = [], du_size = 0, du_base64 = False\<rparr> (ascii ''DATA:,a%2Cb'')) = None"
proof -
  let ?d = "\<lparr>du_encoded = [], du_size = 0, du_base64 = False\<rparr>"
  obtain e d' where r: "datauri_init ?d (ascii ''DATA:,a%2Cb'') = (e, d')" by (metis surj_pair)
  have len: "length (ascii ''DATA:,a%2Cb'') \<le> SIZE_MAX" by (simp add: SIZE_MAX_def)
  have "ascii ''DATA:,a%2Cb'' = ascii ''DATA:'' @ [] @ ch CHR '','' # ascii ''a%2Cb''" by (simp add: ascii_def)
  moreover have "map fold_case (ascii ''DATA:'') = ascii ''data:''" by code_simp
  moreover have "\<not> is_base64 []" by (simp add: is_base64_def ascii_def)
  moreover have "unpercent (ascii ''a%2Cb'') \<noteq> None" by code_simp
  ultimately have "\<exists>h media data. ascii ''DATA:,a%2Cb'' = h @ media @ ch CHR '','' # data \<and> map fold_case h = ascii ''data:'' \<and>
      ch CHR '','' \<notin> set media \<and> (if is_base64 media then base64_data data else unpercent data \<noteq> None)"
    by (intro exI [of _ "ascii ''DATA:''"] exI [of _ "[]"] exI [of _ "ascii ''a%2Cb''"]) (simp del: unpercent.simps)
  then show ?thesis using datauri_accepts [OF len r] r by simp
qed

text \<open>
  C36.  Base64 data with or without its padding, and percent-encoded data whichever of its bytes are escaped and with digits of either
  case, are decoded to the bytes they encode.
\<close>

theorem datauri_round_trip:
  assumes "ch CHR '','' \<notin> set media" "length uri \<le> SIZE_MAX"
    "uri = ascii ''data:'' @ media @ ch CHR '','' # data"
    "if is_base64 media then data = b64 s \<or> data = b64 s @ b64_pad s else data = percent esc up s"
  shows "case datauri_init d uri of (e, d') \<Rightarrow> e = None \<and> datauri_decode d' = s \<and> du_size d' = length s"
proof -
  obtain e d' where r: "datauri_init d uri = (e, d')" by (metis surj_pair)
  let ?d = "\<lparr>du_encoded = data, du_size = 0, du_base64 = is_base64 media\<rparr>"
  note init = init_parts [OF assms(2,3) fold_base64(2) assms(1), of d]
  show ?thesis
  proof (cases "is_base64 media")
    case True
    define p where "p = (if data = b64 s then 0 else (3 - length s mod 3) mod 3)"
    have p: "data = b64 s @ replicate p 61" "p \<le> 2" using assms(4) True by (auto simp: p_def b64_pad_def)
    have m: "length (b64 s) mod 4 \<noteq> 1" "p = 0 \<or> (length (b64 s) + p) mod 4 = 0"
      using b64_sizes(1,2) [of s] by (auto simp: p_def)
    have "datauri_parse_base64 ?d = (None, ?d\<lparr>du_encoded := b64 s,
        du_size := length (b64 s) div 4 * 3 + (if length (b64 s) mod 4 \<noteq> 0 then length (b64 s) mod 4 - 1 else 0)\<rparr>)"
      using parse_base64_digits [of ?d "b64 s" p, OF _ b64_chars p(2)] p(1) m by simp
    then have i: "datauri_init d uri = (None, \<lparr>du_encoded = b64 s,
        du_size = length (b64 s) div 4 * 3 + (if length (b64 s) mod 4 \<noteq> 0 then length (b64 s) mod 4 - 1 else 0), du_base64 = True\<rparr>)"
      using init True by (simp add: Let_def)
    obtain out v where "decode_base64_loop (b64 s) 0 0 = (out, v)" by (metis surj_pair)
    then have "datauri_decode_base64 \<lparr>du_encoded = b64 s, du_size = n, du_base64 = True\<rparr> = s" for n
      using decode_b64 [of 0 s out v] by (simp add: datauri_decode_base64_def Let_def)
    moreover have "length (b64 s) div 4 * 3 + (if length (b64 s) mod 4 \<noteq> 0 then length (b64 s) mod 4 - 1 else 0) = length s"
      using b64_sizes(3) [of s] .
    ultimately show ?thesis using i by (simp add: datauri_decode_def)
  next
    case False
    then have u: "unpercent data = Some s" using assms(4) unpercent_percent by simp
    have "datauri_parse_percent ?d = (None, ?d\<lparr>du_size := length s\<rparr>)"
      using percent_loops [of data 0 0 s] u by (simp add: datauri_parse_percent_def)
    then show ?thesis using init False percent_loops [of data 0 0 s] u
      by (simp add: Let_def datauri_decode_def datauri_decode_percent_def)
  qed
qed

theorem datauri_round_trip_witness:
  "datauri_decode (snd (datauri_init \<lparr>du_encoded = [], du_size = 0, du_base64 = False\<rparr> (ascii ''data:text/plain;base64,'' @ b64 [1, 2, 255] @ b64_pad [1, 2, 255]))) = [1, 2, 255]"
proof -
  let ?m = "ascii ''text/plain;base64''"
  have u: "ascii ''data:text/plain;base64,'' @ b64 [1, 2, 255] @ b64_pad [1, 2, 255] =
      ascii ''data:'' @ ?m @ ch CHR '','' # b64 [1, 2, 255] @ b64_pad [1, 2, 255]"
    by (simp add: ascii_def)
  have "ch CHR '','' \<notin> set ?m" by code_simp
  moreover have "length (ascii ''data:text/plain;base64,'' @ b64 [1, 2, 255] @ b64_pad [1, 2, 255]) \<le> SIZE_MAX"
    by (simp add: SIZE_MAX_def b64_pad_def)
  moreover have "is_base64 ?m" unfolding is_base64_def
    using fold_base64(1) by (intro exI [of _ "ascii ''text/plain''"] exI [of _ "ascii '';base64''"]) (simp add: ascii_def)
  ultimately show ?thesis using datauri_round_trip [OF _ _ u, of "[1, 2, 255]" "\<lambda>_. True" "\<lambda>_. True" "\<lparr>du_encoded = [], du_size = 0, du_base64 = False\<rparr>"]
    by (simp add: split_def del: b64.simps)
qed

end
