(* ===== verification/Httpd_Head.thy ===== *)
theory Httpd_Head
  imports Util_Text
begin

text \<open>
  The head of an HTTP request (\<^verbatim>\<open>src/httpd.c\<close>): finding its end in the input as it comes, and parsing it in place.

  The head lies in the buffer \<open>data\<close>, where lines, names and values are cut by writing NUL bytes.  The flags of a request are
  the bits of a 32-bit word, as in \<^verbatim>\<open>enum httpd_req_flag\<close>.  The lemmas show that the end is found as soon as it is in,
  however the input is cut; that an accepted head is a request line and header fields, whose kept values are strings in the
  buffer; and that no accepted request has two framings.
\<close>

unbundle bit_operations_syntax

section \<open>Bytes and names\<close>

text \<open>C strings in a buffer.\<close>

definition cstr_at :: "bytes \<Rightarrow> nat \<Rightarrow> bytes" where
  "cstr_at data p = takeWhile (\<lambda>c. c \<noteq> 0) (drop p data)"

definition strchr :: "bytes \<Rightarrow> nat \<Rightarrow> byte \<Rightarrow> nat option" where
  "strchr data p c = map_option ((+) p) (memchr c (cstr_at data p))"

definition strspn :: "bytes \<Rightarrow> bytes \<Rightarrow> nat" where
  "strspn s accept = length (takeWhile (\<lambda>c. c \<in> set accept) s)"

definition strcasecmp_equal :: "bytes \<Rightarrow> bytes \<Rightarrow> bool" where
  "strcasecmp_equal a b \<longleftrightarrow> map fold_case a = map fold_case b"

definition httpd_tchar :: "byte \<Rightarrow> bool" where
  "httpd_tchar c \<longleftrightarrow>
     (c \<ge> ch CHR ''0'' \<and> c \<le> ch CHR ''9'') \<or> (c \<ge> ch CHR ''a'' \<and> c \<le> ch CHR ''z'') \<or>
     (c \<ge> ch CHR ''A'' \<and> c \<le> ch CHR ''Z'') \<or> (c \<noteq> 0 \<and> c \<in> set [33, 35, 36, 37, 38, 39, 42, 43, 45, 46, 94, 95, 96, 124, 126])"

definition httpd_token :: "bytes \<Rightarrow> bool" where
  "httpd_token s \<longleftrightarrow> length (takeWhile httpd_tchar s) = length s"

definition httpd_ctl :: "byte \<Rightarrow> bool" where
  "httpd_ctl c \<longleftrightarrow> (c < ch CHR '' '' \<and> c \<noteq> 9) \<or> c = 0x7f"

definition digits :: bytes where
  "digits = ascii ''0123456789''"

fun loopback_loop :: "bytes list \<Rightarrow> bytes \<Rightarrow> bool" where
  "loopback_loop [] host = False"
| "loopback_loop (name # names) host =
     (if \<not> cstr_view_starts_case host name then loopback_loop names host
      else
        let port = drop (length name) host
        in if port = [] then True
           else let n = (if port ! 0 = ch CHR '':'' then strspn (drop 1 port) digits else 0)
                in n \<noteq> 0 \<and> n \<le> 5 \<and> length port = 1 + n)"

definition loopback_names :: "bytes list" where
  "loopback_names = [ascii ''localhost'', ascii ''127.0.0.1'', ascii ''[::1]'']"

definition httpd_loopback_host :: "bytes \<Rightarrow> bool" where
  "httpd_loopback_host host = loopback_loop loopback_names host"

datatype httpd_header =
  HEADER_HOST | HEADER_ORIGIN | HEADER_AUTHORIZATION | HEADER_ACRH | HEADER_CONTENT_LENGTH | HEADER_TRANSFER_ENCODING
  | HEADER_CONNECTION | HEADER_EXPECT | HEADER_PNA | HEADERS

definition httpd_headers :: "(httpd_header \<times> bytes) list" where
  "httpd_headers =
     [(HEADER_HOST, ascii ''host''), (HEADER_ORIGIN, ascii ''origin''), (HEADER_AUTHORIZATION, ascii ''authorization''),
      (HEADER_ACRH, ascii ''access-control-request-headers''), (HEADER_CONTENT_LENGTH, ascii ''content-length''),
      (HEADER_TRANSFER_ENCODING, ascii ''transfer-encoding''), (HEADER_CONNECTION, ascii ''connection''),
      (HEADER_EXPECT, ascii ''expect''), (HEADER_PNA, ascii ''access-control-request-private-network'')]"

fun header_loop :: "(httpd_header \<times> bytes) list \<Rightarrow> bytes \<Rightarrow> httpd_header" where
  "header_loop [] name = HEADERS"
| "header_loop ((h, s) # hs) name = (if cstr_view_equal_case name s then h else header_loop hs name)"

definition httpd_header :: "bytes \<Rightarrow> httpd_header" where
  "httpd_header name = header_loop httpd_headers name"

definition httpd_loopback_origin :: "bytes \<Rightarrow> bool" where
  "httpd_loopback_origin origin =
     (let scheme = util_url_scheme origin in scheme \<noteq> 0 \<and> httpd_loopback_host (drop scheme origin))"

definition httpd_origin_allowed :: "bytes list \<Rightarrow> bytes \<Rightarrow> bool" where
  "httpd_origin_allowed origins origin \<longleftrightarrow>
     (if httpd_loopback_origin origin then True else list_ex (\<lambda>ok. ok = ascii ''*'' \<or> ok = origin) origins)"

section \<open>Requests\<close>

record httpd_field =
  fld_off :: nat
  fld_len :: nat

text \<open>The offsets and lengths are 16 bits wide.\<close>

definition field_at :: "nat \<Rightarrow> nat \<Rightarrow> httpd_field" where
  "field_at off len = \<lparr>fld_off = off mod 2 ^ 16, fld_len = len mod 2 ^ 16\<rparr>"

text \<open>The bits of the flags.\<close>

abbreviation (input) "REQ_LENGTH \<equiv> 0 :: nat"
abbreviation (input) "REQ_CHUNKED \<equiv> 1 :: nat"
abbreviation (input) "REQ_HTTP10 \<equiv> 2 :: nat"
abbreviation (input) "REQ_CLOSE \<equiv> 3 :: nat"
abbreviation (input) "REQ_EXPECT \<equiv> 4 :: nat"
abbreviation (input) "REQ_PNA \<equiv> 5 :: nat"
abbreviation (input) "REQ_OPTIONS \<equiv> 6 :: nat"
abbreviation (input) "REQ_HEAD \<equiv> 7 :: nat"
abbreviation (input) "REQ_PARSED \<equiv> 8 :: nat"
abbreviation (input) "REQ_BODY_IN \<equiv> 9 :: nat"

record httpd_req =
  rq_body :: nat
  rq_got :: nat
  rq_chunk :: nat
  rq_flags :: u32
  rq_head :: nat
  rq_scan :: nat
  rq_trailer :: nat
  rq_trailers :: nat
  rq_target :: httpd_field
  rq_host :: httpd_field
  rq_origin :: httpd_field
  rq_auth :: httpd_field
  rq_acrh :: httpd_field
  rq_app :: "httpd_field list"

definition no_field :: httpd_field where
  "no_field = \<lparr>fld_off = 0, fld_len = 0\<rparr>"

definition STREAM_FIELDS :: nat where
  "STREAM_FIELDS = 8"

definition req_zero :: httpd_req where
  "req_zero = \<lparr>rq_body = 0, rq_got = 0, rq_chunk = 0, rq_flags = 0, rq_head = 0, rq_scan = 0, rq_trailer = 0, rq_trailers = 0,
     rq_target = no_field, rq_host = no_field, rq_origin = no_field, rq_auth = no_field, rq_acrh = no_field,
     rq_app = replicate STREAM_FIELDS no_field\<rparr>"

definition flag :: "nat \<Rightarrow> httpd_req \<Rightarrow> bool" where
  "flag b req = bit (rq_flags req) b"

definition set_flag :: "nat \<Rightarrow> httpd_req \<Rightarrow> httpd_req" where
  "set_flag b req = req\<lparr>rq_flags := rq_flags req OR push_bit b 1\<rparr>"

definition clear_flag :: "nat \<Rightarrow> httpd_req \<Rightarrow> httpd_req" where
  "clear_flag b req = req\<lparr>rq_flags := rq_flags req AND NOT (push_bit b 1)\<rparr>"

text \<open>\<^verbatim>\<open>struct httpd_limits\<close>, and what \<^verbatim>\<open>struct stream_app\<close> says of the fields it asks for.\<close>

record httpd_limits =
  lm_body :: nat
  lm_head :: nat
  lm_fields :: nat

record stream_app =
  app_fields :: "bytes list"
  app_lists :: u64

section \<open>The end of the head\<close>

text \<open>The result and the new \<open>rq_scan\<close>.\<close>

function head_loop :: "bytes \<Rightarrow> nat \<Rightarrow> nat \<Rightarrow> nat \<times> nat" where
  "head_loop data len i =
     (case (if i < len then memchr 10 (take (len - i) (drop i data)) else None) of
        None \<Rightarrow> (0, len mod 2 ^ 16)
      | Some k \<Rightarrow>
          let i = i + k + 1;
              cr = (if i < len \<and> data ! i = 13 then 1 else 0)
          in if i + cr = len then (0, (i - 1) mod 2 ^ 16)
             else if data ! (i + cr) = 10 then (i + cr + 1, 0)
             else head_loop data len i)"
  by pat_completeness auto
termination
  by (relation "measure (\<lambda>(data, len, i). len - i)") (auto split: if_splits)

declare head_loop.simps [simp del]

text \<open>A found end leaves \<open>rq_scan\<close> as it was.\<close>

definition httpd_conn_head_length :: "httpd_limits \<Rightarrow> httpd_req \<Rightarrow> bytes \<Rightarrow> nat \<times> httpd_req" where
  "httpd_conn_head_length lim req input =
     (let len = (if length input < lm_head lim then length input else lm_head lim);
          (n, scan) = head_loop input len (rq_scan req)
      in (n, if n = 0 then req\<lparr>rq_scan := scan\<rparr> else req))"

section \<open>Parsing\<close>

text \<open>
  \<^verbatim>\<open>httpd_next_line()\<close>: the line's place, the cursor after it and the buffer; \<open>None\<close> would be the use of a null pointer.
\<close>

definition httpd_next_line :: "bytes \<Rightarrow> nat \<Rightarrow> (nat \<times> nat \<times> bytes) option" where
  "httpd_next_line data cursor =
     (case strchr data cursor 10 of
        None \<Rightarrow> None
      | Some nl \<Rightarrow>
          let data = data[nl := 0];
              data = (if nl > cursor \<and> data ! (nl - 1) = 13 then data[nl - 1 := 0] else data)
          in Some (cursor, nl + 1, data))"

definition httpd_field_keep :: "httpd_field \<Rightarrow> httpd_field \<Rightarrow> bool \<Rightarrow> nat \<times> httpd_field" where
  "httpd_field_keep kept f is_list =
     (if fld_off kept = 0 then (0, f) else (if is_list then 0 else 400, kept))"

fun app_loop :: "httpd_req \<Rightarrow> bytes list \<Rightarrow> u64 \<Rightarrow> nat \<Rightarrow> bytes \<Rightarrow> httpd_field \<Rightarrow> nat \<times> httpd_req" where
  "app_loop req [] lsts i name f = (0, req)"
| "app_loop req (field # fs) lsts i name f =
     (if cstr_view_equal_case name field then
        let (status, kept) = httpd_field_keep (rq_app req ! i) f (bit lsts i) in (status, req\<lparr>rq_app := (rq_app req)[i := kept]\<rparr>)
      else app_loop req fs lsts (i + 1) name f)"

definition httpd_req_app :: "httpd_req \<Rightarrow> stream_app \<Rightarrow> bytes \<Rightarrow> httpd_field \<Rightarrow> nat \<times> httpd_req" where
  "httpd_req_app req app name f = app_loop req (app_fields app) (app_lists app) 0 name f"

definition httpd_req_length :: "httpd_req \<Rightarrow> bytes \<Rightarrow> nat \<Rightarrow> nat \<times> httpd_req" where
  "httpd_req_length req value max_body =
     (let n = strspn value digits
      in if n = 0 \<or> n < length value \<or> flag REQ_LENGTH req then (400, req)
         else
           let (k, body) = util_digits (take n value) (of_nat max_body)
           in if k \<noteq> n then (413, req) else (0, set_flag REQ_LENGTH (req\<lparr>rq_body := unat body\<rparr>)))"

definition httpd_req_header :: "httpd_req \<Rightarrow> stream_app \<Rightarrow> bytes \<Rightarrow> bytes \<Rightarrow> httpd_field \<Rightarrow> nat \<Rightarrow> nat \<times> httpd_req" where
  "httpd_req_header req app name value f max_body =
     (case httpd_header name of
        HEADER_HOST \<Rightarrow> let (s, k) = httpd_field_keep (rq_host req) f False in (s, req\<lparr>rq_host := k\<rparr>)
      | HEADER_ORIGIN \<Rightarrow> let (s, k) = httpd_field_keep (rq_origin req) f False in (s, req\<lparr>rq_origin := k\<rparr>)
      | HEADER_AUTHORIZATION \<Rightarrow> let (s, k) = httpd_field_keep (rq_auth req) f False in (s, req\<lparr>rq_auth := k\<rparr>)
      | HEADER_ACRH \<Rightarrow> let (s, k) = httpd_field_keep (rq_acrh req) f False in (s, req\<lparr>rq_acrh := k\<rparr>)
      | HEADER_CONTENT_LENGTH \<Rightarrow> httpd_req_length req value max_body
      | HEADER_TRANSFER_ENCODING \<Rightarrow>
          if flag REQ_CHUNKED req then (400, req)
          else if \<not> strcasecmp_equal value (ascii ''chunked'') then (501, req)
          else (0, set_flag REQ_CHUNKED req)
      | HEADER_CONNECTION \<Rightarrow>
          (0, if cstr_view_list_has (take (fld_len f) value) (ascii ''close'') then set_flag REQ_CLOSE req
              else if flag REQ_HTTP10 req \<and> cstr_view_list_has (take (fld_len f) value) (ascii ''keep-alive'') then clear_flag REQ_CLOSE req
              else req)
      | HEADER_EXPECT \<Rightarrow>
          if \<not> strcasecmp_equal value (ascii ''100-continue'') then (417, req)
          else (0, if flag REQ_HTTP10 req then req else set_flag REQ_EXPECT req)
      | HEADER_PNA \<Rightarrow>
          (0, if strcasecmp_equal value (ascii ''true'') then set_flag REQ_PNA (clear_flag REQ_PNA req) else clear_flag REQ_PNA req)
      | HEADERS \<Rightarrow> httpd_req_app req app name f)"

text \<open>The loop that cuts the white space at the end of a value: the end and the buffer.\<close>

function trim_value :: "bytes \<Rightarrow> nat \<Rightarrow> nat \<Rightarrow> nat \<times> bytes" where
  "trim_value data value e =
     (if e > value \<and> (data ! (e - 1) = ch CHR '' '' \<or> data ! (e - 1) = 9) then trim_value (data[e - 1 := 0]) value (e - 1)
      else (e, data))"
  by pat_completeness auto
termination by (relation "measure (\<lambda>(d, v, e). e)") auto

declare trim_value.simps [simp del]

text \<open>\<^verbatim>\<open>httpd_req_field()\<close> on the line at the place \<open>line\<close>: the status, the request and the buffer.\<close>

definition httpd_req_field :: "httpd_req \<Rightarrow> stream_app \<Rightarrow> nat \<Rightarrow> bytes \<Rightarrow> nat \<Rightarrow> nat \<times> httpd_req \<times> bytes" where
  "httpd_req_field req app line data max_body =
     (case strchr data line (ch CHR '':'') of
        None \<Rightarrow> (400, req, data)
      | Some colon \<Rightarrow>
          if colon = line then (400, req, data)
          else
            let data = data[colon := 0]
            in if \<not> httpd_token (cstr_at data line) then (400, req, data)
               else
                 let value = colon + 1 + strspn (cstr_at data (colon + 1)) [ch CHR '' '', 9];
                     e = value + length (cstr_at data value)
                 in if list_ex httpd_ctl (cstr_at data value) then (400, req, data)
                    else
                      let (e, data) = trim_value data value e;
                          f = field_at value (e - value);
                          (status, req) = httpd_req_header req app (take (colon - line) (drop line data)) (cstr_at data value) f max_body
                      in (status, req, data))"

text \<open>\<^verbatim>\<open>httpd_req_line()\<close> on the line at \<open>line\<close>.\<close>

definition httpd_req_line :: "httpd_req \<Rightarrow> nat \<Rightarrow> bytes \<Rightarrow> nat \<times> httpd_req \<times> bytes" where
  "httpd_req_line req line data =
     (if list_ex (\<lambda>p. p < ch CHR '' '' \<or> p = 0x7f) (cstr_at data line) then (400, req, data)
      else
        case strchr data line (ch CHR '' '') of
          None \<Rightarrow> (400, req, data)
        | Some target \<Rightarrow>
            if target = line then (400, req, data)
            else
              case strchr data (target + 1) (ch CHR '' '') of
                None \<Rightarrow> (400, req, data)
              | Some version \<Rightarrow>
                  if version = target + 1 \<or> strchr data (version + 1) (ch CHR '' '') \<noteq> None then (400, req, data)
                  else
                    let req = req\<lparr>rq_target := field_at (target + 1 - line) (version - target - 1)\<rparr>;
                        data = data[target := 0, version := 0];
                        version = version + 1
                    in if \<not> httpd_token (cstr_at data line) then (400, req, data)
                       else
                         let http10 = (cstr_at data version = ascii ''HTTP/1.0'');
                             req' = (if http10 then set_flag REQ_CLOSE (set_flag REQ_HTTP10 req) else req)
                         in if \<not> http10 \<and> cstr_at data version \<noteq> ascii ''HTTP/1.1''
                            then (if take 5 (cstr_at data version) \<noteq> ascii ''HTTP/'' then 400 else 505, req', data)
                            else
                              let req' = (if cstr_at data line = ascii ''OPTIONS'' then set_flag REQ_OPTIONS req' else req');
                                  req' = (if cstr_at data line = ascii ''HEAD'' then set_flag REQ_HEAD req' else req')
                              in (0, req', data))"

lemma strchr_less: "strchr data p c = Some k \<Longrightarrow> p \<le> k \<and> k < length data"
proof -
  assume "strchr data p c = Some k"
  then obtain m where m: "memchr c (cstr_at data p) = Some m" "k = p + m" by (auto simp: strchr_def)
  have "m < length (cstr_at data p)" using memchr_SomeD [OF m(1)] by simp
  also have "\<dots> \<le> length data - p" unfolding cstr_at_def using length_takeWhile_le [of _ "drop p data"] by simp
  finally show ?thesis using m(2) by simp
qed

lemma next_line_forward: "httpd_next_line data cursor = Some (line, c, d) \<Longrightarrow> cursor < c \<and> c \<le> length data \<and> length d = length data"
  by (auto simp: httpd_next_line_def Let_def dest!: strchr_less split: option.splits if_splits)

lemma length_trim_value: "trim_value data v e = (e', d) \<Longrightarrow> length d = length data"
  by (induction data v e arbitrary: e' d rule: trim_value.induct) (subst (asm) (2) trim_value.simps, auto split: if_splits)

lemma length_req_field: "httpd_req_field req app line data m = (s, req', d) \<Longrightarrow> length d = length data"
  by (auto simp: httpd_req_field_def Let_def dest: length_trim_value split: option.splits if_splits prod.splits)

text \<open>The loop over the header lines: the status, the request and the buffer.\<close>

function parse_fields :: "stream_app \<Rightarrow> httpd_limits \<Rightarrow> httpd_req \<Rightarrow> bytes \<Rightarrow> nat \<Rightarrow> nat \<Rightarrow> (nat \<times> httpd_req \<times> bytes) option" where
  "parse_fields app lim req data cursor nf =
     (case httpd_next_line data cursor of
        None \<Rightarrow> None
      | Some (line, cursor, data) \<Rightarrow>
          if data ! line = 0 then Some (0, req, data)
          else if nf + 1 > lm_fields lim then Some (431, req, data)
          else
            case httpd_req_field req app line data (lm_body lim) of
              (status, req, data) \<Rightarrow>
                if status \<noteq> 0 then Some (status, req, data) else parse_fields app lim req data cursor (nf + 1))"
  by pat_completeness auto
termination
  by (relation "measure (\<lambda>(app, lim, req, data, cursor, nf). length data - cursor)")
    (auto dest!: next_line_forward length_req_field [OF sym])

declare parse_fields.simps [simp del]

definition httpd_req_parse :: "bytes \<Rightarrow> nat \<Rightarrow> stream_app \<Rightarrow> httpd_limits \<Rightarrow> (nat \<times> httpd_req \<times> bytes) option" where
  "httpd_req_parse data len app lim =
     (let req = req_zero\<lparr>rq_head := len mod 2 ^ 16\<rparr>
      in if memchr 0 (take len data) \<noteq> None then Some (400, req, data)
         else
           case httpd_next_line data 0 of
             None \<Rightarrow> None
           | Some (line, cursor, data) \<Rightarrow>
               case httpd_req_line req line data of
                 (status, req, data) \<Rightarrow>
                   if status \<noteq> 0 then Some (status, req, data)
                   else
                     case parse_fields app lim req data cursor 0 of
                       None \<Rightarrow> None
                     | Some (status, req, data) \<Rightarrow>
                         if status \<noteq> 0 then Some (status, req, data)
                         else Some (if flag REQ_CHUNKED req \<and> (flag REQ_LENGTH req \<or> flag REQ_HTTP10 req) then 400 else 0, req, data))"

section \<open>What a head says\<close>

text \<open>Lines, as the text between line feeds; a carriage return at the end of one belongs to its end.\<close>

definition strip :: "bytes \<Rightarrow> bytes" where
  "strip l = (if l \<noteq> [] \<and> last l = 13 then butlast l else l)"

definition head_lines :: "bytes list \<Rightarrow> bytes" where
  "head_lines ls = concat (map (\<lambda>l. l @ [10]) ls)"

text \<open>The name and the value of a header line.\<close>

definition trim_end :: "bytes \<Rightarrow> bytes" where
  "trim_end s = rev (dropWhile (\<lambda>c. c \<in> {32, 9}) (rev s))"

definition split_field :: "bytes \<Rightarrow> (bytes \<times> bytes) option" where
  "split_field l =
     (let name = takeWhile (\<lambda>c. c \<noteq> 58) l; rest = dropWhile (\<lambda>c. c \<noteq> 58) l
      in if rest = [] \<or> name = [] \<or> \<not> list_all httpd_tchar name \<or> list_ex httpd_ctl (dropWhile (\<lambda>c. c \<in> {32, 9}) (tl rest)) then None
         else Some (name, trim_end (dropWhile (\<lambda>c. c \<in> {32, 9}) (tl rest))))"

text \<open>What a request says: the kept fields as the strings they are.\<close>

record said =
  sd_flags :: u32
  sd_body :: nat
  sd_host :: "bytes option"
  sd_origin :: "bytes option"
  sd_auth :: "bytes option"
  sd_acrh :: "bytes option"
  sd_app :: "bytes option list"

definition keep :: "bytes option \<Rightarrow> bytes \<Rightarrow> bool \<Rightarrow> nat \<times> bytes option" where
  "keep kept v is_list = (case kept of None \<Rightarrow> (0, Some v) | Some w \<Rightarrow> (if is_list then 0 else 400, Some w))"

fun field_index :: "bytes list \<Rightarrow> bytes \<Rightarrow> nat option" where
  "field_index [] name = None"
| "field_index (f # fs) name = (if map fold_case name = map fold_case f then Some 0 else map_option Suc (field_index fs name))"

definition say :: "stream_app \<Rightarrow> nat \<Rightarrow> said \<Rightarrow> bytes \<times> bytes \<Rightarrow> nat \<times> said" where
  "say app max_body sd nv =
     (case nv of (name, v) \<Rightarrow>
      let has = bit (sd_flags sd); on = (\<lambda>b. sd\<lparr>sd_flags := sd_flags sd OR push_bit b 1\<rparr>);
          off = (\<lambda>b sd. sd\<lparr>sd_flags := sd_flags sd AND NOT (push_bit b 1)\<rparr>) in
      case httpd_header name of
        HEADER_HOST \<Rightarrow> let (s, k) = keep (sd_host sd) v False in (s, sd\<lparr>sd_host := k\<rparr>)
      | HEADER_ORIGIN \<Rightarrow> let (s, k) = keep (sd_origin sd) v False in (s, sd\<lparr>sd_origin := k\<rparr>)
      | HEADER_AUTHORIZATION \<Rightarrow> let (s, k) = keep (sd_auth sd) v False in (s, sd\<lparr>sd_auth := k\<rparr>)
      | HEADER_ACRH \<Rightarrow> let (s, k) = keep (sd_acrh sd) v False in (s, sd\<lparr>sd_acrh := k\<rparr>)
      | HEADER_CONTENT_LENGTH \<Rightarrow>
          if v = [] \<or> \<not> list_all is_digit v \<or> has REQ_LENGTH then (400, sd)
          else if dec_val v > max_body then (413, sd) else (0, (on REQ_LENGTH)\<lparr>sd_body := dec_val v\<rparr>)
      | HEADER_TRANSFER_ENCODING \<Rightarrow>
          if has REQ_CHUNKED then (400, sd)
          else if \<not> strcasecmp_equal v (ascii ''chunked'') then (501, sd) else (0, on REQ_CHUNKED)
      | HEADER_CONNECTION \<Rightarrow>
          (0, if cstr_view_list_has v (ascii ''close'') then on REQ_CLOSE
              else if has REQ_HTTP10 \<and> cstr_view_list_has v (ascii ''keep-alive'') then off REQ_CLOSE sd else sd)
      | HEADER_EXPECT \<Rightarrow>
          if \<not> strcasecmp_equal v (ascii ''100-continue'') then (417, sd) else (0, if has REQ_HTTP10 then sd else on REQ_EXPECT)
      | HEADER_PNA \<Rightarrow>
          (0, if strcasecmp_equal v (ascii ''true'') then (off REQ_PNA sd)\<lparr>sd_flags := sd_flags (off REQ_PNA sd) OR push_bit REQ_PNA 1\<rparr>
              else off REQ_PNA sd)
      | HEADERS \<Rightarrow>
          case field_index (app_fields app) name of
            None \<Rightarrow> (0, sd)
          | Some i \<Rightarrow> let (s, k) = keep (sd_app sd ! i) v (bit (app_lists app) i) in (s, sd\<lparr>sd_app := (sd_app sd)[i := k]\<rparr>))"

text \<open>How a field of the request shows a string of the buffer, which ends before the place \<open>p\<close>.\<close>

definition field_shows :: "nat \<Rightarrow> bytes \<Rightarrow> httpd_field \<Rightarrow> bytes option \<Rightarrow> bool" where
  "field_shows p data f v \<longleftrightarrow>
     (case v of None \<Rightarrow> fld_off f = 0
      | Some s \<Rightarrow> fld_off f \<noteq> 0 \<and> fld_len f = length s \<and> fld_off f + length s < p \<and> cstr_at data (fld_off f) = s)"

definition req_says :: "nat \<Rightarrow> bytes \<Rightarrow> httpd_req \<Rightarrow> said \<Rightarrow> bool" where
  "req_says p data req sd \<longleftrightarrow>
     rq_flags req = sd_flags sd \<and> rq_body req = sd_body sd \<and> field_shows p data (rq_host req) (sd_host sd) \<and>
     field_shows p data (rq_origin req) (sd_origin sd) \<and> field_shows p data (rq_auth req) (sd_auth sd) \<and>
     field_shows p data (rq_acrh req) (sd_acrh sd) \<and> list_all2 (field_shows p data) (rq_app req) (sd_app sd)"

section \<open>Facts: C strings\<close>

lemma length_trim_end: "length (trim_end s) \<le> length s"
  unfolding trim_end_def by (metis length_dropWhile_le length_rev)

lemma replicate_two: "replicate k x @ [x, x] = x # x # replicate k x"
  by (induction k) simp_all

lemma cstr_at_append: "length a = p \<Longrightarrow> 0 \<notin> set s \<Longrightarrow> cstr_at (a @ s @ 0 # b) p = s"
  by (simp add: cstr_at_def takeWhile_tail)

lemma memchr_mid: "c \<notin> set s \<Longrightarrow> memchr c (s @ c # b) = Some (length s)"
  by simp

lemma strchr_line:
  assumes "length a = p" "c \<notin> set s" "0 \<notin> set s" "c \<noteq> 0"
  shows "strchr (a @ s @ c # b) p c = Some (p + length s)"
proof -
  have "cstr_at (a @ s @ c # b) p = s @ c # takeWhile (\<lambda>c. c \<noteq> 0) b"
    using assms by (simp add: cstr_at_def takeWhile_append)
  then show ?thesis using assms(2) by (simp add: strchr_def)
qed

lemma next_line_spec:
  assumes "length a = p" "10 \<notin> set l" "0 \<notin> set l"
  shows "httpd_next_line (a @ l @ 10 # b) p = Some (p, p + length l + 1, a @ strip l @ replicate (length l + 1 - length (strip l)) 0 @ b)"
proof -
  have s: "strchr (a @ l @ 10 # b) p 10 = Some (p + length l)" using assms by (intro strchr_line) simp_all
  have u: "(a @ l @ 10 # b)[p + length l := 0] = a @ l @ 0 # b" using assms(1) by (simp add: list_update_append)
  show ?thesis
  proof (cases "l \<noteq> [] \<and> last l = 13")
    case True
    then obtain l' where l: "l = l' @ [13]" by (metis append_butlast_last_id)
    have "(a @ l @ 0 # b) ! (p + length l - 1) = 13" using assms(1) l by (simp add: nth_append)
    moreover have "(a @ l @ 0 # b)[p + length l - 1 := 0] = a @ l' @ 0 # 0 # b" using assms(1) l by (simp add: list_update_append)
    ultimately show ?thesis using s u True l by (simp add: httpd_next_line_def Let_def strip_def numeral_2_eq_2)
  next
    case False
    have "\<not> (p + length l > p \<and> (a @ l @ 0 # b) ! (p + length l - 1) = 13)"
      using assms(1) False by (cases l rule: rev_cases) (auto simp: nth_append)
    moreover have "strip l = l" using False by (auto simp: strip_def)
    ultimately show ?thesis by (simp only: httpd_next_line_def s u option.case Let_def if_False) simp
  qed
qed

lemma field_trim_snoc: "trim_end (s @ [c]) = (if c \<in> {32, 9} then trim_end s else s @ [c])"
  by (simp add: trim_end_def)

lemma trim_value_spec:
  "length a = v \<Longrightarrow> trim_value (a @ s @ 0 # b) v (v + length s) =
     (v + length (trim_end s), a @ trim_end s @ replicate (length s - length (trim_end s)) 0 @ 0 # b)"
proof (induction s arbitrary: b rule: rev_induct)
  case Nil
  then show ?case by (subst trim_value.simps) (simp add: trim_end_def)
next
  case (snoc c s)
  have n: "(a @ (s @ [c]) @ 0 # b) ! (v + length (s @ [c]) - 1) = c" using snoc.prems by (simp add: nth_append)
  show ?case
  proof (cases "c = 32 \<or> c = 9")
    case True
    have "(a @ (s @ [c]) @ 0 # b)[v + length (s @ [c]) - 1 := 0] = a @ s @ 0 # 0 # b"
      using snoc.prems by (simp add: list_update_append)
    then have "trim_value (a @ (s @ [c]) @ 0 # b) v (v + length (s @ [c])) = trim_value (a @ s @ 0 # 0 # b) v (v + length s)"
      using n True by (subst trim_value.simps) simp
    also have "\<dots> = (v + length (trim_end s), a @ trim_end s @ replicate (length s - length (trim_end s)) 0 @ 0 # 0 # b)"
      by (rule snoc.IH [OF snoc.prems])
    finally show ?thesis using True length_trim_end [of s]
      by (simp add: field_trim_snoc Suc_diff_le replicate_two replicate_append_same)
  next
    case False
    then have "trim_value (a @ (s @ [c]) @ 0 # b) v (v + length (s @ [c])) = (v + length (s @ [c]), a @ (s @ [c]) @ 0 # b)"
      using n by (subst trim_value.simps) simp
    then show ?thesis using False by (simp add: field_trim_snoc)
  qed
qed

lemma strspn_eq: "strspn s w = length (takeWhile (\<lambda>c. c \<in> set w) s)"
  by (simp add: strspn_def)

lemma httpd_token_iff: "httpd_token s \<longleftrightarrow> list_all httpd_tchar s"
  unfolding httpd_token_def list_all_iff by (metis takeWhile_eq_all_conv takeWhile_eq_take take_all_iff order_refl length_takeWhile_le)

lemma trim_end_prefix: "\<exists>t. s = trim_end s @ t \<and> set t \<subseteq> {32, 9}"
proof -
  have "rev s = takeWhile (\<lambda>c. c \<in> {32, 9}) (rev s) @ dropWhile (\<lambda>c. c \<in> {32, 9}) (rev s)" by simp
  then have "s = rev (dropWhile (\<lambda>c. c \<in> {32, 9}) (rev s)) @ rev (takeWhile (\<lambda>c. c \<in> {32, 9}) (rev s))"
    by (metis rev_append rev_rev_ident)
  moreover have "set (takeWhile (\<lambda>c. c \<in> {32, 9}) (rev s)) \<subseteq> {32, 9}" by (auto dest: set_takeWhileD)
  ultimately show ?thesis unfolding trim_end_def by (metis set_rev)
qed

lemma req_field_spec:
  assumes a: "length a = p" and z: "0 \<notin> set l"
  shows "case split_field l of
      None \<Rightarrow> \<exists>d. length d = length l \<and> httpd_req_field req app p (a @ l @ 0 # b) m = (400, req, a @ d @ 0 # b)
    | Some (name, v) \<Rightarrow> \<exists>ws k. 0 \<notin> set name \<and> 0 \<notin> set v \<and> length (name @ 0 # ws @ v @ replicate k 0) = length l \<and>
        httpd_req_field req app p (a @ l @ 0 # b) m =
          (let (status, req) = httpd_req_header req app name v (field_at (p + length name + 1 + length ws) (length v)) m
           in (status, req, a @ name @ 0 # ws @ v @ replicate k 0 @ 0 # b))"
proof (cases "58 \<in> set l")
  case False
  then have "takeWhile (\<lambda>c. c \<noteq> 58) l = l" "dropWhile (\<lambda>c. c \<noteq> 58) l = []" by auto
  moreover have "strchr (a @ l @ 0 # b) p (ch CHR '':'') = None"
    using False cstr_at_append [OF a z, of b] by (simp add: strchr_def memchr_None_iff)
  ultimately show ?thesis by (simp add: split_field_def httpd_req_field_def)
next
  case True
  define name where "name = takeWhile (\<lambda>c. c \<noteq> 58) l"
  define r where "r = tl (dropWhile (\<lambda>c. c \<noteq> 58) l)"
  have dw: "dropWhile (\<lambda>c. c \<noteq> 58) l = 58 # r"
    using True by (simp add: r_def) (metis (mono_tags, lifting) dropWhile_eq_Nil_conv hd_dropWhile list.collapse)
  have l: "l = name @ 58 # r" using takeWhile_dropWhile_id [of "\<lambda>c. c \<noteq> 58" l] dw by (simp add: name_def)
  have n58: "58 \<notin> set name" unfolding name_def using set_takeWhileD by force
  have z': "0 \<notin> set name" "0 \<notin> set r" using z l by simp_all
  have data: "a @ l @ 0 # b = a @ name @ 58 # (r @ 0 # b)" by (simp add: l)
  have colon: "strchr (a @ l @ 0 # b) p (ch CHR '':'') = Some (p + length name)"
    unfolding data using strchr_line [OF a n58 z'(1), of "r @ 0 # b"] by simp
  have upd: "(a @ l @ 0 # b)[p + length name := 0] = a @ name @ 0 # r @ 0 # b" using a by (simp add: l list_update_append)
  have tok: "cstr_at (a @ name @ 0 # r @ 0 # b) p = name" by (rule cstr_at_append [OF a z'(1)])
  have rest: "cstr_at (a @ name @ 0 # r @ 0 # b) (p + length name + 1) = r"
    using cstr_at_append [of "a @ name @ [0]" "p + length name + 1" r b] a z'(2) by simp
  define ws where "ws = takeWhile (\<lambda>c. c \<in> {32, 9}) r"
  define w where "w = dropWhile (\<lambda>c. c \<in> {32, 9}) r"
  have r: "r = ws @ w" by (simp add: ws_def w_def)
  have zw: "0 \<notin> set w" using z'(2) r by simp
  have spn: "strspn r [ch CHR '' '', 9] = length ws" by (simp add: strspn_eq ws_def)
  have val: "cstr_at (a @ name @ 0 # r @ 0 # b) (p + length name + 1 + length ws) = w"
    using cstr_at_append [of "a @ name @ 0 # ws" "p + length name + 1 + length ws" w b] a zw r by simp
  have sf: "split_field l = (if name = [] \<or> \<not> list_all httpd_tchar name \<or> list_ex httpd_ctl w then None else Some (name, trim_end w))"
    by (simp add: split_field_def dw name_def [symmetric] w_def)
  show ?thesis
  proof (cases "name = [] \<or> \<not> list_all httpd_tchar name \<or> list_ex httpd_ctl w")
    case True
    have "httpd_req_field req app p (a @ l @ 0 # b) m = (400, req, a @ (if name = [] then l else name @ 0 # r) @ 0 # b)"
      using True colon upd tok rest spn val by (auto simp: httpd_req_field_def Let_def httpd_token_iff)
    moreover have "length (if name = [] then l else name @ 0 # r) = length l" by (simp add: l)
    ultimately show ?thesis using True sf by auto
  next
    case False
    let ?v = "trim_end w"
    define k where "k = length w - length ?v"
    have trim: "trim_value (a @ name @ 0 # r @ 0 # b) (p + length name + 1 + length ws) (p + length name + 1 + length ws + length w) =
        (p + length name + 1 + length ws + length ?v, a @ name @ 0 # ws @ ?v @ replicate k 0 @ 0 # b)"
      using trim_value_spec [of "a @ name @ 0 # ws" "p + length name + 1 + length ws" w b] a r by (simp add: k_def)
    obtain t where t: "w = ?v @ t" using trim_end_prefix by blast
    have zv: "0 \<notin> set ?v" using zw t by (metis Un_iff set_append)
    have val': "cstr_at (a @ name @ 0 # ws @ ?v @ replicate k 0 @ 0 # b) (p + length name + 1 + length ws) = ?v"
    proof -
      have "replicate k 0 @ 0 # b = 0 # replicate k 0 @ b" by (rule replicate_app_Cons_same)
      then show ?thesis using cstr_at_append [of "a @ name @ 0 # ws" "p + length name + 1 + length ws" ?v "replicate k 0 @ b"] a zv
        by (simp add: replicate_app_Cons_same)
    qed
    have nm: "take (p + length name - p) (drop p (a @ name @ 0 # ws @ ?v @ replicate k 0 @ 0 # b)) = name" using a by simp
    have "httpd_req_field req app p (a @ l @ 0 # b) m =
          (let (status, req) = httpd_req_header req app name ?v (field_at (p + length name + 1 + length ws) (length ?v)) m
           in (status, req, a @ name @ 0 # ws @ ?v @ replicate k 0 @ 0 # b))"
      using False colon upd tok rest spn val trim val' nm by (simp add: httpd_req_field_def Let_def httpd_token_iff)
    moreover have "length (name @ 0 # ws @ ?v @ replicate k 0) = length l" using l r length_trim_end [of w] by (simp add: k_def)
    ultimately show ?thesis using sf False z'(1) zv by (auto intro!: exI [of _ ws] exI [of _ k])
  qed
qed

section \<open>Facts: the fields\<close>

lemma field_index_less: "field_index fs name = Some i \<Longrightarrow> i < length fs"
  by (induction fs arbitrary: i) (auto split: if_splits)

lemma app_loop_eq:
  "app_loop req fs lsts i name f =
     (case field_index fs name of None \<Rightarrow> (0, req)
      | Some j \<Rightarrow> let (status, kept) = httpd_field_keep (rq_app req ! (i + j)) f (bit lsts (i + j))
                in (status, req\<lparr>rq_app := (rq_app req)[i + j := kept]\<rparr>))"
  by (induction fs arbitrary: i) (simp_all add: equal_case_iff split: option.split)

lemma field_keep_says:
  assumes "field_shows p data kept old" "field_shows q data f (Some v)" "p \<le> q" "httpd_field_keep kept f l = (s, kept')"
  shows "\<exists>new. keep old v l = (s, new) \<and> field_shows q data kept' new"
  using assms by (auto simp: httpd_field_keep_def keep_def field_shows_def split: option.splits if_splits)

lemma field_shows_later: "field_shows p data f v \<Longrightarrow> p \<le> q \<Longrightarrow> field_shows q data f v"
  by (auto simp: field_shows_def split: option.splits)

lemma req_says_later: "req_says p data req sd \<Longrightarrow> p \<le> q \<Longrightarrow> req_says q data req sd"
  by (auto simp: req_says_def intro: field_shows_later elim!: list_all2_mono)

lemma digits_are: "c \<in> set digits \<longleftrightarrow> is_digit c"
proof -
  have "list_all (\<lambda>c. (c \<in> set digits) = is_digit c) all_bytes" unfolding all_bytes_num by code_simp
  from byte_cases [OF this] show ?thesis .
qed

lemma req_length_says:
  assumes says: "req_says p data req sd" and m: "m < 2 ^ 64" and name: "httpd_header name = HEADER_CONTENT_LENGTH"
    and r: "httpd_req_length req v m = (s, req')"
  shows "\<exists>sd'. say app m sd (name, v) = (s, sd') \<and> req_says p data req' sd'"
proof -
  have sp: "strspn v digits = length (takeWhile is_digit v)" by (simp add: strspn_eq digits_are)
  have fl: "flag REQ_LENGTH req = bit (sd_flags sd) REQ_LENGTH" using says by (simp add: flag_def req_says_def)
  show ?thesis
  proof (cases "v = [] \<or> \<not> list_all is_digit v \<or> flag REQ_LENGTH req")
    case True
    have "strspn v digits = 0 \<or> strspn v digits < length v \<or> flag REQ_LENGTH req"
    proof (rule ccontr)
      assume "\<not> ?thesis"
      then have "length v \<le> length (takeWhile is_digit v)" "v \<noteq> []" "\<not> flag REQ_LENGTH req" using sp by auto
      then have "takeWhile is_digit v = v" by (metis length_takeWhile_le le_antisym takeWhile_eq_take take_all)
      then have "list_all is_digit v" by (metis list_all_iff takeWhile_eq_all_conv)
      then show False using True \<open>v \<noteq> []\<close> \<open>\<not> flag REQ_LENGTH req\<close> by simp
    qed
    then have "s = 400 \<and> req' = req" using r by (auto simp: httpd_req_length_def Let_def split: if_splits)
    moreover have "say app m sd (name, v) = (400, sd)" using True fl by (simp add: say_def name)
    ultimately show ?thesis using says by simp
  next
    case False
    then have d: "takeWhile is_digit v = v" "strspn v digits = length v" "v \<noteq> []"
      by (simp_all add: sp list_all_iff takeWhile_eq_all_conv [THEN iffD2])
    have u: "util_digits v (of_nat m) = (if dec_val v \<le> m then (length v, of_nat (dec_val v)) else (0, 0))"
    proof -
      have "unat (of_nat m :: u64) = m" using m by simp
      then show ?thesis by (simp only: util_digits_eq d(1) Let_def)
    qed
    show ?thesis
    proof (cases "dec_val v \<le> m")
      case True
      then have "s = 0" "req' = set_flag REQ_LENGTH (req\<lparr>rq_body := dec_val v\<rparr>)"
        using r d u False m by (simp_all add: httpd_req_length_def Let_def)
      moreover have "say app m sd (name, v) = (0, sd\<lparr>sd_flags := sd_flags sd OR push_bit REQ_LENGTH 1, sd_body := dec_val v\<rparr>)"
        using True False fl by (simp add: say_def name not_less)
      ultimately show ?thesis using says by (simp add: req_says_def set_flag_def)
    next
      case over: False
      then have "s = 413" "req' = req" using r d u False by (simp_all add: httpd_req_length_def Let_def)
      moreover have "say app m sd (name, v) = (413, sd)" using over False fl by (simp add: say_def name not_le)
      ultimately show ?thesis using says by simp
    qed
  qed
qed

lemma req_header_says:
  assumes says: "req_says p data req sd" and m: "m < 2 ^ 64" and f: "field_shows q data f (Some v)" and q: "p \<le> q"
    and app: "length (app_fields app) \<le> length (sd_app sd)" and r: "httpd_req_header req app name v f m = (s, req')"
  shows "\<exists>sd'. say app m sd (name, v) = (s, sd') \<and> req_says q data req' sd' \<and> length (sd_app sd') = length (sd_app sd)"
proof -
  note later = req_says_later [OF says q]
  have fl: "flag b req = bit (sd_flags sd) b" for b using says by (simp add: flag_def req_says_def)
  have fv: "take (fld_len f) v = v" using f by (simp add: field_shows_def)
  show ?thesis
  proof (cases "httpd_header name")
    case HEADER_HOST
    obtain k where "httpd_field_keep (rq_host req) f False = (s, k)" "req' = req\<lparr>rq_host := k\<rparr>"
      using r HEADER_HOST by (auto simp: httpd_req_header_def split: prod.splits)
    then show ?thesis using field_keep_says [OF _ f q, of "rq_host req" "sd_host sd" False s k] says later HEADER_HOST
      by (auto simp: req_says_def say_def)
  next
    case HEADER_ORIGIN
    obtain k where "httpd_field_keep (rq_origin req) f False = (s, k)" "req' = req\<lparr>rq_origin := k\<rparr>"
      using r HEADER_ORIGIN by (auto simp: httpd_req_header_def split: prod.splits)
    then show ?thesis using field_keep_says [OF _ f q, of "rq_origin req" "sd_origin sd" False s k] says later HEADER_ORIGIN
      by (auto simp: req_says_def say_def)
  next
    case HEADER_AUTHORIZATION
    obtain k where "httpd_field_keep (rq_auth req) f False = (s, k)" "req' = req\<lparr>rq_auth := k\<rparr>"
      using r HEADER_AUTHORIZATION by (auto simp: httpd_req_header_def split: prod.splits)
    then show ?thesis using field_keep_says [OF _ f q, of "rq_auth req" "sd_auth sd" False s k] says later HEADER_AUTHORIZATION
      by (auto simp: req_says_def say_def)
  next
    case HEADER_ACRH
    obtain k where "httpd_field_keep (rq_acrh req) f False = (s, k)" "req' = req\<lparr>rq_acrh := k\<rparr>"
      using r HEADER_ACRH by (auto simp: httpd_req_header_def split: prod.splits)
    then show ?thesis using field_keep_says [OF _ f q, of "rq_acrh req" "sd_acrh sd" False s k] says later HEADER_ACRH
      by (auto simp: req_says_def say_def)
  next
    case HEADER_CONTENT_LENGTH
    then have "httpd_req_length req v m = (s, req')" using r by (simp add: httpd_req_header_def)
    from req_length_says [OF later m HEADER_CONTENT_LENGTH this, of app] show ?thesis
      using HEADER_CONTENT_LENGTH by (auto simp: say_def Let_def split: if_splits)
  next
    case HEADER_TRANSFER_ENCODING
    then show ?thesis using r later by (auto simp: httpd_req_header_def say_def fl set_flag_def req_says_def split: if_splits)
  next
    case HEADER_CONNECTION
    then show ?thesis using r later fv
      by (auto simp: httpd_req_header_def say_def fl set_flag_def clear_flag_def req_says_def)
  next
    case HEADER_EXPECT
    then show ?thesis using r later by (auto simp: httpd_req_header_def say_def fl set_flag_def req_says_def split: if_splits)
  next
    case HEADER_PNA
    then show ?thesis using r later
      by (auto simp: httpd_req_header_def say_def fl set_flag_def clear_flag_def req_says_def)
  next
    case HEADERS
    show ?thesis
    proof (cases "field_index (app_fields app) name")
      case None
      then show ?thesis using HEADERS r later by (auto simp: httpd_req_header_def httpd_req_app_def app_loop_eq say_def)
    next
      case (Some i)
      then have i: "i < length (sd_app sd)" using field_index_less app by fastforce
      obtain k where k: "httpd_field_keep (rq_app req ! i) f (bit (app_lists app) i) = (s, k)" "req' = req\<lparr>rq_app := (rq_app req)[i := k]\<rparr>"
        using r HEADERS Some by (auto simp: httpd_req_header_def httpd_req_app_def app_loop_eq split: prod.splits)
      have "field_shows p data (rq_app req ! i) (sd_app sd ! i)"
        using says i by (auto simp: req_says_def list_all2_conv_all_nth)
      from field_keep_says [OF this f q k(1)] obtain new where
        n: "keep (sd_app sd ! i) v (bit (app_lists app) i) = (s, new)" "field_shows q data k new" by blast
      have "list_all2 (field_shows q data) ((rq_app req)[i := k]) ((sd_app sd)[i := new])"
        using later n(2) by (intro list_all2_update_cong) (simp_all add: req_says_def)
      then show ?thesis using later k(2) n(1) HEADERS Some by (simp add: say_def req_says_def)
    qed
  qed
qed

section \<open>Facts: the lines\<close>

lemma cstr_at_stable:
  assumes "cstr_at data i = s" "i + length s < p" "p \<le> length data" "take p data' = take p data"
  shows "cstr_at data' i = s"
proof -
  let ?P = "\<lambda>c :: byte. c \<noteq> 0" and ?y = "take (p - i) (drop i data)"
  have y: "take (p - i) (drop i data') = ?y" unfolding drop_take [symmetric] assms(4) ..
  have l: "length ?y = p - i" using assms(3) by simp
  have "takeWhile ?P (drop i d) = s" if d: "take (p - i) (drop i d) = ?y" for d
  proof -
    have split: "drop i d = ?y @ drop (p - i) (drop i d)" "drop i data = ?y @ drop (p - i) (drop i data)"
      using d by (metis append_take_drop_id)+
    have short: "length (takeWhile ?P (drop i data)) < length ?y" using assms(1,2) l by (simp add: cstr_at_def)
    have "\<not> (\<forall>c \<in> set ?y. ?P c)"
    proof
      assume "\<forall>c \<in> set ?y. ?P c"
      then have "takeWhile ?P (?y @ drop (p - i) (drop i data)) = ?y @ takeWhile ?P (drop (p - i) (drop i data))"
        by (intro takeWhile_append2) blast
      then have "takeWhile ?P (drop i data) = ?y @ takeWhile ?P (drop (p - i) (drop i data))" unfolding split(2) [symmetric] .
      from arg_cong [OF this, of length] show False using short by (simp only: length_append)
    qed
    then obtain c where c: "c \<in> set ?y" "\<not> ?P c" by auto
    have "takeWhile ?P (drop i d) = takeWhile ?P ?y" by (subst split(1)) (rule takeWhile_append1 [where P = ?P, OF c])
    also have "\<dots> = takeWhile ?P (drop i data)" by (subst split(2)) (rule takeWhile_append1 [where P = ?P, OF c, symmetric])
    finally show ?thesis using assms(1) by (simp add: cstr_at_def)
  qed
  from this [of data'] y show ?thesis by (simp add: cstr_at_def)
qed

lemma field_shows_stable:
  "field_shows p data f v \<Longrightarrow> p \<le> length data \<Longrightarrow> take p data' = take p data \<Longrightarrow> field_shows p data' f v"
  by (cases v) (simp_all add: field_shows_def cstr_at_stable [of data "fld_off f" "the v" p data'])

lemma req_says_stable:
  "req_says p data req sd \<Longrightarrow> p \<le> length data \<Longrightarrow> take p data' = take p data \<Longrightarrow> req_says p data' req sd"
  by (auto simp: req_says_def intro: field_shows_stable elim!: list_all2_mono)

lemma strip_length: "length (strip l) \<le> length l" "set (strip l) \<subseteq> set l"
  by (auto simp: strip_def dest: in_set_butlastD)

fun fields_say :: "stream_app \<Rightarrow> httpd_limits \<Rightarrow> said \<Rightarrow> bytes list \<Rightarrow> nat \<Rightarrow> nat \<times> said" where
  "fields_say app lim sd [] n = (0, sd)"
| "fields_say app lim sd (l # ls) n =
     (if n + 1 > lm_fields lim then (431, sd)
      else case split_field l of
        None \<Rightarrow> (400, sd)
      | Some nv \<Rightarrow> let (s, sd) = say app (lm_body lim) sd nv in if s \<noteq> 0 then (s, sd) else fields_say app lim sd ls (n + 1))"

lemma head_lines_simps [simp]: "head_lines [] = []" "head_lines (l # ls) = l @ 10 # head_lines ls"
  by (simp_all add: head_lines_def)

lemma head_lines_append [simp]: "head_lines (a @ b) = head_lines a @ head_lines b"
  by (induction a) simp_all

definition line_ok :: "bytes \<Rightarrow> bool" where
  "line_ok l \<longleftrightarrow> 0 \<notin> set l \<and> 10 \<notin> set l"

lemma next_line_begins:
  assumes "length a = p" "line_ok l"
  shows "\<exists>k. httpd_next_line (a @ l @ 10 # b) p = Some (p, p + length l + 1, a @ strip l @ 0 # replicate k 0 @ b) \<and>
     length (strip l) + 1 + k = length l + 1"
proof -
  have "length l + 1 - length (strip l) = Suc (length l - length (strip l))" using strip_length(1) [of l] by simp
  then show ?thesis using next_line_spec [OF assms(1), of l b] assms(2) strip_length(1) [of l]
    by (intro exI [of _ "length l - length (strip l)"]) (simp add: line_ok_def)
qed

lemma parse_fields_spec:
  assumes "lm_body lim < 2 ^ 64" "length (app_fields app) \<le> length (sd_app sd)" "line_ok e" "strip e = []"
    "list_all (\<lambda>l. line_ok l \<and> strip l \<noteq> []) ls" "length a = p" "p > 0" "p + length (head_lines (ls @ [e])) < 2 ^ 16"
    "req_says p (a @ head_lines (ls @ [e]) @ rest) req sd"
  shows "\<exists>s req' d sd'. parse_fields app lim req (a @ head_lines (ls @ [e]) @ rest) p n = Some (s, req', d @ rest) \<and>
     length d = p + length (head_lines (ls @ [e])) \<and> take p d = a \<and>
     fields_say app lim sd (map strip ls) n = (s, sd') \<and> (s = 0 \<longrightarrow> req_says (length d) (d @ rest) req' sd')"
  using assms(2,5-)
proof (induction ls arbitrary: a p req sd n)
  case Nil
  obtain k where k: "httpd_next_line (a @ e @ 10 # rest) p = Some (p, p + length e + 1, a @ strip e @ 0 # replicate k 0 @ rest)"
      "length (strip e) + 1 + k = length e + 1"
    using next_line_begins [OF Nil.prems(3) assms(3)] by blast
  let ?d = "a @ 0 # replicate k 0"
  have n: "httpd_next_line (a @ head_lines ([] @ [e]) @ rest) p = Some (p, p + length e + 1, ?d @ rest)" using k(1) assms(4) by simp
  have "(?d @ rest) ! p = 0" using Nil.prems(3) by (simp add: nth_append)
  then have "parse_fields app lim req (a @ head_lines ([] @ [e]) @ rest) p n = Some (0, req, ?d @ rest)"
    by (subst parse_fields.simps) (simp only: n option.case prod.case if_True refl)
  moreover have "length ?d = p + length (head_lines ([] @ [e]))" using k(2) assms(4) Nil.prems(3) by simp
  moreover have "req_says (length ?d) (?d @ rest) req sd"
  proof (rule req_says_later [of p])
    show "req_says p (?d @ rest) req sd" using Nil.prems(3) by (intro req_says_stable [OF Nil.prems(6)]) simp_all
  qed (simp add: Nil.prems(3))
  ultimately show ?case using Nil.prems(3) by (intro exI [of _ 0] exI [of _ req] exI [of _ ?d] exI [of _ sd]) simp
next
  case (Cons l ls)
  let ?tail = "head_lines (ls @ [e]) @ rest"
  have l: "line_ok l" "strip l \<noteq> []" using Cons.prems(2) by simp_all
  obtain k where k: "httpd_next_line (a @ l @ 10 # ?tail) p = Some (p, p + length l + 1, a @ strip l @ 0 # replicate k 0 @ ?tail)"
      "length (strip l) + 1 + k = length l + 1"
    using next_line_begins [OF Cons.prems(3) l(1)] by blast
  have data: "a @ head_lines ((l # ls) @ [e]) @ rest = a @ l @ 10 # ?tail" by simp
  have z: "0 \<notin> set (strip l)" using l(1) strip_length(2) [of l] by (auto simp: line_ok_def)
  have "(a @ strip l @ 0 # replicate k 0 @ ?tail) ! p = hd (strip l)" using Cons.prems(3) l(2) by (simp add: nth_append hd_conv_nth)
  moreover have "hd (strip l) \<noteq> 0" using z l(2) by (metis list.set_sel(1))
  ultimately have nz: "\<not> (a @ strip l @ 0 # replicate k 0 @ ?tail) ! p = 0" by simp
  have step: "parse_fields app lim req (a @ l @ 10 # ?tail) p n =
      (if n + 1 > lm_fields lim then Some (431, req, a @ strip l @ 0 # replicate k 0 @ ?tail)
       else case httpd_req_field req app p (a @ strip l @ 0 # replicate k 0 @ ?tail) (lm_body lim) of
          (status, req, data) \<Rightarrow> if status \<noteq> 0 then Some (status, req, data) else parse_fields app lim req data (p + length l + 1) (n + 1))"
    by (subst parse_fields.simps) (simp only: k(1) option.case prod.case if_not_P [OF nz])
  have whole: "length (a @ strip l @ 0 # replicate k 0) = p + length l + 1" using k(2) Cons.prems(3) by simp
  show ?case
  proof (cases "n + 1 > lm_fields lim")
    case True
    let ?d = "a @ strip l @ 0 # replicate k 0 @ head_lines (ls @ [e])"
    show ?thesis unfolding data step using True whole Cons.prems(3)
      by (intro exI [of _ 431] exI [of _ req] exI [of _ ?d] exI [of _ sd]) simp
  next
    case few: False
    note fs = req_field_spec [OF Cons.prems(3) z, of req app "replicate k 0 @ ?tail" "lm_body lim"]
    show ?thesis
    proof (cases "split_field (strip l)")
      case None
      then obtain d where d: "length d = length (strip l)"
          "httpd_req_field req app p (a @ strip l @ 0 # replicate k 0 @ ?tail) (lm_body lim) = (400, req, a @ d @ 0 # replicate k 0 @ ?tail)"
        using fs by auto
      let ?d = "a @ d @ 0 # replicate k 0 @ head_lines (ls @ [e])"
      have "length ?d = p + length (head_lines ((l # ls) @ [e]))" using d(1) whole Cons.prems(3) k(2) by simp
      then show ?thesis unfolding data step using few d(2) None Cons.prems(3)
        by (intro exI [of _ 400] exI [of _ req] exI [of _ ?d] exI [of _ sd]) simp
    next
      case (Some nv)
      obtain name v where nv: "nv = (name, v)" by (cases nv)
      define off where "off = (\<lambda>ws :: bytes. p + length name + 1 + length ws)"
      obtain ws m where f: "0 \<notin> set name" "0 \<notin> set v" "length (name @ 0 # ws @ v @ replicate m 0) = length (strip l)"
          "httpd_req_field req app p (a @ strip l @ 0 # replicate k 0 @ ?tail) (lm_body lim) =
            (let (status, req) = httpd_req_header req app name v (field_at (off ws) (length v)) (lm_body lim)
             in (status, req, a @ name @ 0 # ws @ v @ replicate m 0 @ 0 # replicate k 0 @ ?tail))"
        using fs Some by (auto simp: nv off_def)
      define a' where "a' = a @ name @ 0 # ws @ v @ replicate m 0 @ 0 # replicate k 0"
      have a': "length a' = p + length l + 1" using f(3) k(2) Cons.prems(3) by (simp add: a'_def)
      obtain s req1 where h: "httpd_req_header req app name v (field_at (off ws) (length v)) (lm_body lim) = (s, req1)" by (metis surj_pair)
      have field: "httpd_req_field req app p (a @ strip l @ 0 # replicate k 0 @ ?tail) (lm_body lim) = (s, req1, a' @ ?tail)"
        using f(4) h by (simp add: a'_def)
      have short: "p + length l + 1 < 2 ^ 16" using Cons.prems(5) by simp
      have "off ws + length v < p + length l + 1" using f(3) k(2) by (simp add: off_def)
      moreover have "cstr_at (a' @ ?tail) (off ws) = v"
        using cstr_at_append [of "a @ name @ 0 # ws" "off ws" v "replicate m 0 @ replicate k 0 @ ?tail"] f(2) Cons.prems(3)
        by (simp add: a'_def off_def replicate_app_Cons_same)
      ultimately have shown: "field_shows (p + length l + 1) (a' @ ?tail) (field_at (off ws) (length v)) (Some v)"
        using short Cons.prems(4) by (simp add: field_shows_def field_at_def off_def)
      have says: "req_says p (a' @ ?tail) req sd"
        using Cons.prems(3) by (intro req_says_stable [OF Cons.prems(6)]) (simp_all add: a'_def)
      obtain sd1 where sd1: "say app (lm_body lim) sd (name, v) = (s, sd1)" "req_says (p + length l + 1) (a' @ ?tail) req1 sd1"
          "length (sd_app sd1) = length (sd_app sd)"
        using req_header_says [OF says assms(1) shown _ Cons.prems(1) h] by auto
      show ?thesis
      proof (cases "s = 0")
        case False
        let ?d = "a' @ head_lines (ls @ [e])"
        have "take p ?d = a" using Cons.prems(3) by (simp add: a'_def)
        moreover have "length ?d = p + length (head_lines ((l # ls) @ [e]))" using a' by simp
        ultimately show ?thesis unfolding data step using few field Some nv sd1(1) False
          by (intro exI [of _ s] exI [of _ req1] exI [of _ ?d] exI [of _ sd1]) simp
      next
        case True
        have bound: "p + length l + 1 + length (head_lines (ls @ [e])) < 2 ^ 16" using Cons.prems(5) by simp
        have app: "length (app_fields app) \<le> length (sd_app sd1)" "list_all (\<lambda>l. line_ok l \<and> strip l \<noteq> []) ls"
          using Cons.prems(1,2) sd1(3) by simp_all
        from Cons.IH [OF app a' _ bound sd1(2), of "n + 1"] obtain s' req' d sd' where
          ih: "parse_fields app lim req1 (a' @ ?tail) (p + length l + 1) (n + 1) = Some (s', req', d @ rest)"
            "length d = p + length l + 1 + length (head_lines (ls @ [e]))" "take (p + length l + 1) d = a'"
            "fields_say app lim sd1 (map strip ls) (n + 1) = (s', sd')" "s' = 0 \<longrightarrow> req_says (length d) (d @ rest) req' sd'"
          by auto
        have "take p d = a"
        proof -
          have "take p (take (p + length l + 1) d) = take p d" by simp
          then have "take p d = take p a'" unfolding ih(3) by simp
          then show ?thesis using Cons.prems(3) by (simp add: a'_def)
        qed
        then show ?thesis unfolding data step using few field Some nv sd1(1) True ih
          by (intro exI [of _ s'] exI [of _ req'] exI [of _ d] exI [of _ sd']) simp
      qed
    qed
  qed
qed

section \<open>Facts: the request line\<close>

definition request_line :: "bytes \<Rightarrow> (bytes \<times> bytes \<times> bytes) option" where
  "request_line l =
     (if list_ex (\<lambda>c. c < ch CHR '' '' \<or> c = 0x7f) l then None
      else case split_on 32 l of
        [m, t, v] \<Rightarrow> if m = [] \<or> t = [] \<or> \<not> list_all httpd_tchar m then None else Some (m, t, v)
      | _ \<Rightarrow> None)"

definition line_status :: "bytes \<Rightarrow> nat" where
  "line_status v =
     (if v = ascii ''HTTP/1.0'' \<or> v = ascii ''HTTP/1.1'' then 0 else if take 5 v \<noteq> ascii ''HTTP/'' then 400 else 505)"

definition line_req :: "bytes \<Rightarrow> bytes \<Rightarrow> bytes \<Rightarrow> httpd_req \<Rightarrow> httpd_req" where
  "line_req m t v req =
     (let req = req\<lparr>rq_target := field_at (length m + 1) (length t)\<rparr>;
          req = (if v = ascii ''HTTP/1.0'' then set_flag REQ_CLOSE (set_flag REQ_HTTP10 req) else req);
          req = (if m = ascii ''OPTIONS'' then set_flag REQ_OPTIONS req else req)
      in if m = ascii ''HEAD'' then set_flag REQ_HEAD req else req)"

lemma split_space:
  assumes "c \<in> set l"
  obtains m r where "l = m @ c # r" "c \<notin> set m"
  using split_list_first [OF assms] by blast

lemma req_line_spec:
  assumes z: "0 \<notin> set l"
  shows "case request_line l of
      None \<Rightarrow> \<exists>req' d. length d = length l \<and> httpd_req_line req 0 (l @ 0 # b) = (400, req', d @ 0 # b)
    | Some (m, t, v) \<Rightarrow> l = m @ 32 # t @ 32 # v \<and> (\<exists>req'. httpd_req_line req 0 (l @ 0 # b) = (line_status v, req', m @ 0 # t @ 0 # v @ 0 # b) \<and>
        (line_status v = 0 \<longrightarrow> req' = line_req m t v req))"
proof -
  have whole: "cstr_at (l @ 0 # b) 0 = l" using cstr_at_append [of "[]" 0 l b] z by simp
  have none: "\<exists>req' d. length d = length l \<and> httpd_req_line req 0 (l @ 0 # b) = (400, req', d @ 0 # b)"
    if "httpd_req_line req 0 (l @ 0 # b) = (400, req, l @ 0 # b)"
    using that by (intro exI [of _ req] exI [of _ l]) simp
  show ?thesis
  proof (cases "list_ex (\<lambda>c. c < ch CHR '' '' \<or> c = 0x7f) l")
    case True
    then have "httpd_req_line req 0 (l @ 0 # b) = (400, req, l @ 0 # b)" by (simp add: httpd_req_line_def whole)
    then show ?thesis using True none by (simp add: request_line_def)
  next
    case ctl: False
    show ?thesis
    proof (cases "32 \<in> set l")
      case False
      then have "strchr (l @ 0 # b) 0 (ch CHR '' '') = None" by (simp add: strchr_def whole memchr_None_iff)
      then have "httpd_req_line req 0 (l @ 0 # b) = (400, req, l @ 0 # b)" using ctl by (simp add: httpd_req_line_def whole)
      then show ?thesis using False ctl none by (simp add: request_line_def)
    next
      case True
      then obtain m r where l: "l = m @ 32 # r" and m: "32 \<notin> set m" by (rule split_space)
      have s1: "strchr (l @ 0 # b) 0 (ch CHR '' '') = Some (length m)"
        using m by (simp only: strchr_def whole) (simp add: l)
      have rest: "cstr_at (l @ 0 # b) (length m + 1) = r"
        using cstr_at_append [of "m @ [32]" "length m + 1" r b] z by (simp add: l)
      show ?thesis
      proof (cases "32 \<in> set r \<and> m \<noteq> []")
        case False
        have "httpd_req_line req 0 (l @ 0 # b) = (400, req, l @ 0 # b)"
        proof (cases "m = []")
          case True
          then show ?thesis using ctl s1 by (simp add: httpd_req_line_def whole)
        next
          case m0: False
          then have "memchr 32 r = None" using False by (simp add: memchr_None_iff)
          then have "strchr (l @ 0 # b) (length m + 1) (ch CHR '' '') = None" by (simp only: strchr_def rest) simp
          then show ?thesis using ctl s1 m0 by (simp add: httpd_req_line_def whole)
        qed
        moreover have "request_line l = None" using False ctl m by (auto simp: request_line_def l split: list.split)
        ultimately show ?thesis using none by simp
      next
        case True
        then obtain t v where r: "r = t @ 32 # v" and t: "32 \<notin> set t" using split_space by metis
        have s2: "strchr (l @ 0 # b) (length m + 1) (ch CHR '' '') = Some (length m + 1 + length t)"
          using t by (simp only: strchr_def rest) (simp add: r)
        have lv: "cstr_at (l @ 0 # b) (length m + 1 + length t + 1) = v"
          using cstr_at_append [of "m @ 32 # t @ [32]" "length m + 1 + length t + 1" v b] z by (simp add: l r)
        have s3: "strchr (l @ 0 # b) (length m + 1 + length t + 1) (ch CHR '' '') = None \<longleftrightarrow> 32 \<notin> set v"
          by (simp only: strchr_def lv) (simp add: memchr_None_iff)
        show ?thesis
        proof (cases "t = [] \<or> 32 \<in> set v")
          case True
          have "httpd_req_line req 0 (l @ 0 # b) = (400, req, l @ 0 # b)"
            using True ctl s1 s2 s3 \<open>32 \<in> set r \<and> m \<noteq> []\<close> by (auto simp: httpd_req_line_def whole)
          moreover have "request_line l = None"
          proof (cases "32 \<in> set v")
            case True
            then obtain x y where "v = x @ 32 # y" "32 \<notin> set x" by (rule split_space)
            then show ?thesis using m t split_on_not_Nil [of 32 y] by (auto simp: request_line_def l r split: list.split)
          next
            case False
            then show ?thesis using True m t by (simp add: request_line_def l r)
          qed
          ultimately show ?thesis using none by simp
        next
          case False
          let ?d = "m @ 0 # t @ 0 # v @ 0 # b"
          have upd: "(l @ 0 # b)[length m := 0, length m + 1 + length t := 0] = ?d"
            by (simp add: l r list_update_append)
          have parts: "cstr_at ?d 0 = m" "cstr_at ?d (length m + 1 + length t + 1) = v"
            using cstr_at_append [of "[]" 0 m "t @ 0 # v @ 0 # b"] cstr_at_append [of "m @ 0 # t @ [0]" "length m + 1 + length t + 1" v b] z
            by (simp_all add: l r)
          let ?req = "req\<lparr>rq_target := field_at (length m + 1) (length t)\<rparr>"
          have run: "httpd_req_line req 0 (l @ 0 # b) =
            (if \<not> list_all httpd_tchar m then (400, ?req, ?d)
             else
               let req' = (if v = ascii ''HTTP/1.0'' then set_flag REQ_CLOSE (set_flag REQ_HTTP10 ?req) else ?req)
               in if v \<noteq> ascii ''HTTP/1.0'' \<and> v \<noteq> ascii ''HTTP/1.1'' then (if take 5 v \<noteq> ascii ''HTTP/'' then 400 else 505, req', ?d)
                  else
                    let req' = (if m = ascii ''OPTIONS'' then set_flag REQ_OPTIONS req' else req');
                        req' = (if m = ascii ''HEAD'' then set_flag REQ_HEAD req' else req')
                    in (0, req', ?d))"
          proof -
            have c: "length m \<noteq> 0" "\<not> (length m + 1 + length t = length m + 1 \<or>
                strchr (l @ 0 # b) (length m + 1 + length t + 1) (ch CHR '' '') \<noteq> None)"
              using \<open>32 \<in> set r \<and> m \<noteq> []\<close> False s3 by simp_all
            have e: "length m + 1 + length t - length m - 1 = length t" "length m + 1 - 0 = length m + 1" by simp_all
            show ?thesis
              by (simp only: httpd_req_line_def whole if_not_P [OF ctl] s1 s2 option.case if_not_P [OF c(1)] if_not_P [OF c(2)]
                  Let_def upd parts httpd_token_iff e)
          qed
          have rl: "request_line l = (if \<not> list_all httpd_tchar m then None else Some (m, t, v))"
            using False \<open>32 \<in> set r \<and> m \<noteq> []\<close> ctl m t by (simp add: request_line_def l r)
          show ?thesis
          proof (cases "list_all httpd_tchar m")
            case True
            then show ?thesis unfolding rl run by (simp add: l r line_status_def line_req_def Let_def)
          next
            case no: False
            then have "httpd_req_line req 0 (l @ 0 # b) = (400, ?req, (m @ 0 # t @ 0 # v) @ 0 # b)" unfolding run by simp
            moreover have "length (m @ 0 # t @ 0 # v) = length l" by (simp add: l r)
            ultimately show ?thesis unfolding rl using no by auto
          qed
        qed
      qed
    qed
  qed
qed

section \<open>Facts: the whole head\<close>

definition said_zero :: said where
  "said_zero = \<lparr>sd_flags = 0, sd_body = 0, sd_host = None, sd_origin = None, sd_auth = None, sd_acrh = None,
     sd_app = replicate STREAM_FIELDS None\<rparr>"

text \<open>What the lines of a head say, without their ends: the status, the method, the target and the fields.\<close>

definition head_says :: "stream_app \<Rightarrow> httpd_limits \<Rightarrow> bytes \<Rightarrow> bytes list \<Rightarrow> nat \<times> bytes \<times> bytes \<times> said" where
  "head_says app lim l ls =
     (case request_line l of
        None \<Rightarrow> (400, [], [], said_zero)
      | Some (m, t, v) \<Rightarrow>
          if line_status v \<noteq> 0 then (line_status v, m, t, said_zero)
          else
            let (s, sd) = fields_say app lim (said_zero\<lparr>sd_flags := rq_flags (line_req m t v req_zero)\<rparr>) ls 0
            in (if s \<noteq> 0 then s
                else if bit (sd_flags sd) REQ_CHUNKED \<and> (bit (sd_flags sd) REQ_LENGTH \<or> bit (sd_flags sd) REQ_HTTP10) then 400
                else 0, m, t, sd))"

lemma req_header_keeps:
  "httpd_req_header req app name v f m = (s, req') \<Longrightarrow> rq_target req' = rq_target req \<and> rq_head req' = rq_head req"
  by (auto simp: httpd_req_header_def httpd_req_length_def httpd_req_app_def app_loop_eq set_flag_def clear_flag_def Let_def
      split: httpd_header.splits if_splits prod.splits option.splits)

lemma req_field_keeps:
  "httpd_req_field req app line data m = (s, req', d) \<Longrightarrow> rq_target req' = rq_target req \<and> rq_head req' = rq_head req"
  by (auto simp: httpd_req_field_def Let_def split: option.splits if_splits prod.splits dest: req_header_keeps)

lemma parse_fields_keeps:
  "parse_fields app lim req data cursor n = Some (s, req', d) \<Longrightarrow> rq_target req' = rq_target req \<and> rq_head req' = rq_head req"
proof (induction app lim req data cursor n arbitrary: s req' d rule: parse_fields.induct)
  case (1 app lim req data cursor n)
  from "1.prems" obtain line c data1 where nl: "httpd_next_line data cursor = Some (line, c, data1)"
    by (subst (asm) parse_fields.simps) (auto split: option.splits)
  show ?case
  proof (cases "data1 ! line = 0 \<or> n + 1 > lm_fields lim")
    case True
    then show ?thesis using "1.prems" nl by (subst (asm) parse_fields.simps) (auto split: if_splits)
  next
    case False
    obtain s1 req1 data2 where f: "httpd_req_field req app line data1 (lm_body lim) = (s1, req1, data2)" by (metis surj_pair)
    note k = req_field_keeps [OF f]
    have p: "parse_fields app lim req data cursor n =
        (if s1 \<noteq> 0 then Some (s1, req1, data2) else parse_fields app lim req1 data2 c (n + 1))"
      using nl False f by (subst parse_fields.simps) simp
    show ?thesis
    proof (cases "s1 = 0")
      case True
      then have "parse_fields app lim req1 data2 c (n + 1) = Some (s, req', d)" using p "1.prems" by simp
      from "1.IH" [OF nl refl refl _ _ f [symmetric] refl _ this] False True k show ?thesis by simp
    qed (use p "1.prems" k in simp)
  qed
qed

lemma line_says: "req_says p data (line_req m t v (req_zero\<lparr>rq_head := n\<rparr>)) (said_zero\<lparr>sd_flags := rq_flags (line_req m t v req_zero)\<rparr>)"
  by (simp add: req_says_def line_req_def said_zero_def req_zero_def set_flag_def field_shows_def no_field_def Let_def
      list_all2_conv_all_nth)

lemma parse_spec:
  assumes ok: "line_ok rl" "list_all (\<lambda>l. line_ok l \<and> strip l \<noteq> []) ls" "line_ok e" "strip e = []"
    and n: "n = length (head_lines (rl # ls @ [e]))" "n < 2 ^ 16"
    and lim: "lm_body lim < 2 ^ 64" "length (app_fields app) \<le> STREAM_FIELDS"
  obtains s m t sd req d where
    "httpd_req_parse (head_lines (rl # ls @ [e]) @ rest) n app lim = Some (s, req, d @ rest)" "length d = n"
    "head_says app lim (strip rl) (map strip ls) = (s, m, t, sd)"
    "s = 0 \<Longrightarrow> req_says n (d @ rest) req sd \<and> rq_head req = n \<and> cstr_at (d @ rest) 0 = m \<and>
       field_shows n (d @ rest) (rq_target req) (Some t)"
proof -
  let ?tail = "head_lines (ls @ [e]) @ rest" and ?req = "req_zero\<lparr>rq_head := n\<rparr>"
  have "0 \<notin> set (head_lines (rl # ls @ [e]))"
    using ok by (auto simp: head_lines_def line_ok_def list_all_iff)
  then have nul: "memchr 0 (take n (head_lines (rl # ls @ [e]) @ rest)) = None" using n(1) by (simp add: memchr_None_iff)
  obtain k where k: "httpd_next_line (head_lines (rl # ls @ [e]) @ rest) 0 = Some (0, length rl + 1, strip rl @ 0 # replicate k 0 @ ?tail)"
      "length (strip rl) + 1 + k = length rl + 1"
    using next_line_begins [of "[]" 0 rl ?tail] ok(1) by auto
  have z: "0 \<notin> set (strip rl)" using ok(1) strip_length(2) [of rl] by (auto simp: line_ok_def)
  have run: "httpd_req_parse (head_lines (rl # ls @ [e]) @ rest) n app lim =
      (case httpd_req_line ?req 0 (strip rl @ 0 # replicate k 0 @ ?tail) of
        (status, req, data) \<Rightarrow>
          if status \<noteq> 0 then Some (status, req, data)
          else case parse_fields app lim req data (length rl + 1) 0 of
            None \<Rightarrow> None
          | Some (status, req, data) \<Rightarrow>
              if status \<noteq> 0 then Some (status, req, data)
              else Some (if flag REQ_CHUNKED req \<and> (flag REQ_LENGTH req \<or> flag REQ_HTTP10 req) then 400 else 0, req, data))"
    unfolding httpd_req_parse_def Let_def nul k(1) mod_less [OF n(2)] by (simp only: option.case prod.case simp_thms if_False)
  note spec = req_line_spec [OF z, of ?req "replicate k 0 @ ?tail"]
  show thesis
  proof (cases "request_line (strip rl)")
    case None
    then obtain req' d where d: "length d = length (strip rl)"
        "httpd_req_line ?req 0 (strip rl @ 0 # replicate k 0 @ ?tail) = (400, req', d @ 0 # replicate k 0 @ ?tail)"
      using spec by auto
    show thesis
    proof (rule that [of 400 req' "d @ 0 # replicate k 0 @ head_lines (ls @ [e])" "[]" "[]" said_zero])
      show "head_says app lim (strip rl) (map strip ls) = (400, [], [], said_zero)" using None by (simp add: head_says_def)
      show "httpd_req_parse (head_lines (rl # ls @ [e]) @ rest) n app lim =
          Some (400, req', (d @ 0 # replicate k 0 @ head_lines (ls @ [e])) @ rest)"
        unfolding run using d(2) by simp
      show "length (d @ 0 # replicate k 0 @ head_lines (ls @ [e])) = n" using d(1) k(2) n(1) by simp
    qed simp_all
  next
    case (Some mtv)
    obtain m t v where mtv: "mtv = (m, t, v)" by (cases mtv)
    obtain req1 where l: "strip rl = m @ 32 # t @ 32 # v"
        "httpd_req_line ?req 0 (strip rl @ 0 # replicate k 0 @ ?tail) = (line_status v, req1, m @ 0 # t @ 0 # v @ 0 # replicate k 0 @ ?tail)"
        "line_status v = 0 \<longrightarrow> req1 = line_req m t v ?req"
      using spec Some by (auto simp: mtv)
    define a where "a = m @ 0 # t @ 0 # v @ 0 # replicate k 0"
    have a: "length a = length rl + 1" using k(2) l(1) by (simp add: a_def)
    have data: "m @ 0 # t @ 0 # v @ 0 # replicate k 0 @ ?tail = a @ ?tail" by (simp add: a_def)
    show thesis
    proof (cases "line_status v = 0")
      case False
      show thesis
      proof (rule that [of "line_status v" req1 "a @ head_lines (ls @ [e])" m t said_zero])
        show "head_says app lim (strip rl) (map strip ls) = (line_status v, m, t, said_zero)"
          using Some mtv False by (simp add: head_says_def)
        show "httpd_req_parse (head_lines (rl # ls @ [e]) @ rest) n app lim =
            Some (line_status v, req1, (a @ head_lines (ls @ [e])) @ rest)"
          unfolding run using l(2) False by (simp add: a_def)
        show "length (a @ head_lines (ls @ [e])) = n" using a n(1) by simp
      qed (simp_all add: False)
    next
      case True
      let ?sd = "said_zero\<lparr>sd_flags := rq_flags (line_req m t v req_zero)\<rparr>"
      have req1: "req1 = line_req m t v ?req" using l(3) True by simp
      have "length (app_fields app) \<le> length (sd_app ?sd)" using lim(2) by (simp add: said_zero_def)
      moreover have "length rl + 1 + length (head_lines (ls @ [e])) < 2 ^ 16" using n by simp
      moreover have "req_says (length rl + 1) (a @ ?tail) req1 ?sd" unfolding req1 by (rule line_says)
      ultimately obtain s req' d sd where p:
          "parse_fields app lim req1 (a @ ?tail) (length rl + 1) 0 = Some (s, req', d @ rest)"
          "length d = length rl + 1 + length (head_lines (ls @ [e]))" "take (length rl + 1) d = a"
          "fields_say app lim ?sd (map strip ls) 0 = (s, sd)" "s = 0 \<longrightarrow> req_says (length d) (d @ rest) req' sd"
        using parse_fields_spec [OF lim(1) _ ok(3,4,2) a, of app ?sd rest req1 0] by auto
      have dn: "length d = n" using p(2) n(1) by simp
      let ?bad = "bit (sd_flags sd) REQ_CHUNKED \<and> (bit (sd_flags sd) REQ_LENGTH \<or> bit (sd_flags sd) REQ_HTTP10)"
      show thesis
      proof (rule that [of "if s \<noteq> 0 then s else if ?bad then 400 else 0" req' d m t sd])
        show "head_says app lim (strip rl) (map strip ls) = (if s \<noteq> 0 then s else if ?bad then 400 else 0, m, t, sd)"
          using Some mtv True p(4) by (simp add: head_says_def)
        show "httpd_req_parse (head_lines (rl # ls @ [e]) @ rest) n app lim = Some (if s \<noteq> 0 then s else if ?bad then 400 else 0, req', d @ rest)"
        proof -
          have "rq_flags req' = sd_flags sd" if "s = 0" using that p(5) by (simp add: req_says_def)
          then show ?thesis unfolding run l(2) data True using p(1) by (simp add: flag_def)
        qed
        show "length d = n" by (rule dn)
        assume "(if s \<noteq> 0 then s else if ?bad then 400 else 0) = 0"
        then have s: "s = 0" by (auto split: if_splits)
        have keeps: "rq_target req' = field_at (length m + 1) (length t)" "rq_head req' = n"
          using parse_fields_keeps [OF p(1)] unfolding req1 by (auto simp: line_req_def set_flag_def Let_def)
        have front: "d @ rest = a @ drop (length rl + 1) d @ rest" using p(3) by (metis append.assoc append_take_drop_id)
        have zz: "0 \<notin> set m" "0 \<notin> set t" using z l(1) by simp_all
        have "cstr_at (d @ rest) 0 = m" unfolding front a_def
          using cstr_at_append [of "[]" 0 m "t @ 0 # v @ 0 # replicate k 0 @ drop (length rl + 1) d @ rest"] zz by simp
        moreover have "cstr_at (d @ rest) (length m + 1) = t" unfolding front a_def
          using cstr_at_append [of "m @ [0]" "length m + 1" t "v @ 0 # replicate k 0 @ drop (length rl + 1) d @ rest"] zz by simp
        moreover have "length m + 1 + length t < n" using l(1) k(2) n(1) by simp
        ultimately show "req_says n (d @ rest) req' sd \<and> rq_head req' = n \<and> cstr_at (d @ rest) 0 = m \<and>
            field_shows n (d @ rest) (rq_target req') (Some t)"
          using p(5) s dn keeps n(2) by (simp add: field_shows_def field_at_def)
      qed
    qed
  qed
qed

section \<open>Facts: the end of the head\<close>

text \<open>Where the first line feed ends that an empty line follows, with the empty line.\<close>

fun find_end :: "bytes \<Rightarrow> nat option" where
  "find_end [] = None"
| "find_end (c # s) =
     (if c = 10 \<and> take 1 s = [10] then Some 2 else if c = 10 \<and> take 2 s = [13, 10] then Some 3
      else map_option Suc (find_end s))"

lemma map_plus: "map_option ((+) 0) x = (x :: nat option)" "(\<lambda>x :: nat. Suc (n + x)) = (+) (Suc n)"
  by (cases x) auto

lemma find_end_skip: "10 \<notin> set a \<Longrightarrow> find_end (a @ s) = map_option ((+) (length a)) (find_end s)"
  by (induction a) (auto simp: option.map_comp comp_def map_plus)

lemma find_end_more: "find_end a = Some j \<Longrightarrow> find_end (a @ b) = Some j"
proof (induction a arbitrary: j)
  case (Cons c a)
  have one: "take 1 a = [10] \<Longrightarrow> take 1 (a @ b) = [10]" by (cases a) auto
  have two: "take 2 a = [13, 10] \<Longrightarrow> take 2 (a @ b) = [13, 10]"
    by (cases a; cases "tl a") auto
  have one': "take 1 (a @ b) = [10] \<Longrightarrow> a \<noteq> [] \<Longrightarrow> take 1 a = [10]" by (cases a) auto
  show ?case
  proof (cases "c = 10 \<and> (take 1 a = [10] \<or> take 2 a = [13, 10])")
    case True
    then show ?thesis using Cons.prems one two by (cases a) (auto split: if_splits)
  next
    case False
    then obtain k where k: "find_end a = Some k" "j = Suc k" using Cons.prems by (auto split: if_splits)
    then have ne: "a \<noteq> []" by auto
    have "\<not> (c = 10 \<and> take 1 (a @ b) = [10])" using False one' ne by auto
    moreover have "\<not> (c = 10 \<and> take 2 (a @ b) = [13, 10])"
    proof
      assume t: "c = 10 \<and> take 2 (a @ b) = [13, 10]"
      then have "tl a = []" using False ne by (cases a; cases "tl a") auto
      then have "a = [13]" using t ne by (cases a) auto
      then show False using k(1) by simp
    qed
    ultimately show ?thesis using Cons.IH [OF k(1)] k(2) unfolding append_Cons find_end.simps by (simp only: if_False option.map)
  qed
qed simp

lemma head_loop_spec:
  assumes "len \<le> length data" "len < 2 ^ 16" "i \<le> len"
  shows "case find_end (drop i (take len data)) of
      Some j \<Rightarrow> head_loop data len i = (i + j, 0)
    | None \<Rightarrow> \<exists>s. head_loop data len i = (0, s) \<and> i \<le> s \<and> s \<le> len \<and>
        (\<forall>ext. find_end (drop i (take len data) @ ext) = map_option ((+) (s - i)) (find_end (drop s (take len data) @ ext)))"
  using assms
proof (induction data len i rule: head_loop.induct)
  case (1 data len i)
  let ?d = "take len data"
  have d: "drop i ?d = take (len - i) (drop i data)" by (simp add: drop_take)
  show ?case
  proof (cases "if i < len then memchr 10 (take (len - i) (drop i data)) else None")
    case None
    then have n: "10 \<notin> set (drop i ?d)" using d by (auto simp: memchr_None_iff split: if_splits)
    have "head_loop data len i = (0, len)" using None "1.prems"(2) by (subst head_loop.simps) simp
    moreover have "find_end (drop i ?d @ ext) = map_option ((+) (len - i)) (find_end ext)" for ext
      using find_end_skip [OF n, of ext] "1.prems" by simp
    moreover have "find_end (drop i ?d) = None" using find_end_skip [OF n, of "[]"] by simp
    ultimately show ?thesis using "1.prems" by (auto intro!: exI [of _ len])
  next
    case (Some k)
    then have m: "memchr 10 (drop i ?d) = Some k" and i: "i < len" using d by (auto split: if_splits)
    define r where "r = drop (i + k + 1) ?d"
    have kl: "i + k < len" 
    proof -
      have "k < length (drop i ?d)" using memchr_SomeD [OF m] by blast
      then show ?thesis using "1.prems" by simp
    qed
    have split: "drop i ?d = take k (drop i ?d) @ 10 # r" "10 \<notin> set (take k (drop i ?d))"
      using memchr_split [OF m] memchr_SomeD [OF m] by (simp_all add: r_def add.commute)
    have la: "length (take k (drop i ?d)) = k" using kl "1.prems" by simp
    have fe: "find_end (drop i ?d @ ext) = map_option ((+) k) (find_end (10 # r @ ext))" for ext
      by (subst split(1)) (simp only: append_assoc append_Cons find_end_skip [OF split(2)] la)
    have lr: "length r = len - (i + k + 1)" using "1.prems" by (simp add: r_def)
    have nth: "data ! (i + k + 1 + x) = r ! x" if "x < length r" for x
      using that lr "1.prems" by (simp add: r_def)
    define cr :: nat where "cr = (if i + k + 1 < len \<and> data ! (i + k + 1) = 13 then 1 else 0)"
    have cr: "cr = (if r \<noteq> [] \<and> r ! 0 = 13 then 1 else 0)" using lr nth [of 0] by (auto simp: cr_def)
    have run: "head_loop data len i = (if i + k + 1 + cr = len then (0, i + k) else
        if data ! (i + k + 1 + cr) = 10 then (i + k + 1 + cr + 1, 0) else head_loop data len (i + k + 1))"
    proof -
      have "(i + k + 1 - 1) mod 2 ^ 16 = i + k" using kl "1.prems"(2) by simp
      then show ?thesis by (subst head_loop.simps) (simp only: Some option.case Let_def cr_def [symmetric])
    qed
    show ?thesis
    proof (cases "i + k + 1 + cr = len")
      case True
      then have r: "r = [] \<or> r = [13]" using cr lr kl by (cases r) (auto split: if_splits)
      then have "find_end (drop i ?d) = None" using fe [of "[]"] by auto
      moreover have "drop (i + k) ?d = 10 # r"
        using split(1) la by (metis drop_drop add.commute append_eq_conv_conj)
      ultimately show ?thesis using run True fe kl by (auto intro!: exI [of _ "i + k"])
    next
      case False
      then have c: "cr < length r" using lr kl cr by (cases r) (auto split: if_splits)
      then have n: "data ! (i + k + 1 + cr) = r ! cr" using nth by simp
      show ?thesis
      proof (cases "r ! cr = 10")
        case True
        have "find_end (10 # r) = Some (2 + cr)" using True c cr
          by (cases r; cases "tl r") (auto split: if_splits)
        then show ?thesis using fe [of "[]"] run False True n by simp
      next
        case no: False
        have step: "find_end (10 # r @ ext) = map_option Suc (find_end (r @ ext))" for ext
        proof -
          have "take 1 (r @ ext) \<noteq> [10]" "take 2 (r @ ext) \<noteq> [13, 10]"
            using no c cr by (cases r; cases "tl r"; auto split: if_splits)+
          then show ?thesis by simp
        qed
        have fe': "find_end (drop i ?d @ ext) = map_option ((+) (k + 1)) (find_end (r @ ext))" for ext
          unfolding fe step by (simp add: option.map_comp comp_def map_plus)
        have r': "head_loop data len i = head_loop data len (i + k + 1)" using run False no n by simp
        have IH: "case find_end r of
            Some j \<Rightarrow> head_loop data len (i + k + 1) = (i + k + 1 + j, 0)
          | None \<Rightarrow> \<exists>s. head_loop data len (i + k + 1) = (0, s) \<and> i + k + 1 \<le> s \<and> s \<le> len \<and>
              (\<forall>ext. find_end (r @ ext) = map_option ((+) (s - (i + k + 1))) (find_end (drop s ?d @ ext)))"
          unfolding r_def using "1.IH" [OF Some refl cr_def] False no n "1.prems" kl by simp
        show ?thesis
        proof (cases "find_end r")
          case (Some j)
          then show ?thesis using IH r' fe' [of "[]"] by simp
        next
          case None
          then obtain s where s: "head_loop data len (i + k + 1) = (0, s)" "i + k + 1 \<le> s" "s \<le> len"
            "\<And>ext. find_end (r @ ext) = map_option ((+) (s - (i + k + 1))) (find_end (drop s ?d @ ext))" using IH by auto
          have "find_end (drop i ?d @ ext) = map_option ((+) (s - i)) (find_end (drop s ?d @ ext))" for ext
          proof -
            have "(+) (k + 1) \<circ> (+) (s - (i + k + 1)) = (+) (s - i)" using s(2) by (auto simp: fun_eq_iff)
            then show ?thesis unfolding fe' s(4) by (simp only: option.map_comp)
          qed
          then show ?thesis using None r' fe' [of "[]"] s by (auto intro!: exI [of _ s])
        qed
      qed
    qed
  qed
qed

text \<open>Looking for the end in growing parts of the input, until it is found.\<close>

fun look :: "httpd_limits \<Rightarrow> httpd_req \<Rightarrow> bytes \<Rightarrow> nat list \<Rightarrow> nat" where
  "look lim req data [] = 0"
| "look lim req data (n # ns) =
     (let (h, req) = httpd_conn_head_length lim req (take n data) in if h \<noteq> 0 then h else look lim req data ns)"

definition scan_is :: "httpd_req \<Rightarrow> bytes \<Rightarrow> bool" where
  "scan_is req d \<longleftrightarrow> rq_scan req \<le> length d \<and>
     (\<forall>ext. find_end (d @ ext) = map_option ((+) (rq_scan req)) (find_end (drop (rq_scan req) d @ ext)))"

lemma find_end_pos: "find_end s = Some j \<Longrightarrow> j > 0"
  by (cases s) (auto split: if_splits)

lemma head_length_spec:
  assumes "scan_is req d" "d @ e = take (lm_head lim) input" "lm_head lim < 2 ^ 16" "httpd_conn_head_length lim req input = (h, req')"
  shows "case find_end (d @ e) of Some j \<Rightarrow> h = j | None \<Rightarrow> h = 0 \<and> scan_is req' (d @ e)"
proof -
  define len where "len = (if length input < lm_head lim then length input else lm_head lim)"
  have tl: "take len input = d @ e" using assms(2) by (simp add: len_def)
  have len: "len \<le> length input" "len < 2 ^ 16" "len = length (d @ e)"
    using assms(3) arg_cong [OF assms(2), of length] by (auto simp: len_def)
  have sc: "rq_scan req \<le> length d" "rq_scan req \<le> len" using assms(1) len(3) by (simp_all add: scan_is_def)
  have dd: "drop (rq_scan req) (d @ e) = drop (rq_scan req) d @ e" using sc(1) by simp
  have fe: "find_end (d @ e @ ext) = map_option ((+) (rq_scan req)) (find_end (drop (rq_scan req) d @ e @ ext))" for ext
    using assms(1) by (simp add: scan_is_def)
  note sp = head_loop_spec [OF len(1,2) sc(2), unfolded tl dd]
  show ?thesis
  proof (cases "find_end (drop (rq_scan req) d @ e)")
    case (Some j)
    then have "head_loop input len (rq_scan req) = (rq_scan req + j, 0)" using sp by simp
    then have "h = rq_scan req + j" using assms(4) find_end_pos [OF Some] by (auto simp: httpd_conn_head_length_def len_def [symmetric])
    then show ?thesis using fe [of "[]"] Some by simp
  next
    case None
    then obtain s where s: "head_loop input len (rq_scan req) = (0, s)" "rq_scan req \<le> s" "s \<le> len"
        "\<And>ext. find_end ((drop (rq_scan req) d @ e) @ ext) = map_option ((+) (s - rq_scan req)) (find_end (drop s (d @ e) @ ext))"
      using sp by auto
    then have "h = 0" "req' = req\<lparr>rq_scan := s\<rparr>" using assms(4) by (auto simp: httpd_conn_head_length_def len_def [symmetric])
    moreover have "find_end ((d @ e) @ ext) = map_option ((+) s) (find_end (drop s (d @ e) @ ext))" for ext
      using fe [of ext] s(2) s(4) [of ext] by (simp add: option.map_comp comp_def)
    ultimately show ?thesis using fe [of "[]"] None s(3) len(3) by (auto simp: scan_is_def)
  qed
qed

lemma look_spec:
  assumes "lm_head lim < 2 ^ 16"
  shows "scan_is req (take p (take (lm_head lim) data)) \<Longrightarrow> find_end (take p (take (lm_head lim) data)) = None \<Longrightarrow> sorted (p # ns) \<Longrightarrow>
    look lim req data ns = (case find_end (take (last (p # ns)) (take (lm_head lim) data)) of None \<Rightarrow> 0 | Some j \<Rightarrow> j)"
proof (induction ns arbitrary: p req)
  case (Cons n ns)
  let ?d = "\<lambda>n. take n (take (lm_head lim) data)"
  obtain h req' where r: "httpd_conn_head_length lim req (take n data) = (h, req')" by (metis surj_pair)
  have grow: "\<exists>e. ?d a @ e = ?d b" if "a \<le> b" for a b by (metis append_take_drop_id min.absorb1 take_take that)
  obtain e where e: "?d p @ e = ?d n" using grow [of p n] Cons.prems(3) by auto
  have "?d p @ e = take (lm_head lim) (take n data)" using e by (simp add: min.commute)
  note sp = head_length_spec [OF Cons.prems(1) this assms r, unfolded e]
  show ?case
  proof (cases "find_end (?d n)")
    case None
    then have "h = 0" "scan_is req' (?d n)" using sp by simp_all
    then show ?thesis using Cons.IH [of req' n] None Cons.prems(3) r by simp
  next
    case (Some j)
    have "n \<le> last (n # ns)" using Cons.prems(3) by (cases ns) auto
    then obtain x where "?d n @ x = ?d (last (n # ns))" using grow by blast
    then have "find_end (?d (last (n # ns))) = Some j" using find_end_more [OF Some, of x] by simp
    then show ?thesis using sp Some r find_end_pos [OF Some] by simp
  qed
qed simp

section \<open>Facts: names of this machine\<close>

definition port_ok :: "bytes \<Rightarrow> bool" where
  "port_ok p \<longleftrightarrow> p = [] \<or> (\<exists>ds. p = ch CHR '':'' # ds \<and> ds \<noteq> [] \<and> length ds \<le> 5 \<and> list_all is_digit ds)"

lemma port_loop:
  "(p = [] \<or> (let n = (if p ! 0 = ch CHR '':'' then strspn (drop 1 p) digits else 0) in n \<noteq> 0 \<and> n \<le> 5 \<and> length p = 1 + n)) \<longleftrightarrow> port_ok p"
proof (cases p)
  case (Cons c ds)
  have sp: "strspn ds digits = length (takeWhile is_digit ds)" by (simp add: strspn_eq digits_are)
  have "length ds = length (takeWhile is_digit ds) \<longleftrightarrow> list_all is_digit ds"
  proof
    assume "length ds = length (takeWhile is_digit ds)"
    then have "take (length (takeWhile is_digit ds)) ds = ds" by (intro take_all) simp
    then have "takeWhile is_digit ds = ds" by (rule trans [OF takeWhile_eq_take])
    then show "list_all is_digit ds" by (simp add: list_all_iff takeWhile_eq_all_conv)
  next
    assume "list_all is_digit ds"
    then show "length ds = length (takeWhile is_digit ds)" by (simp add: list_all_iff takeWhile_eq_all_conv [THEN iffD2])
  qed
  then show ?thesis using Cons sp by (auto simp: port_ok_def Let_def)
qed (simp add: port_ok_def)

lemma loopback_step:
  assumes "map fold_case name = name"
  shows "loopback_loop (name # names) host =
    (if map fold_case (take (length name) host) = name then port_ok (drop (length name) host) else loopback_loop names host)"
proof -
  have "cstr_view_starts_case host name \<longleftrightarrow> map fold_case (take (length name) host) = name" (is "?l \<longleftrightarrow> ?r")
  proof
    show "?l \<Longrightarrow> ?r" using assms by (simp add: cstr_view_starts_case_def equal_case_iff)
    assume ?r
    from arg_cong [OF this, of length] have "length name \<le> length host" by simp
    then show ?l using \<open>?r\<close> assms by (simp add: cstr_view_starts_case_def equal_case_iff)
  qed
  moreover define p where "p = drop (length name) host"
  have "loopback_loop (name # names) host =
      (if \<not> cstr_view_starts_case host name then loopback_loop names host
       else if p = [] then True
       else let n = (if p ! 0 = ch CHR '':'' then strspn (drop 1 p) digits else 0) in n \<noteq> 0 \<and> n \<le> 5 \<and> length p = 1 + n)"
    by (simp only: loopback_loop.simps p_def Let_def)
  ultimately show ?thesis using port_loop [of p] unfolding p_def [symmetric] 
    by (cases "p = []"; cases "map fold_case (take (length name) host) = name") (simp_all only: Let_def simp_thms if_True if_False)
qed

lemma ex_one_of_three:
  "(\<exists>n p. H n p \<and> f n \<in> {a, b, c} \<and> Q n p) \<longleftrightarrow>
     (\<exists>n p. H n p \<and> f n = a \<and> Q n p) \<or> (\<exists>n p. H n p \<and> f n = b \<and> Q n p) \<or> (\<exists>n p. H n p \<and> f n = c \<and> Q n p)"
  by blast

lemma three_ways:
  "(A \<Longrightarrow> \<not> B) \<Longrightarrow> (A \<or> B \<Longrightarrow> \<not> C) \<Longrightarrow> A \<and> P \<or> B \<and> P \<or> C \<and> Q \<longleftrightarrow> (if A then P else if B then P else if C then Q else False)"
  by auto

lemma either_allowed: "(if r then True else (\<exists>x \<in> s. x = a \<or> x = b)) \<longleftrightarrow> a \<in> s \<or> b \<in> s \<or> r"
  by auto

lemma loopback_host_iff:
  "httpd_loopback_host host \<longleftrightarrow> (\<exists>name p. host = name @ p \<and> map fold_case name \<in> set loopback_names \<and> port_ok p)"
proof -
  have fold: "map fold_case (ascii ''localhost'') = ascii ''localhost''" "map fold_case (ascii ''127.0.0.1'') = ascii ''127.0.0.1''"
    "map fold_case (ascii ''[::1]'') = ascii ''[::1]''" by code_simp+
  let ?t = "\<lambda>n. map fold_case (take n host)"
  have lens: "length (ascii ''localhost'') = 9" "length (ascii ''127.0.0.1'') = 9" "length (ascii ''[::1]'') = 5" by simp_all
  have run: "httpd_loopback_host host =
      (if ?t 9 = ascii ''localhost'' then port_ok (drop 9 host) else if ?t 9 = ascii ''127.0.0.1'' then port_ok (drop 9 host)
       else if ?t 5 = ascii ''[::1]'' then port_ok (drop 5 host) else False)"
    unfolding httpd_loopback_host_def loopback_names_def
    by (simp only: loopback_step [OF fold(1)] loopback_step [OF fold(2)] loopback_step [OF fold(3)] loopback_loop.simps(1) lens)
  have five: "?t 5 = take 5 (?t 9)" by (simp add: take_map)
  have apart: "?t 9 = ascii ''localhost'' \<or> ?t 9 = ascii ''127.0.0.1'' \<Longrightarrow> ?t 5 \<noteq> ascii ''[::1]''"
    unfolding five by (auto simp: ascii_def)
  have named: "(\<exists>name p. host = name @ p \<and> map fold_case name = n \<and> port_ok p) \<longleftrightarrow> ?t (length n) = n \<and> port_ok (drop (length n) host)" for n
  proof
    assume "\<exists>name p. host = name @ p \<and> map fold_case name = n \<and> port_ok p"
    then obtain name p where np: "host = name @ p" "map fold_case name = n" "port_ok p" by (elim exE conjE)
    have "length name = length n" using arg_cong [OF np(2), of length] by simp
    then show "?t (length n) = n \<and> port_ok (drop (length n) host)" using np by simp
  next
    assume "?t (length n) = n \<and> port_ok (drop (length n) host)"
    then show "\<exists>name p. host = name @ p \<and> map fold_case name = n \<and> port_ok p"
      by (intro exI [of _ "take (length n) host"] exI [of _ "drop (length n) host"]) simp
  qed
  have named': "(\<exists>name p. host = name @ p \<and> map fold_case name = ascii ''localhost'' \<and> port_ok p) \<longleftrightarrow>
      ?t 9 = ascii ''localhost'' \<and> port_ok (drop 9 host)"
    "(\<exists>name p. host = name @ p \<and> map fold_case name = ascii ''127.0.0.1'' \<and> port_ok p) \<longleftrightarrow>
      ?t 9 = ascii ''127.0.0.1'' \<and> port_ok (drop 9 host)"
    "(\<exists>name p. host = name @ p \<and> map fold_case name = ascii ''[::1]'' \<and> port_ok p) \<longleftrightarrow>
      ?t 5 = ascii ''[::1]'' \<and> port_ok (drop 5 host)"
    using named [of "ascii ''localhost''", unfolded lens] named [of "ascii ''127.0.0.1''", unfolded lens]
      named [of "ascii ''[::1]''", unfolded lens] by blast+
  have ne: "ascii ''localhost'' \<noteq> ascii ''127.0.0.1''" by (simp add: ascii_def)
  have "(\<exists>name p. host = name @ p \<and> map fold_case name \<in> set loopback_names \<and> port_ok p) \<longleftrightarrow>
      (\<exists>name p. host = name @ p \<and> map fold_case name = ascii ''localhost'' \<and> port_ok p) \<or>
      (\<exists>name p. host = name @ p \<and> map fold_case name = ascii ''127.0.0.1'' \<and> port_ok p) \<or>
      (\<exists>name p. host = name @ p \<and> map fold_case name = ascii ''[::1]'' \<and> port_ok p)"
    unfolding loopback_names_def list.set
    by (rule ex_one_of_three [of "\<lambda>name p. host = name @ p" "map fold_case" "ascii ''localhost''" "ascii ''127.0.0.1''"
          "ascii ''[::1]''" "\<lambda>name. port_ok"])
  also have "\<dots> \<longleftrightarrow> httpd_loopback_host host"
    unfolding named' run
  proof (rule three_ways)
    show "\<not> ?t 9 = ascii ''127.0.0.1''" if "?t 9 = ascii ''localhost''" using ne unfolding that .
  qed (rule apart)
  finally show ?thesis ..
qed

section \<open>Facts: framing\<close>

definition body_ok :: "nat \<Rightarrow> httpd_req \<Rightarrow> bool" where
  "body_ok m req \<longleftrightarrow> rq_body req \<le> m \<and> (flag REQ_LENGTH req \<or> rq_body req = 0)"

lemma flag_set [simp]: "b < 32 \<Longrightarrow> b' < 32 \<Longrightarrow> flag b (set_flag b' req) \<longleftrightarrow> b = b' \<or> flag b req"
  "b < 32 \<Longrightarrow> b' < 32 \<Longrightarrow> flag b (clear_flag b' req) \<longleftrightarrow> b \<noteq> b' \<and> flag b req"
  by (auto simp: flag_def set_flag_def clear_flag_def bit_simps)

lemma rq_body_flags [simp]: "rq_body (set_flag b req) = rq_body req" "rq_body (clear_flag b req) = rq_body req"
  "flag b (rq_body_update f req) = flag b req"
  by (simp_all add: set_flag_def clear_flag_def flag_def)

lemma req_header_body:
  assumes "body_ok m req" "m < 2 ^ 64" "httpd_req_header req app name v f m = (s, req')"
  shows "body_ok m req'"
proof (cases "httpd_header name = HEADER_CONTENT_LENGTH")
  case True
  then have "httpd_req_length req v m = (s, req')" using assms(3) by (simp add: httpd_req_header_def)
  moreover have "unat b \<le> m" if "util_digits t (of_nat m) = (k, b)" for t k b
    using that assms(2) by (auto simp: util_digits_eq Let_def unat_of_nat_64 split: if_splits)
  ultimately show ?thesis using assms(1) by (auto simp: httpd_req_length_def Let_def body_ok_def split: if_splits prod.splits)
next
  case False
  then show ?thesis using assms(1,3)
    by (auto simp: httpd_req_header_def httpd_req_app_def app_loop_eq body_ok_def flag_def set_flag_def clear_flag_def bit_simps Let_def
        split: httpd_header.splits if_splits prod.splits option.splits)
qed

lemma req_field_body:
  "httpd_req_field req app line data m = (s, req', d) \<Longrightarrow> body_ok m req \<Longrightarrow> m < 2 ^ 64 \<Longrightarrow> body_ok m req'"
  by (auto simp: httpd_req_field_def Let_def split: option.splits if_splits prod.splits intro: req_header_body)

lemma parse_fields_body:
  "parse_fields app lim req data cursor n = Some (s, req', d) \<Longrightarrow> body_ok (lm_body lim) req \<Longrightarrow> lm_body lim < 2 ^ 64 \<Longrightarrow>
     body_ok (lm_body lim) req'"
proof (induction app lim req data cursor n arbitrary: s req' d rule: parse_fields.induct)
  case (1 app lim req data cursor n)
  from "1.prems"(1) obtain line c data1 where nl: "httpd_next_line data cursor = Some (line, c, data1)"
    by (subst (asm) parse_fields.simps) (auto split: option.splits)
  show ?case
  proof (cases "data1 ! line = 0 \<or> n + 1 > lm_fields lim")
    case True
    then show ?thesis using "1.prems" nl by (subst (asm) parse_fields.simps) (auto split: if_splits)
  next
    case False
    obtain s1 req1 data2 where f: "httpd_req_field req app line data1 (lm_body lim) = (s1, req1, data2)" by (metis surj_pair)
    note k = req_field_body [OF f "1.prems"(2,3)]
    have p: "parse_fields app lim req data cursor n =
        (if s1 \<noteq> 0 then Some (s1, req1, data2) else parse_fields app lim req1 data2 c (n + 1))"
      using nl False f by (subst parse_fields.simps) simp
    show ?thesis
    proof (cases "s1 = 0")
      case True
      then have "parse_fields app lim req1 data2 c (n + 1) = Some (s, req', d)" using p "1.prems"(1) by simp
      from "1.IH" [OF nl refl refl _ _ f [symmetric] refl _ this k "1.prems"(3)] False True show ?thesis by simp
    qed (use p "1.prems"(1) k in simp)
  qed
qed

lemma req_line_body: "httpd_req_line req line data = (s, req', d) \<Longrightarrow> body_ok m req \<Longrightarrow> body_ok m req'"
  by (auto simp: httpd_req_line_def body_ok_def flag_def set_flag_def bit_simps Let_def split: option.splits if_splits)

lemma get_flags: "rq_flags (line_req (ascii ''GET'') t (ascii ''HTTP/1.1'') req_zero) = 0"
  by (simp add: line_req_def Let_def req_zero_def ascii_def set_flag_def)

text \<open>A head whose first line asks to get \<open>t\<close> says what its header lines say.\<close>

lemma get_says:
  assumes "request_line l = Some (ascii ''GET'', t, ascii ''HTTP/1.1'')" "fields_say app lim said_zero ls 0 = (0, sd)" "sd_flags sd = 0"
  shows "head_says app lim l ls = (0, ascii ''GET'', t, sd)"
proof -
  have s: "line_status (ascii ''HTTP/1.1'') = 0" by code_simp
  have z: "said_zero\<lparr>sd_flags := 0\<rparr> = said_zero" by (simp add: said_zero_def)
  show ?thesis unfolding head_says_def assms(1) get_flags
    by (simp only: option.case prod.case s z get_flags simp_thms if_False Let_def assms(2,3) bit_0_eq bot_fun_def bot_bool_def)
qed

section \<open>Properties\<close>

text \<open>
  The end of the head is found as soon as it is in, in whatever growing parts the input comes: looking at the parts one after
  the other finds what one look at the last would, and no byte before the place kept from one look to the next can matter.
\<close>

theorem head_found_in_parts:
  assumes "lm_head lim < 2 ^ 16" "sorted ns" "ns \<noteq> []"
  shows "look lim req_zero data ns = (case find_end (take (last ns) (take (lm_head lim) data)) of None \<Rightarrow> 0 | Some j \<Rightarrow> j)"
proof -
  have "scan_is req_zero (take 0 (take (lm_head lim) data))" by (simp add: scan_is_def req_zero_def map_plus)
  from look_spec [OF assms(1) this, of ns] assms(2,3) show ?thesis by simp
qed

theorem head_found_in_parts_witness:
  "look \<lparr>lm_body = 0, lm_head = 100, lm_fields = 9\<rparr> req_zero [71, 13, 10, 13, 10, 71] [3, 4, 5, 6] = 5"
proof -
  have "find_end [71, 13, 10, 13, 10, 71] = Some 5" by code_simp
  then show ?thesis
    using head_found_in_parts [of "\<lparr>lm_body = 0, lm_head = 100, lm_fields = 9\<rparr>" "[3, 4, 5, 6]" "[71, 13, 10, 13, 10, 71]"] by simp
qed

text \<open>
  C25.  Parsing a head in place says what its lines say: the status is that of the request line, of the first header line that is
  refused, or of two framings; when it is 0 the method, the target and every kept field are the NUL-terminated strings of the
  buffer, and the bytes after the head are as they were.
\<close>

theorem head_parse_says:
  assumes "line_ok rl" "list_all (\<lambda>l. line_ok l \<and> strip l \<noteq> []) ls" "line_ok e" "strip e = []"
    "n = length (head_lines (rl # ls @ [e]))" "n < 2 ^ 16" "lm_body lim < 2 ^ 64" "length (app_fields app) \<le> STREAM_FIELDS"
  shows "\<exists>s m t sd req d. httpd_req_parse (head_lines (rl # ls @ [e]) @ rest) n app lim = Some (s, req, d @ rest) \<and> length d = n \<and>
    head_says app lim (strip rl) (map strip ls) = (s, m, t, sd) \<and>
    (s = 0 \<longrightarrow> req_says n (d @ rest) req sd \<and> rq_head req = n \<and> cstr_at (d @ rest) 0 = m \<and>
       field_shows n (d @ rest) (rq_target req) (Some t))"
proof -
  obtain s m t sd req d where p: "httpd_req_parse (head_lines (rl # ls @ [e]) @ rest) n app lim = Some (s, req, d @ rest)" "length d = n"
    "head_says app lim (strip rl) (map strip ls) = (s, m, t, sd)"
    "s = 0 \<Longrightarrow> req_says n (d @ rest) req sd \<and> rq_head req = n \<and> cstr_at (d @ rest) 0 = m \<and>
       field_shows n (d @ rest) (rq_target req) (Some t)"
    by (rule parse_spec [OF assms]) blast
  then show ?thesis
    by (intro exI [of _ s] exI [of _ m] exI [of _ t] exI [of _ sd] exI [of _ req] exI [of _ d]) simp
qed

theorem head_parse_says_witness:
  "\<exists>req d. httpd_req_parse (head_lines [ascii ''GET /a HTTP/1.1'' @ [13], ascii ''Host: b '' @ [13], [13]] @ [88]) 29
     \<lparr>app_fields = [], app_lists = 0\<rparr> \<lparr>lm_body = 9, lm_head = 100, lm_fields = 9\<rparr> = Some (0, req, d @ [88]) \<and>
     field_shows 29 (d @ [88]) (rq_host req) (Some (ascii ''b''))"
proof -
  let ?rl = "ascii ''GET /a HTTP/1.1'' @ [13]" and ?h = "ascii ''Host: b '' @ [13]"
  let ?app = "\<lparr>app_fields = [], app_lists = 0\<rparr>" and ?lim = "\<lparr>lm_body = 9, lm_head = 100, lm_fields = 9\<rparr>"
  have ok: "line_ok ?rl" "list_all (\<lambda>l. line_ok l \<and> strip l \<noteq> []) [?h]" "line_ok [13]" "strip [13] = []" by code_simp+
  have n: "29 = length (head_lines (?rl # [?h] @ [[13]]))" by simp
  have b: "(29::nat) < 2 ^ 16" "lm_body ?lim < 2 ^ 64" "length (app_fields ?app) \<le> STREAM_FIELDS" by simp_all
  obtain s m t sd req d where
    r: "httpd_req_parse (head_lines (?rl # [?h] @ [[13]]) @ [88]) 29 ?app ?lim = Some (s, req, d @ [88])"
      "head_says ?app ?lim (strip ?rl) (map strip [?h]) = (s, m, t, sd)" "s = 0 \<longrightarrow> req_says 29 (d @ [88]) req sd"
    using head_parse_says [OF ok n b, of "[88]"] by (elim exE conjE) (rule that, assumption, assumption, rule impI, drule (1) mp, elim conjE)
  let ?f = "fields_say ?app ?lim said_zero (map strip [?h]) 0"
  have line: "request_line (strip ?rl) = Some (ascii ''GET'', ascii ''/a'', ascii ''HTTP/1.1'')" by code_simp
  have f: "fst ?f = 0" "sd_flags (snd ?f) = 0" "sd_host (snd ?f) = Some (ascii ''b'')" by code_simp+
  have "?f = (0, snd ?f)" using f(1) by (metis prod.collapse)
  from get_says [OF line this f(2)] r(2) f(3) have "s = 0" "sd_host sd = Some (ascii ''b'')" by simp_all
  then have "field_shows 29 (d @ [88]) (rq_host req) (Some (ascii ''b''))" using r(3) by (simp add: req_says_def)
  then show ?thesis using r(1) unfolding \<open>s = 0\<close> append_Cons append_Nil by (intro exI conjI)
qed

text \<open>
  C26.  No accepted request has two framings: a chunked one has no \<^verbatim>\<open>Content-Length\<close> and is not of HTTP/1.0, and the length of a body
  is within the limit, and 0 unless the head gives one.
\<close>

theorem head_one_framing:
  assumes "httpd_req_parse data n app lim = Some (0, req, data')" "lm_body lim < 2 ^ 64"
  shows "\<not> (flag REQ_CHUNKED req \<and> flag REQ_LENGTH req) \<and> \<not> (flag REQ_CHUNKED req \<and> flag REQ_HTTP10 req) \<and>
    rq_body req \<le> lm_body lim \<and> (rq_body req = 0 \<or> flag REQ_LENGTH req)"
proof -
  have zero: "body_ok (lm_body lim) (req_zero\<lparr>rq_head := n mod 2 ^ 16\<rparr>)" by (simp add: body_ok_def req_zero_def)
  have "memchr 0 (take n data) = None" using assms(1) by (cases "memchr 0 (take n data)") (simp_all add: httpd_req_parse_def Let_def)
  then have run: "httpd_req_parse data n app lim =
      (case httpd_next_line data 0 of None \<Rightarrow> None
       | Some (line, cursor, d1) \<Rightarrow>
           (case httpd_req_line (req_zero\<lparr>rq_head := n mod 2 ^ 16\<rparr>) line d1 of
             (status, req, data) \<Rightarrow> if status \<noteq> 0 then Some (status, req, data) else
               (case parse_fields app lim req data cursor 0 of None \<Rightarrow> None
                | Some (status, req, data) \<Rightarrow> if status \<noteq> 0 then Some (status, req, data)
                    else Some (if flag REQ_CHUNKED req \<and> (flag REQ_LENGTH req \<or> flag REQ_HTTP10 req) then 400 else 0, req, data))))"
    by (simp only: httpd_req_parse_def Let_def simp_thms if_False)
  then obtain line cursor d1 where nl: "httpd_next_line data 0 = Some (line, cursor, d1)"
    using assms(1) by (cases "httpd_next_line data 0") auto
  obtain s1 req1 d2 where l: "httpd_req_line (req_zero\<lparr>rq_head := n mod 2 ^ 16\<rparr>) line d1 = (s1, req1, d2)" by (metis surj_pair)
  have s1: "s1 = 0" using assms(1) unfolding run nl option.case prod.case l by (cases "s1 = 0") simp_all
  then obtain s2 req2 d3 where f: "parse_fields app lim req1 d2 cursor 0 = Some (s2, req2, d3)"
    using assms(1) unfolding run nl option.case prod.case l by (cases "parse_fields app lim req1 d2 cursor 0") auto
  have "s2 = 0" "req = req2" "\<not> (flag REQ_CHUNKED req \<and> (flag REQ_LENGTH req \<or> flag REQ_HTTP10 req))"
    using assms(1) s1 unfolding run nl option.case prod.case l f by (auto split: if_splits)
  then have p: "httpd_req_line (req_zero\<lparr>rq_head := n mod 2 ^ 16\<rparr>) line d1 = (0, req1, d2)" 
      "parse_fields app lim req1 d2 cursor 0 = Some (0, req, d3)" "\<not> (flag REQ_CHUNKED req \<and> (flag REQ_LENGTH req \<or> flag REQ_HTTP10 req))"
    using l f s1 by simp_all
  have "body_ok (lm_body lim) req"
    using parse_fields_body [OF p(2) req_line_body [OF p(1) zero] assms(2)] .
  then show ?thesis using p(3) by (auto simp: body_ok_def)
qed

theorem head_one_framing_witness:
  "\<exists>req. map_option (fst \<circ> snd) (httpd_req_parse (ascii ''GET / HTTP/1.1'' @ [10, 10]) 16 \<lparr>app_fields = [], app_lists = 0\<rparr>
     \<lparr>lm_body = 9, lm_head = 100, lm_fields = 9\<rparr>) = Some req \<and> rq_body req \<le> 9"
proof -
  let ?r = "httpd_req_parse (ascii ''GET / HTTP/1.1'' @ [10, 10]) 16 \<lparr>app_fields = [], app_lists = 0\<rparr> \<lparr>lm_body = 9, lm_head = 100, lm_fields = 9\<rparr>"
  have ok: "line_ok (ascii ''GET / HTTP/1.1'')" "list_all (\<lambda>l. line_ok l \<and> strip l \<noteq> []) []" "line_ok []" "strip [] = []" by code_simp+
  have n: "16 = length (head_lines (ascii ''GET / HTTP/1.1'' # [] @ [[]]))" by simp
  have e: "head_lines (ascii ''GET / HTTP/1.1'' # [] @ [[]]) @ [] = ascii ''GET / HTTP/1.1'' @ [10, 10]" by code_simp
  let ?lim = "\<lparr>lm_body = 9, lm_head = 100, lm_fields = 9\<rparr>" and ?app = "\<lparr>app_fields = [], app_lists = 0\<rparr>"
  have b: "(16::nat) < 2 ^ 16" "lm_body ?lim < 2 ^ 64" "length (app_fields ?app) \<le> STREAM_FIELDS" by simp_all
  obtain s m t sd req d where
    p: "httpd_req_parse (head_lines (ascii ''GET / HTTP/1.1'' # [] @ [[]]) @ []) 16 ?app ?lim = Some (s, req, d @ [])"
      "head_says ?app ?lim (strip (ascii ''GET / HTTP/1.1'')) (map strip []) = (s, m, t, sd)"
    by (rule parse_spec [OF ok n b, of "[]"])
  have r: "?r = Some (s, req, d)" using p(1) [unfolded e] by (simp only: append_Nil2)
  have line: "request_line (strip (ascii ''GET / HTTP/1.1'')) = Some (ascii ''GET'', ascii ''/'', ascii ''HTTP/1.1'')" by code_simp
  have "fields_say ?app ?lim said_zero (map strip []) 0 = (0, said_zero)" "sd_flags said_zero = 0" by code_simp+
  from get_says [OF line this] p(2) have "s = 0" by simp
  with r have r0: "?r = Some (0, req, d)" by (simp only:)
  then show ?thesis using head_one_framing [OF r0] by (simp only: option.map o_apply fst_conv snd_conv) simp
qed

text \<open>
  C27.  The defence against DNS rebinding: a request's origin passes exactly if it is configured, or any is, or it is an http or https
  URL whose host is a loopback name in any letter case, alone or with a port of one to five digits after a colon.
\<close>

theorem origin_is_local_or_configured:
  "httpd_origin_allowed origins origin \<longleftrightarrow>
     ascii ''*'' \<in> set origins \<or> origin \<in> set origins \<or>
     (\<exists>scheme name p. scheme \<in> {ascii ''http://'', ascii ''https://''} \<and> origin = scheme @ name @ p \<and>
        map fold_case name \<in> set loopback_names \<and> port_ok p \<and> list_all (\<lambda>c. ch CHR '' '' < c \<and> c \<le> ch CHR ''~'') origin)"
proof -
  have names: "name \<noteq> []" if "map fold_case name \<in> set loopback_names" for name
    using that by (auto simp: loopback_names_def ascii_def)
  have "httpd_loopback_origin origin \<longleftrightarrow>
    (\<exists>scheme name p. scheme \<in> {ascii ''http://'', ascii ''https://''} \<and> origin = scheme @ name @ p \<and>
        map fold_case name \<in> set loopback_names \<and> port_ok p \<and> list_all (\<lambda>c. ch CHR '' '' < c \<and> c \<le> ch CHR ''~'') origin)" (is "_ \<longleftrightarrow> ?R")
  proof
    assume l: "httpd_loopback_origin origin"
    define k where "k = util_url_scheme origin"
    have k: "k \<noteq> 0" "httpd_loopback_host (drop k origin)" using l by (simp_all add: httpd_loopback_origin_def k_def Let_def)
    obtain name p where np: "drop k origin = name @ p" "map fold_case name \<in> set loopback_names" "port_ok p"
      using k(2) unfolding loopback_host_iff by (elim exE conjE)
    have "take k origin \<in> {ascii ''http://'', ascii ''https://''}" using url_scheme_cases [of origin] k(1) by (auto simp: k_def)
    moreover have "origin = take k origin @ name @ p" using np(1) by (metis append_take_drop_id)
    moreover have "list_all (\<lambda>c. ch CHR '' '' < c \<and> c \<le> ch CHR ''~'') origin"
      using url_scheme_printable [of origin] k(1) by (auto simp: list_all_iff k_def)
    ultimately show ?R using np(2,3) by (intro exI [of _ "take k origin"] exI [of _ name] exI [of _ p] conjI)
  next
    assume ?R
    then obtain scheme name p where r: "scheme \<in> {ascii ''http://'', ascii ''https://''}" "origin = scheme @ name @ p"
        "map fold_case name \<in> set loopback_names" "port_ok p" "list_all (\<lambda>c. ch CHR '' '' < c \<and> c \<le> ch CHR ''~'') origin"
      by (elim exE conjE)
    have print: "\<not> list_ex (\<lambda>c. c \<le> ch CHR '' '' \<or> c > ch CHR ''~'') origin"
      using r(5) by (auto simp: list_ex_iff list_all_iff not_le not_less)
    have "util_url_scheme origin = length scheme"
    proof (cases "scheme = ascii ''http://''")
      case True
      have "cstr_view_starts origin (ascii ''http://'')" using r(2) True by (auto simp: cstr_view_starts_iff)
      then show ?thesis using print r(2) True names [OF r(3)] by (simp add: util_url_scheme_def Let_def)
    next
      case False
      then have s: "scheme = ascii ''https://''" using r(1) by simp
      have "cstr_view_starts origin (ascii ''https://'')" using r(2) s by (auto simp: cstr_view_starts_iff)
      moreover have "\<not> cstr_view_starts origin (ascii ''http://'')" using r(2) s by (simp add: cstr_view_starts_iff ascii_def)
      ultimately show ?thesis using print r(2) s names [OF r(3)] by (simp add: util_url_scheme_def Let_def)
    qed
    moreover have "length scheme \<noteq> 0" using r(1) by (auto simp: ascii_def)
    moreover have "httpd_loopback_host (name @ p)" unfolding loopback_host_iff using r(3,4) by (intro exI [of _ name] exI [of _ p]) simp
    ultimately show "httpd_loopback_origin origin" using r(2) by (simp add: httpd_loopback_origin_def Let_def)
  qed
  then show ?thesis unfolding httpd_origin_allowed_def list_ex_iff by (simp only: either_allowed)
qed

end
