(* ===== verification/Httpd_Chunk.thy ===== *)
theory Httpd_Chunk
  imports Httpd_Head
begin

text \<open>
  The body of an HTTP request (\<^verbatim>\<open>src/httpd.c\<close>): chunks decoded in place, the budgets of body bytes, and
  one step that takes in what has come and hands it to the application.

  The bytes after the head lie in a buffer, from which the decoder reads at \<open>dc_rd\<close> and moves data down to \<open>dc_wr\<close>.  The
  lemmas show that this refines a decoder of lists, which gives the same in whatever pieces the input comes; that the chunked
  form of a body is decoded to the body; and that no count wraps or passes its limit.
\<close>

unbundle bit_operations_syntax

section \<open>Where the decoding stands\<close>

text \<open>\<^verbatim>\<open>enum httpd_chunk\<close>: two bits of the flags of a request.\<close>

definition CHUNK_SIZE :: u32 where "CHUNK_SIZE = push_bit 16 0"
definition CHUNK_DATA :: u32 where "CHUNK_DATA = push_bit 16 1"
definition CHUNK_CRLF :: u32 where "CHUNK_CRLF = push_bit 16 2"
definition CHUNK_TRAILER :: u32 where "CHUNK_TRAILER = push_bit 16 3"
definition CHUNK_STATE :: u32 where "CHUNK_STATE = push_bit 16 3"

definition CHUNK_LINE :: nat where
  "CHUNK_LINE = 1024"

definition chunk_state :: "httpd_req \<Rightarrow> u32" where
  "chunk_state req = rq_flags req AND CHUNK_STATE"

definition httpd_req_chunking :: "u32 \<Rightarrow> httpd_req \<Rightarrow> httpd_req" where
  "httpd_req_chunking state req = req\<lparr>rq_flags := (rq_flags req AND NOT CHUNK_STATE) OR state\<rparr>"

text \<open>\<^verbatim>\<open>struct httpd_dechunk\<close>, with the bytes themselves in place of the pointer.\<close>

record dechunk =
  dc_raw :: bytes
  dc_len :: nat
  dc_rd :: nat
  dc_wr :: nat

section \<open>Lines, sizes, data and trailers\<close>

text \<open>The status, the line, \<open>None\<close> for a null pointer, and what is left to read.\<close>

definition httpd_dechunk_line :: "dechunk \<Rightarrow> nat \<Rightarrow> nat \<Rightarrow> nat \<times> bytes option \<times> dechunk" where
  "httpd_dechunk_line d max_len too_long =
     (let avail = dc_len d - dc_rd d;
          start = drop (dc_rd d) (dc_raw d)
      in case memchr 10 (take (if avail < max_len then avail else max_len) start) of
           None \<Rightarrow> (if avail < max_len then 0 else too_long, None, d)
         | Some nl \<Rightarrow>
             let d = d\<lparr>dc_rd := dc_rd d + nl + 1\<rparr>
             in if nl = 0 \<or> start ! (nl - 1) \<noteq> 13 then (400, None, d) else (0, Some (take (nl - 1) start), d))"

text \<open>The loop over the digits: the size, whether it is too great, and the number of digits.\<close>

fun size_loop :: "bytes \<Rightarrow> u64 \<Rightarrow> bool \<Rightarrow> nat \<Rightarrow> u64 \<times> bool \<times> nat" where
  "size_loop [] value over i = (value, over, i)"
| "size_loop (c # cs) value over i =
     (let v = util_hex_digit c
      in if v < 16 then size_loop cs (push_bit 4 value OR ucast v) (over \<or> value > drop_bit 4 (- 1)) (i + 1) else (value, over, i))"

definition httpd_conn_chunk_size :: "httpd_limits \<Rightarrow> httpd_req \<Rightarrow> dechunk \<Rightarrow> nat \<times> httpd_req \<times> dechunk" where
  "httpd_conn_chunk_size lim req d =
     (case httpd_dechunk_line d CHUNK_LINE 400 of
        (status, None, d) \<Rightarrow> (status, req, d)
      | (status, Some line, d) \<Rightarrow>
          let n = length line;
              (n_data, over, i) = size_loop line 0 False 0;
              ext = i + strspn (drop i line) [ch CHR '' '', 9]
          in if i = 0 \<or> over \<or> (ext < n \<and> line ! ext \<noteq> ch CHR '';'') then (400, req, d)
             else if list_ex (\<lambda>k. httpd_ctl (line ! k)) [ext..<n] then (400, req, d)
             else if n_data > of_nat (lm_body lim) - of_nat (rq_got req) - of_nat (dc_wr d) then (413, req, d)
             else (0, httpd_req_chunking (if n_data \<noteq> 0 then CHUNK_DATA else CHUNK_TRAILER) (req\<lparr>rq_chunk := unat n_data\<rparr>), d))"

definition httpd_req_chunk_data :: "httpd_req \<Rightarrow> dechunk \<Rightarrow> httpd_req \<times> dechunk" where
  "httpd_req_chunk_data req d =
     (let avail = dc_len d - dc_rd d;
          n = (if avail < rq_chunk req then avail else rq_chunk req);
          d = d\<lparr>dc_raw := overwrite (dc_raw d) (dc_wr d) (take n (drop (dc_rd d) (dc_raw d)))\<rparr>;
          d = d\<lparr>dc_wr := dc_wr d + n, dc_rd := dc_rd d + n\<rparr>;
          req = req\<lparr>rq_chunk := rq_chunk req - n\<rparr>
      in (if rq_chunk req = 0 then httpd_req_chunking CHUNK_CRLF req else req, d))"

definition httpd_req_chunk_end :: "httpd_req \<Rightarrow> dechunk \<Rightarrow> nat \<times> httpd_req \<times> dechunk" where
  "httpd_req_chunk_end req d =
     (let crlf = drop (dc_rd d) (dc_raw d)
      in if dc_len d - dc_rd d < 2 then (0, req, d)
         else (if crlf ! 0 = 13 \<and> crlf ! 1 = 10 then 0 else 400, httpd_req_chunking CHUNK_SIZE req, d\<lparr>dc_rd := dc_rd d + 2\<rparr>))"

text \<open>The counts of the trailer are 16 bits wide; a byte past the line is the carriage return of its end.\<close>

definition httpd_conn_trailer :: "httpd_limits \<Rightarrow> httpd_req \<Rightarrow> dechunk \<Rightarrow> nat \<times> httpd_req \<times> dechunk" where
  "httpd_conn_trailer lim req d =
     (case httpd_dechunk_line d (lm_head lim) 431 of
        (status, None, d) \<Rightarrow> (status, req, d)
      | (status, Some line, d) \<Rightarrow>
          if (of_nat (length line + 2) :: u64) > ucast (of_nat (lm_head lim) - of_nat (rq_trailer req) :: u32) then (431, req, d)
          else
            let req = req\<lparr>rq_trailer := (rq_trailer req + (length line + 2)) mod 2 ^ 16\<rparr>;
                name = length (takeWhile httpd_tchar line);
                req' = (if line = [] then set_flag REQ_BODY_IN req else req\<lparr>rq_trailers := (rq_trailers req + 1) mod 2 ^ 16\<rparr>)
            in if line \<noteq> [] \<and> (name = 0 \<or> (line @ [13]) ! name \<noteq> ch CHR '':'') then (400, req, d)
               else (if rq_trailers req' > lm_fields lim then 431 else 0, req', d))"

section \<open>The decoder\<close>

text \<open>The body of the loop: the status, the request and the decoding.\<close>

definition dechunk_step :: "httpd_limits \<Rightarrow> httpd_req \<Rightarrow> dechunk \<Rightarrow> nat \<times> httpd_req \<times> dechunk" where
  "dechunk_step lim req d =
     (if chunk_state req = CHUNK_SIZE then httpd_conn_chunk_size lim req d
      else if chunk_state req = CHUNK_DATA then let (req, d) = httpd_req_chunk_data req d in (0, req, d)
      else if chunk_state req = CHUNK_CRLF then httpd_req_chunk_end req d
      else httpd_conn_trailer lim req d)"

lemma dechunk_line_forward: "httpd_dechunk_line d m t = (s, l, d') \<Longrightarrow> dc_len d' = dc_len d \<and> dc_rd d \<le> dc_rd d'"
  by (auto simp: httpd_dechunk_line_def Let_def split: option.splits if_splits)

lemma dechunk_step_forward: "dechunk_step lim req d = (s, req', d') \<Longrightarrow> dc_len d' = dc_len d \<and> dc_rd d \<le> dc_rd d'"
  by (auto simp: dechunk_step_def httpd_conn_chunk_size_def httpd_req_chunk_data_def httpd_req_chunk_end_def httpd_conn_trailer_def Let_def
      dest: dechunk_line_forward split: option.splits if_splits prod.splits)

function dechunk_loop :: "httpd_limits \<Rightarrow> httpd_req \<Rightarrow> dechunk \<Rightarrow> nat \<times> httpd_req \<times> dechunk" where
  "dechunk_loop lim req d =
     (if dc_rd d < dc_len d \<and> \<not> flag REQ_BODY_IN req then
        case dechunk_step lim req d of
          (status, req, d') \<Rightarrow>
            if status \<noteq> 0 then (status, req, d')
            else if dc_rd d' = dc_rd d then (0, req, d')
            else dechunk_loop lim req d'
      else (0, req, d))"
  by pat_completeness auto
termination
  by (relation "measure (\<lambda>(lim, req, d). dc_len d - dc_rd d)") (auto dest!: dechunk_step_forward [OF sym])

declare dechunk_loop.simps [simp del]

section \<open>The budgets of body bytes\<close>

text \<open>
  \<^verbatim>\<open>httpd_budget_take()\<close>: each entry of \<open>races\<close> is what a failed exchange finds in the budget, which other loops use too; with none
  left the exchange succeeds.  The result is whether the bytes fit, and the budget.
\<close>

fun httpd_budget_take :: "u64 list \<Rightarrow> u64 \<Rightarrow> u64 \<Rightarrow> u64 \<Rightarrow> errno option \<times> u64" where
  "httpd_budget_take [] used n mx = (if n \<le> mx - used then (None, used + n) else (Some ENOBUFS, used))"
| "httpd_budget_take (now # races) used n mx =
     (if n \<le> mx - used then httpd_budget_take races now n mx else (Some ENOBUFS, used))"

record budgets =
  bd_bodies :: u64   \<comment> \<open>the bytes held for all clients, \<^verbatim>\<open>hub->bodies\<close>\<close>
  bd_client :: u64   \<comment> \<open>those held for this client, \<^verbatim>\<open>client->held\<close>\<close>
  bd_held :: u64     \<comment> \<open>those held for this connection, \<^verbatim>\<open>conn->held\<close>\<close>

text \<open>
  What the other loops do to the budgets during a call: what failed exchanges find in each of the two, and what is added to the
  first, modulo 2^64, between the exchange that takes from it and the next operation on it.
\<close>

type_synonym races = "u64 list \<times> u64 list \<times> u64"

definition httpd_conn_hold :: "u64 \<Rightarrow> u64 \<Rightarrow> races \<Rightarrow> u64 \<Rightarrow> budgets \<Rightarrow> errno option \<times> budgets" where
  "httpd_conn_hold max_bodies max_client races n b =
     (case races of (raced_bodies, raced_client, others) \<Rightarrow>
      if n = 0 then (None, b)
      else
        let (e, bodies) = httpd_budget_take raced_bodies (bd_bodies b) n max_bodies
        in if e \<noteq> None then (e, b\<lparr>bd_bodies := bodies\<rparr>)
           else
             let b = b\<lparr>bd_bodies := bodies + others\<rparr>;
                 (e, client) = httpd_budget_take raced_client (bd_client b) n max_client;
                 b = b\<lparr>bd_client := client\<rparr>
             in if e \<noteq> None then (e, b\<lparr>bd_bodies := bd_bodies b - n\<rparr>) else (None, b\<lparr>bd_held := bd_held b + n\<rparr>))"

text \<open>\<^verbatim>\<open>struct httpd_limits\<close> has the limits of the budgets too.\<close>

record body_limits = httpd_limits +
  lm_bodies :: u64
  lm_client_bodies :: u64

text \<open>\<^verbatim>\<open>httpd_conn_dechunk()\<close>: the status, the request, the budgets, the bytes, and the numbers of bytes taken and of data.\<close>

definition httpd_conn_dechunk ::
    "body_limits \<Rightarrow> races \<Rightarrow> httpd_req \<Rightarrow> budgets \<Rightarrow> bytes \<Rightarrow> nat \<times> httpd_req \<times> budgets \<times> bytes \<times> nat \<times> nat"
where
  "httpd_conn_dechunk lim races req b raw =
     (case dechunk_loop (httpd_limits.truncate lim) req \<lparr>dc_raw = raw, dc_len = length raw, dc_rd = 0, dc_wr = 0\<rparr> of
        (status, req, d) \<Rightarrow>
          if status \<noteq> 0 then (status, req, b, dc_raw d, 0, 0)
          else
            let (e, b) = httpd_conn_hold (lm_bodies lim) (lm_client_bodies lim) races (of_nat (dc_wr d)) b
            in (if e \<noteq> None then 503 else 0, req, b, dc_raw d, dc_rd d, dc_wr d))"

section \<open>One step of a body\<close>

datatype httpd_next = NEXT_MORE | NEXT_INPUT | NEXT_YIELD | NEXT_WAIT | NEXT_END

abbreviation (input) "REQ_OPEN \<equiv> 10 :: nat"
abbreviation (input) "REQ_DONE \<equiv> 14 :: nat"

text \<open>What a step does outside: a call of \<open>on_body\<close>, the interim response, or the response to an error.\<close>

datatype body_event = OnBody bytes bool | Continue100 | Fail nat

record body_conn =
  bc_req :: httpd_req
  bc_in :: bytes      \<comment> \<open>the input, from the head of the request on\<close>
  bc_budgets :: budgets

text \<open>
  \<^verbatim>\<open>httpd_conn_body()\<close>, for the share \<open>room\<close> of the step, with the work it counts.  The application is an argument: what it does to
  the request when it is called, such as to complete the response.
\<close>

definition httpd_conn_body ::
    "body_limits \<Rightarrow> races \<Rightarrow> (bytes \<Rightarrow> bool \<Rightarrow> httpd_req \<Rightarrow> httpd_req) \<Rightarrow> nat \<Rightarrow> body_conn \<Rightarrow>
       httpd_next \<times> nat \<times> body_event list \<times> body_conn"
where
  "httpd_conn_body lim races app room conn =
     (let req = bc_req conn;
          raw = drop (rq_head req) (bc_in conn);
          avail = length (bc_in conn) - rq_head req;
          len = (if avail < room then avail else room);
          (status, req, b, data, used, out) =
            (if flag REQ_CHUNKED req then httpd_conn_dechunk lim races req (bc_budgets conn) (take len raw)
             else
               let left = rq_body req - rq_got req;
                   n = (if len < left then len else left)
               in (0, if n = left then set_flag REQ_BODY_IN req else req, bc_budgets conn, take len raw, n, n));
          conn = conn\<lparr>bc_req := req, bc_budgets := b, bc_in := overwrite (bc_in conn) (rq_head req) data\<rparr>
      in if status \<noteq> 0 then (NEXT_END, 0, [Fail status], conn)
         else
           let req = req\<lparr>rq_got := rq_got req + out\<rparr>;
               last_part = flag REQ_BODY_IN req;
               call = flag REQ_OPEN req \<and> (out \<noteq> 0 \<or> last_part);
               events = (if call then [OnBody (take out data) last_part] else []);
               req = (if call then app (take out data) last_part req else req);
               conn = conn\<lparr>bc_in := take (rq_head req) (bc_in conn) @ drop (rq_head req + used) (bc_in conn)\<rparr>
           in if flag REQ_BODY_IN req \<or> flag REQ_DONE req then (NEXT_MORE, used, events, conn\<lparr>bc_req := req\<rparr>)
              else if len < avail then (NEXT_YIELD, used, events, conn\<lparr>bc_req := req\<rparr>)
              else if flag REQ_EXPECT req
              then (NEXT_INPUT, used, events @ [Continue100], conn\<lparr>bc_req := clear_flag REQ_EXPECT req\<rparr>)
              else (NEXT_INPUT, used, events, conn\<lparr>bc_req := req\<rparr>))"

text \<open>\<^verbatim>\<open>httpd_hex()\<close>, which writes the size of a chunk of the response: the digits.\<close>

function httpd_hex :: "nat \<Rightarrow> bytes" where
  "httpd_hex n = (if n div 16 = 0 then [] else httpd_hex (n div 16)) @ [hex_digits ! (n mod 16)]"
  by pat_completeness auto
termination by (relation "measure id") auto

declare httpd_hex.simps [simp del]

section \<open>A decoder of lists\<close>

text \<open>
  The same steps on the bytes that are left to read, with numbers that do not wrap: the status, the request, the number of bytes
  taken and how many of them are data.
\<close>

definition dec_line :: "nat \<Rightarrow> nat \<Rightarrow> bytes \<Rightarrow> nat \<times> bytes option \<times> nat" where
  "dec_line m too_long inp =
     (case memchr 10 (take m inp) of
        None \<Rightarrow> (if length inp < m then 0 else too_long, None, 0)
      | Some nl \<Rightarrow> if nl = 0 \<or> inp ! (nl - 1) \<noteq> 13 then (400, None, nl + 1) else (0, Some (take (nl - 1) inp), nl + 1))"

definition is_hex_digit :: "byte \<Rightarrow> bool" where
  "is_hex_digit c \<longleftrightarrow> util_hex_digit c < 16"

definition hex_val :: "bytes \<Rightarrow> nat" where
  "hex_val s = foldl (\<lambda>v c. 16 * v + unat (util_hex_digit c)) 0 s"

text \<open>What a size line says, with room for that many bytes: an HTTP error, or the size.\<close>

definition size_line :: "nat \<Rightarrow> bytes \<Rightarrow> nat + nat" where
  "size_line room line =
     (let digits = takeWhile is_hex_digit line;
          ext = dropWhile (\<lambda>c. c \<in> {32, 9}) (dropWhile is_hex_digit line)
      in if digits = [] \<or> hex_val digits \<ge> 2 ^ 64 \<or> (ext \<noteq> [] \<and> hd ext \<noteq> ch CHR '';'') \<or> list_ex httpd_ctl ext then Inl 400
         else if hex_val digits > room then Inl 413
         else Inr (hex_val digits))"

definition field_line :: "bytes \<Rightarrow> bool" where
  "field_line line \<longleftrightarrow> (\<exists>rest. takeWhile httpd_tchar line \<noteq> [] \<and> dropWhile httpd_tchar line = ch CHR '':'' # rest)"

definition dec_step :: "httpd_limits \<Rightarrow> httpd_req \<Rightarrow> nat \<Rightarrow> bytes \<Rightarrow> nat \<times> httpd_req \<times> nat \<times> nat" where
  "dec_step lim req wr inp =
     (if chunk_state req = CHUNK_SIZE then
        (case dec_line CHUNK_LINE 400 inp of
           (status, None, n) \<Rightarrow> (status, req, n, 0)
         | (status, Some line, n) \<Rightarrow>
             (case size_line (lm_body lim - rq_got req - wr) line of
                Inl e \<Rightarrow> (e, req, n, 0)
              | Inr k \<Rightarrow> (0, httpd_req_chunking (if k \<noteq> 0 then CHUNK_DATA else CHUNK_TRAILER) (req\<lparr>rq_chunk := k\<rparr>), n, 0)))
      else if chunk_state req = CHUNK_DATA then
        let n = min (length inp) (rq_chunk req);
            req = req\<lparr>rq_chunk := rq_chunk req - n\<rparr>
        in (0, if rq_chunk req = 0 then httpd_req_chunking CHUNK_CRLF req else req, n, n)
      else if chunk_state req = CHUNK_CRLF then
        if length inp < 2 then (0, req, 0, 0)
        else (if take 2 inp = [13, 10] then 0 else 400, httpd_req_chunking CHUNK_SIZE req, 2, 0)
      else
        case dec_line (lm_head lim) 431 inp of
          (status, None, n) \<Rightarrow> (status, req, n, 0)
        | (status, Some line, n) \<Rightarrow>
            if rq_trailer req + (length line + 2) > lm_head lim then (431, req, n, 0)
            else
              let req = req\<lparr>rq_trailer := rq_trailer req + (length line + 2)\<rparr>
              in if line = [] then (if rq_trailers req > lm_fields lim then 431 else 0, set_flag REQ_BODY_IN req, n, 0)
                 else if \<not> field_line line then (400, req, n, 0)
                 else (if rq_trailers req + 1 > lm_fields lim then 431 else 0, req\<lparr>rq_trailers := rq_trailers req + 1\<rparr>, n, 0))"

text \<open>The whole run, with the data as a list.\<close>

function dec_run :: "httpd_limits \<Rightarrow> httpd_req \<Rightarrow> nat \<Rightarrow> bytes \<Rightarrow> nat \<times> httpd_req \<times> nat \<times> bytes" where
  "dec_run lim req wr inp =
     (if inp = [] \<or> flag REQ_BODY_IN req then (0, req, 0, [])
      else
        case dec_step lim req wr inp of
          (status, req, n, k) \<Rightarrow>
            if status \<noteq> 0 \<or> n = 0 then (status, req, n, take k inp)
            else
              case dec_run lim req (wr + k) (drop n inp) of
                (status, req, m, out) \<Rightarrow> (status, req, n + m, take k inp @ out))"
  by pat_completeness auto
termination by (relation "measure (\<lambda>(lim, req, wr, inp). length inp)") auto

declare dec_run.simps [simp del]

text \<open>What holds between steps.\<close>

definition dec_ok :: "httpd_limits \<Rightarrow> httpd_req \<Rightarrow> nat \<Rightarrow> bool" where
  "dec_ok lim req wr \<longleftrightarrow>
     lm_body lim < 2 ^ 64 \<and> lm_head lim < 2 ^ 16 \<and>
     rq_got req + wr + (if chunk_state req = CHUNK_DATA then rq_chunk req else 0) \<le> lm_body lim \<and>
     (chunk_state req = CHUNK_DATA \<longrightarrow> 0 < rq_chunk req) \<and>
     rq_trailer req \<le> lm_head lim \<and> 4 * rq_trailers req \<le> rq_trailer req"

section \<open>Facts: flags\<close>

lemma chunk_states:
  "CHUNK_SIZE = 0" "CHUNK_DATA = 0x10000" "CHUNK_CRLF = 0x20000" "CHUNK_TRAILER = 0x30000" "CHUNK_STATE = 0x30000"
  by (simp_all add: CHUNK_SIZE_def CHUNK_DATA_def CHUNK_CRLF_def CHUNK_TRAILER_def CHUNK_STATE_def)

lemma state_chunking [simp]:
  assumes "s AND CHUNK_STATE = s"
  shows "chunk_state (httpd_req_chunking s req) = s"
proof -
  have "((f AND NOT m) OR s) AND m = s AND m" for f m s :: u32 by (rule bit_word_eqI) (auto simp: bit_simps)
  then show ?thesis using assms by (simp add: chunk_state_def httpd_req_chunking_def)
qed

lemma states_differ [simp]:
  "CHUNK_SIZE AND CHUNK_STATE = CHUNK_SIZE" "CHUNK_DATA AND CHUNK_STATE = CHUNK_DATA" "CHUNK_CRLF AND CHUNK_STATE = CHUNK_CRLF"
  "CHUNK_TRAILER AND CHUNK_STATE = CHUNK_TRAILER"
  "CHUNK_SIZE \<noteq> CHUNK_DATA" "CHUNK_CRLF \<noteq> CHUNK_DATA" "CHUNK_TRAILER \<noteq> CHUNK_DATA" "CHUNK_CRLF \<noteq> CHUNK_SIZE"
  "CHUNK_TRAILER \<noteq> CHUNK_SIZE" "CHUNK_TRAILER \<noteq> CHUNK_CRLF" "CHUNK_DATA \<noteq> CHUNK_SIZE" "CHUNK_DATA \<noteq> CHUNK_CRLF"
  by (simp_all add: chunk_states)

lemma bit_chunk_state: "b < 16 \<Longrightarrow> \<not> bit CHUNK_STATE b"
  unfolding CHUNK_STATE_def bit_push_bit_iff by simp

lemma flag_chunking [simp]:
  assumes "b < 16" "s AND CHUNK_STATE = s"
  shows "flag b (httpd_req_chunking s req) = flag b req"
proof -
  have "\<not> bit s b" using assms bit_chunk_state [of b] bit_and_iff [of s CHUNK_STATE b] by simp
  then show ?thesis using assms(1) bit_chunk_state [of b] by (simp add: flag_def httpd_req_chunking_def bit_simps)
qed

lemma chunking_fields [simp]:
  "rq_chunk (httpd_req_chunking s req) = rq_chunk req" "rq_got (httpd_req_chunking s req) = rq_got req"
  "rq_trailer (httpd_req_chunking s req) = rq_trailer req" "rq_head (httpd_req_chunking s req) = rq_head req" "rq_trailers (httpd_req_chunking s req) = rq_trailers req"
  "httpd_req_chunking s req\<lparr>rq_got := g\<rparr> = httpd_req_chunking s (req\<lparr>rq_got := g\<rparr>)"
  by (simp_all add: httpd_req_chunking_def)

lemma chunk_state_update [simp]:
  "chunk_state (req\<lparr>rq_chunk := k\<rparr>) = chunk_state req" "chunk_state (req\<lparr>rq_got := k\<rparr>) = chunk_state req"
  "chunk_state (req\<lparr>rq_trailer := k\<rparr>) = chunk_state req" "chunk_state (req\<lparr>rq_trailers := k\<rparr>) = chunk_state req"
  by (simp_all add: chunk_state_def)

lemma chunk_state_set_flag [simp]: "b < 16 \<Longrightarrow> chunk_state (set_flag b req) = chunk_state req"
proof -
  assume b: "b < 16"
  have "push_bit b 1 AND CHUNK_STATE = 0"
    by (rule bit_word_eqI) (use bit_chunk_state [OF b] in \<open>auto simp: bit_simps\<close>)
  then show ?thesis by (simp add: chunk_state_def set_flag_def bit.conj_disj_distrib2)
qed

lemma flag_update [simp]:
  "flag b (req\<lparr>rq_chunk := k\<rparr>) = flag b req" "flag b (req\<lparr>rq_got := k\<rparr>) = flag b req"
  "flag b (req\<lparr>rq_trailer := k\<rparr>) = flag b req" "flag b (req\<lparr>rq_trailers := k\<rparr>) = flag b req"
  by (simp_all add: flag_def)

lemma set_flag_fields [simp]:
  "rq_chunk (set_flag b req) = rq_chunk req" "rq_got (set_flag b req) = rq_got req" "rq_trailer (set_flag b req) = rq_trailer req"
  "rq_trailers (set_flag b req) = rq_trailers req" "rq_head (set_flag b req) = rq_head req" "set_flag b req\<lparr>rq_got := g\<rparr> = set_flag b (req\<lparr>rq_got := g\<rparr>)"
  by (simp_all add: set_flag_def)

section \<open>Facts: lines and sizes\<close>

lemma dec_line_consumed: "dec_line m t inp = (s, l, n) \<Longrightarrow> n \<le> length inp"
  by (auto simp: dec_line_def Suc_le_eq dest!: memchr_SomeD split: option.splits if_splits)

lemma dechunk_line_spec:
  assumes "dc_len d = length (dc_raw d)"
  shows "httpd_dechunk_line d m t =
    (case dec_line m t (drop (dc_rd d) (dc_raw d)) of (s, l, n) \<Rightarrow> (s, l, d\<lparr>dc_rd := dc_rd d + n\<rparr>))"
proof -
  let ?inp = "drop (dc_rd d) (dc_raw d)" and ?avail = "length (dc_raw d) - dc_rd d"
  have t: "take (if ?avail < m then ?avail else m) ?inp = take m ?inp" by simp
  show ?thesis unfolding httpd_dechunk_line_def dec_line_def Let_def assms t
    by (cases "memchr 10 (take m ?inp)") (simp_all add: Let_def)
qed

lemma hex_digit_16: "is_hex_digit c \<Longrightarrow> unat (util_hex_digit c) < 16"
  by (simp add: is_hex_digit_def word_less_nat_alt)

lemma hex_fold_ge: "(v :: nat) \<le> foldl (\<lambda>v c. 16 * v + unat (util_hex_digit c)) v s"
proof (induction s arbitrary: v)
  case (Cons c s)
  from Cons [of "16 * v + unat (util_hex_digit c)"] show ?case by simp
qed simp

lemma next_digit:
  fixes v :: u64 and x :: u32
  assumes "unat v < 2 ^ 60" "unat x < 16"
  shows "unat (push_bit 4 v OR ucast x) = 16 * unat v + unat x"
proof -
  have "bit (ucast x :: u64) n \<longrightarrow> n < 4" for n
  proof
    assume "bit (ucast x :: u64) n"
    then have "bit x n" by (simp only: bit_unsigned_iff)
    then have b: "odd (unat x div 2 ^ n)"
      using bit_unsigned_iff [where ?'a = nat and w = x and n = n] by (auto simp: bit_iff_odd dest: bit_imp_le_length)
    show "n < 4"
    proof (rule ccontr)
      assume "\<not> n < 4"
      then have "(2::nat) ^ 4 \<le> 2 ^ n" by (intro power_increasing) simp_all
      then have "unat x div 2 ^ n = 0" using assms(2) by simp
      with b show False by simp
    qed
  qed
  then have "push_bit 4 v AND ucast x = 0" by (intro bit_word_eqI) (fastforce simp: bit_and_iff bit_push_bit_iff)
  then have "push_bit 4 v OR ucast x = push_bit 4 v + ucast x" by (simp add: disjunctive_add_eq_or)
  moreover have "push_bit 4 v = 16 * v" by (simp add: push_bit_eq_mult mult.commute)
  moreover have "unat (16 * v) = 16 * unat v" using assms(1) by (simp add: unat_mult_lem [THEN iffD1])
  moreover have "unat (ucast x :: u64) = unat x" using assms(2) by (simp add: unsigned_ucast_eq take_bit_nat_eq_self)
  moreover have "16 * unat v + unat x < 2 ^ 64" using assms by simp
  ultimately show ?thesis by (simp add: unat_word_ariths)
qed

lemma size_over: "size_loop s v True i = (w, ov, k) \<Longrightarrow> ov \<and> k = i + length (takeWhile is_hex_digit s)"
proof (induction s arbitrary: v i)
  case (Cons c s)
  show ?case
  proof (cases "util_hex_digit c < 16")
    case True
    then have "size_loop s (push_bit 4 v OR ucast (util_hex_digit c)) True (i + 1) = (w, ov, k)" using Cons.prems by simp
    from Cons.IH [OF this] show ?thesis using True by (simp add: is_hex_digit_def)
  qed (use Cons.prems in \<open>simp add: is_hex_digit_def\<close>)
qed simp

lemma too_great: "v > drop_bit 4 (- 1 :: u64) \<longleftrightarrow> unat v \<ge> 2 ^ 60"
proof -
  have "drop_bit 4 (- 1 :: u64) = 0xFFFFFFFFFFFFFFF" by (simp add: mask_eq_exp_minus_1)
  then show ?thesis by (auto simp: word_less_nat_alt)
qed

lemma size_loop_spec:
  "size_loop s v False i = (w, ov, k) \<Longrightarrow>
     k = i + length (takeWhile is_hex_digit s) \<and>
     (ov \<longleftrightarrow> foldl (\<lambda>v c. 16 * v + unat (util_hex_digit c)) (unat v) (takeWhile is_hex_digit s) \<ge> 2 ^ 64) \<and>
     (\<not> ov \<longrightarrow> unat w = foldl (\<lambda>v c. 16 * v + unat (util_hex_digit c)) (unat v) (takeWhile is_hex_digit s))"
proof (induction s arbitrary: v i)
  case Nil
  then show ?case using unat_less_64 [of v] by auto
next
  case (Cons c s)
  show ?case
  proof (cases "is_hex_digit c")
    case False
    then show ?thesis using Cons.prems unat_less_64 [of v] by (auto simp: is_hex_digit_def)
  next
    case True
    note x = hex_digit_16 [OF True]
    show ?thesis
    proof (cases "unat v < 2 ^ 60")
      case small: True
      then have "\<not> v > drop_bit 4 (- 1)" unfolding too_great by simp
      then have "size_loop s (push_bit 4 v OR ucast (util_hex_digit c)) False (i + 1) = (w, ov, k)"
        using Cons.prems True by (simp add: is_hex_digit_def del: drop_bit_minus_one)
      from Cons.IH [OF this] show ?thesis unfolding next_digit [OF small x] using True by simp
    next
      case False
      then have "v > drop_bit 4 (- 1)" unfolding too_great by simp
      then have "size_loop s (push_bit 4 v OR ucast (util_hex_digit c)) True (i + 1) = (w, ov, k)"
        using Cons.prems True by (simp add: is_hex_digit_def)
      from size_over [OF this] have o: "ov" "k = i + 1 + length (takeWhile is_hex_digit s)" by simp_all
      have "2 ^ 64 \<le> 16 * unat v + unat (util_hex_digit c)" using False by simp
      from order_trans [OF this hex_fold_ge [of _ "takeWhile is_hex_digit s"]] show ?thesis using o True by simp
    qed
  qed
qed

lemma hex_length: "takeWhile is_hex_digit line @ dropWhile is_hex_digit line = line"
  by simp

lemma drop_strspn: "drop (strspn s w) s = dropWhile (\<lambda>c. c \<in> set w) s"
  unfolding strspn_def by (metis dropWhile_eq_drop)

lemma drop_hex: "drop (length (takeWhile is_hex_digit line)) line = dropWhile is_hex_digit line"
  by (metis dropWhile_eq_drop)

lemma ex_ctl_drop: "list_ex (\<lambda>k. httpd_ctl (line ! k)) [e..<length line] \<longleftrightarrow> list_ex httpd_ctl (drop e line)"
proof -
  have l: "list_ex (\<lambda>k. httpd_ctl (line ! k)) ks = list_ex httpd_ctl (map ((!) line) ks)" for ks by (induction ks) simp_all
  have "map ((!) line) [e..<length line] = drop e line" by (rule nth_equalityI) simp_all
  then show ?thesis unfolding l by simp
qed

lemma strspn_le: "strspn s w \<le> length s"
  unfolding strspn_def by (rule length_takeWhile_le)

lemma chunk_size_spec:
  assumes "dc_len d = length (dc_raw d)" "rq_got req + dc_wr d \<le> lm_body lim" "lm_body lim < 2 ^ 64"
  shows "httpd_conn_chunk_size lim req d =
    (case dec_line CHUNK_LINE 400 (drop (dc_rd d) (dc_raw d)) of
       (status, None, n) \<Rightarrow> (status, req, d\<lparr>dc_rd := dc_rd d + n\<rparr>)
     | (status, Some line, n) \<Rightarrow>
         (case size_line (lm_body lim - rq_got req - dc_wr d) line of
            Inl e \<Rightarrow> (e, req, d\<lparr>dc_rd := dc_rd d + n\<rparr>)
          | Inr k \<Rightarrow> (0, httpd_req_chunking (if k \<noteq> 0 then CHUNK_DATA else CHUNK_TRAILER) (req\<lparr>rq_chunk := k\<rparr>),
              d\<lparr>dc_rd := dc_rd d + n\<rparr>)))"
proof -
  obtain s l n where dl: "dec_line CHUNK_LINE 400 (drop (dc_rd d) (dc_raw d)) = (s, l, n)" by (metis surj_pair)
  show ?thesis
  proof (cases l)
    case None
    then show ?thesis unfolding httpd_conn_chunk_size_def dechunk_line_spec [OF assms(1)] dl by simp
  next
    case (Some line)
    obtain w ov i where sl: "size_loop line 0 False 0 = (w, ov, i)" by (metis surj_pair)
    define h where "h = takeWhile is_hex_digit line"
    define e where "e = dropWhile (\<lambda>c. c \<in> {32, 9}) (dropWhile is_hex_digit line)"
    have i: "i = length h" "ov \<longleftrightarrow> hex_val h \<ge> 2 ^ 64" "\<not> ov \<Longrightarrow> unat w = hex_val h"
      using size_loop_spec [OF sl] by (simp_all add: h_def hex_val_def)
    define ext where "ext = i + strspn (drop i line) [ch CHR '' '', 9]"
    have di: "drop i line = dropWhile is_hex_digit line" unfolding i(1) h_def by (rule drop_hex)
    have de: "drop ext line = e"
      unfolding ext_def add.commute [of i] drop_drop [symmetric] drop_strspn unfolding di e_def by simp
    have c: "ext < length line \<and> line ! ext \<noteq> ch CHR '';'' \<longleftrightarrow> e \<noteq> [] \<and> hd e \<noteq> ch CHR '';''"
      unfolding de [symmetric] by (auto simp: hd_drop_conv_nth)
    have room: "unat (of_nat (lm_body lim) - of_nat (rq_got req) - of_nat (dc_wr d) :: u64) = lm_body lim - rq_got req - dc_wr d"
    proof -
      have "(of_nat (lm_body lim) - of_nat (rq_got req) - of_nat (dc_wr d) :: u64) = of_nat (lm_body lim - rq_got req - dc_wr d)"
        using assms(2) by (simp add: of_nat_diff)
      then show ?thesis using assms(3) by (simp add: unat_of_nat_64)
    qed
    have big: "w > of_nat (lm_body lim) - of_nat (rq_got req) - of_nat (dc_wr d) \<longleftrightarrow> hex_val h > lm_body lim - rq_got req - dc_wr d"
      if "\<not> ov" unfolding word_less_nat_alt room i(3) [OF that] ..
    have zero: "w \<noteq> 0 \<longleftrightarrow> hex_val h \<noteq> 0" if "\<not> ov" using i(3) [OF that] by (simp add: unat_eq_0 [symmetric])
    have sz: "size_line (lm_body lim - rq_got req - dc_wr d) line =
      (if i = 0 \<or> ov \<or> (ext < length line \<and> line ! ext \<noteq> ch CHR '';'') then Inl 400
       else if list_ex (\<lambda>k. httpd_ctl (line ! k)) [ext..<length line] then Inl 400
       else if hex_val h > lm_body lim - rq_got req - dc_wr d then Inl 413 else Inr (hex_val h))"
      unfolding size_line_def Let_def h_def [symmetric] e_def [symmetric] ex_ctl_drop de c i(1,2) by simp
    show ?thesis
    proof (cases ov)
      case True
      then show ?thesis unfolding httpd_conn_chunk_size_def dechunk_line_spec [OF assms(1)] dl Some prod.case option.case sl Let_def
          ext_def [symmetric] sz by simp
    next
      case False
      show ?thesis unfolding httpd_conn_chunk_size_def dechunk_line_spec [OF assms(1)] dl Some prod.case option.case sl Let_def
          ext_def [symmetric] sz using i(3) [OF False] big [OF False] zero [OF False] False by simp
    qed
  qed
qed

section \<open>Facts: steps\<close>

lemma size_line_room: "size_line room line = Inr k \<Longrightarrow> k \<le> room"
  by (auto simp: size_line_def Let_def split: if_splits)

lemma field_line_length: "field_line line \<Longrightarrow> 2 \<le> length line"
proof -
  assume "field_line line"
  then obtain rest where r: "takeWhile httpd_tchar line \<noteq> []" "dropWhile httpd_tchar line = ch CHR '':'' # rest"
    by (auto simp: field_line_def)
  have "length line = length (takeWhile httpd_tchar line) + length (dropWhile httpd_tchar line)"
    by (metis length_append takeWhile_dropWhile_id)
  then show ?thesis using r by (cases "takeWhile httpd_tchar line") simp_all
qed

lemma dec_step_ok:
  assumes "dec_step lim req wr inp = (0, req', n, k)" "dec_ok lim req wr"
  shows "dec_ok lim req' (wr + k)"
proof -
  consider "chunk_state req = CHUNK_SIZE" | "chunk_state req = CHUNK_DATA" | "chunk_state req = CHUNK_CRLF"
    | "chunk_state req \<noteq> CHUNK_SIZE" "chunk_state req \<noteq> CHUNK_DATA" "chunk_state req \<noteq> CHUNK_CRLF" by blast
  then show ?thesis
  proof cases
    case 1
    then show ?thesis using assms by (auto simp: dec_step_def dec_ok_def Let_def dest!: size_line_room split: prod.splits option.splits sum.splits if_splits)
  next
    case 2
    then show ?thesis using assms by (auto simp: dec_step_def dec_ok_def Let_def split: if_splits)
  next
    case 3
    then show ?thesis using assms by (auto simp: dec_step_def dec_ok_def Let_def split: if_splits)
  next
    case 4
    then show ?thesis using assms
      by (auto simp: dec_step_def dec_ok_def Let_def dest!: field_line_length split: prod.splits option.splits if_splits)
  qed
qed

lemma dec_step_bounds:
  assumes "dec_step lim req wr inp = (s, req', n, k)"
  shows "n \<le> length inp \<and> k \<le> n \<and> (k = 0 \<or> chunk_state req = CHUNK_DATA)"
  using assms by (auto simp: dec_step_def Let_def dest!: dec_line_consumed split: prod.splits option.splits if_splits sum.splits)

lemma trailer_room:
  assumes "n \<le> 2 ^ 17" "t \<le> h" "h < 2 ^ 16"
  shows "(of_nat n :: u64) > ucast (of_nat h - of_nat t :: u32) \<longleftrightarrow> t + n > h"
proof -
  have "(of_nat h - of_nat t :: u32) = of_nat (h - t)" using assms(2) by (simp add: of_nat_diff)
  moreover have "unat (of_nat (h - t) :: u32) = h - t" using assms(3) by (simp add: unsigned_of_nat take_bit_nat_eq_self)
  ultimately have "unat (ucast (of_nat h - of_nat t :: u32) :: u64) = h - t"
    using assms(3) by (simp add: unsigned_ucast_eq take_bit_nat_eq_self)
  moreover have "unat (of_nat n :: u64) = n" using assms(1) by (simp add: unat_of_nat_64)
  ultimately show ?thesis using assms(2) by (auto simp: word_less_nat_alt)
qed

lemma colon_after_name: "length (takeWhile httpd_tchar line) = 0 \<or> (line @ [13]) ! length (takeWhile httpd_tchar line) \<noteq> ch CHR '':'' \<longleftrightarrow> \<not> field_line line"
proof -
  let ?a = "takeWhile httpd_tchar line" and ?b = "dropWhile httpd_tchar line"
  have n: "(a @ c) ! length a = c ! 0" for a c :: bytes by (simp add: nth_append)
  have "line @ [13] = ?a @ (?b @ [13])" by simp
  then have "(line @ [13]) ! length ?a = (?b @ [13]) ! 0" by (simp only: n)
  moreover have "field_line line \<longleftrightarrow> ?a \<noteq> [] \<and> (?b @ [13]) ! 0 = ch CHR '':''"
  proof (cases ?b)
    case Nil
    show ?thesis unfolding field_line_def Nil by simp
  next
    case (Cons c cs)
    show ?thesis unfolding field_line_def Cons by auto
  qed
  ultimately show ?thesis by (simp only: length_0_conv de_Morgan_conj simp_thms)
qed

lemma line_in_head: "dec_line m t inp = (s, Some line, n) \<Longrightarrow> length line + 2 = n \<and> n \<le> m"
  by (auto simp: dec_line_def dest!: memchr_SomeD split: option.splits if_splits)

lemma trailer_spec:
  assumes "dc_len d = length (dc_raw d)" "dec_ok lim req wr"
  shows "httpd_conn_trailer lim req d =
    (case dec_line (lm_head lim) 431 (drop (dc_rd d) (dc_raw d)) of
       (status, None, n) \<Rightarrow> (status, req, d\<lparr>dc_rd := dc_rd d + n\<rparr>)
     | (status, Some line, n) \<Rightarrow>
         if rq_trailer req + (length line + 2) > lm_head lim then (431, req, d\<lparr>dc_rd := dc_rd d + n\<rparr>)
         else
           let req = req\<lparr>rq_trailer := rq_trailer req + (length line + 2)\<rparr>
           in if line = [] then (if rq_trailers req > lm_fields lim then 431 else 0, set_flag REQ_BODY_IN req, d\<lparr>dc_rd := dc_rd d + n\<rparr>)
              else if \<not> field_line line then (400, req, d\<lparr>dc_rd := dc_rd d + n\<rparr>)
              else (if rq_trailers req + 1 > lm_fields lim then 431 else 0, req\<lparr>rq_trailers := rq_trailers req + 1\<rparr>, d\<lparr>dc_rd := dc_rd d + n\<rparr>))"
proof -
  have ok: "rq_trailer req \<le> lm_head lim" "lm_head lim < 2 ^ 16" "4 * rq_trailers req \<le> rq_trailer req"
    using assms(2) by (simp_all add: dec_ok_def)
  obtain s l n where dl: "dec_line (lm_head lim) 431 (drop (dc_rd d) (dc_raw d)) = (s, l, n)" by (metis surj_pair)
  show ?thesis
  proof (cases l)
    case None
    then show ?thesis unfolding httpd_conn_trailer_def dechunk_line_spec [OF assms(1)] dl by simp
  next
    case (Some line)
    have n: "length line + 2 = n" "n \<le> lm_head lim" using line_in_head [OF dl [unfolded Some]] by simp_all
    have big: "(of_nat (length line + 2) :: u64) > ucast (of_nat (lm_head lim) - of_nat (rq_trailer req) :: u32) \<longleftrightarrow>
        rq_trailer req + (length line + 2) > lm_head lim"
      by (rule trailer_room) (use n ok in simp_all)
    show ?thesis
    proof (cases "rq_trailer req + (length line + 2) > lm_head lim")
      case True
      then show ?thesis unfolding httpd_conn_trailer_def dechunk_line_spec [OF assms(1)] dl Some prod.case option.case big by simp
    next
      case False
      then have m: "(rq_trailer req + (length line + 2)) mod 2 ^ 16 = rq_trailer req + (length line + 2)"
          "(rq_trailers req + 1) mod 2 ^ 16 = rq_trailers req + 1" using ok by simp_all
      show ?thesis
      proof (cases "line = []")
        case True
        then show ?thesis using False m
          unfolding httpd_conn_trailer_def dechunk_line_spec [OF assms(1)] dl Some prod.case option.case big Let_def by simp
      next
        case ne: False
        then show ?thesis using False m
          unfolding httpd_conn_trailer_def dechunk_line_spec [OF assms(1)] dl Some prod.case option.case big Let_def colon_after_name
          by simp
      qed
    qed
  qed
qed

text \<open>A step of the loop is a step of the decoder of lists on what is left to read.\<close>

lemma dechunk_step_spec:
  assumes d: "dc_len d = length (dc_raw d)" "dc_wr d \<le> dc_rd d" "dc_rd d \<le> dc_len d"
    and ok: "dec_ok lim req (dc_wr d)" and st: "dec_step lim req (dc_wr d) (drop (dc_rd d) (dc_raw d)) = (s, req', n, k)"
  shows "dechunk_step lim req d =
    (s, req', d\<lparr>dc_raw := overwrite (dc_raw d) (dc_wr d) (take k (drop (dc_rd d) (dc_raw d))), dc_rd := dc_rd d + n, dc_wr := dc_wr d + k\<rparr>)"
proof -
  let ?inp = "drop (dc_rd d) (dc_raw d)"
  have body: "rq_got req + dc_wr d \<le> lm_body lim" "lm_body lim < 2 ^ 64" using ok by (auto simp: dec_ok_def split: if_splits)
  consider (a) "chunk_state req = CHUNK_SIZE" | (b) "chunk_state req = CHUNK_DATA" | (c) "chunk_state req = CHUNK_CRLF"
    | (e) "chunk_state req \<noteq> CHUNK_SIZE" "chunk_state req \<noteq> CHUNK_DATA" "chunk_state req \<noteq> CHUNK_CRLF" by blast
  then show ?thesis
  proof cases
    case a
    then show ?thesis using st unfolding dechunk_step_def chunk_size_spec [OF d(1) body] dec_step_def
      by (auto split: prod.splits option.splits sum.splits)
  next
    case b
    have m: "min (length ?inp) (rq_chunk req) = (if length (dc_raw d) - dc_rd d < rq_chunk req then length (dc_raw d) - dc_rd d else rq_chunk req)"
      by simp
    show ?thesis using st b d(1) unfolding dechunk_step_def dec_step_def httpd_req_chunk_data_def m
      by (auto simp: Let_def split: if_splits)
  next
    case c
    have "?inp ! 0 = 13 \<and> ?inp ! 1 = 10 \<longleftrightarrow> take 2 ?inp = [13, 10]" if "2 \<le> length ?inp"
      using that by (cases ?inp; cases "tl ?inp") (auto simp: numeral_2_eq_2)
    then show ?thesis using st c d(1) unfolding dechunk_step_def dec_step_def httpd_req_chunk_end_def
      by (auto simp: Let_def split: if_splits)
  next
    case e
    then show ?thesis using st unfolding dechunk_step_def trailer_spec [OF d(1) ok] dec_step_def
      by (auto simp: Let_def split: prod.splits option.splits if_splits)
  qed
qed

lemma dechunk_loop_spec:
  "dc_len d = length (dc_raw d) \<Longrightarrow> dc_wr d \<le> dc_rd d \<Longrightarrow> dc_rd d \<le> dc_len d \<Longrightarrow> dec_ok lim req (dc_wr d) \<Longrightarrow>
     dec_run lim req (dc_wr d) (drop (dc_rd d) (dc_raw d)) = (s, req', m, out) \<Longrightarrow>
     \<exists>d'. dechunk_loop lim req d = (s, req', d') \<and> dc_rd d' = dc_rd d + m \<and> dc_wr d' = dc_wr d + length out \<and>
       dc_wr d' \<le> dc_rd d' \<and> dc_rd d' \<le> dc_len d \<and> length (dc_raw d') = length (dc_raw d) \<and>
       take (dc_wr d') (dc_raw d') = take (dc_wr d) (dc_raw d) @ out \<and> drop (dc_rd d') (dc_raw d') = drop (dc_rd d') (dc_raw d) \<and>
       (s = 0 \<longrightarrow> dec_ok lim req' (dc_wr d'))"
proof (induction lim req d arbitrary: s req' m out rule: dechunk_loop.induct)
  case (1 lim req d)
  let ?inp = "drop (dc_rd d) (dc_raw d)"
  show ?case
  proof (cases "dc_rd d < dc_len d \<and> \<not> flag REQ_BODY_IN req")
    case False
    then have "?inp = [] \<or> flag REQ_BODY_IN req" using "1.prems"(1) by auto
    then have "s = 0" "req' = req" "m = 0" "out = []" using "1.prems"(5) by (auto simp: dec_run.simps)
    then show ?thesis using False "1.prems" by (subst dechunk_loop.simps) auto
  next
    case True
    then have ne: "\<not> (?inp = [] \<or> flag REQ_BODY_IN req)" using "1.prems"(1) by auto
    obtain s1 r1 n k where st: "dec_step lim req (dc_wr d) ?inp = (s1, r1, n, k)" by (metis surj_pair)
    have b: "n \<le> length ?inp" "k \<le> n" using dec_step_bounds [OF st] by simp_all
    define d1 where "d1 = d\<lparr>dc_raw := overwrite (dc_raw d) (dc_wr d) (take k ?inp), dc_rd := dc_rd d + n, dc_wr := dc_wr d + k\<rparr>"
    have step: "dechunk_step lim req d = (s1, r1, d1)" unfolding d1_def by (rule dechunk_step_spec [OF "1.prems"(1-4) st])
    have lk: "length (take k ?inp) = k" using b by simp
    have in_place: "dc_wr d + k \<le> length (dc_raw d)" using b "1.prems"(1-3) by simp
    have d1: "dc_len d1 = length (dc_raw d1)" "length (dc_raw d1) = length (dc_raw d)" "dc_wr d1 \<le> dc_rd d1" "dc_rd d1 \<le> dc_len d1"
      "dc_wr d1 = dc_wr d + k" "dc_rd d1 = dc_rd d + n" "dc_len d1 = dc_len d"
      using b "1.prems"(1-3) in_place lk by (simp_all add: d1_def)
    have t1: "take (dc_wr d1) (dc_raw d1) = take (dc_wr d) (dc_raw d) @ take k ?inp"
      using take_overwrite [of "dc_wr d" "dc_raw d" "take k ?inp"] in_place lk by (simp add: d1_def)
    have r1: "drop j (dc_raw d1) = drop j (dc_raw d)" if "dc_rd d1 \<le> j" for j
      using that in_place lk b "1.prems"(2) by (simp add: d1_def)
    show ?thesis
    proof (cases "s1 \<noteq> 0 \<or> n = 0")
      case stop: True
      then have run: "s = s1" "req' = r1" "m = n" "out = take k ?inp"
        using "1.prems"(5) ne st by (subst (asm) dec_run.simps, simp)+
      have "dechunk_loop lim req d = (s1, r1, d1)" using True stop step d1(6) by (subst dechunk_loop.simps) auto
      moreover have "s1 = 0 \<longrightarrow> dec_ok lim r1 (dc_wr d1)" using dec_step_ok [of lim req "dc_wr d" ?inp r1 n k] st "1.prems"(4) d1(5) by auto
      ultimately show ?thesis using run d1 t1 r1 lk by (intro exI [of _ d1]) simp
    next
      case go: False
      then have z: "s1 = 0" "n \<noteq> 0" by simp_all
      have loop: "dechunk_loop lim req d = dechunk_loop lim r1 d1" using True step z d1(6) by (subst dechunk_loop.simps) simp
      obtain s2 r2 m2 out2 where rest: "dec_run lim r1 (dc_wr d + k) (drop n ?inp) = (s2, r2, m2, out2)" by (metis surj_pair)
      then have run: "s = s2" "req' = r2" "m = n + m2" "out = take k ?inp @ out2"
        using "1.prems"(5) ne st z by (subst (asm) (2) dec_run.simps, simp)+
      have same: "drop n ?inp = drop (dc_rd d1) (dc_raw d1)" using r1 [of "dc_rd d1"] d1(6) by (simp add: add.commute)
      have ok1: "dec_ok lim r1 (dc_wr d1)" using dec_step_ok [of lim req "dc_wr d" ?inp r1 n k] st z "1.prems"(4) d1(5) by simp
      have "dec_run lim r1 (dc_wr d1) (drop (dc_rd d1) (dc_raw d1)) = (s2, r2, m2, out2)" using rest same d1(5) by simp
      from "1.IH" [OF True step [symmetric] refl _ _ d1(1,3,4) ok1 this] z d1(6)
      obtain d2 where d2: "dechunk_loop lim r1 d1 = (s2, r2, d2)" "dc_rd d2 = dc_rd d1 + m2" "dc_wr d2 = dc_wr d1 + length out2"
        "dc_wr d2 \<le> dc_rd d2" "dc_rd d2 \<le> dc_len d1" "length (dc_raw d2) = length (dc_raw d1)"
        "take (dc_wr d2) (dc_raw d2) = take (dc_wr d1) (dc_raw d1) @ out2" "drop (dc_rd d2) (dc_raw d2) = drop (dc_rd d2) (dc_raw d1)"
        "s2 = 0 \<longrightarrow> dec_ok lim r2 (dc_wr d2)" by auto
      have "drop (dc_rd d2) (dc_raw d1) = drop (dc_rd d2) (dc_raw d)" by (rule r1) (simp add: d2(2))
      then show ?thesis unfolding loop using d2 run d1 t1 lk by (intro exI [of _ d2]) simp
    qed
  qed
qed

section \<open>Facts: input in pieces\<close>

lemma dec_step_data:
  assumes "chunk_state req = CHUNK_DATA"
  shows "rq_chunk req \<le> length inp \<Longrightarrow>
      dec_step lim req wr inp = (0, httpd_req_chunking CHUNK_CRLF (req\<lparr>rq_chunk := 0\<rparr>), rq_chunk req, rq_chunk req)"
    "length inp < rq_chunk req \<Longrightarrow>
      dec_step lim req wr inp = (0, req\<lparr>rq_chunk := rq_chunk req - length inp\<rparr>, length inp, length inp)"
  using assms by (simp_all add: dec_step_def Let_def min_def)

lemma memchr_more: "memchr c xs = Some n \<Longrightarrow> memchr c (xs @ ys) = Some n"
  by (induction xs arbitrary: n) (auto split: if_splits)

lemma dec_line_append:
  assumes "dec_line m t a = (s, l, n)" "s \<noteq> 0 \<or> n \<noteq> 0"
  shows "dec_line m t (a @ b) = (s, l, n)"
proof (cases "memchr 10 (take m a)")
  case None
  then have "m \<le> length a" using assms by (auto simp: dec_line_def split: if_splits)
  then show ?thesis using assms None by (simp add: dec_line_def)
next
  case (Some nl)
  then have "memchr 10 (take m (a @ b)) = Some nl" "nl < length a" using memchr_more [OF Some] memchr_SomeD [OF Some] by simp_all
  then show ?thesis using assms(1) Some by (auto simp: dec_line_def nth_append split: if_splits)
qed

lemma dec_step_append:
  assumes "chunk_state req \<noteq> CHUNK_DATA \<or> rq_chunk req \<le> length a" "dec_step lim req wr a = (s, r, n, k)" "s \<noteq> 0 \<or> n \<noteq> 0"
  shows "dec_step lim req wr (a @ b) = (s, r, n, k)"
proof -
  have line: "dec_line m t (a @ b) = dec_line m t a" if "dec_line m t a = (s', l, n')" "s' \<noteq> 0 \<or> n' \<noteq> 0" for m t s' l n'
    using dec_line_append [OF that] that(1) by simp
  consider (a) "chunk_state req = CHUNK_SIZE" | (b) "chunk_state req = CHUNK_DATA" | (c) "chunk_state req = CHUNK_CRLF"
    | (e) "chunk_state req \<noteq> CHUNK_SIZE" "chunk_state req \<noteq> CHUNK_DATA" "chunk_state req \<noteq> CHUNK_CRLF" by blast
  then show ?thesis
  proof cases
    case a
    obtain s' l n' where dl: "dec_line CHUNK_LINE 400 a = (s', l, n')" by (metis surj_pair)
    have "s' \<noteq> 0 \<or> n' \<noteq> 0"
      using assms(2,3) a dl line_in_head [of CHUNK_LINE 400 a s' _ n'] by (cases l) (auto simp: dec_step_def Let_def)
    then show ?thesis using assms(2) a line [OF dl] by (simp add: dec_step_def Let_def)
  next
    case b
    then have "rq_chunk req \<le> length a" using assms(1) by simp
    then show ?thesis using assms(2) dec_step_data(1) [OF b] by simp
  next
    case c
    then have "2 \<le> length a" using assms(2,3) by (auto simp: dec_step_def Let_def split: if_splits)
    then show ?thesis using assms(2) c by (simp add: dec_step_def Let_def)
  next
    case e
    obtain s' l n' where dl: "dec_line (lm_head lim) 431 a = (s', l, n')" by (metis surj_pair)
    have "s' \<noteq> 0 \<or> n' \<noteq> 0"
      using assms(2,3) e dl line_in_head [of "lm_head lim" 431 a s' _ n'] by (cases l) (auto simp: dec_step_def Let_def)
    then show ?thesis using assms(2) e line [OF dl] by (simp add: dec_step_def Let_def)
  qed
qed

lemma dec_step_rest:
  assumes "dec_step lim req wr a = (s, r, n, k)" "s \<noteq> 0 \<or> n = 0" "a \<noteq> []" "dec_ok lim req wr"
  shows "k = 0 \<and> (s = 0 \<longrightarrow> r = req)"
proof -
  have "s = 0 \<and> n \<noteq> 0" if "chunk_state req = CHUNK_DATA"
    using assms that dec_step_data [OF that, of a lim wr] by (cases "rq_chunk req \<le> length a") (auto simp: dec_ok_def)
  then have "chunk_state req \<noteq> CHUNK_DATA" using assms(2) by auto
  then show ?thesis using assms(1,2)
    by (auto simp: dec_step_def Let_def dest!: line_in_head split: prod.splits option.splits sum.splits if_splits)
qed

lemma dec_run_step:
  assumes "inp \<noteq> []" "\<not> flag REQ_BODY_IN req" "dec_step lim req wr inp = (s, r, n, k)"
  shows "dec_run lim req wr inp =
    (if s \<noteq> 0 \<or> n = 0 then (s, r, n, take k inp)
     else case dec_run lim r (wr + k) (drop n inp) of (s, r, m, out) \<Rightarrow> (s, r, n + m, take k inp @ out))"
  using assms by (subst dec_run.simps) simp

lemma dec_run_end: "inp = [] \<or> flag REQ_BODY_IN req \<Longrightarrow> dec_run lim req wr inp = (0, req, 0, [])"
  by (subst dec_run.simps) simp

text \<open>Data that goes on in the next piece.\<close>

lemma dec_data_append:
  assumes "chunk_state req = CHUNK_DATA" "length a < rq_chunk req" "\<not> flag REQ_BODY_IN req" "a \<noteq> []" "b \<noteq> []"
  shows "dec_run lim req wr (a @ b) =
    (case dec_run lim (req\<lparr>rq_chunk := rq_chunk req - length a\<rparr>) (wr + length a) b of (s, r, m, out) \<Rightarrow> (s, r, length a + m, a @ out))"
proof -
  let ?r = "req\<lparr>rq_chunk := rq_chunk req - length a\<rparr>"
  define n where "n = min (length b) (rq_chunk req - length a)"
  define r2 where "r2 = (let r = req\<lparr>rq_chunk := rq_chunk req - length a - n\<rparr> in if rq_chunk r = 0 then httpd_req_chunking CHUNK_CRLF r else r)"
  have n: "min (length (a @ b)) (rq_chunk req) = length a + n" "n \<noteq> 0" using assms(2,5) by (auto simp: n_def)
  have s1: "dec_step lim req wr (a @ b) = (0, r2, length a + n, length a + n)"
    unfolding dec_step_def n(1) Let_def using assms(1) by (simp add: r2_def)
  have s2: "dec_step lim ?r (wr + length a) b = (0, r2, n, n)"
    using assms(1) by (simp add: dec_step_def r2_def n_def Let_def)
  have "dec_run lim req wr (a @ b) =
      (case dec_run lim r2 (wr + (length a + n)) (drop (length a + n) (a @ b)) of (s, r, m, out) \<Rightarrow> (s, r, length a + n + m, a @ take n b @ out))"
    using dec_run_step [OF _ assms(3) s1] assms(4) by simp
  moreover have "dec_run lim ?r (wr + length a) b =
      (case dec_run lim r2 (wr + length a + n) (drop n b) of (s, r, m, out) \<Rightarrow> (s, r, n + m, take n b @ out))"
    using dec_run_step [OF assms(5) _ s2] assms(3) n(2) by simp
  ultimately show ?thesis by (simp add: add.assoc split: prod.splits)
qed

lemma dec_run_append:
  "dec_ok lim req wr \<Longrightarrow> dec_run lim req wr (a @ b) =
     (case dec_run lim req wr a of (s, r, m, out) \<Rightarrow>
        if s \<noteq> 0 then (s, r, m, out)
        else case dec_run lim r (wr + length out) (drop m a @ b) of (s, r, m', out') \<Rightarrow> (s, r, m + m', out @ out'))"
proof (induction lim req wr a rule: dec_run.induct)
  case (1 lim req wr a)
  show ?case
  proof (cases "a = [] \<or> flag REQ_BODY_IN req")
    case True
    then show ?thesis by (auto simp: dec_run_end split: prod.splits)
  next
    case False
    obtain s r n k where st: "dec_step lim req wr a = (s, r, n, k)" by (metis surj_pair)
    have a: "a \<noteq> []" "\<not> flag REQ_BODY_IN req" "a @ b \<noteq> []" using False by simp_all
    note run = dec_run_step [OF a(1,2) st]
    show ?thesis
    proof (cases "s \<noteq> 0 \<or> n = 0")
      case True
      note rest = dec_step_rest [OF st True a(1) "1.prems"]
      show ?thesis
      proof (cases "s = 0")
        case True
        then show ?thesis unfolding run using rest \<open>s \<noteq> 0 \<or> n = 0\<close> by (simp split: prod.splits)
      next
        case e: False
        have "chunk_state req \<noteq> CHUNK_DATA" using st e by (auto simp: dec_step_def Let_def)
        then have "dec_step lim req wr (a @ b) = (s, r, n, k)" using dec_step_append [of req a lim wr s r n k b] st e by simp
        from dec_run_step [OF a(3,2) this] show ?thesis unfolding run using e rest by simp
      qed
    next
      case go: False
      have ok: "dec_ok lim r (wr + k)" using dec_step_ok [of lim req wr a r n k] st go "1.prems" by simp
      show ?thesis
      proof (cases "chunk_state req \<noteq> CHUNK_DATA \<or> rq_chunk req \<le> length a")
        case True
        have st2: "dec_step lim req wr (a @ b) = (s, r, n, k)" using dec_step_append [OF True st] go by simp
        have nk: "n \<le> length a" "k \<le> length a" using dec_step_bounds [OF st] by simp_all
        from "1.IH" [OF False st [symmetric] refl refl go ok]
        show ?thesis unfolding run dec_run_step [OF a(3,2) st2] using go nk
          by (simp add: add.assoc add.commute [of _ n] split: prod.splits)
      next
        case more: False
        then have r: "s = 0" "n = length a" "k = length a" "r = req\<lparr>rq_chunk := rq_chunk req - length a\<rparr>"
          using st by (auto simp: dec_step_def Let_def)
        have one: "dec_run lim req wr a = (0, r, length a, a)" unfolding run using r a(1) by (simp add: dec_run_end)
        show ?thesis
        proof (cases "b = []")
          case True
          then show ?thesis using one by (simp add: dec_run_end)
        next
          case bne: False
          have "chunk_state req = CHUNK_DATA" "length a < rq_chunk req" using more by simp_all
          from dec_data_append [OF this a(2,1) bne] show ?thesis unfolding one using r(4) by simp
        qed
      qed
    qed
  qed
qed

lemma got_moves:
  fixes req :: httpd_req
  shows "req\<lparr>rq_got := g, rq_chunk := k\<rparr> = req\<lparr>rq_chunk := k, rq_got := g\<rparr>"
    "req\<lparr>rq_got := g, rq_trailer := k\<rparr> = req\<lparr>rq_trailer := k, rq_got := g\<rparr>"
    "req\<lparr>rq_got := g, rq_trailers := k\<rparr> = req\<lparr>rq_trailers := k, rq_got := g\<rparr>"
  by simp_all

lemma dec_step_got:
  "dec_step lim (req\<lparr>rq_got := rq_got req + x\<rparr>) wr inp =
     (case dec_step lim req (wr + x) inp of (s, r, n, k) \<Rightarrow> (s, r\<lparr>rq_got := rq_got r + x\<rparr>, n, k))"
proof -
  have room: "lm_body lim - (rq_got req + x) - wr = lm_body lim - rq_got req - (wr + x)" by simp
  consider (a) "chunk_state req = CHUNK_SIZE" | (b) "chunk_state req = CHUNK_DATA" | (c) "chunk_state req = CHUNK_CRLF"
    | (e) "chunk_state req \<noteq> CHUNK_SIZE" "chunk_state req \<noteq> CHUNK_DATA" "chunk_state req \<noteq> CHUNK_CRLF" by blast
  then show ?thesis
  proof cases
    case a
    obtain s l n where dl: "dec_line CHUNK_LINE 400 inp = (s, l, n)" by (metis surj_pair)
    show ?thesis using a unfolding dec_step_def httpd_req.simps room dl
      by (cases l; cases "size_line (lm_body lim - rq_got req - (wr + x)) (the l)") (simp_all add: got_moves ac_simps)
  next
    case b
    then show ?thesis by (simp add: dec_step_def Let_def got_moves)
  next
    case c
    then show ?thesis by (simp add: dec_step_def)
  next
    case e
    obtain s l n where dl: "dec_line (lm_head lim) 431 inp = (s, l, n)" by (metis surj_pair)
    show ?thesis using e unfolding dec_step_def dl
      by (cases l; cases "the l = []"; cases "field_line (the l)") (simp_all add: got_moves Let_def)
  qed
qed

lemma dec_run_got:
  "dec_run lim (req\<lparr>rq_got := rq_got req + x\<rparr>) wr inp =
     (case dec_run lim req (wr + x) inp of (s, r, m, out) \<Rightarrow> (s, r\<lparr>rq_got := rq_got r + x\<rparr>, m, out))"
proof (induction lim "req\<lparr>rq_got := rq_got req + x\<rparr>" wr inp arbitrary: req rule: dec_run.induct)
  case (1 lim wr inp)
  show ?case
  proof (cases "inp = [] \<or> flag REQ_BODY_IN req")
    case True
    then show ?thesis by (auto simp: dec_run_end)
  next
    case False
    obtain s r n k where st: "dec_step lim req (wr + x) inp = (s, r, n, k)" by (metis surj_pair)
    have st2: "dec_step lim (req\<lparr>rq_got := rq_got req + x\<rparr>) wr inp = (s, r\<lparr>rq_got := rq_got r + x\<rparr>, n, k)"
      unfolding dec_step_got st by simp
    have ne: "\<not> (inp = [] \<or> flag REQ_BODY_IN (req\<lparr>rq_got := rq_got req + x\<rparr>))" using False by simp
    show ?thesis
    proof (cases "s \<noteq> 0 \<or> n = 0")
      case True
      then show ?thesis using False dec_run_step [OF _ _ st] dec_run_step [OF _ _ st2] by auto
    next
      case go: False
      from "1.hyps" [OF ne st2 [symmetric] refl refl go] go False
      show ?thesis using dec_run_step [OF _ _ st] dec_run_step [OF _ _ st2]
        by (simp add: add.commute add.left_commute split: prod.splits)
    qed
  qed
qed

section \<open>The chunked form of a body\<close>

text \<open>A chunk is its size in hexadecimal digits, the extensions that follow it on the line, and its data.\<close>

definition CRLF :: bytes where
  "CRLF = [13, 10]"

definition ext_ok :: "bytes \<Rightarrow> bool" where
  "ext_ok ext \<longleftrightarrow> (ext = [] \<or> hd ext \<in> {32, 9, ch CHR '';''}) \<and>
     (let e = dropWhile (\<lambda>c. c \<in> {32, 9}) ext in (e = [] \<or> hd e = ch CHR '';'') \<and> \<not> list_ex httpd_ctl e)"

definition chunk_ok :: "bytes \<times> bytes \<times> bytes \<Rightarrow> bool" where
  "chunk_ok c = (case c of (ds, ext, data) \<Rightarrow>
     ds \<noteq> [] \<and> list_all is_hex_digit ds \<and> hex_val ds = length data \<and> ext_ok ext \<and>
     length ds + length ext + 2 \<le> CHUNK_LINE)"

definition size_text :: "bytes \<times> bytes \<times> bytes \<Rightarrow> bytes" where
  "size_text c = (case c of (ds, ext, data) \<Rightarrow> ds @ ext)"

definition chunk_text :: "bytes \<times> bytes \<times> bytes \<Rightarrow> bytes" where
  "chunk_text c = size_text c @ CRLF @ snd (snd c) @ CRLF"

definition trailer_text :: "bytes list \<Rightarrow> bytes" where
  "trailer_text ts = concat (map (\<lambda>t. t @ CRLF) ts) @ CRLF"

text \<open>A body: its chunks, the last chunk, which is empty, and the trailer fields.\<close>

definition chunked :: "(bytes \<times> bytes \<times> bytes) list \<Rightarrow> bytes \<times> bytes \<times> bytes \<Rightarrow> bytes list \<Rightarrow> bytes" where
  "chunked cs z ts = concat (map chunk_text cs) @ size_text z @ CRLF @ trailer_text ts"

definition chunked_data :: "(bytes \<times> bytes \<times> bytes) list \<Rightarrow> bytes" where
  "chunked_data cs = concat (map (\<lambda>c. snd (snd c)) cs)"

definition chunked_ok :: "httpd_limits \<Rightarrow> nat \<Rightarrow> (bytes \<times> bytes \<times> bytes) list \<Rightarrow> bytes \<times> bytes \<times> bytes \<Rightarrow> bytes list \<Rightarrow> bool" where
  "chunked_ok lim room cs z ts \<longleftrightarrow>
     list_all (\<lambda>c. chunk_ok c \<and> snd (snd c) \<noteq> []) cs \<and> chunk_ok z \<and> snd (snd z) = [] \<and>
     list_all (\<lambda>t. field_line t \<and> 10 \<notin> set t) ts \<and>
     length (chunked_data cs) \<le> room \<and> length (trailer_text ts) \<le> lm_head lim \<and> length ts \<le> lm_fields lim"

lemma dec_line_text: "10 \<notin> set line \<Longrightarrow> length line + 2 \<le> m \<Longrightarrow> dec_line m t (line @ 13 # 10 # rest) = (0, Some line, length line + 2)"
proof -
  assume a: "10 \<notin> set line" "length line + 2 \<le> m"
  then obtain j where m: "m = length line + 2 + j" by (metis le_Suc_ex)
  have "10 \<notin> set (line @ [13])" using a(1) by simp
  then have "memchr 10 ((line @ [13]) @ 10 # take j rest) = Some (length (line @ [13]))" by (rule memchr_append)
  moreover have "take m (line @ 13 # 10 # rest) = (line @ [13]) @ 10 # take j rest" by (simp add: m)
  ultimately show ?thesis by (simp add: dec_line_def nth_append)
qed

lemma hex_digit_not: "c \<in> {32, 9, 59, 13, 10} \<Longrightarrow> \<not> is_hex_digit c"
  by (auto simp: is_hex_digit_def util_hex_digit_def Let_def word_less_nat_alt word_le_nat_alt)

lemma size_line_text:
  assumes "chunk_ok c" "length (snd (snd c)) \<le> room" "room < 2 ^ 64"
  shows "size_line room (size_text c) = Inr (length (snd (snd c)))" "10 \<notin> set (size_text c)" "length (size_text c) + 2 \<le> CHUNK_LINE"
proof -
  obtain ds ext data where c: "c = (ds, ext, data)" by (metis surj_pair)
  have d: "ds \<noteq> []" "\<forall>x \<in> set ds. is_hex_digit x" "hex_val ds = length data" "ext_ok ext"
      "length ds + length ext + 2 \<le> CHUNK_LINE" using assms(1) by (simp_all add: c chunk_ok_def list_all_iff)
  have e: "ext = [] \<or> \<not> is_hex_digit (hd ext)" using d(4) hex_digit_not [of "hd ext"] by (auto simp: ext_ok_def)
  have t: "takeWhile is_hex_digit (ds @ ext) = ds" "dropWhile is_hex_digit (ds @ ext) = ext"
    using d(2) e by (auto simp: takeWhile_append2 dropWhile_append2 takeWhile_eq_Nil_iff dropWhile_eq_self_iff)
  show "size_line room (size_text c) = Inr (length (snd (snd c)))"
    using d assms(2,3) unfolding size_line_def Let_def c size_text_def prod.case t by (auto simp: ext_ok_def Let_def)
  show "length (size_text c) + 2 \<le> CHUNK_LINE" using d(5) by (simp add: c size_text_def)
  have "10 \<notin> set ds" using d(2) hex_digit_not [of 10] by auto
  moreover have "10 \<notin> set ext"
  proof
    assume "10 \<in> set ext"
    then have "10 \<in> set (takeWhile (\<lambda>c. c \<in> {32, 9}) ext) \<or> 10 \<in> set (dropWhile (\<lambda>c. c \<in> {32, 9}) ext)"
      by (metis Un_iff set_append takeWhile_dropWhile_id)
    then have "10 \<in> set (dropWhile (\<lambda>c. c \<in> {32, 9}) ext)" by (auto dest: set_takeWhileD)
    moreover have "httpd_ctl 10" by (simp add: httpd_ctl_def)
    ultimately have "list_ex httpd_ctl (dropWhile (\<lambda>c. c \<in> {32, 9}) ext)" unfolding list_ex_iff by (rule bexI [rotated])
    then show False using d(4) unfolding ext_ok_def Let_def by (elim conjE) (rule notE)
  qed
  ultimately show "10 \<notin> set (size_text c)" by (simp add: c size_text_def)
qed

definition alike :: "httpd_req \<Rightarrow> httpd_req \<Rightarrow> bool" where
  "alike r r' \<longleftrightarrow> rq_got r' = rq_got r \<and> rq_trailer r' = rq_trailer r \<and> rq_trailers r' = rq_trailers r \<and>
     (flag REQ_BODY_IN r' \<longleftrightarrow> flag REQ_BODY_IN r)"

lemma run_size:
  assumes "chunk_state req = CHUNK_SIZE" "\<not> flag REQ_BODY_IN req" "chunk_ok c" "rq_got req + wr + length (snd (snd c)) \<le> lm_body lim"
    "lm_body lim < 2 ^ 64"
  obtains r where "alike req r" "rq_chunk r = length (snd (snd c))"
    "chunk_state r = (if snd (snd c) = [] then CHUNK_TRAILER else CHUNK_DATA)"
    "dec_run lim req wr (size_text c @ CRLF @ rest) =
      (case dec_run lim r wr rest of (s, r, m, out) \<Rightarrow> (s, r, length (size_text c @ CRLF) + m, out))"
proof -
  define k where "k = length (snd (snd c))"
  define r where "r = httpd_req_chunking (if k \<noteq> 0 then CHUNK_DATA else CHUNK_TRAILER) (req\<lparr>rq_chunk := k\<rparr>)"
  have "k \<le> lm_body lim - rq_got req - wr" "lm_body lim - rq_got req - wr < 2 ^ 64" using assms(4,5) by (simp_all add: k_def)
  note st = size_line_text [OF assms(3) this [unfolded k_def]]
  have dl: "dec_line CHUNK_LINE 400 (size_text c @ CRLF @ rest) = (0, Some (size_text c), length (size_text c @ CRLF))"
    using dec_line_text [OF st(2,3), of 400 rest] by (simp add: CRLF_def)
  have step: "dec_step lim req wr (size_text c @ CRLF @ rest) = (0, r, length (size_text c @ CRLF), 0)"
    unfolding dec_step_def dl using assms(1) st(1) by (simp add: r_def k_def)
  show ?thesis
  proof (rule that [of r])
    show "dec_run lim req wr (size_text c @ CRLF @ rest) =
      (case dec_run lim r wr rest of (s, r, m, out) \<Rightarrow> (s, r, length (size_text c @ CRLF) + m, out))"
      using dec_run_step [OF _ assms(2) step] by (simp add: CRLF_def)
  qed (simp_all add: r_def alike_def k_def)
qed

lemma run_chunk:
  assumes "chunk_state req = CHUNK_SIZE" "\<not> flag REQ_BODY_IN req" "chunk_ok c" "snd (snd c) \<noteq> []"
    "rq_got req + wr + length (snd (snd c)) \<le> lm_body lim" "lm_body lim < 2 ^ 64"
  obtains r where "alike req r" "chunk_state r = CHUNK_SIZE"
    "dec_run lim req wr (chunk_text c @ rest) =
      (case dec_run lim r (wr + length (snd (snd c))) rest of (s, r, m, out) \<Rightarrow> (s, r, length (chunk_text c) + m, snd (snd c) @ out))"
proof -
  let ?data = "snd (snd c)"
  obtain r1 where r1: "alike req r1" "rq_chunk r1 = length ?data" "chunk_state r1 = CHUNK_DATA"
    "dec_run lim req wr (size_text c @ CRLF @ ?data @ CRLF @ rest) =
      (case dec_run lim r1 wr (?data @ CRLF @ rest) of (s, r, m, out) \<Rightarrow> (s, r, length (size_text c @ CRLF) + m, out))"
    by (rule run_size [OF assms(1-3,5,6), of "?data @ CRLF @ rest"]) (simp add: assms(4))
  define r2 where "r2 = httpd_req_chunking CHUNK_CRLF (r1\<lparr>rq_chunk := 0\<rparr>)"
  define r3 where "r3 = httpd_req_chunking CHUNK_SIZE r2"
  have n1: "\<not> flag REQ_BODY_IN r1" "\<not> flag REQ_BODY_IN r2" using r1(1) assms(2) by (simp_all add: alike_def r2_def)
  have s2: "dec_step lim r1 wr (?data @ CRLF @ rest) = (0, r2, length ?data, length ?data)"
    using dec_step_data(1) [OF r1(3)] r1(2) by (simp add: r2_def)
  have s3: "dec_step lim r2 (wr + length ?data) (CRLF @ rest) = (0, r3, 2, 0)"
    by (simp add: dec_step_def r2_def r3_def CRLF_def)
  have "dec_run lim r1 wr (?data @ CRLF @ rest) =
      (case dec_run lim r2 (wr + length ?data) (CRLF @ rest) of (s, r, m, out) \<Rightarrow> (s, r, length ?data + m, ?data @ out))"
    using dec_run_step [OF _ n1(1) s2] assms(4) by simp
  also have "dec_run lim r2 (wr + length ?data) (CRLF @ rest) =
      (case dec_run lim r3 (wr + length ?data) rest of (s, r, m, out) \<Rightarrow> (s, r, 2 + m, out))"
    using dec_run_step [OF _ n1(2) s3] by (simp add: CRLF_def)
  finally have run: "dec_run lim r1 wr (?data @ CRLF @ rest) =
      (case dec_run lim r3 (wr + length ?data) rest of (s, r, m, out) \<Rightarrow> (s, r, length ?data + (2 + m), ?data @ out))"
    by (simp split: prod.splits)
  show ?thesis
  proof (rule that [of r3])
    have t: "chunk_text c @ rest = size_text c @ CRLF @ ?data @ CRLF @ rest" by (simp add: chunk_text_def)
    show "dec_run lim req wr (chunk_text c @ rest) =
      (case dec_run lim r3 (wr + length ?data) rest of (s, r, m, out) \<Rightarrow> (s, r, length (chunk_text c) + m, ?data @ out))"
      unfolding t r1(4) run by (simp add: chunk_text_def CRLF_def split: prod.splits)
  qed (use r1(1) in \<open>simp_all add: alike_def r3_def r2_def\<close>)
qed

lemma run_trailers:
  assumes "list_all (\<lambda>t. field_line t \<and> 10 \<notin> set t) ts" "chunk_state req = CHUNK_TRAILER" "\<not> flag REQ_BODY_IN req"
    "rq_trailer req + length (trailer_text ts) \<le> lm_head lim" "rq_trailers req + length ts \<le> lm_fields lim"
  shows "\<exists>r. dec_run lim req wr (trailer_text ts @ rest) = (0, r, length (trailer_text ts), []) \<and> flag REQ_BODY_IN r \<and>
    rq_got r = rq_got req"
  using assms
proof (induction ts arbitrary: req)
  case Nil
  have "dec_line (lm_head lim) 431 (trailer_text [] @ rest) = (0, Some [], 2)"
    using dec_line_text [of "[]" "lm_head lim" 431 rest] Nil by (simp add: trailer_text_def CRLF_def)
  then have "dec_step lim req wr (trailer_text [] @ rest) = (0, set_flag REQ_BODY_IN (req\<lparr>rq_trailer := rq_trailer req + 2\<rparr>), 2, 0)"
    using Nil by (simp add: dec_step_def trailer_text_def CRLF_def)
  from dec_run_step [OF _ Nil(3) this] show ?case by (simp add: trailer_text_def CRLF_def dec_run_end)
next
  case (Cons t ts)
  have tt: "trailer_text (t # ts) = t @ 13 # 10 # trailer_text ts" by (simp add: trailer_text_def CRLF_def)
  let ?r = "req\<lparr>rq_trailer := rq_trailer req + (length t + 2), rq_trailers := rq_trailers req + 1\<rparr>"
  have dl: "dec_line (lm_head lim) 431 (t @ 13 # 10 # trailer_text ts @ rest) = (0, Some t, length t + 2)"
    using Cons.prems by (intro dec_line_text) (simp_all add: tt)
  have "t \<noteq> []" using Cons.prems field_line_length [of t] by auto
  then have step: "dec_step lim req wr (t @ 13 # 10 # trailer_text ts @ rest) = (0, ?r, length t + 2, 0)"
    unfolding dec_step_def dl using Cons.prems by (simp add: tt)
  have "\<exists>r. dec_run lim ?r wr (trailer_text ts @ rest) = (0, r, length (trailer_text ts), []) \<and> flag REQ_BODY_IN r \<and> rq_got r = rq_got ?r"
    by (rule Cons.IH) (use Cons.prems in \<open>simp_all add: tt\<close>)
  then show ?case using dec_run_step [OF _ Cons.prems(3) step] by (auto simp: tt)
qed

lemma run_chunked:
  assumes "chunked_ok lim (lm_body lim - (rq_got req + wr)) cs z ts" "chunk_state req = CHUNK_SIZE" "\<not> flag REQ_BODY_IN req"
    "rq_got req + wr \<le> lm_body lim" "lm_body lim < 2 ^ 64" "rq_trailer req = 0" "rq_trailers req = 0"
  shows "\<exists>r. dec_run lim req wr (chunked cs z ts @ rest) = (0, r, length (chunked cs z ts), chunked_data cs) \<and> flag REQ_BODY_IN r \<and>
    rq_got r = rq_got req"
  using assms
proof (induction cs arbitrary: req wr)
  case Nil
  have z: "chunk_ok z" "snd (snd z) = []" "list_all (\<lambda>t. field_line t \<and> 10 \<notin> set t) ts" "length (trailer_text ts) \<le> lm_head lim"
      "length ts \<le> lm_fields lim" using Nil.prems(1) by (simp_all add: chunked_ok_def)
  have n: "rq_got req + wr + length (snd (snd z)) \<le> lm_body lim" using Nil.prems(4) z(2) by simp
  obtain r1 where r1: "alike req r1" "chunk_state r1 = CHUNK_TRAILER"
    "dec_run lim req wr (size_text z @ CRLF @ trailer_text ts @ rest) =
      (case dec_run lim r1 wr (trailer_text ts @ rest) of (s, r, m, out) \<Rightarrow> (s, r, length (size_text z @ CRLF) + m, out))"
    by (rule run_size [OF Nil.prems(2,3) z(1) n Nil.prems(5), of "trailer_text ts @ rest"]) (simp add: z(2))
  have "\<exists>r. dec_run lim r1 wr (trailer_text ts @ rest) = (0, r, length (trailer_text ts), []) \<and> flag REQ_BODY_IN r \<and> rq_got r = rq_got r1"
    by (rule run_trailers [OF z(3) r1(2)]) (use r1(1) Nil.prems z in \<open>simp_all add: alike_def\<close>)
  then show ?case using r1(1,3) by (auto simp: chunked_def chunked_data_def alike_def)
next
  case (Cons c cs)
  let ?data = "snd (snd c)"
  have c: "chunk_ok c" "?data \<noteq> []" "length ?data + length (chunked_data cs) \<le> lm_body lim - (rq_got req + wr)"
    using Cons.prems(1) by (simp_all add: chunked_ok_def chunked_data_def)
  have n: "rq_got req + wr + length ?data \<le> lm_body lim" using c(3) Cons.prems(4) by simp
  obtain r1 where r1: "alike req r1" "chunk_state r1 = CHUNK_SIZE"
    "dec_run lim req wr (chunk_text c @ chunked cs z ts @ rest) =
      (case dec_run lim r1 (wr + length ?data) (chunked cs z ts @ rest) of
        (s, r, m, out) \<Rightarrow> (s, r, length (chunk_text c) + m, ?data @ out))"
    by (rule run_chunk [OF Cons.prems(2,3) c(1,2) n Cons.prems(5)])
  have ok: "chunked_ok lim (lm_body lim - (rq_got r1 + (wr + length ?data))) cs z ts"
    using Cons.prems(1) c(3) r1(1) by (auto simp: chunked_ok_def alike_def)
  have "\<exists>r. dec_run lim r1 (wr + length ?data) (chunked cs z ts @ rest) = (0, r, length (chunked cs z ts), chunked_data cs) \<and>
      flag REQ_BODY_IN r \<and> rq_got r = rq_got r1"
    by (rule Cons.IH [OF ok r1(2)]) (use r1(1) Cons.prems n in \<open>simp_all add: alike_def\<close>)
  moreover have "chunked (c # cs) z ts @ rest = chunk_text c @ chunked cs z ts @ rest"
      "length (chunked (c # cs) z ts) = length (chunk_text c) + length (chunked cs z ts)"
      "chunked_data (c # cs) = ?data @ chunked_data cs" by (simp_all add: chunked_def chunked_data_def)
  ultimately show ?case using r1(1,3) by (auto simp: alike_def)
qed

section \<open>Facts: the budgets\<close>

lemma budget_take_spec:
  "httpd_budget_take races used n mx = (e, used') \<Longrightarrow>
     (let now = last (used # races) in
       if e = None then n \<le> mx - now \<and> used' = now + n else e = Some ENOBUFS \<and> used' \<in> set (used # races) \<and> n > mx - used')"
proof (induction races arbitrary: used)
  case (Cons now races)
  then show ?case by (fastforce simp: Let_def split: if_splits)
qed (auto simp: Let_def split: if_splits)

lemma hold_spec:
  assumes "httpd_conn_hold mb mc ([], [], 0) n b = (e, b')"
  shows "if e = None then n = 0 \<and> b' = b \<or> n \<noteq> 0 \<and> n \<le> mb - bd_bodies b \<and> n \<le> mc - bd_client b \<and>
      b' = b\<lparr>bd_bodies := bd_bodies b + n, bd_client := bd_client b + n, bd_held := bd_held b + n\<rparr>
    else e = Some ENOBUFS \<and> b' = b"
  using assms by (auto simp: httpd_conn_hold_def Let_def split: if_splits)

lemma hold_zero [simp]: "httpd_conn_hold mb mc r 0 b = (None, b)"
  by (cases r) (simp add: httpd_conn_hold_def)

section \<open>Facts: one step of a body\<close>

definition keeps :: "httpd_req \<Rightarrow> httpd_req \<Rightarrow> bool" where
  "keeps r r' \<longleftrightarrow> rq_head r' = rq_head r \<and> rq_got r' = rq_got r \<and> (\<forall>b < 16. b \<noteq> REQ_BODY_IN \<longrightarrow> flag b r' = flag b r)"

lemma keeps_trans: "keeps r r' \<Longrightarrow> keeps r' r'' \<Longrightarrow> keeps r r''"
  by (simp add: keeps_def)

lemma keeps_basic:
  "keeps r r" "keeps r (r\<lparr>rq_chunk := k\<rparr>)" "keeps r (r\<lparr>rq_trailer := k\<rparr>)" "keeps r (r\<lparr>rq_trailers := k\<rparr>)" "keeps r (set_flag REQ_BODY_IN r)"
  "s AND CHUNK_STATE = s \<Longrightarrow> keeps r (httpd_req_chunking s r)"
proof -
  show "keeps r (set_flag REQ_BODY_IN r)" by (auto simp: keeps_def)
  show "keeps r (httpd_req_chunking s r)" if "s AND CHUNK_STATE = s"
    using flag_chunking [OF _ that] by (simp add: keeps_def)
qed (simp_all add: keeps_def)

lemma dec_step_keeps:
  assumes "dec_step lim req wr inp = (s, r, n, k)"
  shows "keeps req r"
proof -
  have t: "keeps req (httpd_req_chunking c (req\<lparr>rq_chunk := m\<rparr>))" if "c AND CHUNK_STATE = c" for c m
    by (rule keeps_trans [OF keeps_basic(2) keeps_basic(6) [OF that]])
  have u: "keeps req (set_flag REQ_BODY_IN (req\<lparr>rq_trailer := m\<rparr>))" "keeps req (req\<lparr>rq_trailer := m, rq_trailers := m'\<rparr>)" for m m'
    by (rule keeps_trans [OF keeps_basic(3) keeps_basic(5)], rule keeps_trans [OF keeps_basic(3) keeps_basic(4)])
  show ?thesis using assms t u keeps_basic
    by (auto simp: dec_step_def Let_def split: prod.splits option.splits sum.splits if_splits)
qed

lemma dec_run_keeps: "dec_run lim req wr inp = (s, r, m, out) \<Longrightarrow> keeps req r"
proof (induction lim req wr inp arbitrary: s r m out rule: dec_run.induct)
  case (1 lim req wr inp)
  show ?case
  proof (cases "inp = [] \<or> flag REQ_BODY_IN req")
    case True
    then show ?thesis using "1.prems" keeps_basic(1) by (simp add: dec_run_end)
  next
    case False
    obtain s1 r1 n k where st: "dec_step lim req wr inp = (s1, r1, n, k)" by (metis surj_pair)
    note k1 = dec_step_keeps [OF st]
    show ?thesis
    proof (cases "s1 \<noteq> 0 \<or> n = 0")
      case True
      then show ?thesis using "1.prems" dec_run_step [OF _ _ st] False k1 by simp
    next
      case go: False
      obtain s2 r2 m2 out2 where run: "dec_run lim r1 (wr + k) (drop n inp) = (s2, r2, m2, out2)" by (metis surj_pair)
      from "1.IH" [OF False st [symmetric] refl refl go run] have "keeps r1 r2" .
      moreover have "r = r2" using "1.prems" dec_run_step [OF _ _ st] False go run by simp
      ultimately show ?thesis using keeps_trans [OF k1] by simp
    qed
  qed
qed

lemma dec_run_bounds:
  "dec_run lim req wr inp = (s, r, m, out) \<Longrightarrow> m \<le> length inp \<and> length out \<le> m"
proof (induction lim req wr inp arbitrary: s r m out rule: dec_run.induct)
  case (1 lim req wr inp)
  show ?case
  proof (cases "inp = [] \<or> flag REQ_BODY_IN req")
    case True
    then show ?thesis using "1.prems" by (simp add: dec_run_end)
  next
    case False
    obtain s1 r1 n k where st: "dec_step lim req wr inp = (s1, r1, n, k)" by (metis surj_pair)
    note b = dec_step_bounds [OF st]
    show ?thesis
    proof (cases "s1 \<noteq> 0 \<or> n = 0")
      case True
      then show ?thesis using "1.prems" dec_run_step [OF _ _ st] False b by auto
    next
      case go: False
      obtain s2 r2 m2 out2 where run: "dec_run lim r1 (wr + k) (drop n inp) = (s2, r2, m2, out2)" by (metis surj_pair)
      from "1.IH" [OF False st [symmetric] refl refl go run] show ?thesis
        using "1.prems" dec_run_step [OF _ _ st] False go run b by auto
    qed
  qed
qed

lemma dechunk_spec:
  assumes "dec_ok (httpd_limits.truncate lim) req 0" "httpd_conn_dechunk lim races req b raw = (0, req', b', raw', used, out)"
  shows "dec_run (httpd_limits.truncate lim) req 0 raw = (0, req', used, take out raw') \<and> out \<le> used \<and> used \<le> length raw \<and>
    length raw' = length raw \<and> drop used raw' = drop used raw \<and> dec_ok (httpd_limits.truncate lim) req' out \<and>
    httpd_conn_hold (lm_bodies lim) (lm_client_bodies lim) races (of_nat out) b = (None, b')"
proof -
  let ?lim = "httpd_limits.truncate lim" and ?d = "\<lparr>dc_raw = raw, dc_len = length raw, dc_rd = 0, dc_wr = 0\<rparr>"
  obtain s r m o' where run: "dec_run ?lim req 0 raw = (s, r, m, o')" by (metis surj_pair)
  have "\<exists>d'. dechunk_loop ?lim req ?d = (s, r, d') \<and> dc_rd d' = dc_rd ?d + m \<and> dc_wr d' = dc_wr ?d + length o' \<and>
       dc_wr d' \<le> dc_rd d' \<and> dc_rd d' \<le> dc_len ?d \<and> length (dc_raw d') = length (dc_raw ?d) \<and>
       take (dc_wr d') (dc_raw d') = take (dc_wr ?d) (dc_raw ?d) @ o' \<and> drop (dc_rd d') (dc_raw d') = drop (dc_rd d') (dc_raw ?d) \<and>
       (s = 0 \<longrightarrow> dec_ok ?lim r (dc_wr d'))"
    by (rule dechunk_loop_spec) (use assms(1) run in simp_all)
  then obtain d' where d': "dechunk_loop ?lim req ?d = (s, r, d')" "dc_rd d' = m" "dc_wr d' = length o'"
    "dc_wr d' \<le> dc_rd d'" "dc_rd d' \<le> length raw" "length (dc_raw d') = length raw" "take (dc_wr d') (dc_raw d') = o'"
    "drop (dc_rd d') (dc_raw d') = drop (dc_rd d') raw" "s = 0 \<longrightarrow> dec_ok ?lim r (dc_wr d')" by auto
  obtain e bb where h: "httpd_conn_hold (lm_bodies lim) (lm_client_bodies lim) races (of_nat (dc_wr d')) b = (e, bb)"
    by (metis surj_pair)
  have "s = 0" using assms(2) unfolding httpd_conn_dechunk_def d'(1) by (simp split: if_splits)
  then have "e = None" "req' = r" "b' = bb" "raw' = dc_raw d'" "used = dc_rd d'" "out = dc_wr d'"
    using assms(2) unfolding httpd_conn_dechunk_def d'(1) by (auto simp: h split: if_splits)
  then show ?thesis using run d' h \<open>s = 0\<close> by simp
qed

lemma dechunk_runs:
  assumes "dec_ok (httpd_limits.truncate lim) req 0" "dec_run (httpd_limits.truncate lim) req 0 raw = (0, r, m, o')"
    "httpd_conn_hold (lm_bodies lim) (lm_client_bodies lim) races (of_nat (length o')) b = (None, b')"
  shows "\<exists>raw'. httpd_conn_dechunk lim races req b raw = (0, r, b', raw', m, length o') \<and> take (length o') raw' = o' \<and>
    length raw' = length raw \<and> drop m raw' = drop m raw"
proof -
  let ?lim = "httpd_limits.truncate lim" and ?d = "\<lparr>dc_raw = raw, dc_len = length raw, dc_rd = 0, dc_wr = 0\<rparr>"
  have "\<exists>d'. dechunk_loop ?lim req ?d = (0, r, d') \<and> dc_rd d' = dc_rd ?d + m \<and> dc_wr d' = dc_wr ?d + length o' \<and>
       dc_wr d' \<le> dc_rd d' \<and> dc_rd d' \<le> dc_len ?d \<and> length (dc_raw d') = length (dc_raw ?d) \<and>
       take (dc_wr d') (dc_raw d') = take (dc_wr ?d) (dc_raw ?d) @ o' \<and> drop (dc_rd d') (dc_raw d') = drop (dc_rd d') (dc_raw ?d) \<and>
       (0 = (0::nat) \<longrightarrow> dec_ok ?lim r (dc_wr d'))"
    by (rule dechunk_loop_spec) (use assms in simp_all)
  then obtain d' where "dechunk_loop ?lim req ?d = (0, r, d')" "dc_rd d' = m" "dc_wr d' = length o'" "length (dc_raw d') = length raw"
    "take (length o') (dc_raw d') = o'" "drop m (dc_raw d') = drop m raw" by auto
  then show ?thesis unfolding httpd_conn_dechunk_def using assms(3) by (intro exI [of _ "dc_raw d'"]) simp
qed

lemma dec_run_ok: "dec_ok lim req wr \<Longrightarrow> dec_run lim req wr inp = (0, r, m, out) \<Longrightarrow> dec_ok lim r (wr + length out)"
proof (induction lim req wr inp arbitrary: r m out rule: dec_run.induct)
  case (1 lim req wr inp)
  show ?case
  proof (cases "inp = [] \<or> flag REQ_BODY_IN req")
    case True
    then show ?thesis using "1.prems" by (simp add: dec_run_end)
  next
    case False
    obtain s1 r1 n k where st: "dec_step lim req wr inp = (s1, r1, n, k)" by (metis surj_pair)
    have k: "k \<le> length inp" using dec_step_bounds [OF st] by simp
    show ?thesis
    proof (cases "s1 \<noteq> 0 \<or> n = 0")
      case True
      then have "s1 = 0" "r = r1" "out = take k inp" using "1.prems"(2) dec_run_step [OF _ _ st] False by auto
      then show ?thesis using dec_step_ok [of lim req wr inp r1 n k] st "1.prems"(1) k by simp
    next
      case go: False
      obtain s2 r2 m2 out2 where run: "dec_run lim r1 (wr + k) (drop n inp) = (s2, r2, m2, out2)" by (metis surj_pair)
      have "s2 = 0" "r = r2" "out = take k inp @ out2" using "1.prems"(2) dec_run_step [OF _ _ st] False go run by auto
      moreover have "dec_ok lim r1 (wr + k)" using dec_step_ok [of lim req wr inp r1 n k] st go "1.prems"(1) by simp
      ultimately show ?thesis using "1.IH" [OF False st [symmetric] refl refl go, of r2 m2 out2] run k by (simp add: add.assoc)
    qed
  qed
qed

lemma drop_take_rest: "m \<le> length (take n xs) \<Longrightarrow> drop m (take n xs) @ drop n xs @ ys = drop m xs @ ys"
proof -
  assume m: "m \<le> length (take n xs)"
  then have "drop m (take n xs) @ drop n xs = drop m (take n xs @ drop n xs)" unfolding drop_append by simp
  then show ?thesis by simp
qed

text \<open>A connection that takes in a chunked body for an application that has the stream.\<close>

definition in_body :: "httpd_req \<Rightarrow> bool" where
  "in_body req \<longleftrightarrow> flag REQ_CHUNKED req \<and> flag REQ_OPEN req \<and> \<not> flag REQ_DONE req \<and> \<not> flag REQ_EXPECT req"

abbreviation listens :: "bytes \<Rightarrow> bool \<Rightarrow> httpd_req \<Rightarrow> httpd_req" where
  "listens \<equiv> \<lambda>data last_part req. req"

lemma body_step:
  assumes conn: "bc_in conn = h @ inp" "length h = rq_head (bc_req conn)" "in_body (bc_req conn)"
    and ok: "dec_ok (httpd_limits.truncate lim) (bc_req conn) 0"
    and run: "dec_run (httpd_limits.truncate lim) (bc_req conn) 0 (take room inp) = (0, r, m, out)"
    and hold: "httpd_conn_hold (lm_bodies lim) (lm_client_bodies lim) ([], [], 0) (of_nat (length out)) (bc_budgets conn) = (None, b')"
  shows "\<exists>next. httpd_conn_body lim ([], [], 0) listens room conn =
    (next, m, if out \<noteq> [] \<or> flag REQ_BODY_IN r then [OnBody out (flag REQ_BODY_IN r)] else [],
     \<lparr>bc_req = r\<lparr>rq_got := rq_got r + length out\<rparr>, bc_in = h @ drop m inp, bc_budgets = b'\<rparr>) \<and>
    (next = NEXT_MORE \<longleftrightarrow> flag REQ_BODY_IN r) \<and> next \<noteq> NEXT_END"
proof -
  define len where "len = min (length inp) room"
  have raw: "drop (rq_head (bc_req conn)) (bc_in conn) = inp" using conn(1,2) by simp
  have avail: "length (bc_in conn) - rq_head (bc_req conn) = length inp" using conn(1,2) by simp
  have l: "(if length inp < room then length inp else room) = len" "take len inp = take room inp" by (simp_all add: len_def min_def)
  obtain data where data: "httpd_conn_dechunk lim ([], [], 0) (bc_req conn) (bc_budgets conn) (take room inp) = (0, r, b', data, m, length out)"
      "take (length out) data = out" "length data = length (take room inp)" "drop m data = drop m (take room inp)"
    using dechunk_runs [OF ok run, of "([], [], 0)" "bc_budgets conn" b'] hold by auto
  note k = dec_run_keeps [OF run]
  have flags: "flag REQ_CHUNKED (bc_req conn)" "flag REQ_OPEN r" "\<not> flag REQ_DONE r" "\<not> flag REQ_EXPECT r" "rq_head r = length h"
    using k conn(2,3) by (simp_all add: in_body_def keeps_def)
  have m: "m \<le> len" using dec_run_bounds [OF run] by (simp add: len_def min.commute)
  have over': "overwrite (bc_in conn) (length h) data = h @ data @ drop len inp"
    using conn(1,2) data(3) by (simp add: overwrite_def len_def)
  then have over: "overwrite (bc_in conn) (rq_head (bc_req conn)) data = h @ data @ drop len inp" using conn(2) by simp
  have all: "conn\<lparr>bc_budgets := b, bc_in := i, bc_req := q\<rparr> = \<lparr>bc_req = q, bc_in = i, bc_budgets = b\<rparr>" for b i q by (cases conn) simp
  have tail: "drop m (data @ drop len inp) = drop m inp"
  proof -
    have "drop m (data @ drop len inp) = drop m (take len inp) @ drop len inp" using data(3,4) m l(2) by (simp add: len_def)
    also have "\<dots> = drop m (take len inp @ drop len inp)"
      unfolding drop_append using m by (simp add: len_def)
    finally show ?thesis by simp
  qed
  show ?thesis
    unfolding httpd_conn_body_def Let_def raw avail l if_P [OF flags(1)] data(1) prod.case over
    using flags data(2) tail by (auto simp: over' all split: if_splits)
qed

section \<open>Steps as the input comes\<close>

text \<open>
  The input comes in pieces, after each of which the connection takes a step with some share.  What comes once the body is in
  belongs to the next request.
\<close>

fun body_steps :: "body_limits \<Rightarrow> body_conn \<Rightarrow> (bytes \<times> nat) list \<Rightarrow> body_event list \<times> body_conn" where
  "body_steps lim conn [] = ([], conn)"
| "body_steps lim conn ((piece, room) # ps) =
     (let conn = conn\<lparr>bc_in := bc_in conn @ piece\<rparr>
      in if flag REQ_BODY_IN (bc_req conn) then body_steps lim conn ps
         else
           case httpd_conn_body lim ([], [], 0) listens room conn of
             (next, work, events, conn) \<Rightarrow> (let (more, conn) = body_steps lim conn ps in (events @ more, conn)))"

fun handed :: "body_event list \<Rightarrow> bytes" where
  "handed [] = []"
| "handed (OnBody data last_part # es) = data @ handed es"
| "handed (e # es) = handed es"

definition is_last :: "body_event \<Rightarrow> bool" where
  "is_last e \<longleftrightarrow> (\<exists>data. e = OnBody data True)"

definition is_fail :: "body_event \<Rightarrow> bool" where
  "is_fail e \<longleftrightarrow> (\<exists>status. e = Fail status)"

lemma handed_append: "handed (es @ es') = handed es @ handed es'"
  by (induction es rule: handed.induct) simp_all

text \<open>The budgets have room for what a body may still have.\<close>

definition room_left :: "body_limits \<Rightarrow> nat \<Rightarrow> budgets \<Rightarrow> bool" where
  "room_left lim got b \<longleftrightarrow>
     unat (bd_bodies b) + (lm_body lim - got) \<le> unat (lm_bodies lim) \<and>
     unat (bd_client b) + (lm_body lim - got) \<le> unat (lm_client_bodies lim)"

lemma room_left_one:
  fixes used mx :: u64
  assumes "unat used + (b - got) \<le> unat mx" "got + n \<le> b"
  shows "of_nat n \<le> mx - used" "unat (used + of_nat n) + (b - (got + n)) \<le> unat mx"
proof -
  have n: "unat used + n \<le> unat mx" "n < 2 ^ 64" using assms unat_less_64 [of mx] by linarith+
  have u: "unat (of_nat n :: u64) = n" using n(2) by (simp add: unat_of_nat_64)
  have "used \<le> mx" using n(1) by (simp add: word_le_nat_alt)
  then have "unat (mx - used) = unat mx - unat used" by (rule unat_sub)
  then show "of_nat n \<le> mx - used" using n(1) u by (simp add: word_le_nat_alt)
  have "unat (used + of_nat n) = unat used + n"
    using u n(1) unat_less_64 [of mx] by (simp add: unat_word_ariths)
  then show "unat (used + of_nat n) + (b - (got + n)) \<le> unat mx" using assms by simp
qed

lemma hold_granted:
  assumes "room_left lim got b" "got + n \<le> lm_body lim"
  shows "\<exists>b'. httpd_conn_hold (lm_bodies lim) (lm_client_bodies lim) ([], [], 0) (of_nat n) b = (None, b') \<and> room_left lim (got + n) b'"
proof (cases "(of_nat n :: u64) = 0")
  case True
  then show ?thesis using assms by (auto simp: room_left_def)
next
  case False
  note one = room_left_one [OF _ assms(2)]
  show ?thesis using assms(1) one [of "bd_bodies b" "lm_bodies lim"] one [of "bd_client b" "lm_client_bodies lim"] False
    by (auto simp: httpd_conn_hold_def room_left_def)
qed

lemma steps_after_body: "flag REQ_BODY_IN (bc_req conn) \<Longrightarrow> body_steps lim conn ps = ([], conn\<lparr>bc_in := bc_in conn @ concat (map fst ps)\<rparr>)"
proof (induction ps arbitrary: conn)
  case (Cons p ps)
  then show ?case by (cases p) (simp add: Let_def)
qed simp

lemma handed_one: "handed (if out \<noteq> [] \<or> l then [OnBody out l] else []) = out"
  by simp

lemma body_steps_spec:
  assumes "bc_in conn = h @ inp" "length h = rq_head (bc_req conn)" "in_body (bc_req conn)" "\<not> flag REQ_BODY_IN (bc_req conn)"
    "dec_ok (httpd_limits.truncate lim) (bc_req conn) 0" "room_left lim (rq_got (bc_req conn)) (bc_budgets conn)"
    "dec_run (httpd_limits.truncate lim) (bc_req conn) 0 (inp @ concat (map fst ps)) = (0, r, m, out)" "flag REQ_BODY_IN r"
  shows "\<exists>es conn'. body_steps lim conn ps = (es, conn') \<and> \<not> list_ex is_fail es \<and>
    (if flag REQ_BODY_IN (bc_req conn')
     then handed es = out \<and> es \<noteq> [] \<and> is_last (last es) \<and> \<not> list_ex is_last (butlast es) \<and>
       bc_in conn' = h @ drop m (inp @ concat (map fst ps))
     else (\<exists>rest. out = handed es @ rest) \<and> \<not> list_ex is_last es \<and>
       (ps \<noteq> [] \<longrightarrow> snd (last ps) < length (inp @ concat (map fst ps))))"
  using assms
proof (induction ps arbitrary: conn inp m out r)
  case Nil
  then show ?case by simp
next
  case (Cons p ps)
  let ?lim = "httpd_limits.truncate lim"
  obtain piece room where p: "p = (piece, room)" by (cases p)
  define c0 where "c0 = conn\<lparr>bc_in := bc_in conn @ piece\<rparr>"
  let ?inp = "inp @ piece" and ?req = "bc_req conn"
  have c0: "bc_in c0 = h @ ?inp" "bc_req c0 = ?req" "bc_budgets c0 = bc_budgets conn" using Cons.prems(1) by (simp_all add: c0_def)
  obtain s1 r1 m1 o1 where run1: "dec_run ?lim ?req 0 (take room ?inp) = (s1, r1, m1, o1)" by (metis surj_pair)
  have whole: "inp @ concat (map fst (p # ps)) = take room ?inp @ drop room ?inp @ concat (map fst ps)"
    using append_take_drop_id [of room ?inp] by (simp only: append_assoc [symmetric] p list.map concat.simps fst_conv)
  note app = dec_run_append [OF Cons.prems(5), of "take room ?inp" "drop room ?inp @ concat (map fst ps)", folded whole, unfolded run1 Cons.prems(7)]
  have s1: "s1 = 0" using app by (cases "s1 = 0") simp_all
  obtain r2 m2 o2 where run2: "dec_run ?lim r1 (length o1) (drop m1 (take room ?inp) @ drop room ?inp @ concat (map fst ps)) = (0, r2, m2, o2)"
      "r = r2" "m = m1 + m2" "out = o1 @ o2"
    using app s1 by (auto split: prod.splits)
  have b1: "m1 \<le> length (take room ?inp)" using dec_run_bounds [OF run1] by simp
  have rest: "drop m1 (take room ?inp) @ drop room ?inp @ concat (map fst ps) = drop m1 ?inp @ concat (map fst ps)"
    using b1 by (rule drop_take_rest)
  define req1 where "req1 = r1\<lparr>rq_got := rq_got r1 + length o1\<rparr>"
  note k = dec_run_keeps [OF run1]
  have got1: "rq_got r1 = rq_got ?req" "rq_head r1 = rq_head ?req" using k by (simp_all add: keeps_def)
  have d: "dec_ok ?lim r1 (length o1)"
    using dec_run_ok [OF Cons.prems(5) run1 [unfolded s1]] by simp
  have within: "rq_got ?req + length o1 \<le> lm_body lim" using d got1 by (auto simp: dec_ok_def httpd_limits.defs split: if_splits)
  obtain b' where hold: "httpd_conn_hold (lm_bodies lim) (lm_client_bodies lim) ([], [], 0) (of_nat (length o1)) (bc_budgets c0) = (None, b')"
      "room_left lim (rq_got ?req + length o1) b'"
    using hold_granted [OF Cons.prems(6) within] c0(3) by auto
  define ev where "ev = (if o1 \<noteq> [] \<or> flag REQ_BODY_IN r1 then [OnBody o1 (flag REQ_BODY_IN r1)] else [])"
  define c1 where "c1 = \<lparr>bc_req = req1, bc_in = h @ drop m1 ?inp, bc_budgets = b'\<rparr>"
  have "\<exists>next. httpd_conn_body lim ([], [], 0) listens room c0 = (next, m1, ev, c1) \<and> (next = NEXT_MORE \<longleftrightarrow> flag REQ_BODY_IN r1) \<and> next \<noteq> NEXT_END"
    unfolding ev_def c1_def req1_def by (rule body_step) (use c0 Cons.prems run1 s1 hold in simp_all)
  then obtain nx where step: "httpd_conn_body lim ([], [], 0) listens room c0 = (nx, m1, ev, c1)" by (elim exE conjE)
  have steps: "body_steps lim conn (p # ps) = (let (more, conn) = body_steps lim c1 ps in (ev @ more, conn))"
    using Cons.prems(4) step by (simp add: p c0_def [symmetric] Let_def c0(2))
  have evs: "\<not> list_ex is_fail ev" "handed ev = o1" "list_ex is_last ev \<longleftrightarrow> flag REQ_BODY_IN r1"
    by (simp_all add: ev_def is_fail_def is_last_def)
  have flag1: "flag REQ_BODY_IN req1 = flag REQ_BODY_IN r1" by (simp add: req1_def)
  show ?case
  proof (cases "flag REQ_BODY_IN r1")
    case True
    then have "m2 = 0" "o2 = []" using run2(1) by (simp_all add: dec_run_end)
    moreover have "drop m1 ?inp @ concat (map fst ps) = drop m1 (inp @ concat (map fst (p # ps)))"
      unfolding p list.map concat.simps fst_conv append_assoc [symmetric] drop_append [of m1 ?inp] using b1 by simp
    moreover have "body_steps lim c1 ps = ([], c1\<lparr>bc_in := bc_in c1 @ concat (map fst ps)\<rparr>)"
      by (rule steps_after_body) (simp add: c1_def flag1 True)
    ultimately show ?thesis unfolding steps using True run2 evs flag1 by (simp add: c1_def ev_def is_last_def)
  next
    case False
    have "dec_run ?lim req1 0 (drop m1 ?inp @ concat (map fst ps)) = (0, r2\<lparr>rq_got := rq_got r2 + length o1\<rparr>, m2, o2)"
      unfolding req1_def dec_run_got add_0 run2(1) [unfolded rest] prod.case ..
    moreover have "in_body req1" using k Cons.prems(3) by (simp add: in_body_def req1_def keeps_def)
    moreover have "dec_ok ?lim req1 0" using d by (auto simp: dec_ok_def req1_def)
    ultimately have "\<exists>es conn'. body_steps lim c1 ps = (es, conn') \<and> \<not> list_ex is_fail es \<and>
      (if flag REQ_BODY_IN (bc_req conn')
       then handed es = o2 \<and> es \<noteq> [] \<and> is_last (last es) \<and> \<not> list_ex is_last (butlast es) \<and>
         bc_in conn' = h @ drop m2 (drop m1 ?inp @ concat (map fst ps))
       else (\<exists>rest. o2 = handed es @ rest) \<and> \<not> list_ex is_last es \<and>
         (ps \<noteq> [] \<longrightarrow> snd (last ps) < length (drop m1 ?inp @ concat (map fst ps))))"
      using False Cons.prems(2,8) run2(2) got1 hold(2) flag1
      by (intro Cons.IH [where inp = "drop m1 ?inp" and r = "r2\<lparr>rq_got := rq_got r2 + length o1\<rparr>"]) (simp_all add: c1_def req1_def)
    then obtain es conn' where es: "body_steps lim c1 ps = (es, conn')" "\<not> list_ex is_fail es"
      "if flag REQ_BODY_IN (bc_req conn')
       then handed es = o2 \<and> es \<noteq> [] \<and> is_last (last es) \<and> \<not> list_ex is_last (butlast es) \<and>
         bc_in conn' = h @ drop m2 (drop m1 ?inp @ concat (map fst ps))
       else (\<exists>rest. o2 = handed es @ rest) \<and> \<not> list_ex is_last es \<and>
         (ps \<noteq> [] \<longrightarrow> snd (last ps) < length (drop m1 ?inp @ concat (map fst ps)))" by (elim exE conjE)
    have short: "length (drop m1 ?inp @ concat (map fst ps)) \<le> length (inp @ concat (map fst (p # ps)))" by (simp add: p)
    have end1: "room < length ?inp" if "ps = []"
    proof (rule ccontr)
      assume "\<not> room < length ?inp"
      then have "dec_run ?lim ?req 0 (inp @ concat (map fst (p # ps))) = (s1, r1, m1, o1)" using run1 that by (simp add: p)
      then show False using Cons.prems(7,8) False by simp
    qed
    have shift: "drop m2 (drop m1 ?inp @ concat (map fst ps)) = drop m (inp @ concat (map fst (p # ps)))"
    proof -
      have "drop m1 ?inp @ concat (map fst ps) = drop m1 (?inp @ concat (map fst ps))"
        unfolding drop_append [of m1 ?inp] using b1 by simp
      then show ?thesis by (simp only: drop_drop run2(3) add.commute [of m1] p list.map concat.simps fst_conv append_assoc)
    qed
    show ?thesis
    proof (cases "flag REQ_BODY_IN (bc_req conn')")
      case True
      then show ?thesis unfolding steps using es evs False run2(4) shift
        by (auto simp: handed_append butlast_append)
    next
      case no: False
      have "ps \<noteq> [] \<longrightarrow> snd (last ps) < length (inp @ concat (map fst (p # ps)))" using es(3) no short by auto
      then have "snd (last (p # ps)) < length (inp @ concat (map fst (p # ps)))"
        using end1 by (cases "ps = []") (simp_all add: p)
      then show ?thesis unfolding steps using es evs False run2(4) no by (auto simp: handed_append)
    qed
  qed
qed

section \<open>Facts: sizes as they are written\<close>

lemma httpd_hex_digits:
  "httpd_hex n \<noteq> [] \<and> list_all is_hex_digit (httpd_hex n) \<and> hex_val (httpd_hex n) = n"
proof (induction n rule: httpd_hex.induct)
  case (1 n)
  have d: "is_hex_digit (hex_digits ! (n mod 16))" "unat (util_hex_digit (hex_digits ! (n mod 16))) = n mod 16"
    using hex_digits_nth [of "n mod 16"] by (simp_all add: is_hex_digit_def word_less_nat_alt unsigned_of_nat take_bit_nat_eq_self)
  show ?case
  proof (cases "n div 16 = 0")
    case True
    then show ?thesis using d by (subst (1 2 3) httpd_hex.simps) (simp add: hex_val_def)
  next
    case False
    then show ?thesis using d "1.IH" by (subst (1 2 3) httpd_hex.simps) (simp add: hex_val_def)
  qed
qed

text \<open>A connection whose request has a chunked body of which nothing has come, and budgets with room for it.\<close>

definition awaits_chunks :: "body_limits \<Rightarrow> body_conn \<Rightarrow> bytes \<Rightarrow> bool" where
  "awaits_chunks lim conn h \<longleftrightarrow>
     length h = rq_head (bc_req conn) \<and> in_body (bc_req conn) \<and> \<not> flag REQ_BODY_IN (bc_req conn) \<and>
     chunk_state (bc_req conn) = CHUNK_SIZE \<and> rq_got (bc_req conn) = 0 \<and> rq_trailer (bc_req conn) = 0 \<and> rq_trailers (bc_req conn) = 0 \<and>
     lm_body lim < 2 ^ 64 \<and> lm_head lim < 2 ^ 16 \<and> room_left lim 0 (bc_budgets conn)"

section \<open>Properties\<close>

text \<open>
  C28.  A chunked body within the limits, with any extensions and trailer fields, reaches the application as its data, in whatever
  pieces it comes and whatever share each step has: nothing fails, what is handed on is a beginning of the data until all of
  it is in, which the last call and no other says; the bytes that follow stay for the next request.  A body that is not all in
  after a step is only so for want of input or of share.
\<close>

theorem chunked_body_in_steps:
  assumes "awaits_chunks lim conn h" "bc_in conn = h @ inp" "inp @ concat (map fst ps) = chunked cs z ts @ rest"
    "chunked_ok (httpd_limits.truncate lim) (lm_body lim) cs z ts"
  shows "\<exists>es conn'. body_steps lim conn ps = (es, conn') \<and> \<not> list_ex is_fail es \<and>
    (if flag REQ_BODY_IN (bc_req conn')
     then handed es = chunked_data cs \<and> es \<noteq> [] \<and> is_last (last es) \<and> \<not> list_ex is_last (butlast es) \<and> bc_in conn' = h @ rest
     else (\<exists>more. chunked_data cs = handed es @ more) \<and> \<not> list_ex is_last es \<and>
       (ps \<noteq> [] \<longrightarrow> snd (last ps) < length (chunked cs z ts @ rest)))"
proof -
  let ?lim = "httpd_limits.truncate lim" and ?req = "bc_req conn"
  have body: "lm_body ?lim = lm_body lim" "lm_head ?lim = lm_head lim" by (simp_all add: httpd_limits.defs)
  note a = assms(1) [unfolded awaits_chunks_def]
  have "\<exists>r. dec_run ?lim ?req 0 (chunked cs z ts @ rest) = (0, r, length (chunked cs z ts), chunked_data cs) \<and> flag REQ_BODY_IN r \<and>
      rq_got r = rq_got ?req"
    by (rule run_chunked) (use a assms(4) body in simp_all)
  then obtain r where r: "dec_run ?lim ?req 0 (inp @ concat (map fst ps)) = (0, r, length (chunked cs z ts), chunked_data cs)" "flag REQ_BODY_IN r"
    unfolding assms(3) by (elim exE conjE)
  have ok: "dec_ok ?lim ?req 0" using a body by (simp add: dec_ok_def)
  have c: "length h = rq_head ?req" "in_body ?req" "\<not> flag REQ_BODY_IN ?req" "room_left lim (rq_got ?req) (bc_budgets conn)"
    using a by simp_all
  have rest: "drop (length (chunked cs z ts)) (chunked cs z ts @ rest) = rest" by simp
  show ?thesis by (rule body_steps_spec [OF assms(2) c(1-3) ok c(4) r, unfolded assms(3) rest])
qed

theorem chunked_body_in_steps_witness:
  "handed (fst (body_steps \<lparr>lm_body = 9, lm_head = 100, lm_fields = 9, lm_bodies = 50, lm_client_bodies = 50\<rparr>
     \<lparr>bc_req = req_zero\<lparr>rq_flags := 1026\<rparr>, bc_in = [], bc_budgets = \<lparr>bd_bodies = 7, bd_client = 7, bd_held = 0\<rparr>\<rparr>
     [([51, 13], 100), ([10, 97, 98, 99, 13, 10, 48, 13, 10, 13, 10, 71], 100)])) = [97, 98, 99]"
proof -
  let ?lim = "\<lparr>lm_body = 9, lm_head = 100, lm_fields = 9, lm_bodies = 50, lm_client_bodies = 50\<rparr>"
    and ?conn = "\<lparr>bc_req = req_zero\<lparr>rq_flags := 1026\<rparr>, bc_in = [], bc_budgets = \<lparr>bd_bodies = 7, bd_client = 7, bd_held = 0\<rparr>\<rparr>"
    and ?ps = "[([51, 13], 100), ([10, 97, 98, 99, 13, 10, 48, 13, 10, 13, 10, 71], 100)] :: (bytes \<times> nat) list"
    and ?c = "([51], [], [97, 98, 99]) :: bytes \<times> bytes \<times> bytes" and ?z = "([48], [], []) :: bytes \<times> bytes \<times> bytes"
  have flags: "bit (1026 :: u32) 1" "bit (1026 :: u32) 10" "\<not> bit (1026 :: u32) 14" "\<not> bit (1026 :: u32) 4" "\<not> bit (1026 :: u32) 9"
    "(1026 :: u32) AND CHUNK_STATE = CHUNK_SIZE" by (simp_all add: bit_iff_odd_drop_bit chunk_states)
  have a: "awaits_chunks ?lim ?conn []"
    using flags by (simp add: awaits_chunks_def in_body_def flag_def chunk_state_def room_left_def req_zero_def)
  have i: "bc_in ?conn = [] @ []" by simp
  have t: "[] @ concat (map fst ?ps) = chunked [?c] ?z [] @ [71]"
    by (simp add: chunked_def chunk_text_def size_text_def CRLF_def trailer_text_def)
  have "is_hex_digit 51" "is_hex_digit 48" "hex_val [51] = 3" "hex_val [48] = 0" "ext_ok []" by code_simp+
  then have ok: "chunked_ok (httpd_limits.truncate ?lim) (lm_body ?lim) [?c] ?z []"
    by (simp add: chunked_ok_def chunk_ok_def chunked_data_def trailer_text_def CRLF_def CHUNK_LINE_def httpd_limits.defs)
  have n: "\<not> snd (last ?ps) < length (chunked [?c] ?z [] @ [71])" unfolding t [symmetric] by simp
  obtain es conn' where r: "body_steps ?lim ?conn ?ps = (es, conn')" by (metis surj_pair)
  have "handed es = chunked_data [?c]"
    using chunked_body_in_steps [OF a i t ok] n unfolding r by (simp split: if_splits)
  then show ?thesis unfolding r by (simp add: chunked_data_def)
qed

text \<open>
  C29.  Decoding in place is decoding a list: on success the bytes up to \<open>out\<close> are the data of the list decoder, which takes as
  many bytes; the bytes that are left to read are as they were, however much data was moved below them; and no count has
  passed its limit, so that none of the sums of the code wraps.
\<close>

theorem dechunk_in_place:
  assumes "dec_ok (httpd_limits.truncate lim) req 0" "httpd_conn_dechunk lim races req b raw = (0, req', b', raw', used, out)"
  shows "dec_run (httpd_limits.truncate lim) req 0 raw = (0, req', used, take out raw') \<and> out \<le> used \<and> used \<le> length raw \<and>
    length raw' = length raw \<and> drop used raw' = drop used raw \<and>
    rq_got req' + out \<le> lm_body lim \<and> rq_trailer req' \<le> lm_head lim"
  using dechunk_spec [OF assms] by (auto simp: dec_ok_def httpd_limits.defs split: if_splits)

theorem dechunk_in_place_witness:
  "fst (dec_run \<lparr>lm_body = 9, lm_head = 100, lm_fields = 9\<rparr> req_zero 0 [50]) = 0"
proof -
  let ?lim = "\<lparr>lm_body = 9, lm_head = 100, lm_fields = 9, lm_bodies = 50, lm_client_bodies = 50\<rparr>"
    and ?b = "\<lparr>bd_bodies = 7, bd_client = 7, bd_held = 0\<rparr>"
  have t: "httpd_limits.truncate ?lim = \<lparr>lm_body = 9, lm_head = 100, lm_fields = 9\<rparr>" by (simp add: httpd_limits.defs)
  have ok: "dec_ok (httpd_limits.truncate ?lim) req_zero 0"
    unfolding t by (simp add: dec_ok_def req_zero_def chunk_state_def chunk_states)
  have "dechunk_loop (httpd_limits.truncate ?lim) req_zero \<lparr>dc_raw = [50], dc_len = 1, dc_rd = 0, dc_wr = 0\<rparr> =
      (0, req_zero, \<lparr>dc_raw = [50], dc_len = 1, dc_rd = 0, dc_wr = 0\<rparr>)"
    by (subst dechunk_loop.simps)
      (simp add: dechunk_step_def chunk_state_def req_zero_def chunk_states flag_def httpd_conn_chunk_size_def httpd_dechunk_line_def
        CHUNK_LINE_def)
  then have "httpd_conn_dechunk ?lim ([], [], 0) req_zero ?b [50] = (0, req_zero, ?b, [50], 0, 0)"
    by (simp add: httpd_conn_dechunk_def)
  from dechunk_in_place [OF ok this] show ?thesis unfolding t by simp
qed

text \<open>
  One call by itself, given what others do meanwhile: on success each budget had room for the bytes when they were added; else the error is
  \<^verbatim>\<open>ENOBUFS\<close>, and what is in each budget is what the other loops put there, of which none is lost.
\<close>

theorem hold_outcomes:
  assumes "httpd_conn_hold max_bodies max_client (raced_bodies, raced_client, others) n b = (e, b')" "n \<noteq> 0"
  shows "case e of
      None \<Rightarrow> bd_bodies b' = last (bd_bodies b # raced_bodies) + n + others \<and> n \<le> max_bodies - last (bd_bodies b # raced_bodies) \<and>
        bd_client b' = last (bd_client b # raced_client) + n \<and> n \<le> max_client - last (bd_client b # raced_client) \<and> bd_held b' = bd_held b + n
    | Some x \<Rightarrow> x = ENOBUFS \<and> bd_held b' = bd_held b \<and> bd_client b' \<in> set (bd_client b # raced_client) \<and>
        (bd_bodies b' \<in> set (bd_bodies b # raced_bodies) \<and> bd_client b' = bd_client b \<and> n > max_bodies - bd_bodies b' \<or>
         bd_bodies b' = last (bd_bodies b # raced_bodies) + others \<and> n > max_client - bd_client b')"
proof -
  obtain e1 u1 where t1: "httpd_budget_take raced_bodies (bd_bodies b) n max_bodies = (e1, u1)" by (metis surj_pair)
  obtain e2 u2 where t2: "httpd_budget_take raced_client (bd_client b) n max_client = (e2, u2)" by (metis surj_pair)
  note s = budget_take_spec [OF t1] budget_take_spec [OF t2]
  show ?thesis
  proof (cases e1)
    case (Some x)
    then show ?thesis using assms s t1 by (auto simp: httpd_conn_hold_def Let_def)
  next
    case None
    then show ?thesis using assms s t1 t2
      by (cases e2) (auto simp: httpd_conn_hold_def Let_def algebra_simps simp del: last.simps)
  qed
qed

theorem hold_outcomes_witness:
  "bd_bodies (snd (httpd_conn_hold 10 10 ([3], [], 1) 5 \<lparr>bd_bodies = 1, bd_client = 8, bd_held = 0\<rparr>)) = 4"
proof -
  have r: "httpd_conn_hold 10 10 ([3], [], 1) 5 \<lparr>bd_bodies = 1, bd_client = 8, bd_held = 0\<rparr> =
      (Some ENOBUFS, \<lparr>bd_bodies = 4, bd_client = 8, bd_held = 0\<rparr>)"
    by (simp add: httpd_conn_hold_def)
  from hold_outcomes [OF r] show ?thesis unfolding r by simp
qed

text \<open>The size of a chunk as the server writes it is read back.\<close>

theorem chunk_size_round_trip:
  assumes "n < 2 ^ 64"
  shows "size_loop (httpd_hex n @ CRLF) 0 False 0 = (of_nat n, False, length (httpd_hex n))"
proof -
  obtain w ov k where r: "size_loop (httpd_hex n @ CRLF) 0 False 0 = (w, ov, k)" by (metis surj_pair)
  have "takeWhile is_hex_digit (httpd_hex n @ CRLF) = httpd_hex n"
    using httpd_hex_digits [of n] hex_digit_not [of 13] by (simp add: CRLF_def list_all_iff)
  then have "k = length (httpd_hex n)" "\<not> ov" "unat w = n"
    using size_loop_spec [OF r] httpd_hex_digits [of n] assms by (simp_all add: hex_val_def)
  moreover have "unat (of_nat n :: u64) = n" using assms by (rule unat_of_nat_64)
  ultimately show ?thesis unfolding r by (simp add: word_unat_eq_iff)
qed

theorem chunk_size_round_trip_witness: "size_loop (httpd_hex 255 @ CRLF) 0 False 0 = (255, False, length (httpd_hex 255))"
  using chunk_size_round_trip [of 255] by simp

end
