(* ===== verification/Httpd_Budget.thy ===== *)
theory Httpd_Budget
  imports Util_Io
begin

text \<open>
  The budgets of body bytes, which the connections of all client loops share (\<^verbatim>\<open>httpd_budget_take()\<close>,
  \<^verbatim>\<open>httpd_conn_hold()\<close> and \<^verbatim>\<open>httpd_conn_unhold()\<close> in \<^verbatim>\<open>src/httpd.c\<close>): a step relation in which each atomic
  load, exchange or subtraction is a step of its own, so that those of any number of connections interleave in every way.
  A weak exchange may fail with the value that it expects in place.

  The budgets are shown to be the bytes that connections hold or are about to, in every state, and within their limits.
\<close>

section \<open>Connections and their calls\<close>

text \<open>Where a connection stands in a call: before the operation that the constructor names, with the local variables it needs.\<close>

datatype hold_pc =
    Outside
  | Load_bodies u64
  | Swap_bodies u64 u64
  | Load_client u64
  | Swap_client u64 u64
  | Give_back u64
  | Count_held u64
  | Unhold_client
  | Returned "errno option"

record hold_conn =
  hc_client :: ref
  hc_held :: u64
  hc_pc :: hold_pc

text \<open>\<^verbatim>\<open>hub->bodies\<close>, \<^verbatim>\<open>client->held\<close> of each client, and the connections.\<close>

record hub =
  hb_bodies :: u64
  hb_client :: "ref \<Rightarrow> u64"
  hb_conn :: "ref \<Rightarrow> hold_conn option"

definition hub_new :: hub where
  "hub_new = \<lparr>hb_bodies = 0, hb_client = (\<lambda>cl. 0), hb_conn = (\<lambda>c. None)\<rparr>"

definition put_conn :: "ref \<Rightarrow> hold_conn \<Rightarrow> hub \<Rightarrow> hub" where
  "put_conn c x s = s\<lparr>hb_conn := (hb_conn s)(c := Some x)\<rparr>"

definition take_bodies :: "u64 \<Rightarrow> hub \<Rightarrow> hub" where
  "take_bodies n s = s\<lparr>hb_bodies := hb_bodies s + n\<rparr>"

definition take_client :: "ref \<Rightarrow> u64 \<Rightarrow> hub \<Rightarrow> hub" where
  "take_client cl n s = s\<lparr>hb_client := (hb_client s)(cl := hb_client s cl + n)\<rparr>"

text \<open>
  The steps of a connection: opened and closed, holding nothing; a call of \<^verbatim>\<open>httpd_conn_hold()\<close> for \<open>n\<close> bytes, with the
  loop of \<^verbatim>\<open>httpd_budget_take()\<close> on each budget, and its return; and a call of \<^verbatim>\<open>httpd_conn_unhold()\<close>.  \<^verbatim>\<open>conn->held\<close> is
  the loop's own, so its update needs no step of its own.
\<close>

inductive hold_step :: "u64 \<Rightarrow> u64 \<Rightarrow> hub \<Rightarrow> hub \<Rightarrow> bool" for mb mc where
  opened: "hb_conn s c = None \<Longrightarrow> hold_step mb mc s (put_conn c \<lparr>hc_client = cl, hc_held = 0, hc_pc = Outside\<rparr> s)"
| closed: "hb_conn s c = Some x \<Longrightarrow> hc_pc x = Outside \<Longrightarrow> hc_held x = 0 \<Longrightarrow> hold_step mb mc s (s\<lparr>hb_conn := (hb_conn s)(c := None)\<rparr>)"
| called: "hb_conn s c = Some x \<Longrightarrow> hc_pc x = Outside \<Longrightarrow>
    hold_step mb mc s (put_conn c (x\<lparr>hc_pc := if n = 0 then Returned None else Load_bodies n\<rparr>) s)"
| load_bodies: "hb_conn s c = Some x \<Longrightarrow> hc_pc x = Load_bodies n \<Longrightarrow> hold_step mb mc s (put_conn c (x\<lparr>hc_pc := Swap_bodies n (hb_bodies s)\<rparr>) s)"
| bodies_full: "hb_conn s c = Some x \<Longrightarrow> hc_pc x = Swap_bodies n used \<Longrightarrow> \<not> n \<le> mb - used \<Longrightarrow>
    hold_step mb mc s (put_conn c (x\<lparr>hc_pc := Returned (Some ENOBUFS)\<rparr>) s)"
| bodies_raced: "hb_conn s c = Some x \<Longrightarrow> hc_pc x = Swap_bodies n used \<Longrightarrow> n \<le> mb - used \<Longrightarrow>
    hold_step mb mc s (put_conn c (x\<lparr>hc_pc := Swap_bodies n (hb_bodies s)\<rparr>) s)"
| bodies_taken: "hb_conn s c = Some x \<Longrightarrow> hc_pc x = Swap_bodies n used \<Longrightarrow> n \<le> mb - used \<Longrightarrow> hb_bodies s = used \<Longrightarrow>
    hold_step mb mc s (put_conn c (x\<lparr>hc_pc := Load_client n\<rparr>) (take_bodies n s))"
| load_client: "hb_conn s c = Some x \<Longrightarrow> hc_pc x = Load_client n \<Longrightarrow>
    hold_step mb mc s (put_conn c (x\<lparr>hc_pc := Swap_client n (hb_client s (hc_client x))\<rparr>) s)"
| client_full: "hb_conn s c = Some x \<Longrightarrow> hc_pc x = Swap_client n used \<Longrightarrow> \<not> n \<le> mc - used \<Longrightarrow>
    hold_step mb mc s (put_conn c (x\<lparr>hc_pc := Give_back n\<rparr>) s)"
| client_raced: "hb_conn s c = Some x \<Longrightarrow> hc_pc x = Swap_client n used \<Longrightarrow> n \<le> mc - used \<Longrightarrow>
    hold_step mb mc s (put_conn c (x\<lparr>hc_pc := Swap_client n (hb_client s (hc_client x))\<rparr>) s)"
| client_taken: "hb_conn s c = Some x \<Longrightarrow> hc_pc x = Swap_client n used \<Longrightarrow> n \<le> mc - used \<Longrightarrow> hb_client s (hc_client x) = used \<Longrightarrow>
    hold_step mb mc s (put_conn c (x\<lparr>hc_pc := Count_held n\<rparr>) (take_client (hc_client x) n s))"
| give_back: "hb_conn s c = Some x \<Longrightarrow> hc_pc x = Give_back n \<Longrightarrow>
    hold_step mb mc s (put_conn c (x\<lparr>hc_pc := Returned (Some ENOBUFS)\<rparr>) (s\<lparr>hb_bodies := hb_bodies s - n\<rparr>))"
| count_held: "hb_conn s c = Some x \<Longrightarrow> hc_pc x = Count_held n \<Longrightarrow>
    hold_step mb mc s (put_conn c (x\<lparr>hc_held := hc_held x + n, hc_pc := Returned None\<rparr>) s)"
| returned: "hb_conn s c = Some x \<Longrightarrow> hc_pc x = Returned e \<Longrightarrow> hold_step mb mc s (put_conn c (x\<lparr>hc_pc := Outside\<rparr>) s)"
| unhold_bodies: "hb_conn s c = Some x \<Longrightarrow> hc_pc x = Outside \<Longrightarrow> hc_held x \<noteq> 0 \<Longrightarrow>
    hold_step mb mc s (put_conn c (x\<lparr>hc_pc := Unhold_client\<rparr>) (s\<lparr>hb_bodies := hb_bodies s - hc_held x\<rparr>))"
| unhold_client: "hb_conn s c = Some x \<Longrightarrow> hc_pc x = Unhold_client \<Longrightarrow>
    hold_step mb mc s (put_conn c (x\<lparr>hc_held := 0, hc_pc := Outside\<rparr>)
      (s\<lparr>hb_client := (hb_client s)(hc_client x := hb_client s (hc_client x) - hc_held x)\<rparr>))"

section \<open>What is held\<close>

text \<open>What a connection has in each budget: what it holds, and what a call has taken and not yet given back or counted.\<close>

definition in_call :: "hold_conn \<Rightarrow> u64" where
  "in_call x = (case hc_pc x of Load_client n \<Rightarrow> n | Swap_client n used \<Rightarrow> n | Give_back n \<Rightarrow> n | Count_held n \<Rightarrow> n | _ \<Rightarrow> 0)"

definition in_bodies :: "hold_conn \<Rightarrow> nat" where
  "in_bodies x = (if hc_pc x = Unhold_client then 0 else unat (hc_held x)) + unat (in_call x)"

definition in_client :: "ref \<Rightarrow> hold_conn \<Rightarrow> nat" where
  "in_client cl x = (if hc_client x = cl then unat (hc_held x) + (case hc_pc x of Count_held n \<Rightarrow> unat n | _ \<Rightarrow> 0) else 0)"

definition sum_of :: "(hold_conn \<Rightarrow> nat) \<Rightarrow> (ref \<Rightarrow> hold_conn option) \<Rightarrow> nat" where
  "sum_of f m = (\<Sum>c \<in> dom m. f (the (m c)))"

lemma total_update:
  assumes "finite (dom m)" "m c = Some x"
  shows "sum_of f (m(c := Some y)) + f x = sum_of f m + f y" "f x \<le> sum_of f m"
proof -
  have c: "c \<in> dom m" using assms(2) by blast
  have d: "dom (m(c := Some y)) = insert c (dom m - {c})" by auto
  have same: "(\<Sum>v \<in> dom m - {c}. f (the ((m(c := Some y)) v))) = (\<Sum>v \<in> dom m - {c}. f (the (m v)))" by (rule sum.cong) auto
  have old: "sum_of f m = f x + (\<Sum>v \<in> dom m - {c}. f (the (m v)))" using sum.remove [OF assms(1) c, of "\<lambda>v. f (the (m v))"] assms(2) by (simp add: sum_of_def)
  have "sum_of f (m(c := Some y)) = f y + (\<Sum>v \<in> dom m - {c}. f (the ((m(c := Some y)) v)))"
    unfolding sum_of_def d using assms(1) by (subst sum.insert) simp_all
  then show "sum_of f (m(c := Some y)) + f x = sum_of f m + f y" using old same by simp
  show "f x \<le> sum_of f m" using old by simp
qed

lemma total_open: "finite (dom m) \<Longrightarrow> m c = None \<Longrightarrow> f y = 0 \<Longrightarrow> sum_of f (m(c := Some y)) = sum_of f m"
proof -
  assume a: "finite (dom m)" "m c = None" "f y = 0"
  have "c \<notin> dom m" "dom (m(c := Some y)) = insert c (dom m)" using a(2) by auto
  moreover have "(\<Sum>v \<in> dom m. f (the ((m(c := Some y)) v))) = (\<Sum>v \<in> dom m. f (the (m v)))" using a(2) by (intro sum.cong) auto
  ultimately show ?thesis using a(1,3) by (simp add: sum_of_def)
qed

lemma total_close: "finite (dom m) \<Longrightarrow> m c = Some x \<Longrightarrow> f x = 0 \<Longrightarrow> sum_of f (m(c := None)) = sum_of f m"
proof -
  assume a: "finite (dom m)" "m c = Some x" "f x = 0"
  have c: "c \<in> dom m" "dom (m(c := None)) = dom m - {c}" using a(2) by auto
  moreover have "(\<Sum>v \<in> dom m - {c}. f (the ((m(c := None)) v))) = (\<Sum>v \<in> dom m - {c}. f (the (m v)))" by (rule sum.cong) auto
  ultimately show ?thesis using sum.remove [OF a(1) c(1), of "\<lambda>v. f (the (m v))"] a(2,3) by (simp add: sum_of_def)
qed

text \<open>What holds in every state.\<close>

definition hub_ok :: "u64 \<Rightarrow> u64 \<Rightarrow> hub \<Rightarrow> bool" where
  "hub_ok mb mc s \<longleftrightarrow>
     finite (dom (hb_conn s)) \<and> unat (hb_bodies s) = sum_of in_bodies (hb_conn s) \<and> hb_bodies s \<le> mb \<and>
     (\<forall>cl. unat (hb_client s cl) = sum_of (in_client cl) (hb_conn s) \<and> hb_client s cl \<le> mc) \<and>
     (\<forall>c x. hb_conn s c = Some x \<longrightarrow>
        (\<forall>n used. hc_pc x = Swap_bodies n used \<longrightarrow> used \<le> mb) \<and> (\<forall>n used. hc_pc x = Swap_client n used \<longrightarrow> used \<le> mc))"

lemma word_taken: "n \<le> mx - used \<Longrightarrow> used \<le> mx \<Longrightarrow> unat (used + n) = unat used + unat n \<and> used + n \<le> mx" for n :: u64
proof -
  assume n: "n \<le> mx - used" "used \<le> mx"
  have "unat n \<le> unat mx - unat used" using n by (simp add: word_le_nat_alt unat_sub)
  then have le: "unat used + unat n \<le> unat mx" using n(2) by (simp add: word_le_nat_alt)
  then have "unat used + unat n < 2 ^ LENGTH(64)" using unsigned_less [of mx, where ?'a = nat] by simp
  then have "unat (used + n) = unat used + unat n" by (simp add: unat_add_lem [THEN iffD1])
  then show ?thesis using le by (simp add: word_le_nat_alt)
qed

text \<open>A change of one connection that leaves the budgets alone, or takes from them or gives back as much as it changes what the connection has.\<close>

lemma hub_ok_put:
  assumes ok: "hub_ok mb mc s" and x: "hb_conn s c = Some x" and cl: "hc_client y = hc_client x"
    and b: "unat bodies + in_bodies x = unat (hb_bodies s) + in_bodies y" "bodies \<le> mb"
    and m: "unat client + in_client (hc_client x) x = unat (hb_client s (hc_client x)) + in_client (hc_client x) y" "client \<le> mc"
    and pc: "\<And>n used. hc_pc y = Swap_bodies n used \<Longrightarrow> used \<le> mb" "\<And>n used. hc_pc y = Swap_client n used \<Longrightarrow> used \<le> mc"
    and s': "hb_bodies s' = bodies" "hb_client s' = (hb_client s)(hc_client x := client)" "hb_conn s' = (hb_conn s)(c := Some y)"
  shows "hub_ok mb mc s'"
proof -
  note O = ok [unfolded hub_ok_def]
  have fin: "finite (dom (hb_conn s))" using O by (elim conjE)
  note T = total_update(1) [OF fin x, where y = y]
  have "sum_of in_bodies (hb_conn s') + in_bodies x = sum_of in_bodies (hb_conn s) + in_bodies y" unfolding s'(3) by (rule T)
  moreover have "unat (hb_bodies s) = sum_of in_bodies (hb_conn s)" using O by (elim conjE)
  ultimately have 1: "unat (hb_bodies s') = sum_of in_bodies (hb_conn s')" using b(1) s'(1) by simp
  have 2: "unat (hb_client s' v) = sum_of (in_client v) (hb_conn s') \<and> hb_client s' v \<le> mc" for v
  proof (cases "v = hc_client x")
    case True
    have "sum_of (in_client v) (hb_conn s') + in_client v x = sum_of (in_client v) (hb_conn s) + in_client v y" unfolding s'(3) by (rule T)
    moreover have "unat (hb_client s v) = sum_of (in_client v) (hb_conn s)" using O by blast
    ultimately show ?thesis using m s'(2) True by simp
  next
    case False
    have z: "in_client v x = 0" "in_client v y = 0" using False cl by (simp_all add: in_client_def)
    have "sum_of (in_client v) (hb_conn s') + in_client v x = sum_of (in_client v) (hb_conn s) + in_client v y" unfolding s'(3) by (rule T)
    moreover have "unat (hb_client s v) = sum_of (in_client v) (hb_conn s) \<and> hb_client s v \<le> mc" using O by blast
    ultimately show ?thesis using s'(2) False z by simp
  qed
  have 3: "(\<forall>n used. hc_pc z = Swap_bodies n used \<longrightarrow> used \<le> mb) \<and> (\<forall>n used. hc_pc z = Swap_client n used \<longrightarrow> used \<le> mc)"
    if z: "hb_conn s' v = Some z" for v z
  proof (cases "v = c")
    case True
    then show ?thesis using z pc s'(3) by auto
  next
    case False
    then have "hb_conn s v = Some z" using z s'(3) by simp
    then show ?thesis using O by blast
  qed
  have "finite (dom (hb_conn s'))" using fin s'(3) by simp
  then show ?thesis unfolding hub_ok_def using 1 2 3 b(2) s'(1) by blast
qed

lemma hub_ok_step:
  assumes "hold_step mb mc s s'" "hub_ok mb mc s"
  shows "hub_ok mb mc s'"
  using assms
proof cases
  case (opened c cl)
  note O = assms(2) [unfolded hub_ok_def]
  have z: "in_bodies \<lparr>hc_client = cl, hc_held = 0, hc_pc = Outside\<rparr> = 0" "in_client v \<lparr>hc_client = cl, hc_held = 0, hc_pc = Outside\<rparr> = 0" for v
    by (simp_all add: in_bodies_def in_call_def in_client_def)
  have f: "finite (dom (hb_conn s))" using O by (elim conjE)
  show ?thesis using O total_open [where f = in_bodies, OF f opened(2) z(1)] total_open [where f = "in_client v" for v, OF f opened(2) z(2)] unfolding opened(1) by (auto simp: hub_ok_def put_conn_def)
next
  case (closed c x)
  note O = assms(2) [unfolded hub_ok_def]
  have z: "in_bodies x = 0" "in_client v x = 0" for v using closed(3,4) by (simp_all add: in_bodies_def in_call_def in_client_def)
  have f: "finite (dom (hb_conn s))" using O by (elim conjE)
  show ?thesis using O total_close [where f = in_bodies, OF f closed(2) z(1)] total_close [where f = "in_client v" for v, OF f closed(2) z(2)] unfolding closed(1) by (auto simp: hub_ok_def)
next
  case (called c x n)
  note O = assms(2) [unfolded hub_ok_def]
  show ?thesis
    by (rule hub_ok_put [OF assms(2) called(2), where y = "x\<lparr>hc_pc := if n = 0 then Returned None else Load_bodies n\<rparr>"])
      (use O called in \<open>auto simp: put_conn_def in_bodies_def in_call_def in_client_def split: if_splits\<close>)
next
  case (load_bodies c x n)
  note O = assms(2) [unfolded hub_ok_def]
  show ?thesis
    by (rule hub_ok_put [OF assms(2) load_bodies(2), where y = "x\<lparr>hc_pc := Swap_bodies n (hb_bodies s)\<rparr>"])
      (use O load_bodies in \<open>auto simp: put_conn_def in_bodies_def in_call_def in_client_def\<close>)
next
  case (bodies_full c x n used)
  note O = assms(2) [unfolded hub_ok_def]
  show ?thesis
    by (rule hub_ok_put [OF assms(2) bodies_full(2), where y = "x\<lparr>hc_pc := Returned (Some ENOBUFS)\<rparr>"])
      (use O bodies_full in \<open>auto simp: put_conn_def in_bodies_def in_call_def in_client_def\<close>)
next
  case (bodies_raced c x n used)
  note O = assms(2) [unfolded hub_ok_def]
  show ?thesis
    by (rule hub_ok_put [OF assms(2) bodies_raced(2), where y = "x\<lparr>hc_pc := Swap_bodies n (hb_bodies s)\<rparr>"])
      (use O bodies_raced in \<open>auto simp: put_conn_def in_bodies_def in_call_def in_client_def\<close>)
next
  case (bodies_taken c x n used)
  note O = assms(2) [unfolded hub_ok_def]
  have "used \<le> mb" using O bodies_taken(5) by auto
  note w = word_taken [OF bodies_taken(4) this]
  show ?thesis
    by (rule hub_ok_put [OF assms(2) bodies_taken(2), where y = "x\<lparr>hc_pc := Load_client n\<rparr>"])
      (use O bodies_taken w in \<open>auto simp: put_conn_def take_bodies_def in_bodies_def in_call_def in_client_def\<close>)
next
  case (load_client c x n)
  note O = assms(2) [unfolded hub_ok_def]
  show ?thesis
    by (rule hub_ok_put [OF assms(2) load_client(2), where y = "x\<lparr>hc_pc := Swap_client n (hb_client s (hc_client x))\<rparr>"])
      (use O load_client in \<open>auto simp: put_conn_def in_bodies_def in_call_def in_client_def\<close>)
next
  case (client_full c x n used)
  note O = assms(2) [unfolded hub_ok_def]
  show ?thesis
    by (rule hub_ok_put [OF assms(2) client_full(2), where y = "x\<lparr>hc_pc := Give_back n\<rparr>"])
      (use O client_full in \<open>auto simp: put_conn_def in_bodies_def in_call_def in_client_def\<close>)
next
  case (client_raced c x n used)
  note O = assms(2) [unfolded hub_ok_def]
  show ?thesis
    by (rule hub_ok_put [OF assms(2) client_raced(2), where y = "x\<lparr>hc_pc := Swap_client n (hb_client s (hc_client x))\<rparr>"])
      (use O client_raced in \<open>auto simp: put_conn_def in_bodies_def in_call_def in_client_def\<close>)
next
  case (client_taken c x n used)
  note O = assms(2) [unfolded hub_ok_def]
  have "used \<le> mc" using O client_taken(5) by auto
  note w = word_taken [OF client_taken(4) this]
  show ?thesis
    by (rule hub_ok_put [OF assms(2) client_taken(2), where y = "x\<lparr>hc_pc := Count_held n\<rparr>"])
      (use O client_taken w in \<open>auto simp: put_conn_def take_client_def in_bodies_def in_call_def in_client_def\<close>)
next
  case (give_back c x n)
  note O = assms(2) [unfolded hub_ok_def]
  have "in_bodies x \<le> unat (hb_bodies s)" using O total_update(2) [of "hb_conn s" c x in_bodies] give_back(2) by auto
  then have n: "n \<le> hb_bodies s" using give_back(3) by (simp add: in_bodies_def in_call_def word_le_nat_alt)
  then have "hb_bodies s - n \<le> mb" using O by (metis order_trans word_sub_le)
  then show ?thesis
    by (intro hub_ok_put [OF assms(2) give_back(2), where y = "x\<lparr>hc_pc := Returned (Some ENOBUFS)\<rparr>"])
      (use O give_back n in \<open>auto simp: put_conn_def in_bodies_def in_call_def in_client_def unat_sub word_le_nat_alt\<close>)
next
  case (count_held c x n)
  note O = assms(2) [unfolded hub_ok_def]
  have "in_bodies x \<le> unat (hb_bodies s)" using O total_update(2) [of "hb_conn s" c x in_bodies] count_held(2) by auto
  then have "unat (hc_held x) + unat n < 2 ^ LENGTH(64)"
    using count_held(3) unsigned_less [of "hb_bodies s", where ?'a = nat] by (simp add: in_bodies_def in_call_def)
  then have w: "unat (hc_held x + n) = unat (hc_held x) + unat n" by (simp add: unat_add_lem [THEN iffD1])
  show ?thesis
    by (rule hub_ok_put [OF assms(2) count_held(2), where y = "x\<lparr>hc_held := hc_held x + n, hc_pc := Returned None\<rparr>"])
      (use O count_held w in \<open>auto simp: put_conn_def in_bodies_def in_call_def in_client_def\<close>)
next
  case (returned c x e)
  note O = assms(2) [unfolded hub_ok_def]
  show ?thesis
    by (rule hub_ok_put [OF assms(2) returned(2), where y = "x\<lparr>hc_pc := Outside\<rparr>"])
      (use O returned in \<open>auto simp: put_conn_def in_bodies_def in_call_def in_client_def\<close>)
next
  case (unhold_bodies c x)
  note O = assms(2) [unfolded hub_ok_def]
  have "in_bodies x \<le> unat (hb_bodies s)" using O total_update(2) [of "hb_conn s" c x in_bodies] unhold_bodies(2) by auto
  then have n: "hc_held x \<le> hb_bodies s" using unhold_bodies(3) by (simp add: in_bodies_def in_call_def word_le_nat_alt)
  then have "hb_bodies s - hc_held x \<le> mb" using O by (metis order_trans word_sub_le)
  then show ?thesis
    by (intro hub_ok_put [OF assms(2) unhold_bodies(2), where y = "x\<lparr>hc_pc := Unhold_client\<rparr>"])
      (use O unhold_bodies n in \<open>auto simp: put_conn_def in_bodies_def in_call_def in_client_def unat_sub word_le_nat_alt\<close>)
next
  case (unhold_client c x)
  note O = assms(2) [unfolded hub_ok_def]
  let ?cl = "hc_client x"
  have "in_client ?cl x \<le> unat (hb_client s ?cl)" using O total_update(2) [of "hb_conn s" c x "in_client ?cl"] unhold_client(2) by auto
  then have n: "hc_held x \<le> hb_client s ?cl" using unhold_client(3) by (simp add: in_client_def word_le_nat_alt)
  then have "hb_client s ?cl - hc_held x \<le> mc" using O by (metis order_trans word_sub_le)
  then show ?thesis
    by (intro hub_ok_put [OF assms(2) unhold_client(2), where y = "x\<lparr>hc_held := 0, hc_pc := Outside\<rparr>"])
      (use O unhold_client n in \<open>auto simp: put_conn_def in_bodies_def in_call_def in_client_def unat_sub word_le_nat_alt\<close>)
qed

text \<open>The states that connections reach from none.\<close>

inductive hub_reach :: "u64 \<Rightarrow> u64 \<Rightarrow> hub \<Rightarrow> bool" for mb mc where
  start: "hub_reach mb mc hub_new"
| step: "hub_reach mb mc s \<Longrightarrow> hold_step mb mc s s' \<Longrightarrow> hub_reach mb mc s'"

lemma hub_reach_ok: "hub_reach mb mc s \<Longrightarrow> hub_ok mb mc s"
proof (induction rule: hub_reach.induct)
  case start
  then show ?case by (simp add: hub_ok_def hub_new_def sum_of_def)
next
  case (step s s')
  then show ?case using hub_ok_step by blast
qed

text \<open>The connection is in no call of \<^verbatim>\<open>httpd_conn_hold()\<close> or \<^verbatim>\<open>httpd_conn_unhold()\<close>.\<close>

definition quiet :: "hold_conn \<Rightarrow> bool" where
  "quiet x \<longleftrightarrow> hc_pc x = Outside \<or> (\<exists>e. hc_pc x = Returned e)"

lemma quiet_counts: "quiet x \<Longrightarrow> in_bodies x = unat (hc_held x) \<and> in_client cl x = (if hc_client x = cl then unat (hc_held x) else 0)"
  by (auto simp: quiet_def in_bodies_def in_call_def in_client_def)

definition held_all :: "hub \<Rightarrow> nat" where
  "held_all s = (\<Sum>c \<in> dom (hb_conn s). unat (hc_held (the (hb_conn s c))))"

definition held_for :: "ref \<Rightarrow> hub \<Rightarrow> nat" where
  "held_for cl s = (\<Sum>c \<in> {c \<in> dom (hb_conn s). hc_client (the (hb_conn s c)) = cl}. unat (hc_held (the (hb_conn s c))))"

lemma quiet_totals:
  assumes q: "\<And>c x. hb_conn s c = Some x \<Longrightarrow> quiet x" and fin: "finite (dom (hb_conn s))"
  shows "sum_of in_bodies (hb_conn s) = held_all s" "sum_of (in_client cl) (hb_conn s) = held_for cl s"
proof -
  have at: "in_bodies (the (hb_conn s c)) = unat (hc_held (the (hb_conn s c)))"
      "in_client cl (the (hb_conn s c)) = (if hc_client (the (hb_conn s c)) = cl then unat (hc_held (the (hb_conn s c))) else 0)"
    if d: "c \<in> dom (hb_conn s)" for c
  proof -
    obtain x where x: "hb_conn s c = Some x" using d by blast
    show "in_bodies (the (hb_conn s c)) = unat (hc_held (the (hb_conn s c)))"
      "in_client cl (the (hb_conn s c)) = (if hc_client (the (hb_conn s c)) = cl then unat (hc_held (the (hb_conn s c))) else 0)"
      using quiet_counts [OF q [OF x]] x by simp_all
  qed
  show "sum_of in_bodies (hb_conn s) = held_all s" unfolding sum_of_def held_all_def by (rule sum.cong [OF refl at(1)])
  have "sum_of (in_client cl) (hb_conn s) =
      (\<Sum>c \<in> dom (hb_conn s). if hc_client (the (hb_conn s c)) = cl then unat (hc_held (the (hb_conn s c))) else 0)"
    unfolding sum_of_def by (rule sum.cong [OF refl at(2)])
  also have "\<dots> = held_for cl s" unfolding held_for_def by (rule sum.inter_filter [OF fin, symmetric])
  finally show "sum_of (in_client cl) (hb_conn s) = held_for cl s" .
qed

text \<open>
  C30.  Bytes are counted in both budgets or in neither, however the loads, exchanges and subtractions of the calls of any number of
  connections interleave: no update of a budget is lost.  In every reachable state no budget is past its limit; while no call is under
  way, the budget of all clients is the sum of what the connections hold, and each client's the sum of what its connections hold.  A call that
  is about to fail for want of room in the client's budget has its bytes in the budget of all clients, and gives back exactly those.
\<close>

theorem hold_both_or_neither:
  assumes r: "hub_reach max_bodies max_client s"
  shows "hb_bodies s \<le> max_bodies \<and> hb_client s cl \<le> max_client \<and>
    ((\<forall>c x. hb_conn s c = Some x \<longrightarrow> quiet x) \<longrightarrow> unat (hb_bodies s) = held_all s \<and> unat (hb_client s cl) = held_for cl s) \<and>
    (\<forall>c x n. hb_conn s c = Some x \<longrightarrow> hc_pc x = Give_back n \<longrightarrow> unat (hc_held x) + unat n \<le> unat (hb_bodies s))"
proof -
  have ok: "finite (dom (hb_conn s))" "unat (hb_bodies s) = sum_of in_bodies (hb_conn s)" "hb_bodies s \<le> max_bodies"
      "unat (hb_client s cl) = sum_of (in_client cl) (hb_conn s)" "hb_client s cl \<le> max_client"
    using hub_reach_ok [OF r] by (simp_all add: hub_ok_def)
  have "unat (hb_bodies s) = held_all s \<and> unat (hb_client s cl) = held_for cl s" if "\<forall>c x. hb_conn s c = Some x \<longrightarrow> quiet x"
    using quiet_totals(1) [of s] quiet_totals(2) [of s cl] that ok by simp
  moreover have "unat (hc_held x) + unat n \<le> unat (hb_bodies s)" if "hb_conn s c = Some x" "hc_pc x = Give_back n" for c x n
    using total_update(2) [OF ok(1) that(1), of in_bodies] that(2) ok(2) by (simp add: in_bodies_def in_call_def)
  ultimately show ?thesis using ok(3,5) by blast
qed

text \<open>
  A call that no other comes between: it takes its bytes if there is room for them in both budgets, and is refused if there is
  none in the client's.
\<close>

lemma put_conn_simps:
  "put_conn c y (put_conn c x s) = put_conn c y s" "hb_conn (put_conn c x s) c = Some x"
  "hb_bodies (put_conn c x s) = hb_bodies s" "hb_client (put_conn c x s) = hb_client s"
  "take_bodies n (put_conn c x s) = put_conn c x (take_bodies n s)" "take_client cl n (put_conn c x s) = put_conn c x (take_client cl n s)"
  "(put_conn c x s)\<lparr>hb_bodies := b\<rparr> = put_conn c x (s\<lparr>hb_bodies := b\<rparr>)"
  "hb_bodies (take_bodies n s) = hb_bodies s + n" "hb_client (take_bodies n s) = hb_client s"
  "(take_bodies n s)\<lparr>hb_bodies := b\<rparr> = s\<lparr>hb_bodies := b\<rparr>"
  by (simp_all add: put_conn_def take_bodies_def take_client_def)

lemma call_bodies:
  assumes "hub_reach mb mc s" "hb_conn s c = Some x" "hc_pc x = Outside" "n \<noteq> 0" "n \<le> mb - hb_bodies s"
  shows "hub_reach mb mc (put_conn c (x\<lparr>hc_pc := Swap_client n (hb_client s (hc_client x))\<rparr>) (take_bodies n s))"
proof -
  let ?at = "\<lambda>pc. put_conn c (x\<lparr>hc_pc := pc\<rparr>)"
  have "hub_reach mb mc (?at (Load_bodies n) s)"
    using step [OF assms(1) called [OF assms(2,3), of mb mc n]] assms(4) by simp
  from step [OF this load_bodies [where n = n and c = c]] have "hub_reach mb mc (?at (Swap_bodies n (hb_bodies s)) s)"
    by (simp add: put_conn_simps)
  from step [OF this bodies_taken [where n = n and used = "hb_bodies s" and c = c]] have "hub_reach mb mc (?at (Load_client n) (take_bodies n s))"
    using assms(5) by (simp add: put_conn_simps)
  from step [OF this load_client [where n = n and c = c]] show ?thesis by (simp add: put_conn_simps)
qed

lemma call_taken:
  assumes "hub_reach mb mc s" "hb_conn s c = Some x" "hc_pc x = Outside" "n \<noteq> 0" "n \<le> mb - hb_bodies s"
    "n \<le> mc - hb_client s (hc_client x)"
  shows "hub_reach mb mc (put_conn c (x\<lparr>hc_held := hc_held x + n, hc_pc := Returned None\<rparr>) (take_client (hc_client x) n (take_bodies n s)))"
proof -
  from step [OF call_bodies [OF assms(1-5)] client_taken [where n = n and used = "hb_client s (hc_client x)" and c = c]]
  have "hub_reach mb mc (put_conn c (x\<lparr>hc_pc := Count_held n\<rparr>) (take_client (hc_client x) n (take_bodies n s)))"
    using assms(6) by (simp add: put_conn_simps)
  from step [OF this count_held [where n = n and c = c]] show ?thesis by (simp add: put_conn_simps)
qed

lemma call_refused:
  assumes "hub_reach mb mc s" "hb_conn s c = Some x" "hc_pc x = Outside" "n \<noteq> 0" "n \<le> mb - hb_bodies s"
    "\<not> n \<le> mc - hb_client s (hc_client x)"
  shows "hub_reach mb mc (put_conn c (x\<lparr>hc_pc := Returned (Some ENOBUFS)\<rparr>) s)"
proof -
  from step [OF call_bodies [OF assms(1-5)] client_full [where n = n and used = "hb_client s (hc_client x)" and c = c]]
  have "hub_reach mb mc (put_conn c (x\<lparr>hc_pc := Give_back n\<rparr>) (take_bodies n s))"
    using assms(6) by (simp add: put_conn_simps)
  from step [OF this give_back [where n = n and c = c]] show ?thesis by (simp add: put_conn_simps)
qed

text \<open>Two connections of a client, the second of which is refused the bytes that the first has taken.\<close>

abbreviation hconn :: "u64 \<Rightarrow> hold_pc \<Rightarrow> hold_conn" where
  "hconn h pc \<equiv> \<lparr>hc_client = 7, hc_held = h, hc_pc = pc\<rparr>"

definition two_conns :: hub where
  "two_conns = put_conn 2 (hconn 0 (Returned (Some ENOBUFS)))
     (put_conn 4 (hconn 5 (Returned None)) (take_client 7 5 (take_bodies 5 hub_new)))"

lemma two_conns_reach: "hub_reach 10 6 two_conns"
proof -
  have "hub_reach 10 6 (put_conn 4 (hconn 0 Outside) hub_new)" by (rule step [OF start opened]) (simp add: hub_new_def)
  from call_taken [OF this, where c = 4 and n = 5 and x = "hconn 0 Outside"]
  have "hub_reach 10 6 (put_conn 4 (hconn 5 (Returned None)) (take_client 7 5 (take_bodies 5 hub_new)))"
    by (simp add: put_conn_simps hub_new_def)
  from step [OF this opened [where c = 2 and cl = 7]]
  have "hub_reach 10 6 (put_conn 2 (hconn 0 Outside) (put_conn 4 (hconn 5 (Returned None)) (take_client 7 5 (take_bodies 5 hub_new))))"
    by (simp add: put_conn_def hub_new_def take_client_def take_bodies_def)
  from call_refused [OF this, where c = 2 and n = 5 and x = "hconn 0 Outside"] show ?thesis
    by (simp add: two_conns_def put_conn_simps) (simp add: take_client_def take_bodies_def hub_new_def put_conn_def word_le_nat_alt)
qed

theorem hold_both_or_neither_witness: "unat (hb_bodies two_conns) = held_all two_conns"
proof -
  have "quiet x" if "hb_conn two_conns c = Some x" for c x
    using that by (auto simp: two_conns_def put_conn_def take_client_def take_bodies_def hub_new_def quiet_def split: if_splits)
  then show ?thesis using hold_both_or_neither [OF two_conns_reach, of 7] by blast
qed

end
