(* ===== verification/Names.thy ===== *)
theory Names
  imports Util
begin

text \<open>
  Names of Git objects (\<^verbatim>\<open>src/oid.h\<close>) and random ids (\<^verbatim>\<open>src/hexid.h\<close>): character arrays of fixed size that hold lowercase
  hexadecimal digits and zeros.  The lemmas show that exactly the valid names are accepted, that a name is read back as it was
  given, and that a field or a line is split exactly after a valid name.
\<close>

section \<open>Names of Git objects\<close>

definition OID_NONE :: nat where "OID_NONE = 0"
definition OID_SHA1 :: nat where "OID_SHA1 = 40"
definition OID_SHA256 :: nat where "OID_SHA256 = 64"

text \<open>The array of \<^verbatim>\<open>struct oid\<close>.\<close>

type_synonym oid = bytes

definition oid_cleared :: oid where
  "oid_cleared = zeros (OID_SHA256 + 1)"

definition oid_len :: "oid \<Rightarrow> nat" where
  "oid_len oid = (if oid ! 0 = 0 then 0 else if oid ! OID_SHA1 \<noteq> 0 then OID_SHA256 else OID_SHA1)"

definition oid_view :: "oid \<Rightarrow> cstr_view" where
  "oid_view oid = take (oid_len oid) oid"

definition oid_valid :: "cstr_view \<Rightarrow> bool" where
  "oid_valid hex \<longleftrightarrow> (length hex = OID_SHA1 \<or> length hex = OID_SHA256) \<and> util_is_hex hex"

definition oid_init :: "oid \<Rightarrow> cstr_view \<Rightarrow> errno option \<times> oid" where
  "oid_init oid hex =
     (let oid = oid_cleared
      in if \<not> oid_valid hex then (Some EINVAL, oid) else (None, overwrite oid 0 hex))"

definition oid_init_field :: "oid \<Rightarrow> cstr_view \<Rightarrow> byte \<Rightarrow> errno option \<times> oid \<times> cstr_view" where
  "oid_init_field oid txt fin =
     (let n = (if length txt > OID_SHA1 \<and> txt ! OID_SHA1 = fin then OID_SHA1
               else if length txt > OID_SHA256 \<and> txt ! OID_SHA256 = fin then OID_SHA256 else 0);
          (e, oid) = oid_init oid (cstr_view_slice txt 0 n)
      in (e, oid, if e = None then cstr_view_slice txt (n + 1) SIZE_MAX else txt))"

definition oid_init_line :: "oid \<Rightarrow> cstr_view \<Rightarrow> errno option \<times> oid" where
  "oid_init_line oid out =
     (let line = out \<noteq> [] \<and> out ! (length out - 1) = 10
      in oid_init oid (cstr_view_slice out 0 (if line then length out - 1 else 0)))"

text \<open>\<^verbatim>\<open>strcmp()\<close> on two arrays says whether their strings are the same.\<close>

definition c_string :: "bytes \<Rightarrow> bytes" where
  "c_string s = takeWhile (\<lambda>c. c \<noteq> 0) s"

definition oid_equal :: "oid \<Rightarrow> oid \<Rightarrow> bool" where
  "oid_equal a b \<longleftrightarrow> c_string a = c_string b"

definition oid_starts :: "oid \<Rightarrow> cstr_view \<Rightarrow> bool" where
  "oid_starts oid p \<longleftrightarrow> cstr_view_starts (oid_view oid) p"

definition oid_format :: "cstr_view \<Rightarrow> nat" where
  "oid_format name =
     (if cstr_view_equal name (ascii ''sha1'') then OID_SHA1 else if cstr_view_equal name (ascii ''sha256'') then OID_SHA256 else OID_NONE)"

definition oid_zero :: "nat \<Rightarrow> oid" where
  "oid_zero fmt = overwrite oid_cleared 0 (replicate fmt (ch CHR ''0''))"

section \<open>Random ids\<close>

definition HEXID_DIGITS :: nat where "HEXID_DIGITS = 32"

type_synonym hexid = bytes

definition hexid_cleared :: hexid where
  "hexid_cleared = zeros (HEXID_DIGITS + 1)"

definition hexid_valid :: "cstr_view \<Rightarrow> bool" where
  "hexid_valid hex \<longleftrightarrow> length hex = HEXID_DIGITS \<and> util_is_hex hex"

text \<open>\<^verbatim>\<open>hexid_make()\<close> on what the calls of \<^verbatim>\<open>getrandom()\<close> do; \<open>None\<close> while none has returned.\<close>

definition hexid_make :: "got list \<Rightarrow> hexid \<Rightarrow> (errno option \<times> hexid) option" where
  "hexid_make gs hid =
     (let hid = hexid_cleared
      in case util_random_hex gs (HEXID_DIGITS div 2) of
           None \<Rightarrow> None
         | Some (Inl e) \<Rightarrow> Some (Some e, hid)
         | Some (Inr hex) \<Rightarrow> Some (None, overwrite hid 0 hex))"

definition hexid_init :: "hexid \<Rightarrow> cstr_view \<Rightarrow> errno option \<times> hexid" where
  "hexid_init hid hex =
     (let hid = hexid_cleared
      in if \<not> hexid_valid hex then (Some EINVAL, hid) else (None, overwrite hid 0 hex))"

definition hexid_view :: "hexid \<Rightarrow> cstr_view" where
  "hexid_view hid = take (if hid ! 0 \<noteq> 0 then HEXID_DIGITS else 0) hid"

definition hexid_equal :: "hexid \<Rightarrow> hexid \<Rightarrow> bool" where
  "hexid_equal a b \<longleftrightarrow> c_string a = c_string b"

section \<open>Facts\<close>

lemma hex_not_zero: "util_is_hex s \<Longrightarrow> 0 \<notin> set s"
  by (induction s rule: util_is_hex.induct) (auto split: if_splits)

lemma overwrite_start: "length s \<le> n \<Longrightarrow> overwrite (zeros n) 0 s = s @ zeros (n - length s)"
  by (simp add: overwrite_def)

lemma c_string_padded: "0 \<notin> set s \<Longrightarrow> c_string (s @ zeros n) = s"
proof -
  assume "0 \<notin> set s"
  then have "takeWhile (\<lambda>c. c \<noteq> 0) (s @ zeros n) = s @ takeWhile (\<lambda>c. c \<noteq> 0) (zeros n)" by (intro takeWhile_append2) auto
  moreover have "takeWhile (\<lambda>c. c \<noteq> 0) (zeros n) = []" by (cases n) (simp_all add: zeros_def)
  ultimately show ?thesis by (simp add: c_string_def)
qed

text \<open>What an array of a name holds: a valid name or nothing.\<close>

definition oid_holds :: "oid \<Rightarrow> bytes \<Rightarrow> bool" where
  "oid_holds oid name \<longleftrightarrow> oid = name @ zeros (OID_SHA256 + 1 - length name) \<and> (name = [] \<or> oid_valid name)"

lemma oid_init_eq:
  "oid_init oid hex = (if oid_valid hex then (None, hex @ zeros (65 - length hex)) else (Some EINVAL, zeros 65))"
  by (auto simp: oid_init_def oid_cleared_def OID_SHA256_def oid_valid_def OID_SHA1_def Let_def overwrite_start)

lemma zeros_nth: "i < n \<Longrightarrow> zeros n ! i = 0"
  by (simp add: zeros_def)

lemma oid_holds_view: "oid_holds oid name \<Longrightarrow> oid_view oid = name \<and> c_string oid = name \<and> oid_len oid = length name"
proof -
  assume h: "oid_holds oid name"
  then have o: "oid = name @ zeros (65 - length name)" by (simp add: oid_holds_def OID_SHA256_def)
  show ?thesis
  proof (cases "name = []")
    case True
    then show ?thesis using o c_string_padded [of "[]"] by (simp add: oid_view_def oid_len_def zeros_nth)
  next
    case False
    then have v: "length name = 40 \<or> length name = 64" "0 \<notin> set name"
      using h hex_not_zero by (auto simp: oid_holds_def oid_valid_def OID_SHA1_def OID_SHA256_def)
    have n0: "oid ! 0 = name ! 0" "name ! 0 \<noteq> 0" using False v(2) by (simp add: o nth_append, metis length_greater_0_conv nth_mem)
    have "oid ! 40 = 0 \<longleftrightarrow> length name = 40"
    proof (cases "length name = 40")
      case True
      then show ?thesis by (simp add: o nth_append zeros_nth)
    next
      case False
      then have "40 < length name" using v(1) by simp
      then have "name ! 40 \<noteq> 0" using nth_mem v(2) by metis
      then show ?thesis using False \<open>40 < length name\<close> by (simp add: o nth_append)
    qed
    then have "oid_len oid = length name" using n0 v(1) by (auto simp: oid_len_def OID_SHA1_def OID_SHA256_def)
    then show ?thesis using v(2) c_string_padded [of name] by (simp add: oid_view_def o)
  qed
qed

lemma oid_init_holds: "oid_init oid hex = (e, oid') \<Longrightarrow> oid_holds oid' (if oid_valid hex then hex else [])"
  by (auto simp: oid_init_eq oid_holds_def OID_SHA256_def split: if_splits)

section \<open>Properties\<close>

text \<open>
  Exactly the runs of 40 or 64 lowercase hexadecimal digits are names; a name is read back as it was given, whether an object's
  name starts with a prefix is whether its digits do, two objects have the same name exactly if their digits are the same; and
  anything else gives \<^verbatim>\<open>EINVAL\<close> and no name.
\<close>

theorem oid_reads_names:
  "fst (oid_init oid hex) = (if oid_valid hex then None else Some EINVAL) \<and>
   oid_view (snd (oid_init oid hex)) = (if oid_valid hex then hex else []) \<and>
   (oid_starts (snd (oid_init oid hex)) p \<longleftrightarrow> (\<exists>rest. (if oid_valid hex then hex else []) = p @ rest)) \<and>
   (oid_equal (snd (oid_init oid hex)) (snd (oid_init oid' hex')) \<longleftrightarrow>
      (if oid_valid hex then hex else []) = (if oid_valid hex' then hex' else []))"
  using oid_holds_view [OF oid_init_holds [of oid hex "fst (oid_init oid hex)" "snd (oid_init oid hex)"]]
    oid_holds_view [OF oid_init_holds [of oid' hex' "fst (oid_init oid' hex')" "snd (oid_init oid' hex')"]]
  by (simp add: oid_starts_def oid_equal_def cstr_view_starts_iff) (simp add: oid_init_eq)

text \<open>
  A name at the start of a text, before a byte that is no digit, is taken with that byte exactly if it is a valid one; else
  the text is unchanged.  A line is a name exactly if it is one name and a line feed.
\<close>

theorem oid_fields_and_lines:
  assumes "\<not> util_is_hex [fin]" "length txt \<le> SIZE_MAX"
  shows "(case oid_init_field oid txt fin of
      (None, oid', rest) \<Rightarrow> txt = oid_view oid' @ fin # rest \<and> oid_valid (oid_view oid')
    | (Some e, oid', rest) \<Rightarrow> e = EINVAL \<and> oid_view oid' = [] \<and> rest = txt \<and> (\<nexists>name rest. oid_valid name \<and> txt = name @ fin # rest)) \<and>
    (fst (oid_init_line oid txt) = None \<longleftrightarrow> (\<exists>name. oid_valid name \<and> txt = name @ [10] \<and> oid_view (snd (oid_init_line oid txt)) = name))"
proof
  define n where "n = (if length txt > OID_SHA1 \<and> txt ! OID_SHA1 = fin then OID_SHA1
               else if length txt > OID_SHA256 \<and> txt ! OID_SHA256 = fin then OID_SHA256 else 0)"
  obtain e oid' where i: "oid_init oid (take n txt) = (e, oid')" by (metis surj_pair)
  have run: "oid_init_field oid txt fin = (e, oid', if e = None then drop (n + 1) txt else txt)"
    using i slice_rest [OF assms(2)] by (simp add: oid_init_field_def cstr_view_slice_eq n_def Let_def)
  note v = oid_holds_view [OF oid_init_holds [OF i]]
  have ev: "e = None \<longleftrightarrow> oid_valid (take n txt)" "e \<noteq> None \<longrightarrow> e = Some EINVAL" using i by (auto simp: oid_init_eq split: if_splits)
  have at: "n < length txt \<and> txt ! n = fin" if "n \<noteq> 0" using that by (auto simp: n_def split: if_splits)
  have ne: "\<not> oid_valid []" by (simp add: oid_valid_def OID_SHA1_def OID_SHA256_def)
  have found: "take n txt = name" if "oid_valid name" "txt = name @ fin # rest" for name rest
  proof -
    have hex: "util_is_hex [name ! 40]" if "40 < length name"
    proof -
      have "util_is_hex name" using \<open>oid_valid name\<close> by (simp only: oid_valid_def)
      then have "list_all (\<lambda>c. util_is_hex [c]) name" by (simp only: util_is_hex_all [of name])
      then show ?thesis using that by (simp only: list_all_length)
    qed
    have "n = length name"
    proof (cases "length name = 40")
      case True
      then show ?thesis using that(2) by (simp add: n_def OID_SHA1_def nth_append)
    next
      case False
      then have l: "length name = 64" using that(1) by (simp add: oid_valid_def OID_SHA1_def OID_SHA256_def)
      then have "txt ! 40 \<noteq> fin" "txt ! 64 = fin" using hex assms(1) that(2) by (auto simp: nth_append)
      then show ?thesis using l that(2) by (simp add: n_def OID_SHA1_def OID_SHA256_def)
    qed
    then show ?thesis using that(2) by simp
  qed
  show "case oid_init_field oid txt fin of
      (None, oid', rest) \<Rightarrow> txt = oid_view oid' @ fin # rest \<and> oid_valid (oid_view oid')
    | (Some e, oid', rest) \<Rightarrow> e = EINVAL \<and> oid_view oid' = [] \<and> rest = txt \<and> (\<nexists>name rest. oid_valid name \<and> txt = name @ fin # rest)"
  proof (cases "oid_valid (take n txt)")
    case True
    then have "n \<noteq> 0" using ne by (intro notI) simp
    then have "txt = take n txt @ fin # drop (n + 1) txt" using at by (metis Suc_eq_plus1 id_take_nth_drop)
    moreover have "e = None" "oid_view oid' = take n txt" using True ev v by simp_all
    ultimately show ?thesis unfolding run using True by (simp only: prod.case option.case simp_thms if_True)
  next
    case False
    then have "e = Some EINVAL" using ev by auto
    moreover have "\<nexists>name rest. oid_valid name \<and> txt = name @ fin # rest"
    proof (intro notI, elim exE conjE)
      fix name rest
      assume "oid_valid name" "txt = name @ fin # rest"
      from found [OF this] False \<open>oid_valid name\<close> show False by simp
    qed
    ultimately show ?thesis unfolding run using v False by simp
  qed
next
  let ?line = "txt \<noteq> [] \<and> txt ! (length txt - 1) = 10"
  obtain e oid' where i: "oid_init oid (take (if ?line then length txt - 1 else 0) txt) = (e, oid')" by (metis surj_pair)
  have run: "oid_init_line oid txt = (e, oid')" using i by (simp add: oid_init_line_def cstr_view_slice_eq Let_def)
  note v = oid_holds_view [OF oid_init_holds [OF i]]
  have ev: "e = None \<longleftrightarrow> oid_valid (take (if ?line then length txt - 1 else 0) txt)" using i by (auto simp: oid_init_eq split: if_splits)
  have ne: "\<not> oid_valid []" by (simp add: oid_valid_def OID_SHA1_def OID_SHA256_def)
  show "fst (oid_init_line oid txt) = None \<longleftrightarrow> (\<exists>name. oid_valid name \<and> txt = name @ [10] \<and> oid_view (snd (oid_init_line oid txt)) = name)"
  proof (cases ?line)
    case True
    then have t: "txt = take (length txt - 1) txt @ [10]" by (metis append_butlast_last_id butlast_conv_take last_conv_nth)
    show ?thesis unfolding run fst_conv snd_conv ev using v True t by (auto simp: if_P)
  next
    case False
    then show ?thesis unfolding run fst_conv snd_conv ev using ne by auto
  qed
qed

theorem oid_fields_and_lines_witness:
  "fst (oid_init_field oid_cleared (replicate 40 97 @ [32, 98]) 32) = None"
proof -
  have h: "\<not> util_is_hex [32]" "oid_valid (replicate 40 97)" by (simp, code_simp)
  have "length (replicate 40 97 @ [32, 98] :: bytes) \<le> SIZE_MAX" by (simp add: SIZE_MAX_def)
  from oid_fields_and_lines [OF h(1) this, of oid_cleared] h(2) show ?thesis
    by (cases "fst (oid_init_field oid_cleared (replicate 40 97 @ [32, 98]) 32)") (auto split: prod.splits)
qed

text \<open>
  A new id is valid and is read back as it is; whatever the source of randomness does, an error leaves no id, and an interrupted
  call is made again.
\<close>

theorem hexid_make_makes_id:
  assumes "hexid_make gs hid = Some (e, hid')"
  shows "case e of
      None \<Rightarrow> hexid_valid (hexid_view hid') \<and> hexid_init any (hexid_view hid') = (None, hid') \<and>
        (\<exists>bits. Got bits \<in> set gs \<and> length bits = 16 \<and> hexid_view hid' = util_hex bits)
    | Some x \<Rightarrow> x \<noteq> EINTR \<and> hexid_view hid' = [] \<and> hexid_equal hid' hexid_cleared"
proof -
  have rl: "random_loop gs 16 = Some r \<Longrightarrow>
      (case r of Inl x \<Rightarrow> x \<noteq> EINTR | Inr bits \<Rightarrow> length bits = 16 \<and> Got bits \<in> set gs)" for gs r
    by (induction gs "16::nat" rule: random_loop.induct) (auto split: if_splits sum.splits)
  obtain r where r: "random_loop gs 16 = Some r"
    using assms by (cases "random_loop gs 16") (simp_all add: hexid_make_def util_random_hex_def util_random_def HEXID_DIGITS_def UTIL_RANDOM_MAX_def)
  have run: "hexid_make gs hid = (case r of Inl e \<Rightarrow> Some (Some e, hexid_cleared) | Inr bits \<Rightarrow> Some (None, overwrite hexid_cleared 0 (util_hex bits)))"
    using r by (simp add: hexid_make_def util_random_hex_def util_random_def HEXID_DIGITS_def UTIL_RANDOM_MAX_def Let_def split: sum.split)
  show ?thesis
  proof (cases r)
    case (Inl x)
    then show ?thesis using assms run rl [OF r] by (auto simp: hexid_view_def hexid_cleared_def HEXID_DIGITS_def zeros_nth hexid_equal_def)
  next
    case (Inr bits)
    then have b: "length bits = 16" "Got bits \<in> set gs" using rl [OF r] by simp_all
    let ?hex = "util_hex bits"
    have l: "length ?hex = 32" using b by simp
    have e: "e = None" "hid' = ?hex @ zeros 1"
      using assms run Inr overwrite_start [of ?hex 33] l by (simp_all add: hexid_cleared_def HEXID_DIGITS_def)
    have "?hex ! 0 \<noteq> 0" using hex_not_zero [OF util_is_hex_util_hex [of bits]] l by (metis nth_mem zero_less_numeral)
    then have v: "hexid_view hid' = ?hex" using e(2) l by (simp add: hexid_view_def HEXID_DIGITS_def nth_append)
    have "hexid_init any ?hex = (None, hid')"
      using l e(2) overwrite_start [of ?hex 33] by (simp add: hexid_init_def hexid_valid_def hexid_cleared_def HEXID_DIGITS_def)
    then show ?thesis using e(1) v l b by (auto simp: hexid_valid_def HEXID_DIGITS_def)
  qed
qed

theorem hexid_make_makes_id_witness:
  "\<exists>hid'. hexid_make [Failed EINTR, Got (replicate 16 7)] hexid_cleared = Some (None, hid') \<and> hexid_valid (hexid_view hid')"
proof -
  have "fst (the (hexid_make [Failed EINTR, Got (replicate 16 7)] hexid_cleared)) = None"
      "hexid_make [Failed EINTR, Got (replicate 16 7)] hexid_cleared \<noteq> None" by code_simp+
  then obtain hid' where r: "hexid_make [Failed EINTR, Got (replicate 16 7)] hexid_cleared = Some (None, hid')" by auto
  have "hexid_valid (hexid_view hid')" using hexid_make_makes_id [OF r, of "[]"] unfolding option.case by (elim conjE)
  then show ?thesis using r by (intro exI [of _ hid'] conjI)
qed

end
