(* ===== verification/Spec2Isabelle.thy ===== *)
theory Spec2Isabelle
  imports Buf Json Registry Subids Policy Grants Hist Util_Text Util_Io Inbox Handles Timers Steps Ring Htab Dstr Sse Jb_Text Jb_Scan Datauri Httpd_Head Httpd_Chunk Httpd_Budget Names
begin

text \<open>
  A verification library for twinception's \<^verbatim>\<open>askai\<close>: a single-process server in C23 that offers tools to clients over MCP, with
  an event loop for each thread, an HTTP server, an HTTP client, and plugins.  Paths below are those under the repository's
  \<^verbatim>\<open>src/\<close>.  The development models the program's foundations and the parts of its core that decide something: what is kept
  where, in which order things happen, what a text means, who may do what.

  \<^bold>\<open>How the parts interact.\<close>  Each thread runs an event loop (\<^verbatim>\<open>loop.c\<close>).  Other threads post messages to its inbox; objects of
  the loop are named by handles; timers are in a heap; work that does not end at once is a step on a ready list, and each step has a
  share of every resource.  Bytes of connections are in buffers (\<^verbatim>\<open>buf.c\<close>) whose storage comes from the thread's stash.  The
  HTTP server (\<^verbatim>\<open>httpd.c\<close>) parses heads and decodes bodies in such a buffer and hands them to an application, \<^verbatim>\<open>mcp.c\<close>, as
  JSON texts (\<^verbatim>\<open>jb.c\<close>).  The policy (\<^verbatim>\<open>policy.c\<close>) says which tools of the registry (\<^verbatim>\<open>registry.c\<close>) the client gets.  A call
  that outlives its request has a record in the ledger (\<^verbatim>\<open>ledger.c\<close>), which posts messages to the loops of those who wait for it.
  Answers of upstream servers come as streams of events (\<^verbatim>\<open>sse.c\<close>).

  \<^bold>\<open>The theories.\<close>
  \<^item> \<open>Prelude\<close>: machine types, error numbers, the allocator as a tape of outcomes, storage and the lemmas the components share.
  \<^item> \<open>Cstr_View\<close>, \<open>Util\<close>, \<open>Util_Text\<close>, \<open>Util_Io\<close>: views of strings (\<^verbatim>\<open>cstr_view.h\<close>) and \<^verbatim>\<open>util.h\<close>: numbers and hexadecimal,
    clipping, words, paths and URLs, bounded formatting, hashing, growing arrays and whole reads and writes.
  \<^item> \<open>Dstr\<close>: dynamic strings (\<^verbatim>\<open>dstr.h\<close>, \<^verbatim>\<open>dstr.c\<close>), byte for byte, with the string in place and the string in a buffer; the
    abstract content is a byte string, and every operation refines one on it.  \<open>Sse\<close> builds the event parser on them.
  \<^item> \<open>Ring\<close>, \<open>Htab\<close>: intrusive lists and hash tables (\<^verbatim>\<open>list.h\<close>, \<^verbatim>\<open>htab.h\<close>) pointer for pointer; the laws of a table and of
    a list are locales that the pointer programs are shown to fulfil.
  \<^item> \<open>Inbox\<close>, \<open>Handles\<close>, \<open>Timers\<close>, \<open>Steps\<close>: the event loop.  The inbox is a step relation over the interleavings of
    any number of posters and the loop at the grain of their atomic operations; the others are functions on the loop's fields.
  \<^item> \<open>Buf\<close>: buffers, and the stashes of threads with their free lists, which are linked through the storage they keep, and
    between which blocks may pass.
  \<^item> \<open>Httpd_Head\<close>, \<open>Httpd_Chunk\<close>: request heads, chunked bodies and their budgets.  \<open>Httpd_Budget\<close>: the budgets again, as a step
    relation over the interleavings of the atomic operations of all connections.
  \<^item> \<open>Json\<close>, \<open>Jb_Text\<close>, \<open>Jb_Scan\<close>, \<open>Datauri\<close>: JSON values as json-c gives them, the text that goes into JSON, the
    scan that says what parsing a text would cost before it is parsed, and data URIs.
  \<^item> \<open>Registry\<close>, \<open>Subids\<close>, \<open>Policy\<close>, \<open>Grants\<close>: the tools and plugins, the subordinate ids of the system, the policy from
    the configuration file, step by step as \<^verbatim>\<open>policy_create()\<close> builds it, and what clients get from it.
  \<^item> \<open>Names\<close>, \<open>Hist\<close>: names of Git objects and random ids; histograms, tallies and times.

  \<^bold>\<open>What the lemmas show.\<close>  For each component: the invariant of its state and that every operation keeps it on every
  branch, failures of allocations included; what each operation does on the abstract content; which errors it returns and that it
  then changes nothing, or what it changes; and the properties that hold for sequences of operations: no lost wake-up and delivery in
  order, handles that stay dead, fair and bounded steps, one holder for each block, independence of how input is cut, one framing
  for each request, limits that no input passes, and for the policy that a client gets exactly what a role lists and is
  entitled to that role.

  \<^bold>\<open>Conventions and bounds.\<close>  A function that returns 0 or an error gives an \<open>errno option\<close>; one that returns a value or an error gives
  a sum.  Integers keep their width where they can wrap; sizes of objects in memory are natural numbers.  Allocations
  succeed or fail as a tape says, or the address that \<^verbatim>\<open>malloc()\<close> answers is an argument; every theorem is for all of them.
  Loops are recursive functions with a termination proof.  Loops that end only if the system answers (retried
  system calls, formatting into a growing buffer, lookups of groups) are \<open>partial_function (option)\<close>, and the theorems about
  them say that they return.  No fuel is used.  What the code calls outside the repository is an argument:
  json-c's values are the datatype \<open>json\<close>, SHA-256, HMAC, the group database, the clock, \<^verbatim>\<open>vsnprintf()\<close> and the files' texts are
  functions or values, with named hypotheses only where the code relies on their documented behaviour.

  \<^bold>\<open>Not modelled.\<close>  The parts whose work is calls of the system, of libraries or of a terminal: sockets, TLS, child processes, plugin
  loading, the command line, its console and its completion, and the tools (\<^verbatim>\<open>git.c\<close>, \<^verbatim>\<open>review.c\<close>, \<^verbatim>\<open>godbolt.c\<close>,
  \<^verbatim>\<open>notes.c\<close>, \<^verbatim>\<open>web.c\<close>, \<^verbatim>\<open>home.c\<close>), which mostly build and read JSON and HTTP messages of other programs; the dispatch of
  MCP messages (\<^verbatim>\<open>mcp.c\<close>), which is glue between the parts above and the tools; and the reading of the configuration
  (\<^verbatim>\<open>config.c\<close>), a table of members and their defaults.  Their interfaces to what is modelled appear as arguments of it: an
  application that takes body bytes, a step of work, a message handler.  Texts of messages and the log are left out everywhere.
\<close>

end
